(* ===== verification/Oly_Prelude.thy ===== *)
theory Oly_Prelude
  imports Main "HOL-Library.Word"
begin

text \<open>
  Shared base of the development: the outcome of running a piece of C code, checked reads
  and writes of an array object, \<open>size_t\<close> arithmetic with its wrap-around, and the lemmas
  on these that the component theories use through the collections \<open>outcome_simps\<close>,
  \<open>mem_simps\<close> and \<open>size_simps\<close>.
\<close>

named_theorems outcome_simps "unfolding sequences of outcomes"
named_theorems mem_simps "reads and writes of array objects"
named_theorems size_simps "arithmetic of size_t values that does not wrap"

section \<open>Outcomes of C code\<close>

text \<open>
  A call returns (\<open>Ret\<close>), ends the process in a way the code asks for (\<open>Halt\<close>: a failed
  \<open>assert\<close>, \<open>abort\<close>, \<open>exit\<close>), or does something the C standard leaves undefined
  (\<open>Crash\<close>: a null or wild dereference, an access outside its object).
\<close>

datatype 'a outcome = Ret 'a | Halt | Crash

primrec obind :: "'a outcome \<Rightarrow> ('a \<Rightarrow> 'b outcome) \<Rightarrow> 'b outcome" where
  "obind (Ret x) f = f x"
| "obind Halt f = Halt"
| "obind Crash f = Crash"

definition c_assert :: "bool \<Rightarrow> 'a outcome \<Rightarrow> 'a outcome" where
  "c_assert b k = (if b then k else Halt)"

lemma obind_eq_Ret [outcome_simps]:
  "obind m f = Ret y \<longleftrightarrow> (\<exists>x. m = Ret x \<and> f x = Ret y)"
  by (cases m) auto

lemma obind_eq_Crash [outcome_simps]:
  "obind m f = Crash \<longleftrightarrow> m = Crash \<or> (\<exists>x. m = Ret x \<and> f x = Crash)"
  by (cases m) auto

lemma obind_eq_Halt [outcome_simps]:
  "obind m f = Halt \<longleftrightarrow> m = Halt \<or> (\<exists>x. m = Ret x \<and> f x = Halt)"
  by (cases m) auto

lemma obind_assoc: "obind (obind m f) g = obind m (\<lambda>x. obind (f x) g)"
  by (cases m) auto

lemma c_assert_True [simp]: "b \<Longrightarrow> c_assert b k = k"
  by (simp add: c_assert_def)

lemma c_assert_False [simp]: "\<not> b \<Longrightarrow> c_assert b k = Halt"
  by (simp add: c_assert_def)

lemma c_assert_eq_Ret [outcome_simps]: "c_assert b k = Ret y \<longleftrightarrow> b \<and> k = Ret y"
  by (simp add: c_assert_def)

section \<open>Loops that may not end\<close>

text \<open>A loop that does not return has no outcome, \<open>None\<close>.\<close>

definition rbind :: "'a outcome option \<Rightarrow> ('a \<Rightarrow> 'b outcome option) \<Rightarrow> 'b outcome option" where
  "rbind m f =
     Option.bind m (\<lambda>r. case r of Ret x \<Rightarrow> f x | Halt \<Rightarrow> Some Halt | Crash \<Rightarrow> Some Crash)"

lemma rbind_mono [partial_function_mono]:
  assumes "mono_option m" and "\<And>y. mono_option (\<lambda>f. g y f)"
  shows "mono_option (\<lambda>f. rbind (m f) (\<lambda>y. g y f))"
  unfolding rbind_def
proof (rule bind_mono [OF assms(1)])
  show "mono_option (\<lambda>f. case r of Ret x \<Rightarrow> g x f | Halt \<Rightarrow> Some Halt | Crash \<Rightarrow> Some Crash)" for r
    using assms(2) by (cases r) (auto intro: monotoneI simp: option.leq_refl)
qed

lemma rbind_simps [simp]:
  "rbind None f = None" "rbind (Some (Ret x)) f = f x"
  "rbind (Some Halt) f = Some Halt" "rbind (Some Crash) f = Some Crash"
  by (simp_all add: rbind_def)

section \<open>Array objects\<close>

text \<open>An object of the C program that holds an array, and its checked accesses.\<close>

definition peek :: "'a list \<Rightarrow> nat \<Rightarrow> 'a outcome" where
  "peek m i = (if i < length m then Ret (m ! i) else Crash)"

definition poke :: "'a list \<Rightarrow> nat \<Rightarrow> 'a \<Rightarrow> 'a list outcome" where
  "poke m i x = (if i < length m then Ret (m[i := x]) else Crash)"

lemma peek_in [mem_simps]: "i < length m \<Longrightarrow> peek m i = Ret (m ! i)"
  by (simp add: peek_def)

lemma poke_in [mem_simps]: "i < length m \<Longrightarrow> poke m i x = Ret (m[i := x])"
  by (simp add: poke_def)

lemma peek_out [mem_simps]: "length m \<le> i \<Longrightarrow> peek m i = Crash"
  by (simp add: peek_def)

lemma poke_out [mem_simps]: "length m \<le> i \<Longrightarrow> poke m i x = Crash"
  by (simp add: poke_def)

lemma poke_eq_Ret [outcome_simps]: "poke m i x = Ret m' \<longleftrightarrow> i < length m \<and> m' = m[i := x]"
  by (auto simp: poke_def)

lemma peek_eq_Ret [outcome_simps]: "peek m i = Ret x \<longleftrightarrow> i < length m \<and> x = m ! i"
  by (auto simp: peek_def)

text \<open>A cell an update does not touch, and blocks cut out of an array.\<close>

lemma take_drop_update_outside [mem_simps]:
  "i < p \<or> p + n \<le> i \<Longrightarrow> take n (drop p (m[i := x])) = take n (drop p m)"
  by (auto simp: list_eq_iff_nth_eq nth_list_update)

lemma nth_take_drop:
  "p + n \<le> length m \<Longrightarrow> k < n \<Longrightarrow> take n (drop p m) ! k = m ! (p + k)"
  by simp

lemma take_drop_eqI:
  assumes "length m = length m'" and "\<And>k. p \<le> k \<Longrightarrow> k < p + n \<Longrightarrow> m ! k = m' ! k"
  shows "take n (drop p m) = take n (drop p m')"
  using assms by (auto simp: list_eq_iff_nth_eq)

text \<open>\<open>overlay m p xs\<close> is \<open>m\<close> with the block \<open>xs\<close> written at \<open>p\<close>.\<close>

definition overlay :: "'a list \<Rightarrow> nat \<Rightarrow> 'a list \<Rightarrow> 'a list" where
  "overlay m p xs = take p m @ xs @ drop (p + length xs) m"

lemma length_overlay [simp]: "p + length xs \<le> length m \<Longrightarrow> length (overlay m p xs) = length m"
  by (simp add: overlay_def)

lemma nth_overlay:
  "p + length xs \<le> length m \<Longrightarrow>
   overlay m p xs ! i = (if i < p then m ! i else if i < p + length xs then xs ! (i - p) else m ! i)"
  by (auto simp: overlay_def nth_append)

lemma overlay_Nil [simp]: "overlay m p [] = m"
  by (simp add: overlay_def)

lemma overlay_Cons:
  "p + length (x # xs) \<le> length m \<Longrightarrow> overlay (m[p := x]) (Suc p) xs = overlay m p (x # xs)"
  by (rule nth_equalityI) (auto simp: nth_overlay nth_list_update nth_Cons')

lemma overlay_snoc:
  "p + length xs < length m \<Longrightarrow> (overlay m p xs)[p + length xs := x] = overlay m p (xs @ [x])"
  by (rule nth_equalityI) (auto simp: nth_overlay nth_list_update nth_append)

lemma take_drop_overlay_same:
  "p + length xs \<le> length m \<Longrightarrow> n \<le> length xs \<Longrightarrow> take n (drop p (overlay m p xs)) = take n xs"
  by (rule nth_equalityI) (auto simp: nth_overlay)

lemma take_drop_overlay_other:
  "p + length xs \<le> length m \<Longrightarrow> q + n \<le> p \<or> p + length xs \<le> q \<Longrightarrow>
   take n (drop q (overlay m p xs)) = take n (drop q m)"
  by (rule nth_equalityI) (auto simp: nth_overlay)

section \<open>Strings that end in a null\<close>

text \<open>
  \<open>c_strlen m\<close> is the length of the null-terminated string at the start of the readable
  memory \<open>m\<close>; reading past the end of the object is undefined.
\<close>

primrec c_strlen :: "'a::zero list \<Rightarrow> nat outcome" where
  "c_strlen [] = Crash"
| "c_strlen (x # xs) = (if x = 0 then Ret 0 else obind (c_strlen xs) (\<lambda>n. Ret (Suc n)))"

lemma c_strlen_terminated [simp]:
  "0 \<notin> set s \<Longrightarrow> c_strlen (s @ 0 # t) = Ret (length s)"
  by (induction s) auto

lemma c_strlen_eq_Ret:
  "c_strlen m = Ret n \<longleftrightarrow> n < length m \<and> m ! n = 0 \<and> 0 \<notin> set (take n m)"
proof (induction m arbitrary: n)
  case Nil
  then show ?case by simp
next
  case (Cons x m)
  then show ?case by (cases n) (auto simp: outcome_simps)
qed

text \<open>
  The copy loop \<^verbatim>\<open>while ((*(dst++) = *(src++)) != 0 && dst < stop);\<close>: it copies one element
  at least, and ends after a null or when the destination pointer reaches \<open>stop\<close>. The result
  is the destination object and the destination pointer after the loop.
\<close>

function copy_loop :: "'a::zero list \<Rightarrow> nat \<Rightarrow> 'a list \<Rightarrow> nat \<Rightarrow> nat \<Rightarrow> ('a list \<times> nat) outcome" where
  "copy_loop src i dst j stop =
     (if i < length src \<and> j < length dst
      then if src ! i \<noteq> 0 \<and> Suc j < stop
           then copy_loop src (Suc i) (dst[j := src ! i]) (Suc j) stop
           else Ret (dst[j := src ! i], Suc j)
      else Crash)"
  by pat_completeness auto
termination
  by (relation "measure (\<lambda>(src, i, dst, j, stop). stop - j)") auto

declare copy_loop.simps [simp del]

text \<open>A string that fits is copied with its null.\<close>

lemma copy_loop_string:
  assumes "take (Suc (length s)) (drop i src) = s @ [0]" and "0 \<notin> set s"
    and "j + length s < length dst" and "j + length s < stop"
  shows "copy_loop src i dst j stop = Ret (overlay dst j (s @ [0]), j + length s + 1)"
  using assms
proof (induction s arbitrary: i j dst)
  case Nil
  then have "drop i src \<noteq> []" by auto
  then have i: "i < length src" by simp
  with Nil have "src ! i = 0" by (simp add: take_Suc hd_drop_conv_nth)
  with i Nil show ?case
    by (subst copy_loop.simps) (simp add: overlay_Cons [symmetric])
next
  case (Cons x s)
  then have "drop i src \<noteq> []" by auto
  then have i: "i < length src" by simp
  with Cons.prems have x: "src ! i = x" "take (Suc (length s)) (drop (Suc i) src) = s @ [0]"
    by (simp_all add: take_Suc hd_drop_conv_nth drop_Suc tl_drop)
  have "copy_loop src (Suc i) (dst[j := x]) (Suc j) stop
      = Ret (overlay (dst[j := x]) (Suc j) (s @ [0]), Suc j + length s + 1)"
    using Cons.prems x by (intro Cons.IH) auto
  with i x Cons.prems show ?case
    by (subst copy_loop.simps) (auto simp: overlay_Cons)
qed

text \<open>A string longer than the room up to \<open>stop\<close> fills it, without a null.\<close>

lemma copy_loop_full:
  assumes "take (length s) (drop i src) = s" and "0 \<notin> set s" and "s \<noteq> []"
    and "j + length s \<le> length dst" and "stop = j + length s"
  shows "copy_loop src i dst j stop = Ret (overlay dst j s, stop)"
  using assms
proof (induction s arbitrary: i j dst)
  case Nil
  then show ?case by simp
next
  case (Cons x s)
  then have "drop i src \<noteq> []" by auto
  then have i: "i < length src" by simp
  with Cons.prems have x: "src ! i = x" "take (length s) (drop (Suc i) src) = s"
    by (simp_all add: take_Suc hd_drop_conv_nth drop_Suc tl_drop)
  show ?case
  proof (cases "s = []")
    case True
    with i x Cons.prems show ?thesis
      by (subst copy_loop.simps) (simp add: overlay_Cons [symmetric])
  next
    case False
    have "copy_loop src (Suc i) (dst[j := x]) (Suc j) stop = Ret (overlay (dst[j := x]) (Suc j) s, stop)"
      using Cons.prems x False by (intro Cons.IH) auto
    with i x Cons.prems False show ?thesis
      by (subst copy_loop.simps) (auto simp: overlay_Cons)
  qed
qed

lemma c_strlen_not_Halt [simp]: "c_strlen m \<noteq> Halt"
  by (induction m) (auto simp: outcome_simps)

section \<open>size_t\<close>

text \<open>Sizes are natural numbers below \<open>2 ^ 64\<close>; the operations that can wrap say so.\<close>

definition size_mod :: nat where
  "size_mod = 2 ^ 64"

definition size_add :: "nat \<Rightarrow> nat \<Rightarrow> nat" where
  "size_add a b = (a + b) mod size_mod"

definition size_mul :: "nat \<Rightarrow> nat \<Rightarrow> nat" where
  "size_mul a b = (a * b) mod size_mod"

definition size_of_int :: "int \<Rightarrow> nat" where
  \<comment> \<open>the conversion of an integer (a pointer difference) to \<open>size_t\<close>\<close>
  "size_of_int i = nat (i mod int size_mod)"

definition size_diff :: "nat \<Rightarrow> nat \<Rightarrow> nat" where
  \<comment> \<open>the difference \<open>p - q\<close> of two sizes or pointers, stored in a \<open>size_t\<close>\<close>
  "size_diff p q = size_of_int (int p - int q)"

lemma size_mod_pos [simp]: "0 < size_mod"
  by (simp add: size_mod_def)

lemma size_add_less [simp]: "size_add a b < size_mod"
  by (simp add: size_add_def)

lemma size_add_id [size_simps]: "a + b < size_mod \<Longrightarrow> size_add a b = a + b"
  by (simp add: size_add_def)

lemma size_mul_id [size_simps]: "a * b < size_mod \<Longrightarrow> size_mul a b = a * b"
  by (simp add: size_mul_def)

lemma size_of_int_id [size_simps]: "0 \<le> i \<Longrightarrow> i < int size_mod \<Longrightarrow> size_of_int i = nat i"
  by (simp add: size_of_int_def)

lemma size_diff_le [size_simps]:
  assumes "q \<le> p" and "p < size_mod"
  shows "size_diff p q = p - q"
proof -
  have "(int p - int q) mod int size_mod = int p - int q"
    using assms by (intro mod_pos_pos_trivial) auto
  then show ?thesis by (simp add: size_diff_def size_of_int_def)
qed

lemma size_diff_wraps:
  assumes "p < q" and "q - p < size_mod"
  shows "size_diff p q = size_mod - (q - p)"
proof -
  have "(int p - int q) mod int size_mod = (int p - int q + int size_mod) mod int size_mod"
    by (simp only: mod_add_self2)
  also have "\<dots> = int p - int q + int size_mod"
    using assms by (intro mod_pos_pos_trivial) linarith+
  finally show ?thesis using assms by (simp add: size_diff_def size_of_int_def)
qed

lemma size_diff_less [simp]: "size_diff p q < size_mod"
proof -
  have "0 \<le> (int p - int q) mod int size_mod" and "(int p - int q) mod int size_mod < int size_mod"
    by simp_all
  then show ?thesis by (simp add: size_diff_def size_of_int_def nat_less_iff)
qed

end
