(* ===== verification/Oly_Status.thy ===== *)
theory Oly_Status
  imports Oly_Prelude
begin

text \<open>
  The status codes of \<^verbatim>\<open>src/oly/olytypes.h\<close> and the message lookup of
  \<^verbatim>\<open>src/core/get_errmsg.c\<close> and \<^verbatim>\<open>src/data_source/get_ltdl_errmsg.c\<close>. The resource
  bundle calls of ICU are parameters; the message lists are those of \<^verbatim>\<open>i18n/root.txt\<close>.
\<close>

section \<open>The status enumeration\<close>

datatype OlyStatus =
    OLY_WARN_TAG_NOT_MATCH
  | OLY_WARN_NODE_CONSUMED
  | OLY_WARN_NODE_PRODUCED
  | OLY_WARN_BOUNDARY_RESET
  | OLY_WARN_LONG_STRING
  | OLY_WARN_BUFFER_WRITE_LOCK
  | OLY_WARN_BUFFER_EMPTY
  | OLY_WARN_TOP_LEVEL_NODE
  | OLY_WARN_NODE_HAS_NO_KEY
  | OLY_WARN_END_OF_ARGS
  | OLY_WARN_DS_BUFFER_DEFAULT
  | OLY_WARN_SHOW_VERSION
  | OLY_WARN_SHOW_HELP
  | OLY_WARN_DSOPT_NOT_USED
  | OLY_WARN_REINIT
  | OLY_WARN_LIB
  | OLY_WARN_EXIT
  | OLY_OKAY
  | OLY_ERR_UNKNOWN
  | OLY_ERR_SYS
  | OLY_ERR_LIB
  | OLY_ERR_INIT
  | OLY_ERR_NOMEM
  | OLY_ERR_NOPWD
  | OLY_ERR_NOUSER
  | OLY_ERR_FILEIO
  | OLY_ERR_READHEX
  | OLY_ERR_HASH
  | OLY_ERR_BADARG
  | OLY_ERR_BUFFER_OVERFLOW
  | OLY_ERR_FILE_NOT_FOUND
  | OLY_ERR_CONFIG_FILE_NOT_FOUND
  | OLY_ERR_LIBYAML_INIT
  | OLY_ERR_NODES_TOO_DEEP
  | OLY_ERR_NODES_TOO_SHALLOW
  | OLY_ERR_UNKNOWN_FUNCTION_TYPE
  | OLY_ERR_DS_OPTION_CONFLICT
  | OLY_ERR_LTDL_UNKNOWN
  | OLY_ERR_LTDL_ERR
  | OLY_ERR_YAML_PARSE
  | OLY_ERR_SQLITE_INIT
  | OLY_ERR_SQLITE
  | OLY_ERR_KEY_STR_TOO_LONG
  | OLY_ERR_NO_KEY_BUFFER
  | OLY_ERR_NODE_MUST_HAVE_VALUE
  | OLY_ERR_NODE_MUST_NOT_HAVE_VALUE
  | OLY_ERR_ILLEGAL_TAG
  | OLY_ERR_NO_OBJECT
  | OLY_ERR_NO_RESERVATION
  | OLY_ERR_STRING_BUFFER_STATE
  | OLY_ERR_NODE_QUEUE_FULL
  | OLY_ERR_NODE_QUEUE_EMPTY
  | OLY_ERR_DS_EOF
  | OLY_ERR_CONFIG_ITEM_NOT_FOUND
  | OLY_ERR_CONFIG_UNKNOWN

primrec status_code :: "OlyStatus \<Rightarrow> int" where
  "status_code OLY_WARN_TAG_NOT_MATCH = -17"
| "status_code OLY_WARN_NODE_CONSUMED = -16"
| "status_code OLY_WARN_NODE_PRODUCED = -15"
| "status_code OLY_WARN_BOUNDARY_RESET = -14"
| "status_code OLY_WARN_LONG_STRING = -13"
| "status_code OLY_WARN_BUFFER_WRITE_LOCK = -12"
| "status_code OLY_WARN_BUFFER_EMPTY = -11"
| "status_code OLY_WARN_TOP_LEVEL_NODE = -10"
| "status_code OLY_WARN_NODE_HAS_NO_KEY = -9"
| "status_code OLY_WARN_END_OF_ARGS = -8"
| "status_code OLY_WARN_DS_BUFFER_DEFAULT = -7"
| "status_code OLY_WARN_SHOW_VERSION = -6"
| "status_code OLY_WARN_SHOW_HELP = -5"
| "status_code OLY_WARN_DSOPT_NOT_USED = -4"
| "status_code OLY_WARN_REINIT = -3"
| "status_code OLY_WARN_LIB = -2"
| "status_code OLY_WARN_EXIT = -1"
| "status_code OLY_OKAY = 0"
| "status_code OLY_ERR_UNKNOWN = 1"
| "status_code OLY_ERR_SYS = 2"
| "status_code OLY_ERR_LIB = 3"
| "status_code OLY_ERR_INIT = 4"
| "status_code OLY_ERR_NOMEM = 5"
| "status_code OLY_ERR_NOPWD = 6"
| "status_code OLY_ERR_NOUSER = 7"
| "status_code OLY_ERR_FILEIO = 8"
| "status_code OLY_ERR_READHEX = 9"
| "status_code OLY_ERR_HASH = 10"
| "status_code OLY_ERR_BADARG = 11"
| "status_code OLY_ERR_BUFFER_OVERFLOW = 12"
| "status_code OLY_ERR_FILE_NOT_FOUND = 13"
| "status_code OLY_ERR_CONFIG_FILE_NOT_FOUND = 14"
| "status_code OLY_ERR_LIBYAML_INIT = 15"
| "status_code OLY_ERR_NODES_TOO_DEEP = 16"
| "status_code OLY_ERR_NODES_TOO_SHALLOW = 17"
| "status_code OLY_ERR_UNKNOWN_FUNCTION_TYPE = 18"
| "status_code OLY_ERR_DS_OPTION_CONFLICT = 19"
| "status_code OLY_ERR_LTDL_UNKNOWN = 20"
| "status_code OLY_ERR_LTDL_ERR = 21"
| "status_code OLY_ERR_YAML_PARSE = 22"
| "status_code OLY_ERR_SQLITE_INIT = 23"
| "status_code OLY_ERR_SQLITE = 24"
| "status_code OLY_ERR_KEY_STR_TOO_LONG = 25"
| "status_code OLY_ERR_NO_KEY_BUFFER = 26"
| "status_code OLY_ERR_NODE_MUST_HAVE_VALUE = 27"
| "status_code OLY_ERR_NODE_MUST_NOT_HAVE_VALUE = 28"
| "status_code OLY_ERR_ILLEGAL_TAG = 29"
| "status_code OLY_ERR_NO_OBJECT = 30"
| "status_code OLY_ERR_NO_RESERVATION = 31"
| "status_code OLY_ERR_STRING_BUFFER_STATE = 32"
| "status_code OLY_ERR_NODE_QUEUE_FULL = 33"
| "status_code OLY_ERR_NODE_QUEUE_EMPTY = 34"
| "status_code OLY_ERR_DS_EOF = 35"
| "status_code OLY_ERR_CONFIG_ITEM_NOT_FOUND = 36"
| "status_code OLY_ERR_CONFIG_UNKNOWN = 37"

definition OLY_STATUS_MIN :: int where "OLY_STATUS_MIN = -17"
definition OLY_STATUS_OFFSET :: int where "OLY_STATUS_OFFSET = 17"
definition OLY_STATUS_MAX :: int where "OLY_STATUS_MAX = 37"

text \<open>The enumerators in the order of their values, and their names as the source spells them.\<close>

definition all_status :: "OlyStatus list" where
  "all_status = [
    OLY_WARN_TAG_NOT_MATCH, OLY_WARN_NODE_CONSUMED, OLY_WARN_NODE_PRODUCED,
    OLY_WARN_BOUNDARY_RESET, OLY_WARN_LONG_STRING, OLY_WARN_BUFFER_WRITE_LOCK,
    OLY_WARN_BUFFER_EMPTY, OLY_WARN_TOP_LEVEL_NODE, OLY_WARN_NODE_HAS_NO_KEY,
    OLY_WARN_END_OF_ARGS, OLY_WARN_DS_BUFFER_DEFAULT, OLY_WARN_SHOW_VERSION, OLY_WARN_SHOW_HELP,
    OLY_WARN_DSOPT_NOT_USED, OLY_WARN_REINIT, OLY_WARN_LIB, OLY_WARN_EXIT, OLY_OKAY,
    OLY_ERR_UNKNOWN, OLY_ERR_SYS, OLY_ERR_LIB, OLY_ERR_INIT, OLY_ERR_NOMEM, OLY_ERR_NOPWD,
    OLY_ERR_NOUSER, OLY_ERR_FILEIO, OLY_ERR_READHEX, OLY_ERR_HASH, OLY_ERR_BADARG,
    OLY_ERR_BUFFER_OVERFLOW, OLY_ERR_FILE_NOT_FOUND, OLY_ERR_CONFIG_FILE_NOT_FOUND,
    OLY_ERR_LIBYAML_INIT, OLY_ERR_NODES_TOO_DEEP, OLY_ERR_NODES_TOO_SHALLOW,
    OLY_ERR_UNKNOWN_FUNCTION_TYPE, OLY_ERR_DS_OPTION_CONFLICT, OLY_ERR_LTDL_UNKNOWN,
    OLY_ERR_LTDL_ERR, OLY_ERR_YAML_PARSE, OLY_ERR_SQLITE_INIT, OLY_ERR_SQLITE,
    OLY_ERR_KEY_STR_TOO_LONG, OLY_ERR_NO_KEY_BUFFER, OLY_ERR_NODE_MUST_HAVE_VALUE,
    OLY_ERR_NODE_MUST_NOT_HAVE_VALUE, OLY_ERR_ILLEGAL_TAG, OLY_ERR_NO_OBJECT,
    OLY_ERR_NO_RESERVATION, OLY_ERR_STRING_BUFFER_STATE, OLY_ERR_NODE_QUEUE_FULL,
    OLY_ERR_NODE_QUEUE_EMPTY, OLY_ERR_DS_EOF, OLY_ERR_CONFIG_ITEM_NOT_FOUND,
    OLY_ERR_CONFIG_UNKNOWN]"

primrec status_name :: "OlyStatus \<Rightarrow> string" where
  "status_name OLY_WARN_TAG_NOT_MATCH = ''OLY_WARN_TAG_NOT_MATCH''"
| "status_name OLY_WARN_NODE_CONSUMED = ''OLY_WARN_NODE_CONSUMED''"
| "status_name OLY_WARN_NODE_PRODUCED = ''OLY_WARN_NODE_PRODUCED''"
| "status_name OLY_WARN_BOUNDARY_RESET = ''OLY_WARN_BOUNDARY_RESET''"
| "status_name OLY_WARN_LONG_STRING = ''OLY_WARN_LONG_STRING''"
| "status_name OLY_WARN_BUFFER_WRITE_LOCK = ''OLY_WARN_BUFFER_WRITE_LOCK''"
| "status_name OLY_WARN_BUFFER_EMPTY = ''OLY_WARN_BUFFER_EMPTY''"
| "status_name OLY_WARN_TOP_LEVEL_NODE = ''OLY_WARN_TOP_LEVEL_NODE''"
| "status_name OLY_WARN_NODE_HAS_NO_KEY = ''OLY_WARN_NODE_HAS_NO_KEY''"
| "status_name OLY_WARN_END_OF_ARGS = ''OLY_WARN_END_OF_ARGS''"
| "status_name OLY_WARN_DS_BUFFER_DEFAULT = ''OLY_WARN_DS_BUFFER_DEFAULT''"
| "status_name OLY_WARN_SHOW_VERSION = ''OLY_WARN_SHOW_VERSION''"
| "status_name OLY_WARN_SHOW_HELP = ''OLY_WARN_SHOW_HELP''"
| "status_name OLY_WARN_DSOPT_NOT_USED = ''OLY_WARN_DSOPT_NOT_USED''"
| "status_name OLY_WARN_REINIT = ''OLY_WARN_REINIT''"
| "status_name OLY_WARN_LIB = ''OLY_WARN_LIB''"
| "status_name OLY_WARN_EXIT = ''OLY_WARN_EXIT''"
| "status_name OLY_OKAY = ''OLY_OKAY''"
| "status_name OLY_ERR_UNKNOWN = ''OLY_ERR_UNKNOWN''"
| "status_name OLY_ERR_SYS = ''OLY_ERR_SYS''"
| "status_name OLY_ERR_LIB = ''OLY_ERR_LIB''"
| "status_name OLY_ERR_INIT = ''OLY_ERR_INIT''"
| "status_name OLY_ERR_NOMEM = ''OLY_ERR_NOMEM''"
| "status_name OLY_ERR_NOPWD = ''OLY_ERR_NOPWD''"
| "status_name OLY_ERR_NOUSER = ''OLY_ERR_NOUSER''"
| "status_name OLY_ERR_FILEIO = ''OLY_ERR_FILEIO''"
| "status_name OLY_ERR_READHEX = ''OLY_ERR_READHEX''"
| "status_name OLY_ERR_HASH = ''OLY_ERR_HASH''"
| "status_name OLY_ERR_BADARG = ''OLY_ERR_BADARG''"
| "status_name OLY_ERR_BUFFER_OVERFLOW = ''OLY_ERR_BUFFER_OVERFLOW''"
| "status_name OLY_ERR_FILE_NOT_FOUND = ''OLY_ERR_FILE_NOT_FOUND''"
| "status_name OLY_ERR_CONFIG_FILE_NOT_FOUND = ''OLY_ERR_CONFIG_FILE_NOT_FOUND''"
| "status_name OLY_ERR_LIBYAML_INIT = ''OLY_ERR_LIBYAML_INIT''"
| "status_name OLY_ERR_NODES_TOO_DEEP = ''OLY_ERR_NODES_TOO_DEEP''"
| "status_name OLY_ERR_NODES_TOO_SHALLOW = ''OLY_ERR_NODES_TOO_SHALLOW''"
| "status_name OLY_ERR_UNKNOWN_FUNCTION_TYPE = ''OLY_ERR_UNKNOWN_FUNCTION_TYPE''"
| "status_name OLY_ERR_DS_OPTION_CONFLICT = ''OLY_ERR_DS_OPTION_CONFLICT''"
| "status_name OLY_ERR_LTDL_UNKNOWN = ''OLY_ERR_LTDL_UNKNOWN''"
| "status_name OLY_ERR_LTDL_ERR = ''OLY_ERR_LTDL_ERR''"
| "status_name OLY_ERR_YAML_PARSE = ''OLY_ERR_YAML_PARSE''"
| "status_name OLY_ERR_SQLITE_INIT = ''OLY_ERR_SQLITE_INIT''"
| "status_name OLY_ERR_SQLITE = ''OLY_ERR_SQLITE''"
| "status_name OLY_ERR_KEY_STR_TOO_LONG = ''OLY_ERR_KEY_STR_TOO_LONG''"
| "status_name OLY_ERR_NO_KEY_BUFFER = ''OLY_ERR_NO_KEY_BUFFER''"
| "status_name OLY_ERR_NODE_MUST_HAVE_VALUE = ''OLY_ERR_NODE_MUST_HAVE_VALUE''"
| "status_name OLY_ERR_NODE_MUST_NOT_HAVE_VALUE = ''OLY_ERR_NODE_MUST_NOT_HAVE_VALUE''"
| "status_name OLY_ERR_ILLEGAL_TAG = ''OLY_ERR_ILLEGAL_TAG''"
| "status_name OLY_ERR_NO_OBJECT = ''OLY_ERR_NO_OBJECT''"
| "status_name OLY_ERR_NO_RESERVATION = ''OLY_ERR_NO_RESERVATION''"
| "status_name OLY_ERR_STRING_BUFFER_STATE = ''OLY_ERR_STRING_BUFFER_STATE''"
| "status_name OLY_ERR_NODE_QUEUE_FULL = ''OLY_ERR_NODE_QUEUE_FULL''"
| "status_name OLY_ERR_NODE_QUEUE_EMPTY = ''OLY_ERR_NODE_QUEUE_EMPTY''"
| "status_name OLY_ERR_DS_EOF = ''OLY_ERR_DS_EOF''"
| "status_name OLY_ERR_CONFIG_ITEM_NOT_FOUND = ''OLY_ERR_CONFIG_ITEM_NOT_FOUND''"
| "status_name OLY_ERR_CONFIG_UNKNOWN = ''OLY_ERR_CONFIG_UNKNOWN''"

lemma all_status_nth: "all_status ! nat (status_code s + OLY_STATUS_OFFSET) = s"
  by (cases s) (simp_all add: all_status_def OLY_STATUS_OFFSET_def)

lemma status_code_inject [simp]: "status_code a = status_code b \<longleftrightarrow> a = b"
  using all_status_nth [of a] all_status_nth [of b] by metis

lemma status_code_range: "OLY_STATUS_MIN \<le> status_code s \<and> status_code s \<le> OLY_STATUS_MAX"
  by (cases s) (simp_all add: OLY_STATUS_MIN_def OLY_STATUS_MAX_def)

text \<open>The code compares status values as integers; the order on the enumeration is theirs.\<close>

instantiation OlyStatus :: linorder
begin

definition less_eq_OlyStatus :: "OlyStatus \<Rightarrow> OlyStatus \<Rightarrow> bool" where
  "less_eq_OlyStatus a b \<longleftrightarrow> status_code a \<le> status_code b"

definition less_OlyStatus :: "OlyStatus \<Rightarrow> OlyStatus \<Rightarrow> bool" where
  "less_OlyStatus a b \<longleftrightarrow> status_code a < status_code b"

instance
  by standard (auto simp: less_eq_OlyStatus_def less_OlyStatus_def)

end

definition is_error :: "OlyStatus \<Rightarrow> bool" where
  "is_error s \<longleftrightarrow> OLY_OKAY < s"

definition is_warning :: "OlyStatus \<Rightarrow> bool" where
  "is_warning s \<longleftrightarrow> s < OLY_OKAY"

lemma status_trichotomy: "is_error s \<or> is_warning s \<or> s = OLY_OKAY"
  by (auto simp: is_error_def is_warning_def)

section \<open>Message lookup\<close>

text \<open>
  ICU's \<^verbatim>\<open>ures_getStringByIndex\<close> is a parameter: it takes the index and yields the string
  pointer and the error code it leaves (started from \<^verbatim>\<open>U_ZERO_ERROR\<close>).
\<close>

definition U_ZERO_ERROR :: int where "U_ZERO_ERROR = 0"
definition U_MISSING_RESOURCE_ERROR :: int where "U_MISSING_RESOURCE_ERROR = 2"

definition U_FAILURE :: "int \<Rightarrow> bool" where
  "U_FAILURE u \<longleftrightarrow> 0 < u"

definition lookup_message :: "(int \<Rightarrow> 'm \<times> int) \<Rightarrow> int \<Rightarrow> int \<Rightarrow> 'm \<times> int option" where
  \<comment> \<open>a lookup, the fallback to \<open>unknown\<close> for a missing resource, and the error code that
    any other failure prints to stderr\<close>
  "lookup_message get_string index unknown =
     (case get_string index of (result, u_status) \<Rightarrow>
        if u_status = U_MISSING_RESOURCE_ERROR then (fst (get_string unknown), None)
        else (result, if U_FAILURE u_status then Some u_status else None))"

definition get_errmsg :: "(int \<Rightarrow> 'm \<times> int) \<Rightarrow> int \<Rightarrow> 'm \<times> int option" where
  "get_errmsg get_string status =
     (let unknown = status_code OLY_ERR_UNKNOWN + OLY_STATUS_OFFSET;
          index = (if status < OLY_STATUS_MIN \<or> status > OLY_STATUS_MAX
                   then unknown else status + OLY_STATUS_OFFSET)
      in lookup_message get_string index unknown)"

definition init_messages :: "'b \<times> int \<Rightarrow> 'b outcome" where
  \<comment> \<open>what \<^verbatim>\<open>ures_getByKey\<close> yields for the key \<open>OlyErrors\<close>; a failure ends the process\<close>
  "init_messages fetched = (if U_FAILURE (snd fetched) then Halt else Ret (fst fetched))"

definition init_errmsg :: "'b option \<Rightarrow> 'b \<times> int \<Rightarrow> ('b option \<times> OlyStatus) outcome" where
  \<comment> \<open>the static \<open>message_data\<close> before the call\<close>
  "init_errmsg message_data fetched =
     (case message_data of
        None \<Rightarrow> obind (init_messages fetched) (\<lambda>d. Ret (Some d, OLY_OKAY))
      | Some d \<Rightarrow> Ret (Some d, OLY_WARN_REINIT))"

definition LT_ERROR_MAX :: int where "LT_ERROR_MAX = 20"

definition get_ltdl_messages :: "'b \<times> int \<Rightarrow> 'b outcome" where
  "get_ltdl_messages fetched = (if U_FAILURE (snd fetched) then Halt else Ret (fst fetched))"

definition get_ltdl_errmsg ::
  "('b \<Rightarrow> int \<Rightarrow> 'm \<times> int) \<Rightarrow> 'b option \<Rightarrow> 'b \<times> int \<Rightarrow> int
    \<Rightarrow> ('b option \<times> 'm \<times> int option) outcome" where
  \<comment> \<open>the static \<open>libltdl_message_data\<close> is fetched on the first call\<close>
  "get_ltdl_errmsg get_string libltdl_message_data fetched status =
     obind (case libltdl_message_data of
              None \<Rightarrow> get_ltdl_messages fetched
            | Some d \<Rightarrow> Ret d) (\<lambda>d.
     let unknown = status_code OLY_ERR_LTDL_UNKNOWN + OLY_STATUS_OFFSET;
         index = (if status < 0 \<or> status \<ge> LT_ERROR_MAX then unknown else status)
     in Ret (Some d, lookup_message (get_string d) index unknown))"

text \<open>The two message arrays of the root resource bundle, and an array bundle's lookup.\<close>

definition root_OlyErrors :: "string list" where
  "root_OlyErrors = [
    ''OLY_WARN_TAG_NOT_MATCH'', ''OLY_WARN_NODE_CONSUMED'', ''OLY_WARN_NODE_PRODUCED'',
    ''OLY_WARN_BOUNDARY_RESET'', ''OLY_WARN_LONG_STRING'', ''OLY_WARN_BUFFER_WRITE_LOCK'',
    ''OLY_WARN_BUFFER_EMPTY'', ''OLY_WARN_TOP_LEVEL_NODE'', ''OLY_WARN_NODE_HAS_NO_KEY'',
    ''OLY_WARN_END_OF_ARGS'', ''OLY_WARN_DS_BUFFER_DEFAULT'', ''OLY_WARN_SHOW_VERSION'',
    ''OLY_WARN_SHOW_HELP'', ''OLY_WARN_DSOPT_NOT_USED'', ''OLY_WARN_REINIT'', ''OLY_WARN_LIB'',
    ''OLY_WARN_EXIT'', ''OLY_OKAY'', ''OLY_ERR_UNKNOWN'', ''OLY_ERR_SYS'', ''OLY_ERR_LIB'',
    ''OLY_ERR_INIT'', ''OLY_ERR_NOMEM'', ''OLY_ERR_NOPWD'', ''OLY_ERR_NOUSER'',
    ''OLY_ERR_FILEIO'', ''OLY_ERR_READHEX'', ''OLY_ERR_HASH'', ''OLY_ERR_BADARG'',
    ''OLY_ERR_BUFFER_OVERFLOW'', ''OLY_ERR_FILE_NOT_FOUND'', ''OLY_ERR_CONFIG_FILE_NOT_FOUND'',
    ''OLY_ERR_LIBYAML_INIT'', ''OLY_ERR_NODES_TOO_DEEP'', ''OLY_ERR_NODES_TOO_SHALLOW'',
    ''OLY_ERR_UNKNOWN_FUNCTION_TYPE'', ''OLY_ERR_DS_OPTION_CONFLICT'', ''OLY_ERR_LTDL_UNKNOWN'',
    ''OLY_ERR_LTDL_ERR'', ''OLY_ERR_YAML_PARSE'', ''OLY_ERR_SQLITE_INIT'', ''OLY_ERR_SQLITE'',
    ''OLY_ERR_KEY_STR_TOO_LONG'', ''OLY_ERR_NO_KEY_BUFFER'', ''OLY_ERR_NODE_MUST_HAVE_VALUE'',
    ''OLY_ERR_NODE_MUST_NOT_HAVE_VALUE'', ''OLY_ERR_ILLEGAL_TAG'', ''OLY_ERR_NO_OBJECT'',
    ''OLY_ERR_NO_RESERVATION'', ''OLY_ERR_STRING_BUFFER_STATE'', ''OLY_ERR_NODE_QUEUE_FULL'',
    ''OLY_ERR_NODE_QUEUE_EMPTY'', ''OLY_ERR_DS_EOF'', ''OLY_ERR_CONFIG_ITEM_NOT_FOUND'',
    ''OLY_ERR_CONFIG_UNKNOWN'']"

definition root_libltdlErrors :: "string list" where
  "root_libltdlErrors = [
    ''LT_ERROR_UNKNOWN'', ''LT_ERROR_DLOPEN_NOT_SUPPORTED'', ''LT_ERROR_INVALID_LOADER'',
    ''LT_ERROR_INIT_LOADER'', ''LT_ERROR_REMOVE_LOADER'', ''LT_ERROR_FILE_NOT_FOUND'',
    ''LT_ERROR_DEPLIB_NOT_FOUND'', ''LT_ERROR_NO_SYMBOLS'', ''LT_ERROR_CANNOT_OPEN'',
    ''LT_ERROR_CANNOT_CLOSE'', ''LT_ERROR_SYMBOL_NOT_FOUND'', ''LT_ERROR_NO_MEMORY'',
    ''LT_ERROR_INVALID_HANDLE'', ''LT_ERROR_BUFFER_OVERFLOW'', ''LT_ERROR_INVALID_ERRORCODE'',
    ''LT_ERROR_SHUTDOWN'', ''LT_ERROR_CLOSE_RESIDENT_MODULE'', ''LT_ERROR_INVALID_MUTEX_ARGS'',
    ''LT_ERROR_INVALID_POSITION'', ''LT_ERROR_CONFLICTING_FLAGS'']"

definition bundle_string :: "string list \<Rightarrow> int \<Rightarrow> string option \<times> int" where
  "bundle_string msgs i =
     (if 0 \<le> i \<and> i < int (length msgs) then (Some (msgs ! nat i), U_ZERO_ERROR)
      else (None, U_MISSING_RESOURCE_ERROR))"

lemma length_root_OlyErrors: "length root_OlyErrors = 55"
  by (simp add: root_OlyErrors_def)

lemma length_root_libltdlErrors: "length root_libltdlErrors = 20"
  by (simp add: root_libltdlErrors_def)

lemma root_OlyErrors_nth: "root_OlyErrors ! nat (status_code s + OLY_STATUS_OFFSET) = status_name s"
  by (cases s) (simp_all add: root_OlyErrors_def OLY_STATUS_OFFSET_def)

lemma lookup_message_hit:
  "0 \<le> i \<Longrightarrow> i < int (length msgs)
   \<Longrightarrow> lookup_message (bundle_string msgs) i u = (Some (msgs ! nat i), None)"
  by (simp add: lookup_message_def bundle_string_def U_ZERO_ERROR_def
      U_MISSING_RESOURCE_ERROR_def U_FAILURE_def)

lemma lookup_message_miss:
  "\<not> (0 \<le> i \<and> i < int (length msgs))
   \<Longrightarrow> lookup_message (bundle_string msgs) i u = (fst (bundle_string msgs u), None)"
  by (auto simp: lookup_message_def bundle_string_def U_MISSING_RESOURCE_ERROR_def)

lemma get_errmsg_in_range:
  "get_errmsg (bundle_string root_OlyErrors) (status_code s) = (Some (status_name s), None)"
  using status_code_range [of s] root_OlyErrors_nth [of s]
  by (simp add: get_errmsg_def Let_def lookup_message_hit length_root_OlyErrors
      OLY_STATUS_MIN_def OLY_STATUS_MAX_def OLY_STATUS_OFFSET_def)

lemma get_errmsg_out_of_range:
  "n < OLY_STATUS_MIN \<or> OLY_STATUS_MAX < n
   \<Longrightarrow> get_errmsg (bundle_string root_OlyErrors) n = (Some (status_name OLY_ERR_UNKNOWN), None)"
  using root_OlyErrors_nth [of OLY_ERR_UNKNOWN]
  by (auto simp: get_errmsg_def Let_def lookup_message_hit length_root_OlyErrors
      OLY_STATUS_MIN_def OLY_STATUS_MAX_def OLY_STATUS_OFFSET_def)

lemma get_ltdl_errmsg_in_range:
  "0 \<le> n \<Longrightarrow> n < LT_ERROR_MAX
   \<Longrightarrow> get_ltdl_errmsg bundle_string None (root_libltdlErrors, U_ZERO_ERROR) n
        = Ret (Some root_libltdlErrors, Some (root_libltdlErrors ! nat n), None)"
  by (simp add: get_ltdl_errmsg_def get_ltdl_messages_def lookup_message_hit
      length_root_libltdlErrors LT_ERROR_MAX_def U_FAILURE_def U_ZERO_ERROR_def Let_def)

lemma get_ltdl_errmsg_out_of_range:
  "n < 0 \<or> LT_ERROR_MAX \<le> n
   \<Longrightarrow> get_ltdl_errmsg bundle_string None (root_libltdlErrors, U_ZERO_ERROR) n
        = Ret (Some root_libltdlErrors, None, None)"
  by (simp add: get_ltdl_errmsg_def get_ltdl_messages_def Let_def lookup_message_miss
      length_root_libltdlErrors bundle_string_def OLY_STATUS_OFFSET_def U_FAILURE_def U_ZERO_ERROR_def)

section \<open>Properties\<close>

lemma status_codes: "map status_code all_status = [-17..37]"
  by (simp add: all_status_def upto.simps)

lemma status_code_all_status:
  assumes "OLY_STATUS_MIN \<le> n" and "n \<le> OLY_STATUS_MAX"
  shows "status_code (all_status ! nat (n + OLY_STATUS_OFFSET)) = n"
proof -
  let ?i = "nat (n + OLY_STATUS_OFFSET)"
  have i: "?i < length [-17..37::int]" "?i < length all_status"
    using assms by (simp_all add: OLY_STATUS_MIN_def OLY_STATUS_MAX_def OLY_STATUS_OFFSET_def all_status_def)
  have "status_code (all_status ! ?i) = [-17..37] ! ?i"
    using status_codes i(2) by (metis nth_map)
  also have "\<dots> = -17 + int ?i"
    using assms by (intro nth_upto) (simp add: OLY_STATUS_MIN_def OLY_STATUS_MAX_def OLY_STATUS_OFFSET_def)
  finally show ?thesis
    using assms by (simp add: OLY_STATUS_MIN_def OLY_STATUS_OFFSET_def)
qed

text \<open>
  With the message array of the root resource bundle, every number in the range of the
  status codes finds the message that bears the name of its status, and any other number
  finds the message for an unknown error; no lookup prints an ICU error.
\<close>

theorem every_status_has_its_message:
  "get_errmsg (bundle_string root_OlyErrors) n =
     (Some (if OLY_STATUS_MIN \<le> n \<and> n \<le> OLY_STATUS_MAX
            then status_name (all_status ! nat (n + OLY_STATUS_OFFSET))
            else status_name OLY_ERR_UNKNOWN), None)"
proof (cases "OLY_STATUS_MIN \<le> n \<and> n \<le> OLY_STATUS_MAX")
  case True
  then show ?thesis
    using get_errmsg_in_range [of "all_status ! nat (n + OLY_STATUS_OFFSET)"]
    by (simp add: status_code_all_status)
next
  case False
  then show ?thesis using get_errmsg_out_of_range [of n] by auto
qed

text \<open>
  A libltdl status outside the range of the library finds no message at all: the
  fallback index is the one of the other array, past the end of this one.
\<close>

theorem unknown_ltdl_status_has_no_message:
  assumes "n < 0 \<or> LT_ERROR_MAX \<le> n"
  shows "get_ltdl_errmsg bundle_string None (root_libltdlErrors, U_ZERO_ERROR) n
    = Ret (Some root_libltdlErrors, None, None)"
  using assms by (rule get_ltdl_errmsg_out_of_range)

theorem unknown_ltdl_status_has_no_message_witness:
  "get_ltdl_errmsg bundle_string None (root_libltdlErrors, U_ZERO_ERROR) 20
    = Ret (Some root_libltdlErrors, None, None)"
  using unknown_ltdl_status_has_no_message [of 20] by (simp add: LT_ERROR_MAX_def)

end
