(* ===== verification/Fifo_Spec.thy ===== *)
theory Fifo_Spec
  imports Oly_Prelude
begin

text \<open>
  The contracts of a first-in first-out store that its clients rely on. \<open>fifo_core\<close> says
  what a put and a get of a non-empty store do, where the client has to respect \<open>okay\<close> and the store takes
  what \<open>fits\<close>; \<open>bounded_fifo\<close> adds the get of an empty
  store. The lemmas proved here hold for every implementation; \<^verbatim>\<open>String_Buffer\<close> and
  \<^verbatim>\<open>Node_Queue\<close> interpret the contracts on the code's two queues.
\<close>

datatype 'a fifo_op = Put 'a | Get

datatype 'a fifo_out = Stored | Refused | Got 'a | Nothing

text \<open>
  A client runs a list of operations. A put answers whether it was accepted, a get answers
  an element or that there is none.
\<close>

fun fifo_run ::
  "('q \<Rightarrow> 'x \<Rightarrow> (bool \<times> 'q) outcome) \<Rightarrow> ('q \<Rightarrow> ('a option \<times> 'q) outcome)
   \<Rightarrow> 'q \<Rightarrow> 'x fifo_op list \<Rightarrow> ('a fifo_out list \<times> 'q) outcome" where
  "fifo_run put get q [] = Ret ([], q)"
| "fifo_run put get q (Put x # ops) =
     obind (put q x) (\<lambda>(accepted, q).
     obind (fifo_run put get q ops) (\<lambda>(outs, q).
     Ret ((if accepted then Stored else Refused) # outs, q)))"
| "fifo_run put get q (Get # ops) =
     obind (get q) (\<lambda>(item, q).
     obind (fifo_run put get q ops) (\<lambda>(outs, q).
     Ret ((case item of None \<Rightarrow> Nothing | Some x \<Rightarrow> Got x) # outs, q)))"

text \<open>
  What a client has to respect along its run, where \<open>okay q x\<close> says that it may put \<open>x\<close> into \<open>q\<close>.
\<close>

fun fifo_clear ::
  "('q \<Rightarrow> 'x \<Rightarrow> bool) \<Rightarrow> ('q \<Rightarrow> 'x \<Rightarrow> (bool \<times> 'q) outcome) \<Rightarrow> ('q \<Rightarrow> ('a option \<times> 'q) outcome)
   \<Rightarrow> 'q \<Rightarrow> 'x fifo_op list \<Rightarrow> bool" where
  "fifo_clear okay put get q [] \<longleftrightarrow> True"
| "fifo_clear okay put get q (Put x # ops) \<longleftrightarrow>
     okay q x \<and> (case put q x of Ret (_, q) \<Rightarrow> fifo_clear okay put get q ops | _ \<Rightarrow> True)"
| "fifo_clear okay put get q (Get # ops) \<longleftrightarrow>
     (case get q of Ret (_, q) \<Rightarrow> fifo_clear okay put get q ops | _ \<Rightarrow> True)"

text \<open>
  The answers of an ideal queue that holds \<open>xs\<close> and takes an element, \<open>elem x\<close>, exactly if it fits the
  store at that moment.
\<close>

fun fifo_exact ::
  "('q \<Rightarrow> 'x \<Rightarrow> bool) \<Rightarrow> ('x \<Rightarrow> 'a) \<Rightarrow> ('q \<Rightarrow> 'x \<Rightarrow> (bool \<times> 'q) outcome) \<Rightarrow> ('q \<Rightarrow> ('a option \<times> 'q) outcome)
   \<Rightarrow> 'q \<Rightarrow> 'a list \<Rightarrow> 'x fifo_op list \<Rightarrow> 'a fifo_out list \<Rightarrow> bool" where
  "fifo_exact fits elem put get q xs [] outs \<longleftrightarrow> outs = []"
| "fifo_exact fits elem put get q xs (Put x # ops) (out # outs) \<longleftrightarrow>
     out = (if fits q x then Stored else Refused) \<and>
     (case put q x of
        Ret (_, q') \<Rightarrow> fifo_exact fits elem put get q' (if fits q x then xs @ [elem x] else xs) ops outs
      | _ \<Rightarrow> False)"
| "fifo_exact fits elem put get q xs (Get # ops) (out # outs) \<longleftrightarrow>
     out = (case xs of [] \<Rightarrow> Nothing | x # _ \<Rightarrow> Got x) \<and>
     (case get q of Ret (_, q') \<Rightarrow> fifo_exact fits elem put get q' (tl xs) ops outs | _ \<Rightarrow> False)"
| "fifo_exact fits elem put get q xs _ _ \<longleftrightarrow> False"

text \<open>\<open>n\<close> gets in a row, with the elements they answer.\<close>

fun fifo_drain :: "('q \<Rightarrow> ('a option \<times> 'q) outcome) \<Rightarrow> nat \<Rightarrow> 'q \<Rightarrow> ('a list \<times> 'q) outcome" where
  "fifo_drain get 0 q = Ret ([], q)"
| "fifo_drain get (Suc n) q =
     obind (get q) (\<lambda>(item, q).
     obind (fifo_drain get n q) (\<lambda>(xs, q).
     Ret ((case item of None \<Rightarrow> xs | Some x \<Rightarrow> x # xs), q)))"

locale fifo_core =
  fixes inv :: "'q \<Rightarrow> bool" and items :: "'q \<Rightarrow> 'a list" and okay :: "'q \<Rightarrow> 'x \<Rightarrow> bool"
    and fits :: "'q \<Rightarrow> 'x \<Rightarrow> bool" and elem :: "'x \<Rightarrow> 'a"
    and put :: "'q \<Rightarrow> 'x \<Rightarrow> (bool \<times> 'q) outcome" and get :: "'q \<Rightarrow> ('a option \<times> 'q) outcome"
  assumes put_law: "inv q \<Longrightarrow> okay q x \<Longrightarrow> \<exists>q'. put q x = Ret (fits q x, q') \<and> inv q'
      \<and> items q' = (if fits q x then items q @ [elem x] else items q)"
    and get_law: "inv q \<Longrightarrow> items q = y # ys \<Longrightarrow> \<exists>q'. get q = Ret (Some y, q') \<and> inv q' \<and> items q' = ys"
begin

lemma drain_items:
  "inv q \<Longrightarrow> items q = xs @ ys \<Longrightarrow>
   \<exists>q'. fifo_drain get (length xs) q = Ret (xs, q') \<and> inv q' \<and> items q' = ys"
proof (induction xs arbitrary: q)
  case Nil
  then show ?case by simp
next
  case (Cons x xs)
  then obtain q1 where q1: "get q = Ret (Some x, q1)" "inv q1" "items q1 = xs @ ys"
    using get_law [of q x "xs @ ys"] by auto
  with Cons.IH [of q1] show ?case by auto
qed

lemma put_then_get:
  assumes "inv q" and "items q = []" and "okay q x" and "fits q x"
  shows "\<exists>q1 q2. put q x = Ret (True, q1) \<and> get q1 = Ret (Some (elem x), q2) \<and> inv q2 \<and> items q2 = []"
proof -
  obtain q1 where q1: "put q x = Ret (True, q1)" "inv q1" "items q1 = [elem x]"
    using put_law [OF assms(1,3)] assms(2,4) by auto
  with get_law [OF q1(2,3)] show ?thesis by blast
qed

end

locale bounded_fifo = fifo_core +
  assumes get_empty_law: "inv q \<Longrightarrow> items q = [] \<Longrightarrow> \<exists>q'. get q = Ret (None, q') \<and> inv q' \<and> items q' = []"
begin

lemma run_exact:
  "inv q \<Longrightarrow> fifo_clear okay put get q ops \<Longrightarrow>
   \<exists>outs q'. fifo_run put get q ops = Ret (outs, q') \<and> inv q' \<and> fifo_exact fits elem put get q (items q) ops outs"
proof (induction ops arbitrary: q)
  case Nil
  then show ?case by simp
next
  case (Cons op ops)
  show ?case
  proof (cases op)
    case (Put x)
    then obtain q1 where q1: "put q x = Ret (fits q x, q1)" "inv q1"
        "items q1 = (if fits q x then items q @ [elem x] else items q)"
      using Cons.prems put_law [of q x] by auto
    then obtain outs q2 where "fifo_run put get q1 ops = Ret (outs, q2)" "inv q2"
        "fifo_exact fits elem put get q1 (items q1) ops outs"
      using Cons.IH [of q1] Cons.prems Put by auto
    with q1 Put show ?thesis by auto
  next
    case Get
    have "inv q" using Cons.prems(1) .
    then obtain q1 where q1: "get q = Ret (case items q of [] \<Rightarrow> None | y # _ \<Rightarrow> Some y, q1)" "inv q1" "items q1 = tl (items q)"
    proof (cases "items q")
      case Nil
      with \<open>inv q\<close> get_empty_law [of q] that show ?thesis by auto
    next
      case (Cons y ys)
      with \<open>inv q\<close> get_law [of q y ys] that show ?thesis by auto
    qed
    then obtain outs q2 where "fifo_run put get q1 ops = Ret (outs, q2)" "inv q2"
        "fifo_exact fits elem put get q1 (tl (items q)) ops outs"
      using Cons.IH [of q1] Cons.prems Get by auto
    with q1 Get show ?thesis by (auto split: list.splits)
  qed
qed

end

end
