(* ===== verification/String_Buffer.thy ===== *)
theory String_Buffer
  imports Oly_Status Fifo_Spec
begin

text \<open>
  The bipartite string buffer of \<^verbatim>\<open>src/core/string_buffer.c\<close>: two parts, A and B, of one
  block of \<^verbatim>\<open>OChar\<close> cells take turns in being read and written. Pointers into the block are
  offsets from its first cell. The theory holds the operations, the representation of a
  queue of strings by the two parts, and the proof that reserve, enqueue and dequeue
  implement that queue.
\<close>

section \<open>State\<close>

type_synonym ochar = "16 word"

datatype OlyStringBufferState =
    WRITE_A_READ_A
  | WRITE_B_READ_A
  | WRITE_B_READ_B
  | WRITE_A_READ_B

record OlyStringBuffer =
  block :: "ochar list"
  buffer_start :: nat
  read_a :: nat
  write_a :: nat
  read_b :: nat
  write_b :: nat
  buffer_end :: nat
  reserve_start :: "nat option"
  reserve_end :: "nat option"
  sb_state :: OlyStringBufferState
  keep_long_strings :: bool

section \<open>Operations\<close>

definition get_lower_write :: "OlyStringBuffer \<Rightarrow> nat" where
  "get_lower_write strbuf =
     (if write_a strbuf \<le> write_b strbuf then write_a strbuf else write_b strbuf)"

definition get_higher_write :: "OlyStringBuffer \<Rightarrow> nat" where
  "get_higher_write strbuf =
     (if write_b strbuf \<ge> write_a strbuf then write_b strbuf else write_a strbuf)"

definition get_higher_read :: "OlyStringBuffer \<Rightarrow> nat" where
  "get_higher_read strbuf =
     (if read_b strbuf \<ge> read_a strbuf then read_b strbuf else read_a strbuf)"

definition length_at_end :: "OlyStringBuffer \<Rightarrow> nat" where
  "length_at_end strbuf =
     size_of_int ((int (buffer_end strbuf) - 1) - int (get_higher_write strbuf))"

definition length_at_start :: "OlyStringBuffer \<Rightarrow> nat" where
  "length_at_start strbuf = size_diff (get_higher_read strbuf) (get_lower_write strbuf)"

definition space_available :: "OlyStringBuffer \<Rightarrow> nat \<times> OlyStringBuffer" where
  "space_available strbuf =
     (if sb_state strbuf = WRITE_A_READ_A \<or> sb_state strbuf = WRITE_B_READ_B then
        let space_at_start = length_at_start strbuf;
            space_at_end = length_at_end strbuf
        in if space_at_end \<ge> space_at_start then (space_at_end, strbuf)
           else if sb_state strbuf = WRITE_A_READ_A
                then (space_at_start, strbuf\<lparr>sb_state := WRITE_B_READ_A\<rparr>)
                else (space_at_start, strbuf\<lparr>sb_state := WRITE_A_READ_B\<rparr>)
      else (length_at_start strbuf, strbuf))"

definition is_buffer_empty :: "OlyStringBuffer \<Rightarrow> OlyStatus" where
  "is_buffer_empty strbuf =
     (if write_a strbuf = buffer_start strbuf \<and> write_b strbuf = buffer_start strbuf
      then OLY_WARN_BUFFER_EMPTY else OLY_OKAY)"

definition release_reserve :: "OlyStringBuffer \<Rightarrow> OlyStringBuffer outcome" where
  "release_reserve strbuf =
     c_assert (reserve_start strbuf \<noteq> None \<and> reserve_end strbuf \<noteq> None)
       (Ret (strbuf\<lparr>reserve_start := None, reserve_end := None\<rparr>))"

definition writes_a :: "OlyStringBuffer \<Rightarrow> bool" where
  \<comment> \<open>the test both reserve and enqueue make to pick the part to write\<close>
  "writes_a strbuf \<longleftrightarrow> sb_state strbuf = WRITE_A_READ_A \<or> sb_state strbuf = WRITE_A_READ_B"

definition reserve_string_buffer ::
  "OlyStringBuffer \<Rightarrow> nat \<Rightarrow> (OlyStatus \<times> OlyStringBuffer) outcome" where
  "reserve_string_buffer strbuf len =
     c_assert (write_a strbuf < buffer_end strbuf)
     (c_assert (write_b strbuf < buffer_end strbuf)
     (c_assert (buffer_start strbuf \<le> write_a strbuf)
     (c_assert (buffer_start strbuf \<le> write_b strbuf)
     (if reserve_start strbuf \<noteq> None then Ret (OLY_WARN_BUFFER_WRITE_LOCK, strbuf)
      else case space_available strbuf of (available, strbuf) \<Rightarrow>
        if available < size_add len 1 then Ret (OLY_ERR_BUFFER_OVERFLOW, strbuf)
        else let start = (if writes_a strbuf then write_a strbuf else write_b strbuf)
             in Ret (OLY_OKAY, strbuf\<lparr>reserve_start := Some start,
                                      reserve_end := Some (start + size_add len 1)\<rparr>)))))"

text \<open>
  The results of an enqueue: the status, the buffer, and what it stores through \<open>result\<close> and
  \<open>length_out\<close> (\<open>None\<close> where it leaves them alone).
\<close>

record enqueue_result =
  enq_status :: OlyStatus
  enq_buffer :: OlyStringBuffer
  enq_result :: "nat option"
  enq_length :: "nat option"

definition enqueue_to_string_buffer ::
  "OlyStringBuffer \<Rightarrow> ochar list \<Rightarrow> enqueue_result outcome" where
  "enqueue_to_string_buffer strbuf str =
     (case (reserve_start strbuf, reserve_end strbuf) of
        (Some start, Some stop) \<Rightarrow>
          obind (peek str 0) (\<lambda>first.
          if first = 0 then
            obind (release_reserve strbuf) (\<lambda>strbuf.
            Ret \<lparr>enq_status = OLY_OKAY, enq_buffer = strbuf,
                 enq_result = None, enq_length = Some 0\<rparr>)
          else
            let available = size_of_int (int stop - int start - 1) in
            obind (copy_loop str 0 (block strbuf) start stop) (\<lambda>(m, copier).
            obind (poke m copier 0) (\<lambda>m.
            let strbuf = strbuf\<lparr>block := m\<rparr>;
                length_out = size_diff copier start;
                status = (if available = length_out then OLY_WARN_LONG_STRING else OLY_OKAY)
            in
            if available = length_out \<and> \<not> keep_long_strings strbuf then
              Ret \<lparr>enq_status = status, enq_buffer = strbuf,
                   enq_result = Some start, enq_length = Some length_out\<rparr>
            else
              let strbuf = (if writes_a strbuf then strbuf\<lparr>write_a := Suc copier\<rparr>
                            else strbuf\<lparr>write_b := Suc copier\<rparr>) in
              obind (release_reserve strbuf) (\<lambda>strbuf.
              Ret \<lparr>enq_status = status, enq_buffer = strbuf,
                   enq_result = Some start, enq_length = Some length_out\<rparr>))))
      | _ \<Rightarrow> Ret \<lparr>enq_status = OLY_ERR_NO_RESERVATION, enq_buffer = strbuf,
                  enq_result = None, enq_length = None\<rparr>)"

text \<open>
  After a dequeue has moved a read pointer to or past the higher write pointer, the part
  that has been read out is reset and the other part becomes the one to read.
\<close>

definition finish_part :: "OlyStringBuffer \<Rightarrow> OlyStringBuffer" where
  "finish_part strbuf =
     (case sb_state strbuf of
        WRITE_A_READ_A \<Rightarrow>
          if read_a strbuf \<ge> write_a strbuf
          then strbuf\<lparr>read_a := buffer_start strbuf, write_a := buffer_start strbuf,
                      sb_state := WRITE_B_READ_B\<rparr>
          else strbuf
      | WRITE_B_READ_A \<Rightarrow>
          if read_a strbuf \<ge> write_a strbuf
          then strbuf\<lparr>read_a := buffer_start strbuf, write_a := buffer_start strbuf,
                      sb_state := WRITE_B_READ_B\<rparr>
          else strbuf
      | WRITE_B_READ_B \<Rightarrow>
          if read_b strbuf \<ge> write_b strbuf
          then strbuf\<lparr>read_b := buffer_start strbuf, write_b := buffer_start strbuf,
                      sb_state := WRITE_A_READ_A\<rparr>
          else strbuf
      | WRITE_A_READ_B \<Rightarrow>
          if read_b strbuf \<ge> write_b strbuf
          then strbuf\<lparr>read_b := buffer_start strbuf, write_b := buffer_start strbuf,
                      sb_state := WRITE_A_READ_A\<rparr>
          else strbuf)"

definition reads_a :: "OlyStringBuffer \<Rightarrow> bool" where
  "reads_a strbuf \<longleftrightarrow> sb_state strbuf = WRITE_A_READ_A \<or> sb_state strbuf = WRITE_B_READ_A"

record dequeue_result =
  deq_status :: OlyStatus
  deq_buffer :: OlyStringBuffer
  deq_dest :: "ochar list"
  deq_length :: "nat option"

definition dequeue_from_string_buffer ::
  "OlyStringBuffer \<Rightarrow> ochar list \<Rightarrow> nat \<Rightarrow> dequeue_result outcome" where
  "dequeue_from_string_buffer strbuf dest size_in =
     (if is_buffer_empty strbuf = OLY_WARN_BUFFER_EMPTY then
        obind (poke dest 0 0) (\<lambda>dest.
        Ret \<lparr>deq_status = OLY_WARN_BUFFER_EMPTY,
             deq_buffer = strbuf\<lparr>sb_state := WRITE_A_READ_A\<rparr>,
             deq_dest = dest, deq_length = None\<rparr>)
      else
        let read = (if reads_a strbuf then read_a strbuf else read_b strbuf) in
        obind (copy_loop (block strbuf) read dest 0 size_in) (\<lambda>(dest, copier).
        \<comment> \<open>\<open>copier >= stop - 1\<close>, with \<open>stop - 1\<close> below the start of \<open>dest\<close> for size 0\<close>
        if size_in \<le> Suc copier then
          obind (poke dest 0 0) (\<lambda>dest.
          Ret \<lparr>deq_status = OLY_ERR_BUFFER_OVERFLOW, deq_buffer = strbuf,
               deq_dest = dest, deq_length = None\<rparr>)
        else
          let read' = read + size_add copier 1;
              strbuf = (if reads_a strbuf then strbuf\<lparr>read_a := read'\<rparr>
                        else strbuf\<lparr>read_b := read'\<rparr>)
          in Ret \<lparr>deq_status = OLY_OKAY,
                  deq_buffer = (if read' \<ge> get_higher_write strbuf then finish_part strbuf
                                else strbuf),
                  deq_dest = dest, deq_length = Some copier\<rparr>))"

text \<open>
  \<open>open_string_buffer\<close> gets its size from the configuration, whose answer (a status and the
  number it stores) is the argument \<open>config\<close>, and its cells from \<^verbatim>\<open>omalloc\<close>, whose
  byte count wraps at the width of \<^verbatim>\<open>size_t\<close>; their contents \<open>junk\<close> are arbitrary. The
  structure itself is zeroed by \<^verbatim>\<open>ocalloc\<close>. Both allocators end the process when memory
  runs out, so the null checks behind them never fire.
\<close>

definition open_string_buffer ::
  "OlyStatus \<times> nat \<Rightarrow> (nat \<Rightarrow> ochar) \<Rightarrow> (OlyStatus \<times> OlyStringBuffer option) outcome" where
  "open_string_buffer config junk =
     (case config of (status, max_len) \<Rightarrow>
      if status \<noteq> OLY_OKAY then Ret (status, None)
      else
        let cells = map junk [0..<size_mul max_len 2 div 2];
            last = size_diff max_len 1
        in obind (poke cells last 0) (\<lambda>cells.
           Ret (status, Some \<lparr>block = cells, buffer_start = 0, read_a = 0, write_a = 0,
                read_b = 0, write_b = 0, buffer_end = last,
                reserve_start = None, reserve_end = None,
                sb_state = WRITE_A_READ_A, keep_long_strings = False\<rparr>)))"

text \<open>
  \<open>close_string_buffer\<close> dereferences its argument before it tests it for null; its effect is
  the list of objects it frees.
\<close>

datatype freed = Freed_block | Freed_struct

definition close_string_buffer ::
  "(OlyStringBuffer \<times> bool) option \<Rightarrow> freed list outcome" where
  \<comment> \<open>the structure, with whether its \<open>buffer_start\<close> is a non-null pointer\<close>
  "close_string_buffer strbuf =
     (case strbuf of
        None \<Rightarrow> Crash
      | Some (_, has_block) \<Rightarrow>
          Ret ((if has_block then [Freed_block] else []) @ [Freed_struct]))"

section \<open>Strings stored in a part\<close>

definition storable :: "ochar list \<Rightarrow> bool" where
  "storable s \<longleftrightarrow> s \<noteq> [] \<and> 0 \<notin> set s"

fun tiles :: "ochar list \<Rightarrow> nat \<Rightarrow> nat \<Rightarrow> ochar list list \<Rightarrow> bool" where
  "tiles m r w [] \<longleftrightarrow> r = w"
| "tiles m r w (s # ss) \<longleftrightarrow>
     storable s \<and> take (Suc (length s)) (drop r m) = s @ [0] \<and> r + length s + 2 \<le> w
     \<and> tiles m (r + length s + 2) w ss"

function stored :: "ochar list \<Rightarrow> nat \<Rightarrow> nat \<Rightarrow> ochar list list" where
  "stored m r w =
     (if r < w then
        let s = takeWhile (\<lambda>c. c \<noteq> 0) (drop r m) in s # stored m (r + length s + 2) w
      else [])"
  by pat_completeness auto
termination
  by (relation "measure (\<lambda>(m, r, w). w - r)") auto

declare stored.simps [simp del]

lemma stored_empty [simp]: "w \<le> r \<Longrightarrow> stored m r w = []"
  by (simp add: stored.simps)

lemma takeWhile_terminated:
  assumes "take (Suc (length s)) xs = s @ [0]" and "0 \<notin> set (s :: ochar list)"
  shows "takeWhile (\<lambda>c. c \<noteq> 0) xs = s"
proof -
  have "xs = (s @ [0]) @ drop (Suc (length s)) xs"
    using assms(1) by (metis append_take_drop_id)
  then obtain t where "xs = s @ 0 # t" by auto
  with assms(2) show ?thesis by (auto simp: takeWhile_append)
qed

lemma tiles_le: "tiles m r w ss \<Longrightarrow> r \<le> w"
  by (induction ss arbitrary: r) fastforce+

lemma tiles_empty_iff: "tiles m r w ss \<Longrightarrow> ss = [] \<longleftrightarrow> r = w"
  by (cases ss) (auto dest: tiles_le)

lemma tiles_stored: "tiles m r w ss \<Longrightarrow> stored m r w = ss"
proof (induction ss arbitrary: r)
  case Nil
  then show ?case by (simp add: stored.simps)
next
  case (Cons s ss)
  then have "takeWhile (\<lambda>c. c \<noteq> 0) (drop r m) = s"
    by (intro takeWhile_terminated) (auto simp: storable_def)
  moreover have "r < w" using Cons.prems by auto
  ultimately show ?case using Cons by (simp add: stored.simps [of m r w])
qed

lemma tiles_cong:
  assumes "tiles m r w ss" and "length m' = length m"
    and "\<And>k. r \<le> k \<Longrightarrow> k < w \<Longrightarrow> m' ! k = m ! k"
  shows "tiles m' r w ss"
  using assms
proof (induction ss arbitrary: r)
  case Nil
  then show ?case by simp
next
  case (Cons s ss)
  then have "take (Suc (length s)) (drop r m') = take (Suc (length s)) (drop r m)"
    by (intro take_drop_eqI) auto
  with Cons show ?case by auto
qed

lemma tiles_append:
  "tiles m r w (ss @ ts) \<longleftrightarrow> (\<exists>v. tiles m r v ss \<and> tiles m v w ts)"
proof (induction ss arbitrary: r)
  case Nil
  then show ?case by (auto dest: tiles_le)
next
  case (Cons s ss)
  have "(r + length s + 2 \<le> w \<and> (\<exists>v. tiles m (r + length s + 2) v ss \<and> tiles m v w ts))
      = (\<exists>v. r + length s + 2 \<le> v \<and> tiles m (r + length s + 2) v ss \<and> tiles m v w ts)"
    by (rule iffI; elim conjE exE; intro conjI exI; (assumption | (drule tiles_le)+, linarith))
  then show ?case by (simp add: Cons.IH)
qed

lemma tiles_snoc:
  "tiles m r w ss \<Longrightarrow> storable s \<Longrightarrow> take (Suc (length s)) (drop w m) = s @ [0]
   \<Longrightarrow> tiles m r (w + length s + 2) (ss @ [s])"
  by (auto simp: tiles_append)

section \<open>The queue a string buffer represents\<close>

definition contents_a :: "OlyStringBuffer \<Rightarrow> ochar list list" where
  "contents_a b = stored (block b) (read_a b) (write_a b)"

definition contents_b :: "OlyStringBuffer \<Rightarrow> ochar list list" where
  "contents_b b = stored (block b) (read_b b) (write_b b)"

definition contents :: "OlyStringBuffer \<Rightarrow> ochar list list" where
  "contents b = (if reads_a b then contents_a b @ contents_b b else contents_b b @ contents_a b)"

definition part_a :: "OlyStringBuffer \<Rightarrow> bool" where
  "part_a b \<longleftrightarrow> tiles (block b) (read_a b) (write_a b) (contents_a b)"

definition part_b :: "OlyStringBuffer \<Rightarrow> bool" where
  "part_b b \<longleftrightarrow> tiles (block b) (read_b b) (write_b b) (contents_b b)"

definition sb_shape :: "OlyStringBuffer \<Rightarrow> bool" where
  "sb_shape b \<longleftrightarrow> buffer_start b = 0 \<and> length (block b) = Suc (buffer_end b)
     \<and> length (block b) < size_mod
     \<and> write_a b < buffer_end b \<and> write_b b < buffer_end b"

definition sb_parts :: "OlyStringBuffer \<Rightarrow> bool" where
  "sb_parts b \<longleftrightarrow>
     (case sb_state b of
        WRITE_A_READ_A \<Rightarrow> read_b b = 0 \<and> write_b b = 0 \<and> (read_a b < write_a b \<or> write_a b = 0)
      | WRITE_B_READ_A \<Rightarrow> read_b b = 0 \<and> write_b b \<le> read_a b \<and> read_a b < write_a b
      | WRITE_B_READ_B \<Rightarrow> read_a b = 0 \<and> write_a b = 0 \<and> (read_b b < write_b b \<or> write_b b = 0)
      | WRITE_A_READ_B \<Rightarrow> read_a b = 0 \<and> write_a b \<le> read_b b \<and> read_b b < write_b b)"

definition sb_inv :: "OlyStringBuffer \<Rightarrow> bool" where
  "sb_inv b \<longleftrightarrow> sb_shape b \<and> sb_parts b \<and> part_a b \<and> part_b b"

definition unreserved :: "OlyStringBuffer \<Rightarrow> bool" where
  "unreserved b \<longleftrightarrow> reserve_start b = None \<and> reserve_end b = None"

lemmas sb_inv_defs = sb_inv_def sb_shape_def sb_parts_def part_a_def part_b_def

lemma part_aI: "tiles (block b) (read_a b) (write_a b) as \<Longrightarrow> part_a b \<and> contents_a b = as"
  by (simp add: part_a_def contents_a_def tiles_stored)

lemma part_bI: "tiles (block b) (read_b b) (write_b b) bs \<Longrightarrow> part_b b \<and> contents_b b = bs"
  by (simp add: part_b_def contents_b_def tiles_stored)

lemma sb_inv_intro:
  assumes "sb_shape b" and "sb_parts b"
    and "tiles (block b) (read_a b) (write_a b) as" and "tiles (block b) (read_b b) (write_b b) bs"
  shows "sb_inv b \<and> contents_a b = as \<and> contents_b b = bs"
  using assms part_aI [of b as] part_bI [of b bs] by (simp add: sb_inv_def)

lemma sb_inv_tiles:
  assumes "sb_inv b"
  shows "tiles (block b) (read_a b) (write_a b) (contents_a b)"
    and "tiles (block b) (read_b b) (write_b b) (contents_b b)"
  using assms by (auto simp: sb_inv_def part_a_def part_b_def)

text \<open>The room the buffer offers: what \<open>space_available\<close> computes, without wrap-around.\<close>

definition sb_room :: "OlyStringBuffer \<Rightarrow> nat" where
  "sb_room b =
     (case sb_state b of
        WRITE_A_READ_A \<Rightarrow> max (buffer_end b - 1 - write_a b) (read_a b)
      | WRITE_B_READ_B \<Rightarrow> max (buffer_end b - 1 - write_b b) (read_b b)
      | WRITE_B_READ_A \<Rightarrow> read_a b - write_b b
      | WRITE_A_READ_B \<Rightarrow> read_b b - write_a b)"

lemmas sb_pointer_defs = get_lower_write_def get_higher_write_def get_higher_read_def
  length_at_end_def length_at_start_def

lemma space_available_room:
  assumes "sb_inv b"
  shows "fst (space_available b) = sb_room b"
proof -
  have "read_a b \<le> write_a b" "read_b b \<le> write_b b"
    using sb_inv_tiles [OF assms] by (auto dest: tiles_le)
  with assms show ?thesis
    by (cases "sb_state b")
       (auto simp: sb_inv_def sb_shape_def sb_parts_def space_available_def sb_pointer_defs
          sb_room_def size_diff_le size_of_int_id Let_def)
qed

lemma space_available_inv:
  assumes "sb_inv b" and "space_available b = (n, b')"
  shows "sb_inv b' \<and> contents b' = contents b \<and> block b' = block b
    \<and> reserve_start b' = reserve_start b \<and> reserve_end b' = reserve_end b
    \<and> keep_long_strings b' = keep_long_strings b \<and> buffer_end b' = buffer_end b"
proof -
  have le: "read_a b \<le> write_a b" "read_b b \<le> write_b b"
    using sb_inv_tiles [OF assms(1)] by (auto dest: tiles_le)
  show ?thesis
    using assms le
    by (cases "sb_state b")
       (auto simp: sb_inv_defs space_available_def sb_pointer_defs
          size_diff_le size_of_int_id Let_def contents_a_def contents_b_def contents_def reads_a_def
          split: if_splits)
qed

section \<open>Reserving\<close>

text \<open>The cell a reservation starts at, and the first cell past the room behind it.\<close>

definition write_ptr :: "OlyStringBuffer \<Rightarrow> nat" where
  "write_ptr b = (if writes_a b then write_a b else write_b b)"

definition write_limit :: "OlyStringBuffer \<Rightarrow> nat" where
  "write_limit b =
     (case sb_state b of
        WRITE_A_READ_A \<Rightarrow> buffer_end b - 1
      | WRITE_B_READ_B \<Rightarrow> buffer_end b - 1
      | WRITE_B_READ_A \<Rightarrow> read_a b
      | WRITE_A_READ_B \<Rightarrow> read_b b)"

definition reserved :: "OlyStringBuffer \<Rightarrow> nat \<Rightarrow> bool" where
  "reserved b len \<longleftrightarrow> reserve_start b = Some (write_ptr b)
     \<and> reserve_end b = Some (write_ptr b + len + 1) \<and> write_ptr b + len + 1 \<le> write_limit b"

lemma space_available_limit:
  assumes "sb_inv b" and "space_available b = (n, b')"
  shows "write_ptr b' + n = write_limit b'"
proof -
  have le: "read_a b \<le> write_a b" "read_b b \<le> write_b b"
    using sb_inv_tiles [OF assms(1)] by (auto dest: tiles_le)
  show ?thesis
    using assms le
    by (cases "sb_state b")
       (auto simp: sb_inv_def sb_shape_def sb_parts_def space_available_def sb_pointer_defs
          size_diff_le size_of_int_id Let_def write_ptr_def writes_a_def write_limit_def
          split: if_splits)
qed

lemma sb_inv_update_reserve [simp]:
  "sb_inv (b\<lparr>reserve_start := p, reserve_end := q\<rparr>) = sb_inv b"
  "contents (b\<lparr>reserve_start := p, reserve_end := q\<rparr>) = contents b"
  "contents_a (b\<lparr>reserve_start := p, reserve_end := q\<rparr>) = contents_a b"
  "contents_b (b\<lparr>reserve_start := p, reserve_end := q\<rparr>) = contents_b b"
  "write_ptr (b\<lparr>reserve_start := p, reserve_end := q\<rparr>) = write_ptr b"
  "write_limit (b\<lparr>reserve_start := p, reserve_end := q\<rparr>) = write_limit b"
  "sb_room (b\<lparr>reserve_start := p, reserve_end := q\<rparr>) = sb_room b"
  by (cases "sb_state b"; simp add: sb_inv_defs contents_a_def contents_b_def contents_def
      reads_a_def write_ptr_def writes_a_def write_limit_def sb_room_def)+

lemma reserve_unfold:
  assumes "sb_inv b"
  shows "reserve_string_buffer b len =
    (if reserve_start b \<noteq> None then Ret (OLY_WARN_BUFFER_WRITE_LOCK, b)
     else let b' = snd (space_available b) in
       if sb_room b < size_add len 1 then Ret (OLY_ERR_BUFFER_OVERFLOW, b')
       else Ret (OLY_OKAY, b'\<lparr>reserve_start := Some (write_ptr b'),
                               reserve_end := Some (write_ptr b' + size_add len 1)\<rparr>))"
proof -
  obtain n b' where sp: "space_available b = (n, b')" by fastforce
  then have "n = sb_room b" using space_available_room [OF assms] by simp
  with assms sp show ?thesis
    by (simp add: reserve_string_buffer_def sb_inv_def sb_shape_def write_ptr_def Let_def)
qed

text \<open>On a good buffer a reservation never aborts or faults; it is granted exactly when it fits.\<close>

lemma reserve_granted:
  assumes "sb_inv b" and "unreserved b" and "len + 1 < size_mod" and "len < sb_room b"
  obtains b' where "reserve_string_buffer b len = Ret (OLY_OKAY, b')"
    and "sb_inv b'" and "reserved b' len" and "contents b' = contents b"
    and "keep_long_strings b' = keep_long_strings b" and "buffer_end b' = buffer_end b"
proof -
  obtain n b1 where sp: "space_available b = (n, b1)" by fastforce
  let ?b = "b1\<lparr>reserve_start := Some (write_ptr b1), reserve_end := Some (write_ptr b1 + (len + 1))\<rparr>"
  have n: "n = sb_room b" using space_available_room [OF assms(1)] sp by simp
  have "reserve_string_buffer b len = Ret (OLY_OKAY, ?b)"
    using assms sp by (simp add: reserve_unfold unreserved_def size_simps)
  moreover have "sb_inv ?b" and "contents ?b = contents b" "keep_long_strings ?b = keep_long_strings b"
      "buffer_end ?b = buffer_end b"
    using space_available_inv [OF assms(1) sp] by simp_all
  moreover have "reserved ?b len"
    using space_available_limit [OF assms(1) sp] n assms(4) by (simp add: reserved_def)
  ultimately show ?thesis using that by blast
qed

lemma reserve_refused:
  assumes "sb_inv b" and "unreserved b" and "len + 1 < size_mod" and "sb_room b \<le> len"
  obtains b' where "reserve_string_buffer b len = Ret (OLY_ERR_BUFFER_OVERFLOW, b')"
    and "sb_inv b'" and "unreserved b'" and "contents b' = contents b"
    and "keep_long_strings b' = keep_long_strings b" and "buffer_end b' = buffer_end b"
proof -
  obtain n b1 where sp: "space_available b = (n, b1)" by fastforce
  have "reserve_string_buffer b len = Ret (OLY_ERR_BUFFER_OVERFLOW, b1)"
    using assms sp by (simp add: reserve_unfold unreserved_def size_simps)
  moreover have "sb_inv b1 \<and> unreserved b1 \<and> contents b1 = contents b
     \<and> keep_long_strings b1 = keep_long_strings b \<and> buffer_end b1 = buffer_end b"
    using space_available_inv [OF assms(1) sp] assms(2) by (simp add: unreserved_def)
  ultimately show ?thesis using that by blast
qed

section \<open>Enqueuing\<close>

text \<open>The buffer after a string has been written behind the write pointer.\<close>

definition append_string :: "OlyStringBuffer \<Rightarrow> ochar list \<Rightarrow> OlyStringBuffer" where
  "append_string b s =
     (let p = write_ptr b; b = b\<lparr>block := overlay (block b) p (s @ [0, 0])\<rparr> in
      (if writes_a b then b\<lparr>write_a := p + length s + 2\<rparr> else b\<lparr>write_b := p + length s + 2\<rparr>)
      \<lparr>reserve_start := None, reserve_end := None\<rparr>)"

lemma overlay_two_nulls:
  "p + length s + 2 \<le> length m \<Longrightarrow> (overlay m p (s @ [0]))[p + length s + 1 := 0] = overlay m p (s @ [0, 0])"
  using overlay_snoc [of p "s @ [0]" m 0] by simp

text \<open>
  A string of \<open>n\<close> characters put into a reservation of length \<open>len\<close> is stored with two nulls
  when it is shorter than \<open>len - 1\<close>, or when it is exactly \<open>len\<close> long and one more cell is free.
\<close>

lemma enqueue_stores:
  assumes inv: "sb_inv b" and res: "reserved b len" and s: "storable s"
    and fits: "length s + 2 \<le> len \<or> length s = len"
    and lenm: "len + 1 < size_mod"
  shows "enqueue_to_string_buffer b (s @ 0 # t) =
    Ret \<lparr>enq_status = OLY_OKAY, enq_buffer = append_string b s,
         enq_result = Some (write_ptr b), enq_length = Some (length s + 1)\<rparr>"
proof -
  let ?p = "write_ptr b" and ?n = "length s"
  have lim: "write_limit b + 1 \<le> buffer_end b" and blk: "length (block b) = Suc (buffer_end b)"
      "length (block b) < size_mod"
    using inv sb_inv_tiles [OF inv]
    by (auto simp: sb_inv_def sb_shape_def sb_parts_def write_limit_def
        split: OlyStringBufferState.splits dest!: tiles_le)
  from res have p: "reserve_start b = Some ?p" "reserve_end b = Some (?p + len + 1)"
    and room: "?p + len + 1 \<le> write_limit b" by (auto simp: reserved_def)
  have n0: "s \<noteq> []" "0 \<notin> set s" "s ! 0 \<noteq> 0"
    using s by (auto simp: storable_def) (metis length_greater_0_conv nth_mem)
  have n: "?n \<le> len" using fits by auto
  have copy: "copy_loop (s @ 0 # t) 0 (block b) ?p (?p + len + 1)
      = Ret (overlay (block b) ?p (s @ [0]), ?p + ?n + 1)"
    using n0 n room lim blk by (intro copy_loop_string) auto
  have avail: "size_of_int (int (?p + len + 1) - int ?p - 1) = len"
    using lenm by (simp add: size_simps)
  have diff: "size_diff (?p + ?n + 1) ?p = ?n + 1"
    using n room lim blk by (simp add: size_simps)
  show ?thesis
    using p n0 copy avail diff fits room lim blk n
    by (auto simp: enqueue_to_string_buffer_def append_string_def Let_def peek_def nth_append
        poke_def overlay_two_nulls [simplified] release_reserve_def writes_a_def write_ptr_def)
qed

lemma append_string_inv:
  assumes inv: "sb_inv b" and s: "storable s" and room: "write_ptr b + length s + 2 \<le> write_limit b"
  shows "sb_inv (append_string b s) \<and> contents (append_string b s) = contents b @ [s]"
proof -
  let ?p = "write_ptr b" and ?m = "overlay (block b) (write_ptr b) (s @ [0, 0])"
  let ?b = "append_string b s"
  note ta = sb_inv_tiles(1) [OF inv] and tb = sb_inv_tiles(2) [OF inv]
  have shape: "sb_shape b" "sb_parts b" using inv by (auto simp: sb_inv_def)
  have le: "read_a b \<le> write_a b" "read_b b \<le> write_b b" using ta tb by (auto dest: tiles_le)
  have lim: "write_limit b < buffer_end b" using shape le
    by (auto simp: sb_shape_def sb_parts_def write_limit_def split: OlyStringBufferState.splits)
  then have len: "length ?m = length (block b)" and in_m: "?p + length (s @ [0, 0]) \<le> length (block b)"
    using shape room by (auto simp: sb_shape_def)
  have keep: "tiles (block b) r w ss \<Longrightarrow> w \<le> ?p \<or> ?p + length s + 2 \<le> r \<Longrightarrow> tiles ?m r w ss" for r w ss
    using len in_m by (elim tiles_cong) (auto simp: nth_overlay)
  have new: "take (Suc (length s)) (drop ?p ?m) = s @ [0]"
    using in_m by (subst take_drop_overlay_same) auto
  have shape': "sb_shape ?b" "sb_parts ?b"
    using shape lim room len le
    by (cases "sb_state b"; auto simp: append_string_def Let_def sb_shape_def sb_parts_def writes_a_def
        write_ptr_def write_limit_def)+
  show ?thesis
  proof (cases "writes_a b")
    case True
    then have p: "?p = write_a b" by (simp add: write_ptr_def)
    have "tiles ?m (read_a b) (write_a b + length s + 2) (contents_a b @ [s])"
      using keep [OF ta] new s p by (intro tiles_snoc) auto
    moreover have "tiles ?m (read_b b) (write_b b) (contents_b b)"
      using True room shape p tb keep [OF tb]
      by (cases "sb_state b") (auto simp: writes_a_def write_limit_def sb_parts_def)
    ultimately show ?thesis
      using sb_inv_intro [OF shape', of "contents_a b @ [s]" "contents_b b"] True p shape
      by (cases "sb_state b")
         (auto simp: append_string_def Let_def contents_def reads_a_def writes_a_def sb_parts_def
            contents_b_def)
  next
    case False
    then have p: "?p = write_b b" by (simp add: write_ptr_def)
    have "tiles ?m (read_b b) (write_b b + length s + 2) (contents_b b @ [s])"
      using keep [OF tb] new s p by (intro tiles_snoc) auto
    moreover have "tiles ?m (read_a b) (write_a b) (contents_a b)"
      using False room shape p ta keep [OF ta]
      by (cases "sb_state b") (auto simp: writes_a_def write_limit_def sb_parts_def)
    ultimately show ?thesis
      using sb_inv_intro [OF shape', of "contents_a b" "contents_b b @ [s]"] False p shape
      by (cases "sb_state b")
         (auto simp: append_string_def Let_def contents_def reads_a_def writes_a_def sb_parts_def
            contents_a_def)
  qed
qed

lemma append_string_frame [simp]:
  "unreserved (append_string b s)"
  "keep_long_strings (append_string b s) = keep_long_strings b"
  "buffer_end (append_string b s) = buffer_end b"
  by (simp_all add: append_string_def unreserved_def Let_def)

section \<open>Dequeuing\<close>

definition read_ptr :: "OlyStringBuffer \<Rightarrow> nat" where
  "read_ptr b = (if reads_a b then read_a b else read_b b)"

lemma empty_iff_contents:
  assumes "sb_inv b"
  shows "is_buffer_empty b = OLY_WARN_BUFFER_EMPTY \<longleftrightarrow> contents b = []"
  using assms tiles_empty_iff [OF sb_inv_tiles(1) [OF assms]] tiles_empty_iff [OF sb_inv_tiles(2) [OF assms]]
    tiles_le [OF sb_inv_tiles(1) [OF assms]] tiles_le [OF sb_inv_tiles(2) [OF assms]]
  by (cases "sb_state b")
     (auto simp: is_buffer_empty_def contents_def reads_a_def sb_inv_def sb_shape_def sb_parts_def)

text \<open>The first string of the queue lies at the read pointer, and the rest behind it.\<close>

lemma front_a:
  assumes inv: "sb_inv b" and c: "contents b = s # ss" and a: "reads_a b"
  obtains as where "contents_a b = s # as" and "ss = as @ contents_b b"
    and "tiles (block b) (read_a b + length s + 2) (write_a b) as"
proof -
  note t = sb_inv_tiles [OF inv]
  have "sb_parts b" using inv by (simp add: sb_inv_def)
  then have "contents_a b \<noteq> []"
    using a c tiles_empty_iff [OF t(1)] tiles_le [OF t(1)]
    by (cases "sb_state b") (auto simp: contents_def reads_a_def sb_parts_def contents_b_def)
  then obtain as where "contents_a b = s # as" "ss = as @ contents_b b"
    using a c by (cases "contents_a b") (auto simp: contents_def)
  with t(1) that show ?thesis by auto
qed

lemma front_b:
  assumes inv: "sb_inv b" and c: "contents b = s # ss" and b: "\<not> reads_a b"
  obtains bs where "contents_b b = s # bs" and "ss = bs @ contents_a b"
    and "tiles (block b) (read_b b + length s + 2) (write_b b) bs"
proof -
  note t = sb_inv_tiles [OF inv]
  have "sb_parts b" using inv by (simp add: sb_inv_def)
  then have "contents_b b \<noteq> []"
    using b c tiles_empty_iff [OF t(2)] tiles_le [OF t(2)]
    by (cases "sb_state b") (auto simp: contents_def reads_a_def sb_parts_def contents_a_def)
  then obtain bs where "contents_b b = s # bs" "ss = bs @ contents_a b"
    using b c by (cases "contents_b b") (auto simp: contents_def)
  with t(2) that show ?thesis by auto
qed

lemma front_string:
  assumes inv: "sb_inv b" and c: "contents b = s # ss"
  shows "storable s \<and> take (Suc (length s)) (drop (read_ptr b) (block b)) = s @ [0]
    \<and> read_ptr b + length s + 2 < length (block b)"
proof -
  note t = sb_inv_tiles [OF inv]
  have "sb_shape b" using inv by (simp add: sb_inv_def)
  then have w: "write_a b < length (block b)" "write_b b < length (block b)"
    by (auto simp: sb_shape_def)
  show ?thesis
  proof (cases "reads_a b")
    case True
    then obtain as where "contents_a b = s # as" using front_a [OF inv c] by blast
    with True t(1) w show ?thesis by (auto simp: read_ptr_def)
  next
    case False
    then obtain bs where "contents_b b = s # bs" using front_b [OF inv c] by blast
    with False t(2) w show ?thesis by (auto simp: read_ptr_def)
  qed
qed

text \<open>The buffer after its first string, of length \<open>n\<close>, has been read.\<close>

definition drop_string :: "OlyStringBuffer \<Rightarrow> nat \<Rightarrow> OlyStringBuffer" where
  "drop_string b n =
     (let r = read_ptr b + n + 2;
          b = (if reads_a b then b\<lparr>read_a := r\<rparr> else b\<lparr>read_b := r\<rparr>)
      in if r \<ge> get_higher_write b then finish_part b else b)"

lemma drop_string_frame [simp]:
  "unreserved (drop_string b n) = unreserved b"
  "keep_long_strings (drop_string b n) = keep_long_strings b"
  "buffer_end (drop_string b n) = buffer_end b"
  by (simp_all add: drop_string_def unreserved_def Let_def finish_part_def
      split: OlyStringBufferState.split)

lemma drop_string_inv_a:
  assumes inv: "sb_inv b" and c: "contents b = s # ss" and a: "reads_a b"
  shows "sb_inv (drop_string b (length s)) \<and> contents (drop_string b (length s)) = ss"
proof -
  let ?b = "drop_string b (length s)" and ?r = "read_ptr b + length s + 2"
  note t = sb_inv_tiles [OF inv]
  have shape: "sb_shape b" "sb_parts b" using inv by (auto simp: sb_inv_def)
  have le: "read_a b \<le> write_a b" "read_b b \<le> write_b b" using t by (auto dest: tiles_le)
  obtain as where as: "contents_a b = s # as" "ss = as @ contents_b b"
    and ta: "tiles (block b) ?r (write_a b) as"
    using front_a [OF inv c a] a by (auto simp: read_ptr_def)
  have r: "?r \<le> write_a b" using ta by (rule tiles_le)
  show ?thesis
  proof (cases "?r = write_a b")
    case False
    then have b: "?b = b\<lparr>read_a := ?r\<rparr>"
      using a r shape le by (cases "sb_state b")
        (auto simp: drop_string_def Let_def get_higher_write_def sb_parts_def reads_a_def)
    have "sb_inv ?b \<and> contents_a ?b = as \<and> contents_b ?b = contents_b b"
      using a False ta r t(2) shape b le by (intro sb_inv_intro; cases "sb_state b")
        (auto simp: sb_shape_def sb_parts_def reads_a_def read_ptr_def)
    then show ?thesis using as a b by (simp add: contents_def reads_a_def)
  next
    case True
    then have b: "?b = b\<lparr>read_a := 0, write_a := 0, sb_state := WRITE_B_READ_B\<rparr>"
      using a r shape le by (cases "sb_state b")
        (auto simp: drop_string_def Let_def get_higher_write_def sb_parts_def reads_a_def
           finish_part_def sb_shape_def)
    have "sb_inv ?b \<and> contents_a ?b = [] \<and> contents_b ?b = contents_b b"
      using a t(2) shape b le tiles_empty_iff [OF t(2)] by (intro sb_inv_intro; cases "sb_state b")
        (auto simp: sb_shape_def sb_parts_def reads_a_def)
    moreover have "as = []" using True ta tiles_empty_iff by fastforce
    ultimately show ?thesis using as b by (simp add: contents_def reads_a_def)
  qed
qed

lemma drop_string_inv_b:
  assumes inv: "sb_inv b" and c: "contents b = s # ss" and nb: "\<not> reads_a b"
  shows "sb_inv (drop_string b (length s)) \<and> contents (drop_string b (length s)) = ss"
proof -
  let ?b = "drop_string b (length s)" and ?r = "read_ptr b + length s + 2"
  note t = sb_inv_tiles [OF inv]
  have shape: "sb_shape b" "sb_parts b" using inv by (auto simp: sb_inv_def)
  have le: "read_a b \<le> write_a b" "read_b b \<le> write_b b" using t by (auto dest: tiles_le)
  obtain bs where bs: "contents_b b = s # bs" "ss = bs @ contents_a b"
    and tb: "tiles (block b) ?r (write_b b) bs"
    using front_b [OF inv c nb] nb by (auto simp: read_ptr_def)
  have r: "?r \<le> write_b b" using tb by (rule tiles_le)
  show ?thesis
  proof (cases "?r = write_b b")
    case False
    then have b: "?b = b\<lparr>read_b := ?r\<rparr>"
      using nb r shape le by (cases "sb_state b")
        (auto simp: drop_string_def Let_def get_higher_write_def sb_parts_def reads_a_def)
    have "sb_inv ?b \<and> contents_a ?b = contents_a b \<and> contents_b ?b = bs"
      using nb False tb r t(1) shape b le by (intro sb_inv_intro; cases "sb_state b")
        (auto simp: sb_shape_def sb_parts_def reads_a_def read_ptr_def)
    then show ?thesis using bs nb b by (simp add: contents_def reads_a_def)
  next
    case True
    then have b: "?b = b\<lparr>read_b := 0, write_b := 0, sb_state := WRITE_A_READ_A\<rparr>"
      using nb r shape le by (cases "sb_state b")
        (auto simp: drop_string_def Let_def get_higher_write_def sb_parts_def reads_a_def
           finish_part_def sb_shape_def)
    have "sb_inv ?b \<and> contents_a ?b = contents_a b \<and> contents_b ?b = []"
      using nb t(1) shape b le tiles_empty_iff [OF t(1)] by (intro sb_inv_intro; cases "sb_state b")
        (auto simp: sb_shape_def sb_parts_def reads_a_def)
    moreover have "bs = []" using True tb tiles_empty_iff by fastforce
    ultimately show ?thesis using bs b by (simp add: contents_def reads_a_def)
  qed
qed

lemma drop_string_inv:
  assumes "sb_inv b" and "contents b = s # ss"
  shows "sb_inv (drop_string b (length s)) \<and> contents (drop_string b (length s)) = ss"
  using drop_string_inv_a [OF assms] drop_string_inv_b [OF assms] by blast

lemma dequeue_front:
  assumes inv: "sb_inv b" and c: "contents b = s # ss"
    and room: "length s + 3 \<le> size_in" and dest: "length s < length dest"
  shows "dequeue_from_string_buffer b dest size_in =
    Ret \<lparr>deq_status = OLY_OKAY, deq_buffer = drop_string b (length s),
         deq_dest = overlay dest 0 (s @ [0]), deq_length = Some (length s + 1)\<rparr>"
proof -
  have f: "storable s" "take (Suc (length s)) (drop (read_ptr b) (block b)) = s @ [0]"
      "read_ptr b + length s + 2 < length (block b)"
    using front_string [OF inv c] by auto
  have "copy_loop (block b) (read_ptr b) dest 0 size_in
      = Ret (overlay dest 0 (s @ [0]), 0 + length s + 1)"
    using f room dest by (intro copy_loop_string) (auto simp: storable_def)
  moreover have "size_add (length s + 1) 1 = length s + 2"
    using f(3) inv by (simp add: sb_inv_def sb_shape_def size_simps)
  moreover have "is_buffer_empty b = OLY_OKAY"
    using empty_iff_contents [OF inv] c by (simp add: is_buffer_empty_def split: if_splits)
  ultimately show ?thesis
    using room by (auto simp: dequeue_from_string_buffer_def Let_def drop_string_def read_ptr_def
        reads_a_def)
qed

lemma dequeue_empty:
  assumes "sb_inv b" and "contents b = []" and "dest \<noteq> []"
  shows "dequeue_from_string_buffer b dest size_in =
    Ret \<lparr>deq_status = OLY_WARN_BUFFER_EMPTY, deq_buffer = b\<lparr>sb_state := WRITE_A_READ_A\<rparr>,
         deq_dest = dest[0 := 0], deq_length = None\<rparr>"
  using empty_iff_contents [OF assms(1)] assms(2,3)
  by (simp add: dequeue_from_string_buffer_def poke_def)

lemma empty_restart_inv:
  assumes "sb_inv b" and "contents b = []"
  shows "sb_inv (b\<lparr>sb_state := WRITE_A_READ_A\<rparr>) \<and> contents (b\<lparr>sb_state := WRITE_A_READ_A\<rparr>) = []"
proof -
  have "write_a b = 0" "write_b b = 0"
    using empty_iff_contents [OF assms(1)] assms
    by (auto simp: is_buffer_empty_def sb_inv_def sb_shape_def split: if_splits)
  moreover have "read_a b = 0" "read_b b = 0"
    using calculation sb_inv_tiles [OF assms(1)] by (auto dest!: tiles_le)
  ultimately show ?thesis using assms(1)
    by (auto simp: sb_inv_def sb_shape_def sb_parts_def part_a_def part_b_def contents_a_def
        contents_b_def contents_def)
qed

text \<open>
  A destination that cannot hold the string, its null and one spare cell gets an empty
  string, and the buffer keeps the string.
\<close>

lemma dequeue_short:
  assumes inv: "sb_inv b" and c: "contents b = s # ss"
    and short: "size_in < length s + 3" and dest: "0 < size_in" "size_in \<le> length dest"
  obtains dest' where "dequeue_from_string_buffer b dest size_in =
    Ret \<lparr>deq_status = OLY_ERR_BUFFER_OVERFLOW, deq_buffer = b, deq_dest = dest', deq_length = None\<rparr>"
    and "length dest' = length dest" and "dest' ! 0 = 0"
proof -
  have f: "storable s" "take (Suc (length s)) (drop (read_ptr b) (block b)) = s @ [0]"
    using front_string [OF inv c] by auto
  have ne: "is_buffer_empty b = OLY_OKAY"
    using empty_iff_contents [OF inv] c by (simp add: is_buffer_empty_def split: if_splits)
  have "\<exists>d k. copy_loop (block b) (read_ptr b) dest 0 size_in = Ret (d, k)
      \<and> length d = length dest \<and> size_in \<le> Suc k"
  proof (cases "length s < size_in")
    case True
    with f dest short have "copy_loop (block b) (read_ptr b) dest 0 size_in
        = Ret (overlay dest 0 (s @ [0]), 0 + length s + 1)"
      by (intro copy_loop_string) (auto simp: storable_def)
    with True dest short show ?thesis by auto
  next
    case False
    let ?s = "take size_in s"
    have "take size_in (take (Suc (length s)) (drop (read_ptr b) (block b))) = take size_in (s @ [0])"
      by (simp only: f(2))
    then have "take (length ?s) (drop (read_ptr b) (block b)) = ?s"
      using False by (simp add: min_def)
    moreover have "0 \<notin> set ?s" "?s \<noteq> []"
      using f(1) dest False by (auto simp: storable_def dest: in_set_takeD)
    ultimately have "copy_loop (block b) (read_ptr b) dest 0 size_in = Ret (overlay dest 0 ?s, size_in)"
      using False dest by (intro copy_loop_full) auto
    with False dest show ?thesis by auto
  qed
  then obtain d k where "copy_loop (block b) (read_ptr b) dest 0 size_in = Ret (d, k)"
      "length d = length dest" "size_in \<le> Suc k" by blast
  with ne dest have "dequeue_from_string_buffer b dest size_in =
    Ret \<lparr>deq_status = OLY_ERR_BUFFER_OVERFLOW, deq_buffer = b, deq_dest = d[0 := 0], deq_length = None\<rparr>"
    by (auto simp: dequeue_from_string_buffer_def Let_def read_ptr_def poke_def)
  moreover have "d[0 := 0] ! 0 = 0"
    using \<open>length d = length dest\<close> dest by (intro nth_list_update_eq) linarith
  ultimately show ?thesis using \<open>length d = length dest\<close> by (intro that [of "d[0 := 0]"]) auto
qed

section \<open>Queuing one string\<close>

text \<open>
  The callers of the buffer reserve and enqueue in one go: \<^verbatim>\<open>enqueue_to_node_queue\<close> reserves
  the length of the string plus \<open>extra\<close> (2 for a key, 0 for a value) and enqueues the string.
  \<open>mem\<close> is the memory from the string's first character on.
\<close>

definition queue_string ::
  "OlyStringBuffer \<Rightarrow> ochar list \<Rightarrow> nat \<Rightarrow> (OlyStatus \<times> OlyStringBuffer \<times> nat option) outcome" where
  "queue_string strbuf mem extra =
     obind (c_strlen mem) (\<lambda>len.
     obind (reserve_string_buffer strbuf (size_add len extra)) (\<lambda>(status, strbuf).
     if status \<noteq> OLY_OKAY then Ret (status, strbuf, None)
     else obind (enqueue_to_string_buffer strbuf mem) (\<lambda>r.
          Ret (enq_status r, enq_buffer r, enq_result r))))"

lemma write_room:
  assumes "sb_inv b" and "reserved b len" and "length s + 2 \<le> len"
  shows "write_ptr b + length s + 2 \<le> write_limit b"
  using assms by (simp add: reserved_def)

lemma queue_string_stored:
  assumes inv: "sb_inv b" and un: "unreserved b" and s: "storable s"
    and small: "length s + extra + 1 < size_mod" and extra: "2 \<le> extra"
    and room: "length s + extra < sb_room b"
  obtains b' p where "queue_string b (s @ 0 # t) extra = Ret (OLY_OKAY, b', Some p)"
    and "sb_inv b'" and "unreserved b'" and "contents b' = contents b @ [s]"
    and "keep_long_strings b' = keep_long_strings b" and "buffer_end b' = buffer_end b"
proof -
  have n0: "0 \<notin> set s" using s by (simp add: storable_def)
  from reserve_granted [OF inv un, of "length s + extra"] small room
  obtain b1 where r: "reserve_string_buffer b (length s + extra) = Ret (OLY_OKAY, b1)"
      "sb_inv b1" "reserved b1 (length s + extra)" "contents b1 = contents b"
      "keep_long_strings b1 = keep_long_strings b" "buffer_end b1 = buffer_end b"
    by auto
  have "queue_string b (s @ 0 # t) extra = Ret (OLY_OKAY, append_string b1 s, Some (write_ptr b1))"
    using enqueue_stores [OF r(2,3) s, of t] extra small n0 r(1)
    by (simp add: queue_string_def size_simps)
  moreover have "sb_inv (append_string b1 s) \<and> contents (append_string b1 s) = contents b @ [s]"
    using append_string_inv [OF r(2) s] write_room [OF r(2,3), of s] extra r(4) by simp
  ultimately show ?thesis using that r by simp
qed

text \<open>Without slack the string is stored correctly as long as one cell more than that is free.\<close>

lemma queue_string_stored_exact:
  assumes inv: "sb_inv b" and un: "unreserved b" and s: "storable s"
    and small: "length s + 1 < size_mod" and room: "length s + 1 < sb_room b"
  obtains b' p where "queue_string b (s @ 0 # t) 0 = Ret (OLY_OKAY, b', Some p)"
    and "sb_inv b'" and "unreserved b'" and "contents b' = contents b @ [s]"
    and "keep_long_strings b' = keep_long_strings b" and "buffer_end b' = buffer_end b"
proof -
  have n0: "0 \<notin> set s" using s by (simp add: storable_def)
  obtain n b0 where sp: "space_available b = (n, b0)" by fastforce
  have n: "n = sb_room b" using space_available_room [OF inv] sp by simp
  let ?b1 = "b0\<lparr>reserve_start := Some (write_ptr b0), reserve_end := Some (write_ptr b0 + (length s + 1))\<rparr>"
  note b0 = space_available_inv [OF inv sp]
  have r: "reserve_string_buffer b (length s) = Ret (OLY_OKAY, ?b1)"
    using inv un small room sp by (simp add: reserve_unfold unreserved_def size_simps)
  have res: "reserved ?b1 (length s)" and lim: "write_ptr ?b1 + length s + 2 \<le> write_limit ?b1"
    using space_available_limit [OF inv sp] room n by (auto simp: reserved_def)
  have inv1: "sb_inv ?b1" using b0 by simp
  have "queue_string b (s @ 0 # t) 0 = Ret (OLY_OKAY, append_string ?b1 s, Some (write_ptr ?b1))"
    using enqueue_stores [OF inv1 res s, of t] small n0 r
    by (simp add: queue_string_def size_simps)
  moreover have "sb_inv (append_string ?b1 s) \<and> contents (append_string ?b1 s) = contents b @ [s]"
    using append_string_inv [OF inv1 s lim] b0 by simp
  ultimately show ?thesis using that b0 by simp
qed

lemma queue_string_refused:
  assumes inv: "sb_inv b" and un: "unreserved b" and s: "0 \<notin> set s"
    and small: "length s + extra + 1 < size_mod" and room: "sb_room b \<le> length s + extra"
  obtains b' where "queue_string b (s @ 0 # t) extra = Ret (OLY_ERR_BUFFER_OVERFLOW, b', None)"
    and "sb_inv b'" and "unreserved b'" and "contents b' = contents b"
    and "keep_long_strings b' = keep_long_strings b" and "buffer_end b' = buffer_end b"
proof -
  from reserve_refused [OF inv un, of "length s + extra"] small room
  obtain b1 where r: "reserve_string_buffer b (length s + extra) = Ret (OLY_ERR_BUFFER_OVERFLOW, b1)"
      "sb_inv b1" "unreserved b1" "contents b1 = contents b"
      "keep_long_strings b1 = keep_long_strings b" "buffer_end b1 = buffer_end b"
    by auto
  then have "queue_string b (s @ 0 # t) extra = Ret (OLY_ERR_BUFFER_OVERFLOW, b1, None)"
    using s small by (simp add: queue_string_def size_simps)
  with r that show ?thesis by blast
qed

section \<open>The string buffer is a bounded first-in first-out store\<close>

definition sb_good :: "OlyStringBuffer \<Rightarrow> bool" where
  "sb_good b \<longleftrightarrow> sb_inv b \<and> unreserved b"

text \<open>
  A client reserves the length of its string and some slack, and enqueues: two cells for the keys of nodes,
  none for their values. Without slack it has to see to it that the string does not fit exactly.
\<close>

definition sb_okay :: "OlyStringBuffer \<Rightarrow> ochar list \<times> nat \<Rightarrow> bool" where
  "sb_okay b x \<longleftrightarrow> (case x of (s, extra) \<Rightarrow> storable s \<and> length s + extra + 1 < size_mod
     \<and> (2 \<le> extra \<or> extra = 0 \<and> length s + 1 \<noteq> sb_room b))"

definition sb_fits :: "OlyStringBuffer \<Rightarrow> ochar list \<times> nat \<Rightarrow> bool" where
  "sb_fits b x \<longleftrightarrow> (case x of (s, extra) \<Rightarrow> length s + extra < sb_room b)"

definition sb_put :: "OlyStringBuffer \<Rightarrow> ochar list \<times> nat \<Rightarrow> (bool \<times> OlyStringBuffer) outcome" where
  "sb_put b x = (case x of (s, extra) \<Rightarrow>
     obind (queue_string b (s @ [0]) extra) (\<lambda>(status, b, _). Ret (status = OLY_OKAY, b)))"

definition sb_get :: "OlyStringBuffer \<Rightarrow> (ochar list option \<times> OlyStringBuffer) outcome" where
  \<comment> \<open>dequeue into an array that holds any string of the buffer\<close>
  "sb_get b =
     (let size = buffer_end b + 3 in
      obind (dequeue_from_string_buffer b (replicate size 0) size) (\<lambda>r.
      Ret (case deq_length r of None \<Rightarrow> None | Some n \<Rightarrow> Some (take (n - 1) (deq_dest r)),
           deq_buffer r)))"

lemma sb_put_law:
  assumes "sb_good b" and "sb_okay b x"
  shows "\<exists>b'. sb_put b x = Ret (sb_fits b x, b') \<and> sb_good b'
    \<and> contents b' = (if sb_fits b x then contents b @ [fst x] else contents b)"
proof -
  obtain s extra where x: "x = (s, extra)" by (cases x)
  have b: "sb_inv b" "unreserved b" and s: "storable s" "0 \<notin> set s"
    and small: "length s + extra + 1 < size_mod" and slack: "2 \<le> extra \<or> extra = 0 \<and> length s + 1 \<noteq> sb_room b"
    using assms by (auto simp: sb_good_def sb_okay_def x storable_def)
  show ?thesis
  proof (cases "length s + extra < sb_room b")
    case True
    obtain b' p where "queue_string b (s @ [0]) extra = Ret (OLY_OKAY, b', Some p)"
        "sb_inv b'" "unreserved b'" "contents b' = contents b @ [s]"
    proof (cases "extra = 0")
      case no_slack: True
      then have "length s + 1 < sb_room b" using True slack by auto
      with no_slack small show ?thesis
        using that queue_string_stored_exact [OF b s(1), of "[]" thesis] by simp
    next
      case False
      then have "2 \<le> extra" using slack by auto
      from queue_string_stored [OF b s(1) small this True, of "[]"] show ?thesis using that by blast
    qed
    with True show ?thesis by (auto simp: sb_put_def sb_good_def sb_fits_def x)
  next
    case False
    then have full: "sb_room b \<le> length s + extra" by simp
    obtain b' where "queue_string b (s @ [0]) extra = Ret (OLY_ERR_BUFFER_OVERFLOW, b', None)"
        "sb_inv b'" "unreserved b'" "contents b' = contents b"
      by (rule queue_string_refused [OF b s(2) small full, of "[]"])
    with False show ?thesis by (auto simp: sb_put_def sb_good_def sb_fits_def x)
  qed
qed

lemma sb_get_law:
  assumes "sb_good b" and "contents b = s # ss"
  shows "\<exists>b'. sb_get b = Ret (Some s, b') \<and> sb_good b' \<and> contents b' = ss"
proof -
  have inv: "sb_inv b" using assms(1) by (simp add: sb_good_def)
  let ?size = "buffer_end b + 3"
  have "length s + 3 \<le> ?size"
    using front_string [OF inv assms(2)] inv by (auto simp: sb_inv_def sb_shape_def)
  then have "dequeue_from_string_buffer b (replicate ?size 0) ?size =
    Ret \<lparr>deq_status = OLY_OKAY, deq_buffer = drop_string b (length s),
         deq_dest = overlay (replicate ?size 0) 0 (s @ [0]), deq_length = Some (length s + 1)\<rparr>"
    by (intro dequeue_front [OF inv assms(2)]) auto
  then show ?thesis
    using drop_string_inv [OF inv assms(2)] assms(1)
    by (simp add: sb_get_def sb_good_def overlay_def Let_def)
qed

lemma sb_get_empty_law:
  assumes "sb_good b" and "contents b = []"
  shows "\<exists>b'. sb_get b = Ret (None, b') \<and> sb_good b' \<and> contents b' = []"
  using assms dequeue_empty [of b "replicate (buffer_end b + 3) 0"] empty_restart_inv [of b]
  by (simp add: sb_get_def sb_good_def Let_def unreserved_def)

interpretation sbq: bounded_fifo sb_good contents sb_okay sb_fits fst sb_put sb_get
  by unfold_locales (simp_all add: sb_put_law sb_get_law sb_get_empty_law)

section \<open>Opening the buffer\<close>

lemma open_string_buffer_good:
  assumes "2 \<le> n" and "2 * n < size_mod"
  shows "\<exists>b. open_string_buffer (OLY_OKAY, n) junk = Ret (OLY_OKAY, Some b) \<and> sb_good b
    \<and> contents b = [] \<and> sb_room b = n - 2 \<and> \<not> keep_long_strings b"
proof -
  have size: "size_mul n 2 div 2 = n" "size_diff n (Suc 0) = n - 1"
    using assms by (simp_all add: size_mul_def size_diff_le)
  show ?thesis
    using assms unfolding open_string_buffer_def
    by (auto simp: size poke_def Let_def sb_good_def sb_inv_def sb_shape_def sb_parts_def
        part_a_def part_b_def contents_a_def contents_b_def contents_def unreserved_def sb_room_def)
qed

section \<open>Where reserve and enqueue disagree\<close>

text \<open>
  An enqueue ends its copy when the destination reaches the end of the reservation, so a
  string longer than the reservation is cut after \<open>len + 1\<close> characters; the status is
  \<open>OLY_OKAY\<close>, as the length test compares with \<open>len\<close>.
\<close>

lemma enqueue_truncates:
  assumes inv: "sb_inv b" and res: "reserved b len" and s: "storable s"
    and long: "len < length s" and lenm: "len + 1 < size_mod"
  shows "\<exists>b'. enqueue_to_string_buffer b (s @ [0]) =
    Ret \<lparr>enq_status = OLY_OKAY, enq_buffer = b',
         enq_result = Some (write_ptr b), enq_length = Some (len + 1)\<rparr>
    \<and> take (len + 2) (drop (write_ptr b) (block b')) = take (len + 1) s @ [0]"
proof -
  let ?p = "write_ptr b" and ?s = "take (len + 1) s"
  have lim: "write_limit b + 1 \<le> buffer_end b" and blk: "length (block b) = Suc (buffer_end b)"
      "length (block b) < size_mod"
    using inv sb_inv_tiles [OF inv]
    by (auto simp: sb_inv_def sb_shape_def sb_parts_def write_limit_def
        split: OlyStringBufferState.splits dest!: tiles_le)
  from res have p: "reserve_start b = Some ?p" "reserve_end b = Some (?p + len + 1)"
    and room: "?p + len + 1 \<le> write_limit b" by (auto simp: reserved_def)
  have n0: "?s \<noteq> []" "0 \<notin> set ?s" "s \<noteq> []" "s ! 0 \<noteq> 0" "length ?s = len + 1"
    using s long by (auto simp: storable_def dest: in_set_takeD) (metis length_greater_0_conv nth_mem)
  have "copy_loop (s @ [0]) 0 (block b) ?p (?p + len + 1) = Ret (overlay (block b) ?p ?s, ?p + len + 1)"
    using n0 long room lim blk by (intro copy_loop_full) auto
  moreover have "size_of_int (int (?p + len + 1) - int ?p - 1) = len"
    and "size_diff (?p + len + 1) ?p = len + 1"
    using lenm room lim blk by (auto simp: size_simps)
  moreover have "(overlay (block b) ?p ?s)[?p + len + 1 := 0] = overlay (block b) ?p (?s @ [0])"
    using overlay_snoc [of ?p ?s "block b" 0] n0 room lim blk by simp
  moreover have "take (len + 2) (drop ?p (overlay (block b) ?p (?s @ [0]))) = ?s @ [0]"
    using n0 room lim blk by (subst take_drop_overlay_same) auto
  ultimately show ?thesis
    using p n0 room lim blk
    by (auto simp: enqueue_to_string_buffer_def Let_def peek_def nth_append poke_def
        release_reserve_def)
qed

text \<open>
  A string one character shorter than the reservation is reported as too long, and the
  reservation stays, so that every later reservation is refused as locked.
\<close>

lemma enqueue_reports_long:
  assumes inv: "sb_inv b" and res: "reserved b len" and s: "storable s"
    and n: "Suc (length s) = len" and lenm: "len + 1 < size_mod" and keep: "\<not> keep_long_strings b"
  shows "\<exists>b'. enqueue_to_string_buffer b (s @ [0]) =
    Ret \<lparr>enq_status = OLY_WARN_LONG_STRING, enq_buffer = b',
         enq_result = Some (write_ptr b), enq_length = Some len\<rparr>
    \<and> write_a b' = write_a b \<and> write_b b' = write_b b
    \<and> (\<forall>k. reserve_string_buffer b' k = Ret (OLY_WARN_BUFFER_WRITE_LOCK, b'))"
proof -
  let ?p = "write_ptr b" and ?n = "length s"
  have lim: "write_limit b + 1 \<le> buffer_end b" and blk: "length (block b) = Suc (buffer_end b)"
      "length (block b) < size_mod" "write_a b < buffer_end b" "write_b b < buffer_end b"
      "buffer_start b = 0"
    using inv sb_inv_tiles [OF inv]
    by (auto simp: sb_inv_def sb_shape_def sb_parts_def write_limit_def
        split: OlyStringBufferState.splits dest!: tiles_le)
  from res have p: "reserve_start b = Some ?p" "reserve_end b = Some (?p + len + 1)"
    and room: "?p + len + 1 \<le> write_limit b" by (auto simp: reserved_def)
  have n0: "s \<noteq> []" "0 \<notin> set s" "s ! 0 \<noteq> 0"
    using s by (auto simp: storable_def) (metis length_greater_0_conv nth_mem)
  have "copy_loop (s @ [0]) 0 (block b) ?p (?p + len + 1)
      = Ret (overlay (block b) ?p (s @ [0]), ?p + ?n + 1)"
    using n0 n room lim blk by (intro copy_loop_string) auto
  moreover have "size_of_int (int (?p + len + 1) - int ?p - 1) = len"
    and "size_diff (?p + ?n + 1) ?p = len"
    using lenm n room lim blk by (auto simp: size_simps)
  ultimately show ?thesis
    using p n0 room lim blk n keep
    by (auto simp: enqueue_to_string_buffer_def Let_def peek_def nth_append poke_def
        reserve_string_buffer_def)
qed

text \<open>
  A value string is reserved without slack, although it takes two cells more than its
  characters. When it fits exactly, the second null lands on the first cell that still
  has to be read (with the parts crossed), or the write pointer reaches the end of the buffer,
  which the next reservation's assertion excludes.
\<close>

lemma exact_fit_stored:
  assumes inv: "sb_inv b" and un: "unreserved b" and s: "storable s"
    and small: "length s + 1 < size_mod" and room: "length s + 1 = sb_room b"
    and sp: "space_available b = (n, b0)"
  shows "queue_string b (s @ 0 # t) 0 = Ret (OLY_OKAY, append_string b0 s, Some (write_ptr b0))"
proof -
  have n0: "0 \<notin> set s" using s by (simp add: storable_def)
  let ?b1 = "b0\<lparr>reserve_start := Some (write_ptr b0), reserve_end := Some (write_ptr b0 + (length s + 1))\<rparr>"
  have n: "n = sb_room b" using space_available_room [OF inv] sp by simp
  note b0 = space_available_inv [OF inv sp]
  have "reserve_string_buffer b (length s) = Ret (OLY_OKAY, ?b1)"
    using inv un small room sp by (simp add: reserve_unfold unreserved_def size_simps)
  moreover have "reserved ?b1 (length s)"
    using space_available_limit [OF inv sp] room n by (auto simp: reserved_def)
  moreover have "append_string ?b1 s = append_string b0 s"
    by (simp add: append_string_def Let_def write_ptr_def writes_a_def)
  ultimately show ?thesis
    using enqueue_stores [of ?b1 "length s" s t] b0 s small n0
    by (simp add: queue_string_def size_simps)
qed

lemma exact_fit_clobbers:
  assumes inv: "sb_inv b" and un: "unreserved b" and s: "storable s"
    and small: "length s + 1 < size_mod" and room: "length s + 1 = sb_room b"
    and crossed: "sb_state b = WRITE_B_READ_A \<or> sb_state b = WRITE_A_READ_B"
  shows "\<exists>b' p. queue_string b (s @ 0 # t) 0 = Ret (OLY_OKAY, b', Some p)
    \<and> read_ptr b' = read_ptr b \<and> block b' ! read_ptr b' = 0
    \<and> space_available b' = (size_mod - 1, b')"
proof -
  have sp: "space_available b = (sb_room b, b)"
    using crossed space_available_room [OF inv] by (auto simp: space_available_def)
  note st = exact_fit_stored [OF inv un s small room sp, of t]
  have shape: "sb_shape b" "sb_parts b" using inv by (auto simp: sb_inv_def)
  have ov: "block (append_string b s) = overlay (block b) (write_ptr b) (s @ [0, 0])"
    by (simp add: append_string_def Let_def)
  from crossed show ?thesis
  proof
    assume c: "sb_state b = WRITE_B_READ_A"
    then have "write_b b + length s + 1 = read_a b" "write_ptr b = write_b b"
      using room shape by (auto simp: sb_room_def sb_parts_def write_ptr_def writes_a_def)
    with c shape ov st show ?thesis
      by (auto simp: append_string_def Let_def read_ptr_def reads_a_def writes_a_def sb_parts_def
          sb_shape_def nth_overlay nth_append space_available_def sb_pointer_defs size_diff_wraps)
  next
    assume c: "sb_state b = WRITE_A_READ_B"
    then have "write_a b + length s + 1 = read_b b" "write_ptr b = write_a b"
      using room shape by (auto simp: sb_room_def sb_parts_def write_ptr_def writes_a_def)
    with c shape ov st show ?thesis
      by (auto simp: append_string_def Let_def read_ptr_def reads_a_def writes_a_def sb_parts_def
          sb_shape_def nth_overlay nth_append space_available_def sb_pointer_defs size_diff_wraps)
  qed
qed

lemma exact_fit_end_aborts:
  assumes inv: "sb_inv b" and un: "unreserved b" and s: "storable s"
    and small: "length s + 1 < size_mod" and room: "length s + 1 = sb_room b"
    and straight: "sb_state b = WRITE_A_READ_A \<and> sb_room b = buffer_end b - 1 - write_a b
      \<or> sb_state b = WRITE_B_READ_B \<and> sb_room b = buffer_end b - 1 - write_b b"
  shows "\<exists>b' p. queue_string b (s @ 0 # t) 0 = Ret (OLY_OKAY, b', Some p)
    \<and> (\<forall>k. reserve_string_buffer b' k = Halt)"
proof -
  have le: "read_a b \<le> write_a b" "read_b b \<le> write_b b"
    using sb_inv_tiles [OF inv] by (auto dest: tiles_le)
  have shape: "sb_shape b" "sb_parts b" using inv by (auto simp: sb_inv_def)
  have sp: "space_available b = (sb_room b, b)"
    using straight shape le
    by (auto simp: space_available_def sb_room_def sb_shape_def sb_parts_def sb_pointer_defs
        size_diff_le size_of_int_id Let_def)
  note st = exact_fit_stored [OF inv un s small room sp, of t]
  from straight show ?thesis
  proof (elim disjE conjE)
    assume c: "sb_state b = WRITE_A_READ_A" and r: "sb_room b = buffer_end b - 1 - write_a b"
    then have "write_a (append_string b s) = buffer_end (append_string b s)"
      using room by (auto simp: append_string_def Let_def writes_a_def write_ptr_def)
    with st show ?thesis by (auto simp: reserve_string_buffer_def)
  next
    assume c: "sb_state b = WRITE_B_READ_B" and r: "sb_room b = buffer_end b - 1 - write_b b"
    then have "write_b (append_string b s) = buffer_end (append_string b s)"
      using room by (auto simp: append_string_def Let_def writes_a_def write_ptr_def)
    with st show ?thesis by (auto simp: reserve_string_buffer_def c_assert_def)
  qed
qed

section \<open>Properties\<close>

text \<open>A small buffer to apply the properties to: 24 cells, as \<open>open_string_buffer\<close> leaves them.\<close>

definition sample_buffer :: OlyStringBuffer where
  "sample_buffer = \<lparr>block = replicate 24 0, buffer_start = 0, read_a = 0, write_a = 0,
     read_b = 0, write_b = 0, buffer_end = 23, reserve_start = None, reserve_end = None,
     sb_state = WRITE_A_READ_A, keep_long_strings = False\<rparr>"

definition sample_string :: "ochar list" where
  "sample_string = [111, 108, 121]"

lemma sample_buffer_good: "sb_good sample_buffer" "sb_inv sample_buffer" "unreserved sample_buffer"
    "contents sample_buffer = []" "sb_room sample_buffer = 22" "\<not> keep_long_strings sample_buffer"
  by (simp_all add: sample_buffer_def sb_good_def sb_inv_def sb_shape_def sb_parts_def part_a_def
      part_b_def contents_a_def contents_b_def contents_def unreserved_def sb_room_def size_mod_def)

lemma sample_string_okay: "storable sample_string" "sb_okay b (sample_string, 2)" "length sample_string = 3"
  by (simp_all add: sample_string_def storable_def sb_okay_def size_mod_def)

text \<open>The sample buffer with a reservation of length \<open>len\<close>, and with the sample string in it.\<close>

definition sample_reserved :: "nat \<Rightarrow> OlyStringBuffer" where
  "sample_reserved len = sample_buffer\<lparr>reserve_start := Some 0, reserve_end := Some (len + 1)\<rparr>"

definition sample_filled :: OlyStringBuffer where
  "sample_filled = append_string (sample_reserved 5) sample_string"

lemma sample_reserved_good:
  "sb_inv (sample_reserved len)" "contents (sample_reserved len) = []"
  "\<not> keep_long_strings (sample_reserved len)" "write_ptr (sample_reserved len) = 0"
  "write_limit (sample_reserved len) = 22"
  using sample_buffer_good
  by (simp_all add: sample_reserved_def)
     (simp_all add: sample_buffer_def write_ptr_def writes_a_def write_limit_def)

lemma sample_reserved_reserved: "len \<le> 21 \<Longrightarrow> reserved (sample_reserved len) len"
  using sample_reserved_good [of len]
  by (auto simp: reserved_def sample_reserved_def)

lemma sample_filled_good: "sb_inv sample_filled" "contents sample_filled = [sample_string]"
  using append_string_inv [OF sample_reserved_good(1) sample_string_okay(1), of 5]
    sample_reserved_good [of 5] sample_string_okay
  by (simp_all add: sample_filled_def)


lemma sample_put:
  "sb_put sample_buffer (sample_string, 2) = Ret (True, append_string sample_buffer sample_string)"
  "sb_room (append_string sample_buffer sample_string) = 17"
proof -
  have room: "space_available sample_buffer = (22, sample_buffer)"
    by (simp add: space_available_def sb_pointer_defs sample_buffer_def size_diff_le size_of_int_id size_mod_def Let_def)
  let ?b = "sample_buffer\<lparr>reserve_start := Some 0, reserve_end := Some 6\<rparr>"
  have "reserve_string_buffer sample_buffer 5 = Ret (OLY_OKAY, ?b)"
    by (simp add: reserve_string_buffer_def room) (simp add: sample_buffer_def writes_a_def size_simps size_mod_def)
  moreover have "sb_inv ?b" using sample_buffer_good(2) by simp
  moreover have "reserved ?b 5" by (simp add: reserved_def sample_buffer_def write_ptr_def writes_a_def write_limit_def)
  moreover have "append_string ?b sample_string = append_string sample_buffer sample_string"
    by (simp add: append_string_def Let_def write_ptr_def writes_a_def)
  ultimately show "sb_put sample_buffer (sample_string, 2) = Ret (True, append_string sample_buffer sample_string)"
    using enqueue_stores [of ?b 5 sample_string "[]"] sample_string_okay
    by (simp add: sb_put_def queue_string_def size_simps size_mod_def storable_def)
  show "sb_room (append_string sample_buffer sample_string) = 17"
    by (simp add: sb_room_def append_string_def sample_buffer_def sample_string_def Let_def write_ptr_def writes_a_def)
qed


text \<open>
  A buffer opened with a configured size of at least two cells is empty, meets the
  invariant with no reservation, and offers two cells less than its size.
\<close>

theorem opened_buffer_is_ready:
  assumes "2 \<le> n" and "2 * n < size_mod"
  shows "\<exists>b. open_string_buffer (OLY_OKAY, n) junk = Ret (OLY_OKAY, Some b) \<and> sb_good b
    \<and> contents b = [] \<and> sb_room b = n - 2 \<and> \<not> keep_long_strings b"
  using assms by (rule open_string_buffer_good)

theorem opened_buffer_is_ready_witness:
  "\<exists>b. open_string_buffer (OLY_OKAY, 1024) (\<lambda>_. 7) = Ret (OLY_OKAY, Some b) \<and> sb_good b
    \<and> contents b = [] \<and> sb_room b = 1022 \<and> \<not> keep_long_strings b"
  using opened_buffer_is_ready [of 1024 "\<lambda>_. 7"] by (simp add: size_mod_def)

text \<open>
  C16: on a buffer that meets the invariant and has no reservation, reserving does not abort. It is granted
  exactly when the length is below the room, leaves the stored strings alone and sets the reservation at
  the write pointer, inside the free cells; otherwise it answers \<open>OLY_ERR_BUFFER_OVERFLOW\<close>. The invariant
  is needed: after a string that fitted exactly, \<open>exact_fit_at_end_aborts_next_reserve\<close>, it does abort.
\<close>

theorem reserve_grants_iff_room:
  assumes "sb_inv b" and "unreserved b" and "len + 1 < size_mod"
  shows "\<exists>status b'. reserve_string_buffer b len = Ret (status, b') \<and> sb_inv b'
    \<and> contents b' = contents b
    \<and> (if len < sb_room b then status = OLY_OKAY \<and> reserved b' len
       else status = OLY_ERR_BUFFER_OVERFLOW \<and> unreserved b')"
proof (cases "len < sb_room b")
  case True
  then show ?thesis by - (rule reserve_granted [OF assms], auto)
next
  case False
  then show ?thesis by - (rule reserve_refused [OF assms], auto)
qed

theorem reserve_grants_iff_room_witness:
  "\<exists>status b'. reserve_string_buffer sample_buffer 21 = Ret (status, b') \<and> sb_inv b'
    \<and> contents b' = [] \<and> status = OLY_OKAY \<and> reserved b' 21"
  using reserve_grants_iff_room [OF sample_buffer_good(2,3), of 21] sample_buffer_good
  by (simp add: size_mod_def)

text \<open>
  Enqueuing a string into a reservation with at least two cells of slack copies it behind
  the strings already stored, reports its length with the null and its address, releases the
  reservation and keeps the invariant.
\<close>

theorem enqueue_appends_string:
  assumes "sb_inv b" and "reserved b len" and "storable s"
    and "length s + 2 \<le> len" and "len + 1 < size_mod"
  shows "\<exists>b'. enqueue_to_string_buffer b (s @ [0]) =
      Ret \<lparr>enq_status = OLY_OKAY, enq_buffer = b', enq_result = Some (write_ptr b),
           enq_length = Some (length s + 1)\<rparr>
    \<and> sb_inv b' \<and> unreserved b' \<and> contents b' = contents b @ [s]"
  using enqueue_stores [of b len s "[]"] append_string_inv [of b s] write_room [of b len s] assms
  by simp

theorem enqueue_appends_string_witness:
  "\<exists>b'. enqueue_to_string_buffer (sample_reserved 5) (sample_string @ [0]) =
      Ret \<lparr>enq_status = OLY_OKAY, enq_buffer = b', enq_result = Some 0, enq_length = Some 4\<rparr>
    \<and> sb_inv b' \<and> unreserved b' \<and> contents b' = [sample_string]"
  using enqueue_appends_string [OF sample_reserved_good(1) sample_reserved_reserved
      sample_string_okay(1), of 5] sample_string_okay sample_reserved_good [of 5]
  by (simp add: size_mod_def)

text \<open>
  C15: dequeuing gives the oldest string with its null and its length, and removes it; the
  status is \<open>OLY_OKAY\<close> and the invariant is kept.
\<close>

theorem dequeue_returns_oldest:
  assumes "sb_inv b" and "contents b = s # ss"
    and "length s + 3 \<le> size_in" and "length s < length dest"
  shows "\<exists>b'. dequeue_from_string_buffer b dest size_in =
      Ret \<lparr>deq_status = OLY_OKAY, deq_buffer = b', deq_dest = overlay dest 0 (s @ [0]),
           deq_length = Some (length s + 1)\<rparr>
    \<and> sb_inv b' \<and> contents b' = ss"
  using dequeue_front [OF assms] drop_string_inv [OF assms(1,2)] by simp

theorem dequeue_returns_oldest_witness:
  "\<exists>b'. dequeue_from_string_buffer sample_filled (replicate 8 1) 8 =
      Ret \<lparr>deq_status = OLY_OKAY, deq_buffer = b', deq_dest = [111, 108, 121, 0, 1, 1, 1, 1],
           deq_length = Some 4\<rparr>
    \<and> sb_inv b' \<and> contents b' = []"
  using dequeue_returns_oldest [OF sample_filled_good, of 8 "replicate 8 1"] sample_string_okay
  by (simp add: sample_string_def overlay_def numeral_eq_Suc)

text \<open>
  C17: a destination without room for the string, its null and two cells more makes dequeue answer
  \<open>OLY_ERR_BUFFER_OVERFLOW\<close>; the buffer still holds the string and the destination starts
  with a null. So it is refused although the string and its null fit in the last two of these sizes.
\<close>

theorem dequeue_too_small_keeps_string:
  assumes "sb_inv b" and "contents b = s # ss" and "size_in < length s + 3"
    and "0 < size_in" and "size_in \<le> length dest"
  shows "\<exists>dest'. dequeue_from_string_buffer b dest size_in =
      Ret \<lparr>deq_status = OLY_ERR_BUFFER_OVERFLOW, deq_buffer = b, deq_dest = dest',
           deq_length = None\<rparr>
    \<and> length dest' = length dest \<and> dest' ! 0 = 0"
  using dequeue_short [OF assms] by blast

theorem dequeue_too_small_keeps_string_witness:
  "\<exists>dest'. dequeue_from_string_buffer sample_filled (replicate 5 1) 5 =
      Ret \<lparr>deq_status = OLY_ERR_BUFFER_OVERFLOW, deq_buffer = sample_filled, deq_dest = dest',
           deq_length = None\<rparr>
    \<and> length dest' = 5 \<and> dest' ! 0 = 0"
  using dequeue_too_small_keeps_string [OF sample_filled_good, of 5 "replicate 5 1"]
    sample_string_okay by simp

text \<open>
  A value string that fits its room exactly, with the parts crossed, is stored with status
  \<open>OLY_OKAY\<close> but overwrites the first cell of the oldest unread string with a null, and the
  next space computation wraps to the largest size.
\<close>

theorem exact_fit_overwrites_unread:
  assumes "sb_inv b" and "unreserved b" and "storable s" and "length s + 1 < size_mod"
    and "length s + 1 = sb_room b"
    and "sb_state b = WRITE_B_READ_A \<or> sb_state b = WRITE_A_READ_B"
  shows "\<exists>b' p. queue_string b (s @ 0 # t) 0 = Ret (OLY_OKAY, b', Some p)
    \<and> read_ptr b' = read_ptr b \<and> block b' ! read_ptr b' = 0
    \<and> space_available b' = (size_mod - 1, b')"
  using assms by (rule exact_fit_clobbers)

definition sample_crossed :: OlyStringBuffer where
  \<comment> \<open>one string to read in part A from cell 4 on, part B empty before it\<close>
  "sample_crossed = sample_buffer\<lparr>
     block := [1, 0, 0, 0, 111, 108, 121, 0, 0] @ replicate 15 0,
     read_a := 4, write_a := 9, sb_state := WRITE_B_READ_A\<rparr>"

lemma sample_crossed_good: "sb_inv sample_crossed" "unreserved sample_crossed"
    "sb_room sample_crossed = 4" "sb_state sample_crossed = WRITE_B_READ_A"
proof -
  have fields: "read_a sample_crossed = 4" "write_a sample_crossed = 9" "read_b sample_crossed = 0"
    "write_b sample_crossed = 0" "buffer_start sample_crossed = 0" "buffer_end sample_crossed = 23"
    "length (block sample_crossed) = 24" "sb_state sample_crossed = WRITE_B_READ_A"
    by (simp_all add: sample_crossed_def sample_buffer_def)
  have "tiles (block sample_crossed) 4 9 [sample_string]"
    by (simp add: sample_crossed_def sample_buffer_def sample_string_def storable_def take_Cons' drop_Cons')
  then show "sb_inv sample_crossed"
    by (intro sb_inv_intro [THEN conjunct1, of _ "[sample_string]" "[]"])
       (simp_all add: sb_shape_def sb_parts_def size_mod_def fields del: tiles.simps(2))
qed (simp_all add: sample_crossed_def sample_buffer_def unreserved_def sb_room_def)

theorem exact_fit_overwrites_unread_witness:
  "\<exists>b' p. queue_string sample_crossed (sample_string @ 0 # []) 0 = Ret (OLY_OKAY, b', Some p)
    \<and> read_ptr b' = read_ptr sample_crossed \<and> block b' ! read_ptr b' = 0
    \<and> space_available b' = (size_mod - 1, b')"
  using exact_fit_overwrites_unread [OF sample_crossed_good(1,2) sample_string_okay(1), of "[]"]
    sample_crossed_good sample_string_okay by (simp add: size_mod_def)

text \<open>
  A value string that exactly fits the room at the end of the buffer moves the write
  pointer to \<open>buffer_end\<close>; the next reservation of any length fails its assertion.
\<close>

theorem exact_fit_at_end_aborts_next_reserve:
  assumes "sb_inv b" and "unreserved b" and "storable s" and "length s + 1 < size_mod"
    and "length s + 1 = sb_room b"
    and "sb_state b = WRITE_A_READ_A \<and> sb_room b = buffer_end b - 1 - write_a b
      \<or> sb_state b = WRITE_B_READ_B \<and> sb_room b = buffer_end b - 1 - write_b b"
  shows "\<exists>b' p. queue_string b (s @ 0 # t) 0 = Ret (OLY_OKAY, b', Some p)
    \<and> (\<forall>k. reserve_string_buffer b' k = Halt)"
  using assms by (rule exact_fit_end_aborts)

theorem exact_fit_at_end_aborts_next_reserve_witness:
  "\<exists>b' p. queue_string sample_buffer (replicate 21 1 @ 0 # []) 0 = Ret (OLY_OKAY, b', Some p)
    \<and> (\<forall>k. reserve_string_buffer b' k = Halt)"
proof -
  define s :: "ochar list" where "s = replicate 21 1"
  have s: "storable s" "length s + 1 < size_mod" "length s + 1 = sb_room sample_buffer"
    unfolding s_def sample_buffer_good(5) by (simp_all add: storable_def size_mod_def)
  have "sb_state sample_buffer = WRITE_A_READ_A"
    "sb_room sample_buffer = buffer_end sample_buffer - 1 - write_a sample_buffer"
    unfolding sample_buffer_good(5) by (simp_all add: sample_buffer_def)
  then show ?thesis
    using exact_fit_at_end_aborts_next_reserve [OF sample_buffer_good(2,3) s, of "[]"]
    unfolding s_def by blast
qed

text \<open>
  A string longer than its reservation is stored cut after \<open>len + 1\<close> characters with
  status \<open>OLY_OKAY\<close>: no long-string warning is given.
\<close>

theorem enqueue_truncates_silently:
  assumes "sb_inv b" and "reserved b len" and "storable s"
    and "len < length s" and "len + 1 < size_mod"
  shows "\<exists>b'. enqueue_to_string_buffer b (s @ [0]) =
    Ret \<lparr>enq_status = OLY_OKAY, enq_buffer = b',
         enq_result = Some (write_ptr b), enq_length = Some (len + 1)\<rparr>
    \<and> take (len + 2) (drop (write_ptr b) (block b')) = take (len + 1) s @ [0]"
  using assms by (rule enqueue_truncates)

theorem enqueue_truncates_silently_witness:
  "\<exists>b'. enqueue_to_string_buffer (sample_reserved 1) (sample_string @ [0]) =
    Ret \<lparr>enq_status = OLY_OKAY, enq_buffer = b', enq_result = Some 0, enq_length = Some 2\<rparr>
    \<and> take 3 (block b') = [111, 108, 0]"
proof -
  have "(1::nat) + 1 < size_mod" by (simp add: size_mod_def)
  then show ?thesis
    using enqueue_truncates_silently [OF sample_reserved_good(1) sample_reserved_reserved
        sample_string_okay(1), of 1] sample_reserved_good(4) [of 1]
    by (simp add: sample_string_def take_Cons' numeral_2_eq_2 numeral_3_eq_3)
qed

text \<open>
  The long-string warning is given for a string one character shorter than its
  reservation, which would fit; the write pointers stay and the reservation is never
  released, so every later reservation is refused as locked.
\<close>

theorem long_string_warning_locks:
  assumes "sb_inv b" and "reserved b len" and "storable s" and "Suc (length s) = len"
    and "len + 1 < size_mod" and "\<not> keep_long_strings b"
  shows "\<exists>b'. enqueue_to_string_buffer b (s @ [0]) =
    Ret \<lparr>enq_status = OLY_WARN_LONG_STRING, enq_buffer = b',
         enq_result = Some (write_ptr b), enq_length = Some len\<rparr>
    \<and> write_a b' = write_a b \<and> write_b b' = write_b b
    \<and> (\<forall>k. reserve_string_buffer b' k = Ret (OLY_WARN_BUFFER_WRITE_LOCK, b'))"
  using assms by (rule enqueue_reports_long)

theorem long_string_warning_locks_witness:
  "\<exists>b'. enqueue_to_string_buffer (sample_reserved 4) (sample_string @ [0]) =
    Ret \<lparr>enq_status = OLY_WARN_LONG_STRING, enq_buffer = b',
         enq_result = Some 0, enq_length = Some 4\<rparr>
    \<and> write_a b' = write_a (sample_reserved 4) \<and> write_b b' = write_b (sample_reserved 4)
    \<and> (\<forall>k. reserve_string_buffer b' k = Ret (OLY_WARN_BUFFER_WRITE_LOCK, b'))"
  using long_string_warning_locks [OF sample_reserved_good(1) sample_reserved_reserved
      sample_string_okay(1), of 4] sample_string_okay sample_reserved_good [of 4]
  by (simp add: size_mod_def)

end
