(* ===== verification/Node.thy ===== *)
theory Node
  imports String_Buffer
begin

text \<open>
  Nodes, from \<^verbatim>\<open>src/node/node.c\<close>, \<^verbatim>\<open>src/node/pvt_node.h\<close> and \<^verbatim>\<open>src/oly/tag.h\<close>: the record, the heap
  the node pointers go through, the accessors, the stack of ancestors and the depth counter.
\<close>

section \<open>Data\<close>

datatype OlyTagType =
    OLY_TAG_SCALAR_NULL
  | OLY_TAG_SCALAR_BOOL
  | OLY_TAG_SCALAR_INT
  | OLY_TAG_SCALAR_UINT
  | OLY_TAG_SCALAR_FLOAT
  | OLY_TAG_SCALAR_PLUS_INFINITY
  | OLY_TAG_SCALAR_MINUS_INFINITY
  | OLY_TAG_SCALAR_NOT_A_NUMBER
  | OLY_TAG_SCALAR_STRING
  | OLY_TAG_ALIAS
  | OLY_TAG_FILE_TEXT
  | OLY_TAG_FILE_BINARY
  | OLY_TAG_COMPLEX_MAP
  | OLY_TAG_COMPLEX_SEQUENCE
  | OLY_TAG_TYPE_UNSET
  | OLY_TAG_MAX

text \<open>An object of an enumeration type may hold any integer, so a node keeps the number.\<close>

primrec tag_code :: "OlyTagType \<Rightarrow> int" where
  "tag_code OLY_TAG_SCALAR_NULL = 0"
| "tag_code OLY_TAG_SCALAR_BOOL = 1"
| "tag_code OLY_TAG_SCALAR_INT = 2"
| "tag_code OLY_TAG_SCALAR_UINT = 3"
| "tag_code OLY_TAG_SCALAR_FLOAT = 4"
| "tag_code OLY_TAG_SCALAR_PLUS_INFINITY = 5"
| "tag_code OLY_TAG_SCALAR_MINUS_INFINITY = 6"
| "tag_code OLY_TAG_SCALAR_NOT_A_NUMBER = 7"
| "tag_code OLY_TAG_SCALAR_STRING = 8"
| "tag_code OLY_TAG_ALIAS = 9"
| "tag_code OLY_TAG_FILE_TEXT = 10"
| "tag_code OLY_TAG_FILE_BINARY = 11"
| "tag_code OLY_TAG_COMPLEX_MAP = 12"
| "tag_code OLY_TAG_COMPLEX_SEQUENCE = 13"
| "tag_code OLY_TAG_TYPE_UNSET = 14"
| "tag_code OLY_TAG_MAX = 15"

lemma tag_code_inject [simp]: "tag_code a = tag_code b \<longleftrightarrow> a = b"
  by (cases a; cases b) simp_all

text \<open>
  A pointer to a string: null, the start of some readable memory outside the string buffer,
  a cell of the string buffer, or an indeterminate value that must not be followed.
\<close>

datatype string_ptr = SNull | SExt "ochar list" | SBuf nat | SWild

type_synonym addr = nat
  \<comment> \<open>0 is the null pointer\<close>

text \<open>The union of a node value; the constructor is the member last written.\<close>

datatype OlyUnion =
    Collection_value addr
  | String_value string_ptr
  | Large_binary_file nat
  | Large_text_file nat
  | Float_value "64 word"
  | Int_value "64 word"
  | Uint_value "64 word"
  | Bool_value bool

primrec as_string :: "OlyUnion \<Rightarrow> string_ptr" where
  "as_string (Collection_value _) = SWild"
| "as_string (String_value s) = s"
| "as_string (Large_binary_file _) = SWild"
| "as_string (Large_text_file _) = SWild"
| "as_string (Float_value _) = SWild"
| "as_string (Int_value _) = SWild"
| "as_string (Uint_value _) = SWild"
| "as_string (Bool_value _) = SWild"

record OlyNodeValue =
  union :: OlyUnion
  vtype :: int

text \<open>
  The fields \<open>anchor\<close>, \<open>key_length\<close> and \<open>value_length\<close> of the structure are left out: no
  code reads or writes them.
\<close>

record OlyNode =
  node_id :: "64 word"
  nvalue :: OlyNodeValue
  parent_node :: addr
  key :: string_ptr
  collection_end :: bool
  has_key :: bool
  depth :: "16 word"

definition MAX_NODE_DEPTH :: nat where
  "MAX_NODE_DEPTH = 16"

definition BUFSIZ :: nat where
  \<comment> \<open>of the GNU C library\<close>
  "BUFSIZ = 8192"

definition MAX_KEY_LENGTH :: nat where
  "MAX_KEY_LENGTH = BUFSIZ div MAX_NODE_DEPTH"

text \<open>The heap of nodes: \<open>next_node\<close> is the address the allocator hands out next.\<close>

record node_heap =
  nodes :: "addr \<rightharpoonup> OlyNode"
  next_node :: addr

definition load_node :: "node_heap \<Rightarrow> addr \<Rightarrow> OlyNode outcome" where
  "load_node h a = (case nodes h a of None \<Rightarrow> Crash | Some n \<Rightarrow> Ret n)"

definition store_node :: "node_heap \<Rightarrow> addr \<Rightarrow> OlyNode \<Rightarrow> node_heap outcome" where
  "store_node h a n =
     (if nodes h a = None then Crash else Ret (h\<lparr>nodes := (nodes h)(a \<mapsto> n)\<rparr>))"

definition free_node :: "node_heap \<Rightarrow> addr \<Rightarrow> node_heap outcome" where
  "free_node h a =
     (if nodes h a = None then Crash else Ret (h\<lparr>nodes := (nodes h)(a := None)\<rparr>))"

section \<open>Operations on one node\<close>

definition fresh_node :: OlyNode where
  "fresh_node = \<lparr>node_id = 0, nvalue = \<lparr>union = String_value SNull, vtype = tag_code OLY_TAG_TYPE_UNSET\<rparr>,
     parent_node = 0, key = SNull, collection_end = False, has_key = False, depth = 0\<rparr>"

definition new_oly_node :: "node_heap \<Rightarrow> OlyStatus \<times> addr \<times> node_heap" where
  "new_oly_node h =
     (OLY_OKAY, next_node h,
      h\<lparr>nodes := (nodes h)(next_node h \<mapsto> fresh_node), next_node := Suc (next_node h)\<rparr>)"

definition new_node_value :: "OlyStatus \<times> OlyNodeValue" where
  \<comment> \<open>zeroed memory: a null pointer, and the first tag of the enumeration\<close>
  "new_node_value = (OLY_OKAY, \<lparr>union = String_value SNull, vtype = tag_code OLY_TAG_SCALAR_NULL\<rparr>)"

definition reset_node :: "OlyNode \<Rightarrow> OlyNode" where
  "reset_node node = node\<lparr>nvalue := \<lparr>union = String_value SNull, vtype = tag_code OLY_TAG_TYPE_UNSET\<rparr>,
     node_id := 0, key := SNull, parent_node := 0, collection_end := False\<rparr>"

definition get_node_string_value :: "OlyNode \<Rightarrow> OlyStatus \<times> string_ptr" where
  "get_node_string_value node = (OLY_OKAY, as_string (union (nvalue node)))"

definition node_has_key :: "OlyNode \<Rightarrow> OlyStatus" where
  "node_has_key node = (if \<not> has_key node then OLY_WARN_NODE_HAS_NO_KEY else OLY_OKAY)"

definition get_node_key :: "OlyNode \<Rightarrow> OlyStatus \<times> string_ptr option" where
  \<comment> \<open>\<open>None\<close>: the caller's variable is left alone\<close>
  "get_node_key node =
     (let status = node_has_key node in
      (status, if status = OLY_WARN_NODE_HAS_NO_KEY then None else Some (key node)))"

definition set_node_string_value :: "OlyNode \<Rightarrow> string_ptr \<Rightarrow> OlyStatus \<times> OlyNode" where
  "set_node_string_value output v =
     (OLY_OKAY, output\<lparr>nvalue := (nvalue output)\<lparr>union := String_value v\<rparr>\<rparr>)"

definition set_node_key :: "OlyNode \<Rightarrow> string_ptr \<Rightarrow> OlyStatus \<times> OlyNode" where
  "set_node_key output key_in = (OLY_OKAY, output\<lparr>key := key_in\<rparr>)"

definition set_node_value :: "OlyNode \<Rightarrow> 64 word option \<Rightarrow> int \<Rightarrow> OlyStatus \<times> OlyNode" where
  \<comment> \<open>\<open>val\<close>: the eight bytes at the pointer, \<open>None\<close> for a null pointer\<close>
  "set_node_value node val type =
     (let status = (if type < 0 \<or> type > tag_code OLY_TAG_MAX then OLY_ERR_ILLEGAL_TAG else OLY_OKAY);
          node = node\<lparr>nvalue := (nvalue node)\<lparr>vtype := type\<rparr>\<rparr>
      in case val of
        Some bits \<Rightarrow>
          if type = tag_code OLY_TAG_SCALAR_STRING then (status, node)
          else if type = tag_code OLY_TAG_SCALAR_FLOAT
          then (status, node\<lparr>nvalue := (nvalue node)\<lparr>union := Float_value bits\<rparr>\<rparr>)
          else if type = tag_code OLY_TAG_SCALAR_INT
          then (status, node\<lparr>nvalue := (nvalue node)\<lparr>union := Int_value bits\<rparr>\<rparr>)
          else (OLY_ERR_NODE_MUST_NOT_HAVE_VALUE, node)
      | None \<Rightarrow>
          if type = tag_code OLY_TAG_COMPLEX_MAP \<or> type = tag_code OLY_TAG_COMPLEX_SEQUENCE
          then (status, node)
          else (OLY_ERR_NODE_MUST_HAVE_VALUE, node))"

definition set_node_node_id :: "OlyNode \<Rightarrow> 64 word \<Rightarrow> OlyStatus \<times> OlyNode" where
  "set_node_node_id node i = (OLY_OKAY, node\<lparr>node_id := i\<rparr>)"

definition get_node_node_id :: "OlyNode \<Rightarrow> OlyStatus \<times> 64 word" where
  "get_node_node_id node = (OLY_OKAY, node_id node)"

definition set_node_has_key :: "OlyNode \<Rightarrow> OlyStatus \<times> OlyNode" where
  "set_node_has_key node = (OLY_OKAY, node\<lparr>has_key := True\<rparr>)"

definition unset_node_has_key :: "OlyNode \<Rightarrow> OlyStatus \<times> OlyNode" where
  "unset_node_has_key node = (OLY_OKAY, node\<lparr>has_key := False\<rparr>)"

definition get_node_parent :: "OlyNode \<Rightarrow> OlyStatus \<times> addr" where
  "get_node_parent node =
     (let (status, parent) = (if depth node < 1 then (OLY_ERR_NODES_TOO_SHALLOW, 0) else (OLY_OKAY, 0));
          parent = parent_node node
      in (status, parent))"

definition copy_node :: "OlyNode \<Rightarrow> OlyNode \<Rightarrow> OlyNode" where
  "copy_node source dest = dest\<lparr>depth := depth source, node_id := node_id source,
     key := key source, parent_node := parent_node source, nvalue := nvalue source\<rparr>"

definition descend_one_level :: "OlyNode \<Rightarrow> OlyStatus \<times> OlyNode" where
  \<comment> \<open>the comparison is made in \<^verbatim>\<open>int\<close>, the increment in \<^verbatim>\<open>unsigned short\<close>\<close>
  "descend_one_level node =
     (if unat (depth node) + 1 > MAX_NODE_DEPTH then (OLY_ERR_NODES_TOO_DEEP, node)
      else (OLY_OKAY, node\<lparr>depth := depth node + 1\<rparr>))"

definition ascend_one_level :: "OlyNode \<Rightarrow> OlyStatus \<times> OlyNode" where
  "ascend_one_level node =
     (if int (unat (depth node)) - 1 < 0 then (OLY_ERR_NODES_TOO_SHALLOW, node)
      else (OLY_OKAY, node\<lparr>depth := depth node - 1\<rparr>))"

section \<open>Operations through pointers\<close>

text \<open>
  \<open>close_oly_ds_node\<close> follows the parents of collection ends before it frees anything; \<open>fuel\<close>
  is the number of stack frames left, and running out of them ends the process.
\<close>

fun close_oly_ds_node :: "nat \<Rightarrow> node_heap \<Rightarrow> addr \<Rightarrow> node_heap outcome" where
  "close_oly_ds_node 0 h a = Crash"
| "close_oly_ds_node (Suc fuel) h a =
     obind (load_node h a) (\<lambda>node.
     obind (if collection_end node then close_oly_ds_node fuel h (parent_node node) else Ret h) (\<lambda>h.
     if a \<noteq> 0 then free_node h a else Ret h))"

definition push_node :: "node_heap \<Rightarrow> addr \<Rightarrow> addr \<Rightarrow> (OlyStatus \<times> addr \<times> node_heap) outcome" where
  \<comment> \<open>the stack pointer before and after the call\<close>
  "push_node h stack a =
     (case new_oly_node h of (status, stack_copy, h) \<Rightarrow>
      if status \<noteq> OLY_OKAY then Ret (status, stack, h)
      else
        obind (load_node h a) (\<lambda>node.
        let node = (if stack \<noteq> 0 then node\<lparr>parent_node := stack\<rparr> else node) in
        obind (store_node h a node) (\<lambda>h.
        obind (load_node h stack_copy) (\<lambda>copy.
        obind (store_node h stack_copy (copy_node node copy)) (\<lambda>h.
        Ret (OLY_OKAY, stack_copy, h))))))"

record pop_result =
  pop_status :: OlyStatus
  pop_stack :: addr
  pop_out :: "addr option"
  pop_heap :: node_heap

definition pop_node :: "nat \<Rightarrow> node_heap \<Rightarrow> addr \<Rightarrow> bool \<Rightarrow> pop_result outcome" where
  \<comment> \<open>\<open>wanted\<close>: the caller passes a non-null \<open>node_out\<close>\<close>
  "pop_node fuel h stack wanted =
     obind (load_node h stack) (\<lambda>old.
     if parent_node old \<noteq> 0 then
       if wanted then
         Ret \<lparr>pop_status = OLY_OKAY, pop_stack = parent_node old, pop_out = Some stack, pop_heap = h\<rparr>
       else
         obind (close_oly_ds_node fuel h stack) (\<lambda>h.
         Ret \<lparr>pop_status = OLY_OKAY, pop_stack = parent_node old, pop_out = None, pop_heap = h\<rparr>)
     else
       Ret \<lparr>pop_status = OLY_ERR_NODES_TOO_SHALLOW, pop_stack = stack, pop_out = None, pop_heap = h\<rparr>)"

section \<open>Printing\<close>

text \<open>
  \<open>print_node\<close> writes through ICU's buffered \<open>u_stdout\<close> and through \<open>stdout\<close>; the pieces are
  listed in the order they are written, with their stream.
\<close>

datatype stream = U_stdout | C_stdout

datatype piece =
    Text string
  | Signed "64 word"
  | Unsigned nat
  | Ustring string_ptr
  | Ustring_prefix nat string_ptr
  | Union_as_double OlyUnion
  | Union_as_long OlyUnion

definition newline :: char where
  "newline = CHR 10"

definition print_node_value :: "OlyNodeValue \<Rightarrow> int \<Rightarrow> (stream \<times> piece) list" where
  "print_node_value nv type =
     (if type = tag_code OLY_TAG_SCALAR_STRING then
        [(U_stdout, Text (''STRING: '' @ [CHR 34])),
         (U_stdout, Ustring_prefix 40 (as_string (union nv))), (U_stdout, Text [CHR 34, newline])]
      else if type = tag_code OLY_TAG_SCALAR_FLOAT then
        [(C_stdout, Text ''FLOAT: (''), (C_stdout, Union_as_double (union nv)),
         (C_stdout, Text ('')'' @ [newline]))]
      else if type = tag_code OLY_TAG_SCALAR_INT then
        [(C_stdout, Text ''INT: (''), (C_stdout, Union_as_long (union nv)),
         (C_stdout, Text ('')'' @ [newline]))]
      else if type = tag_code OLY_TAG_COMPLEX_MAP then [(C_stdout, Text (''MAP'' @ [newline]))]
      else if type = tag_code OLY_TAG_COMPLEX_SEQUENCE then
        [(C_stdout, Text (''SEQUENCE'' @ [newline]))]
      else [(C_stdout, Text (''UNKNOWN'' @ [newline]))])"

definition print_node :: "node_heap \<Rightarrow> OlyNode \<Rightarrow> (stream \<times> piece) list outcome" where
  "print_node h n =
     obind (if parent_node n \<noteq> 0 then
              obind (load_node h (parent_node n)) (\<lambda>parent.
              Ret [(U_stdout, Text ''Parent ''), (U_stdout, Signed (node_id parent)), (U_stdout, Text '', '')])
            else Ret []) (\<lambda>parent_part.
     Ret ((if key n \<noteq> SNull
           then [(U_stdout, Text ''Key: ''), (U_stdout, Ustring (key n)), (U_stdout, Text '' '')] else [])
          @ parent_part
          @ [(U_stdout, Text ''Tuple: ''), (U_stdout, Signed (node_id n)), (U_stdout, Text '', Depth: ''),
             (U_stdout, Unsigned (unat (depth n))), (U_stdout, Text '', '')]
          @ print_node_value (nvalue n) (vtype (nvalue n))))"

section \<open>Stacks of nodes\<close>

text \<open>The nodes from \<open>a\<close> to the root along the parents have the addresses \<open>xs\<close>.\<close>

fun path :: "node_heap \<Rightarrow> addr \<Rightarrow> addr list \<Rightarrow> bool" where
  "path h a [] \<longleftrightarrow> a = 0"
| "path h a (x # xs) \<longleftrightarrow>
     a = x \<and> x \<noteq> 0 \<and> (case nodes h x of None \<Rightarrow> False | Some n \<Rightarrow> path h (parent_node n) xs)"

lemma path_Cons_Some [simp]:
  "nodes h x = Some n \<Longrightarrow> path h a (x # xs) \<longleftrightarrow> a = x \<and> x \<noteq> 0 \<and> path h (parent_node n) xs"
  by simp

lemma path_empty_iff: "path h a xs \<Longrightarrow> xs = [] \<longleftrightarrow> a = 0"
  by (cases xs) auto

lemma path_frame:
  "\<forall>x\<in>set xs. nodes h' x = nodes h x \<Longrightarrow> path h' a xs = path h a xs"
  by (induction xs arbitrary: a) (auto split: option.splits)

lemma path_head:
  assumes "path h a (x # xs)"
  obtains n where "a = x" "x \<noteq> 0" "nodes h x = Some n" "path h (parent_node n) xs"
  using assms by (auto split: option.splits)

definition heap_ok :: "node_heap \<Rightarrow> bool" where
  "heap_ok h \<longleftrightarrow> 0 < next_node h \<and> (\<forall>a. nodes h a \<noteq> None \<longrightarrow> 0 < a \<and> a < next_node h)"

lemma heap_okD: "heap_ok h \<Longrightarrow> nodes h a = Some n \<Longrightarrow> 0 < a \<and> a < next_node h"
  by (auto simp: heap_ok_def)

lemma heap_ok_fresh [simp]: "heap_ok h \<Longrightarrow> nodes h (next_node h) = None"
  by (auto simp: heap_ok_def)

lemma path_below: "heap_ok h \<Longrightarrow> path h a xs \<Longrightarrow> x \<in> set xs \<Longrightarrow> x < next_node h"
  by (induction xs arbitrary: a) (auto split: option.splits dest: heap_okD)

lemma load_node_Some [outcome_simps]: "nodes h a = Some n \<Longrightarrow> load_node h a = Ret n"
  by (simp add: load_node_def)

lemma store_node_Some [outcome_simps]:
  "nodes h a = Some m \<Longrightarrow> store_node h a n = Ret (h\<lparr>nodes := (nodes h)(a \<mapsto> n)\<rparr>)"
  by (simp add: store_node_def)

lemma free_node_Some [outcome_simps]:
  "nodes h a = Some m \<Longrightarrow> free_node h a = Ret (h\<lparr>nodes := (nodes h)(a := None)\<rparr>)"
  by (simp add: free_node_def)

lemma load_node_null [outcome_simps]: "heap_ok h \<Longrightarrow> load_node h 0 = Crash"
  by (auto simp: load_node_def heap_ok_def split: option.splits)

definition linked :: "addr \<Rightarrow> OlyNode \<Rightarrow> OlyNode" where
  "linked stack node = (if stack \<noteq> 0 then node\<lparr>parent_node := stack\<rparr> else node)"

definition pushed :: "node_heap \<Rightarrow> addr \<Rightarrow> addr \<Rightarrow> OlyNode \<Rightarrow> node_heap" where
  "pushed h stack a node = h\<lparr>nodes := (nodes h)(a \<mapsto> linked stack node,
     next_node h \<mapsto> copy_node (linked stack node) fresh_node), next_node := Suc (next_node h)\<rparr>"

lemma push_node_eq:
  assumes "heap_ok h" and "nodes h a = Some node"
  shows "push_node h stack a = Ret (OLY_OKAY, next_node h, pushed h stack a node)"
proof -
  have "a \<noteq> next_node h" using assms by auto
  with assms(2) show ?thesis
    by (simp add: push_node_def new_oly_node_def outcome_simps pushed_def linked_def Let_def
        fun_upd_twist)
qed

lemma heap_ok_pushed:
  assumes "heap_ok h" and "nodes h a = Some node"
  shows "heap_ok (pushed h stack a node)"
  using assms heap_okD [OF assms] by (auto simp: heap_ok_def pushed_def)

lemma path_pushed:
  assumes "heap_ok h" and "nodes h a = Some node" and "path h stack xs" and "a \<notin> set xs"
    and "stack = 0 \<Longrightarrow> parent_node node = 0"
  shows "path (pushed h stack a node) (next_node h) (next_node h # xs)"
proof -
  have "path (pushed h stack a node) stack xs = path h stack xs"
    using path_below [OF assms(1,3)] assms(4) by (intro path_frame) (auto simp: pushed_def)
  moreover have "parent_node (copy_node (linked stack node) fresh_node) = stack"
    using assms(5) by (simp add: copy_node_def linked_def)
  ultimately show ?thesis
    using assms(1,3) by (simp add: pushed_def heap_ok_def)
qed

lemma pop_node_keep:
  assumes "nodes h stack = Some old" and "parent_node old \<noteq> 0"
  shows "pop_node fuel h stack True =
    Ret \<lparr>pop_status = OLY_OKAY, pop_stack = parent_node old, pop_out = Some stack, pop_heap = h\<rparr>"
  using assms by (simp add: pop_node_def outcome_simps)

lemma pop_node_last:
  assumes "nodes h stack = Some old" and "parent_node old = 0"
  shows "pop_node fuel h stack wanted =
    Ret \<lparr>pop_status = OLY_ERR_NODES_TOO_SHALLOW, pop_stack = stack, pop_out = None, pop_heap = h\<rparr>"
  using assms by (simp add: pop_node_def outcome_simps)

lemma pop_node_null: "heap_ok h \<Longrightarrow> pop_node fuel h 0 wanted = Crash"
  by (simp add: pop_node_def outcome_simps)

lemma pop_node_discard:
  assumes "nodes h stack = Some old" and "parent_node old \<noteq> 0" and "\<not> collection_end old"
    and "stack \<noteq> 0"
  shows "pop_node (Suc fuel) h stack False =
    Ret \<lparr>pop_status = OLY_OKAY, pop_stack = parent_node old, pop_out = None,
         pop_heap = h\<lparr>nodes := (nodes h)(stack := None)\<rparr>\<rparr>"
  using assms by (simp add: pop_node_def outcome_simps)

section \<open>The depth counter\<close>

datatype move = Descend | Ascend

primrec depth_walk :: "OlyNode \<Rightarrow> move list \<Rightarrow> OlyNode" where
  "depth_walk node [] = node"
| "depth_walk node (mv # moves) =
     depth_walk (snd (case mv of Descend \<Rightarrow> descend_one_level node | Ascend \<Rightarrow> ascend_one_level node)) moves"

primrec level_walk :: "nat \<Rightarrow> move list \<Rightarrow> nat" where
  "level_walk d [] = d"
| "level_walk d (mv # moves) =
     level_walk (case mv of Descend \<Rightarrow> min MAX_NODE_DEPTH (d + 1) | Ascend \<Rightarrow> d - 1) moves"

lemma descend_depth:
  assumes "unat (depth node) \<le> MAX_NODE_DEPTH"
  shows "unat (depth (snd (descend_one_level node))) = min MAX_NODE_DEPTH (unat (depth node) + 1)"
proof -
  have "unat (depth node + 1) = unat (depth node) + 1" if "unat (depth node) \<le> 16"
    using that by (simp add: unat_word_ariths)
  with assms show ?thesis by (auto simp: descend_one_level_def MAX_NODE_DEPTH_def)
qed

lemma ascend_depth:
  "unat (depth (snd (ascend_one_level node))) = unat (depth node) - 1"
proof (cases "depth node = 0")
  case False
  then have "unat (depth node - 1) = unat (depth node) - 1"
    by (metis unat_minus_one)
  moreover have "0 < unat (depth node)"
    using False by (simp add: unat_gt_0)
  ultimately show ?thesis
    unfolding ascend_one_level_def by (simp del: unat_gt_0 of_nat_unat)
qed (simp add: ascend_one_level_def)

lemma depth_walk_level:
  "unat (depth node) \<le> MAX_NODE_DEPTH \<Longrightarrow>
   unat (depth (depth_walk node moves)) = level_walk (unat (depth node)) moves"
proof (induction moves arbitrary: node)
  case Nil
  then show ?case by simp
next
  case (Cons mv moves)
  then show ?case by (cases mv) (simp_all add: descend_depth ascend_depth)
qed

lemma level_walk_bound: "d \<le> MAX_NODE_DEPTH \<Longrightarrow> level_walk d moves \<le> MAX_NODE_DEPTH"
  by (induction moves arbitrary: d) (auto split: move.splits)

section \<open>Closing\<close>

text \<open>
  Closing frees the node and, while the nodes met are collection ends, the next parent; one
  frame is needed for each node freed.
\<close>

fun close_path :: "node_heap \<Rightarrow> addr \<Rightarrow> addr list \<Rightarrow> bool" where
  "close_path h a [] \<longleftrightarrow> False"
| "close_path h a (x # xs) \<longleftrightarrow> a = x \<and> x \<noteq> 0 \<and>
     (case nodes h x of None \<Rightarrow> False
      | Some n \<Rightarrow> if collection_end n then close_path h (parent_node n) xs else xs = [])"

lemma close_oly_ds_node_frees:
  "close_path h a xs \<Longrightarrow> distinct xs \<Longrightarrow> length xs \<le> fuel \<Longrightarrow>
   close_oly_ds_node fuel h a = Ret (h\<lparr>nodes := (nodes h) |` (- set xs)\<rparr>)"
proof (induction xs arbitrary: a fuel)
  case Nil
  then show ?case by simp
next
  case (Cons x xs)
  then obtain n f where n: "nodes h x = Some n" "a = x" "x \<noteq> 0" "fuel = Suc f"
    by (cases fuel) (auto split: option.splits)
  show ?case
  proof (cases "collection_end n")
    case True
    with Cons n have "close_oly_ds_node f h (parent_node n) = Ret (h\<lparr>nodes := nodes h |` (- set xs)\<rparr>)"
      by (intro Cons.IH) auto
    moreover have "(nodes h |` (- set xs)) x = Some n"
      using Cons.prems n by (simp add: restrict_map_def)
    moreover have "(nodes h |` (- set xs))(x := None) = nodes h |` (- insert x (set xs))"
      by (auto simp: restrict_map_def)
    ultimately show ?thesis using True n by (simp add: outcome_simps free_node_def)
  next
    case False
    with Cons.prems n have "xs = []" by auto
    moreover have "(nodes h)(x := None) = nodes h |` (- {x})" by (auto simp: restrict_map_def)
    ultimately show ?thesis using False n by (simp add: outcome_simps free_node_def)
  qed
qed

section \<open>Properties\<close>

text \<open>A heap of two nodes: the root at 1, and at 2 a node that has not been pushed.\<close>

definition sample_heap :: node_heap where
  "sample_heap = \<lparr>nodes = [1 \<mapsto> fresh_node, 2 \<mapsto> fresh_node\<lparr>node_id := 7, depth := 1\<rparr>], next_node = 3\<rparr>"

lemma sample_heap_ok: "heap_ok sample_heap" "path sample_heap 1 [1]"
    "nodes sample_heap 2 = Some (fresh_node\<lparr>node_id := 7, depth := 1\<rparr>)"
  by (auto simp: sample_heap_def heap_ok_def fresh_node_def)

text \<open>
  Pushing a node on a non-empty stack puts a copy of it on top, linked to the old top;
  popping gives that copy back and restores the stack, whose nodes are untouched.
\<close>

theorem push_then_pop:
  assumes "heap_ok h" and "nodes h a = Some node" and "path h stack (stack # xs)"
    and "a \<notin> set (stack # xs)"
  shows "\<exists>top h' c. push_node h stack a = Ret (OLY_OKAY, top, h')
    \<and> path h' top (top # stack # xs) \<and> (\<forall>x\<in>set (stack # xs). nodes h' x = nodes h x)
    \<and> nodes h' top = Some c \<and> node_id c = node_id node \<and> key c = key node
    \<and> nvalue c = nvalue node \<and> depth c = depth node
    \<and> pop_node fuel h' top True =
        Ret \<lparr>pop_status = OLY_OKAY, pop_stack = stack, pop_out = Some top, pop_heap = h'\<rparr>"
proof -
  let ?h = "pushed h stack a node" and ?c = "copy_node (linked stack node) fresh_node"
  have nz: "stack \<noteq> 0" using assms(3) by simp
  have top: "nodes ?h (next_node h) = Some ?c" by (simp add: pushed_def)
  have c: "parent_node ?c = stack" "node_id ?c = node_id node" "key ?c = key node"
    "nvalue ?c = nvalue node" "depth ?c = depth node"
    using nz by (simp_all add: copy_node_def linked_def)
  have frame: "\<forall>x\<in>set (stack # xs). nodes ?h x = nodes h x"
    using path_below [OF assms(1,3)] assms(4) by (auto simp: pushed_def)
  have pop: "pop_node fuel ?h (next_node h) True =
      Ret \<lparr>pop_status = OLY_OKAY, pop_stack = stack, pop_out = Some (next_node h), pop_heap = ?h\<rparr>"
    using pop_node_keep [OF top, of fuel] c(1) nz by simp
  show ?thesis
    using push_node_eq [OF assms(1,2)] path_pushed [OF assms(1-4)] nz top c frame pop by blast
qed

theorem push_then_pop_witness:
  "\<exists>top h' c. push_node sample_heap 1 2 = Ret (OLY_OKAY, top, h')
    \<and> path h' top [top, 1] \<and> nodes h' 1 = nodes sample_heap 1
    \<and> nodes h' top = Some c \<and> node_id c = 7 \<and> depth c = 1
    \<and> pop_node 5 h' top True =
        Ret \<lparr>pop_status = OLY_OKAY, pop_stack = 1, pop_out = Some top, pop_heap = h'\<rparr>"
proof -
  have "(2::addr) \<notin> set [1]" by simp
  from push_then_pop [OF sample_heap_ok(1,3,2) this, of 5] show ?thesis
    by (elim exE conjE) (intro exI conjI, assumption+, simp_all)
qed

text \<open>
  Any sequence of descents and ascents keeps the 16-bit depth of a node between 0 and
  \<open>MAX_NODE_DEPTH\<close>: it follows a counter that saturates at both ends, and never wraps.
\<close>

theorem depth_saturates:
  assumes "unat (depth node) \<le> MAX_NODE_DEPTH"
  shows "unat (depth (depth_walk node moves)) = level_walk (unat (depth node)) moves
    \<and> unat (depth (depth_walk node moves)) \<le> MAX_NODE_DEPTH"
  using depth_walk_level [OF assms] level_walk_bound [OF assms] by simp

theorem depth_saturates_witness:
  "unat (depth (depth_walk fresh_node [Ascend, Descend, Descend, Ascend])) = 1"
  using depth_saturates [of fresh_node "[Ascend, Descend, Descend, Ascend]"]
  by (simp add: fresh_node_def MAX_NODE_DEPTH_def)

text \<open>
  Whatever the type, \<open>set_node_value\<close> stores it; strings, floats and integers need a
  value and maps and sequences need none, and every other case answers that a value is
  missing or not allowed. The status for an illegal tag is never returned.
\<close>

theorem set_node_value_status:
  "vtype (nvalue (snd (set_node_value node val type))) = type
   \<and> fst (set_node_value node val type) =
      (if val = None
       then (if type \<in> tag_code ` {OLY_TAG_COMPLEX_MAP, OLY_TAG_COMPLEX_SEQUENCE} then OLY_OKAY
             else OLY_ERR_NODE_MUST_HAVE_VALUE)
       else (if type \<in> tag_code ` {OLY_TAG_SCALAR_STRING, OLY_TAG_SCALAR_FLOAT, OLY_TAG_SCALAR_INT}
             then OLY_OKAY else OLY_ERR_NODE_MUST_NOT_HAVE_VALUE))"
  by (simp add: set_node_value_def Let_def split: option.split)

text \<open>
  Closing a node that ends collections frees exactly the nodes on the way up to the first
  one that ends none, each of them once.
\<close>

theorem close_frees_collection_ends:
  assumes "close_path h a xs" and "distinct xs" and "length xs \<le> fuel"
  shows "close_oly_ds_node fuel h a = Ret (h\<lparr>nodes := (nodes h) |` (- set xs)\<rparr>)"
  using assms by (rule close_oly_ds_node_frees)

theorem close_frees_collection_ends_witness:
  "close_oly_ds_node 2 (sample_heap\<lparr>nodes := [1 \<mapsto> fresh_node, 2 \<mapsto> fresh_node\<lparr>collection_end := True, parent_node := 1\<rparr>]\<rparr>) 2
   = Ret (sample_heap\<lparr>nodes := Map.empty\<rparr>)"
proof -
  let ?h = "sample_heap\<lparr>nodes := [1 \<mapsto> fresh_node, 2 \<mapsto> fresh_node\<lparr>collection_end := True, parent_node := 1\<rparr>]\<rparr>"
  have "close_path ?h 2 [2, 1]" by (simp add: fresh_node_def)
  moreover have "nodes ?h |` (- set [2, 1]) = Map.empty" by (auto simp: restrict_map_def)
  ultimately show ?thesis using close_frees_collection_ends [of ?h 2 "[2, 1]" 2] by simp
qed

end
