(* ===== verification/Node_Queue.thy ===== *)
theory Node_Queue
  imports Node Fifo_Spec
begin

text \<open>
  The queue of nodes of \<^verbatim>\<open>src/node/node_queue.c\<close>: a ring of node slots in the node heap, from
  \<open>queue_start\<close> to \<open>queue_end\<close> with both ends included, whose strings live in a string
  buffer, and a stack of copies of the nodes that opened the current levels.
\<close>

section \<open>State\<close>

record OlyNodeQueue =
  queue_size :: nat
  key_max_length :: nat
  q_in :: addr
  q_out :: addr
  q_stack :: addr
  queue_start :: addr
  queue_end :: addr
  q_strings :: "OlyStringBuffer option"
    \<comment> \<open>\<open>None\<close>: the pointer is indeterminate\<close>

definition sizeof_OlyNode :: nat where
  \<comment> \<open>of the structure with all its fields, on a 64-bit ABI\<close>
  "sizeof_OlyNode = 64"

section \<open>Opening and closing\<close>

text \<open>
  The slots take \<open>queue_size / sizeof(OlyNode)\<close> bytes; only the slots that lie within that
  many bytes are part of the heap. The addresses of the others are not used again, so an
  access to them is an access outside the allocated object. \<open>config\<close> is the answer of the
  configuration for the queue size, \<open>junk\<close> and \<open>junk_cells\<close> are the contents of new memory.
\<close>

definition slot_count :: "OlyNodeQueue \<Rightarrow> nat" where
  "slot_count q = queue_size q div sizeof_OlyNode"

definition slots_allocated :: "OlyNodeQueue \<Rightarrow> nat" where
  "slots_allocated q = slot_count q div sizeof_OlyNode"

definition open_node_queue ::
  "OlyStatus \<times> nat \<Rightarrow> (nat \<Rightarrow> OlyNode) \<Rightarrow> (nat \<Rightarrow> ochar) \<Rightarrow> node_heap
   \<Rightarrow> (OlyStatus \<times> OlyNodeQueue \<times> node_heap) outcome" where
  "open_node_queue config junk junk_cells h =
     (let start = next_node h;
          q = \<lparr>queue_size = snd config, key_max_length = MAX_KEY_LENGTH, q_in = start, q_out = start,
               q_stack = 0, queue_start = start, queue_end = start + snd config div sizeof_OlyNode,
               q_strings = None\<rparr>;
          h = h\<lparr>nodes := (\<lambda>a. if start \<le> a \<and> a < start + slots_allocated q then Some (junk a)
                              else nodes h a),
                next_node := Suc (queue_end q)\<rparr>
      in obind (open_string_buffer config junk_cells) (\<lambda>(status, strbuf).
         Ret (status, q\<lparr>q_strings := strbuf\<rparr>, h)))"

text \<open>
  The loop that closes the nodes of the stack; \<open>None\<close> means that \<open>fuel\<close> rounds were not
  enough, \<open>frames\<close> are the stack frames each call of \<open>close_oly_ds_node\<close> may use.
\<close>

fun close_stack :: "nat \<Rightarrow> nat \<Rightarrow> node_heap \<Rightarrow> addr \<Rightarrow> node_heap outcome option" where
  "close_stack frames fuel h stack =
     (if stack = 0 then Some (Ret h)
      else case fuel of
        0 \<Rightarrow> None
      | Suc fuel \<Rightarrow>
          (case load_node h stack of
             Ret n \<Rightarrow>
               (case close_oly_ds_node frames h stack of
                  Ret h \<Rightarrow> close_stack frames fuel h (parent_node n)
                | Halt \<Rightarrow> Some Halt
                | Crash \<Rightarrow> Some Crash)
           | Halt \<Rightarrow> Some Halt
           | Crash \<Rightarrow> Some Crash))"

declare close_stack.simps [simp del]

definition close_node_queue ::
  "nat \<Rightarrow> nat \<Rightarrow> OlyNodeQueue \<Rightarrow> node_heap \<Rightarrow> (node_heap \<times> freed list) outcome option" where
  "close_node_queue frames fuel q h =
     (case close_stack frames fuel h (q_stack q) of
        None \<Rightarrow> None
      | Some r \<Rightarrow> Some (obind r (\<lambda>h.
          let h = h\<lparr>nodes := (\<lambda>a. if queue_start q \<le> a \<and> a < queue_start q + slots_allocated q
                                  then None else nodes h a)\<rparr>
          in obind (close_string_buffer (map_option (\<lambda>b. (b, True)) (q_strings q))) (\<lambda>freed.
             Ret (h, freed)))))"

section \<open>Enqueue\<close>

definition step_in :: "OlyNodeQueue \<Rightarrow> addr option" where
  \<comment> \<open>where \<open>in\<close> goes, \<open>None\<close> when the queue is full\<close>
  "step_in q =
     (if (q_out q \<le> q_in q \<and> q_in q < queue_end q)
         \<or> (queue_start q \<le> q_in q \<and> q_in q < q_out q \<and> q_in q + 1 \<noteq> q_out q)
      then Some (q_in q + 1)
      else if q_in q = queue_end q \<and> q_out q \<noteq> queue_start q then Some (queue_start q)
      else None)"

text \<open>
  The loop that closes levels: \<open>level\<close> is the C variable \<open>depth\<close>, which counts down from the
  depth of the previous slot.
\<close>

primrec pop_levels ::
  "addr \<Rightarrow> addr \<Rightarrow> nat \<Rightarrow> node_heap \<Rightarrow> addr \<Rightarrow> (OlyStatus \<times> node_heap \<times> addr) outcome" where
  "pop_levels prev slot 0 h stack = Ret (OLY_OKAY, h, stack)"
| "pop_levels prev slot (Suc level) h stack =
     obind (load_node h slot) (\<lambda>node.
     if \<not> unat (depth node) < Suc level then Ret (OLY_OKAY, h, stack)
     else
       obind (load_node h prev) (\<lambda>p.
       obind (store_node h prev (p\<lparr>collection_end := True\<rparr>)) (\<lambda>h.
       obind (pop_node 0 h stack True) (\<lambda>r.
       if pop_status r \<noteq> OLY_OKAY then Ret (pop_status r, pop_heap r, pop_stack r)
       else pop_levels prev slot level (pop_heap r) (pop_stack r)))))"

definition is_collection :: "OlyNode \<Rightarrow> bool" where
  "is_collection n \<longleftrightarrow> vtype (nvalue n) = tag_code OLY_TAG_COMPLEX_SEQUENCE
     \<or> vtype (nvalue n) = tag_code OLY_TAG_COMPLEX_MAP"

definition link_slot ::
  "addr \<Rightarrow> addr \<Rightarrow> addr \<Rightarrow> node_heap \<Rightarrow> (OlyStatus \<times> node_heap \<times> addr) outcome" where
  \<comment> \<open>opens or closes levels for the node just copied to \<open>slot\<close>, and sets its parent\<close>
  "link_slot prev slot stack h =
     obind (load_node h slot) (\<lambda>node.
     obind (load_node h prev) (\<lambda>p.
     obind (if depth node > depth p then push_node h stack slot else Ret (OLY_OKAY, stack, h))
       (\<lambda>(status, stack, h).
     if status \<noteq> OLY_OKAY then Ret (status, h, stack)
     else
       obind (pop_levels prev slot (unat (depth p)) h stack) (\<lambda>(status, h, stack).
       if status \<noteq> OLY_OKAY then Ret (status, h, stack)
       else
         obind (load_node h slot) (\<lambda>node.
         obind (if is_collection node then obind (load_node h stack) (\<lambda>top. Ret (parent_node top))
                else Ret stack) (\<lambda>parent.
         obind (store_node h slot (node\<lparr>parent_node := parent\<rparr>)) (\<lambda>h.
         Ret (OLY_OKAY, h, stack))))))))"

definition string_mem :: "OlyStringBuffer \<Rightarrow> string_ptr \<Rightarrow> ochar list outcome" where
  \<comment> \<open>the memory a string pointer leads to\<close>
  "string_mem strbuf s =
     (case s of SExt mem \<Rightarrow> Ret mem | SBuf p \<Rightarrow> Ret (drop p (block strbuf)) | _ \<Rightarrow> Crash)"

text \<open>
  Reserving and enqueuing one string. The C variable \<open>result\<close>, indeterminate at first, is shared
  by the key and the value, and an enqueue of the empty string leaves it alone. The boolean
  tells whether the enqueue has run.
\<close>

definition queue_text ::
  "OlyStringBuffer option \<Rightarrow> string_ptr \<Rightarrow> nat \<Rightarrow> string_ptr
   \<Rightarrow> (OlyStatus \<times> OlyStringBuffer option \<times> bool \<times> string_ptr) outcome" where
  "queue_text strings s extra result =
     (case strings of
        None \<Rightarrow> Crash
      | Some strbuf \<Rightarrow>
          obind (string_mem strbuf s) (\<lambda>mem.
          obind (queue_string strbuf mem extra) (\<lambda>(status, strbuf, written).
          Ret (status, Some strbuf, status = OLY_OKAY \<or> written \<noteq> None,
               case written of Some p \<Rightarrow> SBuf p | None \<Rightarrow> result))))"

definition queue_key ::
  "addr \<Rightarrow> OlyStringBuffer option \<Rightarrow> node_heap
   \<Rightarrow> (OlyStatus \<times> OlyStringBuffer option \<times> node_heap \<times> string_ptr) outcome" where
  "queue_key slot strings h =
     obind (load_node h slot) (\<lambda>node.
     if key node = SNull then Ret (OLY_OKAY, strings, h, SWild)
     else
       obind (queue_text strings (key node) 2 SWild) (\<lambda>(status, strings, ran, result).
       obind (if ran then store_node h slot (node\<lparr>key := result\<rparr>) else Ret h) (\<lambda>h.
       Ret (status, strings, h, result))))"

definition queue_value ::
  "addr \<Rightarrow> OlyStringBuffer option \<Rightarrow> node_heap \<Rightarrow> string_ptr
   \<Rightarrow> (OlyStatus \<times> OlyStringBuffer option \<times> node_heap) outcome" where
  "queue_value slot strings h result =
     obind (load_node h slot) (\<lambda>node.
     if vtype (nvalue node) \<noteq> tag_code OLY_TAG_SCALAR_STRING then Ret (OLY_OKAY, strings, h)
     else
       obind (queue_text strings (as_string (union (nvalue node))) 0 result)
         (\<lambda>(status, strings, ran, result).
       if status \<noteq> OLY_OKAY then Ret (status, strings, h)
       else
         obind (store_node h slot (node\<lparr>nvalue := (nvalue node)\<lparr>union := String_value result\<rparr>\<rparr>)) (\<lambda>h.
         Ret (status, strings, h))))"

definition enqueue_to_node_queue ::
  "OlyNodeQueue \<Rightarrow> node_heap \<Rightarrow> addr \<Rightarrow> (OlyStatus \<times> OlyNodeQueue \<times> node_heap) outcome" where
  "enqueue_to_node_queue q h n =
     (let prev = q_in q in
      case step_in q of
        None \<Rightarrow> Ret (OLY_ERR_NODE_QUEUE_FULL, q, h)
      | Some slot \<Rightarrow>
          let q = q\<lparr>q_in := slot\<rparr> in
          obind (load_node h n) (\<lambda>source.
          obind (load_node h slot) (\<lambda>dest.
          obind (store_node h slot (copy_node source dest)) (\<lambda>h.
          obind (link_slot prev slot (q_stack q) h) (\<lambda>(status, h, stack).
          let q = q\<lparr>q_stack := stack\<rparr> in
          if status \<noteq> OLY_OKAY then Ret (status, q, h)
          else
            obind (queue_key slot (q_strings q) h) (\<lambda>(status, strings, h, result).
            let q = q\<lparr>q_strings := strings\<rparr> in
            if status \<noteq> OLY_OKAY then Ret (status, q, h)
            else
              obind (queue_value slot (q_strings q) h result) (\<lambda>(status, strings, h).
              Ret (status, q\<lparr>q_strings := strings\<rparr>, h))))))))"

section \<open>Dequeue\<close>

definition step_out :: "OlyNodeQueue \<Rightarrow> OlyStatus \<times> addr" where
  "step_out q =
     (if (queue_start q \<le> q_out q \<and> q_out q < q_in q)
         \<or> (q_in q < q_out q \<and> q_out q < queue_end q)
      then (OLY_OKAY, q_out q + 1)
      else if q_out q = queue_end q then (OLY_OKAY, queue_start q)
      else (OLY_ERR_NODE_QUEUE_EMPTY, q_out q))"

definition dequeue_from_node_queue ::
  "OlyNodeQueue \<Rightarrow> node_heap \<Rightarrow> addr \<Rightarrow> (OlyStatus \<times> OlyNodeQueue \<times> node_heap) outcome" where
  \<comment> \<open>\<open>node_out\<close> is the pointer the caller passes the address of\<close>
  "dequeue_from_node_queue q h node_out =
     (let prev = q_out q; (status, slot) = step_out q; q = q\<lparr>q_out := slot\<rparr> in
      obind (load_node h slot) (\<lambda>source.
      obind (load_node h node_out) (\<lambda>dest.
      obind (store_node h node_out (copy_node source dest)) (\<lambda>h.
      obind (load_node h prev) (\<lambda>p.
      obind (store_node h prev (reset_node p)) (\<lambda>h.
      Ret (status, q, h)))))))"

section \<open>A string buffer nothing is read from\<close>

text \<open>
  The node queue never dequeues from its string buffer, so part A grows from the first cell
  and every string stays where it was put.
\<close>

definition filling :: "OlyStringBuffer \<Rightarrow> bool" where
  "filling b \<longleftrightarrow> sb_good b \<and> sb_state b = WRITE_A_READ_A \<and> read_a b = 0"

definition text_at :: "OlyStringBuffer \<Rightarrow> nat \<Rightarrow> ochar list \<Rightarrow> bool" where
  "text_at b p s \<longleftrightarrow> 0 \<notin> set s \<and> p + length s + 1 \<le> write_a b
     \<and> take (Suc (length s)) (drop p (block b)) = s @ [0]"

lemma filling_room: "filling b \<Longrightarrow> sb_room b = buffer_end b - 1 - write_a b"
  by (simp add: filling_def sb_room_def)

lemma filling_space:
  assumes "filling b"
  shows "space_available b = (buffer_end b - 1 - write_a b, b)"
proof -
  have "write_b b = 0" "read_b b = 0" "read_a b = 0" "write_a b < buffer_end b" "buffer_end b < size_mod"
    using assms by (auto simp: filling_def sb_good_def sb_inv_def sb_parts_def sb_shape_def)
  then show ?thesis
    using assms
    by (auto simp: filling_def space_available_def sb_pointer_defs size_diff_le size_of_int_id Let_def)
qed

lemma queue_string_filling:
  assumes b: "filling b" and s: "storable s" and small: "length s + extra + 1 < size_mod"
    and room: "length s + extra < sb_room b" and extra: "2 \<le> extra \<or> extra = 0 \<and> length s + 1 < sb_room b"
  shows "\<exists>b'. queue_string b (s @ 0 # t) extra = Ret (OLY_OKAY, b', Some (write_a b)) \<and> filling b'
    \<and> write_a b' = write_a b + length s + 2 \<and> buffer_end b' = buffer_end b
    \<and> text_at b' (write_a b) s \<and> (\<forall>p u. text_at b p u \<longrightarrow> text_at b' p u)"
proof -
  let ?b1 = "b\<lparr>reserve_start := Some (write_a b), reserve_end := Some (write_a b + (length s + extra + 1))\<rparr>"
  let ?b2 = "append_string ?b1 s"
  have b': "sb_inv b" "unreserved b" "sb_state b = WRITE_A_READ_A" "read_a b = 0"
    using b by (auto simp: filling_def sb_good_def)
  have wp: "write_ptr b = write_a b" "write_limit b = buffer_end b - 1"
    using b' by (simp_all add: write_ptr_def writes_a_def write_limit_def)
  have r: "reserve_string_buffer b (length s + extra) = Ret (OLY_OKAY, ?b1)"
    using b' small room wp by (simp add: reserve_unfold filling_space [OF b] unreserved_def size_simps)
  have res: "reserved ?b1 (length s + extra)"
    using room wp filling_room [OF b] by (simp add: reserved_def)
  have n0: "0 \<notin> set s" using s by (simp add: storable_def)
  have q: "queue_string b (s @ 0 # t) extra = Ret (OLY_OKAY, ?b2, Some (write_a b))"
    using enqueue_stores [of ?b1 "length s + extra" s t] res s b' small extra n0 r wp
    by (auto simp: queue_string_def size_simps)
  have lim: "write_ptr ?b1 + length s + 2 \<le> write_limit ?b1"
    using wp room extra filling_room [OF b] by auto
  have inv2: "sb_inv ?b2" using append_string_inv [of ?b1 s] lim s b' by simp
  have shape: "length (block b) = Suc (buffer_end b)" using b' by (simp add: sb_inv_def sb_shape_def)
  have blk: "block ?b2 = overlay (block b) (write_a b) (s @ [0, 0])" "write_a ?b2 = write_a b + length s + 2"
      "sb_state ?b2 = WRITE_A_READ_A" "read_a ?b2 = 0"
    using b' by (simp_all add: append_string_def Let_def write_ptr_def writes_a_def)
  have in_m: "write_a b + length (s @ [0, 0]) \<le> length (block b)"
    using lim wp shape by simp
  have "text_at ?b2 (write_a b) s"
    using in_m n0 unfolding text_at_def blk by (subst take_drop_overlay_same) auto
  moreover have "text_at ?b2 p u" if "text_at b p u" for p u
    using that in_m unfolding text_at_def blk by (subst take_drop_overlay_other) auto
  ultimately show ?thesis
    using q inv2 blk by (auto simp: filling_def sb_good_def)
qed

lemma queue_string_filling_refused:
  assumes b: "filling b" and s: "0 \<notin> set s" and small: "length s + extra + 1 < size_mod"
    and room: "sb_room b \<le> length s + extra"
  shows "queue_string b (s @ 0 # t) extra = Ret (OLY_ERR_BUFFER_OVERFLOW, b, None)"
proof -
  have "sb_inv b" "unreserved b" using b by (auto simp: filling_def sb_good_def)
  with small room s show ?thesis
    by (simp add: queue_string_def reserve_unfold filling_space [OF b] unreserved_def size_simps)
qed

section \<open>The queue a ring represents\<close>

text \<open>What a node says, apart from its links: strings are given by their text.\<close>

record node_view =
  v_id :: "64 word"
  v_depth :: "16 word"
  v_type :: int
  v_value :: "OlyUnion + ochar list"
  v_key :: "ochar list option"

definition mem_text :: "ochar list \<Rightarrow> ochar list" where
  "mem_text m = takeWhile (\<lambda>c. c \<noteq> 0) m"

definition text_of :: "OlyStringBuffer \<Rightarrow> string_ptr \<Rightarrow> ochar list option" where
  "text_of b s =
     (case s of SNull \<Rightarrow> None | SWild \<Rightarrow> None | SExt m \<Rightarrow> Some (mem_text m)
      | SBuf p \<Rightarrow> Some (mem_text (drop p (block b))))"

definition view :: "OlyStringBuffer \<Rightarrow> OlyNode \<Rightarrow> node_view" where
  "view b n = \<lparr>v_id = node_id n, v_depth = depth n, v_type = vtype (nvalue n),
     v_value = (if vtype (nvalue n) = tag_code OLY_TAG_SCALAR_STRING
                then Inr (case text_of b (as_string (union (nvalue n))) of None \<Rightarrow> [] | Some s \<Rightarrow> s)
                else Inl (union (nvalue n))),
     v_key = text_of b (key n)\<rparr>"

lemma text_of_at: "text_at b p s \<Longrightarrow> text_of b (SBuf p) = Some s"
  unfolding text_at_def text_of_def mem_text_def by (auto intro: takeWhile_terminated)

lemma mem_text_terminated: "0 \<notin> set s \<Longrightarrow> mem_text (s @ 0 # t) = s"
  by (auto simp: mem_text_def takeWhile_append)

text \<open>The slots in the order they will be dequeued.\<close>

definition slots :: "OlyNodeQueue \<Rightarrow> addr list" where
  "slots q = (if q_out q \<le> q_in q then [Suc (q_out q)..<Suc (q_in q)]
              else [Suc (q_out q)..<Suc (queue_end q)] @ [queue_start q..<Suc (q_in q)])"

definition ring :: "OlyNodeQueue \<Rightarrow> addr set" where
  "ring q = {queue_start q..queue_end q}"

definition ring_ok :: "OlyNodeQueue \<Rightarrow> bool" where
  "ring_ok q \<longleftrightarrow> queue_start q < queue_end q \<and> q_in q \<in> ring q \<and> q_out q \<in> ring q"

lemma slots_in_ring: "ring_ok q \<Longrightarrow> set (slots q) \<subseteq> ring q"
  by (auto simp: slots_def ring_ok_def ring_def)

lemma step_in_cases:
  assumes "ring_ok q" and "step_in q = Some a"
  obtains (forward) "q_out q \<le> q_in q" "q_in q < queue_end q" "a = Suc (q_in q)"
    | (behind) "q_in q < q_out q" "Suc (q_in q) < q_out q" "a = Suc (q_in q)"
    | (wrap) "q_in q = queue_end q" "queue_start q < q_out q" "a = queue_start q"
proof -
  have ring: "queue_start q \<le> q_in q" "q_in q \<le> queue_end q" "queue_start q \<le> q_out q"
    "q_out q \<le> queue_end q"
    using assms(1) by (simp_all add: ring_ok_def ring_def)
  show ?thesis
  proof (cases "(q_out q \<le> q_in q \<and> q_in q < queue_end q)
      \<or> (queue_start q \<le> q_in q \<and> q_in q < q_out q \<and> q_in q + 1 \<noteq> q_out q)")
    case True
    with assms(2) have "a = Suc (q_in q)" by (simp add: step_in_def)
    with True show ?thesis by (elim disjE conjE) (rule forward, simp_all, rule behind, simp_all)
  next
    case False
    with assms(2) have "q_in q = queue_end q" "q_out q \<noteq> queue_start q" "a = queue_start q"
      by (simp_all only: step_in_def if_False split: if_splits) auto
    with ring show ?thesis by (intro wrap) simp_all
  qed
qed

lemma step_in_slots:
  assumes q: "ring_ok q" and a: "step_in q = Some a"
  shows "a \<in> ring q \<and> a \<notin> set (slots q) \<and> a \<noteq> q_in q \<and> slots (q\<lparr>q_in := a\<rparr>) = slots q @ [a]"
  using q a
proof (cases rule: step_in_cases)
  case forward
  have "[Suc (q_out q)..<Suc (Suc (q_in q))] = [Suc (q_out q)..<Suc (q_in q)] @ [Suc (q_in q)]"
    using forward by (intro upt_Suc_append) simp
  with forward q show ?thesis
    by (simp add: slots_def ring_ok_def ring_def del: upt_Suc)
next
  case behind
  have "[queue_start q..<Suc (Suc (q_in q))] = [queue_start q..<Suc (q_in q)] @ [Suc (q_in q)]"
    using q by (intro upt_Suc_append) (simp add: ring_ok_def ring_def)
  with behind q show ?thesis
    by (simp add: slots_def ring_ok_def ring_def del: upt_Suc)
next
  case wrap
  have "[queue_start q..<Suc (queue_start q)] = [queue_start q]" by simp
  with wrap q show ?thesis
    by (simp add: slots_def ring_ok_def ring_def del: upt_Suc)
qed

lemma step_in_full:
  assumes "ring_ok q"
  shows "step_in q = None \<longleftrightarrow> length (slots q) = queue_end q - queue_start q"
  using assms by (simp add: step_in_def ring_ok_def ring_def slots_def del: upt_Suc) arith

lemma slots_Cons_cases:
  assumes "ring_ok q" and "slots q = a # as"
  obtains (forward) "q_out q < q_in q" "a = Suc (q_out q)" "as = [Suc (Suc (q_out q))..<Suc (q_in q)]"
    | (behind) "q_in q < q_out q" "q_out q < queue_end q" "a = Suc (q_out q)"
        "as = [Suc (Suc (q_out q))..<Suc (queue_end q)] @ [queue_start q..<Suc (q_in q)]"
    | (wrap) "q_in q < q_out q" "q_out q = queue_end q" "a = queue_start q"
        "as = [Suc (queue_start q)..<Suc (q_in q)]"
proof (cases "q_out q \<le> q_in q")
  case True
  with assms have s: "[Suc (q_out q)..<Suc (q_in q)] = a # as" by (simp add: slots_def)
  then have lt: "Suc (q_out q) < Suc (q_in q)" by (metis list.distinct(1) upt_conv_Nil not_less)
  show ?thesis using s upt_conv_Cons [OF lt] lt by (intro forward) auto
next
  case False
  show ?thesis
  proof (cases "q_out q < queue_end q")
    case True
    then have "[Suc (q_out q)..<Suc (queue_end q)]
        = Suc (q_out q) # [Suc (Suc (q_out q))..<Suc (queue_end q)]"
      by (intro upt_conv_Cons) simp
    with assms False True show ?thesis
      by (intro behind) (auto simp: slots_def simp del: upt_Suc)
  next
    case last: False
    have "[queue_start q..<Suc (q_in q)] = queue_start q # [Suc (queue_start q)..<Suc (q_in q)]"
      using assms(1) by (intro upt_conv_Cons) (simp add: ring_ok_def ring_def)
    with assms False last show ?thesis
      by (intro wrap) (auto simp: slots_def ring_ok_def ring_def simp del: upt_Suc)
  qed
qed

lemma step_out_slots:
  assumes q: "ring_ok q" and s: "slots q = a # as"
  shows "step_out q = (OLY_OKAY, a) \<and> ring_ok (q\<lparr>q_out := a\<rparr>) \<and> slots (q\<lparr>q_out := a\<rparr>) = as
    \<and> q_out q \<notin> set (slots q)"
  using q s
proof (cases rule: slots_Cons_cases)
  case forward
  with q s show ?thesis
    by (auto simp: step_out_def slots_def ring_ok_def ring_def simp del: upt_Suc)
next
  case behind
  with q s show ?thesis
    by (auto simp: step_out_def slots_def ring_ok_def ring_def simp del: upt_Suc)
next
  case wrap
  with q s show ?thesis
    by (auto simp: step_out_def slots_def ring_ok_def ring_def simp del: upt_Suc)
qed

section \<open>Levels\<close>

lemma pop_levels_stay:
  assumes "nodes h slot = Some node" and "level \<le> unat (depth node)"
  shows "pop_levels prev slot level h stack = Ret (OLY_OKAY, h, stack)"
  using assms by (cases level) (simp_all add: outcome_simps)

lemma pop_levels_close:
  assumes "path h stack xs" and "length xs = level" and "nodes h slot = Some node"
    and "1 \<le> unat (depth node)" and "unat (depth node) \<le> level"
    and "nodes h prev = Some p" and "prev \<notin> set xs" and "prev \<noteq> slot"
  shows "\<exists>e stack'. pop_levels prev slot level h stack =
      Ret (OLY_OKAY, h\<lparr>nodes := (nodes h)(prev \<mapsto> p\<lparr>collection_end := e\<rparr>)\<rparr>, stack')
    \<and> path h stack' (drop (level - unat (depth node)) xs)"
  using assms
proof (induction level arbitrary: h stack xs p)
  case 0
  then show ?case by simp
next
  case (Suc level)
  show ?case
  proof (cases "unat (depth node) < Suc level")
    case False
    have same: "h\<lparr>nodes := (nodes h)(prev \<mapsto> p\<lparr>collection_end := collection_end p\<rparr>)\<rparr> = h"
      using Suc.prems(6) by (simp add: fun_upd_idem)
    have "pop_levels prev slot (Suc level) h stack =
        Ret (OLY_OKAY, h\<lparr>nodes := (nodes h)(prev \<mapsto> p\<lparr>collection_end := collection_end p\<rparr>)\<rparr>, stack)"
      unfolding same using Suc.prems(3) False by (intro pop_levels_stay) auto
    moreover have "drop (Suc level - unat (depth node)) xs = xs" using False by simp
    ultimately show ?thesis using Suc.prems(1) by metis
  next
    case True
    obtain x xs' where xs: "xs = x # xs'" "length xs' = level"
      using Suc.prems(2) by (cases xs) auto
    obtain top where top: "stack = x" "nodes h x = Some top" "path h (parent_node top) xs'"
      using path_head Suc.prems(1) xs(1) by metis
    let ?h = "h\<lparr>nodes := (nodes h)(prev \<mapsto> p\<lparr>collection_end := True\<rparr>)\<rparr>"
    have ne: "parent_node top \<noteq> 0"
      using path_empty_iff [OF top(3)] xs(2) True Suc.prems(4) by (cases xs') auto
    have x: "nodes ?h x = Some top"
      using top xs Suc.prems(7) by simp
    have tail: "path ?h (parent_node top) xs'"
      using path_frame [of xs' ?h h "parent_node top"] top(3) Suc.prems(7) xs(1) by auto
    have ih: "\<exists>e stack'. pop_levels prev slot level ?h (parent_node top) =
        Ret (OLY_OKAY, ?h\<lparr>nodes := (nodes ?h)(prev \<mapsto> (p\<lparr>collection_end := True\<rparr>)\<lparr>collection_end := e\<rparr>)\<rparr>, stack')
      \<and> path ?h stack' (drop (level - unat (depth node)) xs')"
      using tail xs Suc.prems True by (intro Suc.IH) simp_all
    have frame: "path ?h st ys = path h st ys" if "prev \<notin> set ys" for st ys
      using that by (intro path_frame) auto
    have "prev \<notin> set (drop (level - unat (depth node)) xs')"
      using Suc.prems(7) xs(1) by (auto dest: in_set_dropD)
    with ih frame obtain e stack' where r: "pop_levels prev slot level ?h (parent_node top) =
        Ret (OLY_OKAY, h\<lparr>nodes := (nodes h)(prev \<mapsto> p\<lparr>collection_end := e\<rparr>)\<rparr>, stack')"
        "path h stack' (drop (level - unat (depth node)) xs')"
      by auto
    have step: "pop_levels prev slot (Suc level) h stack = pop_levels prev slot level ?h (parent_node top)"
      using True Suc.prems pop_node_keep [OF x ne, of 0] top(1) by (simp add: outcome_simps)
    have "drop (Suc level - unat (depth node)) xs = drop (level - unat (depth node)) xs'"
      using xs True by (simp add: Suc_diff_le)
    with r step show ?thesis by metis
  qed
qed

text \<open>
  What a client must respect for a node after one of depth \<open>d\<close>: it goes down one level at
  most, does not come back to level 0, and a collection is not at level 0.
\<close>

definition level_ok :: "nat \<Rightarrow> OlyNode \<Rightarrow> bool" where
  "level_ok d n \<longleftrightarrow> unat (depth n) \<le> Suc d \<and> (unat (depth n) < d \<longrightarrow> 0 < unat (depth n))
     \<and> (is_collection n \<longrightarrow> 0 < unat (depth n)) \<and> (d = 0 \<and> 0 < unat (depth n) \<longrightarrow> parent_node n = 0)"

text \<open>The stack of levels after such a node.\<close>

definition stack_after :: "addr list \<Rightarrow> addr \<Rightarrow> OlyNode \<Rightarrow> addr list" where
  "stack_after xs new n =
     (if length xs < unat (depth n) then new # xs else drop (length xs - unat (depth n)) xs)"

lemma length_stack_after:
  "level_ok (length xs) n \<Longrightarrow> length (stack_after xs new n) = unat (depth n)"
  by (auto simp: level_ok_def stack_after_def)

lemma set_stack_after: "set (stack_after xs new n) \<subseteq> insert new (set xs)"
  by (auto simp: stack_after_def dest: in_set_dropD)

lemma opened_levels:
  assumes h: "heap_ok h" and slot: "nodes h slot = Some node" and prev: "nodes h prev = Some p"
    and path: "path h stack xs" and len: "length xs = unat (depth p)"
    and sep: "prev \<notin> set xs" "slot \<notin> set xs" "prev \<noteq> slot" and ok: "level_ok (unat (depth p)) node"
  obtains h1 h2 stack1 stack2 n1 e where
    "(if depth node > depth p then push_node h stack slot else Ret (OLY_OKAY, stack, h))
       = Ret (OLY_OKAY, stack1, h1)"
    and "pop_levels prev slot (unat (depth p)) h1 stack1 = Ret (OLY_OKAY, h2, stack2)"
    and "path h2 stack2 (stack_after xs (next_node h) node)" and "heap_ok h2"
    and "nodes h2 slot = Some n1" and "\<exists>a. n1 = node\<lparr>parent_node := a\<rparr>"
    and "nodes h2 prev = Some (p\<lparr>collection_end := e\<rparr>)"
    and "\<forall>a. a \<noteq> slot \<and> a \<noteq> prev \<and> a \<noteq> next_node h \<longrightarrow> nodes h2 a = nodes h a"
    and "next_node h \<le> next_node h2"
    and "depth p < depth node \<longrightarrow> stack2 = next_node h
           \<and> (\<exists>c. nodes h2 stack2 = Some c \<and> node_id c = node_id node \<and> depth c = depth node)"
proof (cases "depth node > depth p")
  case True
  then have lt: "unat (depth p) < unat (depth node)" by (simp add: word_less_nat_alt)
  let ?h = "pushed h stack slot node"
  have zero: "stack = 0 \<Longrightarrow> parent_node node = 0"
    using ok lt len path_empty_iff [OF path] by (auto simp: level_ok_def)
  have slot': "nodes ?h slot = Some (linked stack node)"
    using slot h by (auto simp: pushed_def)
  have d: "depth (linked stack node) = depth node" by (simp add: linked_def)
  have np: "prev \<noteq> next_node h" using prev h by auto
  have pr: "nodes ?h prev = Some (p\<lparr>collection_end := collection_end p\<rparr>)"
    using prev sep np by (simp add: pushed_def)
  have push: "(if depth node > depth p then push_node h stack slot else Ret (OLY_OKAY, stack, h))
      = Ret (OLY_OKAY, next_node h, ?h)"
    using True push_node_eq [OF h slot, of stack] by simp
  have pops: "pop_levels prev slot (unat (depth p)) ?h (next_node h) = Ret (OLY_OKAY, ?h, next_node h)"
    using slot' d lt by (intro pop_levels_stay) auto
  have link: "\<exists>a. linked stack node = node\<lparr>parent_node := a\<rparr>"
    by (cases "stack = 0") (auto simp: linked_def intro: exI [of _ "parent_node node"])
  have top: "path ?h (next_node h) (stack_after xs (next_node h) node)"
    using path_pushed [OF h slot path sep(2) zero] lt len by (simp add: stack_after_def)
  have frame: "\<forall>a. a \<noteq> slot \<and> a \<noteq> prev \<and> a \<noteq> next_node h \<longrightarrow> nodes ?h a = nodes h a"
    by (simp add: pushed_def)
  have next_le: "next_node h \<le> next_node ?h" by (simp add: pushed_def)
  have copy: "depth p < depth node \<longrightarrow> next_node h = next_node h
      \<and> (\<exists>c. nodes ?h (next_node h) = Some c \<and> node_id c = node_id node \<and> depth c = depth node)"
    by (simp add: pushed_def copy_node_def linked_def)
  show ?thesis
    by (rule that [OF push pops top heap_ok_pushed [OF h slot] slot' link pr frame next_le copy])
next
  case False
  then have le: "unat (depth node) \<le> unat (depth p)" by (simp add: word_le_nat_alt not_less)
  show ?thesis
  proof (cases "unat (depth node) = unat (depth p)")
    case True
    then show ?thesis
      using False pop_levels_stay [OF slot, of "unat (depth p)" prev stack] h slot prev path len
      by (intro that [of stack h h stack _ "collection_end p"])
        (auto simp: stack_after_def intro: exI [of _ "parent_node node"])
  next
    case lower: False
    then have pos: "1 \<le> unat (depth node)"
      using le ok by (auto simp: level_ok_def)
    obtain e stack' where r: "pop_levels prev slot (unat (depth p)) h stack =
        Ret (OLY_OKAY, h\<lparr>nodes := (nodes h)(prev \<mapsto> p\<lparr>collection_end := e\<rparr>)\<rparr>, stack')"
        "path h stack' (drop (unat (depth p) - unat (depth node)) xs)"
      using pop_levels_close [OF path len slot pos le prev sep(1,3)] by blast
    let ?h = "h\<lparr>nodes := (nodes h)(prev \<mapsto> p\<lparr>collection_end := e\<rparr>)\<rparr>"
    have "prev \<notin> set (stack_after xs (next_node h) node)"
      using sep(1) le len by (auto simp: stack_after_def dest: in_set_dropD)
    then have "path ?h stack' (stack_after xs (next_node h) node)"
      using r(2) len le path_frame [of "stack_after xs (next_node h) node" ?h h stack']
      by (auto simp: stack_after_def)
    moreover have "heap_ok ?h" using h prev by (auto simp: heap_ok_def)
    ultimately show ?thesis
      using False r(1) slot sep(3)
      by (intro that [of stack h ?h stack' node e]) (auto intro: exI [of _ "parent_node node"])
  qed
qed

lemma link_slot_links:
  assumes h: "heap_ok h" and slot: "nodes h slot = Some node" and prev: "nodes h prev = Some p"
    and path: "path h stack xs" and len: "length xs = unat (depth p)"
    and sep: "prev \<notin> set xs" "slot \<notin> set xs" "prev \<noteq> slot" and ok: "level_ok (unat (depth p)) node"
  obtains h' stack' parent e where
    "link_slot prev slot stack h = Ret (OLY_OKAY, h', stack')"
    and "path h' stack' (stack_after xs (next_node h) node)" and "heap_ok h'"
    and "nodes h' slot = Some (node\<lparr>parent_node := parent\<rparr>)"
    and "\<not> is_collection node \<longrightarrow> parent = stack'"
    and "nodes h' prev = Some (p\<lparr>collection_end := e\<rparr>)"
    and "\<forall>a. a \<noteq> slot \<and> a \<noteq> prev \<and> a \<noteq> next_node h \<longrightarrow> nodes h' a = nodes h a"
    and "next_node h \<le> next_node h'"
    and "depth p < depth node \<longrightarrow>
           (\<exists>c. nodes h' stack' = Some c \<and> node_id c = node_id node \<and> depth c = depth node)"
proof -
  obtain h1 h2 stack1 stack2 n1 e a where r:
    "(if depth node > depth p then push_node h stack slot else Ret (OLY_OKAY, stack, h))
       = Ret (OLY_OKAY, stack1, h1)"
    "pop_levels prev slot (unat (depth p)) h1 stack1 = Ret (OLY_OKAY, h2, stack2)"
    "path h2 stack2 (stack_after xs (next_node h) node)" "heap_ok h2"
    "nodes h2 slot = Some n1" "n1 = node\<lparr>parent_node := a\<rparr>"
    "nodes h2 prev = Some (p\<lparr>collection_end := e\<rparr>)"
    "\<forall>a. a \<noteq> slot \<and> a \<noteq> prev \<and> a \<noteq> next_node h \<longrightarrow> nodes h2 a = nodes h a"
    "next_node h \<le> next_node h2"
    "depth p < depth node \<longrightarrow> stack2 = next_node h
       \<and> (\<exists>c. nodes h2 stack2 = Some c \<and> node_id c = node_id node \<and> depth c = depth node)"
    using opened_levels [OF assms] by metis
  have coll: "is_collection n1 = is_collection node" using r(6) by (simp add: is_collection_def)
  obtain parent where parent: "(if is_collection n1 then obind (load_node h2 stack2) (\<lambda>top. Ret (parent_node top))
      else Ret stack2) = Ret parent" "\<not> is_collection node \<longrightarrow> parent = stack2"
  proof (cases "is_collection node")
    case True
    then have "stack_after xs (next_node h) node \<noteq> []"
      using length_stack_after [of xs node "next_node h"] len ok by (auto simp: level_ok_def)
    then obtain y ys where ys: "stack_after xs (next_node h) node = y # ys"
      by (cases "stack_after xs (next_node h) node") auto
    then obtain top where "nodes h2 stack2 = Some top"
      using r(3) path_head by metis
    with True coll that show ?thesis by (simp add: outcome_simps)
  next
    case False
    with coll that show ?thesis by simp
  qed
  let ?n = "node\<lparr>parent_node := parent\<rparr>"
  let ?h = "h2\<lparr>nodes := (nodes h2)(slot \<mapsto> ?n)\<rparr>"
  have link: "link_slot prev slot stack h = Ret (OLY_OKAY, ?h, stack2)"
    using r(1,2,5,6) parent(1) slot prev by (simp add: link_slot_def outcome_simps)
  have "slot \<noteq> next_node h" using slot h by auto
  then have "slot \<notin> set (stack_after xs (next_node h) node)"
    using sep(2) set_stack_after by fastforce
  then have "path ?h stack2 (stack_after xs (next_node h) node)"
    using r(3) path_frame [of "stack_after xs (next_node h) node" ?h h2 stack2] by auto
  moreover have "heap_ok ?h" using r(4,5) by (auto simp: heap_ok_def)
  ultimately show ?thesis
    using link parent(2) r(7-10) sep(3) \<open>slot \<noteq> next_node h\<close> by (intro that [of ?h stack2 parent e]) auto
qed

section \<open>Strings of a queued node\<close>

definition holds :: "string_ptr \<Rightarrow> ochar list \<Rightarrow> bool" where
  "holds s u \<longleftrightarrow> storable u \<and> (\<exists>t. s = SExt (u @ 0 # t))"

definition is_string :: "OlyNode \<Rightarrow> bool" where
  "is_string n \<longleftrightarrow> vtype (nvalue n) = tag_code OLY_TAG_SCALAR_STRING"

definition strings_ok :: "OlyNode \<Rightarrow> bool" where
  \<comment> \<open>the strings a client gives are non-empty and end in a null\<close>
  "strings_ok n \<longleftrightarrow> (key n = SNull \<or> (\<exists>u. holds (key n) u))
     \<and> (is_string n \<longrightarrow> (\<exists>u. holds (as_string (union (nvalue n))) u))"

definition text_need :: "string_ptr \<Rightarrow> nat" where
  "text_need s = (case s of SExt m \<Rightarrow> length (mem_text m) + 2 | _ \<Rightarrow> 0)"

definition strings_need :: "OlyNode \<Rightarrow> nat" where
  "strings_need n = text_need (key n)
     + (if is_string n then text_need (as_string (union (nvalue n))) else 0)"

definition keeps_texts :: "OlyStringBuffer \<Rightarrow> OlyStringBuffer \<Rightarrow> bool" where
  "keeps_texts b b' \<longleftrightarrow> (\<forall>p u. text_at b p u \<longrightarrow> text_at b' p u)"

definition in_buffer :: "OlyStringBuffer \<Rightarrow> string_ptr \<Rightarrow> bool" where
  "in_buffer b s \<longleftrightarrow> (\<exists>p u. s = SBuf p \<and> text_at b p u)"

definition settled :: "OlyStringBuffer \<Rightarrow> OlyNode \<Rightarrow> bool" where
  \<comment> \<open>the strings of a queued node are in the string buffer\<close>
  "settled b n \<longleftrightarrow> (key n = SNull \<or> in_buffer b (key n))
     \<and> (is_string n \<longrightarrow> in_buffer b (as_string (union (nvalue n))))"

lemma keeps_texts_trans: "keeps_texts a b \<Longrightarrow> keeps_texts b c \<Longrightarrow> keeps_texts a c"
  by (simp add: keeps_texts_def)

lemma in_buffer_keep: "keeps_texts b b' \<Longrightarrow> in_buffer b s \<Longrightarrow> in_buffer b' s"
  by (auto simp: keeps_texts_def in_buffer_def)

lemma text_of_keep: "keeps_texts b b' \<Longrightarrow> in_buffer b s \<Longrightarrow> text_of b' s = text_of b s"
  by (auto simp: keeps_texts_def in_buffer_def text_of_at)

lemma settled_keep:
  assumes "keeps_texts b b'" and "settled b n"
  shows "settled b' n \<and> view b' n = view b n"
  using assms in_buffer_keep [OF assms(1)] text_of_keep [OF assms(1)]
  by (auto simp: settled_def view_def is_string_def) (auto simp: text_of_def)

lemma queue_text_stores:
  assumes b: "filling b" and s: "holds s u" and extra: "extra = 0 \<or> extra = 2"
    and room: "length u + 2 < sb_room b"
  obtains b' p where "queue_text (Some b) s extra result = Ret (OLY_OKAY, Some b', True, SBuf p)"
    and "filling b'" and "sb_room b' + (length u + 2) = sb_room b" and "text_at b' p u"
    and "keeps_texts b b'"
proof -
  obtain t where t: "s = SExt (u @ 0 # t)" "storable u" using s by (auto simp: holds_def)
  have "buffer_end b < size_mod" using b by (auto simp: filling_def sb_good_def sb_inv_def sb_shape_def)
  then have "length u + extra + 1 < size_mod" using room extra filling_room [OF b] by auto
  moreover have "length u + extra < sb_room b" "2 \<le> extra \<or> extra = 0 \<and> length u + 1 < sb_room b"
    using room extra by auto
  ultimately obtain b' where q: "queue_string b (u @ 0 # t) extra = Ret (OLY_OKAY, b', Some (write_a b))"
      "filling b'" "write_a b' = write_a b + length u + 2" "buffer_end b' = buffer_end b"
      "text_at b' (write_a b) u" "\<forall>p v. text_at b p v \<longrightarrow> text_at b' p v"
    using queue_string_filling [OF b t(2)] by metis
  show ?thesis
    using q t room filling_room [OF b] filling_room [OF q(2)]
    by (intro that [of b' "write_a b"])
       (simp_all add: queue_text_def string_mem_def keeps_texts_def)
qed

lemma holds_need: "holds s u \<Longrightarrow> text_need s = length u + 2 \<and> text_of b s = Some u"
  by (auto simp: holds_def text_need_def text_of_def storable_def mem_text_terminated)

lemma queue_key_stores:
  assumes slot: "nodes h slot = Some n" and b: "filling b"
    and n: "key n = SNull \<or> (\<exists>u. holds (key n) u)" and room: "text_need (key n) < sb_room b"
  obtains b' k result where
    "queue_key slot (Some b) h = Ret (OLY_OKAY, Some b', h\<lparr>nodes := (nodes h)(slot \<mapsto> n\<lparr>key := k\<rparr>)\<rparr>, result)"
    and "filling b'" and "sb_room b' + text_need (key n) = sb_room b"
    and "text_of b' k = text_of b (key n)" and "k = SNull \<or> in_buffer b' k" and "keeps_texts b b'"
proof (cases "key n = SNull")
  case True
  have same: "h\<lparr>nodes := (nodes h)(slot \<mapsto> n\<lparr>key := SNull\<rparr>)\<rparr> = h"
    using slot True by (simp add: fun_upd_idem)
  have q: "queue_key slot (Some b) h =
      Ret (OLY_OKAY, Some b, h\<lparr>nodes := (nodes h)(slot \<mapsto> n\<lparr>key := SNull\<rparr>)\<rparr>, SWild)"
    unfolding same using slot True by (simp add: queue_key_def outcome_simps)
  show ?thesis
    using that [OF q b] True by (simp add: text_need_def text_of_def keeps_texts_def)
next
  case False
  then obtain u where u: "holds (key n) u" using n by auto
  note need = holds_need [OF u, of b]
  obtain b' p where q: "queue_text (Some b) (key n) 2 SWild = Ret (OLY_OKAY, Some b', True, SBuf p)"
      "filling b'" "sb_room b' + (length u + 2) = sb_room b" "text_at b' p u" "keeps_texts b b'"
    using queue_text_stores [OF b u, of 2] room need by auto
  have "queue_key slot (Some b) h =
      Ret (OLY_OKAY, Some b', h\<lparr>nodes := (nodes h)(slot \<mapsto> n\<lparr>key := SBuf p\<rparr>)\<rparr>, SBuf p)"
    using slot False q(1) by (simp add: queue_key_def outcome_simps)
  from that [OF this q(2)] show ?thesis
    using q need text_of_at [OF q(4)] by (auto simp: in_buffer_def)
qed

lemma queue_value_stores:
  assumes slot: "nodes h slot = Some n" and b: "filling b"
    and n: "is_string n \<longrightarrow> (\<exists>u. holds (as_string (union (nvalue n))) u)"
    and room: "is_string n \<longrightarrow> text_need (as_string (union (nvalue n))) < sb_room b"
  obtains b' v where
    "queue_value slot (Some b) h result =
       Ret (OLY_OKAY, Some b', h\<lparr>nodes := (nodes h)(slot \<mapsto> n\<lparr>nvalue := v\<rparr>)\<rparr>)"
    and "filling b'" and "vtype v = vtype (nvalue n)" and "keeps_texts b b'"
    and "sb_room b' + (if is_string n then text_need (as_string (union (nvalue n))) else 0) = sb_room b"
    and "is_string n \<longrightarrow> in_buffer b' (as_string (union v))
           \<and> text_of b' (as_string (union v)) = text_of b (as_string (union (nvalue n)))"
    and "\<not> is_string n \<longrightarrow> v = nvalue n"
proof (cases "is_string n")
  case False
  have same: "h\<lparr>nodes := (nodes h)(slot \<mapsto> n\<lparr>nvalue := nvalue n\<rparr>)\<rparr> = h"
    using slot by (simp add: fun_upd_idem)
  have q: "queue_value slot (Some b) h result =
      Ret (OLY_OKAY, Some b, h\<lparr>nodes := (nodes h)(slot \<mapsto> n\<lparr>nvalue := nvalue n\<rparr>)\<rparr>)"
    unfolding same using slot False by (simp add: queue_value_def outcome_simps is_string_def)
  show ?thesis using that [OF q b] False by (simp add: keeps_texts_def)
next
  case True
  then obtain u where u: "holds (as_string (union (nvalue n))) u" using n by auto
  note need = holds_need [OF u, of b]
  obtain b' p where q: "queue_text (Some b) (as_string (union (nvalue n))) 0 result
        = Ret (OLY_OKAY, Some b', True, SBuf p)"
      "filling b'" "sb_room b' + (length u + 2) = sb_room b" "text_at b' p u" "keeps_texts b b'"
    using queue_text_stores [OF b u, of 0] room need True by auto
  have "queue_value slot (Some b) h result =
      Ret (OLY_OKAY, Some b', h\<lparr>nodes := (nodes h)(slot \<mapsto>
        n\<lparr>nvalue := (nvalue n)\<lparr>union := String_value (SBuf p)\<rparr>\<rparr>)\<rparr>)"
    using slot True q(1) by (simp add: queue_value_def outcome_simps is_string_def)
  from that [OF this q(2)] show ?thesis
    using q need text_of_at [OF q(4)] True by (auto simp: in_buffer_def)
qed

section \<open>The invariant of the queue\<close>

text \<open>
  \<open>xs\<close> are the nodes of the stack: one for each level of the node queued last. Only the slots
  in use need to be part of the heap, as \<open>open_node_queue\<close> does not allocate them all.
\<close>

definition q_inv :: "OlyNodeQueue \<Rightarrow> node_heap \<Rightarrow> addr list \<Rightarrow> OlyStringBuffer \<Rightarrow> bool" where
  "q_inv q h xs b \<longleftrightarrow> ring_ok q \<and> heap_ok h \<and> queue_end q < next_node h
     \<and> 0 < queue_start q \<and> nodes h (q_out q) \<noteq> None
     \<and> q_strings q = Some b \<and> filling b \<and> path h (q_stack q) xs \<and> set xs \<inter> ring q = {}
     \<and> (\<exists>p. nodes h (q_in q) = Some p \<and> length xs = unat (depth p))
     \<and> (\<forall>a\<in>set (slots q). \<exists>n. nodes h a = Some n \<and> settled b n)"

definition items :: "OlyNodeQueue \<Rightarrow> node_heap \<Rightarrow> node_view list" where
  "items q h = (case q_strings q of None \<Rightarrow> []
     | Some b \<Rightarrow> map (\<lambda>a. view b (the (nodes h a))) (slots q))"

text \<open>What a client must respect when it enqueues \<open>n\<close>.\<close>

definition node_ok :: "nat \<Rightarrow> OlyNode \<Rightarrow> bool" where
  "node_ok d n \<longleftrightarrow> level_ok d n \<and> strings_ok n"

section \<open>Enqueue and dequeue\<close>

lemma q_invD:
  assumes "q_inv q h xs b"
  shows "ring_ok q" and "heap_ok h" and "queue_end q < next_node h \<and> 0 < queue_start q \<and> nodes h (q_out q) \<noteq> None" and "q_strings q = Some b"
    and "filling b" and "path h (q_stack q) xs" and "set xs \<inter> ring q = {}"
    and "\<exists>p. nodes h (q_in q) = Some p \<and> length xs = unat (depth p)"
    and "a \<in> set (slots q) \<Longrightarrow> \<exists>n. nodes h a = Some n \<and> settled b n"
  using assms unfolding q_inv_def by blast+

lemma slots_update [simp]:
  "slots (q\<lparr>q_stack := stack\<rparr>) = slots q" "slots (q\<lparr>q_strings := strings\<rparr>) = slots q"
  by (simp_all add: slots_def del: upt_Suc)

lemma map_view_keep:
  assumes "keeps_texts b b'" and "\<forall>a\<in>set as. \<exists>n. nodes h a = Some n \<and> settled b n"
    and "\<forall>a\<in>set as. \<exists>n m. nodes h a = Some n \<and> nodes h' a = Some m \<and> view b m = view b n
           \<and> (settled b n \<longrightarrow> settled b m)"
  shows "(\<forall>a\<in>set as. \<exists>n. nodes h' a = Some n \<and> settled b' n)
    \<and> map (\<lambda>a. view b' (the (nodes h' a))) as = map (\<lambda>a. view b (the (nodes h a))) as"
  using assms settled_keep [OF assms(1)] by (induction as) fastforce+

lemma view_links [simp]:
  "view b (n\<lparr>parent_node := a\<rparr>) = view b n" "view b (n\<lparr>collection_end := e\<rparr>) = view b n"
  "settled b (n\<lparr>parent_node := a\<rparr>) = settled b n" "settled b (n\<lparr>collection_end := e\<rparr>) = settled b n"
  by (simp_all add: view_def settled_def is_string_def)

lemma view_copy [simp]: "view b (copy_node n d) = view b n"
  by (simp add: view_def copy_node_def)

lemma level_ok_copy [simp]: "level_ok d (copy_node n m) = level_ok d n"
  by (simp add: level_ok_def is_collection_def copy_node_def)

lemma stack_after_copy [simp]: "stack_after xs new (copy_node n m) = stack_after xs new n"
  by (simp add: stack_after_def copy_node_def)

text \<open>Storing the strings of a slot: its view stays, and its strings are in the buffer.\<close>

lemma slot_strings_stored:
  assumes slot: "nodes h slot = Some n" and b: "filling b" and ok: "strings_ok n"
    and room: "strings_need n < sb_room b"
  obtains b1 b2 h1 h2 result m where
    "queue_key slot (Some b) h = Ret (OLY_OKAY, Some b1, h1, result)"
    and "queue_value slot (Some b1) h1 result = Ret (OLY_OKAY, Some b2, h2)"
    and "h2 = h\<lparr>nodes := (nodes h)(slot \<mapsto> m)\<rparr>" and "filling b2" and "keeps_texts b b2"
    and "sb_room b2 + strings_need n = sb_room b" and "settled b2 m" and "view b2 m = view b n"
    and "depth m = depth n" and "parent_node m = parent_node n" and "is_collection m = is_collection n"
proof -
  have need: "text_need (key n) < sb_room b" using room by (simp add: strings_need_def)
  have key_ok: "key n = SNull \<or> (\<exists>u. holds (key n) u)" using ok by (simp add: strings_ok_def)
  obtain b1 k result where k: "queue_key slot (Some b) h =
        Ret (OLY_OKAY, Some b1, h\<lparr>nodes := (nodes h)(slot \<mapsto> n\<lparr>key := k\<rparr>)\<rparr>, result)"
      "filling b1" "sb_room b1 + text_need (key n) = sb_room b"
      "text_of b1 k = text_of b (key n)" "k = SNull \<or> in_buffer b1 k" "keeps_texts b b1"
    using queue_key_stores [OF slot b key_ok need] by metis
  let ?h1 = "h\<lparr>nodes := (nodes h)(slot \<mapsto> n\<lparr>key := k\<rparr>)\<rparr>" and ?n1 = "n\<lparr>key := k\<rparr>"
  have slot1: "nodes ?h1 slot = Some ?n1" by simp
  have str: "is_string ?n1 = is_string n" by (simp add: is_string_def)
  have val_ok: "is_string ?n1 \<longrightarrow> (\<exists>u. holds (as_string (union (nvalue ?n1))) u)"
    using ok str by (simp add: strings_ok_def)
  have val_room: "is_string ?n1 \<longrightarrow> text_need (as_string (union (nvalue ?n1))) < sb_room b1"
    using room k(3) str by (auto simp: strings_need_def)
  obtain b2 v where v: "queue_value slot (Some b1) ?h1 result =
        Ret (OLY_OKAY, Some b2, ?h1\<lparr>nodes := (nodes ?h1)(slot \<mapsto> ?n1\<lparr>nvalue := v\<rparr>)\<rparr>)"
      "filling b2" "vtype v = vtype (nvalue ?n1)" "keeps_texts b1 b2"
      "sb_room b2 + (if is_string ?n1 then text_need (as_string (union (nvalue ?n1))) else 0) = sb_room b1"
      "is_string ?n1 \<longrightarrow> in_buffer b2 (as_string (union v))
         \<and> text_of b2 (as_string (union v)) = text_of b1 (as_string (union (nvalue ?n1)))"
      "\<not> is_string ?n1 \<longrightarrow> v = nvalue ?n1"
    using queue_value_stores [OF slot1 k(2) val_ok val_room] by metis
  let ?m = "n\<lparr>key := k, nvalue := v\<rparr>"
  have key2: "text_of b2 k = text_of b (key n)" "k = SNull \<or> in_buffer b2 k"
    using k(4,5) v(4) text_of_keep [OF v(4), of k] in_buffer_keep [OF v(4), of k]
    by (auto simp: text_of_def)
  have ext: "text_of b1 (as_string (union (nvalue n))) = text_of b (as_string (union (nvalue n)))"
    if "is_string n"
    using ok that by (auto simp: strings_ok_def holds_def text_of_def)
  have "settled b2 ?m \<and> view b2 ?m = view b n"
    using key2 v ext str by (auto simp: settled_def view_def is_string_def)
  moreover have "sb_room b2 + strings_need n = sb_room b"
    using k(3) v(5) str by (cases "is_string n") (simp_all add: strings_need_def)
  ultimately show ?thesis
    using k(1) v(1-3) str keeps_texts_trans [OF k(6) v(4)]
    by (intro that [of b1 ?h1 result b2 "h\<lparr>nodes := (nodes h)(slot \<mapsto> ?m)\<rparr>" ?m])
       (simp_all add: is_collection_def)
qed

lemma enqueue_node:
  assumes inv: "q_inv q h xs b" and source: "nodes h a = Some n" and ok: "node_ok (length xs) n"
    and step: "step_in q = Some slot" and alloc: "nodes h slot \<noteq> None" and room: "strings_need n < sb_room b"
  obtains q' h' b' m where
    "enqueue_to_node_queue q h a = Ret (OLY_OKAY, q', h')"
    and "q_inv q' h' (stack_after xs (next_node h) n) b'" and "items q' h' = items q h @ [view b n]"
    and "sb_room b' + strings_need n = sb_room b" and "q_in q' = slot" and "nodes h' slot = Some m"
    and "\<not> is_collection n \<longrightarrow> parent_node m = q_stack q'"
    and "\<forall>c. c \<noteq> slot \<and> c \<noteq> q_in q \<and> c \<noteq> next_node h \<longrightarrow> nodes h' c = nodes h c"
    and "length xs < unat (depth n) \<longrightarrow>
           (\<exists>c. nodes h' (q_stack q') = Some c \<and> node_id c = node_id n \<and> depth c = depth n)"
    and "ring q' = ring q" and "q_out q' = q_out q" and "next_node h \<le> next_node h'"
    and "\<forall>c. nodes h c \<noteq> None \<longrightarrow> nodes h' c \<noteq> None"
proof -
  note I = q_invD [OF inv]
  note S = step_in_slots [OF I(1) step]
  obtain p where p: "nodes h (q_in q) = Some p" "length xs = unat (depth p)" using I(8) by blast
  obtain d where d: "nodes h slot = Some d" using alloc by blast
  have in_ring: "q_in q \<in> ring q" using I(1) by (simp add: ring_ok_def)
  let ?n = "copy_node n d" and ?h0 = "h\<lparr>nodes := (nodes h)(slot \<mapsto> copy_node n d)\<rparr>"
  have h0: "heap_ok ?h0" "nodes ?h0 slot = Some ?n" "nodes ?h0 (q_in q) = Some p"
    using I(2) d p S by (auto simp: heap_ok_def)
  have sep: "q_in q \<notin> set xs" "slot \<notin> set xs" "q_in q \<noteq> slot"
    using I(7) in_ring S by auto
  have path0: "path ?h0 (q_stack q) xs"
    using I(6) sep(2) path_frame [of xs ?h0 h "q_stack q"] by auto
  have lev: "level_ok (unat (depth p)) ?n" using ok p(2) by (simp add: node_ok_def)
  obtain h1 stack parent e where L:
      "link_slot (q_in q) slot (q_stack q) ?h0 = Ret (OLY_OKAY, h1, stack)"
      "path h1 stack (stack_after xs (next_node ?h0) ?n)" "heap_ok h1"
      "nodes h1 slot = Some (?n\<lparr>parent_node := parent\<rparr>)"
      "\<not> is_collection ?n \<longrightarrow> parent = stack"
      "nodes h1 (q_in q) = Some (p\<lparr>collection_end := e\<rparr>)"
      "\<forall>c. c \<noteq> slot \<and> c \<noteq> q_in q \<and> c \<noteq> next_node ?h0 \<longrightarrow> nodes h1 c = nodes ?h0 c"
      "next_node ?h0 \<le> next_node h1"
      "depth p < depth ?n \<longrightarrow>
         (\<exists>c. nodes h1 stack = Some c \<and> node_id c = node_id ?n \<and> depth c = depth ?n)"
    by (rule link_slot_links [OF h0 path0 p(2) sep lev])
  let ?n1 = "?n\<lparr>parent_node := parent\<rparr>" and ?xs = "stack_after xs (next_node h) n"
  have strs: "strings_ok ?n1" "strings_need ?n1 = strings_need n"
    using ok by (simp_all add: node_ok_def strings_ok_def strings_need_def copy_node_def is_string_def)
  obtain b1 b2 h1' h2 result m where T:
      "queue_key slot (Some b) h1 = Ret (OLY_OKAY, Some b1, h1', result)"
      "queue_value slot (Some b1) h1' result = Ret (OLY_OKAY, Some b2, h2)"
      "h2 = h1\<lparr>nodes := (nodes h1)(slot \<mapsto> m)\<rparr>" "filling b2" "keeps_texts b b2"
      "sb_room b2 + strings_need ?n1 = sb_room b" "settled b2 m" "view b2 m = view b ?n1"
      "depth m = depth ?n1" "parent_node m = parent_node ?n1" "is_collection m = is_collection ?n1"
    by (rule slot_strings_stored [OF L(4) I(5) strs(1)]) (use room strs(2) in simp)
  let ?q = "q\<lparr>q_in := slot, q_stack := stack, q_strings := Some b2\<rparr>"
  have run: "enqueue_to_node_queue q h a = Ret (OLY_OKAY, ?q, h2)"
    using step source d L(1) T(1,2) I(4)
    by (simp add: enqueue_to_node_queue_def outcome_simps Let_def)
  have fresh: "next_node h \<notin> ring q" using I(3) by (simp add: ring_def)
  have ring': "ring ?q = ring q" by (simp add: ring_def)
  have slots': "slots ?q = slots q @ [slot]"
    using S by simp
  have frame: "nodes h2 c = nodes h c" if "c \<noteq> slot" "c \<noteq> q_in q" "c \<noteq> next_node h" for c
    using that L(7) T(3) by auto
  have old: "\<exists>n m. nodes h c = Some n \<and> nodes h2 c = Some m \<and> view b m = view b n
      \<and> (settled b n \<longrightarrow> settled b m)" if "c \<in> set (slots q)" for c
  proof (cases "c = q_in q")
    case True
    then show ?thesis using p(1) L(6) T(3) sep(3) by auto
  next
    case False
    have "c \<noteq> slot" "c \<noteq> next_node h" using that S fresh slots_in_ring [OF I(1)] by auto
    then show ?thesis using False I(9) [OF that] L(7) T(3) by auto
  qed
  note K = map_view_keep [OF T(5), of "slots q" h h2]
  have keep: "(\<forall>c\<in>set (slots q). \<exists>n. nodes h2 c = Some n \<and> settled b2 n)
      \<and> map (\<lambda>c. view b2 (the (nodes h2 c))) (slots q) = map (\<lambda>c. view b (the (nodes h c))) (slots q)"
    using K old I(9) by blast
  have slot2: "nodes h2 slot = Some m" using T(3) by simp
  have view_m: "view b2 m = view b n" using T(8) by simp
  have sep2: "slot \<notin> set ?xs" "set ?xs \<inter> ring q = {}"
    using set_stack_after [of xs "next_node h" n] I(7) fresh S by auto
  have path2: "path h2 stack ?xs"
    using L(2) T(3) sep2(1) path_frame [of ?xs h2 h1 stack] by auto
  have len2: "length ?xs = unat (depth m)"
    using length_stack_after [of xs n "next_node h"] ok T(9) by (simp add: node_ok_def copy_node_def)
  have grown: "next_node h \<le> next_node h2" using L(8) T(3) by simp
  have out2: "nodes h2 (q_out q) \<noteq> None"
  proof (cases "q_out q = slot \<or> q_out q = q_in q")
    case True
    then show ?thesis using slot2 L(6) T(3) by auto
  next
    case False
    have "q_out q \<noteq> next_node h" using I(1,3) by (auto simp: ring_ok_def ring_def)
    then show ?thesis using False I(3) L(7) T(3) by auto
  qed
  have heap2: "heap_ok h2"
    using L(3,4) T(3) by (auto simp: heap_ok_def)
  have "ring_ok ?q" using I(1) S by (simp add: ring_ok_def ring_def)
  then have "q_inv ?q h2 ?xs b2"
    using heap2 out2 grown I(3) T(4,7) path2 sep2(2) slot2 len2 keep slots' ring'
    by (simp add: q_inv_def)
  moreover have "items ?q h2 = items q h @ [view b n]"
    using keep slots' slot2 view_m I(4) by (simp add: items_def)
  moreover have "\<not> is_collection n \<longrightarrow> parent_node m = stack"
    using L(5) T(10) by (simp add: is_collection_def copy_node_def)
  moreover have "length xs < unat (depth n) \<longrightarrow>
      (\<exists>c. nodes h2 stack = Some c \<and> node_id c = node_id n \<and> depth c = depth n)"
  proof
    assume deeper: "length xs < unat (depth n)"
    then have "stack \<noteq> slot"
      using L(2) sep2(1) by (simp add: stack_after_def copy_node_def)
    then show "\<exists>c. nodes h2 stack = Some c \<and> node_id c = node_id n \<and> depth c = depth n"
      using L(9) T(3) p(2) deeper by (auto simp: copy_node_def word_less_nat_alt)
  qed
  moreover have "\<forall>c. nodes h c \<noteq> None \<longrightarrow> nodes h2 c \<noteq> None"
  proof (intro allI impI)
    fix c assume c: "nodes h c \<noteq> None"
    then have "c \<noteq> next_node h" using I(2) by (auto simp: heap_ok_def)
    with c show "nodes h2 c \<noteq> None"
      using frame [of c] slot2 L(6) T(3) sep(3) by (cases "c = slot \<or> c = q_in q") auto
  qed
  ultimately show ?thesis
    using run T(6) strs(2) slot2 frame ring' grown by (intro that [of ?q h2 b2 m]) simp_all
qed

lemma dequeue_node:
  assumes inv: "q_inv q h xs b" and s: "slots q = s # ss" and out: "nodes h c = Some dest"
    and sep: "c \<notin> ring q" "c \<notin> set xs"
  obtains h' m where
    "dequeue_from_node_queue q h c = Ret (OLY_OKAY, q\<lparr>q_out := s\<rparr>, h')"
    and "q_inv (q\<lparr>q_out := s\<rparr>) h' xs b" and "items q h = view b m # items (q\<lparr>q_out := s\<rparr>) h'"
    and "nodes h' c = Some m" and "\<forall>a. a \<notin> ring q \<and> a \<noteq> c \<longrightarrow> nodes h' a = nodes h a"
    and "settled b m" and "\<forall>x. nodes h x \<noteq> None \<longrightarrow> nodes h' x \<noteq> None"
proof -
  note I = q_invD [OF inv]
  note S = step_out_slots [OF I(1) s]
  let ?q = "q\<lparr>q_out := s\<rparr>"
  obtain n where n: "nodes h s = Some n" "settled b n" using I(9) [of s] s by auto
  have out_ring: "q_out q \<in> ring q" using I(1) by (simp add: ring_ok_def)
  have s_ring: "s \<in> ring q" using slots_in_ring [OF I(1)] s by auto
  obtain o' where o': "nodes h (q_out q) = Some o'" using I(3) by blast
  let ?m = "copy_node n dest"
  let ?h1 = "h\<lparr>nodes := (nodes h)(c \<mapsto> ?m)\<rparr>"
  let ?h2 = "?h1\<lparr>nodes := (nodes ?h1)(q_out q \<mapsto> reset_node o')\<rparr>"
  have ne: "c \<noteq> q_out q" using sep out_ring by auto
  have run: "dequeue_from_node_queue q h c = Ret (OLY_OKAY, ?q, ?h2)"
    using S n out o' ne by (simp add: dequeue_from_node_queue_def outcome_simps)
  have keep: "nodes ?h2 a = nodes h a" if "a \<in> set (slots q)" for a
    using that S sep slots_in_ring [OF I(1)] by auto
  have "q_inv ?q ?h2 xs b"
  proof -
    have "heap_ok ?h2" using I(2) out o' by (auto simp: heap_ok_def)
    moreover have "nodes ?h2 (q_out ?q) \<noteq> None" using n by simp
    moreover have "path ?h2 (q_stack ?q) xs"
    proof -
      have "\<forall>x\<in>set xs. nodes ?h2 x = nodes h x" using I(7) sep out_ring by auto
      from path_frame [OF this] I(6) show ?thesis by simp
    qed
    moreover have "\<exists>p. nodes ?h2 (q_in ?q) = Some p \<and> length xs = unat (depth p)"
    proof (cases "q_in q = q_out q")
      case True
      then show ?thesis using I(8) o' by (auto simp: reset_node_def)
    next
      case False
      have "q_in q \<in> ring q" using I(1) by (simp add: ring_ok_def)
      then have "q_in q \<noteq> c" using sep by auto
      then show ?thesis using I(8) False by auto
    qed
    moreover have "\<forall>a\<in>set (slots ?q). \<exists>n. nodes ?h2 a = Some n \<and> settled b n"
    proof
      fix a assume "a \<in> set (slots ?q)"
      then have "a \<in> set (slots q)" using S s by simp
      then show "\<exists>n. nodes ?h2 a = Some n \<and> settled b n" using keep I(9) by metis
    qed
    moreover have "ring ?q = ring q" by (simp add: ring_def)
    ultimately show ?thesis using S I by (simp add: q_inv_def del: fun_upd_apply)
  qed
  moreover have "items q h = view b ?m # items ?q ?h2"
  proof -
    have "map (\<lambda>a. view b (the (nodes ?h2 a))) ss = map (\<lambda>a. view b (the (nodes h a))) ss"
      using keep s by (intro map_cong) auto
    then show ?thesis using S s n(1) I(4) by (simp add: items_def del: fun_upd_apply)
  qed
  moreover have "settled b ?m" using n(2) by (simp add: settled_def is_string_def copy_node_def)
  moreover have "\<forall>a. a \<notin> ring q \<and> a \<noteq> c \<longrightarrow> nodes ?h2 a = nodes h a" using out_ring by auto
  moreover have "nodes ?h2 c = Some ?m" using ne by simp
  moreover have "\<forall>x. nodes h x \<noteq> None \<longrightarrow> nodes ?h2 x \<noteq> None" by simp
  ultimately show ?thesis using run that by blast
qed

section \<open>Opening\<close>

lemma open_node_queue_inv:
  assumes h: "heap_ok h" and n: "sizeof_OlyNode * sizeof_OlyNode \<le> n" "2 * n < size_mod"
    and junk: "depth (junk (next_node h)) = 0"
  obtains q h' b where "open_node_queue (OLY_OKAY, n) junk cells h = Ret (OLY_OKAY, q, h')"
    and "q_inv q h' [] b" and "slots q = []" and "sb_room b = n - 2" and "q_stack q = 0"
    and "q_in q = next_node h" and "q_out q = next_node h" and "queue_start q = next_node h"
    and "queue_end q = next_node h + n div 64" and "next_node h' = Suc (queue_end q)"
    and "\<forall>a. nodes h' a \<noteq> None \<longleftrightarrow>
           nodes h a \<noteq> None \<or> next_node h \<le> a \<and> a < next_node h + n div 64 div 64"
    and "\<forall>a < next_node h. nodes h' a = nodes h a"
proof -
  have n2: "2 \<le> n" "64 \<le> n div 64" "1 \<le> n div 64 div 64" using n by (simp_all add: sizeof_OlyNode_def)
  have le: "n div 64 div 64 \<le> n div 64" by simp
  obtain b where b: "open_string_buffer (OLY_OKAY, n) cells = Ret (OLY_OKAY, Some b)" "sb_good b"
      "sb_room b = n - 2"
    using open_string_buffer_good [OF n2(1) n(2)] by blast
  have "filling b"
    using b by (auto simp: filling_def open_string_buffer_def Let_def outcome_simps split: if_splits)
  let ?s = "next_node h"
  let ?q = "\<lparr>queue_size = n, key_max_length = MAX_KEY_LENGTH, q_in = ?s, q_out = ?s, q_stack = 0,
      queue_start = ?s, queue_end = ?s + n div 64, q_strings = Some b\<rparr>"
  let ?h = "h\<lparr>nodes := (\<lambda>a. if ?s \<le> a \<and> a < ?s + n div 64 div 64 then Some (junk a) else nodes h a),
      next_node := Suc (?s + n div 64)\<rparr>"
  have run: "open_node_queue (OLY_OKAY, n) junk cells h = Ret (OLY_OKAY, ?q, ?h)"
    using b(1) by (simp add: open_node_queue_def Let_def sizeof_OlyNode_def slots_allocated_def
        slot_count_def)
  have "heap_ok ?h" using h n2 le by (fastforce simp: heap_ok_def)
  then have "q_inv ?q ?h [] b"
    using n2 h junk \<open>filling b\<close>
    by (simp add: q_inv_def ring_ok_def ring_def slots_def heap_ok_def)
  moreover have "slots ?q = []" by (simp add: slots_def)
  ultimately show ?thesis
    using run b(3) by (intro that [of ?q ?h b]) auto
qed

text \<open>
  Only \<open>queue_size / sizeof(OlyNode)\<^sup>2\<close> of the slots of the ring are allocated; with the
  default size these are two, the first of which is never filled.
\<close>

lemma unallocated_slot_crashes:
  "step_in q = Some slot \<Longrightarrow> nodes h slot = None \<Longrightarrow> enqueue_to_node_queue q h a = Crash"
  by (cases "nodes h a") (simp_all add: enqueue_to_node_queue_def Let_def load_node_def)

lemma default_queue_second_enqueue:
  assumes h: "heap_ok h" and junk: "depth (junk (next_node h)) = 0"
    and a: "nodes h a = Some n" and ok: "node_ok 0 n" and room: "strings_need n < BUFSIZ - 2"
  obtains q h1 q' h2 where
    "open_node_queue (OLY_OKAY, BUFSIZ) junk cells h = Ret (OLY_OKAY, q, h1)"
    and "enqueue_to_node_queue q h1 a = Ret (OLY_OKAY, q', h2)" and "items q' h2 \<noteq> []"
    and "\<forall>c. enqueue_to_node_queue q' h2 c = Crash"
proof -
  have size: "sizeof_OlyNode * sizeof_OlyNode \<le> BUFSIZ" "2 * BUFSIZ < size_mod"
    by (simp_all add: BUFSIZ_def sizeof_OlyNode_def size_mod_def)
  obtain q h1 b where o': "open_node_queue (OLY_OKAY, BUFSIZ) junk cells h = Ret (OLY_OKAY, q, h1)"
      "q_inv q h1 [] b" "slots q = []" "sb_room b = BUFSIZ - 2" "q_stack q = 0"
      "q_in q = next_node h" "q_out q = next_node h" "queue_start q = next_node h"
      "queue_end q = next_node h + BUFSIZ div 64" "next_node h1 = Suc (queue_end q)"
      "\<forall>a. nodes h1 a \<noteq> None \<longleftrightarrow>
         nodes h a \<noteq> None \<or> next_node h \<le> a \<and> a < next_node h + BUFSIZ div 64 div 64"
      "\<forall>a < next_node h. nodes h1 a = nodes h a"
    by (rule open_node_queue_inv [where junk = junk and cells = cells, OF h size junk])
  let ?s = "next_node h"
  have step: "step_in q = Some (Suc ?s)" using o' by (simp add: step_in_def BUFSIZ_def)
  have mapped: "nodes h1 (Suc ?s) \<noteq> None" "nodes h1 (Suc (Suc ?s)) = None"
  proof -
    have "nodes h (Suc (Suc ?s)) = None" using h by (auto simp: heap_ok_def)
    then show "nodes h1 (Suc ?s) \<noteq> None" "nodes h1 (Suc (Suc ?s)) = None"
      using o'(11) [rule_format, of "Suc ?s"] o'(11) [rule_format, of "Suc (Suc ?s)"]
      by (simp_all add: BUFSIZ_def)
  qed
  have a1: "nodes h1 a = Some n" using o'(12) a heap_okD [OF h a] by simp
  have ok0: "node_ok (length ([]::addr list)) n" using ok by simp
  have room0: "strings_need n < sb_room b" using room o'(4) by simp
  obtain q' h2 b' m where r: "enqueue_to_node_queue q h1 a = Ret (OLY_OKAY, q', h2)"
      "q_inv q' h2 (stack_after [] (next_node h1) n) b'" "items q' h2 = items q h1 @ [view b n]"
      "sb_room b' + strings_need n = sb_room b" "q_in q' = Suc ?s" "nodes h2 (Suc ?s) = Some m"
      "\<not> is_collection n \<longrightarrow> parent_node m = q_stack q'"
      "\<forall>c. c \<noteq> (Suc ?s) \<and> c \<noteq> q_in q \<and> c \<noteq> next_node h1 \<longrightarrow> nodes h2 c = nodes h1 c"
      "length ([]::addr list) < unat (depth n) \<longrightarrow>
           (\<exists>c. nodes h2 (q_stack q') = Some c \<and> node_id c = node_id n \<and> depth c = depth n)"
      "ring q' = ring q" "q_out q' = q_out q" "next_node h1 \<le> next_node h2"
      "\<forall>c. nodes h1 c \<noteq> None \<longrightarrow> nodes h2 c \<noteq> None"
    by (rule enqueue_node [OF o'(2) a1 ok0 step mapped(1) room0])
  have "queue_start q \<le> queue_end q" using o' by simp
  with r(10) have ends: "queue_start q' = queue_start q" "queue_end q' = queue_end q"
    by (auto simp: ring_def Icc_eq_Icc)
  have "step_in q' = Some (Suc (Suc ?s))"
    using r(5,11) ends o' by (simp add: step_in_def BUFSIZ_def)
  moreover have "nodes h2 (Suc (Suc ?s)) = None"
    using r(8) mapped(2) o'(6,9,10) by (simp add: BUFSIZ_def)
  ultimately have "\<forall>c. enqueue_to_node_queue q' h2 c = Crash"
    using unallocated_slot_crashes by blast
  then show ?thesis using that o'(1) r(1,3) by simp
qed

section \<open>Nodes the queue cannot take\<close>

lemma top_level_collection_crashes:
  assumes inv: "q_inv q h [] b" and a: "nodes h a = Some n" and n: "is_collection n" "depth n = 0"
    and step: "step_in q = Some slot"
  shows "enqueue_to_node_queue q h a = Crash"
proof (cases "nodes h slot")
  case None
  with step show ?thesis by (rule unallocated_slot_crashes)
next
  case (Some d)
  note I = q_invD [OF inv] and S = step_in_slots [OF q_invD(1) [OF inv] step]
  obtain p where p: "nodes h (q_in q) = Some p" "depth p = 0"
    using I(8) by (auto simp: unat_eq_0)
  let ?h = "h\<lparr>nodes := (nodes h)(slot \<mapsto> copy_node n d)\<rparr>"
  have stack: "q_stack q = 0" using I(6) by simp
  have "heap_ok ?h" using I(2) Some by (auto simp: heap_ok_def)
  then have null: "load_node ?h 0 = Crash" by (simp add: outcome_simps)
  have coll: "is_collection (copy_node n d)" "depth (copy_node n d) = 0"
    using n by (simp_all add: is_collection_def copy_node_def)
  have "link_slot (q_in q) slot (q_stack q) ?h = Crash"
    using p S coll stack null by (simp add: link_slot_def outcome_simps)
  then show ?thesis
    using step a Some by (simp add: enqueue_to_node_queue_def outcome_simps Let_def)
qed

lemma return_to_top_fails:
  assumes inv: "q_inv q h [x] b" and a: "nodes h a = Some n" and n: "depth n = 0"
    and step: "step_in q = Some slot" and alloc: "nodes h slot \<noteq> None"
  obtains q' h' m where "enqueue_to_node_queue q h a = Ret (OLY_ERR_NODES_TOO_SHALLOW, q', h')"
    and "slots q' = slots q @ [slot]" and "nodes h' slot = Some m" and "node_id m = node_id n"
proof -
  note I = q_invD [OF inv] and S = step_in_slots [OF q_invD(1) [OF inv] step]
  obtain d where d: "nodes h slot = Some d" using alloc by blast
  obtain p where p: "nodes h (q_in q) = Some p" "unat (depth p) = 1" using I(8) by auto
  obtain top where top: "nodes h x = Some top" "q_stack q = x" "parent_node top = 0"
    using I(6) by (auto split: option.splits)
  have in_ring: "q_in q \<in> ring q" using I(1) by (simp add: ring_ok_def)
  let ?h = "h\<lparr>nodes := (nodes h)(slot \<mapsto> copy_node n d)\<rparr>"
  let ?h1 = "?h\<lparr>nodes := (nodes ?h)(q_in q \<mapsto> p\<lparr>collection_end := True\<rparr>)\<rparr>"
  have x: "x \<noteq> slot" "x \<noteq> q_in q" using I(7) S in_ring by auto
  have c: "depth (copy_node n d) = 0" using n by (simp add: copy_node_def)
  have x1: "nodes ?h1 x = Some top" using top x by simp
  have pops: "pop_levels (q_in q) slot (Suc 0) ?h x = Ret (OLY_ERR_NODES_TOO_SHALLOW, ?h1, x)"
    using pop_node_last [OF x1 top(3), of 0 True] p(1) c S by (simp add: outcome_simps)
  have up: "\<not> depth (copy_node n d) > depth p" using c by simp
  have "link_slot (q_in q) slot (q_stack q) ?h = Ret (OLY_ERR_NODES_TOO_SHALLOW, ?h1, x)"
    using pops p up top(2) S by (simp add: link_slot_def outcome_simps)
  then have run: "enqueue_to_node_queue q h a = Ret (OLY_ERR_NODES_TOO_SHALLOW,
      q\<lparr>q_in := slot, q_stack := x\<rparr>, ?h1)"
    using step a d by (simp add: enqueue_to_node_queue_def outcome_simps Let_def)
  show ?thesis
    using S by (intro that [OF run, of "copy_node n d"]) (simp_all add: copy_node_def)
qed

lemma dequeue_empty_at_end_fills:
  assumes q: "ring_ok q" and at_end: "q_in q = queue_end q" "q_out q = queue_end q"
    and mapped: "nodes h (queue_start q) \<noteq> None" "nodes h (queue_end q) \<noteq> None" "nodes h c \<noteq> None"
  obtains q' h' where "dequeue_from_node_queue q h c = Ret (OLY_OKAY, q', h')"
    and "length (slots q') = queue_end q - queue_start q"
    and "\<forall>a. enqueue_to_node_queue q' h' a = Ret (OLY_ERR_NODE_QUEUE_FULL, q', h')"
proof -
  let ?q = "q\<lparr>q_out := queue_start q\<rparr>"
  have lt: "queue_start q < queue_end q" using q by (simp add: ring_ok_def)
  have out: "step_out q = (OLY_OKAY, queue_start q)" using at_end by (simp add: step_out_def)
  obtain s o' d where m: "nodes h (queue_start q) = Some s" "nodes h (queue_end q) = Some o'"
      "nodes h c = Some d" using mapped by blast
  obtain h' where run: "dequeue_from_node_queue q h c = Ret (OLY_OKAY, ?q, h')"
    using m out at_end
    by (cases "c = queue_end q")
       (simp_all add: dequeue_from_node_queue_def load_node_def store_node_def Let_def)
  have ok: "ring_ok ?q" using q lt by (auto simp: ring_ok_def ring_def)
  have len: "length (slots ?q) = queue_end ?q - queue_start ?q"
    using at_end lt by (simp add: slots_def del: upt_Suc)
  have "step_in ?q = None" using step_in_full [OF ok] len by simp
  then show ?thesis using run len by (intro that [of ?q h']) (simp_all add: enqueue_to_node_queue_def)
qed

section \<open>A queue of plain scalars is a first-in first-out store\<close>

text \<open>
  A client that fills the node at \<open>c\<close>, queues it and dequeues into it. The contract holds for
  nodes without strings at level 0, as a refused string leaves a node behind, and while the slot the ring
  goes on to is one that has been allocated; a get on an empty queue is not part of it.
\<close>

definition node_of_view :: "node_view \<Rightarrow> OlyNode" where
  "node_of_view v = \<lparr>node_id = v_id v,
     nvalue = \<lparr>union = (case v_value v of Inl u \<Rightarrow> u | Inr s \<Rightarrow> String_value (SExt (s @ [0]))),
               vtype = v_type v\<rparr>,
     parent_node = 0, key = (case v_key v of None \<Rightarrow> SNull | Some s \<Rightarrow> SExt (s @ [0])),
     collection_end = False, has_key = (v_key v \<noteq> None), depth = v_depth v\<rparr>"

definition nq_okay :: "node_view \<Rightarrow> bool" where
  "nq_okay v \<longleftrightarrow> v_depth v = 0 \<and> v_key v = None \<and> (\<exists>u. v_value v = Inl u)
     \<and> v_type v \<notin> tag_code ` {OLY_TAG_SCALAR_STRING, OLY_TAG_COMPLEX_MAP, OLY_TAG_COMPLEX_SEQUENCE}"

type_synonym nq_state = "OlyNodeQueue \<times> node_heap \<times> addr"

definition nq_good :: "nq_state \<Rightarrow> bool" where
  "nq_good s = (case s of (q, h, c) \<Rightarrow>
     (\<exists>b. q_inv q h [] b \<and> 0 < sb_room b) \<and> c \<notin> ring q \<and> nodes h c \<noteq> None)"

definition slot_mapped :: "OlyNodeQueue \<Rightarrow> node_heap \<Rightarrow> bool" where
  "slot_mapped q h \<longleftrightarrow> (\<forall>slot. step_in q = Some slot \<longrightarrow> nodes h slot \<noteq> None)"

definition nq_may :: "nq_state \<Rightarrow> node_view \<Rightarrow> bool" where
  "nq_may s v \<longleftrightarrow> nq_okay v \<and> (case s of (q, h, c) \<Rightarrow> slot_mapped q h)"

definition nq_fits :: "nq_state \<Rightarrow> node_view \<Rightarrow> bool" where
  "nq_fits s v \<longleftrightarrow> (case s of (q, h, c) \<Rightarrow> step_in q \<noteq> None)"

definition nq_items :: "nq_state \<Rightarrow> node_view list" where
  "nq_items s = (case s of (q, h, c) \<Rightarrow> items q h)"

definition nq_put :: "nq_state \<Rightarrow> node_view \<Rightarrow> (bool \<times> nq_state) outcome" where
  "nq_put s v = (case s of (q, h, c) \<Rightarrow>
     obind (store_node h c (node_of_view v)) (\<lambda>h.
     obind (enqueue_to_node_queue q h c) (\<lambda>(status, q, h).
     Ret (status = OLY_OKAY, (q, h, c)))))"

definition nq_get :: "nq_state \<Rightarrow> (node_view option \<times> nq_state) outcome" where
  "nq_get s = (case s of (q, h, c) \<Rightarrow>
     obind (dequeue_from_node_queue q h c) (\<lambda>(status, q, h).
     obind (load_node h c) (\<lambda>n.
     case q_strings q of
       None \<Rightarrow> Crash
     | Some b \<Rightarrow> Ret (if status = OLY_OKAY then Some (view b n) else None, (q, h, c)))))"

lemma nq_okay_node:
  assumes "nq_okay v"
  shows "node_ok 0 (node_of_view v)" "strings_need (node_of_view v) = 0" "view b (node_of_view v) = v"
    "\<not> is_collection (node_of_view v)" "depth (node_of_view v) = 0"
  using assms
  by (auto simp: nq_okay_def node_of_view_def node_ok_def level_ok_def strings_ok_def is_string_def
      is_collection_def strings_need_def text_need_def view_def text_of_def)

lemma q_inv_client:
  assumes inv: "q_inv q h xs b" and c: "c \<notin> ring q" "c \<notin> set xs" "nodes h c \<noteq> None"
  shows "q_inv q (h\<lparr>nodes := (nodes h)(c \<mapsto> n)\<rparr>) xs b
    \<and> items q (h\<lparr>nodes := (nodes h)(c \<mapsto> n)\<rparr>) = items q h"
proof -
  let ?h = "h\<lparr>nodes := (nodes h)(c \<mapsto> n)\<rparr>"
  note I = q_invD [OF inv]
  have ends: "q_in q \<noteq> c" "q_out q \<noteq> c" using I(1) c(1) by (auto simp: ring_ok_def)
  have slots: "a \<noteq> c" if "a \<in> set (slots q)" for a using that c(1) slots_in_ring [OF I(1)] by auto
  have "\<forall>x\<in>set xs. nodes ?h x = nodes h x" using c(2) by auto
  from path_frame [OF this] have "path ?h (q_stack q) xs" using I(6) by simp
  moreover have "heap_ok ?h" using I(2) c(3) by (auto simp: heap_ok_def)
  moreover have "\<forall>a\<in>set (slots q). \<exists>n. nodes ?h a = Some n \<and> settled b n"
    using I(9) slots by auto
  moreover have "items q ?h = items q h"
    using slots by (auto simp: items_def intro!: map_cong split: option.split)
  ultimately show ?thesis using I ends by (simp add: q_inv_def)
qed

text \<open>A plain scalar that the client has put at \<open>c\<close> is queued when there is a slot for it.\<close>

lemma nq_enqueue:
  assumes good: "nq_good (q, h, c)" and v: "nq_okay v" and slot: "step_in q = Some slot"
    and mapped: "nodes h slot \<noteq> None"
  defines "h0 \<equiv> h\<lparr>nodes := (nodes h)(c \<mapsto> node_of_view v)\<rparr>"
  obtains q' h' where "enqueue_to_node_queue q h0 c = Ret (OLY_OKAY, q', h')"
    and "nq_good (q', h', c)" and "items q' h' = items q h @ [v]"
    and "nodes h' c = Some (node_of_view v)" and "ring q' = ring q" and "q_in q' = slot" and "q_out q' = q_out q"
    and "\<forall>a\<in>ring q. nodes h' a = None \<longleftrightarrow> nodes h a = None"
proof -
  obtain b where b: "q_inv q h [] b" "0 < sb_room b" and c: "c \<notin> ring q" "nodes h c \<noteq> None"
    using good by (auto simp: nq_good_def)
  have inv: "q_inv q h0 [] b" "items q h0 = items q h"
    using q_inv_client [OF b(1) c(1) _ c(2)] by (simp_all add: h0_def)
  have ring: "slot \<in> ring q" "q_in q \<in> ring q"
    using step_in_slots [OF q_invD(1) [OF b(1)] slot] q_invD(1) [OF b(1)] by (simp_all add: ring_ok_def)
  have alloc: "nodes h0 slot \<noteq> None" using mapped by (simp add: h0_def)
  have src: "nodes h0 c = Some (node_of_view v)" by (simp add: h0_def)
  have ok: "node_ok (length ([]::addr list)) (node_of_view v)" using nq_okay_node(1) [OF v] by simp
  have need: "strings_need (node_of_view v) < sb_room b" using nq_okay_node(2) [OF v] b(2) by simp
  obtain q' h' b' m where r: "enqueue_to_node_queue q h0 c = Ret (OLY_OKAY, q', h')"
      "q_inv q' h' (stack_after [] (next_node h0) (node_of_view v)) b'"
      "items q' h' = items q h0 @ [view b (node_of_view v)]"
      "sb_room b' + strings_need (node_of_view v) = sb_room b" "q_in q' = slot" "nodes h' slot = Some m"
      "\<not> is_collection (node_of_view v) \<longrightarrow> parent_node m = q_stack q'"
      "\<forall>c. c \<noteq> slot \<and> c \<noteq> q_in q \<and> c \<noteq> next_node h0 \<longrightarrow> nodes h' c = nodes h0 c"
      "length ([]::addr list) < unat (depth (node_of_view v)) \<longrightarrow>
         (\<exists>c. nodes h' (q_stack q') = Some c \<and> node_id c = node_id (node_of_view v) \<and> depth c = depth (node_of_view v))"
      "ring q' = ring q" "q_out q' = q_out q" "next_node h0 \<le> next_node h'"
      "\<forall>c. nodes h0 c \<noteq> None \<longrightarrow> nodes h' c \<noteq> None"
    by (rule enqueue_node [OF inv(1) src ok slot alloc need])
  have "stack_after [] (next_node h0) (node_of_view v) = []"
    using nq_okay_node(5) [OF v] by (simp add: stack_after_def)
  then have "nq_good (q', h', c)"
    using r(2,4,10,13) nq_okay_node(2) [OF v] b(2) c by (auto simp: nq_good_def h0_def)
  moreover have "c \<noteq> next_node h0"
    using heap_ok_fresh [OF q_invD(2) [OF b(1)]] c(2) by (auto simp: h0_def)
  then have "nodes h' c = Some (node_of_view v)" using r(8) ring c(1) src by metis
  moreover have "\<forall>a\<in>ring q. nodes h' a = None \<longleftrightarrow> nodes h a = None"
  proof
    fix a assume a: "a \<in> ring q"
    then have "a \<noteq> next_node h0" using q_invD(3) [OF b(1)] by (auto simp: ring_def h0_def)
    moreover obtain p where "nodes h (q_in q) = Some p" using q_invD(8) [OF b(1)] by blast
    moreover have "nodes h a \<noteq> None \<Longrightarrow> nodes h' a \<noteq> None" using r(13) by (simp add: h0_def)
    ultimately show "nodes h' a = None \<longleftrightarrow> nodes h a = None"
      using r(8) a c(1) mapped by (cases "a = slot \<or> a = q_in q") (auto simp: h0_def)
  qed
  ultimately show ?thesis
    using that r(1,3,5,10,11) inv(2) nq_okay_node(3) [OF v] by simp
qed

lemma nq_put_law:
  assumes good: "nq_good s" and may: "nq_may s v"
  shows "\<exists>s'. nq_put s v = Ret (nq_fits s v, s') \<and> nq_good s'
    \<and> nq_items s' = (if nq_fits s v then nq_items s @ [v] else nq_items s)"
proof -
  obtain q h c where s: "s = (q, h, c)" by (cases s)
  obtain b where b: "q_inv q h [] b" "0 < sb_room b" and c: "c \<notin> ring q" "nodes h c \<noteq> None"
    using good s by (auto simp: nq_good_def)
  let ?h = "h\<lparr>nodes := (nodes h)(c \<mapsto> node_of_view v)\<rparr>"
  have store: "store_node h c (node_of_view v) = Ret ?h" using c(2) by (simp add: store_node_def)
  show ?thesis
  proof (cases "step_in q")
    case None
    then have "nq_put s v = Ret (False, (q, ?h, c))" "\<not> nq_fits s v"
      using s store by (simp_all add: nq_put_def enqueue_to_node_queue_def nq_fits_def)
    moreover have inv: "q_inv q ?h [] b" "items q ?h = items q h"
      using q_inv_client [OF b(1) c(1) _ c(2)] by simp_all
    moreover have "nq_good (q, ?h, c)" using inv(1) b(2) c by (auto simp: nq_good_def)
    ultimately show ?thesis using s by (auto simp: nq_items_def)
  next
    case (Some slot)
    have v: "nq_okay v" and mapped: "nodes h slot \<noteq> None" using may s Some by (auto simp: nq_may_def slot_mapped_def)
    obtain q' h' where "enqueue_to_node_queue q ?h c = Ret (OLY_OKAY, q', h')" "nq_good (q', h', c)"
        "items q' h' = items q h @ [v]"
      by (rule nq_enqueue [OF good [unfolded s] v Some mapped])
    moreover have "nq_fits s v" using Some s by (simp add: nq_fits_def)
    ultimately show ?thesis using s store by (auto simp: nq_put_def nq_items_def)
  qed
qed

lemma nq_get_law:
  assumes good: "nq_good s" and items: "nq_items s = v # vs"
  shows "\<exists>s'. nq_get s = Ret (Some v, s') \<and> nq_good s' \<and> nq_items s' = vs"
proof -
  obtain q h c where s: "s = (q, h, c)" by (cases s)
  obtain b where b: "q_inv q h [] b" "0 < sb_room b" and c: "c \<notin> ring q" "nodes h c \<noteq> None"
    using good s by (auto simp: nq_good_def)
  note I = q_invD [OF b(1)]
  obtain a as where slots: "slots q = a # as"
    using items s I(4) by (cases "slots q") (auto simp: nq_items_def items_def)
  obtain d where d: "nodes h c = Some d" using c(2) by blast
  obtain h' m where r: "dequeue_from_node_queue q h c = Ret (OLY_OKAY, q\<lparr>q_out := a\<rparr>, h')"
      "q_inv (q\<lparr>q_out := a\<rparr>) h' [] b" "items q h = view b m # items (q\<lparr>q_out := a\<rparr>) h'"
      "nodes h' c = Some m" "\<forall>a. a \<notin> ring q \<and> a \<noteq> c \<longrightarrow> nodes h' a = nodes h a" "settled b m"
      "\<forall>x. nodes h x \<noteq> None \<longrightarrow> nodes h' x \<noteq> None"
    by (rule dequeue_node [OF b(1) slots d c(1)]) simp
  have "ring (q\<lparr>q_out := a\<rparr>) = ring q" by (simp add: ring_def)
  then have "nq_good (q\<lparr>q_out := a\<rparr>, h', c)"
    using r(2,7) b(2) c by (auto simp: nq_good_def)
  moreover have "nq_get s = Ret (Some (view b m), (q\<lparr>q_out := a\<rparr>, h', c))"
    using s r(1,4) I(4) by (simp add: nq_get_def outcome_simps)
  moreover have "view b m = v" "items (q\<lparr>q_out := a\<rparr>) h' = vs"
    using items r(3) s by (simp_all add: nq_items_def)
  ultimately show ?thesis by (auto simp: nq_items_def)
qed

interpretation nq: fifo_core nq_good nq_items nq_may nq_fits "\<lambda>v. v" nq_put nq_get
  using nq_put_law nq_get_law by unfold_locales simp_all

section \<open>Closing\<close>

lemma close_stack_frees:
  assumes "path h stack xs" and "distinct xs" and "length xs \<le> fuel"
    and "\<forall>x\<in>set xs. \<forall>n. nodes h x = Some n \<longrightarrow> \<not> collection_end n"
  shows "close_stack (Suc frames) fuel h stack = Some (Ret (h\<lparr>nodes := (nodes h) |` (- set xs)\<rparr>))"
  using assms
proof (induction xs arbitrary: h stack fuel)
  case Nil
  then show ?case by (simp add: close_stack.simps)
next
  case (Cons x xs)
  obtain n where n: "stack = x" "x \<noteq> 0" "nodes h x = Some n" "path h (parent_node n) xs"
    using path_head [OF Cons.prems(1)] by metis
  obtain f where f: "fuel = Suc f" using Cons.prems(3) by (cases fuel) auto
  let ?h = "h\<lparr>nodes := (nodes h)(x := None)\<rparr>"
  have one: "close_oly_ds_node (Suc frames) h x = Ret ?h"
    using n Cons.prems(4) by (simp add: outcome_simps)
  have same: "\<forall>y\<in>set xs. nodes ?h y = nodes h y" using Cons.prems(2) by auto
  have "path ?h (parent_node n) xs" using path_frame [OF same] n(4) by simp
  moreover have "\<forall>y\<in>set xs. \<forall>n. nodes ?h y = Some n \<longrightarrow> \<not> collection_end n"
    using Cons.prems(4) same by auto
  ultimately have "close_stack (Suc frames) f ?h (parent_node n)
      = Some (Ret (?h\<lparr>nodes := (nodes ?h) |` (- set xs)\<rparr>))"
    using Cons.prems(2,3) f by (intro Cons.IH) auto
  moreover have "(nodes ?h) |` (- set xs) = (nodes h) |` (- set (x # xs))"
    by (auto simp: restrict_map_def)
  ultimately show ?case
    using n f one by (subst close_stack.simps) (simp add: load_node_Some del: close_oly_ds_node.simps)
qed

section \<open>Properties\<close>

text \<open>A queue of four slots, empty, and a client node of id 7 with a key and an integer at 1.\<close>

definition sample_client :: OlyNode where
  "sample_client = fresh_node\<lparr>node_id := 7, key := SExt (sample_string @ [0]),
     nvalue := \<lparr>union = Int_value 5, vtype = tag_code OLY_TAG_SCALAR_INT\<rparr>\<rparr>"

definition sample_queue :: OlyNodeQueue where
  "sample_queue = \<lparr>queue_size = 16384, key_max_length = MAX_KEY_LENGTH, q_in = 10, q_out = 10,
     q_stack = 0, queue_start = 10, queue_end = 13, q_strings = Some sample_buffer\<rparr>"

definition sample_slots :: "OlyNode \<Rightarrow> node_heap" where
  "sample_slots n = \<lparr>nodes = (\<lambda>a. if a = 1 then Some n else if 10 \<le> a \<and> a \<le> 13 then Some fresh_node
     else None), next_node = 20\<rparr>"

lemma sample_filling: "filling sample_buffer"
  using sample_buffer_good by (simp add: filling_def sample_buffer_def)

lemma sample_queue_inv: "q_inv sample_queue (sample_slots n) [] sample_buffer"
  using sample_filling
  by (auto simp: q_inv_def sample_queue_def sample_slots_def ring_ok_def ring_def heap_ok_def
      fresh_node_def slots_def)

lemma sample_slots_nodes [simp]: "nodes (sample_slots n) 1 = Some n" "nodes (sample_slots n) 11 = Some fresh_node"
    "next_node (sample_slots n) = 20"
  by (simp_all add: sample_slots_def)

lemma sample_step: "step_in sample_queue = Some 11"
  by (simp add: step_in_def sample_queue_def)

lemma sample_queue_empty: "items sample_queue h = []"
  by (simp add: items_def sample_queue_def slots_def)

lemma sample_holds: "holds (SExt (sample_string @ [0])) sample_string"
  using sample_string_okay(1) by (auto simp: holds_def)

lemma sample_client_ok: "node_ok 0 sample_client" "strings_need sample_client = 5" "depth sample_client = 0"
proof -
  have n: "key sample_client = SExt (sample_string @ [0])" "\<not> is_string sample_client"
    "\<not> is_collection sample_client"
    by (simp_all add: sample_client_def is_string_def is_collection_def)
  show d: "depth sample_client = 0" by (simp add: sample_client_def fresh_node_def)
  show "node_ok 0 sample_client"
    using n d sample_holds by (auto simp: node_ok_def level_ok_def strings_ok_def)
  show "strings_need sample_client = 5"
    using n holds_need [OF sample_holds] sample_string_okay(3) by (simp add: strings_need_def)
qed

text \<open>
  C29: enqueuing a node that respects the level discipline, into a ring with a free allocated
  slot and a string buffer with room for its strings, succeeds: the ideal queue gets the
  node's contents, strings included, at its end; the invariant holds again with the stack
  of levels for the new depth, and exactly the cells of the strings are used up.
\<close>

theorem node_enqueue_appends:
  assumes "q_inv q h xs b" and "nodes h a = Some n" and "node_ok (length xs) n"
    and "step_in q = Some slot" and "nodes h slot \<noteq> None" and "strings_need n < sb_room b"
  shows "\<exists>q' h' b'. enqueue_to_node_queue q h a = Ret (OLY_OKAY, q', h')
    \<and> q_inv q' h' (stack_after xs (next_node h) n) b' \<and> items q' h' = items q h @ [view b n]
    \<and> sb_room b' + strings_need n = sb_room b"
  by (rule enqueue_node [OF assms]) blast

theorem node_enqueue_appends_witness:
  "\<exists>q' h' b'. enqueue_to_node_queue sample_queue (sample_slots sample_client) 1 = Ret (OLY_OKAY, q', h')
    \<and> q_inv q' h' [] b' \<and> items q' h' = [view sample_buffer sample_client] \<and> sb_room b' = 17"
proof -
  have ok: "node_ok (length ([]::addr list)) sample_client" and slot: "nodes (sample_slots sample_client) 11 \<noteq> None"
    and room: "strings_need sample_client < sb_room sample_buffer"
    using sample_client_ok sample_buffer_good(5) by simp_all
  have "stack_after [] 20 sample_client = []" using sample_client_ok(3) by (simp add: stack_after_def)
  then show ?thesis
    using node_enqueue_appends [OF sample_queue_inv sample_slots_nodes(1) ok sample_step slot room]
      sample_client_ok(2) sample_buffer_good(5)
    by (auto simp: sample_queue_empty)
qed

text \<open>
  C30: dequeuing from a non-empty queue gives a node with the contents of the oldest one and
  removes it. The string buffer stays as it is: the cells of the strings that have left the
  queue are never free again.
\<close>

theorem node_dequeue_gives_oldest:
  assumes "q_inv q h xs b" and "slots q = s # ss" and "nodes h c = Some dest"
    and "c \<notin> ring q" and "c \<notin> set xs"
  shows "\<exists>q' h' m. dequeue_from_node_queue q h c = Ret (OLY_OKAY, q', h')
    \<and> q_inv q' h' xs b \<and> nodes h' c = Some m \<and> items q h = view b m # items q' h'
    \<and> q_strings q' = q_strings q"
proof -
  have "q_strings (q\<lparr>q_out := s\<rparr>) = q_strings q" by simp
  with dequeue_node [OF assms] show ?thesis by metis
qed

theorem node_dequeue_gives_oldest_witness:
  "\<exists>q h b q' h' m. items q h = [view sample_buffer sample_client]
    \<and> dequeue_from_node_queue q h 1 = Ret (OLY_OKAY, q', h') \<and> nodes h' 1 = Some m
    \<and> view b m = view sample_buffer sample_client \<and> items q' h' = []"
proof -
  have ok: "node_ok (length ([]::addr list)) sample_client" and slot: "nodes (sample_slots sample_client) 11 \<noteq> None"
    and room: "strings_need sample_client < sb_room sample_buffer"
    using sample_client_ok sample_buffer_good(5) by simp_all
  obtain q h b where q: "q_inv q h (stack_after [] (next_node (sample_slots sample_client)) sample_client) b"
      "items q h = items sample_queue (sample_slots sample_client) @ [view sample_buffer sample_client]"
      "ring q = ring sample_queue" "\<forall>c. nodes (sample_slots sample_client) c \<noteq> None \<longrightarrow> nodes h c \<noteq> None"
    by (rule enqueue_node [OF sample_queue_inv sample_slots_nodes(1) ok sample_step slot room]) blast
  have inv: "q_inv q h [] b" and items: "items q h = [view sample_buffer sample_client]"
    using q(1,2) sample_client_ok(3) by (simp_all add: stack_after_def sample_queue_empty)
  obtain s ss where s: "slots q = s # ss"
    using items q_invD(4) [OF inv] by (cases "slots q") (auto simp: items_def)
  have c: "1 \<notin> ring q" "1 \<notin> set ([]::addr list)" using q(3) by (simp_all add: ring_def sample_queue_def)
  obtain d where d: "nodes h 1 = Some d" using q(4) sample_slots_nodes(1) by blast
  from node_dequeue_gives_oldest [OF inv s d c] items show ?thesis by (metis list.inject)
qed

text \<open>
  A queue of plain scalars, filled in any way, gives its nodes back in the order they
  were put in, however many are drawn.
\<close>

theorem node_queue_drains_in_order:
  assumes "nq_good s" and "nq_items s = vs @ ws"
  shows "\<exists>s'. fifo_drain nq_get (length vs) s = Ret (vs, s') \<and> nq_good s' \<and> nq_items s' = ws"
  using assms by (rule nq.drain_items)

theorem node_queue_drains_in_order_witness:
  "\<exists>acc s s'. nq_put (sample_queue, sample_slots fresh_node, 1)
        \<lparr>v_id = 7, v_depth = 0, v_type = tag_code OLY_TAG_SCALAR_INT, v_value = Inl (Int_value 5), v_key = None\<rparr>
      = Ret (acc, s) \<and> fifo_drain nq_get (length (nq_items s)) s = Ret (nq_items s, s') \<and> nq_items s' = []"
proof -
  let ?v = "\<lparr>v_id = 7, v_depth = 0, v_type = tag_code OLY_TAG_SCALAR_INT, v_value = Inl (Int_value 5), v_key = None\<rparr>"
  have good: "nq_good (sample_queue, sample_slots fresh_node, 1)"
    unfolding nq_good_def prod.case
    using sample_queue_inv [of fresh_node] sample_buffer_good(5)
    by (intro conjI exI [of _ sample_buffer])
       (simp_all add: ring_def sample_queue_def sample_slots_def)
  have "nq_may (sample_queue, sample_slots fresh_node, 1) ?v"
    using sample_step by (simp add: nq_may_def nq_okay_def slot_mapped_def)
  then obtain acc s where s: "nq_put (sample_queue, sample_slots fresh_node, 1) ?v = Ret (acc, s)" "nq_good s"
    using nq_put_law [OF good] by blast
  with node_queue_drains_in_order [OF s(2), of "nq_items s" "[]"] show ?thesis by auto
qed

text \<open>
  The parent recorded for a scalar that opens a level is a copy of the scalar itself.
\<close>

theorem scalar_is_its_own_parent:
  assumes "q_inv q h xs b" and "nodes h a = Some n" and "node_ok (length xs) n"
    and "step_in q = Some slot" and "nodes h slot \<noteq> None" and "strings_need n < sb_room b"
    and "length xs < unat (depth n)" and "\<not> is_collection n"
  shows "\<exists>q' h' m p. enqueue_to_node_queue q h a = Ret (OLY_OKAY, q', h')
    \<and> nodes h' slot = Some m \<and> nodes h' (parent_node m) = Some p
    \<and> node_id p = node_id n \<and> depth p = depth n"
  by (rule enqueue_node [OF assms(1-6)]) (use assms(7,8) in auto)

theorem scalar_is_its_own_parent_witness:
  "\<exists>q' h' m p. enqueue_to_node_queue sample_queue (sample_slots (sample_client\<lparr>depth := 1\<rparr>)) 1 = Ret (OLY_OKAY, q', h')
    \<and> nodes h' 11 = Some m \<and> nodes h' (parent_node m) = Some p \<and> node_id p = 7 \<and> depth p = 1"
proof -
  let ?n = "sample_client\<lparr>depth := 1\<rparr>"
  have n: "node_ok (length ([]::addr list)) ?n" "strings_need ?n < sb_room sample_buffer"
    "length ([]::addr list) < unat (depth ?n)" "\<not> is_collection ?n" "node_id ?n = 7"
    using sample_client_ok sample_buffer_good(5)
    by (simp_all add: node_ok_def level_ok_def strings_ok_def strings_need_def is_string_def is_collection_def)
       (simp_all add: sample_client_def fresh_node_def)
  have slot: "nodes (sample_slots ?n) 11 \<noteq> None" by simp
  from scalar_is_its_own_parent [OF sample_queue_inv sample_slots_nodes(1) n(1) sample_step slot n(2-4)] n(5)
  show ?thesis by auto
qed

text \<open>
  A queue opened with the default size has two slots in its allocation: after one node has
  been queued, queuing any other writes outside the allocated memory.
\<close>

theorem default_queue_holds_one_node:
  assumes "heap_ok h" and "depth (junk (next_node h)) = 0" and "nodes h a = Some n"
    and "node_ok 0 n" and "strings_need n < BUFSIZ - 2"
  shows "\<exists>q h1 q' h2. open_node_queue (OLY_OKAY, BUFSIZ) junk cells h = Ret (OLY_OKAY, q, h1)
    \<and> enqueue_to_node_queue q h1 a = Ret (OLY_OKAY, q', h2)
    \<and> (\<forall>c. enqueue_to_node_queue q' h2 c = Crash)"
  by (rule default_queue_second_enqueue [where cells = cells and junk = junk, OF assms]) blast

theorem default_queue_holds_one_node_witness:
  "\<exists>q h1 q' h2. open_node_queue (OLY_OKAY, BUFSIZ) (\<lambda>_. fresh_node) (\<lambda>_. 7) (sample_slots sample_client)
      = Ret (OLY_OKAY, q, h1)
    \<and> enqueue_to_node_queue q h1 1 = Ret (OLY_OKAY, q', h2)
    \<and> (\<forall>c. enqueue_to_node_queue q' h2 c = Crash)"
proof (rule default_queue_holds_one_node)
  show "heap_ok (sample_slots sample_client)" by (rule q_invD(2) [OF sample_queue_inv])
  show "nodes (sample_slots sample_client) 1 = Some sample_client" by (rule sample_slots_nodes(1))
  show "node_ok 0 sample_client" by (rule sample_client_ok)
  show "strings_need sample_client < BUFSIZ - 2" using sample_client_ok(2) by (simp add: BUFSIZ_def)
qed (simp add: fresh_node_def)

text \<open>
  Queuing a map or a sequence at level 0 while no level is open follows a null pointer.
\<close>

theorem top_level_collection_faults:
  assumes "q_inv q h [] b" and "nodes h a = Some n" and "is_collection n" and "depth n = 0"
    and "step_in q = Some slot"
  shows "enqueue_to_node_queue q h a = Crash"
  using assms by (rule top_level_collection_crashes)

theorem top_level_collection_faults_witness:
  "enqueue_to_node_queue sample_queue
     (sample_slots (fresh_node\<lparr>nvalue := \<lparr>union = String_value SNull, vtype = tag_code OLY_TAG_COMPLEX_MAP\<rparr>\<rparr>)) 1 = Crash"
  by (rule top_level_collection_faults [OF sample_queue_inv sample_slots_nodes(1) _ _ sample_step])
     (simp_all add: is_collection_def fresh_node_def)

text \<open>
  C38: after a node of level 1, a node of level 0 is answered with \<open>OLY_ERR_NODES_TOO_SHALLOW\<close>,
  and is in the queue nevertheless.
\<close>

theorem return_to_top_level_fails:
  assumes "q_inv q h [x] b" and "nodes h a = Some n" and "depth n = 0"
    and "step_in q = Some slot" and "nodes h slot \<noteq> None"
  shows "\<exists>q' h' m. enqueue_to_node_queue q h a = Ret (OLY_ERR_NODES_TOO_SHALLOW, q', h')
    \<and> slots q' = slots q @ [slot] \<and> nodes h' slot = Some m \<and> node_id m = node_id n"
  by (rule return_to_top_fails [OF assms]) blast

theorem return_to_top_level_fails_witness:
  "\<exists>q h q' h' m. enqueue_to_node_queue q h 1 = Ret (OLY_ERR_NODES_TOO_SHALLOW, q', h')
    \<and> slots q' = slots q @ [11] \<and> nodes h' 11 = Some m \<and> node_id m = 7"
proof -
  let ?q = "sample_queue\<lparr>q_stack := 2\<rparr>"
  let ?h = "\<lparr>nodes = [1 \<mapsto> sample_client, 2 \<mapsto> fresh_node\<lparr>depth := 1\<rparr>, 10 \<mapsto> fresh_node\<lparr>depth := 1\<rparr>,
      11 \<mapsto> fresh_node], next_node = 20\<rparr>"
  have inv: "q_inv ?q ?h [2] sample_buffer"
    using sample_filling
    by (auto simp: q_inv_def sample_queue_def ring_ok_def ring_def heap_ok_def fresh_node_def slots_def)
  have step: "step_in ?q = Some 11" by (simp add: step_in_def sample_queue_def)
  have n: "nodes ?h 1 = Some sample_client" "nodes ?h 11 \<noteq> None" "node_id sample_client = 7"
    by (simp_all add: sample_client_def)
  show ?thesis
    using return_to_top_level_fails [OF inv n(1) sample_client_ok(3) step n(2)] n(3) by metis
qed

text \<open>
  A dequeue from an empty queue whose pointers are at the last slot answers \<open>OLY_OKAY\<close>,
  and leaves a queue that claims to be full.
\<close>

theorem dequeue_of_empty_queue_fills_it:
  assumes "ring_ok q" and "q_in q = queue_end q" and "q_out q = queue_end q"
    and "nodes h (queue_start q) \<noteq> None" and "nodes h (queue_end q) \<noteq> None" and "nodes h c \<noteq> None"
  shows "slots q = [] \<and> (\<exists>q' h'. dequeue_from_node_queue q h c = Ret (OLY_OKAY, q', h')
    \<and> length (slots q') = queue_end q - queue_start q
    \<and> (\<forall>a. enqueue_to_node_queue q' h' a = Ret (OLY_ERR_NODE_QUEUE_FULL, q', h')))"
proof -
  have "slots q = []" using assms(2,3) by (simp add: slots_def)
  then show ?thesis using dequeue_empty_at_end_fills [OF assms] by metis
qed

theorem dequeue_of_empty_queue_fills_it_witness:
  "\<exists>q' h'. dequeue_from_node_queue (sample_queue\<lparr>q_in := 13, q_out := 13\<rparr>) (sample_slots fresh_node) 1
      = Ret (OLY_OKAY, q', h') \<and> length (slots q') = 3
    \<and> (\<forall>a. enqueue_to_node_queue q' h' a = Ret (OLY_ERR_NODE_QUEUE_FULL, q', h'))"
proof -
  let ?q = "sample_queue\<lparr>q_in := 13, q_out := 13\<rparr>" and ?h = "sample_slots fresh_node"
  have q: "ring_ok ?q" "q_in ?q = queue_end ?q" "q_out ?q = queue_end ?q" "queue_end ?q - queue_start ?q = 3"
    "nodes ?h (queue_start ?q) \<noteq> None" "nodes ?h (queue_end ?q) \<noteq> None" "nodes ?h 1 \<noteq> None"
    by (simp_all add: ring_ok_def ring_def sample_queue_def sample_slots_def)
  show ?thesis
    using dequeue_of_empty_queue_fills_it [OF q(1-3,5-7)] q(4) by simp
qed

end
