(* ===== verification/Queue_Machine.thy ===== *)
theory Queue_Machine
  imports Node_Queue
begin

text \<open>
  The node queue as a state machine, with nodes of any level: a client fills its node and enqueues it,
  or dequeues into it, in any order. The queue is \<^verbatim>\<open>src/node/node_queue.c\<close> with its string buffer and
  its stack of levels, in a heap. A run is careful when it keeps to the discipline of levels, gives the
  string buffer no more than it has room for, does not dequeue from an empty queue and does not enqueue
  where the ring goes on to a slot that \<open>open_node_queue\<close> has not allocated.
\<close>

section \<open>Steps and runs\<close>

text \<open>What the client puts in, with the status; and the node it gets out, as it can be seen.\<close>

datatype nq_event =
    Queue OlyNode OlyStatus
  | Draw node_view

inductive nq_step :: "nq_state \<Rightarrow> nq_event \<Rightarrow> nq_state \<Rightarrow> bool" where
  step_queue: "\<lbrakk>store_node h c n = Ret h1; enqueue_to_node_queue q h1 c = Ret (status, q', h')\<rbrakk>
    \<Longrightarrow> nq_step (q, h, c) (Queue n status) (q', h', c)"
| step_draw: "\<lbrakk>dequeue_from_node_queue q h c = Ret (OLY_OKAY, q', h'); load_node h' c = Ret m; q_strings q' = Some b\<rbrakk>
    \<Longrightarrow> nq_step (q, h, c) (Draw (view b m)) (q', h', c)"

inductive_cases queue_stepE: "nq_step s (Queue n status) s'"
inductive_cases draw_stepE: "nq_step s (Draw v) s'"

fun nq_careful :: "nq_state \<Rightarrow> nq_event \<Rightarrow> bool" where
  "nq_careful (q, h, c) (Queue n status) \<longleftrightarrow>
     slot_mapped q h \<and> (\<exists>xs b. path h (q_stack q) xs \<and> q_strings q = Some b \<and> node_ok (length xs) n \<and> strings_need n < sb_room b)"
| "nq_careful (q, h, c) (Draw v) \<longleftrightarrow> slots q \<noteq> []"

inductive nq_run :: "nq_state \<Rightarrow> nq_event list \<Rightarrow> nq_state \<Rightarrow> bool" where
  nq_start: "nq_run s [] s"
| nq_more: "nq_run s tr s' \<Longrightarrow> nq_careful s' e \<Longrightarrow> nq_step s' e s'' \<Longrightarrow> nq_run s (tr @ [e]) s''"

text \<open>The nodes that were accepted, as their client saw them, and the ones that came out.\<close>

definition client_view :: "OlyNode \<Rightarrow> node_view" where
  "client_view n = \<lparr>v_id = node_id n, v_depth = depth n, v_type = vtype (nvalue n),
     v_value = (if vtype (nvalue n) = tag_code OLY_TAG_SCALAR_STRING
                then Inr (case as_string (union (nvalue n)) of SExt m \<Rightarrow> mem_text m | _ \<Rightarrow> [])
                else Inl (union (nvalue n))),
     v_key = (case key n of SExt m \<Rightarrow> Some (mem_text m) | _ \<Rightarrow> None)\<rparr>"

fun queued :: "nq_event list \<Rightarrow> node_view list" where
  "queued [] = []"
| "queued (Queue n status # tr) = (if status = OLY_OKAY then client_view n # queued tr else queued tr)"
| "queued (e # tr) = queued tr"

fun drawn :: "nq_event list \<Rightarrow> node_view list" where
  "drawn [] = []"
| "drawn (Draw v # tr) = v # drawn tr"
| "drawn (e # tr) = drawn tr"

lemma queued_append [simp]: "queued (xs @ ys) = queued xs @ queued ys"
  by (induction xs rule: queued.induct) simp_all

lemma drawn_append [simp]: "drawn (xs @ ys) = drawn xs @ drawn ys"
  by (induction xs rule: drawn.induct) simp_all

section \<open>The invariant\<close>

definition nq_live :: "nq_state \<Rightarrow> bool" where
  "nq_live s = (case s of (q, h, c) \<Rightarrow>
     (\<exists>xs b. q_inv q h xs b \<and> c \<notin> set xs) \<and> c \<notin> ring q \<and> nodes h c \<noteq> None)"

text \<open>What an enqueue answers: the queue is full where the ring has no slot to go on to.\<close>

definition nq_answer :: "OlyNodeQueue \<Rightarrow> OlyStatus" where
  "nq_answer q = (if step_in q = None then OLY_ERR_NODE_QUEUE_FULL else OLY_OKAY)"

lemma path_unique: "path h a xs \<Longrightarrow> path h a ys \<Longrightarrow> xs = ys"
proof (induction xs arbitrary: a ys)
  case Nil
  then show ?case by (cases ys) auto
next
  case (Cons x xs)
  then show ?case by (cases ys) (auto split: option.splits)
qed

lemma view_client: "strings_ok n \<Longrightarrow> view b n = client_view n"
  by (auto simp: strings_ok_def holds_def is_string_def view_def client_view_def text_of_def)

lemma queue_live:
  assumes live: "nq_live (q, h, c)" and careful: "nq_careful (q, h, c) (Queue n status)"
  obtains h1 q' h' where "store_node h c n = Ret h1" and "enqueue_to_node_queue q h1 c = Ret (nq_answer q, q', h')"
    and "nq_live (q', h', c)" and "items q' h' = items q h @ queued [Queue n (nq_answer q)]"
proof -
  obtain xs b where inv: "q_inv q h xs b" "c \<notin> set xs" and c: "c \<notin> ring q" "nodes h c \<noteq> None"
    using live by (auto simp: nq_live_def)
  note I = q_invD [OF inv(1)]
  obtain ys b1 where n: "path h (q_stack q) ys" "q_strings q = Some b1" "node_ok (length ys) n" "strings_need n < sb_room b1"
    and mapped: "slot_mapped q h"
    using careful by auto
  have same: "ys = xs" "b1 = b" using path_unique [OF n(1) I(6)] n(2) I(4) by simp_all
  let ?h1 = "h\<lparr>nodes := (nodes h)(c \<mapsto> n)\<rparr>"
  have store: "store_node h c n = Ret ?h1" using c(2) by (auto simp: store_node_def)
  have inv1: "q_inv q ?h1 xs b" "items q ?h1 = items q h"
    using q_inv_client [OF inv(1) c(1) inv(2) c(2)] by simp_all
  show ?thesis
  proof (cases "step_in q")
    case None
    then have "enqueue_to_node_queue q ?h1 c = Ret (nq_answer q, q, ?h1)" "nq_answer q = OLY_ERR_NODE_QUEUE_FULL"
      by (simp_all add: enqueue_to_node_queue_def nq_answer_def)
    moreover have "nq_live (q, ?h1, c)" using inv1 inv(2) c by (auto simp: nq_live_def)
    ultimately show ?thesis using that [OF store] inv1(2) by simp
  next
    case (Some slot)
    then have alloc: "nodes ?h1 slot \<noteq> None" using mapped by (simp add: slot_mapped_def)
    have src: "nodes ?h1 c = Some n" by simp
    have ok: "node_ok (length xs) n" and room: "strings_need n < sb_room b" using n(3,4) same by simp_all
    obtain q2 h2 b2 where r: "enqueue_to_node_queue q ?h1 c = Ret (OLY_OKAY, q2, h2)"
      "q_inv q2 h2 (stack_after xs (next_node ?h1) n) b2" "items q2 h2 = items q ?h1 @ [view b n]"
      "ring q2 = ring q" "\<forall>c. nodes ?h1 c \<noteq> None \<longrightarrow> nodes h2 c \<noteq> None"
      by (rule enqueue_node [OF inv1(1) src ok Some alloc room]) blast
    have "c \<noteq> next_node ?h1" using heap_ok_fresh [OF q_invD(2) [OF inv1(1)]] src by auto
    then have "c \<notin> set (stack_after xs (next_node ?h1) n)" using set_stack_after inv(2) by fastforce
    then have "nq_live (q2, h2, c)" using r(2,4,5) c by (auto simp: nq_live_def)
    moreover have "view b n = client_view n" using ok by (intro view_client) (simp add: node_ok_def)
    moreover have "nq_answer q = OLY_OKAY" using Some by (simp add: nq_answer_def)
    ultimately show ?thesis using that [OF store, of q2 h2] r(1,3) inv1(2) by simp
  qed
qed

lemma draw_live:
  assumes live: "nq_live (q, h, c)" and some: "slots q \<noteq> []"
  obtains q' h' m b where "dequeue_from_node_queue q h c = Ret (OLY_OKAY, q', h')" and "load_node h' c = Ret m"
    and "q_strings q' = Some b" and "nq_live (q', h', c)" and "items q h = view b m # items q' h'"
proof -
  obtain xs b where inv: "q_inv q h xs b" "c \<notin> set xs" and c: "c \<notin> ring q" "nodes h c \<noteq> None"
    using live by (auto simp: nq_live_def)
  obtain a as where slots: "slots q = a # as" using some by (cases "slots q") auto
  obtain d where d: "nodes h c = Some d" using c(2) by blast
  obtain h' m where r: "dequeue_from_node_queue q h c = Ret (OLY_OKAY, q\<lparr>q_out := a\<rparr>, h')"
    "q_inv (q\<lparr>q_out := a\<rparr>) h' xs b" "items q h = view b m # items (q\<lparr>q_out := a\<rparr>) h'" "nodes h' c = Some m"
    "\<forall>a. a \<notin> ring q \<and> a \<noteq> c \<longrightarrow> nodes h' a = nodes h a" "settled b m" "\<forall>x. nodes h x \<noteq> None \<longrightarrow> nodes h' x \<noteq> None"
    by (rule dequeue_node [OF inv(1) slots d c(1) inv(2)])
  have ring: "ring (q\<lparr>q_out := a\<rparr>) = ring q" by (simp add: ring_def)
  have "nq_live (q\<lparr>q_out := a\<rparr>, h', c)"
    using r(2,7) inv(2) c unfolding nq_live_def prod.case ring by blast
  with r q_invD(4) [OF r(2)] that [of "q\<lparr>q_out := a\<rparr>" h' m b] show ?thesis by (simp add: load_node_def)
qed

lemma nq_careful_step:
  assumes "nq_live s" and "nq_careful s e" and "nq_step s e s'"
  shows "nq_live s' \<and> nq_items s @ queued [e] = drawn [e] @ nq_items s'"
  using assms(3)
proof (cases rule: nq_step.cases)
  case (step_queue h c n h1 q status q' h')
  have live: "nq_live (q, h, c)" and careful: "nq_careful (q, h, c) (Queue n status)"
    using step_queue assms(1,2) by simp_all
  obtain h2 q2 h3 where r: "store_node h c n = Ret h2" "enqueue_to_node_queue q h2 c = Ret (nq_answer q, q2, h3)"
    "nq_live (q2, h3, c)" "items q2 h3 = items q h @ queued [Queue n (nq_answer q)]"
    by (rule queue_live [OF live careful])
  then have "q' = q2" "h' = h3" "status = nq_answer q" using step_queue by simp_all
  with r step_queue show ?thesis by (simp add: nq_items_def)
next
  case (step_draw q h c q' h' m b)
  with assms(2) have "slots q \<noteq> []" by simp
  from draw_live [OF _ this, of h c] assms(1) step_draw(1)
  obtain q2 h2 m2 b2 where "dequeue_from_node_queue q h c = Ret (OLY_OKAY, q2, h2)" "load_node h2 c = Ret m2"
    "q_strings q2 = Some b2" "nq_live (q2, h2, c)" "items q h = view b2 m2 # items q2 h2" by metis
  with step_draw show ?thesis by (simp add: nq_items_def)
qed

lemma nq_careful_run:
  assumes "nq_run s tr s'" and "nq_live s"
  shows "nq_live s' \<and> nq_items s @ queued tr = drawn tr @ nq_items s'"
  using assms
proof (induction rule: nq_run.induct)
  case (nq_more s tr s' e s'')
  then have "nq_live s'" "nq_items s @ queued tr = drawn tr @ nq_items s'" by auto
  with nq_careful_step [OF this(1) nq_more.hyps(2,3)] show ?case
    by (metis append.assoc drawn_append queued_append)
qed simp

lemma nq_drain_run:
  assumes "nq_run s tr s'" and "nq_live s'"
  shows "\<exists>es s''. nq_run s (tr @ es) s'' \<and> nq_items s'' = [] \<and> queued es = [] \<and> drawn es = nq_items s'"
  using assms
proof (induction "nq_items s'" arbitrary: s' tr)
  case Nil
  then show ?case by (intro exI [of _ "[]"] exI [of _ s']) simp
next
  case (Cons v vs)
  obtain q h c where s': "s' = (q, h, c)" by (cases s')
  have "slots q \<noteq> []"
    using Cons.hyps(2) s' by (auto simp: nq_items_def items_def split: option.splits)
  with Cons.prems(2) s' obtain q1 h1 m b where r: "dequeue_from_node_queue q h c = Ret (OLY_OKAY, q1, h1)" "load_node h1 c = Ret m"
    "q_strings q1 = Some b" "nq_live (q1, h1, c)" "items q h = view b m # items q1 h1"
    using draw_live [of q h c] by metis
  have v: "view b m = v" "nq_items (q1, h1, c) = vs" using Cons.hyps(2) r(5) s' by (simp_all add: nq_items_def)
  have "nq_step s' (Draw v) (q1, h1, c)" unfolding s' v(1) [symmetric] using r(1-3) by (rule step_draw)
  moreover have "nq_careful s' (Draw v)" using \<open>slots q \<noteq> []\<close> s' by simp
  ultimately have "nq_run s (tr @ [Draw v]) (q1, h1, c)" using Cons.prems(1) by (intro nq_more)
  from Cons.hyps(1) [OF v(2) [symmetric] this r(4)] v(2)
  obtain es s'' where "nq_run s ((tr @ [Draw v]) @ es) s''" "nq_items s'' = []" "queued es = []" "drawn es = vs" by auto
  then show ?case using Cons.hyps(2) by (intro exI [of _ "Draw v # es"] exI [of _ s'']) simp
qed

text \<open>A careful event is never a fault: the operation returns.\<close>

lemma nq_progress:
  assumes "nq_live (q, h, c)"
  shows "nq_careful (q, h, c) (Queue n OLY_OKAY) \<Longrightarrow> \<exists>s'. nq_step (q, h, c) (Queue n (nq_answer q)) s'"
    and "items q h \<noteq> [] \<Longrightarrow> \<exists>s'. nq_step (q, h, c) (Draw (hd (items q h))) s'"
proof -
  assume "nq_careful (q, h, c) (Queue n OLY_OKAY)"
  from queue_live [OF assms this] show "\<exists>s'. nq_step (q, h, c) (Queue n (nq_answer q)) s'"
    using step_queue by metis
next
  assume some: "items q h \<noteq> []"
  then have "slots q \<noteq> []" by (auto simp: items_def split: option.splits)
  then obtain q' h' m b where "dequeue_from_node_queue q h c = Ret (OLY_OKAY, q', h')" "load_node h' c = Ret m"
    "q_strings q' = Some b" "items q h = view b m # items q' h'"
    using draw_live [OF assms] by metis
  then show "\<exists>s'. nq_step (q, h, c) (Draw (hd (items q h))) s'" using step_draw by fastforce
qed

text \<open>A queue that has just been opened, with a node of the client's from before.\<close>

lemma open_queue_live:
  assumes "open_node_queue (OLY_OKAY, n) junk cells h0 = Ret (OLY_OKAY, q, h)"
    and "sizeof_OlyNode * sizeof_OlyNode \<le> n" and "2 * n < size_mod" and "heap_ok h0"
    and "depth (junk (next_node h0)) = 0" and "nodes h0 c \<noteq> None"
  shows "nq_live (q, h, c) \<and> nq_items (q, h, c) = []"
proof -
  obtain q2 h2 b where o2: "open_node_queue (OLY_OKAY, n) junk cells h0 = Ret (OLY_OKAY, q2, h2)"
    "q_inv q2 h2 [] b" "slots q2 = []" "queue_start q2 = next_node h0"
    "\<forall>a. nodes h2 a \<noteq> None \<longleftrightarrow> nodes h0 a \<noteq> None \<or> next_node h0 \<le> a \<and> a < next_node h0 + n div 64 div 64"
    by (rule open_node_queue_inv [where junk = junk and cells = cells, OF assms(4,2,3,5)]) blast
  have "c < next_node h0" using assms(4,6) by (auto simp: heap_ok_def not_le)
  then have "c \<notin> ring q2" using o2(4) by (simp add: ring_def)
  with o2 assms(1,6) show ?thesis by (auto simp: nq_live_def nq_items_def items_def split: option.split)
qed

section \<open>Properties\<close>

text \<open>
  C31: Take a queue as \<open>open_node_queue\<close> leaves it, of any configured size that has room for a slot (one is
  allocated for every 4096 bytes), whose first slot happens to have depth 0. In whatever order a careful client enqueues
  nodes, of any level and with or without strings, and dequeues them, the queue stays well formed, and the
  nodes that were accepted are the ones that have come out, strings included, followed by the ones it still
  holds. At no point does the next careful call fault: an enqueue returns, with \<open>OLY_ERR_NODE_QUEUE_FULL\<close>
  exactly where the ring is full, and while the queue holds a node, a dequeue returns the oldest. Careful is a client that keeps
  to the levels and to the room for strings and stays inside the slots that have been allocated.
\<close>

theorem node_runs_stay_well_formed:
  assumes "open_node_queue (OLY_OKAY, n) junk cells h0 = Ret (OLY_OKAY, q, h)"
    and "sizeof_OlyNode * sizeof_OlyNode \<le> n" and "2 * n < size_mod" and "heap_ok h0"
    and "depth (junk (next_node h0)) = 0" and "nodes h0 c \<noteq> None"
    and "nq_run (q, h, c) tr (q', h', c')"
  shows "nq_live (q', h', c') \<and> queued tr = drawn tr @ items q' h'
    \<and> (\<forall>m. nq_careful (q', h', c') (Queue m OLY_OKAY) \<longrightarrow> (\<exists>s''. nq_step (q', h', c') (Queue m (nq_answer q')) s''))
    \<and> (items q' h' \<noteq> [] \<longrightarrow> (\<exists>s''. nq_step (q', h', c') (Draw (hd (items q' h'))) s''))"
proof -
  have live: "nq_live (q, h, c)" "nq_items (q, h, c) = []" using open_queue_live [OF assms(1-6)] by blast+
  from nq_careful_run [OF assms(7) live(1)] live(2)
  have r: "nq_live (q', h', c')" "queued tr = drawn tr @ items q' h'" by (simp_all add: nq_items_def)
  from nq_progress [OF r(1)] r show ?thesis by blast
qed

text \<open>The queue of the configured default size, \<open>BUFSIZ\<close>, and a client's node at 1.\<close>

definition client_heap :: "OlyNode \<Rightarrow> node_heap" where
  "client_heap n = \<lparr>nodes = [1 \<mapsto> n], next_node = 2\<rparr>"

lemma default_size: "sizeof_OlyNode * sizeof_OlyNode \<le> BUFSIZ" "2 * BUFSIZ < size_mod"
  by (simp_all add: BUFSIZ_def sizeof_OlyNode_def size_mod_def)

lemma client_heap_ok: "heap_ok (client_heap n)" "nodes (client_heap n) 1 = Some n" "next_node (client_heap n) = 2"
    "nodes (client_heap n) 1 \<noteq> None"
  by (auto simp: client_heap_def heap_ok_def)

lemma fresh_depth: "depth fresh_node = 0"
  by (simp add: fresh_node_def)

lemma default_run:
  obtains q h s' where
    "open_node_queue (OLY_OKAY, BUFSIZ) (\<lambda>_. fresh_node) (\<lambda>_. 7) (client_heap fresh_node) = Ret (OLY_OKAY, q, h)"
    and "nq_run (q, h, 1) [Queue sample_client OLY_OKAY] s'"
proof -
  obtain q h b where o': "open_node_queue (OLY_OKAY, BUFSIZ) (\<lambda>_. fresh_node) (\<lambda>_. 7) (client_heap fresh_node) = Ret (OLY_OKAY, q, h)"
    "q_inv q h [] b" "sb_room b = BUFSIZ - 2" "q_stack q = 0" "q_in q = 2" "q_out q = 2" "queue_end q = 2 + BUFSIZ div 64"
    "\<forall>a. nodes h a \<noteq> None \<longleftrightarrow> nodes (client_heap fresh_node) a \<noteq> None \<or> 2 \<le> a \<and> a < 2 + BUFSIZ div 64 div 64"
    using fresh_depth
    by (elim open_node_queue_inv [where junk = "\<lambda>_. fresh_node" and cells = "\<lambda>_. 7", OF client_heap_ok(1) [of fresh_node] default_size])
      (simp add: client_heap_ok(3))
  have live: "nq_live (q, h, 1)"
    using open_queue_live [OF o'(1) default_size client_heap_ok(1) fresh_depth client_heap_ok(4)] by blast
  have step: "step_in q = Some 3" using o'(5-7) by (simp add: step_in_def BUFSIZ_def)
  have mapped: "nodes h 3 \<noteq> None" using o'(8) by (simp add: BUFSIZ_def)
  have careful: "nq_careful (q, h, 1) (Queue sample_client OLY_OKAY)"
    using step mapped o'(3,4) q_invD(4) [OF o'(2)] sample_client_ok
    by (auto simp: slot_mapped_def BUFSIZ_def intro!: exI [of _ "[]"])
  have "nq_answer q = OLY_OKAY" using step by (simp add: nq_answer_def)
  with nq_progress(1) [OF live careful] obtain s' where "nq_step (q, h, 1) (Queue sample_client OLY_OKAY) s'" by auto
  from nq_more [OF nq_start careful this] that [OF o'(1)] show ?thesis by simp
qed

theorem node_runs_stay_well_formed_witness:
  "\<exists>q h q' h' c'. open_node_queue (OLY_OKAY, BUFSIZ) (\<lambda>_. fresh_node) (\<lambda>_. 7) (client_heap fresh_node) = Ret (OLY_OKAY, q, h)
    \<and> nq_run (q, h, 1) [Queue sample_client OLY_OKAY] (q', h', c')
    \<and> nq_live (q', h', c') \<and> items q' h' = [client_view sample_client]
    \<and> (\<exists>s''. nq_step (q', h', c') (Draw (client_view sample_client)) s'')"
proof -
  obtain q h s' where o': "open_node_queue (OLY_OKAY, BUFSIZ) (\<lambda>_. fresh_node) (\<lambda>_. 7) (client_heap fresh_node) = Ret (OLY_OKAY, q, h)"
    and run: "nq_run (q, h, 1) [Queue sample_client OLY_OKAY] s'" by (rule default_run)
  obtain q' h' c' where s': "s' = (q', h', c')" by (cases s')
  note r = node_runs_stay_well_formed [OF o' default_size client_heap_ok(1) fresh_depth client_heap_ok(4) run [unfolded s']]
  from r have live: "nq_live (q', h', c')" and held: "items q' h' = [client_view sample_client]" by simp_all
  moreover from r held have "\<exists>s''. nq_step (q', h', c') (Draw (hd (items q' h'))) s''" by (metis not_Cons_self2)
  then have "\<exists>s''. nq_step (q', h', c') (Draw (client_view sample_client)) s''" by (simp only: held list.sel(1))
  ultimately show ?thesis using o' run [unfolded s'] by blast
qed

text \<open>
  C32: On a queue as \<open>open_node_queue\<close> leaves it, of a size with room for a slot and with depth 0 in its first
  one, every careful run can be continued by dequeuing until the queue is empty, and then every node
  that was accepted has come out, in order.
\<close>

theorem every_node_is_delivered:
  assumes "open_node_queue (OLY_OKAY, n) junk cells h0 = Ret (OLY_OKAY, q, h)"
    and "sizeof_OlyNode * sizeof_OlyNode \<le> n" and "2 * n < size_mod" and "heap_ok h0"
    and "depth (junk (next_node h0)) = 0" and "nodes h0 c \<noteq> None"
    and "nq_run (q, h, c) tr s'"
  shows "\<exists>es s''. nq_run (q, h, c) (tr @ es) s'' \<and> nq_items s'' = [] \<and> queued es = []
    \<and> drawn (tr @ es) = queued tr"
proof -
  have live: "nq_live (q, h, c)" "nq_items (q, h, c) = []" using open_queue_live [OF assms(1-6)] by blast+
  note r = nq_careful_run [OF assms(7) live(1)]
  obtain es s'' where "nq_run (q, h, c) (tr @ es) s''" "nq_items s'' = []" "queued es = []" "drawn es = nq_items s'"
    using nq_drain_run [OF assms(7)] r by blast
  with r live(2) show ?thesis by (intro exI [of _ es] exI [of _ s'']) simp
qed

theorem every_node_is_delivered_witness:
  "\<exists>q h es s''. open_node_queue (OLY_OKAY, BUFSIZ) (\<lambda>_. fresh_node) (\<lambda>_. 7) (client_heap fresh_node) = Ret (OLY_OKAY, q, h)
    \<and> nq_run (q, h, 1) ([Queue sample_client OLY_OKAY] @ es) s''
    \<and> nq_items s'' = [] \<and> drawn ([Queue sample_client OLY_OKAY] @ es) = [client_view sample_client]"
proof -
  obtain q h s' where o': "open_node_queue (OLY_OKAY, BUFSIZ) (\<lambda>_. fresh_node) (\<lambda>_. 7) (client_heap fresh_node) = Ret (OLY_OKAY, q, h)"
    and run: "nq_run (q, h, 1) [Queue sample_client OLY_OKAY] s'" by (rule default_run)
  have "\<exists>es s''. nq_run (q, h, 1) ([Queue sample_client OLY_OKAY] @ es) s'' \<and> nq_items s'' = [] \<and> queued es = []
    \<and> drawn ([Queue sample_client OLY_OKAY] @ es) = queued [Queue sample_client OLY_OKAY]"
    by (rule every_node_is_delivered [OF o' default_size client_heap_ok(1) fresh_depth client_heap_ok(4) run])
  with o' show ?thesis by auto
qed

end
