(* ===== verification/Tag.thy ===== *)
theory Tag
  imports Node
begin

text \<open>
  Tags of scalars, from \<^verbatim>\<open>src/node/tag.c\<close>: the table of basic tags, the checks that infer a tag
  from the text of a scalar, and the imports that fill a node value from it. The regular
  expressions and number formats of ICU are parameters; the expressions themselves are those of
  \<^verbatim>\<open>i18n/root.txt\<close>.
\<close>

section \<open>What the code uses of ICU\<close>

datatype OlyTagCheck =
    OLY_TAG_CHECK_NULL
  | OLY_TAG_CHECK_BOOL_TRUE
  | OLY_TAG_CHECK_BOOL_FALSE
  | OLY_TAG_CHECK_INT
  | OLY_TAG_CHECK_UINT_OCT
  | OLY_TAG_CHECK_UINT_HEX
  | OLY_TAG_CHECK_FLOAT
  | OLY_TAG_CHECK_PLUS_INFINITY
  | OLY_TAG_CHECK_MINUS_INFINITY
  | OLY_TAG_CHECK_NOT_A_NUMBER
  | OLY_TAG_CHECK_STRING

text \<open>
  The library calls take the memory at the input pointer. Each yields the error code it leaves;
  \<open>parse_int\<close> and \<open>parse_double\<close> also yield the position behind the number, \<open>scan_hex\<close> yields
  no number when there is none. \<open>pointer_byte\<close> tells whether the first byte of a union that holds
  a non-null pointer differs from 0.
\<close>

record tag_lib =
  regex_set :: "OlyTagCheck \<Rightarrow> ochar list \<Rightarrow> int"
  regex_matches :: "OlyTagCheck \<Rightarrow> ochar list \<Rightarrow> bool \<times> int"
  parse_int :: "ochar list \<Rightarrow> 32 word \<times> nat \<times> int"
  parse_double :: "ochar list \<Rightarrow> 64 word \<times> nat \<times> int"
  scan_hex :: "ochar list \<Rightarrow> 32 word option"
  pointer_byte :: "OlyUnion \<Rightarrow> bool"

section \<open>Opening the regular expressions\<close>

definition init_tag_regexp :: "'b \<times> int \<Rightarrow> 'b outcome" where
  \<comment> \<open>what \<^verbatim>\<open>ures_getByKey\<close> yields for the key \<open>SimpleTagRegExp\<close>\<close>
  "init_tag_regexp fetched = (if U_FAILURE (snd fetched) then Halt else Ret (fst fetched))"

text \<open>
  The loop of \<open>init_regexp_data\<close>: the error code is passed on from call to call and from round to
  round; \<open>get\<close> and \<open>compile\<close> are \<^verbatim>\<open>ures_getStringByIndex\<close> and \<^verbatim>\<open>uregex_open\<close>.
\<close>

fun open_regexps ::
  "(nat \<Rightarrow> int \<Rightarrow> 's \<times> int) \<Rightarrow> ('s \<Rightarrow> int \<Rightarrow> 'r \<times> int) \<Rightarrow> nat list \<Rightarrow> int \<Rightarrow> OlyStatus \<Rightarrow> 'r list
   \<Rightarrow> OlyStatus \<times> 'r list" where
  "open_regexps get compile [] u_status status table = (status, table)"
| "open_regexps get compile (i # is) u_status status table =
     (let (regexp, u_status) = get i u_status;
          status = (if U_FAILURE u_status then OLY_ERR_ILLEGAL_TAG else status);
          (compiled, u_status) = compile regexp u_status;
          status = (if U_FAILURE u_status then OLY_ERR_ILLEGAL_TAG else status)
      in open_regexps get compile is u_status status (table @ [compiled]))"

definition init_regexp_data ::
  "'b \<times> int \<Rightarrow> int \<Rightarrow> ('b \<Rightarrow> nat \<Rightarrow> int \<Rightarrow> 's \<times> int) \<Rightarrow> ('s \<Rightarrow> int \<Rightarrow> 'r \<times> int)
   \<Rightarrow> (OlyStatus \<times> 'r list) outcome" where
  \<comment> \<open>\<open>unum\<close>: the error code \<^verbatim>\<open>unum_open\<close> leaves\<close>
  "init_regexp_data fetched unum get compile =
     obind (init_tag_regexp fetched) (\<lambda>tag_regexp_data.
     if U_FAILURE unum then Halt
     else Ret (open_regexps (get tag_regexp_data) compile [0..<10] unum OLY_OKAY []))"

section \<open>Checks\<close>

definition set_text :: "tag_lib \<Rightarrow> OlyTagCheck \<Rightarrow> ochar list \<Rightarrow> unit outcome" where
  "set_text lib k input = (if U_FAILURE (regex_set lib k input) then Halt else Ret ())"

definition check_text :: "tag_lib \<Rightarrow> OlyTagCheck \<Rightarrow> ochar list \<Rightarrow> OlyStatus outcome" where
  \<comment> \<open>the sequence the checks of one expression share\<close>
  "check_text lib k input =
     obind (set_text lib k input) (\<lambda>_.
     case regex_matches lib k input of (matched, u_status) \<Rightarrow>
       if U_FAILURE u_status then Halt
       else Ret (if matched then OLY_OKAY else OLY_WARN_TAG_NOT_MATCH))"

definition check_either :: "tag_lib \<Rightarrow> OlyTagCheck \<Rightarrow> OlyTagCheck \<Rightarrow> ochar list \<Rightarrow> OlyStatus outcome" where
  \<comment> \<open>the sequence the checks of two expressions share: a match of the first one returns at once\<close>
  "check_either lib k1 k2 input =
     obind (set_text lib k1 input) (\<lambda>_.
     case regex_matches lib k1 input of (matched, u_status) \<Rightarrow>
       if matched then Ret OLY_OKAY
       else if U_FAILURE u_status then Halt
       else check_text lib k2 input)"

definition check_tag_null :: "tag_lib \<Rightarrow> ochar list \<Rightarrow> OlyStatus outcome" where
  "check_tag_null lib input =
     obind (peek input 0) (\<lambda>c.
     if c = 0 then Ret OLY_OKAY else check_text lib OLY_TAG_CHECK_NULL input)"

definition check_tag_bool :: "tag_lib \<Rightarrow> ochar list \<Rightarrow> OlyStatus outcome" where
  "check_tag_bool lib input = check_either lib OLY_TAG_CHECK_BOOL_FALSE OLY_TAG_CHECK_BOOL_TRUE input"

definition check_tag_int :: "tag_lib \<Rightarrow> ochar list \<Rightarrow> OlyStatus outcome" where
  "check_tag_int lib input = check_text lib OLY_TAG_CHECK_INT input"

definition check_tag_uint :: "tag_lib \<Rightarrow> ochar list \<Rightarrow> OlyStatus outcome" where
  "check_tag_uint lib input = check_either lib OLY_TAG_CHECK_UINT_OCT OLY_TAG_CHECK_UINT_HEX input"

definition check_tag_float :: "tag_lib \<Rightarrow> ochar list \<Rightarrow> OlyStatus outcome" where
  "check_tag_float lib input = check_text lib OLY_TAG_CHECK_FLOAT input"

definition check_tag_plus_inf :: "tag_lib \<Rightarrow> ochar list \<Rightarrow> OlyStatus outcome" where
  "check_tag_plus_inf lib input = check_text lib OLY_TAG_CHECK_PLUS_INFINITY input"

definition check_tag_minus_inf :: "tag_lib \<Rightarrow> ochar list \<Rightarrow> OlyStatus outcome" where
  "check_tag_minus_inf lib input = check_text lib OLY_TAG_CHECK_MINUS_INFINITY input"

definition check_tag_nan :: "tag_lib \<Rightarrow> ochar list \<Rightarrow> OlyStatus outcome" where
  \<comment> \<open>the error code of the match is not looked at\<close>
  "check_tag_nan lib input =
     obind (set_text lib OLY_TAG_CHECK_NOT_A_NUMBER input) (\<lambda>_.
     Ret (if fst (regex_matches lib OLY_TAG_CHECK_NOT_A_NUMBER input)
          then OLY_OKAY else OLY_WARN_TAG_NOT_MATCH))"

definition check_tag_string :: "tag_lib \<Rightarrow> ochar list \<Rightarrow> OlyStatus outcome" where
  "check_tag_string lib input = Ret OLY_OKAY"

section \<open>Imports\<close>

text \<open>The input pointer is the start of the memory \<open>input\<close>.\<close>

type_synonym import_result = "(OlyStatus \<times> OlyNodeValue) outcome"

definition set_value :: "OlyUnion \<Rightarrow> OlyTagType \<Rightarrow> OlyNodeValue" where
  "set_value u type = \<lparr>union = u, vtype = tag_code type\<rparr>"

definition import_tag_null :: "tag_lib \<Rightarrow> ochar list \<Rightarrow> OlyNodeValue \<Rightarrow> import_result" where
  "import_tag_null lib input output = Ret (OLY_OKAY, set_value (String_value SNull) OLY_TAG_SCALAR_NULL)"

definition as_bool :: "tag_lib \<Rightarrow> OlyUnion \<Rightarrow> bool" where
  \<comment> \<open>the first byte of the union, on a little-endian machine\<close>
  "as_bool lib u =
     (case u of
        Bool_value b \<Rightarrow> b
      | Float_value w \<Rightarrow> take_bit 8 w \<noteq> 0
      | Int_value w \<Rightarrow> take_bit 8 w \<noteq> 0
      | Uint_value w \<Rightarrow> take_bit 8 w \<noteq> 0
      | String_value s \<Rightarrow> s \<noteq> SNull \<and> pointer_byte lib u
      | _ \<Rightarrow> pointer_byte lib u)"

definition import_tag_bool :: "tag_lib \<Rightarrow> ochar list \<Rightarrow> OlyNodeValue \<Rightarrow> import_result" where
  "import_tag_bool lib input output =
     obind (set_text lib OLY_TAG_CHECK_BOOL_FALSE input) (\<lambda>_.
     case regex_matches lib OLY_TAG_CHECK_BOOL_FALSE input of (is_false, u_status) \<Rightarrow>
     let output = (if is_false then output\<lparr>union := Bool_value False\<rparr> else output) in
     if U_FAILURE u_status then Halt
     else
       obind (set_text lib OLY_TAG_CHECK_BOOL_TRUE input) (\<lambda>_.
       case regex_matches lib OLY_TAG_CHECK_BOOL_TRUE input of (is_true, u_status) \<Rightarrow>
       let (status, output) =
         (if is_true then (OLY_OKAY, output\<lparr>union := Bool_value True\<rparr>)
          else if as_bool lib (union output) then (OLY_WARN_TAG_NOT_MATCH, output)
          else (OLY_OKAY, output))
       in
       if U_FAILURE u_status then Halt
       else Ret (status, if status = OLY_OKAY then output\<lparr>vtype := tag_code OLY_TAG_SCALAR_BOOL\<rparr>
                         else output)))"

definition import_number ::
  "OlyUnion \<Rightarrow> OlyTagType \<Rightarrow> nat \<Rightarrow> int \<Rightarrow> ochar list \<Rightarrow> import_result" where
  \<comment> \<open>what the two number imports do with the number they have parsed\<close>
  "import_number u type pos u_status input =
     (if U_FAILURE u_status then Halt
      else obind (peek input pos) (\<lambda>c.
        if c \<noteq> 0 then Ret (OLY_WARN_TAG_NOT_MATCH, set_value (String_value SNull) OLY_TAG_TYPE_UNSET)
        else Ret (OLY_OKAY, set_value u type)))"

definition import_tag_int :: "tag_lib \<Rightarrow> ochar list \<Rightarrow> OlyNodeValue \<Rightarrow> import_result" where
  "import_tag_int lib input output =
     (case parse_int lib input of (n, pos, u_status) \<Rightarrow>
        import_number (Int_value (scast n)) OLY_TAG_SCALAR_INT pos u_status input)"

definition import_tag_uint :: "tag_lib \<Rightarrow> ochar list \<Rightarrow> OlyNodeValue \<Rightarrow> import_result" where
  \<comment> \<open>88 and 120 are X and x; the scan writes the low half of a zeroed \<^verbatim>\<open>long\<close>\<close>
  "import_tag_uint lib input output =
     obind (peek input 1) (\<lambda>c.
     if c = 120 \<or> c = 88 then
       Ret (OLY_OKAY, set_value
         (Uint_value (case scan_hex lib input of None \<Rightarrow> 0 | Some w \<Rightarrow> ucast w)) OLY_TAG_SCALAR_UINT)
     else Ret (OLY_WARN_TAG_NOT_MATCH, set_value (String_value SNull) OLY_TAG_TYPE_UNSET))"

definition import_tag_float :: "tag_lib \<Rightarrow> ochar list \<Rightarrow> OlyNodeValue \<Rightarrow> import_result" where
  "import_tag_float lib input output =
     (case parse_double lib input of (d, pos, u_status) \<Rightarrow>
        import_number (Float_value d) OLY_TAG_SCALAR_FLOAT pos u_status input)"

definition import_word ::
  "tag_lib \<Rightarrow> OlyTagCheck \<Rightarrow> OlyTagType \<Rightarrow> ochar list \<Rightarrow> OlyNodeValue \<Rightarrow> import_result" where
  \<comment> \<open>the sequence the imports of the three special numbers share\<close>
  "import_word lib k type input output =
     obind (set_text lib k input) (\<lambda>_.
     case regex_matches lib k input of (matched, u_status) \<Rightarrow>
     if U_FAILURE u_status then Halt
     else Ret (if matched then (OLY_OKAY, set_value (String_value SNull) type)
               else (OLY_WARN_TAG_NOT_MATCH, output\<lparr>vtype := tag_code OLY_TAG_TYPE_UNSET\<rparr>)))"

definition import_tag_plus_inf :: "tag_lib \<Rightarrow> ochar list \<Rightarrow> OlyNodeValue \<Rightarrow> import_result" where
  "import_tag_plus_inf lib = import_word lib OLY_TAG_CHECK_PLUS_INFINITY OLY_TAG_SCALAR_PLUS_INFINITY"

definition import_tag_minus_inf :: "tag_lib \<Rightarrow> ochar list \<Rightarrow> OlyNodeValue \<Rightarrow> import_result" where
  "import_tag_minus_inf lib = import_word lib OLY_TAG_CHECK_MINUS_INFINITY OLY_TAG_SCALAR_MINUS_INFINITY"

definition import_tag_nan :: "tag_lib \<Rightarrow> ochar list \<Rightarrow> OlyNodeValue \<Rightarrow> import_result" where
  "import_tag_nan lib = import_word lib OLY_TAG_CHECK_NOT_A_NUMBER OLY_TAG_SCALAR_NOT_A_NUMBER"

definition import_tag_string :: "tag_lib \<Rightarrow> ochar list \<Rightarrow> OlyNodeValue \<Rightarrow> import_result" where
  "import_tag_string lib input output = Ret (OLY_OKAY, set_value (String_value (SExt input)) OLY_TAG_SCALAR_STRING)"

section \<open>The table of tags\<close>

record OlyTag =
  check :: "ochar list \<Rightarrow> OlyStatus outcome"
  import_value :: "ochar list \<Rightarrow> OlyNodeValue \<Rightarrow> import_result"
  internal_type :: OlyTagType

definition basic_tag :: "tag_lib \<Rightarrow> OlyTag list" where
  "basic_tag lib =
    [\<lparr>check = check_tag_null lib, import_value = import_tag_null lib, internal_type = OLY_TAG_SCALAR_NULL\<rparr>,
     \<lparr>check = check_tag_bool lib, import_value = import_tag_bool lib, internal_type = OLY_TAG_SCALAR_BOOL\<rparr>,
     \<lparr>check = check_tag_int lib, import_value = import_tag_int lib, internal_type = OLY_TAG_SCALAR_INT\<rparr>,
     \<lparr>check = check_tag_uint lib, import_value = import_tag_uint lib, internal_type = OLY_TAG_SCALAR_UINT\<rparr>,
     \<lparr>check = check_tag_float lib, import_value = import_tag_float lib, internal_type = OLY_TAG_SCALAR_FLOAT\<rparr>,
     \<lparr>check = check_tag_plus_inf lib, import_value = import_tag_plus_inf lib,
      internal_type = OLY_TAG_SCALAR_PLUS_INFINITY\<rparr>,
     \<lparr>check = check_tag_minus_inf lib, import_value = import_tag_minus_inf lib,
      internal_type = OLY_TAG_SCALAR_MINUS_INFINITY\<rparr>,
     \<lparr>check = check_tag_nan lib, import_value = import_tag_nan lib,
      internal_type = OLY_TAG_SCALAR_NOT_A_NUMBER\<rparr>,
     \<lparr>check = check_tag_string lib, import_value = import_tag_string lib,
      internal_type = OLY_TAG_SCALAR_STRING\<rparr>]"

text \<open>
  The loop of \<open>infer_simple_tag\<close> from index \<open>i\<close> on: the status, and the number stored through
  \<open>type_out\<close>, if any.
\<close>

fun infer_from :: "OlyTag list \<Rightarrow> nat \<Rightarrow> ochar list \<Rightarrow> (OlyStatus \<times> int option) outcome" where
  "infer_from [] i scalar = Ret (OLY_OKAY, None)"
| "infer_from (t # ts) i scalar =
     obind (check t scalar) (\<lambda>status.
     if status = OLY_OKAY then Ret (OLY_OKAY, Some (int i))
     else if status = OLY_WARN_TAG_NOT_MATCH then infer_from ts (Suc i) scalar
     else Ret (status, None))"

definition infer_simple_tag :: "tag_lib \<Rightarrow> ochar list \<Rightarrow> (OlyStatus \<times> int option) outcome" where
  "infer_simple_tag lib scalar = infer_from (basic_tag lib) 0 scalar"

definition convert_tag ::
  "tag_lib \<Rightarrow> ochar list \<Rightarrow> int option \<Rightarrow> OlyNodeValue \<Rightarrow> import_result" where
  \<comment> \<open>\<open>tag_type\<close> is the number the pointer leads to, \<open>None\<close> for a null pointer, which the
    inference stores through and the import reads through\<close>
  "convert_tag lib scalar tag_type val =
     (case tag_type of
        None \<Rightarrow>
          obind (infer_simple_tag lib scalar) (\<lambda>(status, found).
          if found \<noteq> None then Crash
          else if status = OLY_OKAY then Crash
          else Ret (status, val))
      | Some t \<Rightarrow>
          if 0 \<le> t \<and> t < int (length (basic_tag lib))
          then import_value (basic_tag lib ! nat t) scalar val
          else Crash)"

section \<open>The expressions of the core schema\<close>

text \<open>
  The part of the expression language that the patterns use, with what it means for an
  expression to match a whole text.
\<close>

datatype rexp =
    Chars "(char \<times> char) list"
  | Any
  | Word string
  | Alt rexp rexp
  | Seq rexp rexp
  | Star rexp

definition code :: "char \<Rightarrow> ochar" where
  "code c = of_char c"

definition in_ranges :: "(char \<times> char) list \<Rightarrow> ochar \<Rightarrow> bool" where
  "in_ranges R c \<longleftrightarrow> (\<exists>(a, b)\<in>set R. code a \<le> c \<and> c \<le> code b)"

text \<open>
  The wild card takes one character, which in UTF-16 may be a pair of surrogates, unless it ends a line.
\<close>

definition one_char :: "ochar list \<Rightarrow> bool" where
  "one_char s \<longleftrightarrow>
     (case s of
        [c] \<Rightarrow> c \<notin> {0x0a, 0x0b, 0x0c, 0x0d, 0x85, 0x2028, 0x2029}
      | [c, d] \<Rightarrow> drop_bit 10 c = 0x36 \<and> drop_bit 10 d = 0x37
      | _ \<Rightarrow> False)"

function matches :: "rexp \<Rightarrow> ochar list \<Rightarrow> bool" where
  "matches (Chars R) s \<longleftrightarrow> (case s of [c] \<Rightarrow> in_ranges R c | _ \<Rightarrow> False)"
| "matches Any s \<longleftrightarrow> one_char s"
| "matches (Word w) s \<longleftrightarrow> s = map code w"
| "matches (Alt a b) s \<longleftrightarrow> matches a s \<or> matches b s"
| "matches (Seq a b) s \<longleftrightarrow> (\<exists>i\<in>set [0..<Suc (length s)]. matches a (take i s) \<and> matches b (drop i s))"
| "matches (Star a) s \<longleftrightarrow>
     s = [] \<or> (\<exists>i\<in>set [1..<Suc (length s)]. matches a (take i s) \<and> matches (Star a) (drop i s))"
  by pat_completeness auto
termination
  by (relation "measures [\<lambda>(r, s). size r, \<lambda>(r, s). length s]") auto

declare matches.simps(5,6) [simp del]

definition Plus :: "rexp \<Rightarrow> rexp" where
  "Plus r = Seq r (Star r)"

definition Opt :: "rexp \<Rightarrow> rexp" where
  "Opt r = Alt (Word '''') r"

definition sign :: rexp where
  "sign = Opt (Chars [(CHR ''-'', CHR ''-''), (CHR ''+'', CHR ''+'')])"

definition digits :: "(char \<times> char) list" where
  "digits = [(CHR ''0'', CHR ''9'')]"

definition octal_digits :: "(char \<times> char) list" where
  "octal_digits = [(CHR ''0'', CHR ''7'')]"

definition hex_digits :: "(char \<times> char) list" where
  "hex_digits = [(CHR ''0'', CHR ''9''), (CHR ''a'', CHR ''f''), (CHR ''A'', CHR ''F'')]"

text \<open>
  The entries of \<open>SimpleTagRegExp\<close>, as they reach \<^verbatim>\<open>uregex_open\<close>. The resource compiler takes a backslash off
  every string: what it does not know as an escape stands for the character behind the backslash. The three
  backslashes of the floating point number leave an escaped dot, which is a dot; the single one of the three special
  numbers leaves a bare dot, which is the wild card. The last entry is never opened.
\<close>

definition any_then :: "string list \<Rightarrow> rexp" where
  "any_then ws = foldr (\<lambda>w r. Alt (Seq Any (Word w)) r) (butlast ws) (Seq Any (Word (last ws)))"

definition SimpleTagRegExp :: "OlyTagCheck \<Rightarrow> rexp option" where
  "SimpleTagRegExp k =
     (case k of
        OLY_TAG_CHECK_NULL \<Rightarrow> Some (Alt (Word ''null'') (Alt (Word ''Null'') (Alt (Word ''NULL'') (Word ''~''))))
      | OLY_TAG_CHECK_BOOL_TRUE \<Rightarrow> Some (Alt (Word ''true'') (Alt (Word ''True'') (Word ''TRUE'')))
      | OLY_TAG_CHECK_BOOL_FALSE \<Rightarrow> Some (Alt (Word ''false'') (Alt (Word ''False'') (Word ''FALSE'')))
      | OLY_TAG_CHECK_INT \<Rightarrow> Some (Seq sign (Plus (Chars digits)))
      | OLY_TAG_CHECK_UINT_OCT \<Rightarrow> Some (Seq (Word ''0o'') (Plus (Chars octal_digits)))
      | OLY_TAG_CHECK_UINT_HEX \<Rightarrow> Some (Seq (Word ''0x'') (Plus (Chars hex_digits)))
      | OLY_TAG_CHECK_FLOAT \<Rightarrow>
          Some (Seq sign (Seq
            (Alt (Seq (Word ''.'') (Plus (Chars digits)))
                 (Seq (Plus (Chars digits)) (Opt (Seq (Word ''.'') (Star (Chars digits))))))
            (Opt (Seq (Chars [(CHR ''e'', CHR ''e''), (CHR ''E'', CHR ''E'')])
                      (Seq sign (Plus (Chars digits)))))))
      | OLY_TAG_CHECK_PLUS_INFINITY \<Rightarrow>
          Some (Seq (Opt (Chars [(CHR ''+'', CHR ''+'')])) (any_then [''inf'', ''Inf'', ''INF'']))
      | OLY_TAG_CHECK_MINUS_INFINITY \<Rightarrow>
          Some (Seq (Chars [(CHR ''-'', CHR ''-'')]) (any_then [''inf'', ''Inf'', ''INF'']))
      | OLY_TAG_CHECK_NOT_A_NUMBER \<Rightarrow> Some (any_then [''nan'', ''NaN'', ''NAN''])
      | OLY_TAG_CHECK_STRING \<Rightarrow> None)"

text \<open>
  A library that works: no call fails, and a text matches where its expression says so.
\<close>

definition lib_ok :: "tag_lib \<Rightarrow> bool" where
  "lib_ok lib \<longleftrightarrow>
     (\<forall>k m. \<not> U_FAILURE (regex_set lib k m) \<and> \<not> U_FAILURE (snd (regex_matches lib k m)))
     \<and> (\<forall>k r m. SimpleTagRegExp k = Some r \<longrightarrow> fst (regex_matches lib k m) = matches r (takeWhile (\<lambda>c. c \<noteq> 0) m))"

section \<open>What the expressions say\<close>

lemma matches_Seq: "matches (Seq a b) s \<longleftrightarrow> (\<exists>u v. s = u @ v \<and> matches a u \<and> matches b v)"
proof
  assume "matches (Seq a b) s"
  then show "\<exists>u v. s = u @ v \<and> matches a u \<and> matches b v"
    by (auto simp: matches.simps(5) simp del: upt_Suc) (metis append_take_drop_id)
next
  assume "\<exists>u v. s = u @ v \<and> matches a u \<and> matches b v"
  then obtain u v where "s = u @ v" "matches a u" "matches b v" by blast
  then show "matches (Seq a b) s"
    by (auto simp: matches.simps(5) simp del: upt_Suc intro!: bexI [of _ "length u"])
qed

lemma matches_Chars: "matches (Chars R) s \<longleftrightarrow> (\<exists>c. s = [c] \<and> in_ranges R c)"
  by (auto split: list.splits)

lemma matches_Star: "matches (Star a) s \<longleftrightarrow>
    s = [] \<or> (\<exists>u v. s = u @ v \<and> u \<noteq> [] \<and> matches a u \<and> matches (Star a) v)"
proof -
  have "(\<exists>i\<in>set [1..<Suc (length s)]. matches a (take i s) \<and> matches (Star a) (drop i s))
      \<longleftrightarrow> (\<exists>u v. s = u @ v \<and> u \<noteq> [] \<and> matches a u \<and> matches (Star a) v)" (is "?l \<longleftrightarrow> ?r")
  proof
    assume ?l
    then obtain i where "1 \<le> i" "i \<le> length s" "matches a (take i s)" "matches (Star a) (drop i s)"
      unfolding set_upt Bex_def atLeastLessThan_iff by fastforce
    then show ?r by (intro exI [of _ "take i s"] exI [of _ "drop i s"]) auto
  next
    assume ?r
    then obtain u v where uv: "s = u @ v" "u \<noteq> []" "matches a u" "matches (Star a) v" by blast
    have "length u \<in> set [1..<Suc (length s)]" using uv unfolding set_upt by (cases u) auto
    with uv show ?l by (intro bexI [of _ "length u"]) (simp_all only: append_take_drop_id take_append
        drop_append, simp_all)
  qed
  then show ?thesis by (subst matches.simps(6)) (rule arg_cong [where f = "\<lambda>x. s = [] \<or> x"])
qed

lemma matches_Star_Chars: "matches (Star (Chars R)) s \<longleftrightarrow> (\<forall>c\<in>set s. in_ranges R c)"
proof (induction s)
  case Nil
  then show ?case by (subst matches_Star) simp
next
  case (Cons c s)
  have "matches (Star (Chars R)) (c # s) \<longleftrightarrow> in_ranges R c \<and> matches (Star (Chars R)) s"
  proof
    assume "matches (Star (Chars R)) (c # s)"
    then show "in_ranges R c \<and> matches (Star (Chars R)) s"
      by (subst (asm) matches_Star) (auto simp: matches_Chars simp del: matches.simps(1))
  next
    assume "in_ranges R c \<and> matches (Star (Chars R)) s"
    then have "c # s = [c] @ s \<and> [c] \<noteq> [] \<and> matches (Chars R) [c] \<and> matches (Star (Chars R)) s" by simp
    then show "matches (Star (Chars R)) (c # s)" by (subst matches_Star) blast
  qed
  with Cons.IH show ?case by simp
qed

lemma matches_Plus_Chars: "matches (Plus (Chars R)) s \<longleftrightarrow> s \<noteq> [] \<and> (\<forall>c\<in>set s. in_ranges R c)"
proof
  assume "matches (Plus (Chars R)) s"
  then show "s \<noteq> [] \<and> (\<forall>c\<in>set s. in_ranges R c)"
    by (auto simp: Plus_def matches_Seq matches_Star_Chars matches_Chars simp del: matches.simps(1))
next
  assume s: "s \<noteq> [] \<and> (\<forall>c\<in>set s. in_ranges R c)"
  then obtain c t where "s = [c] @ t" by (cases s) auto
  with s show "matches (Plus (Chars R)) s"
    unfolding Plus_def matches_Seq matches_Star_Chars by (intro exI [of _ "[c]"] exI [of _ t]) auto
qed

lemma matches_sign: "matches sign s \<longleftrightarrow> s = [] \<or> s = [code CHR ''-''] \<or> s = [code CHR ''+'']"
  by (auto simp: sign_def Opt_def in_ranges_def matches_Chars simp del: matches.simps(1))

text \<open>Decimal and based numbers, said directly.\<close>

definition is_decimal :: "ochar list \<Rightarrow> bool" where
  "is_decimal s \<longleftrightarrow>
     (let ds = (if s \<noteq> [] \<and> (hd s = code CHR ''-'' \<or> hd s = code CHR ''+'') then tl s else s)
      in ds \<noteq> [] \<and> (\<forall>c\<in>set ds. in_ranges digits c))"

definition is_based :: "char \<Rightarrow> (char \<times> char) list \<Rightarrow> ochar list \<Rightarrow> bool" where
  "is_based b R s \<longleftrightarrow>
     (case s of z # x # ds \<Rightarrow> z = code CHR ''0'' \<and> x = code b \<and> ds \<noteq> [] \<and> (\<forall>c\<in>set ds. in_ranges R c)
      | _ \<Rightarrow> False)"

lemma sign_not_digit: "\<not> in_ranges digits (code CHR ''-'')" "\<not> in_ranges digits (code CHR ''+'')"
  by (simp_all add: in_ranges_def digits_def code_def word_le_nat_alt)

lemma matches_decimal: "matches (Seq sign (Plus (Chars digits))) s \<longleftrightarrow> is_decimal s"
proof
  assume "matches (Seq sign (Plus (Chars digits))) s"
  then obtain u v where s: "s = u @ v" "u = [] \<or> u = [code CHR ''-''] \<or> u = [code CHR ''+'']"
      "v \<noteq> []" "\<forall>c\<in>set v. in_ranges digits c"
    by (auto simp: matches_Seq matches_sign matches_Plus_Chars)
  have "hd v \<noteq> code CHR ''-'' \<and> hd v \<noteq> code CHR ''+''"
    using s(3,4) sign_not_digit by (metis list.set_sel(1))
  with s show "is_decimal s" by (auto simp: is_decimal_def Let_def)
next
  assume s: "is_decimal s"
  show "matches (Seq sign (Plus (Chars digits))) s"
  proof (cases "s \<noteq> [] \<and> (hd s = code CHR ''-'' \<or> hd s = code CHR ''+'')")
    case True
    then have "s = [hd s] @ tl s" by simp
    with True s show ?thesis
      unfolding matches_Seq matches_sign matches_Plus_Chars
      by (intro exI [of _ "[hd s]"] exI [of _ "tl s"]) (simp add: is_decimal_def Let_def)
  next
    case False
    with s show ?thesis
      unfolding matches_Seq matches_sign matches_Plus_Chars
      by (intro exI [of _ "[]"] exI [of _ s]) (simp add: is_decimal_def)
  qed
qed

lemma matches_based: "matches (Seq (Word [CHR ''0'', b]) (Plus (Chars R))) s \<longleftrightarrow> is_based b R s"
  by (auto simp: matches_Seq matches_Plus_Chars is_based_def split: list.splits)

text \<open>The special numbers, said directly: any character, and one of the words behind it.\<close>

definition special_word :: "string list \<Rightarrow> ochar list \<Rightarrow> bool" where
  "special_word ws s \<longleftrightarrow>
     (\<exists>w\<in>set ws. length w \<le> length s \<and> drop (length s - length w) s = map code w
        \<and> one_char (take (length s - length w) s))"

lemma matches_Any_Word:
  "matches (Seq Any (Word w)) s \<longleftrightarrow> length w \<le> length s \<and> drop (length s - length w) s = map code w
     \<and> one_char (take (length s - length w) s)"
proof
  assume "matches (Seq Any (Word w)) s"
  then show "length w \<le> length s \<and> drop (length s - length w) s = map code w
     \<and> one_char (take (length s - length w) s)" by (auto simp: matches_Seq)
next
  assume r: "length w \<le> length s \<and> drop (length s - length w) s = map code w
     \<and> one_char (take (length s - length w) s)"
  then have "s = take (length s - length w) s @ map code w" by (metis append_take_drop_id)
  with r show "matches (Seq Any (Word w)) s" by (auto simp: matches_Seq)
qed

lemma matches_any_then: "ws \<noteq> [] \<Longrightarrow> matches (any_then ws) s \<longleftrightarrow> special_word ws s"
proof (induction ws)
  case (Cons w ws)
  then show ?case
    by (cases "ws = []") (simp_all add: any_then_def special_word_def matches_Any_Word)
qed simp

definition is_plus_infinity :: "ochar list \<Rightarrow> bool" where
  "is_plus_infinity s \<longleftrightarrow> special_word [''inf'', ''Inf'', ''INF''] s
     \<or> s \<noteq> [] \<and> hd s = code CHR ''+'' \<and> special_word [''inf'', ''Inf'', ''INF''] (tl s)"

definition is_minus_infinity :: "ochar list \<Rightarrow> bool" where
  "is_minus_infinity s \<longleftrightarrow> s \<noteq> [] \<and> hd s = code CHR ''-'' \<and> special_word [''inf'', ''Inf'', ''INF''] (tl s)"

definition is_not_a_number :: "ochar list \<Rightarrow> bool" where
  "is_not_a_number = special_word [''nan'', ''NaN'', ''NAN'']"

lemma matches_one: "matches (Chars [(c, c)]) s \<longleftrightarrow> s = [code c]"
  by (auto simp: in_ranges_def matches_Chars simp del: matches.simps(1))

lemma matches_one_Seq: "matches (Seq (Chars [(c, c)]) r) s \<longleftrightarrow> s \<noteq> [] \<and> hd s = code c \<and> matches r (tl s)"
  by (cases s) (auto simp: matches_Seq matches_one simp del: matches.simps(1))

lemma matches_Opt_Seq: "matches (Seq (Opt a) r) s \<longleftrightarrow> matches r s \<or> matches (Seq a r) s"
  by (auto simp: matches_Seq Opt_def)

lemma matches_special:
  "matches (Seq (Opt (Chars [(CHR ''+'', CHR ''+'')])) (any_then [''inf'', ''Inf'', ''INF''])) s \<longleftrightarrow> is_plus_infinity s"
  "matches (Seq (Chars [(CHR ''-'', CHR ''-'')]) (any_then [''inf'', ''Inf'', ''INF''])) s \<longleftrightarrow> is_minus_infinity s"
  "matches (any_then [''nan'', ''NaN'', ''NAN'']) s \<longleftrightarrow> is_not_a_number s"
  by (simp_all add: matches_Opt_Seq matches_one_Seq matches_any_then is_plus_infinity_def is_minus_infinity_def
      is_not_a_number_def)

section \<open>Inference under the expressions\<close>

definition float_pattern :: rexp where
  "float_pattern = the (SimpleTagRegExp OLY_TAG_CHECK_FLOAT)"

definition classify :: "ochar list \<Rightarrow> OlyTagType" where
  "classify s =
     (if s \<in> map code ` {[], ''null'', ''Null'', ''NULL'', ''~''} then OLY_TAG_SCALAR_NULL
      else if s \<in> map code ` {''true'', ''True'', ''TRUE'', ''false'', ''False'', ''FALSE''}
      then OLY_TAG_SCALAR_BOOL
      else if is_decimal s then OLY_TAG_SCALAR_INT
      else if is_based CHR ''o'' octal_digits s \<or> is_based CHR ''x'' hex_digits s then OLY_TAG_SCALAR_UINT
      else if matches float_pattern s then OLY_TAG_SCALAR_FLOAT
      else if is_plus_infinity s then OLY_TAG_SCALAR_PLUS_INFINITY
      else if is_minus_infinity s then OLY_TAG_SCALAR_MINUS_INFINITY
      else if is_not_a_number s then OLY_TAG_SCALAR_NOT_A_NUMBER
      else OLY_TAG_SCALAR_STRING)"

lemma set_text_ok: "lib_ok lib \<Longrightarrow> set_text lib k m = Ret ()"
  by (simp add: set_text_def lib_ok_def)

lemma lib_ok_answers: "lib_ok lib \<Longrightarrow> \<not> U_FAILURE (snd (regex_matches lib k m))"
  by (simp add: lib_ok_def)

lemma check_text_ok:
  assumes "lib_ok lib"
  shows "check_text lib k m =
     Ret (if fst (regex_matches lib k m) then OLY_OKAY else OLY_WARN_TAG_NOT_MATCH)"
  using set_text_ok [OF assms, of k m] lib_ok_answers [OF assms, of k m]
  by (cases "regex_matches lib k m") (simp add: check_text_def)

lemma check_either_ok:
  assumes "lib_ok lib"
  shows "check_either lib k1 k2 m =
     Ret (if fst (regex_matches lib k1 m) \<or> fst (regex_matches lib k2 m)
          then OLY_OKAY else OLY_WARN_TAG_NOT_MATCH)"
  using set_text_ok [OF assms, of k1 m] lib_ok_answers [OF assms, of k1 m] check_text_ok [OF assms, of k2 m]
  by (cases "regex_matches lib k1 m") (simp add: check_either_def)

lemma text_of_mem: "0 \<notin> set s \<Longrightarrow> takeWhile (\<lambda>c. c \<noteq> 0) (s @ 0 # t) = (s :: ochar list)"
  by (auto simp: takeWhile_append)

lemma schema_matches:
  assumes "lib_ok lib" and "SimpleTagRegExp k = Some r" and "0 \<notin> set s"
  shows "fst (regex_matches lib k (s @ 0 # t)) = matches r s"
  using assms text_of_mem [of s t] by (simp add: lib_ok_def)

lemma checks_ok:
  assumes lib: "lib_ok lib" and s: "0 \<notin> set s"
    and m_def: "m = s @ 0 # t"
  defines "answer \<equiv> \<lambda>b. Ret (if b then OLY_OKAY else OLY_WARN_TAG_NOT_MATCH)"
  shows "check_tag_null lib m = answer (s \<in> map code ` {[], ''null'', ''Null'', ''NULL'', ''~''})"
    and "check_tag_bool lib m
      = answer (s \<in> map code ` {''true'', ''True'', ''TRUE'', ''false'', ''False'', ''FALSE''})"
    and "check_tag_int lib m = answer (is_decimal s)"
    and "check_tag_uint lib m = answer (is_based CHR ''o'' octal_digits s \<or> is_based CHR ''x'' hex_digits s)"
    and "check_tag_float lib m = answer (matches float_pattern s)"
    and "check_tag_plus_inf lib m = answer (is_plus_infinity s)"
    and "check_tag_minus_inf lib m = answer (is_minus_infinity s)"
    and "check_tag_nan lib m = answer (is_not_a_number s)"
    and "check_tag_string lib m = answer True"
proof -
  have schema: "fst (regex_matches lib k m) = matches r s" if "SimpleTagRegExp k = Some r" for k r
    unfolding m_def by (rule schema_matches [OF lib that s])
  note lib' = check_text_ok [OF lib] check_either_ok [OF lib] set_text_ok [OF lib]
  note pat = schema [OF SimpleTagRegExp_def [of OLY_TAG_CHECK_NULL, simplified]]
    schema [OF SimpleTagRegExp_def [of OLY_TAG_CHECK_BOOL_TRUE, simplified]]
    schema [OF SimpleTagRegExp_def [of OLY_TAG_CHECK_BOOL_FALSE, simplified]]
    schema [OF SimpleTagRegExp_def [of OLY_TAG_CHECK_INT, simplified]]
    schema [OF SimpleTagRegExp_def [of OLY_TAG_CHECK_UINT_OCT, simplified]]
    schema [OF SimpleTagRegExp_def [of OLY_TAG_CHECK_UINT_HEX, simplified]]
    schema [OF SimpleTagRegExp_def [of OLY_TAG_CHECK_PLUS_INFINITY, simplified]]
    schema [OF SimpleTagRegExp_def [of OLY_TAG_CHECK_MINUS_INFINITY, simplified]]
    schema [OF SimpleTagRegExp_def [of OLY_TAG_CHECK_NOT_A_NUMBER, simplified]]
  have fl: "fst (regex_matches lib OLY_TAG_CHECK_FLOAT m) = matches float_pattern s"
    by (rule schema) (simp add: float_pattern_def SimpleTagRegExp_def)
  show "check_tag_null lib m = answer (s \<in> map code ` {[], ''null'', ''Null'', ''NULL'', ''~''})"
  proof (cases s)
    case Nil
    then show ?thesis by (simp add: check_tag_null_def m_def answer_def peek_def)
  next
    case (Cons c s')
    then have "peek m 0 = Ret c" "c \<noteq> 0" using s by (auto simp: m_def peek_def)
    with Cons show ?thesis by (simp add: check_tag_null_def answer_def lib' pat)
  qed
  show "check_tag_bool lib m
      = answer (s \<in> map code ` {''true'', ''True'', ''TRUE'', ''false'', ''False'', ''FALSE''})"
    by (auto simp: check_tag_bool_def answer_def lib' pat)
  show "check_tag_int lib m = answer (is_decimal s)"
    by (simp only: check_tag_int_def answer_def lib' pat matches_decimal)
  show "check_tag_uint lib m = answer (is_based CHR ''o'' octal_digits s \<or> is_based CHR ''x'' hex_digits s)"
    by (simp only: check_tag_uint_def answer_def lib' pat matches_based)
  show "check_tag_float lib m = answer (matches float_pattern s)"
    by (simp only: check_tag_float_def answer_def lib' fl)
  show "check_tag_nan lib m = answer (is_not_a_number s)"
    by (simp only: check_tag_nan_def answer_def lib' pat matches_special obind.simps)
  show "check_tag_plus_inf lib m = answer (is_plus_infinity s)"
    by (simp only: check_tag_plus_inf_def answer_def lib' pat matches_special)
  show "check_tag_minus_inf lib m = answer (is_minus_infinity s)"
    by (simp only: check_tag_minus_inf_def answer_def lib' pat matches_special)
qed (simp add: check_tag_string_def answer_def)

lemma infer_step:
  "(let status = (if b then OLY_OKAY else OLY_WARN_TAG_NOT_MATCH) in
    if status = OLY_OKAY then x else if status = OLY_WARN_TAG_NOT_MATCH then y else z) = (if b then x else y)"
  by simp

lemma infer_classifies:
  assumes "lib_ok lib" and "0 \<notin> set s"
  shows "infer_simple_tag lib (s @ 0 # t) = Ret (OLY_OKAY, Some (tag_code (classify s)))"
proof -
  note C = checks_ok [OF assms refl, of t]
  show ?thesis
    unfolding infer_simple_tag_def basic_tag_def classify_def
    by (simp only: infer_from.simps OlyTag.select_convs C obind.simps infer_step [unfolded Let_def]
        if_distrib [where f = "\<lambda>tag. Ret (OLY_OKAY, Some (tag_code tag))"] tag_code.simps if_True)
       simp
qed

lemma octal_classified:
  assumes "is_based CHR ''o'' octal_digits s"
  shows "classify s = OLY_TAG_SCALAR_UINT"
proof -
  obtain ds where s: "s = code CHR ''0'' # code CHR ''o'' # ds" "ds \<noteq> []"
    using assms by (auto simp: is_based_def split: list.splits)
  have "\<not> is_decimal s"
    using s by (simp add: is_decimal_def in_ranges_def digits_def code_def word_le_nat_alt)
  moreover have "s \<notin> map code ` {[], ''null'', ''Null'', ''NULL'', ''~''}"
    "s \<notin> map code ` {''true'', ''True'', ''TRUE'', ''false'', ''False'', ''FALSE''}"
    using s by (simp_all add: code_def)
  ultimately show ?thesis using assms by (simp add: classify_def)
qed

section \<open>Properties\<close>

text \<open>A library that follows the schema and takes every number for 5.\<close>

definition sample_lib :: tag_lib where
  "sample_lib = \<lparr>regex_set = (\<lambda>_ _. 0),
     regex_matches = (\<lambda>k m. (case SimpleTagRegExp k of None \<Rightarrow> False
        | Some r \<Rightarrow> matches r (takeWhile (\<lambda>c. c \<noteq> 0) m), 0)),
     parse_int = (\<lambda>m. (5, 1, 0)), parse_double = (\<lambda>m. (5, 1, 0)), scan_hex = (\<lambda>_. Some 5),
     pointer_byte = (\<lambda>_. True)\<rparr>"

lemma sample_lib_ok: "lib_ok sample_lib"
  by (simp add: lib_ok_def sample_lib_def U_FAILURE_def)

text \<open>
  C33: with a library that follows the expressions of the resource bundle, inference always succeeds, and the
  tag it stores is the first in this order whose texts the text belongs to: the words for null and the
  booleans, decimal integers, octal and hexadecimal numbers, floats, and the special numbers, which are any one
  character and then inf (behind a plus sign or none: plus infinity; behind a minus sign: minus infinity) or nan;
  anything else is a string.
\<close>

theorem infer_follows_expressions:
  assumes "lib_ok lib" and "0 \<notin> set s"
  shows "infer_simple_tag lib (s @ 0 # t) = Ret (OLY_OKAY, Some (tag_code (classify s)))"
  using assms by (rule infer_classifies)

text \<open>The test of the inference, text by text, with the numbers it expects.\<close>

definition infer_test :: "(string \<times> OlyTagType) list" where
  "infer_test =
     [(''NULL'', OLY_TAG_SCALAR_NULL), (''Null'', OLY_TAG_SCALAR_NULL), (''null'', OLY_TAG_SCALAR_NULL),
      (''~'', OLY_TAG_SCALAR_NULL), ([], OLY_TAG_SCALAR_NULL), (''NuLl'', OLY_TAG_SCALAR_STRING),
      (''True'', OLY_TAG_SCALAR_BOOL), (''TRUE'', OLY_TAG_SCALAR_BOOL), (''true'', OLY_TAG_SCALAR_BOOL),
      (''False'', OLY_TAG_SCALAR_BOOL), (''FALSE'', OLY_TAG_SCALAR_BOOL), (''false'', OLY_TAG_SCALAR_BOOL),
      (''FaLsE'', OLY_TAG_SCALAR_STRING), (''TrUe'', OLY_TAG_SCALAR_STRING), (''TRue'', OLY_TAG_SCALAR_STRING),
      (''FALse'', OLY_TAG_SCALAR_STRING),
      (''172398'', OLY_TAG_SCALAR_INT), (''444'', OLY_TAG_SCALAR_INT), (''-173'', OLY_TAG_SCALAR_INT),
      (''-129748891'', OLY_TAG_SCALAR_INT), (''2'', OLY_TAG_SCALAR_INT),
      (''-'', OLY_TAG_SCALAR_STRING), (''+'', OLY_TAG_SCALAR_STRING),
      (''0x555'', OLY_TAG_SCALAR_UINT), (''0xABBA58'', OLY_TAG_SCALAR_UINT),
      (''1.1165356'', OLY_TAG_SCALAR_FLOAT), (''-3.141592'', OLY_TAG_SCALAR_FLOAT), (''99e25'', OLY_TAG_SCALAR_FLOAT),
      (''9.297E33'', OLY_TAG_SCALAR_FLOAT), (''2.2812e-21'', OLY_TAG_SCALAR_FLOAT),
      (''e22'', OLY_TAG_SCALAR_STRING), (''3187ee33'', OLY_TAG_SCALAR_STRING),
      (''.inf'', OLY_TAG_SCALAR_PLUS_INFINITY), (''.INF'', OLY_TAG_SCALAR_PLUS_INFINITY),
      (''.Inf'', OLY_TAG_SCALAR_PLUS_INFINITY), (''.InF'', OLY_TAG_SCALAR_STRING), (''.iNf'', OLY_TAG_SCALAR_STRING),
      (''.nan'', OLY_TAG_SCALAR_NOT_A_NUMBER), (''.NAN'', OLY_TAG_SCALAR_NOT_A_NUMBER),
      (''.NaN'', OLY_TAG_SCALAR_NOT_A_NUMBER), (''.Nan'', OLY_TAG_SCALAR_STRING), (''.naan'', OLY_TAG_SCALAR_STRING),
      (''.nAN'', OLY_TAG_SCALAR_STRING)]"

lemma classify_test: "\<forall>(w, tag)\<in>set infer_test. classify (map code w) = tag"
  by code_simp

theorem infer_follows_expressions_witness:
  "map (\<lambda>(w, tag). infer_simple_tag sample_lib (map code w @ [0])) infer_test
    = map (\<lambda>(w, tag). Ret (OLY_OKAY, Some (tag_code tag))) infer_test"
proof -
  have "\<forall>(w, tag)\<in>set infer_test. 0 \<notin> set (map code w)" by code_simp
  then have "\<forall>(w, tag)\<in>set infer_test.
      infer_simple_tag sample_lib (map code w @ [0]) = Ret (OLY_OKAY, Some (tag_code tag))"
    using infer_follows_expressions [OF sample_lib_ok, of "map code w" "[]" for w] classify_test by fastforce
  then show ?thesis by (intro map_cong) auto
qed

text \<open>
  Since the dot of the special numbers is the wild card, a minus sign is taken for it, so the text for a negative
  infinity without a dot is a positive one, and words that end like a special number are special numbers.
\<close>

lemma wild_card_numbers:
  assumes "lib_ok lib"
  shows "infer_simple_tag lib (map code ''-inf'' @ 0 # t) = Ret (OLY_OKAY, Some (tag_code OLY_TAG_SCALAR_PLUS_INFINITY))"
    and "infer_simple_tag lib (map code ''xinf'' @ 0 # t) = Ret (OLY_OKAY, Some (tag_code OLY_TAG_SCALAR_PLUS_INFINITY))"
    and "infer_simple_tag lib (map code ''xnan'' @ 0 # t) = Ret (OLY_OKAY, Some (tag_code OLY_TAG_SCALAR_NOT_A_NUMBER))"
proof -
  have "classify (map code ''-inf'') = OLY_TAG_SCALAR_PLUS_INFINITY"
    "classify (map code ''xinf'') = OLY_TAG_SCALAR_PLUS_INFINITY"
    "classify (map code ''xnan'') = OLY_TAG_SCALAR_NOT_A_NUMBER" by code_simp+
  moreover have "0 \<notin> set (map code ''-inf'')" "0 \<notin> set (map code ''xinf'')" "0 \<notin> set (map code ''xnan'')"
    by code_simp+
  ultimately show "infer_simple_tag lib (map code ''-inf'' @ 0 # t) = Ret (OLY_OKAY, Some (tag_code OLY_TAG_SCALAR_PLUS_INFINITY))"
    "infer_simple_tag lib (map code ''xinf'' @ 0 # t) = Ret (OLY_OKAY, Some (tag_code OLY_TAG_SCALAR_PLUS_INFINITY))"
    "infer_simple_tag lib (map code ''xnan'' @ 0 # t) = Ret (OLY_OKAY, Some (tag_code OLY_TAG_SCALAR_NOT_A_NUMBER))"
    using infer_classifies [OF assms] by metis+
qed

text \<open>
  Every octal number is inferred to be an unsigned integer, and the import for unsigned
  integers then refuses it.
\<close>

theorem octal_is_inferred_but_not_imported:
  assumes "lib_ok lib" and "is_based CHR ''o'' octal_digits s" and "0 \<notin> set s"
  shows "infer_simple_tag lib (s @ 0 # t) = Ret (OLY_OKAY, Some (tag_code OLY_TAG_SCALAR_UINT))
    \<and> convert_tag lib (s @ 0 # t) (Some (tag_code OLY_TAG_SCALAR_UINT)) v
      = Ret (OLY_WARN_TAG_NOT_MATCH, \<lparr>union = String_value SNull, vtype = tag_code OLY_TAG_TYPE_UNSET\<rparr>)"
proof -
  obtain ds where s: "s = code CHR ''0'' # code CHR ''o'' # ds"
    using assms(2) by (auto simp: is_based_def split: list.splits)
  have "convert_tag lib (s @ 0 # t) (Some (tag_code OLY_TAG_SCALAR_UINT)) v
      = import_tag_uint lib (s @ 0 # t) v"
    by (simp add: convert_tag_def basic_tag_def)
  also have "\<dots> = Ret (OLY_WARN_TAG_NOT_MATCH, \<lparr>union = String_value SNull, vtype = tag_code OLY_TAG_TYPE_UNSET\<rparr>)"
    using s by (simp add: import_tag_uint_def peek_def code_def set_value_def)
  finally show ?thesis
    using infer_classifies [OF assms(1,3), of t] octal_classified [OF assms(2)] by simp
qed

theorem octal_is_inferred_but_not_imported_witness:
  "convert_tag sample_lib [48, 111, 55, 0] (Some 3) (set_value (String_value SNull) OLY_TAG_TYPE_UNSET)
      = Ret (OLY_WARN_TAG_NOT_MATCH, \<lparr>union = String_value SNull, vtype = 14\<rparr>)"
proof -
  have "is_based CHR ''o'' octal_digits [48, 111, 55]"
    by (simp add: is_based_def in_ranges_def octal_digits_def code_def word_le_nat_alt)
  then show ?thesis
    using octal_is_inferred_but_not_imported [OF sample_lib_ok, of "[48, 111, 55]" "[]"] by simp
qed

text \<open>
  An integer the import accepts is within 32 bits, whatever the length of its text.
\<close>

theorem int_import_is_32_bit:
  assumes "import_tag_int lib input v = Ret (OLY_OKAY, v')"
  shows "\<exists>w. union v' = Int_value w \<and> - (2 ^ 31) \<le> sint w \<and> sint w < 2 ^ 31
    \<and> vtype v' = tag_code OLY_TAG_SCALAR_INT"
proof -
  obtain n pos u where p: "parse_int lib input = (n, pos, u)" by (cases "parse_int lib input")
  then have v: "v' = set_value (Int_value (scast n)) OLY_TAG_SCALAR_INT"
    using assms by (auto simp: import_tag_int_def import_number_def outcome_simps split: if_splits)
  have "sint (scast n :: 64 word) = sint n"
    by (rule sint_up_scast) (simp add: is_up)
  moreover have "- (2 ^ 31) \<le> sint n" "sint n < 2 ^ 31"
    using sint_greater_eq [of n] sint_less [of n] by simp_all
  ultimately show ?thesis using v by (simp add: set_value_def)
qed

theorem int_import_is_32_bit_witness:
  "\<exists>v'. import_tag_int sample_lib [53, 0] (set_value (String_value SNull) OLY_TAG_TYPE_UNSET) = Ret (OLY_OKAY, v')
    \<and> vtype v' = tag_code OLY_TAG_SCALAR_INT"
proof -
  have "import_tag_int sample_lib [53, 0] (set_value (String_value SNull) OLY_TAG_TYPE_UNSET)
      = Ret (OLY_OKAY, set_value (Int_value (scast (5 :: 32 word))) OLY_TAG_SCALAR_INT)"
    by (simp add: import_tag_int_def sample_lib_def import_number_def U_FAILURE_def peek_def)
  with int_import_is_32_bit [OF this] show ?thesis by blast
qed

text \<open>
  Into a value whose union is still null, the import for booleans accepts any text that is
  no boolean, and yields false.
\<close>

theorem bool_import_accepts_any_text:
  assumes "lib_ok lib" and "\<not> fst (regex_matches lib OLY_TAG_CHECK_BOOL_FALSE input)"
    and "\<not> fst (regex_matches lib OLY_TAG_CHECK_BOOL_TRUE input)" and "union v = String_value SNull"
  shows "import_tag_bool lib input v = Ret (OLY_OKAY, v\<lparr>vtype := tag_code OLY_TAG_SCALAR_BOOL\<rparr>)"
  using assms set_text_ok [OF assms(1)] lib_ok_answers [OF assms(1), of OLY_TAG_CHECK_BOOL_FALSE input]
    lib_ok_answers [OF assms(1), of OLY_TAG_CHECK_BOOL_TRUE input]
  by (cases "regex_matches lib OLY_TAG_CHECK_BOOL_FALSE input";
      cases "regex_matches lib OLY_TAG_CHECK_BOOL_TRUE input")
     (simp add: import_tag_bool_def as_bool_def Let_def)

theorem bool_import_accepts_any_text_witness:
  "import_tag_bool sample_lib [121, 101, 115, 0] (set_value (String_value SNull) OLY_TAG_TYPE_UNSET)
    = Ret (OLY_OKAY, set_value (String_value SNull) OLY_TAG_SCALAR_BOOL)"
  using bool_import_accepts_any_text [OF sample_lib_ok, of "[121, 101, 115, 0]"
      "set_value (String_value SNull) OLY_TAG_TYPE_UNSET"]
  by (simp add: sample_lib_def SimpleTagRegExp_def code_def set_value_def)

text \<open>
  A conversion that is to infer the type itself, as the null type pointer asks for,
  stores through that pointer.
\<close>

theorem convert_without_type_faults:
  assumes "lib_ok lib" and "0 \<notin> set s"
  shows "convert_tag lib (s @ 0 # t) None v = Crash"
  using infer_classifies [OF assms, of t] by (simp add: convert_tag_def)

theorem convert_without_type_faults_witness:
  "convert_tag sample_lib [116, 0] None (set_value (String_value SNull) OLY_TAG_TYPE_UNSET) = Crash"
  using convert_without_type_faults [OF sample_lib_ok, of "[116]" "[]"] by simp

end
