(* ===== verification/Hash.thy ===== *)
theory Hash
  imports Oly_Status
begin

text \<open>
  Hash values, from \<^verbatim>\<open>src/hash\<close>: reading and writing them in hexadecimal, and packing their
  bytes into words. \<^verbatim>\<open>Hash\<close> of the Keccak library is a parameter; a C string is the memory at
  its first character, a list of bytes.
\<close>

section \<open>Sizes\<close>

definition CHAR_BIT :: nat where "CHAR_BIT = 8"
definition OLY_HASH_BITS :: nat where "OLY_HASH_BITS = 224"
definition SIZEOF_SIZE_T :: nat where "SIZEOF_SIZE_T = 8"
definition CHAR_HASH :: nat where "CHAR_HASH = OLY_HASH_BITS div CHAR_BIT + 32 div CHAR_BIT"
definition SIZE_HASH :: nat where "SIZE_HASH = OLY_HASH_BITS div (SIZEOF_SIZE_T * CHAR_BIT)"

definition hash_bytes :: nat where
  "hash_bytes = OLY_HASH_BITS div CHAR_BIT"

lemma hash_sizes: "hash_bytes = 28" "CHAR_HASH = 32" "SIZE_HASH = 3"
  by (simp_all add: hash_bytes_def CHAR_HASH_def SIZE_HASH_def CHAR_BIT_def OLY_HASH_BITS_def
      SIZEOF_SIZE_T_def)

section \<open>Packing bytes\<close>

text \<open>The loop that puts byte \<open>i\<close> of \<open>c\<close> into the bits \<open>8 * (j - i)\<close> and up, for \<open>i \<le> j\<close>.\<close>

fun pack_bytes :: "8 word list \<Rightarrow> nat \<Rightarrow> nat list \<Rightarrow> 'a::len word \<Rightarrow> 'a word outcome" where
  "pack_bytes c j [] res = Ret res"
| "pack_bytes c j (i # is) res =
     obind (peek c i) (\<lambda>b.
     pack_bytes c j is (Bit_Operations.or res (push_bit (CHAR_BIT * (j - i)) (ucast b))))"

definition char_to_size :: "8 word list \<Rightarrow> (OlyStatus \<times> 64 word) outcome" where
  "char_to_size c =
     (let j = SIZEOF_SIZE_T - 1 in
      obind (pack_bytes c j [0..<Suc j] 0) (\<lambda>res. Ret (OLY_OKAY, res)))"

text \<open>The loop over the words of the result: \<open>c\<close> is the memory from \<open>&c[i]\<close> on.\<close>

fun pack_sizes :: "8 word list \<Rightarrow> nat list \<Rightarrow> 64 word list \<Rightarrow> OlyStatus \<Rightarrow> (OlyStatus \<times> 64 word list) outcome" where
  "pack_sizes c [] result status = Ret (status, result)"
| "pack_sizes c (j # js) result status =
     obind (char_to_size c) (\<lambda>(status, w).
     obind (poke result j w) (\<lambda>result.
     pack_sizes (drop SIZEOF_SIZE_T c) js result status))"

definition hash_char_to_hash_size :: "8 word list \<Rightarrow> 64 word list \<Rightarrow> (OlyStatus \<times> 64 word list) outcome" where
  "hash_char_to_hash_size c result = pack_sizes c [0..<SIZE_HASH] result OLY_OKAY"

definition char_to_uint32 :: "8 word list \<Rightarrow> 32 word outcome" where
  "char_to_uint32 c = pack_bytes c 3 [0..<4] 0"

text \<open>
  \<open>result\<close> is an array of pointers: an element is what the pointer leads to, \<open>None\<close> when it is
  not a valid pointer. The loop counter runs over the bytes, and is the index into \<open>result\<close> too.
\<close>

fun pack_uint32s ::
  "8 word list \<Rightarrow> nat list \<Rightarrow> 32 word option list \<Rightarrow> 32 word option list outcome" where
  "pack_uint32s c [] result = Ret result"
| "pack_uint32s c (i # is) result =
     obind (peek result i) (\<lambda>cell.
     obind (char_to_uint32 (drop i c)) (\<lambda>w.
     if cell = None then Crash
     else obind (poke result i (Some w)) (\<lambda>result. pack_uint32s c is result)))"

definition hash_char_to_hash_uint32 ::
  "8 word list \<Rightarrow> 32 word option list \<Rightarrow> (OlyStatus \<times> 32 word option list) outcome" where
  "hash_char_to_hash_uint32 c result =
     obind (pack_uint32s c (map (\<lambda>k. 4 * k) [0..<CHAR_HASH div 4]) result) (\<lambda>result. Ret (OLY_OKAY, result))"

section \<open>Lengths and hashing\<close>

definition get_str_hashlen :: "8 word list \<Rightarrow> (OlyStatus \<times> nat) outcome" where
  "get_str_hashlen c = obind (c_strlen c) (\<lambda>len. Ret (OLY_OKAY, size_mul len CHAR_BIT))"

definition get_hashbits ::
  "(nat \<Rightarrow> 8 word list \<Rightarrow> nat \<Rightarrow> bool \<times> 8 word list) \<Rightarrow> 8 word list \<Rightarrow> nat \<Rightarrow> OlyStatus \<times> 8 word list" where
  \<comment> \<open>\<open>Hash\<close> yields whether it succeeded and the bytes it has written\<close>
  "get_hashbits Hash data len =
     (case Hash OLY_HASH_BITS data len of (success, hash) \<Rightarrow>
        (if \<not> success then OLY_ERR_HASH else OLY_OKAY, hash))"

section \<open>Hexadecimal\<close>

text \<open>
  The conversion \<^verbatim>\<open>%02hhx\<close> of \<^verbatim>\<open>sscanf\<close>: white space is skipped, then at most two characters
  are taken for an optional sign and hexadecimal digits. The item \<^verbatim>\<open>0x\<close> is a prefix of a
  number without being one, so it does not match.
\<close>

definition is_space :: "8 word \<Rightarrow> bool" where
  "is_space w \<longleftrightarrow> w = 32 \<or> (9 \<le> w \<and> w \<le> 13)"

definition hex_digit :: "8 word \<Rightarrow> 8 word option" where
  "hex_digit w =
     (if 48 \<le> w \<and> w \<le> 57 then Some (w - 48)
      else if 65 \<le> w \<and> w \<le> 70 then Some (w - 55)
      else if 97 \<le> w \<and> w \<le> 102 then Some (w - 87)
      else None)"

definition scan_byte :: "8 word list \<Rightarrow> 8 word option" where
  "scan_byte s =
     (case dropWhile is_space s of
        [] \<Rightarrow> None
      | a # t \<Rightarrow>
          if a = 43 \<or> a = 45 then
            (case t of [] \<Rightarrow> None
             | b # _ \<Rightarrow> map_option (\<lambda>d. if a = 45 then - d else d) (hex_digit b))
          else
            (case hex_digit a of
               None \<Rightarrow> None
             | Some d \<Rightarrow>
                 (case t of
                    [] \<Rightarrow> Some d
                  | b # _ \<Rightarrow>
                      if a = 48 \<and> (b = 120 \<or> b = 88) then None
                      else (case hex_digit b of None \<Rightarrow> Some d | Some e \<Rightarrow> Some (16 * d + e)))))"

fun read_bytes :: "8 word list \<Rightarrow> nat list \<Rightarrow> 8 word list \<Rightarrow> (OlyStatus \<times> 8 word list) outcome" where
  "read_bytes s [] c = Ret (OLY_OKAY, c)"
| "read_bytes s (i # is) c =
     (case scan_byte s of
        Some b \<Rightarrow> obind (poke c i b) (\<lambda>c. read_bytes (drop 2 s) is c)
      | None \<Rightarrow>
          if length c < hash_bytes then Crash
          else Ret (OLY_ERR_READHEX, replicate hash_bytes 0 @ drop hash_bytes c))"

definition read_hash_from_hex :: "8 word list \<Rightarrow> 8 word list \<Rightarrow> (OlyStatus \<times> 8 word list) outcome" where
  "read_hash_from_hex s c =
     obind (c_strlen s) (\<lambda>len.
     if len < OLY_HASH_BITS div (CHAR_BIT div 2) then Ret (OLY_ERR_READHEX, c)
     else read_bytes s [0..<hash_bytes] c)"

text \<open>
  Writing: \<open>written i\<close> tells whether the \<open>i\<close>-th call of \<^verbatim>\<open>fprintf\<close> returns a positive number.
  The result is the status with what has been written.
\<close>

definition hex_char :: "8 word \<Rightarrow> 8 word" where
  "hex_char d = (if d < 10 then d + 48 else d + 87)"

definition hex_byte :: "8 word \<Rightarrow> 8 word list" where
  "hex_byte b = [hex_char (drop_bit 4 b), hex_char (take_bit 4 b)]"

fun write_bytes ::
  "(nat \<Rightarrow> bool) \<Rightarrow> nat list \<Rightarrow> 8 word list \<Rightarrow> 8 word list \<Rightarrow> (OlyStatus \<times> 8 word list) outcome" where
  "write_bytes written [] c out = Ret (OLY_OKAY, out)"
| "write_bytes written (i # is) c out =
     obind (peek c i) (\<lambda>b.
     if written i then write_bytes written is c (out @ hex_byte b)
     else Ret (OLY_ERR_FILEIO, out))"

definition write_hex_from_hash :: "(nat \<Rightarrow> bool) \<Rightarrow> 8 word list \<Rightarrow> (OlyStatus \<times> 8 word list) outcome" where
  "write_hex_from_hash written c = write_bytes written [0..<hash_bytes] c []"

definition print_hex_from_hash :: "(nat \<Rightarrow> bool) \<Rightarrow> 8 word list \<Rightarrow> (OlyStatus \<times> 8 word list) outcome" where
  \<comment> \<open>the line feed follows whatever the status; \<open>written\<close> of the number of bytes is for it\<close>
  "print_hex_from_hash written c =
     obind (write_hex_from_hash written c) (\<lambda>(status, out).
     Ret (status, if written hash_bytes then out @ [10] else out))"

section \<open>What is written is read back\<close>

lemma nibble_cases:
  assumes "d < (16 :: 8 word)"
  shows "d \<in> set [0, 1, 2, 3, 4, 5, 6, 7, 8, 9, 10, 11, 12, 13, 14, 15]"
proof -
  have "unat d < 16" using assms by (simp add: word_less_nat_alt)
  then have "unat d \<in> set [0, 1, 2, 3, 4, 5, 6, 7, 8, 9, 10, 11, 12, 13, 14, 15]" by simp presburger
  then have "(of_nat (unat d) :: 8 word) \<in> of_nat ` set [0, 1, 2, 3, 4, 5, 6, 7, 8, 9, 10, 11, 12, 13, 14, 15]"
    by (rule imageI)
  then show ?thesis by simp
qed

lemma hex_nibble_all:
  assumes "d < (16 :: 8 word)"
  shows "hex_digit (hex_char d) = Some d \<and> \<not> is_space (hex_char d) \<and> hex_char d \<noteq> 43
    \<and> hex_char d \<noteq> 45 \<and> hex_char d \<noteq> 0 \<and> hex_char d \<noteq> 120 \<and> hex_char d \<noteq> 88"
  using nibble_cases [OF assms] unfolding list.set
  by (elim insertE emptyE; simp add: hex_digit_def hex_char_def is_space_def)

lemma hex_nibble:
  assumes "d < (16 :: 8 word)"
  shows "hex_digit (hex_char d) = Some d" and "\<not> is_space (hex_char d)"
    and "hex_char d \<noteq> 43" and "hex_char d \<noteq> 45" and "hex_char d \<noteq> 0"
    and "hex_char d \<noteq> 120" and "hex_char d \<noteq> 88"
  using hex_nibble_all [OF assms] by blast+

lemma nibbles:
  fixes b :: "8 word"
  shows "drop_bit 4 b < 16" and "take_bit 4 b < 16" and "16 * drop_bit 4 b + take_bit 4 b = b"
proof -
  have "unat b < 2 ^ LENGTH(8)" by (rule unsigned_less)
  then have "unat b < 256" by simp
  then show "drop_bit 4 b < 16"
    by (simp add: word_less_nat_alt drop_bit_eq_div unat_div)
  show "take_bit 4 b < 16"
    by (simp add: word_less_nat_alt take_bit_eq_mod unat_mod)
  show "16 * drop_bit 4 b + take_bit 4 b = b"
    using bits_ident [of 4 b] by (simp add: push_bit_eq_mult mult.commute)
qed

lemma scan_hex_byte: "scan_byte (hex_byte b @ t) = Some b"
  using hex_nibble [OF nibbles(1) [of b]] hex_nibble [OF nibbles(2) [of b]] nibbles(3) [of b]
  by (simp add: scan_byte_def hex_byte_def)

lemma length_hex_bytes [simp]: "length (concat (map hex_byte bs)) = 2 * length bs"
  by (induction bs) (simp_all add: hex_byte_def)

lemma hex_bytes_no_null: "0 \<notin> set (concat (map hex_byte bs))"
proof (induction bs)
  case (Cons b bs)
  then show ?case
    using hex_nibble(5) [OF nibbles(1), of b] hex_nibble(5) [OF nibbles(2), of b]
    by (auto simp: hex_byte_def)
qed simp

lemma read_bytes_hex:
  "k + length bs \<le> length c \<Longrightarrow>
   read_bytes (concat (map hex_byte bs) @ t) [k..<k + length bs] c = Ret (OLY_OKAY, overlay c k bs)"
proof (induction bs arbitrary: k c)
  case Nil
  then show ?case by simp
next
  case (Cons b bs)
  have "[k..<k + length (b # bs)] = k # [Suc k..<Suc k + length bs]"
    by (simp add: upt_conv_Cons del: upt_Suc)
  moreover have "drop 2 (hex_byte b @ r) = r" for r by (simp add: hex_byte_def)
  moreover have "overlay (c[k := b]) (Suc k) bs = overlay c k (b # bs)"
    using Cons.prems by (intro overlay_Cons) simp
  moreover have "poke c k b = Ret (c[k := b])" using Cons.prems by (simp add: poke_def)
  ultimately show ?case
    using Cons.IH [of "Suc k" "c[k := b]"] Cons.prems
    by (simp add: scan_hex_byte del: upt_Suc drop_append)
qed

lemma write_bytes_hex:
  "\<forall>i. written i \<Longrightarrow> k + length bs \<le> length c \<Longrightarrow> take (length bs) (drop k c) = bs \<Longrightarrow>
   write_bytes written [k..<k + length bs] c out = Ret (OLY_OKAY, out @ concat (map hex_byte bs))"
proof (induction bs arbitrary: k out)
  case Nil
  then show ?case by simp
next
  case (Cons b bs)
  have "[k..<k + length (b # bs)] = k # [Suc k..<Suc k + length bs]"
    by (simp add: upt_conv_Cons del: upt_Suc)
  moreover have d: "drop k c = c ! k # drop (Suc k) c"
    using Cons.prems(2) by (simp add: Cons_nth_drop_Suc)
  then have "c ! k = b" "take (length bs) (drop (Suc k) c) = bs" using Cons.prems(3) by auto
  moreover have "peek c k = Ret (c ! k)" using Cons.prems(2) by (simp add: peek_def)
  ultimately show ?case using Cons.IH [of "Suc k"] Cons.prems by (simp del: upt_Suc)
qed

section \<open>Packed words\<close>

text \<open>Packing is big-endian: each byte is found again at its place.\<close>

lemma pack_bytes_bits:
  fixes res :: "'a::len word"
  assumes "set is \<subseteq> {..j}" and "distinct is" and "j < length c" and "8 * Suc j \<le> LENGTH('a)"
  shows "\<exists>w. pack_bytes c j is res = Ret w
    \<and> (\<forall>n < LENGTH('a). bit w n \<longleftrightarrow> bit res n \<or> (\<exists>i\<in>set is. 8 * (j - i) \<le> n \<and> n < 8 * Suc (j - i)
          \<and> bit (c ! i) (n - 8 * (j - i))))"
  using assms(1,2)
proof (induction "is" arbitrary: res)
  case Nil
  then show ?case by simp
next
  case (Cons i "is")
  have i: "i \<le> j" using Cons.prems by simp
  then have peek: "peek c i = Ret (c ! i)" using assms(3) by (simp add: peek_def)
  let ?r = "Bit_Operations.or res (push_bit (8 * (j - i)) (ucast (c ! i)))"
  obtain w where w: "pack_bytes c j is ?r = Ret w"
      "\<forall>n < LENGTH('a). bit w n \<longleftrightarrow> bit ?r n \<or> (\<exists>i\<in>set is. 8 * (j - i) \<le> n \<and> n < 8 * Suc (j - i)
          \<and> bit (c ! i) (n - 8 * (j - i)))"
    using Cons.IH [of ?r] Cons.prems by auto
  have "bit ?r n \<longleftrightarrow> bit res n \<or> (8 * (j - i) \<le> n \<and> n < 8 * Suc (j - i) \<and> bit (c ! i) (n - 8 * (j - i)))"
    if "n < LENGTH('a)" for n
    using that by (auto simp: bit_or_iff bit_push_bit_iff bit_ucast_iff dest: bit_imp_le_length)
  with w peek show ?case by (auto simp: CHAR_BIT_def)
qed

lemma char_to_size_bits:
  assumes "8 \<le> length c"
  obtains w where "char_to_size c = Ret (OLY_OKAY, w)"
    and "\<forall>n<64. bit w n = bit (c ! (7 - n div 8)) (n mod 8)"
proof -
  have j: "SIZEOF_SIZE_T - 1 = 7" by (simp add: SIZEOF_SIZE_T_def)
  obtain w :: "64 word" where w: "pack_bytes c 7 [0..<Suc 7] 0 = Ret w"
      "\<forall>n < LENGTH(64). bit w n \<longleftrightarrow> bit (0 :: 64 word) n \<or> (\<exists>i\<in>set [0..<Suc 7]. 8 * (7 - i) \<le> n
          \<and> n < 8 * Suc (7 - i) \<and> bit (c ! i) (n - 8 * (7 - i)))"
    using pack_bytes_bits [of "[0..<Suc 7]" 7 c "0 :: 64 word"] assms by fastforce
  have "bit w n = bit (c ! (7 - n div 8)) (n mod 8)" if n: "n < 64" for n
  proof -
    have one: "8 * (7 - i) \<le> n \<and> n < 8 * Suc (7 - i) \<longleftrightarrow> i = 7 - n div 8" if "i \<le> 7" for i
      using n that by auto
    have at: "n - 8 * (7 - (7 - n div 8)) = n mod 8"
      using n minus_mult_div_eq_mod [of n 8] by simp
    have "bit w n \<longleftrightarrow> (\<exists>i\<le>7. (8 * (7 - i) \<le> n \<and> n < 8 * Suc (7 - i)) \<and> bit (c ! i) (n - 8 * (7 - i)))"
    proof -
      have "i \<in> set [0..<Suc 7] \<longleftrightarrow> i \<le> 7" for i by auto
      then show ?thesis using w(2) n by (simp add: Bex_def del: upt_Suc set_upt)
    qed
    also have "\<dots> \<longleftrightarrow> (\<exists>i\<le>7. i = 7 - n div 8 \<and> bit (c ! i) (n - 8 * (7 - i)))"
      by (intro ex_cong1 conj_cong refl) (rule one)
    also have "\<dots> \<longleftrightarrow> bit (c ! (7 - n div 8)) (n mod 8)"
      using at diff_le_self [of 7 "n div 8"] by metis
    finally show ?thesis .
  qed
  then show ?thesis using w(1) j by (intro that [of w]) (simp_all add: char_to_size_def del: upt_Suc)
qed

lemma pack_bytes_cong:
  "\<forall>i\<in>set is. i < length c \<and> i < length c' \<and> c ! i = c' ! i \<Longrightarrow> pack_bytes c j is res = pack_bytes c' j is res"
  by (induction "is" arbitrary: res) (simp_all add: peek_def)

lemma char_to_size_cong:
  assumes "8 \<le> length c" and "8 \<le> length c'" and "take 8 c = take 8 c'"
  shows "char_to_size c = char_to_size c'"
proof -
  have "c ! i = c' ! i" if "i < 8" for i
    using assms(3) that by (metis nth_take)
  then have "pack_bytes c 7 [0..<Suc 7] 0 = (pack_bytes c' 7 [0..<Suc 7] 0 :: 64 word outcome)"
    using assms(1,2) by (intro pack_bytes_cong) auto
  then show ?thesis by (simp add: char_to_size_def SIZEOF_SIZE_T_def del: upt_Suc)
qed

section \<open>Properties\<close>

text \<open>
  A hash of 28 bytes that is written in hexadecimal is read back byte for byte, whatever
  follows the digits, and the rest of the destination stays as it was.
\<close>

theorem hash_hex_round_trip:
  assumes "\<forall>i. written i" and "hash_bytes \<le> length c" and "hash_bytes \<le> length d"
  shows "\<exists>out. write_hex_from_hash written c = Ret (OLY_OKAY, out)
    \<and> read_hash_from_hex (out @ 0 # t) d = Ret (OLY_OKAY, take hash_bytes c @ drop hash_bytes d)"
proof -
  let ?bs = "take 28 c"
  have len: "length ?bs = 28" using assms(2) by (simp add: hash_sizes)
  have w: "write_hex_from_hash written c = Ret (OLY_OKAY, concat (map hex_byte ?bs))"
    using write_bytes_hex [OF assms(1), of 0 ?bs c "[]"] assms(2)
    by (simp add: write_hex_from_hash_def hash_sizes)
  have "c_strlen (concat (map hex_byte ?bs) @ 0 # t) = Ret 56"
    using c_strlen_terminated [OF hex_bytes_no_null, of ?bs t] len by simp
  moreover have "read_bytes (concat (map hex_byte ?bs) @ 0 # t) [0..<28] d = Ret (OLY_OKAY, overlay d 0 ?bs)"
    using read_bytes_hex [of 0 ?bs d "0 # t"] assms(3) len by (simp add: hash_sizes)
  moreover have "overlay d 0 ?bs = ?bs @ drop 28 d" using len by (simp add: overlay_def)
  ultimately have "read_hash_from_hex (concat (map hex_byte ?bs) @ 0 # t) d = Ret (OLY_OKAY, ?bs @ drop 28 d)"
    by (simp add: read_hash_from_hex_def hash_sizes OLY_HASH_BITS_def CHAR_BIT_def)
  with w show ?thesis by (simp add: hash_sizes)
qed

theorem hash_hex_round_trip_witness:
  "\<exists>out. write_hex_from_hash (\<lambda>_. True) (replicate 32 171) = Ret (OLY_OKAY, out)
    \<and> read_hash_from_hex (out @ [0]) (replicate 32 7) = Ret (OLY_OKAY, replicate 28 171 @ replicate 4 7)"
  using hash_hex_round_trip [of "\<lambda>_. True" "replicate 32 171" "replicate 32 7" "[]"]
  by (simp add: hash_sizes)

text \<open>
  Eight bytes are packed into a \<open>size_t\<close> with the first byte in the highest bits: every bit of
  the result is the bit of the byte that belongs there.
\<close>

theorem char_to_size_is_big_endian:
  assumes "8 \<le> length c"
  shows "\<exists>w. char_to_size c = Ret (OLY_OKAY, w) \<and> (\<forall>n<64. bit w n = bit (c ! (7 - n div 8)) (n mod 8))"
  by (rule char_to_size_bits [OF assms]) blast

theorem char_to_size_is_big_endian_witness:
  "\<exists>w. char_to_size [1, 2, 3, 4, 5, 6, 7, 8] = Ret (OLY_OKAY, w) \<and> bit w 56 \<and> bit w 3"
proof -
  obtain w where w: "char_to_size [1, 2, 3, 4, 5, 6, 7, 8] = Ret (OLY_OKAY, w)"
      "\<forall>n<64. bit w n = bit ([1, 2, 3, 4, 5, 6, 7, 8 :: 8 word] ! (7 - n div 8)) (n mod 8)"
    using char_to_size_is_big_endian [of "[1, 2, 3, 4, 5, 6, 7, 8]"] by auto
  have "bit w 56" "bit w 3" using w(2) [rule_format, of 56] w(2) [rule_format, of 3] by simp_all
  with w(1) show ?thesis by blast
qed

text \<open>
  The words a hash is packed into do not depend on its last four bytes: hashes that agree
  on the first 24 of their 28 bytes give the same words.
\<close>

theorem hash_words_ignore_last_bytes:
  assumes "hash_bytes \<le> length c" and "hash_bytes \<le> length c'" and "take 24 c = take 24 c'"
  shows "hash_char_to_hash_size c result = hash_char_to_hash_size c' result"
proof -
  have cut: "take 8 (drop k d) = take 8 (drop k (take 24 d))" if "k + 8 \<le> 24" for k and d :: "8 word list"
    using that by (intro nth_equalityI) auto
  have part: "char_to_size (drop k c) = char_to_size (drop k c')" if "k + 8 \<le> 24" for k
  proof (rule char_to_size_cong)
    show "take 8 (drop k c) = take 8 (drop k c')"
      unfolding cut [OF that, of c] cut [OF that, of c'] assms(3) ..
  qed (use assms(1,2) that in \<open>simp_all add: hash_sizes\<close>)
  show ?thesis
    using part [of 0] part [of 8] part [of 16]
    by (simp add: hash_char_to_hash_size_def hash_sizes SIZEOF_SIZE_T_def upt_rec)
qed

theorem hash_words_ignore_last_bytes_witness:
  "hash_char_to_hash_size (replicate 24 1 @ [1, 2, 3, 4]) [0, 0, 0]
    = hash_char_to_hash_size (replicate 24 1 @ [5, 6, 7, 8]) [0, 0, 0]"
  by (rule hash_words_ignore_last_bytes) (simp_all add: hash_sizes)

end
