(* ===== verification/Boundary.thy ===== *)
theory Boundary
  imports Oly_Status
begin

text \<open>
  The boundary of a data source, from \<^verbatim>\<open>src/data_source/boundary.c\<close> and
  \<^verbatim>\<open>src/data_source/pvt_boundary.h\<close>: one block of bytes that holds the characters of the outside
  encoding and the \<open>OChar\<close> characters they convert to. Pointers are byte offsets from the start
  of the block; \<open>OChar\<close> characters are stored with the low byte first, as on the machines the
  program is built for. The converter of ICU and its two conversions are parameters.
\<close>

section \<open>Bytes and characters\<close>

type_synonym byte = "8 word"
type_synonym ochar16 = "16 word"

fun ochars :: "byte list \<Rightarrow> ochar16 list" where
  \<comment> \<open>the memory, read as \<open>OChar\<close> characters\<close>
  "ochars (a # b # m) = Bit_Operations.or (push_bit 8 (ucast b)) (ucast a) # ochars m"
| "ochars [a] = []"
| "ochars [] = []"

primrec ochar_bytes :: "ochar16 list \<Rightarrow> byte list" where
  "ochar_bytes [] = []"
| "ochar_bytes (w # ws) = ucast w # ucast (drop_bit 8 w) # ochar_bytes ws"

lemma length_ochar_bytes [simp]: "length (ochar_bytes ws) = 2 * length ws"
  by (induction ws) simp_all

lemma ochar_bytes_append [simp]: "ochar_bytes (ws @ vs) = ochar_bytes ws @ ochar_bytes vs"
  by (induction ws) simp_all

lemma ochar_split:
  "Bit_Operations.or (push_bit 8 (ucast (ucast (drop_bit 8 w) :: 8 word))) (ucast (ucast w :: 8 word)) = (w :: 16 word)"
  by (rule bit_word_eqI) (auto simp: bit_simps)

lemma ochars_append [simp]: "ochars (ochar_bytes ws @ m) = ws @ ochars m"
  by (induction ws) (simp_all add: ochar_split)

text \<open>Writing a block of bytes, and \<^verbatim>\<open>strncpy\<close>, which pads with nulls.\<close>

definition write_block :: "'a list \<Rightarrow> nat \<Rightarrow> 'a list \<Rightarrow> 'a list outcome" where
  "write_block m p xs = (if p + length xs \<le> length m then Ret (overlay m p xs) else Crash)"

fun c_strncpy :: "'a::zero list \<Rightarrow> nat \<Rightarrow> 'a list outcome" where
  "c_strncpy s 0 = Ret []"
| "c_strncpy [] (Suc n) = Crash"
| "c_strncpy (x # s) (Suc n) =
     (if x = 0 then Ret (replicate (Suc n) 0) else obind (c_strncpy s n) (\<lambda>r. Ret (x # r)))"

lemma write_block_in [mem_simps]: "p + length xs \<le> length m \<Longrightarrow> write_block m p xs = Ret (overlay m p xs)"
  by (simp add: write_block_def)

lemma c_strncpy_string: "0 \<notin> set s \<Longrightarrow> c_strncpy (s @ t) (length s) = Ret s"
  by (induction s) auto

lemma length_c_strncpy: "c_strncpy s n = Ret t \<Longrightarrow> length t = n"
  by (induction s n arbitrary: t rule: c_strncpy.induct) (auto simp: outcome_simps split: if_splits)

fun zero_fill :: "byte list \<Rightarrow> nat list \<Rightarrow> byte list outcome" where
  "zero_fill m [] = Ret m"
| "zero_fill m (p # ps) = obind (poke m p 0) (\<lambda>m. zero_fill m ps)"

lemma zero_fill_in:
  "\<forall>p\<in>set ps. p < length m \<Longrightarrow> \<exists>m'. zero_fill m ps = Ret m' \<and> length m' = length m"
proof (induction ps arbitrary: m)
  case Nil
  then show ?case by simp
next
  case (Cons p ps)
  then show ?case using Cons.IH [of "m[p := 0]"] by (auto simp: mem_simps)
qed

lemma zero_fill_out: "\<exists>p\<in>set ps. length m \<le> p \<Longrightarrow> zero_fill m ps = Crash"
proof (induction ps arbitrary: m)
  case Nil
  then show ?case by simp
next
  case (Cons p ps)
  then show ?case by (cases "p < length m") (auto simp: mem_simps)
qed

section \<open>The structure and its operations\<close>

record 'c OlyBoundary =
  o_now :: nat
  o_end :: nat
  o_start :: nat
  c_now :: nat
  c_end :: nat
  c_start :: nat
  converter :: 'c
  space :: "byte list"

definition sizeof_OChar :: nat where "sizeof_OChar = 2"

text \<open>
  \<open>conv\<close> is the converter that \<^verbatim>\<open>ucnv_open\<close> answers, with the least number of bytes of a
  character, \<open>None\<close> when there is no such encoding: the status is not looked at, and
  \<^verbatim>\<open>ucnv_getMinCharSize\<close> reads through the null pointer. \<open>junk\<close> is what the allocated block
  holds. A block for fewer than two characters has its pointers in front of itself.
\<close>

definition open_oly_boundary ::
  "('c \<times> nat) option \<Rightarrow> (nat \<Rightarrow> byte) \<Rightarrow> nat \<Rightarrow> (OlyStatus \<times> 'c OlyBoundary) outcome" where
  "open_oly_boundary conv junk buffer_max_size =
     (case conv of
        None \<Rightarrow> Crash
      | Some (cnv, min_char_size) \<Rightarrow>
          let max_characters = buffer_max_size div size_add min_char_size sizeof_OChar;
              o_size = size_diff (size_mul max_characters sizeof_OChar) sizeof_OChar;
              c_size = size_diff (size_mul max_characters min_char_size) min_char_size;
              block = map junk [0..<size_add (size_add (size_add o_size c_size) min_char_size) sizeof_OChar]
          in if max_characters < 2 then Crash
             else
               let cend = max_characters * min_char_size - min_char_size * 2;
                   onow = cend + min_char_size + 1;
                   oend = onow + sizeof_OChar * (max_characters - 2)
               in obind (zero_fill block [cend + 1..<onow]) (\<lambda>block.
                  obind (zero_fill block [oend..<buffer_max_size]) (\<lambda>block.
                  if min_char_size = 0 then Crash
                  else
                    c_assert ((oend - onow) div sizeof_OChar = cend div min_char_size)
                   (c_assert (oend - onow + cend < buffer_max_size)
                   (c_assert ((oend - onow) mod sizeof_OChar = 0)
                   (c_assert (cend mod min_char_size = 0)
                   (Ret (OLY_OKAY,
                      \<lparr>o_now = onow, o_end = oend, o_start = onow, c_now = 0, c_end = cend,
                       c_start = 0, converter = cnv, space = block\<rparr>))))))))"

text \<open>What \<open>close_oly_boundary\<close> releases, in order.\<close>

datatype boundary_part = Boundary_converter | Boundary_space | Boundary_struct

definition close_oly_boundary :: "'c OlyBoundary option \<Rightarrow> boundary_part list outcome" where
  "close_oly_boundary bind =
     (case bind of None \<Rightarrow> Crash
      | Some _ \<Rightarrow> Ret [Boundary_converter, Boundary_space, Boundary_struct])"

text \<open>
  A conversion takes the converter, the room at the target in characters and the source; it
  yields the converter, the characters it has written and whether the status is a failure. The
  converter keeps what is left of an unfinished character.
\<close>

type_synonym ('c, 'from, 'to) conversion =
  "'c \<Rightarrow> nat \<Rightarrow> 'from list \<Rightarrow> 'c \<times> 'to list \<times> bool"

definition flush_inbound ::
  "('c, byte, ochar16) conversion \<Rightarrow> 'c OlyBoundary \<Rightarrow> (OlyStatus \<times> 'c OlyBoundary) outcome" where
  "flush_inbound to_unicode boundary =
     (if c_now boundary = c_start boundary then Ret (OLY_WARN_BUFFER_EMPTY, boundary)
      else
        case to_unicode (converter boundary) ((o_end boundary - o_start boundary) div sizeof_OChar)
               (take (c_now boundary - c_start boundary) (drop (c_start boundary) (space boundary)))
        of (conv, text, failure) \<Rightarrow>
          obind (write_block (space boundary) (o_start boundary) (ochar_bytes text)) (\<lambda>m.
          let boundary = boundary\<lparr>converter := conv, space := m\<rparr>
          in if failure then Ret (OLY_ERR_LIB, boundary)
             else Ret (OLY_OKAY, boundary\<lparr>c_now := c_start boundary, o_now := o_start boundary\<rparr>)))"

text \<open>
  The status of this conversion is not set before the call, and ICU does nothing when it holds a
  failure on entry: \<open>stale_failure\<close>. The length is that of the string at \<open>c_now\<close>, in bytes.
\<close>

definition flush_outbound ::
  "('c, ochar16, byte) conversion \<Rightarrow> bool \<Rightarrow> 'c OlyBoundary \<Rightarrow> (OlyStatus \<times> 'c OlyBoundary) outcome" where
  "flush_outbound from_unicode stale_failure boundary =
     obind (c_strlen (drop (c_now boundary) (space boundary))) (\<lambda>len.
     let o_end_ptr = o_now boundary + sizeof_OChar * len
     in if o_end_ptr = o_start boundary then Ret (OLY_WARN_BUFFER_EMPTY, boundary)
        else if stale_failure then Ret (OLY_ERR_LIB, boundary)
        else if length (space boundary) < o_end_ptr then Crash
        else
          case from_unicode (converter boundary) (c_end boundary - c_start boundary)
                 (ochars (take (o_end_ptr - o_start boundary) (drop (o_start boundary) (space boundary))))
          of (conv, text, failure) \<Rightarrow>
            obind (write_block (space boundary) (c_start boundary) text) (\<lambda>m.
            Ret (if failure then OLY_ERR_LIB else OLY_OKAY, boundary\<lparr>converter := conv, space := m\<rparr>)))"

definition copy_ochar_buffer ::
  "'c OlyBoundary \<Rightarrow> ochar16 list \<Rightarrow> nat \<Rightarrow> (OlyStatus \<times> 'c OlyBoundary) outcome" where
  \<comment> \<open>the first argument of \<^verbatim>\<open>u_memcpy\<close> is where it writes\<close>
  "copy_ochar_buffer source dest limit =
     (if length dest < limit then Crash
      else obind (write_block (space source) (o_start source) (ochar_bytes (take limit dest))) (\<lambda>m.
           Ret (OLY_OKAY, source\<lparr>space := m\<rparr>)))"

definition get_boundary_out_start :: "'c OlyBoundary \<Rightarrow> OlyStatus \<times> nat" where
  "get_boundary_out_start source = (OLY_OKAY, o_start source)"

definition put_char_in ::
  "'c OlyBoundary \<Rightarrow> byte list \<Rightarrow> nat \<Rightarrow> (OlyStatus \<times> 'c OlyBoundary) outcome" where
  "put_char_in boundary s len =
     (let available = size_diff (c_end boundary) (c_now boundary)
      in if len \<ge> available then Ret (OLY_ERR_BUFFER_OVERFLOW, boundary)
         else
           obind (c_strncpy s len) (\<lambda>text.
           obind (write_block (space boundary) (c_now boundary) text) (\<lambda>m.
           let now = c_now boundary + len
           in obind (poke m now 0) (\<lambda>m.
              Ret (OLY_OKAY, boundary\<lparr>space := m, c_now := Suc now\<rparr>)))))"

definition clear_boundary :: "'c OlyBoundary \<Rightarrow> OlyStatus \<times> 'c OlyBoundary" where
  "clear_boundary boundary =
     (OLY_OKAY, boundary\<lparr>c_now := c_start boundary, o_now := o_start boundary\<rparr>)"

text \<open>The answer: the status, the string (\<open>None\<close> for null), its length with the null, the boundary.\<close>

definition get_ochar_out ::
  "'c OlyBoundary \<Rightarrow> (OlyStatus \<times> nat option \<times> nat \<times> 'c OlyBoundary) outcome" where
  "get_ochar_out boundary =
     obind (c_strlen (ochars (drop (o_now boundary) (space boundary)))) (\<lambda>len.
     if len = 0 then Ret (OLY_WARN_BUFFER_EMPTY, None, 0, boundary)
     else
       let next_len = len + 1
       in if o_now boundary + sizeof_OChar * next_len < o_end boundary
          then Ret (OLY_OKAY, Some (o_now boundary), next_len,
                    boundary\<lparr>o_now := o_now boundary + sizeof_OChar * next_len\<rparr>)
          else Ret (OLY_WARN_BOUNDARY_RESET, None, 0, boundary))"

section \<open>Opening\<close>

definition boundary_ok :: "'c OlyBoundary \<Rightarrow> bool" where
  "boundary_ok b \<longleftrightarrow> c_start b \<le> c_now b \<and> c_now b \<le> c_end b \<and> c_end b < o_start b
    \<and> o_start b \<le> o_now b \<and> o_start b \<le> o_end b \<and> o_end b \<le> length (space b) \<and> length (space b) < size_mod"

text \<open>The arithmetic of the two areas: the allocation is that of \<open>n\<close> characters of each kind.\<close>

lemma boundary_block_size:
  assumes "2 \<le> n" and "n * (m + 2) < size_mod"
  shows "size_add (size_add (size_add (size_diff (size_mul n sizeof_OChar) sizeof_OChar)
           (size_diff (size_mul n m) m)) m) sizeof_OChar = n * (m + 2)"
proof -
  have le: "2 \<le> 2 * n" "m \<le> n * m" using assms(1) by (auto simp: mult_le_mono)
  have lt: "n * m < size_mod" "n * 2 < size_mod" using assms(2) by (auto simp: algebra_simps)
  obtain k where k: "n = k + 2" using assms(1) by (metis add.commute le_Suc_ex)
  have "n * (m + 2) = (2 * n - 2) + (n * m - m) + m + 2" by (simp add: k algebra_simps)
  with assms(2) le lt show ?thesis
    by (simp add: sizeof_OChar_def size_mul_id size_diff_le mult.commute [of n 2] size_add_id)
qed

lemma boundary_layout:
  fixes n m :: nat
  assumes "2 \<le> n" and "0 < m"
  shows "n * m - m * 2 + m + 1 + 2 * (n - 2) + m + 3 = n * (m + 2)"
    and "(n * m - m * 2) div m = n - 2" and "(n * m - m * 2) mod m = 0"
proof -
  have e: "n * m - m * 2 = (n - 2) * m" for n m :: nat
    by (simp add: diff_mult_distrib mult.commute [of m 2])
  obtain k where k: "n = k + 2" using assms(1) by (metis add.commute le_Suc_ex)
  show "n * m - m * 2 + m + 1 + 2 * (n - 2) + m + 3 = n * (m + 2)" by (simp add: k algebra_simps)
  show "(n * m - m * 2) div m = n - 2" "(n * m - m * 2) mod m = 0"
    unfolding e using assms(2) by simp_all
qed

lemma open_boundary_cases:
  fixes cnv :: 'c
  assumes m: "0 < m" and big: "2 * (m + 2) \<le> B" and lt: "B < size_mod"
  shows "B mod (m + 2) \<noteq> 0 \<Longrightarrow> open_oly_boundary (Some (cnv, m)) junk B = Crash"
    and "B mod (m + 2) = 0 \<Longrightarrow>
      \<exists>b. open_oly_boundary (Some (cnv, m)) junk B = Ret (OLY_OKAY, b) \<and> boundary_ok b
        \<and> length (space b) = B \<and> converter b = cnv
        \<and> c_end b - c_start b = (B div (m + 2) - 2) * m \<and> o_end b - o_start b = 2 * (B div (m + 2) - 2)"
proof -
  let ?n = "B div (m + 2)"
  have n: "2 \<le> ?n" using big by (metis div_le_mono nonzero_mult_div_cancel_right add_is_0 m less_numeral_extra(3))
  have le: "?n * (m + 2) \<le> B" by (rule div_times_less_eq_dividend)
  have add: "size_add m sizeof_OChar = m + 2"
    using big lt by (simp add: sizeof_OChar_def size_add_id)
  have size: "size_add (size_add (size_add (size_diff (size_mul ?n sizeof_OChar) sizeof_OChar)
      (size_diff (size_mul ?n m) m)) m) sizeof_OChar = ?n * (m + 2)"
    using n le lt by (intro boundary_block_size) auto
  let ?c = "?n * m - m * 2"
  let ?o = "?c + m + 1 + 2 * (?n - 2)"
  let ?block = "map junk [0..<?n * (m + 2)]"
  have lay: "?o + m + 3 = ?n * (m + 2)" using boundary_layout(1) [OF n m] by simp
  have unf: "open_oly_boundary (Some (cnv, m)) junk B =
    obind (zero_fill ?block [?c + 1..<?c + m + 1]) (\<lambda>bl. obind (zero_fill bl [?o..<B]) (\<lambda>bl.
      c_assert ((?o - (?c + m + 1)) div 2 = ?c div m) (c_assert (?o - (?c + m + 1) + ?c < B)
      (c_assert ((?o - (?c + m + 1)) mod 2 = 0) (c_assert (?c mod m = 0)
      (Ret (OLY_OKAY, \<lparr>o_now = ?c + m + 1, o_end = ?o, o_start = ?c + m + 1, c_now = 0, c_end = ?c,
         c_start = 0, converter = cnv, space = bl\<rparr>)))))))"
    using n m unfolding open_oly_boundary_def Let_def option.case prod.case add size
    by (simp add: sizeof_OChar_def)
  obtain bl where bl: "zero_fill ?block [?c + 1..<?c + m + 1] = Ret bl" "length bl = ?n * (m + 2)"
  proof -
    have "\<forall>p\<in>set [?c + 1..<?c + m + 1]. p < length ?block"
      unfolding set_upt length_map length_upt using lay by auto
    from zero_fill_in [OF this] show ?thesis using that unfolding length_map length_upt by auto
  qed
  show "open_oly_boundary (Some (cnv, m)) junk B = Crash" if "B mod (m + 2) \<noteq> 0"
  proof -
    have "?n * (m + 2) < B" using that le by (metis div_mult_mod_eq le_neq_implies_less add_cancel_right_right)
    then have "zero_fill bl [?o..<B] = Crash"
      using bl(2) lay by (intro zero_fill_out bexI [of _ "?n * (m + 2)"]) auto
    with unf bl(1) show ?thesis by simp
  qed
  assume "B mod (m + 2) = 0"
  then have eq: "?n * (m + 2) = B" by (metis div_mult_mod_eq add_0_right)
  obtain bl' where bl': "zero_fill bl [?o..<B] = Ret bl'" "length bl' = B"
    using zero_fill_in [of "[?o..<B]" bl] bl(2) eq by auto
  have "?o - (?c + m + 1) = 2 * (?n - 2)" "?c = (?n - 2) * m"
    by (simp_all add: diff_mult_distrib mult.commute [of m 2])
  moreover have "?o - (?c + m + 1) + ?c < B" using lay eq by simp
  ultimately show "\<exists>b. open_oly_boundary (Some (cnv, m)) junk B = Ret (OLY_OKAY, b) \<and> boundary_ok b
        \<and> length (space b) = B \<and> converter b = cnv
        \<and> c_end b - c_start b = (?n - 2) * m \<and> o_end b - o_start b = 2 * (?n - 2)"
    using unf bl(1) bl' boundary_layout(2,3) [OF n m] lay eq lt
    by (simp add: boundary_ok_def)
qed

section \<open>Strings through the boundary\<close>

definition terminated :: "'a::zero list list \<Rightarrow> 'a list" where
  "terminated ss = concat (map (\<lambda>s. s @ [0]) ss)"

lemma terminated_simps [simp]:
  "terminated [] = []" "terminated (s # ss) = s @ 0 # terminated ss"
  by (simp_all add: terminated_def)

lemma overlay_overlay:
  "p + length xs + length ys \<le> length m \<Longrightarrow> overlay (overlay m p xs) (p + length xs) ys = overlay m p (xs @ ys)"
  by (rule nth_equalityI) (auto simp: nth_overlay nth_append)

lemma drop_overlay: "p + length xs \<le> length m \<Longrightarrow> drop p (overlay m p xs) = xs @ drop (p + length xs) m"
  by (simp add: overlay_def)

lemma ochars_drop: "ochars (drop (2 * k) m) = drop k (ochars m)"
proof (induction m arbitrary: k rule: ochars.induct)
  case (1 a b m)
  then show ?case by (cases k) simp_all
qed (auto simp: drop_Cons' split: nat.splits)

text \<open>Calls of \<open>put_char_in\<close> for one string after another, until one is refused.\<close>

fun put_strings :: "'c OlyBoundary \<Rightarrow> byte list list \<Rightarrow> (OlyStatus \<times> 'c OlyBoundary) outcome" where
  "put_strings b [] = Ret (OLY_OKAY, b)"
| "put_strings b (s # ss) =
     obind (put_char_in b (s @ [0]) (length s)) (\<lambda>(status, b).
     if status \<noteq> OLY_OKAY then Ret (status, b) else put_strings b ss)"

text \<open>Calls of \<open>get_ochar_out\<close>, at most \<open>n\<close>, until one yields no string; the texts with their nulls.\<close>

primrec get_strings :: "nat \<Rightarrow> 'c OlyBoundary \<Rightarrow> (ochar16 list list \<times> 'c OlyBoundary) outcome" where
  "get_strings 0 b = Ret ([], b)"
| "get_strings (Suc n) b =
     obind (get_ochar_out b) (\<lambda>(status, next, len, b').
     case next of
       None \<Rightarrow> Ret ([], b')
     | Some p \<Rightarrow>
         obind (get_strings n b') (\<lambda>(ts, b').
         Ret (take len (ochars (drop p (space b))) # ts, b')))"

lemma put_char_in_fits:
  assumes ok: "boundary_ok b" and s: "0 \<notin> set s" and room: "c_now b + length s < c_end b"
  shows "put_char_in b (s @ 0 # t) (length s) =
    Ret (OLY_OKAY, b\<lparr>space := overlay (space b) (c_now b) (s @ [0]), c_now := c_now b + length s + 1\<rparr>)"
proof -
  have "size_diff (c_end b) (c_now b) = c_end b - c_now b"
    using ok by (intro size_diff_le) (auto simp: boundary_ok_def)
  moreover have "(overlay (space b) (c_now b) s)[c_now b + length s := 0] = overlay (space b) (c_now b) (s @ [0])"
    using ok room by (intro overlay_snoc) (auto simp: boundary_ok_def)
  ultimately show ?thesis
    using ok room by (simp add: put_char_in_def c_strncpy_string [OF s] mem_simps Let_def boundary_ok_def)
qed

lemma put_char_in_full:
  assumes "boundary_ok b" and "c_end b \<le> c_now b + len"
  shows "put_char_in b s len = Ret (OLY_ERR_BUFFER_OVERFLOW, b)"
proof -
  have "size_diff (c_end b) (c_now b) = c_end b - c_now b"
    using assms(1) by (intro size_diff_le) (auto simp: boundary_ok_def)
  moreover have "c_end b - c_now b \<le> len" using assms(2) by simp
  ultimately show ?thesis by (simp add: put_char_in_def)
qed

lemma put_strings_fit:
  assumes "boundary_ok b" and "\<forall>s\<in>set ss. 0 \<notin> set s" and "c_now b + length (terminated ss) \<le> c_end b"
  shows "put_strings b ss = Ret (OLY_OKAY, b\<lparr>space := overlay (space b) (c_now b) (terminated ss),
    c_now := c_now b + length (terminated ss)\<rparr>)"
  using assms
proof (induction ss arbitrary: b)
  case Nil
  then show ?case by simp
next
  case (Cons s ss)
  let ?b = "b\<lparr>space := overlay (space b) (c_now b) (s @ [0]), c_now := c_now b + length s + 1\<rparr>"
  have put: "put_char_in b (s @ [0]) (length s) = Ret (OLY_OKAY, ?b)"
    using Cons.prems by (intro put_char_in_fits [where t = "[]"]) auto
  have ok: "boundary_ok ?b" using Cons.prems by (auto simp: boundary_ok_def)
  have "put_strings ?b ss = Ret (OLY_OKAY, ?b\<lparr>space := overlay (space ?b) (c_now ?b) (terminated ss),
      c_now := c_now ?b + length (terminated ss)\<rparr>)"
    using Cons.prems ok by (intro Cons.IH) auto
  moreover have "overlay (space ?b) (c_now ?b) (terminated ss) = overlay (space b) (c_now b) (terminated (s # ss))"
    using Cons.prems overlay_overlay [of "c_now b" "s @ [0]" "terminated ss" "space b"]
    by (auto simp: boundary_ok_def)
  ultimately show ?case using put by simp
qed

lemma get_ochar_out_string:
  assumes m: "ochars (drop (o_now b) (space b)) = t @ 0 # r" and t: "0 \<notin> set t" "t \<noteq> []"
    and room: "o_now b + 2 * (length t + 1) < o_end b"
  shows "get_ochar_out b =
    Ret (OLY_OKAY, Some (o_now b), length t + 1, b\<lparr>o_now := o_now b + 2 * (length t + 1)\<rparr>)"
  using room t by (simp add: get_ochar_out_def m sizeof_OChar_def)

lemma get_ochar_out_reset:
  assumes m: "ochars (drop (o_now b) (space b)) = t @ 0 # r" and t: "0 \<notin> set t" "t \<noteq> []"
    and room: "o_end b \<le> o_now b + 2 * (length t + 1)"
  shows "get_ochar_out b = Ret (OLY_WARN_BOUNDARY_RESET, None, 0, b)"
  using room t by (simp add: get_ochar_out_def m sizeof_OChar_def)

lemma get_strings_all:
  assumes "ochars (drop (o_now b) (space b)) = terminated ts @ r"
    and "\<forall>t\<in>set ts. 0 \<notin> set t \<and> t \<noteq> []" and "o_now b + 2 * length (terminated ts) < o_end b"
  shows "get_strings (length ts) b =
    Ret (map (\<lambda>t. t @ [0]) ts, b\<lparr>o_now := o_now b + 2 * length (terminated ts)\<rparr>)"
  using assms
proof (induction ts arbitrary: b)
  case Nil
  then show ?case by simp
next
  case (Cons t ts)
  let ?b = "b\<lparr>o_now := o_now b + 2 * (length t + 1)\<rparr>"
  have get: "get_ochar_out b = Ret (OLY_OKAY, Some (o_now b), length t + 1, ?b)"
    using Cons.prems by (intro get_ochar_out_string [where r = "terminated ts @ r"]) auto
  have "ochars (drop (o_now ?b) (space ?b)) = drop (length t + 1) (ochars (drop (o_now b) (space b)))"
    by (simp only: ochars_drop [symmetric] drop_drop) (simp add: add.commute)
  also have "\<dots> = terminated ts @ r" using Cons.prems by simp
  finally have "get_strings (length ts) ?b =
      Ret (map (\<lambda>t. t @ [0]) ts, ?b\<lparr>o_now := o_now ?b + 2 * length (terminated ts)\<rparr>)"
    using Cons.prems by (intro Cons.IH) auto
  moreover have "take (length t + 1) (ochars (drop (o_now b) (space b))) = t @ [0]"
    using Cons.prems by simp
  ultimately show ?case using get by (simp add: algebra_simps)
qed

lemma flush_inbound_text:
  assumes ok: "boundary_ok b" and some: "c_start b < c_now b"
    and conv: "to_unicode (converter b) ((o_end b - o_start b) div 2)
      (take (c_now b - c_start b) (drop (c_start b) (space b))) = (cnv, ws, False)"
    and fit: "o_start b + 2 * length ws \<le> o_end b"
  shows "flush_inbound to_unicode b = Ret (OLY_OKAY, b\<lparr>converter := cnv,
    space := overlay (space b) (o_start b) (ochar_bytes ws), c_now := c_start b, o_now := o_start b\<rparr>)"
  using assms by (simp add: flush_inbound_def sizeof_OChar_def write_block_def boundary_ok_def)

section \<open>Properties\<close>

text \<open>
  C39: strings that are put into an empty boundary and flushed inbound come out one by one, decoded
  and with their nulls, in the order they were put in, as long as the decoded text ends before the
  last character of the area. The converter is any that decodes the strings one by one.
\<close>

theorem boundary_round_trip:
  assumes ok: "boundary_ok b" and empty: "c_now b = c_start b" and ss: "ss \<noteq> []" "\<forall>s\<in>set ss. 0 \<notin> set s"
    and room: "c_start b + length (terminated ss) \<le> c_end b"
    and conv: "to_unicode (converter b) ((o_end b - o_start b) div 2) (terminated ss)
      = (cnv, terminated (map decode ss), False)"
    and texts: "\<forall>s\<in>set ss. 0 \<notin> set (decode s) \<and> decode s \<noteq> []"
    and fit: "o_start b + 2 * length (terminated (map decode ss)) < o_end b"
  shows "\<exists>b1 b2 b3. put_strings b ss = Ret (OLY_OKAY, b1) \<and> flush_inbound to_unicode b1 = Ret (OLY_OKAY, b2)
    \<and> get_strings (length ss) b2 = Ret (map (\<lambda>s. decode s @ [0]) ss, b3)"
proof -
  let ?n = "length (terminated ss)" and ?ws = "terminated (map decode ss)"
  let ?b1 = "b\<lparr>space := overlay (space b) (c_now b) (terminated ss), c_now := c_now b + ?n\<rparr>"
  have put: "put_strings b ss = Ret (OLY_OKAY, ?b1)"
    using ok empty ss room by (intro put_strings_fit) auto
  have len: "c_now b + ?n \<le> length (space b)" using ok empty room by (auto simp: boundary_ok_def)
  have n: "0 < ?n" using ss(1) by (cases ss) auto
  have ok1: "boundary_ok ?b1" using ok len empty room by (auto simp: boundary_ok_def)
  have "take ?n (drop (c_start b) (overlay (space b) (c_start b) (terminated ss))) = take ?n (terminated ss)"
    using len empty by (intro take_drop_overlay_same) simp_all
  then have src: "take (c_now ?b1 - c_start ?b1) (drop (c_start ?b1) (space ?b1)) = terminated ss"
    using empty by simp
  let ?b2 = "?b1\<lparr>converter := cnv, space := overlay (space ?b1) (o_start b) (ochar_bytes ?ws),
    c_now := c_start b, o_now := o_start b\<rparr>"
  have flush: "flush_inbound to_unicode ?b1 = Ret (OLY_OKAY, ?b2)"
    using flush_inbound_text [OF ok1, of to_unicode cnv ?ws] conv fit src n empty by simp
  have "o_start b + length (ochar_bytes ?ws) \<le> length (space ?b1)"
    using ok1 fit by (simp add: boundary_ok_def)
  from drop_overlay [OF this]
  have "drop (o_now ?b2) (space ?b2) = ochar_bytes ?ws @ drop (o_start b + 2 * length ?ws) (space ?b1)"
    by (simp del: drop_drop)
  then have "ochars (drop (o_now ?b2) (space ?b2)) = ?ws @ ochars (drop (o_start b + 2 * length ?ws) (space ?b1))"
    by (simp only: ochars_append)
  from get_strings_all [OF this] texts fit
  have "get_strings (length ss) ?b2 = Ret (map (\<lambda>s. decode s @ [0]) ss, ?b2\<lparr>o_now := o_now ?b2 + 2 * length ?ws\<rparr>)"
    by (auto simp: comp_def)
  with put flush show ?thesis by blast
qed

theorem boundary_round_trip_witness:
  "\<exists>b1 b2 b3. put_strings \<lparr>o_now = 8, o_end = 24, o_start = 8, c_now = 0, c_end = 6, c_start = 0,
        converter = (), space = replicate 30 7\<rparr> [[65, 66], [67]] = Ret (OLY_OKAY, b1)
    \<and> flush_inbound (\<lambda>c n s. (c, map ucast s, False)) b1 = Ret (OLY_OKAY, b2)
    \<and> get_strings 2 b2 = Ret ([[65, 66, 0], [67, 0]], b3)"
  using boundary_round_trip [of "\<lparr>o_now = 8, o_end = 24, o_start = 8, c_now = 0, c_end = 6, c_start = 0,
        converter = (), space = replicate 30 7\<rparr>" "[[65, 66], [67]]"
      "\<lambda>c n s. (c, map ucast s, False)" "()" "map ucast"]
  by (simp add: boundary_ok_def size_mod_def numeral_2_eq_2 [symmetric])

text \<open>
  Opening a boundary writes behind the block it has allocated exactly when the size is not a
  multiple of the bytes for one character of each kind; otherwise it yields a boundary whose two
  areas hold the same number of characters.
\<close>

theorem open_boundary_faults_unless_multiple:
  fixes cnv :: 'c
  assumes "0 < m" and "2 * (m + 2) \<le> B" and "B < size_mod"
  shows "if B mod (m + 2) \<noteq> 0 then open_oly_boundary (Some (cnv, m)) junk B = Crash
    else \<exists>b. open_oly_boundary (Some (cnv, m)) junk B = Ret (OLY_OKAY, b) \<and> boundary_ok b
      \<and> (c_end b - c_start b) div m = (o_end b - o_start b) div sizeof_OChar"
proof (cases "B mod (m + 2) = 0")
  case True
  then have no: "\<not> B mod (m + 2) \<noteq> 0" by simp
  from open_boundary_cases(2) [OF assms True, of cnv junk] assms(1) show ?thesis
    unfolding if_not_P [OF no] sizeof_OChar_def by auto
next
  case False
  with open_boundary_cases(1) [OF assms False, of cnv junk] show ?thesis by simp
qed

theorem open_boundary_faults_unless_multiple_witness:
  "open_oly_boundary (Some ((), 1)) (\<lambda>_. 0) 8192 = Crash"
  using open_boundary_faults_unless_multiple [of 1 8192 "()" "\<lambda>_. 0"] by (simp add: size_mod_def)

end
