(* ===== verification/Oly_Basic.thy ===== *)
theory Oly_Basic
  imports Boundary
begin

text \<open>
  Memory and string helpers: \<^verbatim>\<open>src/core/oly_mem_string.c\<close> and the string conversions and the file
  length of \<^verbatim>\<open>src/core/basic_functions.c\<close>. The allocator is the parameter \<open>avail\<close>, which says
  whether a request of so many bytes is met; \<open>junk\<close> is what fresh memory holds.
\<close>

section \<open>Memory\<close>

definition omalloc :: "(nat \<Rightarrow> bool) \<Rightarrow> (nat \<Rightarrow> byte) \<Rightarrow> nat \<Rightarrow> byte list outcome" where
  \<comment> \<open>a request that is not met ends the process\<close>
  "omalloc avail junk num = (if avail num then Ret (map junk [0..<num]) else Halt)"

definition orealloc ::
  "(nat \<Rightarrow> bool) \<Rightarrow> (nat \<Rightarrow> byte) \<Rightarrow> byte list option \<Rightarrow> nat \<Rightarrow> byte list outcome" where
  "orealloc avail junk p num =
     (case p of
        None \<Rightarrow> omalloc avail junk num
      | Some old \<Rightarrow>
          if avail num then Ret (take num old @ map junk [length old..<num]) else Halt)"

definition memset_zero :: "byte list \<Rightarrow> nat \<Rightarrow> byte list outcome" where
  "memset_zero m n = write_block m 0 (replicate n 0)"

definition ocalloc :: "(nat \<Rightarrow> bool) \<Rightarrow> (nat \<Rightarrow> byte) \<Rightarrow> nat \<Rightarrow> nat \<Rightarrow> byte list outcome" where
  "ocalloc avail junk num sz =
     obind (omalloc avail junk (size_mul num sz)) (\<lambda>new. memset_zero new (size_mul num sz))"

definition ostrdup ::
  "(nat \<Rightarrow> bool) \<Rightarrow> (nat \<Rightarrow> byte) \<Rightarrow> byte list option \<Rightarrow> byte list option outcome" where
  "ostrdup avail junk str =
     (case str of
        None \<Rightarrow> Ret None
      | Some m \<Rightarrow>
          obind (c_strlen m) (\<lambda>len.
          obind (omalloc avail junk (size_add len 1)) (\<lambda>new.
          obind (write_block new 0 (take (len + 1) m)) (\<lambda>new. Ret (Some new)))))"

text \<open>
  \<open>ostrerror\<close> answers its static buffer, whatever \<^verbatim>\<open>strerror_r\<close> has left in it; the null test
  behind the call looks at the address of that buffer.
\<close>

definition ERRSTR_FMT :: string where
  "ERRSTR_FMT = ''undocumented error #%d''"

definition ostrerror :: "(int \<Rightarrow> nat \<Rightarrow> byte list \<Rightarrow> byte list) \<Rightarrow> int \<Rightarrow> byte list \<Rightarrow> byte list" where
  "ostrerror strerror_r errnum buf = strerror_r errnum (length ERRSTR_FMT + 1 + 20) buf"

section \<open>Conversions\<close>

text \<open>
  Both conversions clear the element behind the last one of the size they are told, before and
  after the test for null, which the assertion in front has decided already. \<open>uastrncpy\<close> and
  \<open>austrncpy\<close> stand for the copying conversions of ICU.
\<close>

definition cstr_to_ostr ::
  "(ochar16 list \<Rightarrow> byte list option \<Rightarrow> nat \<Rightarrow> ochar16 list outcome) \<Rightarrow>
   ochar16 list option \<Rightarrow> nat \<Rightarrow> byte list option \<Rightarrow> ochar16 list outcome" where
  "cstr_to_ostr uastrncpy dest buffer_size c =
     c_assert (dest \<noteq> None \<and> buffer_size > 1)
       (case dest of
          None \<Rightarrow> Crash
        | Some m \<Rightarrow>
            obind (poke m buffer_size 0) (\<lambda>m.
            obind (poke m buffer_size 0) (\<lambda>m. uastrncpy m c (buffer_size - 1))))"

definition ostr_to_cstr ::
  "(byte list \<Rightarrow> ochar16 list \<Rightarrow> nat \<Rightarrow> byte list outcome) \<Rightarrow>
   byte list option \<Rightarrow> nat \<Rightarrow> ochar16 list option \<Rightarrow> byte list outcome" where
  "ostr_to_cstr austrncpy dest buffer_size s =
     c_assert (dest \<noteq> None \<and> buffer_size > 1)
       (case dest of
          None \<Rightarrow> Crash
        | Some m \<Rightarrow>
            obind (poke m buffer_size 0) (\<lambda>m.
            case s of
              None \<Rightarrow> poke m 0 0
            | Some text \<Rightarrow> austrncpy m text (buffer_size - 1)))"

section \<open>The length of a file\<close>

text \<open>
  A stream that can be positioned, with its position and its length; \<open>None\<close> stands for one that
  cannot: there \<^verbatim>\<open>fgetpos\<close> fails and \<^verbatim>\<open>ftello\<close> answers minus one.
\<close>

definition count_file_bytes :: "(nat \<times> nat) option \<Rightarrow> OlyStatus \<times> nat \<times> (nat \<times> nat) option" where
  "count_file_bytes file =
     (case file of
        None \<Rightarrow> (OLY_ERR_FILEIO, size_of_int (- 1), None)
      | Some (pos, len) \<Rightarrow> (OLY_OKAY, size_of_int (int len), Some (0, len)))"

section \<open>What the allocators promise\<close>

lemma omalloc_ret [outcome_simps]: "omalloc avail junk n = Ret m \<longleftrightarrow> avail n \<and> m = map junk [0..<n]"
  by (auto simp: omalloc_def)

lemma ocalloc_eq:
  "ocalloc avail junk n k = (if avail (size_mul n k) then Ret (replicate (size_mul n k) 0) else Halt)"
  by (simp add: ocalloc_def omalloc_def memset_zero_def write_block_def overlay_def)

lemma ostrdup_string:
  assumes "avail (length s + 1)" and "0 \<notin> set s" and "length s + 1 < size_mod"
  shows "ostrdup avail junk (Some (s @ 0 # t)) = Ret (Some (s @ [0]))"
  using assms by (simp add: ostrdup_def omalloc_def write_block_def overlay_def size_add_id)

lemma cstr_to_ostr_exact: "1 < n \<Longrightarrow> length m = n \<Longrightarrow> cstr_to_ostr f (Some m) n c = Crash"
  by (simp add: cstr_to_ostr_def poke_def)

lemma ostr_to_cstr_exact: "1 < n \<Longrightarrow> length m = n \<Longrightarrow> ostr_to_cstr f (Some m) n c = Crash"
  by (simp add: ostr_to_cstr_def poke_def)

section \<open>Properties\<close>

text \<open>
  \<open>ocalloc\<close> either ends the process or yields a block of nulls whose length is the product
  modulo the width of \<open>size_t\<close>, so the block is as long as the caller asked for exactly when the
  product does not wrap.
\<close>

theorem ocalloc_length:
  "ocalloc avail junk num sz = Halt \<or>
   (\<exists>m. ocalloc avail junk num sz = Ret m \<and> set m \<subseteq> {0}
      \<and> (length m = num * sz \<longleftrightarrow> num * sz < size_mod))"
proof (cases "avail (size_mul num sz)")
  case True
  have "size_mul num sz = num * sz \<longleftrightarrow> num * sz < size_mod"
    unfolding size_mul_def by (metis mod_less mod_less_divisor size_mod_pos)
  with True show ?thesis by (auto simp: ocalloc_eq)
qed (simp add: ocalloc_eq)

text \<open>
  Converting into an array of exactly the size that is passed writes behind the array,
  in both directions and whatever the text.
\<close>

theorem conversions_write_past_the_end:
  assumes "1 < n" and "length m = n" and "length d = n"
  shows "cstr_to_ostr f (Some m) n c = Crash \<and> ostr_to_cstr g (Some d) n s = Crash"
  using cstr_to_ostr_exact [of n m f c] ostr_to_cstr_exact [of n d g s] assms by simp

theorem conversions_write_past_the_end_witness:
  "cstr_to_ostr (\<lambda>m c n. Ret m) (Some [0, 0]) 2 None = Crash
    \<and> ostr_to_cstr (\<lambda>m c n. Ret m) (Some [0, 0]) 2 None = Crash"
  using conversions_write_past_the_end [of 2 "[0, 0]" "[0, 0]" "\<lambda>m c n. Ret m" None "\<lambda>m c n. Ret m" None]
  by simp

end
