(* ===== verification/Data_Source.thy ===== *)
theory Data_Source
  imports Node_Queue Boundary
begin

text \<open>
  Data sources, from \<^verbatim>\<open>src/data_source/data_source.c\<close>, \<^verbatim>\<open>src/pvt_data_source.h\<close> and
  \<^verbatim>\<open>src/oly/data_source.h\<close>: the settings, the staged key, and how a value that a parser
  delivers becomes a node, by way of the boundary. A pointer to a C string is the memory it
  leads to, \<open>None\<close> for null. A pointer into the \<open>OChar\<close> area is the memory that can be read
  there when it is taken, up to the end of the block; the node is read before the next flush.
\<close>

section \<open>The structure\<close>

definition OLY_DS_IN :: nat where "OLY_DS_IN = 0"
definition OLY_DS_OUT :: nat where "OLY_DS_OUT = 1"
definition DS_TYPE_MIN :: nat where "DS_TYPE_MIN = 0"
definition DS_TYPE_MAX :: nat where "DS_TYPE_MAX = 2"
definition DSOPT_FILE_NAME :: nat where "DSOPT_FILE_NAME = 0"
definition DSOPT_CONNECTION_STRING :: nat where "DSOPT_CONNECTION_STRING = 1"
definition DSOPT_MAX :: nat where "DSOPT_MAX = 1"

text \<open>\<open>ds_dispatch\<close> and \<open>ds_data\<close> are pointers; a dispatch function is named by a number.\<close>

record 'c OlyDataSource =
  ds_direction :: nat
  ds_type :: nat
  ds_status :: OlyStatus
  required_settings :: "32 word"
  unused_settings :: "32 word"
  ds_locale :: "byte list option"
  ds_encoding :: "byte list option"
  ds_filename :: "byte list option"
  ds_options :: "byte list option list"
  max_buffer_size :: nat
  key_staging :: "byte list"
  key_stage_max_length :: nat
  ds_sequence :: "64 word"
  internal_scalar :: string_ptr
  ds_boundary :: "'c OlyBoundary option"
  ds_node :: addr
  ds_dispatch :: "nat option"
  ds_data :: nat

section \<open>Status and options\<close>

definition get_data_source_status :: "'c OlyDataSource option \<Rightarrow> OlyStatus" where
  "get_data_source_status ds = (case ds of None \<Rightarrow> OLY_ERR_NO_OBJECT | Some ds \<Rightarrow> ds_status ds)"

definition reset_ds_status :: "'c OlyDataSource \<Rightarrow> 'c OlyDataSource" where
  "reset_ds_status ds = ds\<lparr>ds_status := OLY_OKAY\<rparr>"

text \<open>
  The conflict test compares a masked bit with the number of the option. A power of two that
  does not fit \<^verbatim>\<open>unsigned int\<close> has no value there.
\<close>

definition option_conflict :: "32 word \<Rightarrow> nat \<Rightarrow> bool outcome" where
  "option_conflict settings opt =
     (if opt > 8 * 8 then Ret True
      else if opt \<ge> 32 then Crash
      else Ret (Bit_Operations.and settings (2 ^ opt) = word_of_nat opt))"

definition set_ds_option_required ::
  "'c OlyDataSource \<Rightarrow> nat \<Rightarrow> (OlyStatus \<times> 'c OlyDataSource) outcome" where
  "set_ds_option_required ds opt =
     obind (option_conflict (unused_settings ds) opt) (\<lambda>conflict.
     Ret (if conflict then (OLY_ERR_DS_OPTION_CONFLICT, ds)
          else (OLY_OKAY,
                ds\<lparr>required_settings := Bit_Operations.or (required_settings ds) (word_of_nat opt)\<rparr>)))"

definition set_ds_option_unused ::
  "'c OlyDataSource \<Rightarrow> nat \<Rightarrow> (OlyStatus \<times> 'c OlyDataSource) outcome" where
  "set_ds_option_unused ds opt =
     obind (option_conflict (required_settings ds) opt) (\<lambda>conflict.
     Ret (if conflict then (OLY_ERR_DS_OPTION_CONFLICT, ds)
          else (OLY_OKAY,
                ds\<lparr>unused_settings := Bit_Operations.or (unused_settings ds) (word_of_nat opt)\<rparr>)))"

definition option_unused :: "'c OlyDataSource \<Rightarrow> nat \<Rightarrow> bool" where
  "option_unused ds opt \<longleftrightarrow> Bit_Operations.and (unused_settings ds) (word_of_nat opt) = word_of_nat opt"

definition set_data_option ::
  "'c OlyDataSource \<Rightarrow> nat \<Rightarrow> byte list option \<Rightarrow> (OlyStatus \<times> 'c OlyDataSource) outcome" where
  \<comment> \<open>the value is copied by \<^verbatim>\<open>ostrdup\<close>\<close>
  "set_data_option ds opt value =
     (if option_unused ds opt then Ret (OLY_WARN_DSOPT_NOT_USED, ds)
      else
        obind (case value of None \<Rightarrow> Ret None
               | Some m \<Rightarrow> obind (c_strlen m) (\<lambda>len. Ret (Some (take (len + 1) m)))) (\<lambda>copy.
        obind (poke (ds_options ds) opt copy) (\<lambda>options.
        Ret (OLY_OKAY, ds\<lparr>ds_options := options\<rparr>))))"

definition get_data_option ::
  "'c OlyDataSource \<Rightarrow> nat \<Rightarrow> OlyStatus \<Rightarrow> (byte list option \<times> OlyStatus) outcome" where
  "get_data_option ds opt status =
     (if option_unused ds opt then Ret (None, OLY_WARN_DSOPT_NOT_USED)
      else obind (peek (ds_options ds) opt) (\<lambda>text. Ret (text, status)))"

definition run_ds_dispatch_function :: "(nat \<Rightarrow> 'r outcome) \<Rightarrow> 'c OlyDataSource \<Rightarrow> 'r outcome" where
  \<comment> \<open>\<open>call\<close> runs the function the pointer leads to\<close>
  "run_ds_dispatch_function call ds =
     (case ds_dispatch ds of None \<Rightarrow> Crash | Some function \<Rightarrow> call function)"

definition set_ds_dispatch_function ::
  "'c OlyDataSource \<Rightarrow> nat option \<Rightarrow> OlyStatus \<times> 'c OlyDataSource" where
  "set_ds_dispatch_function ds function = (OLY_OKAY, ds\<lparr>ds_dispatch := function\<rparr>)"

definition get_max_buffer_size :: "'c OlyDataSource \<Rightarrow> nat \<times> 'c OlyDataSource" where
  "get_max_buffer_size ds =
     (if max_buffer_size ds = 0 then (BUFSIZ, ds\<lparr>ds_status := OLY_WARN_DS_BUFFER_DEFAULT\<rparr>)
      else (max_buffer_size ds, ds))"

definition set_max_buffer_size :: "'c OlyDataSource \<Rightarrow> nat \<Rightarrow> OlyStatus \<times> 'c OlyDataSource" where
  "set_max_buffer_size ds mbuff =
     (let ds = (if mbuff = 0
                then ds\<lparr>ds_status := OLY_WARN_DS_BUFFER_DEFAULT, max_buffer_size := BUFSIZ\<rparr>
                else ds\<lparr>max_buffer_size := mbuff\<rparr>)
      in (ds_status ds, ds))"

definition set_data_source_direction :: "'c OlyDataSource \<Rightarrow> nat \<Rightarrow> OlyStatus \<times> 'c OlyDataSource" where
  "set_data_source_direction ds direction = (OLY_OKAY, ds\<lparr>ds_direction := direction\<rparr>)"

definition get_data_source_direction :: "'c OlyDataSource \<Rightarrow> OlyStatus \<times> nat" where
  "get_data_source_direction ds = (OLY_OKAY, ds_direction ds)"

definition set_data_direction :: "'c OlyDataSource \<Rightarrow> nat \<Rightarrow> OlyStatus \<times> 'c OlyDataSource" where
  "set_data_direction ds direction = (OLY_OKAY, ds\<lparr>ds_direction := direction\<rparr>)"

definition set_data_locale :: "'c OlyDataSource \<Rightarrow> byte list option \<Rightarrow> OlyStatus \<times> 'c OlyDataSource" where
  "set_data_locale ds locale = (OLY_OKAY, ds\<lparr>ds_locale := locale\<rparr>)"

definition set_data_encoding :: "'c OlyDataSource \<Rightarrow> byte list option \<Rightarrow> OlyStatus \<times> 'c OlyDataSource" where
  "set_data_encoding ds encoding = (OLY_OKAY, ds\<lparr>ds_encoding := encoding\<rparr>)"

definition set_data_filename :: "'c OlyDataSource \<Rightarrow> byte list option \<Rightarrow> OlyStatus \<times> 'c OlyDataSource" where
  "set_data_filename ds filename = (OLY_OKAY, ds\<lparr>ds_filename := filename\<rparr>)"

definition get_data_locale :: "'c OlyDataSource \<Rightarrow> byte list option" where
  "get_data_locale ds = ds_locale ds"

definition get_data_encoding :: "'c OlyDataSource \<Rightarrow> byte list option" where
  "get_data_encoding ds = ds_encoding ds"

definition set_ds_data :: "'c OlyDataSource \<Rightarrow> nat \<Rightarrow> OlyStatus \<times> 'c OlyDataSource" where
  "set_ds_data ds data =
     (if data = 0 then OLY_ERR_NO_OBJECT else OLY_OKAY, ds\<lparr>ds_data := data\<rparr>)"

definition get_ds_data :: "'c OlyDataSource \<Rightarrow> nat" where
  "get_ds_data ds = ds_data ds"

section \<open>Opening and closing\<close>

definition fresh_data_source :: "nat \<Rightarrow> 'c OlyDataSource" where
  "fresh_data_source type = \<lparr>ds_direction = OLY_DS_IN, ds_type = type, ds_status = OLY_OKAY,
     required_settings = 0, unused_settings = 0, ds_locale = None, ds_encoding = None,
     ds_filename = None, ds_options = replicate (DSOPT_MAX + 1) None, max_buffer_size = BUFSIZ,
     key_staging = replicate MAX_KEY_LENGTH 0, key_stage_max_length = MAX_KEY_LENGTH - 1,
     ds_sequence = 0, internal_scalar = SExt (replicate MAX_KEY_LENGTH 0), ds_boundary = None,
     ds_node = 0, ds_dispatch = None, ds_data = 0\<rparr>"

definition new_data_source ::
  "nat \<Rightarrow> OlyStatus \<Rightarrow> node_heap \<Rightarrow> 'c OlyDataSource option \<times> OlyStatus \<times> node_heap" where
  "new_data_source type status h =
     (if status \<noteq> OLY_OKAY then (None, status, h)
      else if type > DS_TYPE_MAX \<or> type < DS_TYPE_MIN then (None, OLY_ERR_BADARG, h)
      else case new_oly_node h of (status, node, h) \<Rightarrow>
        (Some (fresh_data_source type\<lparr>ds_node := node\<rparr>), status, h))"

text \<open>What closing a data source releases, in order.\<close>

datatype ds_part = Ds_option nat | Ds_locale | Ds_encoding | Ds_boundary boundary_part | Ds_struct

definition close_data_source :: "'c OlyDataSource option \<Rightarrow> (OlyStatus \<times> ds_part list) outcome" where
  "close_data_source ds =
     (case ds of
        None \<Rightarrow> Ret (OLY_OKAY, [])
      | Some ds \<Rightarrow>
          obind (if ds_boundary ds \<noteq> None then close_oly_boundary (ds_boundary ds) else Ret [])
          (\<lambda>parts.
          Ret (OLY_OKAY,
            map Ds_option (filter (\<lambda>i. ds_options ds ! i \<noteq> None) [0..<DSOPT_MAX + 1])
            @ (if ds_locale ds \<noteq> None then [Ds_locale] else [])
            @ (if ds_encoding ds \<noteq> None then [Ds_encoding] else [])
            @ map Ds_boundary parts @ [Ds_struct])))"

definition open_ds_boundary ::
  "(byte list option \<Rightarrow> ('c \<times> nat) option) \<Rightarrow> (nat \<Rightarrow> byte) \<Rightarrow> 'c OlyDataSource \<Rightarrow>
   (OlyStatus \<times> 'c OlyDataSource) outcome" where
  "open_ds_boundary ucnv_open junk ds =
     obind (open_oly_boundary (ucnv_open (ds_encoding ds)) junk (max_buffer_size ds)) (\<lambda>(status, bind).
     Ret (status, ds\<lparr>ds_status := status, ds_boundary := Some bind\<rparr>))"

definition get_boundary ::
  "'c OlyDataSource \<Rightarrow> OlyStatus \<times> 'c OlyBoundary option \<times> 'c OlyDataSource" where
  "get_boundary ds =
     (let ds = ds\<lparr>ds_status := OLY_OKAY\<rparr> in (ds_status ds, ds_boundary ds, ds))"

section \<open>Nodes\<close>

text \<open>
  \<open>stage_node_key\<close> measures the key before it tests it for null, and copies whatever the tests
  say; \<open>Crash\<close> is a null key, or a copy behind the staging area.
\<close>

definition stage_node_key ::
  "'c OlyDataSource \<Rightarrow> byte list option \<Rightarrow> nat \<Rightarrow> (OlyStatus \<times> 'c OlyDataSource) outcome" where
  "stage_node_key ds skey key_len =
     obind (if key_len = 0 then (case skey of None \<Rightarrow> Crash | Some m \<Rightarrow> c_strlen m) else Ret key_len)
     (\<lambda>key_len.
     if ds_status ds \<noteq> OLY_OKAY then Ret (ds_status ds, ds)
     else
       let ds = (if skey = None then ds\<lparr>ds_status := OLY_ERR_NO_KEY_BUFFER\<rparr> else ds);
           ds = (if key_len \<ge> key_stage_max_length ds
                 then ds\<lparr>ds_status := OLY_ERR_KEY_STR_TOO_LONG\<rparr> else ds)
       in case skey of
            None \<Rightarrow> Crash
          | Some m \<Rightarrow>
              obind (c_strncpy m (key_len + 1)) (\<lambda>text.
              obind (write_block (key_staging ds) 0 text) (\<lambda>staging.
              Ret (ds_status ds, ds\<lparr>key_staging := staging\<rparr>))))"

text \<open>The eight bytes a value pointer leads to, low byte first; only some types read them.\<close>

primrec bytes_word :: "byte list \<Rightarrow> 64 word" where
  "bytes_word [] = 0"
| "bytes_word (b # bs) = Bit_Operations.or (ucast b) (push_bit 8 (bytes_word bs))"

definition node_value_arg :: "byte list option \<Rightarrow> int \<Rightarrow> 64 word option outcome" where
  "node_value_arg value type =
     (case value of
        None \<Rightarrow> Ret None
      | Some m \<Rightarrow>
          if type = tag_code OLY_TAG_SCALAR_FLOAT \<or> type = tag_code OLY_TAG_SCALAR_INT
          then (if length m < 8 then Crash else Ret (Some (bytes_word (take 8 m))))
          else Ret (Some 0))"

definition on_boundary ::
  "('c OlyBoundary \<Rightarrow> (OlyStatus \<times> 'c OlyBoundary) outcome) \<Rightarrow> 'c OlyDataSource \<Rightarrow>
   'c OlyDataSource outcome" where
  \<comment> \<open>an operation on the boundary whose status goes to the data source\<close>
  "on_boundary f ds =
     (case ds_boundary ds of
        None \<Rightarrow> Crash
      | Some b \<Rightarrow> obind (f b) (\<lambda>(status, b). Ret (ds\<lparr>ds_status := status, ds_boundary := Some b\<rparr>)))"

definition boundary_text :: "'c OlyBoundary \<Rightarrow> nat option \<Rightarrow> string_ptr" where
  "boundary_text b p = (case p of None \<Rightarrow> SNull | Some p \<Rightarrow> SExt (ochars (drop p (space b))))"

text \<open>The parts of \<open>enqueue_ds_node\<close>: the staged key goes to the boundary, then the value.\<close>

definition enqueue_key_in ::
  "'c OlyDataSource \<Rightarrow> OlyNode \<Rightarrow> (bool \<times> 'c OlyDataSource \<times> OlyNode) outcome" where
  "enqueue_key_in ds node =
     obind (peek (key_staging ds) 0) (\<lambda>c.
     if c \<noteq> 0 \<and> ds_status ds = OLY_OKAY then
       obind (c_strlen (key_staging ds)) (\<lambda>needed.
       obind (on_boundary (\<lambda>b. put_char_in b (key_staging ds) needed) ds) (\<lambda>ds.
       Ret (True, ds, snd (set_node_has_key node))))
     else Ret (False, ds, node))"

definition enqueue_value_in ::
  "'c OlyDataSource \<Rightarrow> OlyNode \<Rightarrow> byte list option \<Rightarrow> int \<Rightarrow> ('c OlyDataSource \<times> OlyNode) outcome" where
  "enqueue_value_in ds node value type =
     (if type = tag_code OLY_TAG_SCALAR_STRING then
        case value of
          None \<Rightarrow> Crash
        | Some m \<Rightarrow>
            obind (c_strlen m) (\<lambda>len.
            obind (on_boundary (\<lambda>b. put_char_in b m (len + 1)) ds) (\<lambda>ds. Ret (ds, node)))
      else if type = tag_code OLY_TAG_COMPLEX_MAP \<or> type = tag_code OLY_TAG_COMPLEX_SEQUENCE then
        (case descend_one_level node of (status, node) \<Rightarrow> Ret (ds\<lparr>ds_status := status\<rparr>, node))
      else Ret (ds, node))"

text \<open>The next string of the boundary; every status but the reset is taken for success.\<close>

definition take_scalar :: "'c OlyDataSource \<Rightarrow> 'c OlyDataSource outcome" where
  "take_scalar ds =
     (case ds_boundary ds of
        None \<Rightarrow> Crash
      | Some b \<Rightarrow>
          obind (get_ochar_out b) (\<lambda>(status, next, len, b).
          Ret (ds\<lparr>ds_boundary := Some b, internal_scalar := boundary_text b next,
                  ds_status := (if status \<noteq> OLY_WARN_BOUNDARY_RESET then OLY_OKAY else status)\<rparr>)))"

definition enqueue_key_out ::
  "'c OlyDataSource \<Rightarrow> OlyNode \<Rightarrow> (bool \<times> 'c OlyDataSource \<times> OlyNode) outcome" where
  \<comment> \<open>whether the function goes on, the data source and the node\<close>
  "enqueue_key_out ds node =
     obind (peek (key_staging ds) 0) (\<lambda>c.
     if c \<noteq> 0 then
       obind (poke (key_staging ds) 0 0) (\<lambda>staging.
       obind (take_scalar (ds\<lparr>key_staging := staging\<rparr>)) (\<lambda>ds.
       if ds_status ds \<noteq> OLY_OKAY then Ret (False, ds, node)
       else
         case set_node_key node (internal_scalar ds) of (status, node) \<Rightarrow>
           Ret (status = OLY_OKAY, ds\<lparr>ds_status := status\<rparr>, node)))
     else Ret (True, ds, snd (set_node_key node SNull)))"

definition enqueue_value_out ::
  "'c OlyDataSource \<Rightarrow> OlyNode \<Rightarrow> int \<Rightarrow> (bool \<times> 'c OlyDataSource \<times> OlyNode) outcome" where
  "enqueue_value_out ds node type =
     (if type = tag_code OLY_TAG_SCALAR_STRING then
        obind (take_scalar ds) (\<lambda>ds.
        if ds_status ds \<noteq> OLY_OKAY then Ret (False, ds, node)
        else
          case set_node_string_value node (internal_scalar ds) of (status, node) \<Rightarrow>
            Ret (status = OLY_OKAY, ds\<lparr>ds_status := status\<rparr>, node))
      else Ret (True, ds, node))"

definition enqueue_ds_node ::
  "('c, byte, ochar16) conversion \<Rightarrow> 'c OlyDataSource \<Rightarrow> byte list option \<Rightarrow> int \<Rightarrow> node_heap \<Rightarrow>
   (OlyStatus \<times> 'c OlyDataSource \<times> node_heap) outcome" where
  "enqueue_ds_node to_unicode ds value type h =
     (if ds_status ds \<noteq> OLY_OKAY then Ret (ds_status ds, ds, h)
      else
        let leave = (\<lambda>ds node. obind (store_node h (ds_node ds) node) (\<lambda>h. Ret (ds_status ds, ds, h)))
        in obind (load_node h (ds_node ds)) (\<lambda>node.
           let node = reset_node node in
           case set_node_node_id node (ds_sequence ds) of (status, node) \<Rightarrow>
           let ds = ds\<lparr>ds_status := status, ds_sequence := ds_sequence ds + 1\<rparr> in
           if status \<noteq> OLY_OKAY then leave ds node
           else
             obind (enqueue_key_in ds node) (\<lambda>(has_string, ds, node).
             obind (enqueue_value_in ds node value type) (\<lambda>(ds, node).
             obind (node_value_arg value type) (\<lambda>arg.
             case set_node_value node arg type of (status, node) \<Rightarrow>
             let ds = ds\<lparr>ds_status := status\<rparr> in
             if status \<noteq> OLY_OKAY then leave ds node
             else
               obind (if has_string then on_boundary (flush_inbound to_unicode) ds else Ret ds) (\<lambda>ds.
               obind (enqueue_key_out ds node) (\<lambda>(go, ds, node).
               if \<not> go then leave ds node
               else
                 obind (enqueue_value_out ds node type) (\<lambda>(go, ds, node).
                 if \<not> go then leave ds node
                 else leave (ds\<lparr>ds_status := OLY_WARN_NODE_PRODUCED\<rparr>) node)))))))) "

definition collect_nodes :: "'c OlyDataSource \<Rightarrow> OlyStatus \<times> addr" where
  "collect_nodes ds = (OLY_OKAY, ds_node ds)"

definition dispense_nodes :: "'c OlyDataSource \<Rightarrow> addr \<Rightarrow> OlyStatus \<times> 'c OlyDataSource" where
  "dispense_nodes ds node_in = (OLY_OKAY, ds\<lparr>ds_node := node_in\<rparr>)"

definition dequeue_ds_node :: "'c OlyDataSource \<Rightarrow> node_heap \<Rightarrow> (OlyStatus \<times> addr) outcome" where
  \<comment> \<open>the key goes to a local variable\<close>
  "dequeue_ds_node ds h =
     obind (load_node h (ds_node ds)) (\<lambda>node.
     case get_node_key node of (_, _) \<Rightarrow> Ret (ds_status ds, ds_node ds))"

definition ds_descend :: "'c OlyDataSource \<Rightarrow> node_heap \<Rightarrow>
   (OlyStatus \<times> 'c OlyDataSource \<times> node_heap) outcome" where
  "ds_descend ds h =
     obind (load_node h (ds_node ds)) (\<lambda>node.
     case descend_one_level node of (status, node) \<Rightarrow>
       obind (store_node h (ds_node ds) node) (\<lambda>h. Ret (OLY_OKAY, ds\<lparr>ds_status := status\<rparr>, h)))"

definition ds_ascend :: "'c OlyDataSource \<Rightarrow> node_heap \<Rightarrow> (OlyStatus \<times> node_heap) outcome" where
  "ds_ascend ds h =
     obind (load_node h (ds_node ds)) (\<lambda>node.
     case ascend_one_level node of (status, node) \<Rightarrow>
       obind (store_node h (ds_node ds) node) (\<lambda>h. Ret (status, h)))"

section \<open>Lemmas\<close>

lemma c_strncpy_null: "0 \<notin> set s \<Longrightarrow> c_strncpy (s @ 0 # t) (length s + 1) = Ret (s @ [0])"
  by (induction s) auto

lemma put_char_in_with_null:
  assumes ok: "boundary_ok b" and s: "0 \<notin> set s" and room: "c_now b + length s + 1 < c_end b"
  shows "put_char_in b (s @ 0 # t) (length s + 1) =
    Ret (OLY_OKAY, b\<lparr>space := overlay (space b) (c_now b) (s @ [0, 0]), c_now := c_now b + length s + 2\<rparr>)"
proof -
  have "size_diff (c_end b) (c_now b) = c_end b - c_now b"
    using ok by (intro size_diff_le) (auto simp: boundary_ok_def)
  moreover have "(overlay (space b) (c_now b) (s @ [0]))[c_now b + length (s @ [0]) := 0]
      = overlay (space b) (c_now b) ((s @ [0]) @ [0])"
    using ok room by (intro overlay_snoc) (auto simp: boundary_ok_def)
  ultimately show ?thesis
    using ok room c_strncpy_null [OF s, of t]
    by (simp add: put_char_in_def mem_simps Let_def boundary_ok_def)
qed

lemma flushed_text:
  assumes "o_start b + 2 * length ws \<le> length m"
  shows "ochars (drop (o_start b) (overlay m (o_start b) (ochar_bytes ws)))
    = ws @ ochars (drop (o_start b + 2 * length ws) m)"
proof -
  have "o_start b + length (ochar_bytes ws) \<le> length m" using assms by simp
  from drop_overlay [OF this] show ?thesis by (simp only: ochars_append length_ochar_bytes)
qed

lemma take_scalar_string:
  assumes "ds_boundary ds = Some b" and "ochars (drop (o_now b) (space b)) = u @ 0 # r"
    and "storable u" and "o_now b + 2 * (length u + 1) < o_end b"
  shows "take_scalar ds = Ret (ds\<lparr>ds_boundary := Some (b\<lparr>o_now := o_now b + 2 * (length u + 1)\<rparr>),
    internal_scalar := SExt (u @ 0 # r), ds_status := OLY_OKAY\<rparr>)"
  using get_ochar_out_string [of b u r] assms
  by (simp add: take_scalar_def boundary_text_def storable_def)

lemma take_scalar_empty:
  assumes "ds_boundary ds = Some b" and "ochars (drop (o_now b) (space b)) = 0 # r"
  shows "take_scalar ds = Ret (ds\<lparr>internal_scalar := SNull, ds_status := OLY_OKAY\<rparr>)"
  using assms by (simp add: take_scalar_def boundary_text_def get_ochar_out_def)

definition ds_ready :: "'c OlyDataSource \<Rightarrow> 'c OlyBoundary \<Rightarrow> bool" where
  \<comment> \<open>no status pending, an open boundary that has been flushed, and a staging area of its length\<close>
  "ds_ready ds b \<longleftrightarrow> ds_status ds = OLY_OKAY \<and> ds_boundary ds = Some b \<and> boundary_ok b
     \<and> c_now b = c_start b \<and> length (key_staging ds) = MAX_KEY_LENGTH
     \<and> key_stage_max_length ds = MAX_KEY_LENGTH - 1"

lemma stage_node_key_fits:
  assumes ready: "ds_ready ds b" and k: "0 \<notin> set k" and len: "length k < MAX_KEY_LENGTH - 1"
  shows "stage_node_key ds (Some (k @ 0 # t)) 0 =
    Ret (OLY_OKAY, ds\<lparr>key_staging := k @ 0 # drop (length k + 1) (key_staging ds)\<rparr>)"
  using assms c_strncpy_null [OF k, of t]
  by (simp add: stage_node_key_def ds_ready_def write_block_def overlay_def)

lemma stage_node_key_too_long:
  assumes ready: "ds_ready ds b" and k: "0 \<notin> set k" and len: "MAX_KEY_LENGTH \<le> length k"
  shows "stage_node_key ds (Some (k @ 0 # t)) 0 = Crash"
  using assms c_strncpy_null [OF k, of t]
  by (simp add: stage_node_key_def ds_ready_def write_block_def)

lemma MAX_KEY_LENGTH_eq: "MAX_KEY_LENGTH = 512"
  by (simp add: MAX_KEY_LENGTH_def BUFSIZ_def MAX_NODE_DEPTH_def)

lemma put_key_and_value:
  assumes ok: "boundary_ok b" and c: "c_now b = c_start b" and k: "0 \<notin> set k" and v: "0 \<notin> set v"
    and room: "c_start b + length k + length v + 3 \<le> c_end b"
  obtains b1 b2 where "put_char_in b (k @ 0 # t) (length k) = Ret (OLY_OKAY, b1)"
    and "put_char_in b1 (v @ 0 # t') (length v + 1) = Ret (OLY_OKAY, b2)"
    and "b2 = b\<lparr>space := overlay (space b) (c_start b) (terminated [k, v, []]),
      c_now := c_start b + length (terminated [k, v, []])\<rparr>"
proof -
  let ?b1 = "b\<lparr>space := overlay (space b) (c_now b) (k @ [0]), c_now := c_now b + length k + 1\<rparr>"
  have one: "put_char_in b (k @ 0 # t) (length k) = Ret (OLY_OKAY, ?b1)"
    using room c by (intro put_char_in_fits [OF ok k]) simp
  have "boundary_ok ?b1" using ok c room by (auto simp: boundary_ok_def)
  then have two: "put_char_in ?b1 (v @ 0 # t') (length v + 1) = Ret (OLY_OKAY, ?b1\<lparr>space :=
      overlay (space ?b1) (c_now ?b1) (v @ [0, 0]), c_now := c_now ?b1 + length v + 2\<rparr>)"
    using room c by (intro put_char_in_with_null [OF _ v]) simp_all
  have "overlay (space ?b1) (c_now ?b1) (v @ [0, 0]) = overlay (space b) (c_start b) (terminated [k, v, []])"
    using overlay_overlay [of "c_start b" "k @ [0]" "v @ [0, 0]" "space b"] ok room c
    by (simp add: boundary_ok_def)
  with one two c show ?thesis by (intro that [of ?b1]) simp_all
qed

lemma enqueue_key_in_staged:
  assumes "ds_boundary ds = Some b" and "ds_status ds = OLY_OKAY" and "key_staging ds = k @ 0 # r"
    and k: "k \<noteq> []" "0 \<notin> set k" and "put_char_in b (k @ 0 # r) (length k) = Ret (OLY_OKAY, b1)"
  shows "enqueue_key_in ds node =
    Ret (True, ds\<lparr>ds_status := OLY_OKAY, ds_boundary := Some b1\<rparr>, node\<lparr>has_key := True\<rparr>)"
proof -
  have "peek (k @ 0 # r) 0 = Ret (hd k)" "hd k \<noteq> 0"
    using k by (cases k; simp add: peek_def)+
  moreover have "c_strlen (k @ 0 # r) = Ret (length k)" using k by simp
  ultimately show ?thesis
    using assms by (simp add: enqueue_key_in_def on_boundary_def set_node_has_key_def)
qed

lemma enqueue_value_in_string:
  assumes "ds_boundary ds = Some b" and "0 \<notin> set v"
    and "put_char_in b (v @ 0 # t) (length v + 1) = Ret (OLY_OKAY, b1)"
  shows "enqueue_value_in ds node (Some (v @ 0 # t)) (tag_code OLY_TAG_SCALAR_STRING) =
    Ret (ds\<lparr>ds_status := OLY_OKAY, ds_boundary := Some b1\<rparr>, node)"
  using assms by (simp add: enqueue_value_in_def on_boundary_def)

lemma set_node_value_string:
  "set_node_value node (Some bits) (tag_code OLY_TAG_SCALAR_STRING) =
     (OLY_OKAY, node\<lparr>nvalue := (nvalue node)\<lparr>vtype := tag_code OLY_TAG_SCALAR_STRING\<rparr>\<rparr>)"
  by (simp add: set_node_value_def)

lemma enqueue_key_out_staged:
  assumes "ds_boundary ds = Some b" and "key_staging ds = k @ 0 # r" and k: "k \<noteq> []" "0 \<notin> set k"
    and "ochars (drop (o_now b) (space b)) = u @ 0 # w" and "storable u"
    and "o_now b + 2 * (length u + 1) < o_end b"
  shows "enqueue_key_out ds node =
    Ret (True, ds\<lparr>key_staging := (k @ 0 # r)[0 := 0], ds_boundary := Some (b\<lparr>o_now := o_now b + 2 * (length u + 1)\<rparr>),
      internal_scalar := SExt (u @ 0 # w), ds_status := OLY_OKAY\<rparr>, node\<lparr>key := SExt (u @ 0 # w)\<rparr>)"
proof -
  have "peek (k @ 0 # r) 0 = Ret (hd k)" "hd k \<noteq> 0" "poke (k @ 0 # r) 0 0 = Ret ((k @ 0 # r)[0 := 0])"
    using k by (cases k; simp add: peek_def poke_def)+
  moreover have "take_scalar (ds\<lparr>key_staging := (k @ 0 # r)[0 := 0]\<rparr>) =
      Ret (ds\<lparr>key_staging := (k @ 0 # r)[0 := 0], ds_boundary := Some (b\<lparr>o_now := o_now b + 2 * (length u + 1)\<rparr>),
        internal_scalar := SExt (u @ 0 # w), ds_status := OLY_OKAY\<rparr>)"
    by (subst take_scalar_string [of _ b u w]) (use assms in auto)
  ultimately show ?thesis using assms(2) by (simp add: enqueue_key_out_def set_node_key_def)
qed

lemma enqueue_value_out_string:
  assumes "ds_boundary ds = Some b"
    and "ochars (drop (o_now b) (space b)) = u @ 0 # w" and "storable u"
    and "o_now b + 2 * (length u + 1) < o_end b"
  shows "enqueue_value_out ds node (tag_code OLY_TAG_SCALAR_STRING) =
    Ret (True, ds\<lparr>ds_boundary := Some (b\<lparr>o_now := o_now b + 2 * (length u + 1)\<rparr>),
      internal_scalar := SExt (u @ 0 # w), ds_status := OLY_OKAY\<rparr>,
      node\<lparr>nvalue := (nvalue node)\<lparr>union := String_value (SExt (u @ 0 # w))\<rparr>\<rparr>)"
  using take_scalar_string [OF assms]
  by (simp add: enqueue_value_out_def set_node_string_value_def)

lemma take_scalar_at:
  assumes "ochars (drop p m) = terminated (u # us) @ r"
  shows "ochars (drop (p + 2 * (length u + 1)) m) = terminated us @ r"
proof -
  have "ochars (drop (p + 2 * (length u + 1)) m) = drop (length u + 1) (ochars (drop p m))"
    by (simp only: ochars_drop [symmetric] drop_drop) (simp add: add.commute)
  with assms show ?thesis by simp
qed

lemma enqueue_steps:
  assumes "ds_status ds = OLY_OKAY" and "nodes h (ds_node ds) = Some n"
    and "enqueue_key_in (ds\<lparr>ds_status := OLY_OKAY, ds_sequence := ds_sequence ds + 1\<rparr>)
      ((reset_node n)\<lparr>node_id := ds_sequence ds\<rparr>) = Ret (has_string, d2, n2)"
    and "enqueue_value_in d2 n2 value type = Ret (d3, n3)"
    and "node_value_arg value type = Ret arg" and "set_node_value n3 arg type = (OLY_OKAY, n4)"
    and "(if has_string then on_boundary (flush_inbound to_unicode) (d3\<lparr>ds_status := OLY_OKAY\<rparr>)
      else Ret (d3\<lparr>ds_status := OLY_OKAY\<rparr>)) = Ret d4"
    and "enqueue_key_out d4 n4 = Ret (True, d5, n5)"
    and "enqueue_value_out d5 n5 type = Ret (True, d6, n6)"
    and "nodes h (ds_node d6) \<noteq> None"
  shows "enqueue_ds_node to_unicode ds value type h = Ret (OLY_WARN_NODE_PRODUCED,
    d6\<lparr>ds_status := OLY_WARN_NODE_PRODUCED\<rparr>, h\<lparr>nodes := (nodes h)(ds_node d6 \<mapsto> n6)\<rparr>)"
  using assms by (simp add: enqueue_ds_node_def load_node_def store_node_def Let_def set_node_node_id_def)

text \<open>The whole operation, from what the boundary does with the two strings.\<close>

lemma enqueue_keyed_string:
  assumes ds: "ds_status ds = OLY_OKAY" "ds_boundary ds = Some b" "key_staging ds = k @ 0 # r"
    and node: "nodes h (ds_node ds) = Some n"
    and k: "k \<noteq> []" "0 \<notin> set k" and v: "0 \<notin> set v"
    and put: "put_char_in b (k @ 0 # r) (length k) = Ret (OLY_OKAY, b1)"
      "put_char_in b1 (v @ 0 # t) (length v + 1) = Ret (OLY_OKAY, b2)"
    and flush: "flush_inbound to_unicode b2 = Ret (OLY_OKAY, b3)"
    and u: "ochars (drop (o_now b3) (space b3)) = u @ 0 # w" "storable u"
      "p = o_now b3 + 2 * (length u + 1)" "p < o_end b3"
    and u': "ochars (drop p (space b3)) = u' @ 0 # w'" "storable u'"
      "p' = p + 2 * (length u' + 1)" "p' < o_end b3"
  shows "enqueue_ds_node to_unicode ds (Some (v @ 0 # t)) (tag_code OLY_TAG_SCALAR_STRING) h =
    Ret (OLY_WARN_NODE_PRODUCED,
      ds\<lparr>ds_sequence := ds_sequence ds + 1, key_staging := (k @ 0 # r)[0 := 0],
        ds_boundary := Some (b3\<lparr>o_now := p'\<rparr>), internal_scalar := SExt (u' @ 0 # w'),
        ds_status := OLY_WARN_NODE_PRODUCED\<rparr>,
      h\<lparr>nodes := (nodes h)(ds_node ds \<mapsto> (reset_node n)\<lparr>node_id := ds_sequence ds, has_key := True,
        key := SExt (u @ 0 # w), nvalue := \<lparr>union = String_value (SExt (u' @ 0 # w')),
        vtype = tag_code OLY_TAG_SCALAR_STRING\<rparr>\<rparr>)\<rparr>)"
proof -
  let ?n1 = "(reset_node n)\<lparr>node_id := ds_sequence ds\<rparr>"
  let ?n2 = "?n1\<lparr>has_key := True\<rparr>"
  let ?n3 = "?n2\<lparr>nvalue := (nvalue ?n2)\<lparr>vtype := tag_code OLY_TAG_SCALAR_STRING\<rparr>\<rparr>"
  let ?n4 = "?n3\<lparr>key := SExt (u @ 0 # w)\<rparr>"
  let ?d1 = "ds\<lparr>ds_status := OLY_OKAY, ds_sequence := ds_sequence ds + 1\<rparr>"
  let ?d2 = "?d1\<lparr>ds_status := OLY_OKAY, ds_boundary := Some b1\<rparr>"
  let ?d3 = "?d2\<lparr>ds_status := OLY_OKAY, ds_boundary := Some b2\<rparr>"
  let ?d4 = "?d3\<lparr>ds_status := OLY_OKAY, ds_boundary := Some b3\<rparr>"
  let ?d5 = "?d4\<lparr>key_staging := (k @ 0 # r)[0 := 0], ds_boundary := Some (b3\<lparr>o_now := p\<rparr>),
    internal_scalar := SExt (u @ 0 # w), ds_status := OLY_OKAY\<rparr>"
  have 1: "enqueue_key_in ?d1 ?n1 = Ret (True, ?d2, ?n2)"
    by (rule enqueue_key_in_staged [OF _ _ _ k put(1)]) (use ds in simp_all)
  have 2: "enqueue_value_in ?d2 ?n2 (Some (v @ 0 # t)) (tag_code OLY_TAG_SCALAR_STRING) = Ret (?d3, ?n2)"
    by (rule enqueue_value_in_string [OF _ v put(2)]) simp
  have 3: "node_value_arg (Some (v @ 0 # t)) (tag_code OLY_TAG_SCALAR_STRING) = Ret (Some 0)"
    by (simp add: node_value_arg_def)
  have 4: "set_node_value ?n2 (Some 0) (tag_code OLY_TAG_SCALAR_STRING) = (OLY_OKAY, ?n3)"
    by (rule set_node_value_string)
  have 5: "on_boundary (flush_inbound to_unicode) (?d3\<lparr>ds_status := OLY_OKAY\<rparr>) = Ret ?d4"
    using flush by (simp add: on_boundary_def)
  have 6: "enqueue_key_out ?d4 ?n3 = Ret (True, ?d5, ?n4)"
    unfolding u(3) by (rule enqueue_key_out_staged [OF _ _ k u(1,2)]) (use ds u in simp_all)
  have 7: "enqueue_value_out ?d5 ?n4 (tag_code OLY_TAG_SCALAR_STRING) =
    Ret (True, ?d5\<lparr>ds_boundary := Some (b3\<lparr>o_now := p, o_now := p'\<rparr>),
      internal_scalar := SExt (u' @ 0 # w'), ds_status := OLY_OKAY\<rparr>,
      ?n4\<lparr>nvalue := (nvalue ?n4)\<lparr>union := String_value (SExt (u' @ 0 # w'))\<rparr>\<rparr>)"
    using enqueue_value_out_string [of ?d5 "b3\<lparr>o_now := p\<rparr>" u' w' ?n4] u' by simp
  have 8: "(if True then on_boundary (flush_inbound to_unicode) (?d3\<lparr>ds_status := OLY_OKAY\<rparr>)
      else Ret (?d3\<lparr>ds_status := OLY_OKAY\<rparr>)) = Ret ?d4"
    by (simp only: if_True 5)
  show ?thesis
    using enqueue_steps [OF ds(1) node 1 2 3 4 8 6 7] node by (simp add: reset_node_def)
qed

text \<open>From the staged key and the value to the node, with all that later steps need of it.\<close>

lemma keyed_string_produced:
  assumes ready: "ds_ready ds b" and node: "nodes h (ds_node ds) = Some n"
    and k: "k \<noteq> []" "0 \<notin> set k" "length k < MAX_KEY_LENGTH - 1" and v: "0 \<notin> set v"
    and room: "c_start b + length k + length v + 3 \<le> c_end b"
    and conv: "to_unicode (converter b) ((o_end b - o_start b) div 2) (terminated [k, v, []])
      = (cnv, terminated [dk, dv, []], False)"
    and texts: "storable dk" "storable dv"
    and fit: "o_start b + 2 * (length dk + length dv + 3) \<le> o_end b"
  shows "\<exists>ds1 ds2 b2 h2 n2.
      stage_node_key ds (Some (k @ 0 # t)) 0 = Ret (OLY_OKAY, ds1)
    \<and> enqueue_ds_node to_unicode ds1 (Some (v @ 0 # t')) (tag_code OLY_TAG_SCALAR_STRING) h
        = Ret (OLY_WARN_NODE_PRODUCED, ds2, h2)
    \<and> h2 = h\<lparr>nodes := (nodes h)(ds_node ds \<mapsto> n2)\<rparr> \<and> has_key n2 \<and> holds (key n2) dk
    \<and> is_string n2 \<and> holds (as_string (union (nvalue n2))) dv
    \<and> node_id n2 = ds_sequence ds \<and> depth n2 = depth n
    \<and> ds_ready (reset_ds_status ds2) b2 \<and> ds_sequence ds2 = ds_sequence ds + 1
    \<and> parent_node n2 = 0 \<and> ds_node ds2 = ds_node ds \<and> ds_status ds2 = OLY_WARN_NODE_PRODUCED"
proof -
  note [simp] = MAX_KEY_LENGTH_eq
  let ?r = "drop (length k + 1) (key_staging ds)"
  let ?ds1 = "ds\<lparr>key_staging := k @ 0 # ?r\<rparr>"
  have stage: "stage_node_key ds (Some (k @ 0 # t)) 0 = Ret (OLY_OKAY, ?ds1)"
    by (rule stage_node_key_fits [OF ready k(2,3)])
  have r: "ds_status ds = OLY_OKAY" "ds_boundary ds = Some b" "boundary_ok b" "c_now b = c_start b"
      "length (key_staging ds) = 512" "key_stage_max_length ds = 511"
    using ready by (auto simp: ds_ready_def)
  let ?src = "terminated [k, v, []]" and ?ws = "terminated [dk, dv, []]"
  obtain b1 b2 where put: "put_char_in b (k @ 0 # ?r) (length k) = Ret (OLY_OKAY, b1)"
      "put_char_in b1 (v @ 0 # t') (length v + 1) = Ret (OLY_OKAY, b2)"
      and b2: "b2 = b\<lparr>space := overlay (space b) (c_start b) ?src, c_now := c_start b + length ?src\<rparr>"
    by (rule put_key_and_value [OF r(3,4) k(2) v room])
  have fits: "c_start b + length ?src \<le> length (space b)" "o_end b \<le> length (space b)"
    using r(3) room by (auto simp: boundary_ok_def)
  have ok2: "boundary_ok b2" using r(3) room fits by (auto simp: b2 boundary_ok_def)
  have "take (length ?src) (drop (c_start b) (overlay (space b) (c_start b) ?src)) = take (length ?src) ?src"
    by (rule take_drop_overlay_same [OF fits(1)]) simp
  then have src: "take (c_now b2 - c_start b2) (drop (c_start b2) (space b2)) = ?src"
    by (simp add: b2 del: terminated_simps)
  define b3 where "b3 = b2\<lparr>converter := cnv, space := overlay (space b2) (o_start b) (ochar_bytes ?ws),
    c_now := c_start b, o_now := o_start b\<rparr>"
  have flush: "flush_inbound to_unicode b2 = Ret (OLY_OKAY, b3)"
    using flush_inbound_text [OF ok2, of to_unicode cnv ?ws] conv fit src by (simp add: b2 b3_def)
  have len2: "length (space b2) = length (space b)" using fits by (simp add: b2)
  obtain rest where ot: "ochars (drop (o_start b) (space b3)) = ?ws @ rest"
    using flushed_text [of b ?ws "space b2"] fit fits(2) len2 by (auto simp: b3_def)
  let ?kp = "SExt (dk @ 0 # dv @ 0 # 0 # rest)" and ?vp = "SExt (dv @ 0 # 0 # rest)"
  let ?p = "o_start b + 2 * (length dk + 1)"
  let ?b4 = "b3\<lparr>o_now := ?p\<rparr>" and ?b5 = "b3\<lparr>o_now := ?p + 2 * (length dv + 1)\<rparr>"
  have ot2: "ochars (drop ?p (space b3)) = dv @ 0 # 0 # rest"
    using take_scalar_at [OF ot] by simp
  let ?n2 = "(reset_node n)\<lparr>node_id := ds_sequence ds, has_key := True, key := ?kp,
    nvalue := \<lparr>union = String_value ?vp, vtype = tag_code OLY_TAG_SCALAR_STRING\<rparr>\<rparr>"
  let ?ds2 = "?ds1\<lparr>ds_sequence := ds_sequence ds + 1, key_staging := (k @ 0 # ?r)[0 := 0],
    ds_boundary := Some ?b5, internal_scalar := ?vp, ds_status := OLY_WARN_NODE_PRODUCED\<rparr>"
  have ot1: "ochars (drop (o_now b3) (space b3)) = dk @ 0 # dv @ 0 # 0 # rest"
    using ot by (simp add: b3_def)
  have o3: "o_now b3 = o_start b" "o_end b3 = o_end b" by (simp_all add: b3_def b2)
  have "enqueue_ds_node to_unicode ?ds1 (Some (v @ 0 # t')) (tag_code OLY_TAG_SCALAR_STRING) h
      = Ret (OLY_WARN_NODE_PRODUCED, ?ds1\<lparr>ds_sequence := ds_sequence ?ds1 + 1,
          key_staging := (k @ 0 # ?r)[0 := 0], ds_boundary := Some ?b5, internal_scalar := ?vp,
          ds_status := OLY_WARN_NODE_PRODUCED\<rparr>,
          h\<lparr>nodes := (nodes h)(ds_node ?ds1 \<mapsto> (reset_node n)\<lparr>node_id := ds_sequence ?ds1, has_key := True,
            key := ?kp, nvalue := \<lparr>union = String_value ?vp, vtype = tag_code OLY_TAG_SCALAR_STRING\<rparr>\<rparr>)\<rparr>)"
    by (rule enqueue_keyed_string [OF _ _ _ _ k(1,2) v put flush ot1 texts(1) _ _ ot2 texts(2)])
      (use r node fit in \<open>simp_all add: o3\<close>)
  then have enq: "enqueue_ds_node to_unicode ?ds1 (Some (v @ 0 # t')) (tag_code OLY_TAG_SCALAR_STRING) h
      = Ret (OLY_WARN_NODE_PRODUCED, ?ds2, h\<lparr>nodes := (nodes h)(ds_node ds \<mapsto> ?n2)\<rparr>)"
    by simp
  have "ds_ready (reset_ds_status ?ds2) ?b5"
    using r ok2 fit fits len2 k(3) by (auto simp: ds_ready_def reset_ds_status_def b3_def b2 boundary_ok_def)
  with stage enq texts show ?thesis
    by (intro exI [of _ ?ds1] exI [of _ ?ds2] exI [of _ ?b5]
        exI [of _ "h\<lparr>nodes := (nodes h)(ds_node ds \<mapsto> ?n2)\<rparr>"] exI [of _ ?n2])
      (simp add: holds_def is_string_def reset_node_def)
qed

text \<open>A data source that has produced a node takes nothing before its status is reset.\<close>

lemma produced_source_refuses:
  assumes "ds_status ds = OLY_WARN_NODE_PRODUCED"
  shows "0 \<notin> set k \<Longrightarrow> stage_node_key ds (Some (k @ 0 # t)) 0 = Ret (OLY_WARN_NODE_PRODUCED, ds)"
    and "enqueue_ds_node to_unicode ds value type h = Ret (OLY_WARN_NODE_PRODUCED, ds, h)"
  using assms by (simp_all add: stage_node_key_def enqueue_ds_node_def c_strlen_terminated)

section \<open>Properties\<close>

text \<open>
  C27: a string value with a staged key becomes a node: the node carries the decoded key and the
  decoded value, the sequence number of the data source and the depth it had, and the answer is
  \<open>OLY_WARN_NODE_PRODUCED\<close>, which is now the status of the data source: it refuses the next key and the next
  value, and changes nothing, until its status is reset; only then is it ready again.
  Nothing is assumed of the converter but how it decodes the two strings.
\<close>

theorem keyed_string_becomes_node:
  assumes ready: "ds_ready ds b" and node: "nodes h (ds_node ds) = Some n"
    and k: "k \<noteq> []" "0 \<notin> set k" "length k < MAX_KEY_LENGTH - 1" and v: "0 \<notin> set v"
    and room: "c_start b + length k + length v + 3 \<le> c_end b"
    and conv: "to_unicode (converter b) ((o_end b - o_start b) div 2) (terminated [k, v, []])
      = (cnv, terminated [dk, dv, []], False)"
    and texts: "storable dk" "storable dv"
    and fit: "o_start b + 2 * (length dk + length dv + 3) \<le> o_end b"
  shows "\<exists>ds1 ds2 b2 h2 n2.
      stage_node_key ds (Some (k @ 0 # t)) 0 = Ret (OLY_OKAY, ds1)
    \<and> enqueue_ds_node to_unicode ds1 (Some (v @ 0 # t')) (tag_code OLY_TAG_SCALAR_STRING) h
        = Ret (OLY_WARN_NODE_PRODUCED, ds2, h2)
    \<and> h2 = h\<lparr>nodes := (nodes h)(ds_node ds \<mapsto> n2)\<rparr> \<and> has_key n2 \<and> holds (key n2) dk
    \<and> is_string n2 \<and> holds (as_string (union (nvalue n2))) dv
    \<and> node_id n2 = ds_sequence ds \<and> depth n2 = depth n
    \<and> ds_sequence ds2 = ds_sequence ds + 1 \<and> ds_status ds2 = OLY_WARN_NODE_PRODUCED
    \<and> (\<forall>k' t'. 0 \<notin> set k' \<longrightarrow> stage_node_key ds2 (Some (k' @ 0 # t')) 0 = Ret (OLY_WARN_NODE_PRODUCED, ds2))
    \<and> (\<forall>value type h'. enqueue_ds_node to_unicode ds2 value type h' = Ret (OLY_WARN_NODE_PRODUCED, ds2, h'))
    \<and> ds_ready (reset_ds_status ds2) b2"
proof -
  obtain ds1 ds2 b2 h2 n2 where node2:
    "stage_node_key ds (Some (k @ 0 # t)) 0 = Ret (OLY_OKAY, ds1)"
    "enqueue_ds_node to_unicode ds1 (Some (v @ 0 # t')) (tag_code OLY_TAG_SCALAR_STRING) h = Ret (OLY_WARN_NODE_PRODUCED, ds2, h2)"
    "h2 = h\<lparr>nodes := (nodes h)(ds_node ds \<mapsto> n2)\<rparr>" "has_key n2" "holds (key n2) dk" "is_string n2"
    "holds (as_string (union (nvalue n2))) dv" "node_id n2 = ds_sequence ds" "depth n2 = depth n"
    "ds_ready (reset_ds_status ds2) b2" "ds_sequence ds2 = ds_sequence ds + 1" "ds_status ds2 = OLY_WARN_NODE_PRODUCED"
    using keyed_string_produced [where to_unicode = to_unicode and dk = dk and dv = dv and k = k and v = v, OF assms, of t t']
    by blast
  note refuses = produced_source_refuses [OF node2(12)]
  show ?thesis by (intro exI conjI allI impI; rule node2 refuses; assumption)
qed

definition sample_boundary :: "unit OlyBoundary" where
  "sample_boundary = \<lparr>o_now = 11, o_end = 31, o_start = 11, c_now = 0, c_end = 10, c_start = 0,
     converter = (), space = replicate 40 0\<rparr>"

definition sample_source :: "unit OlyDataSource" where
  "sample_source = fresh_data_source 0\<lparr>ds_boundary := Some sample_boundary, ds_node := 1\<rparr>"

definition sample_heap :: node_heap where
  "sample_heap = \<lparr>nodes = [1 \<mapsto> fresh_node], next_node = 2\<rparr>"

lemma sample_ready: "ds_ready sample_source sample_boundary"
  by (simp add: ds_ready_def sample_source_def sample_boundary_def fresh_data_source_def boundary_ok_def
      size_mod_def)

theorem keyed_string_becomes_node_witness:
  "\<exists>ds1 ds2 b2 h2 n2. stage_node_key sample_source (Some [107, 0]) 0 = Ret (OLY_OKAY, ds1)
    \<and> enqueue_ds_node (\<lambda>c n s. (c, map ucast s, False)) ds1 (Some [118, 119, 0])
        (tag_code OLY_TAG_SCALAR_STRING) sample_heap = Ret (OLY_WARN_NODE_PRODUCED, ds2, h2)
    \<and> nodes h2 1 = Some n2 \<and> holds (key n2) [107] \<and> holds (as_string (union (nvalue n2))) [118, 119]
    \<and> enqueue_ds_node (\<lambda>c n s. (c, map ucast s, False)) ds2 (Some [118, 0]) (tag_code OLY_TAG_SCALAR_STRING) h2
        = Ret (OLY_WARN_NODE_PRODUCED, ds2, h2)
    \<and> ds_ready (reset_ds_status ds2) b2"
proof -
  have node: "nodes sample_heap (ds_node sample_source) = Some fresh_node"
    by (simp add: sample_heap_def sample_source_def)
  show ?thesis
    using keyed_string_becomes_node [OF sample_ready node, of "[107]" "[118, 119]"
        "\<lambda>c n s. (c, map ucast s, False)" "()" "[107]" "[118, 119]" "[]" "[]"]
    by (simp add: MAX_KEY_LENGTH_eq sample_boundary_def sample_source_def storable_def) fastforce
qed

text \<open>
  A string value without a staged key is lost: it stays unconverted in the byte area, the
  node is produced all the same, and its value is a null pointer. The flag \<open>has_key\<close> that an
  earlier node has left stays set.
\<close>

theorem keyless_string_is_lost:
  assumes ds: "ds_status ds = OLY_OKAY" "ds_boundary ds = Some b" "key_staging ds = 0 # ks"
    and ok: "boundary_ok b" and rest: "ochars (drop (o_now b) (space b)) = 0 # r"
    and node: "nodes h (ds_node ds) = Some n"
    and v: "0 \<notin> set v" and room: "c_now b + length v + 1 < c_end b"
  shows "\<exists>ds2 b2 h2 n2. enqueue_ds_node to_unicode ds (Some (v @ 0 # t)) (tag_code OLY_TAG_SCALAR_STRING) h
        = Ret (OLY_WARN_NODE_PRODUCED, ds2, h2)
    \<and> nodes h2 = (nodes h)(ds_node ds \<mapsto> n2) \<and> is_string n2 \<and> union (nvalue n2) = String_value SNull
    \<and> key n2 = SNull \<and> has_key n2 = has_key n
    \<and> ds_boundary ds2 = Some b2 \<and> c_now b2 = c_now b + length v + 2 \<and> o_now b2 = o_now b"
proof -
  let ?m = "overlay (space b) (c_now b) (v @ [0, 0])"
  let ?b2 = "b\<lparr>space := ?m, c_now := c_now b + length v + 2\<rparr>"
  have put: "put_char_in b (v @ 0 # t) (length v + 1) = Ret (OLY_OKAY, ?b2)"
    by (rule put_char_in_with_null [OF ok v room])
  have "drop (o_now b) ?m = drop (o_now b) (space b)"
    using ok room by (intro nth_equalityI) (auto simp: boundary_ok_def nth_overlay)
  with rest have rest2: "ochars (drop (o_now ?b2) (space ?b2)) = 0 # r" by simp
  let ?n1 = "(reset_node n)\<lparr>node_id := ds_sequence ds\<rparr>"
  let ?n2 = "?n1\<lparr>nvalue := (nvalue ?n1)\<lparr>vtype := tag_code OLY_TAG_SCALAR_STRING\<rparr>\<rparr>"
  let ?n3 = "?n2\<lparr>key := SNull\<rparr>"
  let ?n4 = "?n3\<lparr>nvalue := (nvalue ?n3)\<lparr>union := String_value SNull\<rparr>\<rparr>"
  let ?d1 = "ds\<lparr>ds_status := OLY_OKAY, ds_sequence := ds_sequence ds + 1\<rparr>"
  let ?d2 = "?d1\<lparr>ds_status := OLY_OKAY, ds_boundary := Some ?b2\<rparr>"
  let ?d3 = "(?d2\<lparr>ds_status := OLY_OKAY\<rparr>)\<lparr>internal_scalar := SNull, ds_status := OLY_OKAY\<rparr>"
  have 1: "enqueue_key_in ?d1 ?n1 = Ret (False, ?d1, ?n1)"
    using ds(3) by (simp add: enqueue_key_in_def peek_def)
  have 2: "enqueue_value_in ?d1 ?n1 (Some (v @ 0 # t)) (tag_code OLY_TAG_SCALAR_STRING) = Ret (?d2, ?n1)"
    by (rule enqueue_value_in_string [OF _ v put]) (simp add: ds)
  have 3: "node_value_arg (Some (v @ 0 # t)) (tag_code OLY_TAG_SCALAR_STRING) = Ret (Some 0)"
    by (simp add: node_value_arg_def)
  have 4: "(if False then on_boundary (flush_inbound to_unicode) (?d2\<lparr>ds_status := OLY_OKAY\<rparr>)
      else Ret (?d2\<lparr>ds_status := OLY_OKAY\<rparr>)) = Ret (?d2\<lparr>ds_status := OLY_OKAY\<rparr>)" by simp
  have 5: "enqueue_key_out (?d2\<lparr>ds_status := OLY_OKAY\<rparr>) ?n2 = Ret (True, ?d2\<lparr>ds_status := OLY_OKAY\<rparr>, ?n3)"
    using ds(3) by (simp add: enqueue_key_out_def peek_def set_node_key_def)
  have "take_scalar (?d2\<lparr>ds_status := OLY_OKAY\<rparr>) = Ret ?d3"
    by (rule take_scalar_empty [OF _ rest2]) simp
  then have 6: "enqueue_value_out (?d2\<lparr>ds_status := OLY_OKAY\<rparr>) ?n3 (tag_code OLY_TAG_SCALAR_STRING) = Ret (True, ?d3\<lparr>ds_status := OLY_OKAY\<rparr>, ?n4)"
    by (simp add: enqueue_value_out_def set_node_string_value_def)
  show ?thesis
    using enqueue_steps [OF ds(1) node 1 2 3 set_node_value_string 4 5 6] node
    by (intro exI [of _ "?d3\<lparr>ds_status := OLY_WARN_NODE_PRODUCED\<rparr>"] exI [of _ ?b2] exI [of _ ?n4]
        exI [of _ "h\<lparr>nodes := (nodes h)(ds_node ds \<mapsto> ?n4)\<rparr>"])
      (simp add: reset_node_def is_string_def)
qed

theorem keyless_string_is_lost_witness:
  "\<exists>ds2 h2 n2. enqueue_ds_node (\<lambda>c n s. (c, map ucast s, False)) sample_source (Some [118, 0])
      (tag_code OLY_TAG_SCALAR_STRING) sample_heap = Ret (OLY_WARN_NODE_PRODUCED, ds2, h2)
    \<and> nodes h2 1 = Some n2 \<and> union (nvalue n2) = String_value SNull"
proof -
  have node: "nodes sample_heap (ds_node sample_source) = Some fresh_node"
    by (simp add: sample_heap_def sample_source_def)
  have ks: "key_staging sample_source = 0 # replicate 511 0"
    by (simp add: sample_source_def fresh_data_source_def MAX_KEY_LENGTH_eq numeral_eq_Suc)
  have ok: "ds_status sample_source = OLY_OKAY" "ds_boundary sample_source = Some sample_boundary"
      "boundary_ok sample_boundary"
    using sample_ready by (simp_all add: ds_ready_def)
  have "drop 11 (replicate 40 0) = ochar_bytes (replicate 14 0) @ [0 :: byte]" by (simp add: numeral_eq_Suc)
  then have "ochars (drop 11 (replicate 40 0)) = replicate 14 0" by (simp only: ochars_append) simp
  then have rest: "ochars (drop (o_now sample_boundary) (space sample_boundary)) = 0 # replicate 13 0"
    by (simp add: sample_boundary_def numeral_eq_Suc)
  have "c_now sample_boundary + length [118 :: byte] + 1 < c_end sample_boundary"
    by (simp add: sample_boundary_def)
  from keyless_string_is_lost [OF ok(1,2) ks ok(3) rest node _ this, of "\<lambda>c n s. (c, map ucast s, False)" "[]"]
  show ?thesis by (auto simp: sample_source_def)
qed

text \<open>
  A key that does not fit the staging area is copied behind its end whatever the status says,
  and a key without its length that is null is followed before it is tested.
\<close>

theorem long_key_overruns_staging:
  assumes "ds_ready ds b" and "0 \<notin> set k" and "MAX_KEY_LENGTH \<le> length k"
  shows "stage_node_key ds (Some (k @ 0 # t)) 0 = Crash \<and> stage_node_key ds None 0 = Crash"
  using stage_node_key_too_long [OF assms, of t] by (simp add: stage_node_key_def)

theorem long_key_overruns_staging_witness:
  "stage_node_key sample_source (Some (replicate 512 1 @ [0])) 0 = Crash"
  using long_key_overruns_staging [OF sample_ready, of "replicate 512 1" "[]"]
  by (simp add: MAX_KEY_LENGTH_eq)

text \<open>The option for the file name is the number 0, which every mask contains.\<close>

lemma file_name_option_always_unused:
  "set_data_option ds DSOPT_FILE_NAME value = Ret (OLY_WARN_DSOPT_NOT_USED, ds)"
  "get_data_option ds DSOPT_FILE_NAME status = Ret (None, OLY_WARN_DSOPT_NOT_USED)"
  by (simp_all add: set_data_option_def get_data_option_def option_unused_def DSOPT_FILE_NAME_def)

lemma file_name_option_conflicts:
  "set_ds_option_required (fresh_data_source t) DSOPT_FILE_NAME
    = Ret (OLY_ERR_DS_OPTION_CONFLICT, fresh_data_source t)"
  by (simp add: set_ds_option_required_def option_conflict_def fresh_data_source_def DSOPT_FILE_NAME_def)

end
