(* ===== verification/Config.thy ===== *)
theory Config
  imports Node_Queue Boundary
begin

text \<open>
  The configuration, from \<^verbatim>\<open>src/core/config.c\<close> and \<^verbatim>\<open>src/oly/config.h\<close>: looking for the
  configuration files, reading them, and the values the rest of the program is given. The YAML
  parser, the file system, the environment and the resource bundle are parameters. A parser is
  the list of its answers, \<open>None\<close> for an error, up to the end of the stream.
\<close>

section \<open>Items\<close>

definition OLY_CONFIG_MAIN_BOUNDARY_BUFFER_MAX :: nat where "OLY_CONFIG_MAIN_BOUNDARY_BUFFER_MAX = 0"
definition OLY_CONFIG_MAIN_STRING_BUFFER_MAX :: nat where "OLY_CONFIG_MAIN_STRING_BUFFER_MAX = 1"
definition OLY_CONFIG_MAIN_NODE_QUEUE_MAX :: nat where "OLY_CONFIG_MAIN_NODE_QUEUE_MAX = 2"
definition OLY_CONFIG_MAIN_UNSET :: nat where "OLY_CONFIG_MAIN_UNSET = 3"

record OlyConfig =
  config_value :: OlyNodeValue
  config_min :: int
  config_type :: int

definition unset_item :: "nat \<Rightarrow> OlyConfig" where
  "unset_item minimum =
     \<lparr>config_value = \<lparr>union = String_value SNull, vtype = tag_code OLY_TAG_TYPE_UNSET\<rparr>,
      config_min = int minimum, config_type = tag_code OLY_TAG_SCALAR_UINT\<rparr>"

definition oly_main_default :: "OlyConfig list" where
  "oly_main_default = [unset_item BUFSIZ, unset_item (BUFSIZ * 2), unset_item (BUFSIZ div 2)]"

definition open_config_item :: "OlyConfig \<Rightarrow> OlyStatus \<times> OlyConfig" where
  "open_config_item config =
     (OLY_OKAY, config\<lparr>config_value := (config_value config)\<lparr>union := String_value SNull\<rparr>,
        config_min := 0, config_type := tag_code OLY_TAG_TYPE_UNSET\<rparr>)"

definition close_config_item :: "OlyConfig \<Rightarrow> string_ptr option \<times> OlyConfig" where
  \<comment> \<open>the pointer that is freed, and the item\<close>
  "close_config_item config =
     (if config_type config = tag_code OLY_TAG_SCALAR_STRING
         \<and> as_string (union (config_value config)) \<noteq> SNull
      then Some (as_string (union (config_value config))) else None,
      config\<lparr>config_value := (config_value config)\<lparr>union := String_value SNull\<rparr>, config_min := 0\<rparr>)"

definition get_config_tag_type :: "nat \<Rightarrow> (OlyStatus \<times> int) outcome" where
  "get_config_tag_type item =
     obind (peek oly_main_default item) (\<lambda>d. Ret (OLY_OKAY, config_type d))"

definition set_config_item :: "OlyConfig list \<Rightarrow> nat \<Rightarrow> (OlyStatus \<times> OlyConfig list) outcome" where
  \<comment> \<open>the text of the value is not looked at; the item is an index behind the pointer\<close>
  "set_config_item config_item item =
     obind (peek oly_main_default item) (\<lambda>d.
     obind (peek config_item item) (\<lambda>c.
     obind (poke config_item item (c\<lparr>config_value := config_value d\<rparr>)) (\<lambda>config_item.
     Ret (OLY_OKAY, config_item))))"

definition copy_config_item :: "OlyConfig \<Rightarrow> OlyConfig \<Rightarrow> OlyStatus \<times> OlyConfig" where
  "copy_config_item dest source = (OLY_OKAY, dest)"

text \<open>The loop of \<open>load_main_defaults\<close> over the items that are left.\<close>

fun copy_defaults :: "OlyConfig list \<Rightarrow> nat list \<Rightarrow> OlyStatus \<Rightarrow> (OlyStatus \<times> OlyConfig list) outcome" where
  "copy_defaults config [] status = Ret (status, config)"
| "copy_defaults config (i # is) status =
     obind (peek config i) (\<lambda>c.
     if config_type c = tag_code OLY_TAG_TYPE_UNSET then
       obind (peek oly_main_default i) (\<lambda>d.
       case copy_config_item c d of (status, c) \<Rightarrow>
         obind (poke config i c) (\<lambda>config.
         if status \<noteq> OLY_OKAY then Ret (status, config) else copy_defaults config is status))
     else if status \<noteq> OLY_OKAY then Ret (status, config)
     else copy_defaults config is status)"

definition load_main_defaults :: "OlyConfig list \<Rightarrow> (OlyStatus \<times> OlyConfig list) outcome" where
  "load_main_defaults config = copy_defaults config [0..<OLY_CONFIG_MAIN_UNSET] OLY_OKAY"

section \<open>Values\<close>

definition get_int_config :: "nat \<Rightarrow> nat \<Rightarrow> OlyStatus \<times> int" where
  \<comment> \<open>the first argument is the configuration, a pointer\<close>
  "get_int_config config item =
     (OLY_OKAY, if item = OLY_CONFIG_MAIN_BOUNDARY_BUFFER_MAX then int BUFSIZ else int BUFSIZ)"

definition get_main_config_int :: "nat \<Rightarrow> nat \<Rightarrow> nat \<Rightarrow> OlyStatus \<times> int \<times> nat" where
  \<comment> \<open>the pointer kept from the last call, that of the global object, and the item;
     the status, the value and the pointer that is kept\<close>
  "get_main_config_int kept oly_config item =
     (let kept = (if kept = 0 then oly_config else kept)
      in case get_int_config kept item of (status, output) \<Rightarrow> (status, output, kept))"

section \<open>Keys\<close>

text \<open>
  \<open>bundle i\<close> is string \<open>i\<close> of the resource array, \<open>None\<close> for a failure; \<open>utf8\<close> converts the
  key, and fails when it has no room. A failure ends the process.
\<close>

fun match_key :: "(nat \<Rightarrow> ochar list option) \<Rightarrow> ochar list \<Rightarrow> nat list \<Rightarrow> (OlyStatus \<times> nat) outcome" where
  "match_key bundle config [] = Ret (OLY_ERR_CONFIG_UNKNOWN, OLY_CONFIG_MAIN_UNSET)"
| "match_key bundle config (i # is) =
     (case bundle i of
        None \<Rightarrow> Halt
      | Some config_item \<Rightarrow>
          if config = config_item then Ret (OLY_OKAY, i) else match_key bundle config is)"

definition find_config_item ::
  "(byte list \<Rightarrow> ochar list option) \<Rightarrow> (nat \<Rightarrow> ochar list option) \<Rightarrow> byte list \<Rightarrow>
   (OlyStatus \<times> nat) outcome" where
  "find_config_item utf8 bundle ckey =
     (case utf8 ckey of
        None \<Rightarrow> Halt
      | Some config \<Rightarrow> match_key bundle config [0..<OLY_CONFIG_MAIN_UNSET])"

definition root_OlyMain :: "string list" where
  "root_OlyMain = [''MAIN_CONFIG_UNKNOWN'', ''MAIN_MAX_STRING_BUFFER_SIZE'',
     ''MAIN_MAX_BOUNDARY_BUFFER_SIZE'', ''MAIN_MAX_NODE_LIST_SIZE'', ''MAIN_MAX_HASH_TABLE_SIZE'']"

section \<open>Files\<close>

datatype yaml_event =
    YAML_NO_EVENT
  | YAML_STREAM_START_EVENT
  | YAML_STREAM_END_EVENT
  | YAML_DOCUMENT_START_EVENT
  | YAML_DOCUMENT_END_EVENT
  | YAML_ALIAS_EVENT "byte list"
  | YAML_SCALAR_EVENT "byte list"
  | YAML_SEQUENCE_START_EVENT
  | YAML_SEQUENCE_END_EVENT
  | YAML_MAPPING_START_EVENT
  | YAML_MAPPING_END_EVENT

definition config_scalar ::
  "(byte list \<Rightarrow> (OlyStatus \<times> nat) outcome) \<Rightarrow> OlyConfig list \<Rightarrow> nat \<Rightarrow> OlyStatus \<Rightarrow> byte list \<Rightarrow>
   (bool \<times> OlyStatus \<times> nat) outcome" where
  \<comment> \<open>a scalar is a key when no item is pending, and its value otherwise; whether to go on\<close>
  "config_scalar lookup config item status s =
     (if item = OLY_CONFIG_MAIN_UNSET then
        obind (lookup s) (\<lambda>(status, item).
        let status = (if status = OLY_ERR_CONFIG_UNKNOWN then OLY_OKAY else status)
        in Ret (status = OLY_OKAY, status, item))
      else
        obind (peek config item) (\<lambda>c.
        Ret (True, if config_type c = tag_code OLY_TAG_TYPE_UNSET then OLY_OKAY else status,
             OLY_CONFIG_MAIN_UNSET)))"

fun config_events ::
  "(byte list \<Rightarrow> (OlyStatus \<times> nat) outcome) \<Rightarrow> OlyConfig list \<Rightarrow> nat \<Rightarrow> OlyStatus \<Rightarrow>
   yaml_event option list \<Rightarrow> OlyStatus outcome" where
  "config_events lookup config item status [] = Halt"
| "config_events lookup config item status (None # es) = Halt"
| "config_events lookup config item status (Some e # es) =
     (case e of
        YAML_STREAM_END_EVENT \<Rightarrow> Ret status
      | YAML_SCALAR_EVENT s \<Rightarrow>
          obind (config_scalar lookup config item status s) (\<lambda>(go, status, item).
          if go then config_events lookup config item status es else Ret status)
      | YAML_SEQUENCE_START_EVENT \<Rightarrow> config_events lookup config item OLY_OKAY es
      | YAML_SEQUENCE_END_EVENT \<Rightarrow> config_events lookup config item OLY_OKAY es
      | YAML_MAPPING_START_EVENT \<Rightarrow> config_events lookup config item OLY_OKAY es
      | YAML_MAPPING_END_EVENT \<Rightarrow> config_events lookup config item OLY_OKAY es
      | _ \<Rightarrow> config_events lookup config item status es)"

text \<open>A configuration file: whether the parser could be set up for it, and its answers.\<close>

type_synonym yaml_file = "bool \<times> yaml_event option list"

definition load_config_file ::
  "(byte list \<Rightarrow> (OlyStatus \<times> nat) outcome) \<Rightarrow> OlyConfig list \<Rightarrow> yaml_file \<Rightarrow> OlyStatus outcome" where
  "load_config_file lookup config file =
     (case file of (initialized, events) \<Rightarrow>
        if \<not> initialized then Ret OLY_ERR_LIBYAML_INIT
        else config_events lookup config OLY_CONFIG_MAIN_UNSET OLY_OKAY events)"

section \<open>Loading\<close>

definition init_config :: "bool \<Rightarrow> bool \<Rightarrow> (OlyStatus \<times> bool) outcome" where
  \<comment> \<open>whether the bundle was fetched before, and whether it is there; a missing bundle ends the process\<close>
  "init_config fetched present =
     (if \<not> fetched then (if present then Ret (OLY_OKAY, True) else Halt)
      else Ret (OLY_WARN_REINIT, True))"

definition olyrc :: "byte list" where
  "olyrc = [111, 108, 121, 114, 99]"

definition config_path :: "byte list \<Rightarrow> byte list \<Rightarrow> byte list outcome" where
  \<comment> \<open>the directory, what comes in between and the name of the file, copied into \<open>BUFSIZ\<close> bytes\<close>
  "config_path dir between =
     (let fpath = dir @ between @ olyrc in if length fpath < BUFSIZ then Ret fpath else Crash)"

text \<open>The parts of a text between separators, empty ones skipped.\<close>

fun split_on :: "byte \<Rightarrow> byte list \<Rightarrow> byte list \<Rightarrow> byte list list" where
  "split_on sep part [] = (if part = [] then [] else [part])"
| "split_on sep part (c # cs) =
     (if c = sep then (if part = [] then split_on sep [] cs else part # split_on sep [] cs)
      else split_on sep (part @ [c]) cs)"

text \<open>
  Reading one file when the status is still \<open>OLY_OKAY\<close>: the one at home, where every failure
  counts as a missing file, and one of a directory. The result is the status and whether the
  file has been loaded.
\<close>

definition try_home ::
  "(byte list \<Rightarrow> yaml_file option) \<Rightarrow> (byte list \<Rightarrow> (OlyStatus \<times> nat) outcome) \<Rightarrow> OlyConfig list \<Rightarrow>
   byte list \<Rightarrow> OlyStatus \<Rightarrow> (OlyStatus \<times> bool) outcome" where
  "try_home fopen lookup config fpath status =
     (case fopen fpath of
        None \<Rightarrow> Ret (OLY_ERR_CONFIG_FILE_NOT_FOUND, False)
      | Some file \<Rightarrow>
          if status = OLY_OKAY then
            obind (load_config_file lookup config file) (\<lambda>status.
            Ret (if status \<noteq> OLY_OKAY then (OLY_ERR_CONFIG_FILE_NOT_FOUND, False) else (OLY_OKAY, True)))
          else Ret (status, False))"

definition try_directory ::
  "(byte list \<Rightarrow> yaml_file option) \<Rightarrow> (byte list \<Rightarrow> (OlyStatus \<times> nat) outcome) \<Rightarrow> OlyConfig list \<Rightarrow>
   byte list \<Rightarrow> OlyStatus \<Rightarrow> (OlyStatus \<times> bool) outcome" where
  "try_directory fopen lookup config fpath status =
     (case fopen fpath of
        None \<Rightarrow> Ret (OLY_ERR_CONFIG_FILE_NOT_FOUND, False)
      | Some file \<Rightarrow>
          if status = OLY_OKAY then
            obind (load_config_file lookup config file) (\<lambda>status. Ret (status, status = OLY_OKAY))
          else Ret (status, False))"

fun try_directories ::
  "(byte list \<Rightarrow> yaml_file option) \<Rightarrow> (byte list \<Rightarrow> (OlyStatus \<times> nat) outcome) \<Rightarrow> OlyConfig list \<Rightarrow>
   byte list list \<Rightarrow> OlyStatus \<Rightarrow> bool \<Rightarrow> bool outcome" where
  "try_directories fopen lookup config [] status loaded = Ret loaded"
| "try_directories fopen lookup config (token # tokens) status loaded =
     (let status = (if status = OLY_ERR_CONFIG_FILE_NOT_FOUND then OLY_OKAY else status)
      in obind (config_path token [47]) (\<lambda>fpath.
         obind (try_directory fopen lookup config fpath status) (\<lambda>(status, ok).
         try_directories fopen lookup config tokens status (loaded \<or> ok))))"

text \<open>
  \<open>home\<close> is the value of the variable \<^verbatim>\<open>HOME\<close>, \<open>sysconfdir\<close> the directories fixed when the
  program is built, both without the null at the end; \<open>junk\<close> is what the allocated items hold.
  The items are used and dropped: the caller's pointer \<open>config\<close> is not set.
\<close>

definition load_main_config ::
  "bool \<Rightarrow> bool \<Rightarrow> byte list option \<Rightarrow> byte list \<Rightarrow> (byte list \<Rightarrow> yaml_file option) \<Rightarrow>
   (byte list \<Rightarrow> (OlyStatus \<times> nat) outcome) \<Rightarrow> (nat \<Rightarrow> OlyConfig) \<Rightarrow> nat \<Rightarrow>
   (OlyStatus \<times> bool \<times> nat) outcome" where
  \<comment> \<open>the status, whether the bundle has been fetched, and the caller's pointer\<close>
  "load_main_config fetched present home sysconfdir fopen lookup junk config =
     obind (init_config fetched present) (\<lambda>(status, fetched).
     let status = (if length sysconfdir + 1 > BUFSIZ then OLY_ERR_BUFFER_OVERFLOW else status);
         items = map (\<lambda>i. snd (open_config_item (junk i))) [0..<OLY_CONFIG_MAIN_UNSET]
     in case home of
          None \<Rightarrow> Crash
        | Some dir \<Rightarrow>
            obind (config_path dir [47, 46]) (\<lambda>fpath.
            obind (try_home fopen lookup items fpath status) (\<lambda>(status, loaded).
            obind (try_directories fopen lookup items
                     (split_on 58 [] (take (BUFSIZ - 1) sysconfdir)) status loaded) (\<lambda>loaded.
            obind (load_main_defaults items) (\<lambda>(status, items).
            Ret (if \<not> loaded \<and> status = OLY_OKAY then OLY_ERR_CONFIG_FILE_NOT_FOUND else OLY_OKAY,
                 fetched, config))))))"

section \<open>Lemmas\<close>

lemma items_unset: "config_type (snd (open_config_item c)) = tag_code OLY_TAG_TYPE_UNSET"
  by (simp add: open_config_item_def)

lemma copy_defaults_nothing:
  "\<forall>i\<in>set is. i < length config \<and> i < length oly_main_default \<Longrightarrow>
   copy_defaults config is OLY_OKAY = Ret (OLY_OKAY, config)"
  by (induction "is") (auto simp: mem_simps copy_config_item_def)

lemma load_main_defaults_nothing:
  "length config = OLY_CONFIG_MAIN_UNSET \<Longrightarrow> load_main_defaults config = Ret (OLY_OKAY, config)"
  unfolding load_main_defaults_def
  by (rule copy_defaults_nothing) (auto simp: oly_main_default_def OLY_CONFIG_MAIN_UNSET_def)

text \<open>
  What a file is to be, said directly: the answers of the parser come to the end of the stream without an error,
  and each text that is looked up can be converted. Looked up is every scalar but the one behind the
  name of an item, which is its value.
\<close>

fun looked_up :: "(byte list \<Rightarrow> bool) \<Rightarrow> byte list list \<Rightarrow> byte list list" where
  "looked_up names [] = []"
| "looked_up names (k # ss) = k # looked_up names (if names k then tl ss else ss)"

definition names_item :: "(byte list \<Rightarrow> ochar list option) \<Rightarrow> (nat \<Rightarrow> ochar list option) \<Rightarrow> byte list \<Rightarrow> bool" where
  "names_item utf8 bundle s \<longleftrightarrow> utf8 s \<noteq> None \<and> utf8 s \<in> bundle ` {0..<OLY_CONFIG_MAIN_UNSET}"

definition scalars :: "yaml_event option list \<Rightarrow> byte list list" where
  "scalars es = concat (map (\<lambda>e. case e of Some (YAML_SCALAR_EVENT s) \<Rightarrow> [s] | _ \<Rightarrow> []) es)"

definition complete ::
  "(byte list \<Rightarrow> ochar list option) \<Rightarrow> (nat \<Rightarrow> ochar list option) \<Rightarrow> yaml_event option list \<Rightarrow> bool" where
  "complete utf8 bundle events \<longleftrightarrow>
     (let es = takeWhile (\<lambda>e. e \<noteq> None \<and> e \<noteq> Some YAML_STREAM_END_EVENT) events
      in es @ [Some YAML_STREAM_END_EVENT] = take (length es + 1) events
         \<and> (\<forall>k\<in>set (looked_up (names_item utf8 bundle) (scalars es)). utf8 k \<noteq> None))"

text \<open>The same from the middle of a file on, where an item may be pending.\<close>

definition complete_from ::
  "(byte list \<Rightarrow> ochar list option) \<Rightarrow> (nat \<Rightarrow> ochar list option) \<Rightarrow> nat \<Rightarrow> yaml_event option list \<Rightarrow> bool" where
  "complete_from utf8 bundle item events \<longleftrightarrow>
     (let es = takeWhile (\<lambda>e. e \<noteq> None \<and> e \<noteq> Some YAML_STREAM_END_EVENT) events
      in es @ [Some YAML_STREAM_END_EVENT] = take (length es + 1) events
         \<and> (\<forall>k\<in>set (looked_up (names_item utf8 bundle)
                 (if item = OLY_CONFIG_MAIN_UNSET then scalars es else tl (scalars es))). utf8 k \<noteq> None))"

lemma complete_from_start: "complete utf8 bundle = complete_from utf8 bundle OLY_CONFIG_MAIN_UNSET"
  by (simp add: complete_def complete_from_def fun_eq_iff)

lemma scalars_Cons: "scalars (e # es) = (case e of Some (YAML_SCALAR_EVENT s) \<Rightarrow> s # scalars es | _ \<Rightarrow> scalars es)"
  by (simp add: scalars_def split: option.splits yaml_event.splits)

lemma complete_from_simps:
  "\<not> complete_from utf8 bundle item []"
  "\<not> complete_from utf8 bundle item (None # es)"
  "complete_from utf8 bundle item (Some YAML_STREAM_END_EVENT # es)"
  "complete_from utf8 bundle item (Some (YAML_SCALAR_EVENT s) # es) \<longleftrightarrow>
     (if item = OLY_CONFIG_MAIN_UNSET
      then utf8 s \<noteq> None \<and> complete_from utf8 bundle (if names_item utf8 bundle s then 0 else item) es
      else complete_from utf8 bundle OLY_CONFIG_MAIN_UNSET es)"
  by (auto simp: complete_from_def scalars_Cons Let_def scalars_def [of "[]"] OLY_CONFIG_MAIN_UNSET_def)

lemma complete_from_other:
  "e \<noteq> YAML_STREAM_END_EVENT \<Longrightarrow> \<nexists>s. e = YAML_SCALAR_EVENT s \<Longrightarrow>
   complete_from utf8 bundle item (Some e # es) \<longleftrightarrow> complete_from utf8 bundle item es"
  by (cases e) (simp_all add: complete_from_def scalars_Cons Let_def)

lemma complete_from_item:
  "item \<noteq> OLY_CONFIG_MAIN_UNSET \<Longrightarrow> complete_from utf8 bundle item = complete_from utf8 bundle 0"
  by (simp add: complete_from_def fun_eq_iff OLY_CONFIG_MAIN_UNSET_def)

text \<open>What looking up a text comes to, with a bundle that has the strings.\<close>

lemma match_key_answers:
  "\<forall>i\<in>set is. bundle i \<noteq> None \<Longrightarrow>
   (\<exists>i\<in>set is. bundle i = Some config \<and> match_key bundle config is = Ret (OLY_OKAY, i))
     \<or> Some config \<notin> bundle ` set is
       \<and> match_key bundle config is = Ret (OLY_ERR_CONFIG_UNKNOWN, OLY_CONFIG_MAIN_UNSET)"
  by (induction "is") (auto split: option.splits)

lemma find_config_item_answers:
  assumes "\<forall>i<OLY_CONFIG_MAIN_UNSET. bundle i \<noteq> None"
  obtains (unknown) "utf8 s = None" "find_config_item utf8 bundle s = Halt"
  | (found) i where "utf8 s \<noteq> None" "names_item utf8 bundle s" "i < OLY_CONFIG_MAIN_UNSET"
      "find_config_item utf8 bundle s = Ret (OLY_OKAY, i)"
  | (missing) "utf8 s \<noteq> None" "\<not> names_item utf8 bundle s"
      "find_config_item utf8 bundle s = Ret (OLY_ERR_CONFIG_UNKNOWN, OLY_CONFIG_MAIN_UNSET)"
proof (cases "utf8 s")
  case None
  then show ?thesis using unknown by (simp add: find_config_item_def)
next
  case (Some config)
  have "\<forall>i\<in>set [0..<OLY_CONFIG_MAIN_UNSET]. bundle i \<noteq> None" using assms by simp
  from match_key_answers [OF this, of config] show ?thesis
  proof (elim disjE bexE conjE)
    fix i
    assume i: "i \<in> set [0..<OLY_CONFIG_MAIN_UNSET]" "bundle i = Some config"
      "match_key bundle config [0..<OLY_CONFIG_MAIN_UNSET] = Ret (OLY_OKAY, i)"
    then have "names_item utf8 bundle s" using Some by (force simp: names_item_def)
    with i Some show ?thesis by (intro found [of i]) (simp_all add: find_config_item_def)
  next
    assume "Some config \<notin> bundle ` set [0..<OLY_CONFIG_MAIN_UNSET]"
      "match_key bundle config [0..<OLY_CONFIG_MAIN_UNSET] = Ret (OLY_ERR_CONFIG_UNKNOWN, OLY_CONFIG_MAIN_UNSET)"
    with Some show ?thesis by (intro missing) (simp_all add: find_config_item_def names_item_def)
  qed
qed

lemma config_events_result:
  assumes "\<forall>i<OLY_CONFIG_MAIN_UNSET. bundle i \<noteq> None" and "length config = OLY_CONFIG_MAIN_UNSET"
  shows "item \<le> OLY_CONFIG_MAIN_UNSET \<Longrightarrow>
    config_events (find_config_item utf8 bundle) config item OLY_OKAY events =
      (if complete_from utf8 bundle item events then Ret OLY_OKAY else Halt)"
proof (induction events arbitrary: item)
  case Nil
  then show ?case by (simp add: complete_from_simps)
next
  case (Cons e es)
  consider "e = None" | "e = Some YAML_STREAM_END_EVENT" | s where "e = Some (YAML_SCALAR_EVENT s)"
    | e' where "e = Some e'" "e' \<noteq> YAML_STREAM_END_EVENT" "\<nexists>s. e' = YAML_SCALAR_EVENT s" by (cases e) blast+
  then show ?case
  proof cases
    case 3
    show ?thesis
    proof (cases "item = OLY_CONFIG_MAIN_UNSET")
      case True
      from assms(1) show ?thesis
      proof (cases rule: find_config_item_answers [of "bundle" utf8 s])
        case unknown
        then show ?thesis using 3 True by (simp add: config_scalar_def complete_from_simps)
      next
        case (found i)
        then show ?thesis
          using 3 True Cons.IH [of i] complete_from_item [of i utf8 "bundle"] by (simp add: config_scalar_def complete_from_simps)
      next
        case missing
        then show ?thesis using 3 True Cons.IH by (simp add: config_scalar_def complete_from_simps)
      qed
    next
      case False
      then have "peek config item = Ret (config ! item)" using assms(2) Cons.prems by (simp add: mem_simps)
      then show ?thesis using 3 False Cons.IH by (simp add: config_scalar_def complete_from_simps)
    qed
  next
    case (4 e')
    then show ?thesis using Cons by (cases e') (simp_all add: complete_from_other)
  qed (simp_all add: complete_from_simps)
qed

lemma load_config_file_result:
  assumes "\<forall>i<OLY_CONFIG_MAIN_UNSET. bundle i \<noteq> None" and "length config = OLY_CONFIG_MAIN_UNSET"
  shows "load_config_file (find_config_item utf8 bundle) config (True, events) =
    (if complete utf8 bundle events then Ret OLY_OKAY else Halt)"
  using config_events_result [OF assms, of OLY_CONFIG_MAIN_UNSET]
  by (simp add: load_config_file_def complete_from_start)

text \<open>A file that is opened and is not complete ends the process.\<close>

definition breaks ::
  "(byte list \<Rightarrow> ochar list option) \<Rightarrow> (nat \<Rightarrow> ochar list option) \<Rightarrow> yaml_event option list option \<Rightarrow> bool" where
  "breaks utf8 bundle file \<longleftrightarrow> (case file of None \<Rightarrow> False | Some events \<Rightarrow> \<not> complete utf8 bundle events)"

lemma try_file_result:
  fixes utf8 :: "byte list \<Rightarrow> ochar list option"
  assumes "\<forall>i<OLY_CONFIG_MAIN_UNSET. bundle i \<noteq> None" and "length config = OLY_CONFIG_MAIN_UNSET"
  defines "result \<equiv> \<lambda>f. if breaks utf8 bundle f then Halt
      else Ret (if f = None then OLY_ERR_CONFIG_FILE_NOT_FOUND else OLY_OKAY, f \<noteq> None)"
  shows "try_directory (\<lambda>p. map_option (Pair True) (files p)) (find_config_item utf8 bundle) config fpath OLY_OKAY
      = result (files fpath)"
    and "try_home (\<lambda>p. map_option (Pair True) (files p)) (find_config_item utf8 bundle) config fpath OLY_OKAY
      = result (files fpath)"
  unfolding try_directory_def try_home_def result_def
  using load_config_file_result [OF assms(1,2), of utf8] by (auto simp: breaks_def split: option.splits)

lemma try_directories_result:
  assumes "\<forall>i<OLY_CONFIG_MAIN_UNSET. bundle i \<noteq> None" and "length config = OLY_CONFIG_MAIN_UNSET"
  shows "status = OLY_OKAY \<or> status = OLY_ERR_CONFIG_FILE_NOT_FOUND \<Longrightarrow>
    \<forall>t\<in>set tokens. length t + 6 < BUFSIZ \<Longrightarrow>
    try_directories (\<lambda>p. map_option (Pair True) (files p)) (find_config_item utf8 bundle) config tokens status loaded =
      (if \<exists>t\<in>set tokens. breaks utf8 bundle (files (t @ 47 # olyrc)) then Halt
       else Ret (loaded \<or> (\<exists>t\<in>set tokens. files (t @ 47 # olyrc) \<noteq> None)))"
proof (induction tokens arbitrary: status loaded)
  case Nil
  then show ?case by simp
next
  case (Cons t tokens)
  have fpath: "config_path t [47] = Ret (t @ 47 # olyrc)"
    using Cons.prems(2) by (simp add: config_path_def olyrc_def Let_def)
  let ?s = "if status = OLY_ERR_CONFIG_FILE_NOT_FOUND then OLY_OKAY else status"
  have s: "?s = OLY_OKAY" using Cons.prems(1) by auto
  show ?case
    using Cons.prems(2)
    by (simp add: s fpath try_file_result(1) [OF assms] Cons.IH Let_def)
qed

lemma split_on_short:
  "t \<in> set (split_on sep part cs) \<Longrightarrow> length t \<le> length part + length cs"
  by (induction sep part cs rule: split_on.induct) (fastforce split: if_splits)+

section \<open>Properties\<close>

text \<open>
  C40: With a parser that can be set up, a resource bundle that has its strings, and paths that fit their
  arrays, loading the configuration for the first time opens the file in the home directory and one in each of the
  directories fixed at build time. If one that can be opened is not complete, because the parser reports an
  error or a text that is looked up cannot be converted, the process is ended. Otherwise it succeeds exactly
  if one of them can be opened, and the status is \<open>OLY_ERR_CONFIG_FILE_NOT_FOUND\<close> if none can;
  the caller's pointer stays as it was.
\<close>

theorem load_main_config_finds_files:
  assumes strings: "\<forall>i<OLY_CONFIG_MAIN_UNSET. bundle i \<noteq> None"
    and home: "length home + 7 < BUFSIZ" and dirs: "length sysconfdir + 7 < BUFSIZ"
  shows "let paths = (home @ [47, 46] @ olyrc) # map (\<lambda>dir. dir @ 47 # olyrc) (split_on 58 [] sysconfdir) in
    load_main_config False True (Some home) sysconfdir (\<lambda>p. map_option (Pair True) (files p))
      (find_config_item utf8 bundle) junk config =
    (if \<exists>p\<in>set paths. \<exists>events. files p = Some events \<and> \<not> complete utf8 bundle events then Halt
     else Ret (if \<exists>p\<in>set paths. files p \<noteq> None then OLY_OKAY else OLY_ERR_CONFIG_FILE_NOT_FOUND, True, config))"
proof -
  let ?items = "map (\<lambda>i. snd (open_config_item (junk i))) [0..<OLY_CONFIG_MAIN_UNSET]"
  have len: "length ?items = OLY_CONFIG_MAIN_UNSET" by simp
  have fpath: "config_path home [47, 46] = Ret (home @ [47, 46] @ olyrc)"
    using home by (simp add: config_path_def olyrc_def Let_def)
  have short: "\<forall>t\<in>set (split_on 58 [] sysconfdir). length t + 6 < BUFSIZ"
    using split_on_short [of _ 58 "[]" sysconfdir] dirs by fastforce
  have cut: "take (BUFSIZ - 1) sysconfdir = sysconfdir" using dirs by simp
  have breaks: "(\<exists>events. f = Some events \<and> \<not> complete utf8 bundle events) \<longleftrightarrow> breaks utf8 bundle f" for f
    by (simp add: breaks_def split: option.splits)
  show ?thesis
    using dirs
    unfolding load_main_config_def init_config_def Let_def breaks
    by (simp add: fpath cut try_file_result(2) [OF strings len]
        try_directories_result [OF strings len _ short] load_main_defaults_nothing [OF len] del: upt_Suc)
qed

text \<open>
  The file of the second directory names an item, gives its value, and goes on with a key that is not known. With a
  conversion that refuses that key, the process is ended.
\<close>

theorem load_main_config_finds_files_witness:
  "let files = (\<lambda>p. if p = [47, 102, 47] @ olyrc
          then Some [Some (YAML_SCALAR_EVENT [97]), Some (YAML_SCALAR_EVENT [255]), Some (YAML_SCALAR_EVENT [98]),
            Some YAML_STREAM_END_EVENT] else None);
       load = (\<lambda>utf8. load_main_config False True (Some [104]) [47, 101, 58, 47, 102]
         (\<lambda>p. map_option (Pair True) (files p)) (find_config_item utf8 (\<lambda>i. Some [97])) (\<lambda>_. unset_item 0) 0)
   in load (\<lambda>s. if s = [255] then None else Some (map ucast s)) = Ret (OLY_OKAY, True, 0)
     \<and> load (\<lambda>s. if s = [98] then None else Some (map ucast s)) = Halt"
proof -
  let ?events = "[Some (YAML_SCALAR_EVENT [97]), Some (YAML_SCALAR_EVENT [255]), Some (YAML_SCALAR_EVENT [98]),
            Some YAML_STREAM_END_EVENT] :: yaml_event option list"
  let ?files = "\<lambda>p. if p = [47, 102, 47] @ olyrc then Some ?events else None"
  note found = load_main_config_finds_files [of "\<lambda>i. Some [97]" "[104]" "[47, 101, 58, 47, 102]" ?files _
      "\<lambda>_. unset_item 0" 0]
  have "complete (\<lambda>s. if s = [255] then None else Some (map ucast s)) (\<lambda>i. Some [97]) ?events"
    "\<not> complete (\<lambda>s. if s = [98] then None else Some (map ucast s)) (\<lambda>i. Some [97]) ?events"
    by (simp_all add: complete_def scalars_def names_item_def OLY_CONFIG_MAIN_UNSET_def image_constant_conv)
  then show ?thesis
    using found [of "\<lambda>s. if s = [255] then None else Some (map ucast s)"]
      found [of "\<lambda>s. if s = [98] then None else Some (map ucast s)"]
    unfolding Let_def BUFSIZ_def by (simp add: olyrc_def)
qed

text \<open>Every integer the program asks the configuration for is \<open>BUFSIZ\<close>.\<close>

lemma get_main_config_int_constant:
  "fst (snd (get_main_config_int kept oly_config item)) = int BUFSIZ"
  by (simp add: get_main_config_int_def get_int_config_def Let_def)

text \<open>The keys of the bundle and the items do not match: the second and the third are shifted.\<close>

lemma boundary_key_names_queue_item:
  assumes "inj chars"
  shows "match_key (\<lambda>i. Some (chars (root_OlyMain ! i))) (chars ''MAIN_MAX_BOUNDARY_BUFFER_SIZE'')
      [0..<OLY_CONFIG_MAIN_UNSET] = Ret (OLY_OKAY, OLY_CONFIG_MAIN_NODE_QUEUE_MAX)"
  using assms
  by (simp add: root_OlyMain_def OLY_CONFIG_MAIN_UNSET_def OLY_CONFIG_MAIN_NODE_QUEUE_MAX_def
      numeral_3_eq_3 inj_eq)

end
