(* ===== verification/Oly_Run.thy ===== *)
theory Oly_Run
  imports Data_Source
begin

text \<open>
  The global object and the main loop: \<^verbatim>\<open>src/pvt_core.h\<close>, \<^verbatim>\<open>src/pvt_state.h\<close>,
  \<^verbatim>\<open>src/pvt_resources.h\<close>, \<^verbatim>\<open>src/resources\<close>, \<^verbatim>\<open>src/core/olystate.c\<close>, the accessors of
  \<^verbatim>\<open>src/core/basic_functions.c\<close>, \<^verbatim>\<open>src/core/dispatch.c\<close> and \<^verbatim>\<open>src/core/oly_run.c\<close>. The
  dispatch functions of the data sources are a parameter: a function of a number, of the state
  it keeps outside the program, of the data source and of the heap of nodes.
\<close>

section \<open>Resources and state\<close>

record OlyResource =
  res_locale :: "ochar list option"
  res_encoding :: "ochar list option"
  resource :: nat

definition get_locale :: "OlyResource \<Rightarrow> ochar list option" where
  "get_locale res = res_locale res"

definition get_encoding :: "OlyResource \<Rightarrow> ochar list option" where
  "get_encoding res = res_encoding res"

definition get_resource_data :: "OlyResource \<Rightarrow> nat" where
  "get_resource_data res = resource res"

text \<open>\<open>widen\<close> is the conversion \<^verbatim>\<open>u_uastrcpy\<close>; \<open>junk\<close> is the pointer in new memory.\<close>

definition new_resource ::
  "(byte list \<Rightarrow> ochar list) \<Rightarrow> nat \<Rightarrow> byte list option \<Rightarrow> byte list option \<Rightarrow> OlyResource outcome" where
  "new_resource widen junk locale encoding =
     (case (locale, encoding) of
        (Some l, Some e) \<Rightarrow>
          obind (c_strlen l) (\<lambda>nl. obind (c_strlen e) (\<lambda>ne.
          Ret \<lparr>res_locale = Some (widen (take nl l)), res_encoding = Some (widen (take ne e)),
               resource = junk\<rparr>))
      | _ \<Rightarrow> Crash)"

definition open_resource ::
  "(ochar list \<Rightarrow> nat \<times> bool) \<Rightarrow> bool \<Rightarrow> OlyResource option \<Rightarrow> (OlyStatus \<times> OlyResource) outcome" where
  \<comment> \<open>\<open>ures_open\<close> of the locale yields the bundle and whether it fails; the status it gets is not
     set, and a failure that is in there on entry stays and nothing is opened\<close>
  "open_resource ures_open stale_failure res =
     (case res of
        None \<Rightarrow> Crash
      | Some res \<Rightarrow>
          (case res_locale res of
             None \<Rightarrow> Crash
           | Some l \<Rightarrow>
               (case (if stale_failure then (0, True) else ures_open l) of (data, failure) \<Rightarrow>
                  Ret (if failure then OLY_ERR_LIB else OLY_OKAY, res\<lparr>resource := data\<rparr>))))"

text \<open>What closing a resource releases, in order.\<close>

datatype resource_part = Res_bundle | Res_locale | Res_encoding | Res_struct

definition close_resource :: "OlyResource option \<Rightarrow> resource_part list outcome" where
  "close_resource res =
     c_assert (res \<noteq> None)
       (case res of
          None \<Rightarrow> Crash
        | Some r \<Rightarrow>
            Ret ((if resource r \<noteq> 0 then [Res_bundle] else [])
              @ (if res_locale r \<noteq> None then [Res_locale] else [])
              @ (if res_encoding r \<noteq> None then [Res_encoding] else []) @ [Res_struct]))"

text \<open>The fields the constructor does not set hold what the allocator leaves there.\<close>

record OlyState =
  state_status :: OlyStatus
  lib_status :: int
  msgbuf_size :: nat
  msgbuf :: "ochar list"
  msgbuf_end :: nat

definition new_state :: "OlyState \<Rightarrow> OlyResource option \<Rightarrow> OlyState outcome" where
  "new_state junk master =
     c_assert (master \<noteq> None)
       (Ret (junk\<lparr>msgbuf := replicate BUFSIZ 0, msgbuf_end := 0, state_status := OLY_OKAY,
               lib_status := U_ZERO_ERROR\<rparr>))"

definition set_status :: "OlyState \<Rightarrow> OlyStatus \<Rightarrow> OlyStatus \<times> OlyState" where
  "set_status state status = (OLY_OKAY, state\<lparr>state_status := status\<rparr>)"

definition get_status :: "OlyState \<Rightarrow> OlyStatus" where
  "get_status s = state_status s"

section \<open>The global object\<close>

record 'c Oly =
  resource_dir :: "ochar list option"
  program_name :: "ochar list option"
  oly_data :: "OlyResource option"
  oly_state :: "OlyState option"
  oly_status :: OlyStatus
  oly_config :: nat
  inbound :: "'c OlyDataSource option"
  outbound :: "'c OlyDataSource option"
  node_queue :: "OlyNodeQueue option"

definition get_default_encoding :: "'c Oly \<Rightarrow> ochar list option outcome" where
  "get_default_encoding oly = (case oly_data oly of None \<Rightarrow> Crash | Some r \<Rightarrow> Ret (get_encoding r))"

definition get_default_locale :: "'c Oly \<Rightarrow> ochar list option outcome" where
  "get_default_locale oly = (case oly_data oly of None \<Rightarrow> Crash | Some r \<Rightarrow> Ret (get_locale r))"

definition get_program_name :: "'c Oly \<Rightarrow> ochar list option" where
  "get_program_name oly = program_name oly"

definition get_resource_dir :: "'c Oly \<Rightarrow> ochar list option" where
  "get_resource_dir oly = resource_dir oly"

definition get_oly_resource :: "'c Oly \<Rightarrow> nat outcome" where
  "get_oly_resource oly = (case oly_data oly of None \<Rightarrow> Crash | Some r \<Rightarrow> Ret (get_resource_data r))"

definition get_main_config :: "'c Oly \<Rightarrow> OlyStatus \<times> nat" where
  "get_main_config oly = (OLY_OKAY, oly_config oly)"

text \<open>
  The names ICU gives: the default converter, and the locale of the resource data, asked for with a
  status that has not been initialised (\<open>junk\<close>), so that ICU may refuse to look.
\<close>

definition char_default_encoding :: "byte list \<Rightarrow> byte list" where
  "char_default_encoding ucnv_getDefaultName = ucnv_getDefaultName"

definition char_default_locale ::
  "(nat \<Rightarrow> int \<Rightarrow> byte list option) \<Rightarrow> int \<Rightarrow> 'c Oly \<Rightarrow> byte list option outcome" where
  "char_default_locale ures_getLocaleByType junk oly =
     (case oly_data oly of
        None \<Rightarrow> Crash
      | Some r \<Rightarrow> Ret (ures_getLocaleByType (get_resource_data r) junk))"

definition set_inbound_data_source :: "'c Oly \<Rightarrow> 'c OlyDataSource option \<Rightarrow> OlyStatus \<times> 'c Oly" where
  "set_inbound_data_source oly ds =
     (let oly = oly\<lparr>oly_status := get_data_source_status ds\<rparr> in
      case ds of
        None \<Rightarrow> (oly_status oly, oly)
      | Some d \<Rightarrow>
          if oly_status oly \<noteq> OLY_OKAY then (oly_status oly, oly)
          else case set_data_source_direction d OLY_DS_IN of (status, d) \<Rightarrow>
            (status, oly\<lparr>oly_status := status, inbound := Some d\<rparr>))"

definition set_outbound_data_source :: "'c Oly \<Rightarrow> 'c OlyDataSource option \<Rightarrow> OlyStatus \<times> 'c Oly" where
  "set_outbound_data_source oly ds =
     (let oly = oly\<lparr>oly_status := get_data_source_status ds\<rparr> in
      case ds of
        None \<Rightarrow> (oly_status oly, oly)
      | Some d \<Rightarrow>
          if oly_status oly \<noteq> OLY_OKAY then (oly_status oly, oly)
          else case set_data_source_direction d OLY_DS_OUT of (status, d) \<Rightarrow>
            (status, oly\<lparr>oly_status := status, outbound := Some d\<rparr>))"

definition get_inbound_data_source :: "'c Oly \<Rightarrow> OlyStatus \<times> 'c OlyDataSource option" where
  "get_inbound_data_source oly = (OLY_OKAY, inbound oly)"

definition get_outbound_data_source :: "'c Oly \<Rightarrow> OlyStatus \<times> 'c OlyDataSource option" where
  "get_outbound_data_source oly = (OLY_OKAY, outbound oly)"

definition enqueue_node_list :: "addr list \<Rightarrow> nat \<Rightarrow> OlyStatus" where
  "enqueue_node_list node_list node_count = OLY_OKAY"

definition dequeue_node_list :: "addr list \<Rightarrow> nat \<Rightarrow> nat \<Rightarrow> OlyStatus" where
  "dequeue_node_list node_list capacity node_count = OLY_OKAY"

section \<open>The main loop\<close>

text \<open>
  The state of a run: the global object, the nodes, the state \<open>outside\<close> that the dispatch
  functions keep (the parser, the files), and what has been printed.
\<close>

record ('c, 'x) run_state =
  run_oly :: "'c Oly"
  run_heap :: node_heap
  outside :: 'x
  printed :: "(stream \<times> piece) list"

type_synonym ('c, 'x) dispatcher =
  "nat \<Rightarrow> 'x \<Rightarrow> 'c OlyDataSource \<Rightarrow> node_heap \<Rightarrow> (OlyStatus \<times> 'x \<times> 'c OlyDataSource \<times> node_heap) outcome"

definition dispatch_inbound ::
  "('c, 'x) dispatcher \<Rightarrow> ('c, 'x) run_state \<Rightarrow> (OlyStatus \<times> ('c, 'x) run_state) outcome" where
  "dispatch_inbound call s =
     (case inbound (run_oly s) of
        None \<Rightarrow> Crash
      | Some ds \<Rightarrow>
          obind (run_ds_dispatch_function (\<lambda>f. call f (outside s) ds (run_heap s)) ds)
          (\<lambda>(status, x, ds, h).
          Ret (status, s\<lparr>run_oly := (run_oly s)\<lparr>inbound := Some ds\<rparr>, run_heap := h, outside := x\<rparr>)))"

definition dispatch_outbound ::
  "('c, 'x) dispatcher \<Rightarrow> ('c, 'x) run_state \<Rightarrow> (OlyStatus \<times> ('c, 'x) run_state) outcome" where
  "dispatch_outbound call s =
     (case outbound (run_oly s) of
        None \<Rightarrow> Crash
      | Some ds \<Rightarrow>
          obind (run_ds_dispatch_function (\<lambda>f. call f (outside s) ds (run_heap s)) ds)
          (\<lambda>(status, x, ds, h).
          Ret (status, s\<lparr>run_oly := (run_oly s)\<lparr>outbound := Some ds\<rparr>, run_heap := h, outside := x\<rparr>)))"

definition oly_receive :: "('c, 'x) run_state \<Rightarrow> (OlyStatus \<times> ('c, 'x) run_state) outcome" where
  "oly_receive s =
     (case (inbound (run_oly s), node_queue (run_oly s)) of
        (Some ds, Some q) \<Rightarrow>
          (case collect_nodes ds of (status, node) \<Rightarrow>
           if status \<noteq> OLY_OKAY then Ret (status, s)
           else
             obind (enqueue_to_node_queue q (run_heap s) node) (\<lambda>(status, q, h).
             let s = s\<lparr>run_oly := (run_oly s)\<lparr>node_queue := Some q\<rparr>, run_heap := h\<rparr>
             in if status \<noteq> OLY_OKAY then Ret (status, s)
                else
                  obind (load_node h node) (\<lambda>n.
                  obind (print_node h n) (\<lambda>pieces.
                  Ret (status, s\<lparr>printed := printed s @ pieces\<rparr>)))))
      | _ \<Rightarrow> Crash)"

text \<open>The pointer the node is copied to is a local variable that is never set: \<open>wild\<close>.\<close>

definition oly_send :: "addr \<Rightarrow> ('c, 'x) run_state \<Rightarrow> (OlyStatus \<times> ('c, 'x) run_state) outcome" where
  "oly_send wild s =
     (case (outbound (run_oly s), node_queue (run_oly s)) of
        (Some ds, Some q) \<Rightarrow>
          obind (dequeue_from_node_queue q (run_heap s) wild) (\<lambda>(status, q, h).
          let s = s\<lparr>run_oly := (run_oly s)\<lparr>node_queue := Some q\<rparr>, run_heap := h\<rparr>
          in if status \<noteq> OLY_OKAY then Ret (status, s)
             else
               case dispense_nodes ds wild of (status, ds) \<Rightarrow>
                 Ret (status, s\<lparr>run_oly := (run_oly s)\<lparr>outbound := Some ds\<rparr>\<rparr>))
      | _ \<Rightarrow> Crash)"

text \<open>
  The two loops, with \<open>fuel\<close> rounds; \<open>None\<close> means that they were not enough. The first result of
  the receiving loop tells whether the function goes on behind the loop.
\<close>

fun receive_loop ::
  "('c, 'x) dispatcher \<Rightarrow> nat \<Rightarrow> OlyStatus \<Rightarrow> ('c, 'x) run_state \<Rightarrow>
   (bool \<times> OlyStatus \<times> ('c, 'x) run_state) outcome option" where
  "receive_loop call fuel status s =
     (if \<not> (status \<noteq> OLY_ERR_NODE_QUEUE_FULL \<and> status \<noteq> OLY_ERR_BUFFER_OVERFLOW)
      then Some (Ret (True, status, s))
      else case fuel of
        0 \<Rightarrow> None
      | Suc fuel \<Rightarrow>
          (case dispatch_inbound call s of
             Halt \<Rightarrow> Some Halt
           | Crash \<Rightarrow> Some Crash
           | Ret (status, s) \<Rightarrow>
               let status = (if status = OLY_WARN_NODE_PRODUCED then OLY_OKAY else status)
               in if status \<noteq> OLY_OKAY then Some (Ret (False, status, s))
                  else
                    (case oly_receive s of
                       Halt \<Rightarrow> Some Halt
                     | Crash \<Rightarrow> Some Crash
                     | Ret (status, s) \<Rightarrow>
                         if status = OLY_ERR_NODES_TOO_SHALLOW then Some (Ret (True, status, s))
                         else if status \<noteq> OLY_OKAY then Some (Ret (False, status, s))
                         else receive_loop call fuel status s)))"

fun send_loop ::
  "('c, 'x) dispatcher \<Rightarrow> addr \<Rightarrow> nat \<Rightarrow> OlyStatus \<Rightarrow> ('c, 'x) run_state \<Rightarrow>
   (OlyStatus \<times> ('c, 'x) run_state) outcome option" where
  "send_loop call wild fuel status s =
     (if \<not> status \<noteq> OLY_ERR_NODE_QUEUE_EMPTY then Some (Ret (status, s))
      else case fuel of
        0 \<Rightarrow> None
      | Suc fuel \<Rightarrow>
          (case oly_send wild s of
             Halt \<Rightarrow> Some Halt
           | Crash \<Rightarrow> Some Crash
           | Ret (status, s) \<Rightarrow>
               if status = OLY_ERR_NODE_QUEUE_EMPTY then Some (Ret (OLY_OKAY, s))
               else
                 (case dispatch_outbound call s of
                    Halt \<Rightarrow> Some Halt
                  | Crash \<Rightarrow> Some Crash
                  | Ret (status, s) \<Rightarrow> send_loop call wild fuel status s)))"

declare receive_loop.simps [simp del] send_loop.simps [simp del]

definition oly_run ::
  "('c, 'x) dispatcher \<Rightarrow> addr \<Rightarrow> nat \<Rightarrow> ('c, 'x) run_state \<Rightarrow>
   (OlyStatus \<times> ('c, 'x) run_state) outcome option" where
  "oly_run call wild fuel s =
     (case receive_loop call fuel OLY_OKAY s of
        None \<Rightarrow> None
      | Some Halt \<Rightarrow> Some Halt
      | Some Crash \<Rightarrow> Some Crash
      | Some (Ret (go, status, s)) \<Rightarrow>
          if go then send_loop call wild fuel status s else Some (Ret (status, s)))"

section \<open>Receiving plain scalars\<close>

text \<open>
  A dispatcher with a script: it puts the next node of the script where the data source keeps its
  node, and answers \<open>eof\<close> when the script is at its end.
\<close>

definition scripted :: "('c, node_view list) dispatcher \<Rightarrow> nat \<Rightarrow> OlyStatus \<Rightarrow> bool" where
  "scripted call f eof \<longleftrightarrow>
     (\<forall>v vs ds h. nodes h (ds_node ds) \<noteq> None \<longrightarrow>
        call f (v # vs) ds h = Ret (OLY_WARN_NODE_PRODUCED, vs, ds,
          h\<lparr>nodes := (nodes h)(ds_node ds \<mapsto> node_of_view v)\<rparr>))
     \<and> (\<forall>ds h. call f [] ds h = Ret (eof, [], ds, h))"

definition receiving :: "('c, 'x) run_state \<Rightarrow> OlyNodeQueue \<Rightarrow> 'c OlyDataSource \<Rightarrow> nat \<Rightarrow> bool" where
  "receiving s q ds f \<longleftrightarrow> inbound (run_oly s) = Some ds \<and> node_queue (run_oly s) = Some q
     \<and> ds_dispatch ds = Some f \<and> nq_good (q, run_heap s, ds_node ds)"

text \<open>The next \<open>k\<close> slots of the ring lie ahead in allocated memory, the one behind them does not.\<close>

definition ahead :: "OlyNodeQueue \<Rightarrow> node_heap \<Rightarrow> nat \<Rightarrow> bool" where
  "ahead q h k \<longleftrightarrow> q_out q \<le> q_in q \<and> q_in q + k < queue_end q
     \<and> (\<forall>i. 1 \<le> i \<and> i \<le> k \<longrightarrow> nodes h (q_in q + i) \<noteq> None) \<and> nodes h (q_in q + k + 1) = None"

lemma nq_good_mapped: "nq_good (q, h, c) \<Longrightarrow> nodes h c \<noteq> None"
  by (simp add: nq_good_def)

lemma nq_good_ring: "nq_good (q, h, c) \<Longrightarrow> ring_ok q"
  by (auto simp: nq_good_def dest: q_invD(1))

lemma ahead_step: "ahead q h k \<Longrightarrow> step_in q = Some (Suc (q_in q))"
  by (simp add: ahead_def step_in_def)

lemma ahead_next:
  assumes "ahead q h (Suc k)" and "ring_ok q" and "q_in q' = Suc (q_in q)" and "q_out q' = q_out q" and "ring q' = ring q"
    and "\<forall>a\<in>ring q. nodes h' a = None \<longleftrightarrow> nodes h a = None"
  shows "ahead q' h' k"
proof -
  have ends: "queue_end q' = queue_end q" "q_in q \<in> ring q"
    using assms(2,5) by (auto simp: ring_def ring_ok_def Icc_eq_Icc)
  have "q_in q + i \<in> ring q" if "i \<le> Suc k + 1" for i
    using that assms(1) ends by (auto simp: ring_def ahead_def)
  then have "nodes h' (q_in q + i) = None \<longleftrightarrow> nodes h (q_in q + i) = None" if "i \<le> Suc k + 1" for i
    using that assms(6) by blast
  from this [of "Suc _"] this [of "Suc k + 1"] show ?thesis
    using assms(1,3,4) ends(1) unfolding ahead_def by auto
qed

lemma print_scalar: "nq_okay v \<Longrightarrow> \<exists>pieces. print_node h (node_of_view v) = Ret pieces"
  by (simp add: print_node_def node_of_view_def)

lemma dispatch_script:
  assumes "receiving s q ds f" and "scripted call f eof" and "outside s = v # vs"
  shows "dispatch_inbound call s = Ret (OLY_WARN_NODE_PRODUCED,
    s\<lparr>run_oly := (run_oly s)\<lparr>inbound := Some ds\<rparr>,
      run_heap := (run_heap s)\<lparr>nodes := (nodes (run_heap s))(ds_node ds \<mapsto> node_of_view v)\<rparr>,
      outside := vs\<rparr>)"
  using assms nq_good_mapped
  by (auto simp: receiving_def scripted_def dispatch_inbound_def run_ds_dispatch_function_def)

lemma dispatch_script_end:
  assumes "receiving s q ds f" and "scripted call f eof" and "outside s = []"
  shows "dispatch_inbound call s =
    Ret (eof, s\<lparr>run_oly := (run_oly s)\<lparr>inbound := Some ds\<rparr>, run_heap := run_heap s, outside := []\<rparr>)"
  using assms by (simp add: receiving_def scripted_def dispatch_inbound_def run_ds_dispatch_function_def)

text \<open>One node goes from the data source to the queue, or is refused because the ring is full.\<close>

lemma receive_scalar:
  assumes "receiving s q ds f" and v: "nq_okay v" and slot: "step_in q = Some slot"
    and mapped: "nodes (run_heap s) slot \<noteq> None"
    and s': "s' = s\<lparr>run_heap := (run_heap s)\<lparr>nodes := (nodes (run_heap s))(ds_node ds \<mapsto> node_of_view v)\<rparr>\<rparr>"
  obtains t q' where "oly_receive s' = Ret (OLY_OKAY, t)" and "receiving t q' ds f"
    and "items q' (run_heap t) = items q (run_heap s) @ [v]" and "ring q' = ring q"
    and "outside t = outside s" and "outbound (run_oly t) = outbound (run_oly s)"
    and "q_in q' = slot" and "q_out q' = q_out q"
    and "\<forall>a\<in>ring q. nodes (run_heap t) a = None \<longleftrightarrow> nodes (run_heap s) a = None"
proof -
  have r: "inbound (run_oly s) = Some ds" "node_queue (run_oly s) = Some q" "ds_dispatch ds = Some f"
      "nq_good (q, run_heap s, ds_node ds)"
    using assms(1) by (simp_all add: receiving_def)
  obtain q' h' where e: "enqueue_to_node_queue q
        ((run_heap s)\<lparr>nodes := (nodes (run_heap s))(ds_node ds \<mapsto> node_of_view v)\<rparr>) (ds_node ds) = Ret (OLY_OKAY, q', h')"
      "nq_good (q', h', ds_node ds)" "items q' h' = items q (run_heap s) @ [v]"
      "nodes h' (ds_node ds) = Some (node_of_view v)" "ring q' = ring q" "q_in q' = slot" "q_out q' = q_out q"
      "\<forall>a\<in>ring q. nodes h' a = None \<longleftrightarrow> nodes (run_heap s) a = None"
    by (rule nq_enqueue [OF r(4) v slot mapped])
  obtain pieces where p: "print_node h' (node_of_view v) = Ret pieces" using print_scalar [OF v] by blast
  let ?t = "s\<lparr>run_oly := (run_oly s)\<lparr>node_queue := Some q'\<rparr>, run_heap := h', printed := printed s @ pieces\<rparr>"
  have "oly_receive s' = Ret (OLY_OKAY, ?t)"
    using r e(1,4) p by (simp add: s' oly_receive_def collect_nodes_def load_node_def Let_def)
  moreover have "receiving ?t q' ds f" using r e(2) by (simp add: receiving_def)
  ultimately show ?thesis using e(3,5-8) by (intro that [of ?t q']) simp_all
qed

lemma receive_outside:
  assumes "inbound (run_oly s) = Some ds" and "node_queue (run_oly s) = Some q" and "step_in q = Some slot"
    and "nodes (run_heap s) slot = None"
  shows "oly_receive s = Crash"
  using assms unallocated_slot_crashes [of q slot "run_heap s"]
  by (simp add: oly_receive_def collect_nodes_def)

lemma receive_loop_script:
  assumes script: "scripted call f eof" and eof: "eof \<noteq> OLY_OKAY" "eof \<noteq> OLY_WARN_NODE_PRODUCED"
  shows "receiving s q ds f \<Longrightarrow> ahead q (run_heap s) k \<Longrightarrow> outside s = vs \<Longrightarrow> \<forall>v\<in>set vs. nq_okay v \<Longrightarrow>
    if length vs \<le> k then \<exists>t q'. receive_loop call (Suc (length vs)) OLY_OKAY s = Some (Ret (False, eof, t))
        \<and> node_queue (run_oly t) = Some q' \<and> items q' (run_heap t) = items q (run_heap s) @ vs
        \<and> outbound (run_oly t) = outbound (run_oly s)
      else receive_loop call (Suc (length vs)) OLY_OKAY s = Some Crash"
proof (induction vs arbitrary: s q k)
  case Nil
  let ?t = "s\<lparr>run_oly := (run_oly s)\<lparr>inbound := Some ds\<rparr>, run_heap := run_heap s, outside := []\<rparr>"
  have "receive_loop call (Suc 0) OLY_OKAY s = Some (Ret (False, eof, ?t))"
    using dispatch_script_end [OF Nil.prems(1) script Nil.prems(3)] eof
    by (subst receive_loop.simps) simp
  moreover have "node_queue (run_oly ?t) = Some q" using Nil.prems(1) by (simp add: receiving_def)
  ultimately have "\<exists>t q'. receive_loop call (Suc 0) OLY_OKAY s = Some (Ret (False, eof, t))
        \<and> node_queue (run_oly t) = Some q' \<and> items q' (run_heap t) = items q (run_heap s)
        \<and> outbound (run_oly t) = outbound (run_oly s)"
    by (intro exI [of _ ?t] exI [of _ q]) simp
  then show ?case by simp
next
  case (Cons v vs)
  note r = Cons.prems(1)
  have v: "nq_okay v" and vs: "\<forall>v\<in>set vs. nq_okay v" using Cons.prems(4) by simp_all
  have good: "nq_good (q, run_heap s, ds_node ds)" using r by (simp add: receiving_def)
  let ?h1 = "(run_heap s)\<lparr>nodes := (nodes (run_heap s))(ds_node ds \<mapsto> node_of_view v)\<rparr>"
  define s0 where "s0 = s\<lparr>run_oly := (run_oly s)\<lparr>inbound := Some ds\<rparr>, outside := vs\<rparr>"
  define s1 where "s1 = s0\<lparr>run_heap := ?h1\<rparr>"
  have d: "dispatch_inbound call s = Ret (OLY_WARN_NODE_PRODUCED, s1)"
    using dispatch_script [OF r script Cons.prems(3)] by (simp add: s1_def s0_def)
  have r0: "receiving s0 q ds f" "run_heap s0 = run_heap s" "outside s0 = vs"
      "outbound (run_oly s0) = outbound (run_oly s)"
    using r by (simp_all add: receiving_def s0_def)
  note slot = ahead_step [OF Cons.prems(2)]
  show ?case
  proof (cases k)
    case 0
    have "ds_node ds \<noteq> Suc (q_in q)"
      using Cons.prems(2) good by (auto simp: ahead_def 0 nq_good_def)
    then have "nodes (run_heap s1) (Suc (q_in q)) = None"
      using Cons.prems(2) by (simp add: ahead_def 0 s1_def)
    then have "oly_receive s1 = Crash"
      using r0(1) by (intro receive_outside [OF _ _ slot, of _ ds]) (simp_all add: s1_def receiving_def)
    then have "receive_loop call (Suc (length (v # vs))) OLY_OKAY s = Some Crash"
      using d by (subst receive_loop.simps) simp
    then show ?thesis by (simp add: 0)
  next
    case (Suc j)
    have mapped: "nodes (run_heap s0) (Suc (q_in q)) \<noteq> None"
      using Cons.prems(2) r0(2) Suc by (auto simp: ahead_def dest: spec [of _ 1])
    obtain t q' where t: "oly_receive s1 = Ret (OLY_OKAY, t)" "receiving t q' ds f"
        "items q' (run_heap t) = items q (run_heap s0) @ [v]" "ring q' = ring q"
        "outside t = outside s0" "outbound (run_oly t) = outbound (run_oly s0)"
        "q_in q' = Suc (q_in q)" "q_out q' = q_out q"
        "\<forall>a\<in>ring q. nodes (run_heap t) a = None \<longleftrightarrow> nodes (run_heap s0) a = None"
      using r0(2) by (rule_tac receive_scalar [OF r0(1) v slot mapped, of s1]) (simp_all add: s1_def)
    have step: "receive_loop call (Suc (length (v # vs))) OLY_OKAY s = receive_loop call (Suc (length vs)) OLY_OKAY t"
      using d t(1) by (subst receive_loop.simps) simp
    have "ahead q' (run_heap t) j"
      using ahead_next [OF _ nq_good_ring [OF good] t(7,8,4,9)] Cons.prems(2) Suc r0(2) by simp
    moreover have "outside t = vs" using t(5) r0(3) by simp
    ultimately show ?thesis
      using Cons.IH [OF t(2) _ _ vs, of j] unfolding step using t(3,6) r0(2,4) Suc by auto
  qed
qed

text \<open>A queue that has just been opened has its allocated slots but the first ahead.\<close>

lemma opened_ahead:
  assumes "open_node_queue (OLY_OKAY, n) junk cells h0 = Ret (OLY_OKAY, q, h)"
    and "sizeof_OlyNode * sizeof_OlyNode \<le> n" and "2 * n < size_mod" and "heap_ok h0"
    and "depth (junk (next_node h0)) = 0" and "nodes h0 c \<noteq> None"
  shows "nq_good (q, h, c) \<and> ahead q h (n div 64 div 64 - 1) \<and> items q h = []"
proof -
  obtain q2 h2 b where o2: "open_node_queue (OLY_OKAY, n) junk cells h0 = Ret (OLY_OKAY, q2, h2)"
    "q_inv q2 h2 [] b" "slots q2 = []" "sb_room b = n - 2" "q_in q2 = next_node h0" "q_out q2 = next_node h0"
    "queue_start q2 = next_node h0" "queue_end q2 = next_node h0 + n div 64"
    "\<forall>a. nodes h2 a \<noteq> None \<longleftrightarrow> nodes h0 a \<noteq> None \<or> next_node h0 \<le> a \<and> a < next_node h0 + n div 64 div 64"
    by (rule open_node_queue_inv [where junk = junk and cells = cells, OF assms(4,2,3,5)]) blast
  have n: "64 \<le> n div 64" "1 \<le> n div 64 div 64" "n div 64 div 64 < n div 64" "2 < n"
    using assms(2) by (simp_all add: sizeof_OlyNode_def)
  have "c < next_node h0" using assms(4,6) by (auto simp: heap_ok_def not_le)
  then have "nq_good (q2, h2, c)" using o2 n assms(6) by (auto simp: nq_good_def ring_def)
  moreover have "nodes h0 (next_node h0 + i) = None" for i using assms(4) by (auto simp: heap_ok_def)
  then have "nodes h2 (next_node h0 + n div 64 div 64) = None"
    using o2(9) [rule_format, of "next_node h0 + n div 64 div 64"] by auto
  then have "ahead q2 h2 (n div 64 div 64 - 1)"
    using o2(5-9) n by (auto simp: ahead_def)
  moreover have "items q2 h2 = []" using o2(3) by (simp add: items_def split: option.split)
  ultimately show ?thesis using o2(1) assms(1) by simp
qed

text \<open>A node with two strings, from the data source to the queue.\<close>

lemma receive_strings:
  assumes ds: "inbound (run_oly s) = Some ds" and q: "node_queue (run_oly s) = Some q"
    and inv: "q_inv q h xs b" and c: "ds_node ds \<notin> ring q" "ds_node ds \<notin> set xs" "nodes h (ds_node ds) \<noteq> None"
    and n: "holds (key n) u" "is_string n" "holds (as_string (union (nvalue n))) w" "parent_node n = 0"
    and level: "level_ok (length xs) n"
    and step: "step_in q = Some slot" and alloc: "nodes h slot \<noteq> None"
    and room: "length u + length w + 4 < sb_room b"
    and heap: "nodes (run_heap s) = (nodes h)(ds_node ds \<mapsto> n)" "next_node (run_heap s) = next_node h"
  obtains t q' v where "oly_receive s = Ret (OLY_OKAY, t)" and "node_queue (run_oly t) = Some q'"
    and "items q' (run_heap t) = items q h @ [v]"
    and "v_id v = node_id n" "v_depth v = depth n" "v_key v = Some u" "v_value v = Inr w"
proof -
  have h: "run_heap s = h\<lparr>nodes := (nodes h)(ds_node ds \<mapsto> n)\<rparr>" using heap by (cases h) simp
  have qi: "q_inv q (run_heap s) xs b" "items q (run_heap s) = items q h"
    using q_inv_client [OF inv c] by (simp_all add: h)
  have src: "nodes (run_heap s) (ds_node ds) = Some n" by (simp add: h)
  have ok: "node_ok (length xs) n" using level n by (auto simp: node_ok_def strings_ok_def)
  have need: "strings_need n < sb_room b"
    using room n(2) holds_need [OF n(1)] holds_need [OF n(3)] by (simp add: strings_need_def)
  have ring: "slot \<in> ring q" "q_in q \<in> ring q"
    using step_in_slots [OF q_invD(1) [OF inv] step] q_invD(1) [OF inv] by (simp_all add: ring_ok_def)
  have alloc': "nodes (run_heap s) slot \<noteq> None" using alloc by (simp add: h)
  obtain q' h' where e: "enqueue_to_node_queue q (run_heap s) (ds_node ds) = Ret (OLY_OKAY, q', h')"
      "items q' h' = items q (run_heap s) @ [view b n]"
      "\<forall>x. x \<noteq> slot \<and> x \<noteq> q_in q \<and> x \<noteq> next_node (run_heap s) \<longrightarrow> nodes h' x = nodes (run_heap s) x"
    by (rule enqueue_node [OF qi(1) src ok step alloc' need])
  have "ds_node ds \<noteq> next_node (run_heap s)"
    using heap_ok_fresh [OF q_invD(2) [OF inv]] c(3) heap(2) by auto
  then have kept: "nodes h' (ds_node ds) = Some n" using e(3) ring c(1) src by metis
  obtain pieces where p: "print_node h' n = Ret pieces" using n(4) by (simp add: print_node_def)
  let ?t = "s\<lparr>run_oly := (run_oly s)\<lparr>node_queue := Some q'\<rparr>, run_heap := h', printed := printed s @ pieces\<rparr>"
  have "oly_receive s = Ret (OLY_OKAY, ?t)"
    using ds q e(1) kept p by (simp add: oly_receive_def collect_nodes_def load_node_def Let_def)
  moreover have "v_key (view b n) = Some u" "v_value (view b n) = Inr w"
    using holds_need [OF n(1), of b] holds_need [OF n(3), of b] n(2)
    by (simp_all add: view_def is_string_def)
  ultimately show ?thesis using e(2) qi(2) by (intro that [of ?t q' "view b n"]) (simp_all add: view_def)
qed

lemma send_faults: "nodes (run_heap s) wild = None \<Longrightarrow> oly_send wild s = Crash"
  by (auto simp: oly_send_def dequeue_from_node_queue_def load_node_def Let_def outcome_simps
      split: option.splits prod.splits)

lemma run_faults_after_shallow:
  assumes "receive_loop call (Suc fuel) OLY_OKAY s = Some (Ret (True, OLY_ERR_NODES_TOO_SHALLOW, t))"
    and "nodes (run_heap t) wild = None"
  shows "oly_run call wild (Suc fuel) s = Some Crash"
  using assms by (simp add: oly_run_def send_loop.simps send_faults)

section \<open>Properties\<close>

text \<open>
  C1: the main loop on a queue as \<open>open_node_queue\<close> leaves it, of any configured size that has room for a slot
  and with depth 0 in the first slot, which nothing initialises, and with a data source that delivers plain
  scalars and then a status that ends the input. It returns, with that status, exactly if there are fewer
  scalars than slots that have been allocated, one for every 4096 bytes of the size; then the queue has got
  all of them in order, and nothing is sent: the outbound data source is untouched. With more scalars a slot
  outside the allocated memory is written.
\<close>

theorem oly_run_fills_queue:
  assumes "scripted call f eof" and "eof \<noteq> OLY_OKAY" and "eof \<noteq> OLY_WARN_NODE_PRODUCED"
    and "inbound (run_oly s) = Some ds" and "ds_dispatch ds = Some f" and "node_queue (run_oly s) = Some q"
    and opened: "open_node_queue (OLY_OKAY, n) junk cells h0 = Ret (OLY_OKAY, q, run_heap s)"
      "sizeof_OlyNode * sizeof_OlyNode \<le> n" "2 * n < size_mod" "heap_ok h0"
      "depth (junk (next_node h0)) = 0" "nodes h0 (ds_node ds) \<noteq> None"
    and "outside s = vs" and "\<forall>v\<in>set vs. nq_okay v"
  shows "if length vs < n div sizeof_OlyNode div sizeof_OlyNode
    then \<exists>t q'. oly_run call wild (Suc (length vs)) s = Some (Ret (eof, t))
      \<and> node_queue (run_oly t) = Some q' \<and> items q' (run_heap t) = vs \<and> outbound (run_oly t) = outbound (run_oly s)
    else oly_run call wild (Suc (length vs)) s = Some Crash"
proof -
  let ?k = "n div 64 div 64"
  have o': "nq_good (q, run_heap s, ds_node ds)" "ahead q (run_heap s) (?k - 1)" "items q (run_heap s) = []"
    using opened_ahead [OF opened] by blast+
  have "receiving s q ds f" using assms(4-6) o'(1) by (simp add: receiving_def)
  from receive_loop_script [OF assms(1-3) this o'(2) assms(13,14), unfolded o'(3) append_Nil]
  have r: "if length vs \<le> ?k - 1 then \<exists>t q'. receive_loop call (Suc (length vs)) OLY_OKAY s = Some (Ret (False, eof, t))
        \<and> node_queue (run_oly t) = Some q' \<and> items q' (run_heap t) = vs \<and> outbound (run_oly t) = outbound (run_oly s)
      else receive_loop call (Suc (length vs)) OLY_OKAY s = Some Crash" .
  have k: "length vs < n div sizeof_OlyNode div sizeof_OlyNode \<longleftrightarrow> length vs \<le> ?k - 1"
    using opened(2) by (simp add: sizeof_OlyNode_def) linarith
  from r show ?thesis unfolding k by (auto simp: oly_run_def split: if_splits)
qed

definition sample_script :: "(unit, node_view list) dispatcher" where
  "sample_script f vs ds h =
     (case vs of
        [] \<Rightarrow> Ret (OLY_ERR_DS_EOF, [], ds, h)
      | v # vs \<Rightarrow> Ret (OLY_WARN_NODE_PRODUCED, vs, ds,
          h\<lparr>nodes := (nodes h)(ds_node ds \<mapsto> node_of_view v)\<rparr>))"

definition sample_oly :: "unit Oly" where
  "sample_oly = \<lparr>resource_dir = None, program_name = None, oly_data = None, oly_state = None,
     oly_status = OLY_OKAY, oly_config = 0,
     inbound = Some (sample_source\<lparr>ds_dispatch := Some 0\<rparr>), outbound = None,
     node_queue = Some sample_queue\<rparr>"

definition sample_int :: "64 word \<Rightarrow> node_view" where
  "sample_int i = \<lparr>v_id = i, v_depth = 0, v_type = tag_code OLY_TAG_SCALAR_INT,
     v_value = Inl (Int_value i), v_key = None\<rparr>"

text \<open>With the default size one scalar is received, and two are too many.\<close>

definition receiving_state :: "OlyNodeQueue \<Rightarrow> node_heap \<Rightarrow> node_view list \<Rightarrow> (unit, node_view list) run_state" where
  "receiving_state q h vs = \<lparr>run_oly = sample_oly\<lparr>node_queue := Some q\<rparr>, run_heap = h, outside = vs, printed = []\<rparr>"

theorem oly_run_fills_queue_witness:
  "\<exists>q h. open_node_queue (OLY_OKAY, BUFSIZ) (\<lambda>_. fresh_node) (\<lambda>_. 7) sample_heap = Ret (OLY_OKAY, q, h)
    \<and> (\<exists>t q'. oly_run sample_script 0 2 (receiving_state q h [sample_int 1]) = Some (Ret (OLY_ERR_DS_EOF, t))
        \<and> node_queue (run_oly t) = Some q' \<and> items q' (run_heap t) = [sample_int 1])
    \<and> oly_run sample_script 0 3 (receiving_state q h [sample_int 1, sample_int 2]) = Some Crash"
proof -
  let ?ds = "sample_source\<lparr>ds_dispatch := Some 0\<rparr>"
  have script: "scripted sample_script 0 OLY_ERR_DS_EOF" by (simp add: scripted_def sample_script_def)
  have size: "sizeof_OlyNode * sizeof_OlyNode \<le> BUFSIZ" "2 * BUFSIZ < size_mod" "BUFSIZ div sizeof_OlyNode div sizeof_OlyNode = 2"
    by (simp_all add: BUFSIZ_def sizeof_OlyNode_def size_mod_def)
  have heap: "heap_ok sample_heap" "depth fresh_node = 0" "nodes sample_heap (ds_node ?ds) \<noteq> None"
    by (auto simp: heap_ok_def sample_heap_def fresh_node_def sample_source_def)
  obtain q h where o': "open_node_queue (OLY_OKAY, BUFSIZ) (\<lambda>_. fresh_node) (\<lambda>_. 7) sample_heap = Ret (OLY_OKAY, q, h)"
    using heap(2) by (elim open_node_queue_inv [where junk = "\<lambda>_. fresh_node" and cells = "\<lambda>_. 7", OF heap(1) size(1,2)]) blast
  have s: "inbound (run_oly (receiving_state q h vs)) = Some ?ds" "ds_dispatch ?ds = Some 0"
      "node_queue (run_oly (receiving_state q h vs)) = Some q" "outside (receiving_state q h vs) = vs"
      "run_heap (receiving_state q h vs) = h" for vs
    by (simp_all add: receiving_state_def sample_oly_def)
  have okay: "nq_okay (sample_int i)" for i by (simp add: sample_int_def nq_okay_def)
  have run: "if length vs < 2
    then \<exists>t q'. oly_run sample_script 0 (Suc (length vs)) (receiving_state q h vs) = Some (Ret (OLY_ERR_DS_EOF, t))
      \<and> node_queue (run_oly t) = Some q' \<and> items q' (run_heap t) = vs
      \<and> outbound (run_oly t) = outbound (run_oly (receiving_state q h vs))
    else oly_run sample_script 0 (Suc (length vs)) (receiving_state q h vs) = Some Crash"
    if "\<forall>v\<in>set vs. nq_okay v" for vs
    using oly_run_fills_queue [OF script _ _ s(1-3) _ size(1,2) heap(1) _ heap(3) s(4) that,
        where junk = "\<lambda>_. fresh_node" and cells = "\<lambda>_. 7" and wild = 0] o' heap(2)
    by (simp only: s(5) size(3)) simp
  from run [of "[sample_int 1]"] run [of "[sample_int 1, sample_int 2]"] o' okay show ?thesis
    by (simp add: numeral_eq_Suc) blast
qed

text \<open>
  C2: a string value with its key goes from the parser to the queue: staging the key, enqueuing
  the value at the data source and receiving the node leave at the end of the queue a node
  with the decoded key and value, the sequence number and the depth.
\<close>

theorem string_reaches_queue:
  assumes ds: "ds_ready ds b" and node: "nodes h (ds_node ds) = Some n"
    and key: "k \<noteq> []" "0 \<notin> set k" "length k < MAX_KEY_LENGTH - 1" and val: "0 \<notin> set v"
    and room: "c_start b + length k + length v + 3 \<le> c_end b"
    and conv: "to_unicode (converter b) ((o_end b - o_start b) div 2) (terminated [k, v, []])
      = (cnv, terminated [dk, dv, []], False)"
    and texts: "storable dk" "storable dv"
    and fit: "o_start b + 2 * (length dk + length dv + 3) \<le> o_end b"
    and q: "node_queue (run_oly s) = Some q" "q_inv q h xs sb"
    and c: "ds_node ds \<notin> ring q" "ds_node ds \<notin> set xs"
    and level: "unat (depth n) \<le> Suc (length xs)" "unat (depth n) < length xs \<longrightarrow> 0 < unat (depth n)"
    and slot: "step_in q = Some slot" "nodes h slot \<noteq> None" and strings: "length dk + length dv + 4 < sb_room sb"
  shows "\<exists>ds1 ds2 h2 t q' item. stage_node_key ds (Some (k @ 0 # r)) 0 = Ret (OLY_OKAY, ds1)
    \<and> enqueue_ds_node to_unicode ds1 (Some (v @ 0 # r')) (tag_code OLY_TAG_SCALAR_STRING) h
        = Ret (OLY_WARN_NODE_PRODUCED, ds2, h2)
    \<and> oly_receive (s\<lparr>run_oly := (run_oly s)\<lparr>inbound := Some ds2\<rparr>, run_heap := h2\<rparr>) = Ret (OLY_OKAY, t)
    \<and> node_queue (run_oly t) = Some q' \<and> items q' (run_heap t) = items q h @ [item]
    \<and> v_id item = ds_sequence ds \<and> v_depth item = depth n \<and> v_key item = Some dk \<and> v_value item = Inr dv"
proof -
  obtain ds1 ds2 b2 h2 n2 where k:
      "stage_node_key ds (Some (k @ 0 # r)) 0 = Ret (OLY_OKAY, ds1)"
      "enqueue_ds_node to_unicode ds1 (Some (v @ 0 # r')) (tag_code OLY_TAG_SCALAR_STRING) h
        = Ret (OLY_WARN_NODE_PRODUCED, ds2, h2)"
      "h2 = h\<lparr>nodes := (nodes h)(ds_node ds \<mapsto> n2)\<rparr>" "holds (key n2) dk" "is_string n2"
      "holds (as_string (union (nvalue n2))) dv" "node_id n2 = ds_sequence ds" "depth n2 = depth n"
      "parent_node n2 = 0" "ds_node ds2 = ds_node ds"
    using keyed_string_produced [where to_unicode = to_unicode and dk = dk and dv = dv and k = k and v = v,
      OF ds node key val room conv texts fit, of r r'] by blast
  let ?s = "s\<lparr>run_oly := (run_oly s)\<lparr>inbound := Some ds2\<rparr>, run_heap := h2\<rparr>"
  have "\<not> is_collection n2" using k(5) by (simp add: is_string_def is_collection_def)
  then have lv: "level_ok (length xs) n2" using level k(8,9) by (auto simp: level_ok_def)
  have cs: "ds_node ds2 \<notin> ring q" "ds_node ds2 \<notin> set xs" "nodes h (ds_node ds2) \<noteq> None"
    using c node k(10) by simp_all
  have s: "inbound (run_oly ?s) = Some ds2" "node_queue (run_oly ?s) = Some q"
      "nodes (run_heap ?s) = (nodes h)(ds_node ds2 \<mapsto> n2)" "next_node (run_heap ?s) = next_node h"
    using q(1) k(3,10) by simp_all
  obtain t q' item where "oly_receive ?s = Ret (OLY_OKAY, t)" "node_queue (run_oly t) = Some q'"
      "items q' (run_heap t) = items q h @ [item]" "v_id item = node_id n2" "v_depth item = depth n2"
      "v_key item = Some dk" "v_value item = Inr dv"
    by (rule receive_strings [OF s(1,2) q(2) cs k(4,5,6,9) lv slot strings s(3,4)])
  with k(1,2,7,8) show ?thesis by auto
qed

theorem string_reaches_queue_witness:
  "\<exists>ds1 ds2 h2 t q' item. stage_node_key sample_source (Some [107, 0]) 0 = Ret (OLY_OKAY, ds1)
    \<and> enqueue_ds_node (\<lambda>c n s. (c, map ucast s, False)) ds1 (Some [118, 119, 0])
        (tag_code OLY_TAG_SCALAR_STRING) (sample_slots fresh_node) = Ret (OLY_WARN_NODE_PRODUCED, ds2, h2)
    \<and> oly_receive \<lparr>run_oly = sample_oly\<lparr>inbound := Some ds2\<rparr>, run_heap = h2, outside = (), printed = []\<rparr>
        = Ret (OLY_OKAY, t)
    \<and> node_queue (run_oly t) = Some q' \<and> items q' (run_heap t) = [item]
    \<and> v_key item = Some [107] \<and> v_value item = Inr [118, 119]"
proof -
  have node: "nodes (sample_slots fresh_node) (ds_node sample_source) = Some fresh_node"
    by (simp add: sample_source_def del: One_nat_def)
  have q: "node_queue (run_oly \<lparr>run_oly = sample_oly, run_heap = h, outside = (), printed = []\<rparr>) = Some sample_queue"
    for h by (simp add: sample_oly_def)
  have inv: "q_inv sample_queue (sample_slots fresh_node) [] sample_buffer" by (rule sample_queue_inv)
  have c: "ds_node sample_source \<notin> ring sample_queue" by (simp add: sample_source_def ring_def sample_queue_def)
  have slot: "nodes (sample_slots fresh_node) 11 \<noteq> None" by simp
  have room: "length [107 :: ochar] + length [118 :: ochar, 119] + 4 < sb_room sample_buffer"
    using sample_buffer_good(5) by simp
  show ?thesis
    using string_reaches_queue [where k = "[107]" and v = "[118, 119]" and dk = "[107]" and dv = "[118, 119]"
        and to_unicode = "\<lambda>c n s. (c, map ucast s, False)" and cnv = "()" and r = "[]" and r' = "[]",
        OF sample_ready node _ _ _ _ _ _ _ _ _ q inv c _ _ _ sample_step slot room, of "sample_slots fresh_node"]
    by (auto simp: MAX_KEY_LENGTH_eq sample_boundary_def storable_def fresh_node_def sample_queue_empty)
qed

end
