(* ===== verification/Init.thy ===== *)
theory Init
  imports Oly_Run Config
begin

text \<open>
  The start and the end of the process, from \<^verbatim>\<open>src/core/init_oly.c\<close>. The operating system, ICU
  and the allocator are a record of parameters, \<open>host\<close>. The allocator answers a request for
  \<open>n\<close> bytes with \<open>usable n\<close> writable ones: \<open>usable n = n\<close> is what the C standard promises,
  and real allocators leave a few more.
\<close>

section \<open>The host\<close>

datatype fd_status = Fd_open | Fd_closed | Fd_error
  \<comment> \<open>\<^verbatim>\<open>fstat\<close> succeeds, fails with \<^verbatim>\<open>EBADF\<close>, fails otherwise\<close>

record host =
  avail :: "nat \<Rightarrow> bool"
  usable :: "nat \<Rightarrow> nat"
  fresh_byte :: "nat \<Rightarrow> byte"
  rlim_max :: "64 word option"
  sysconf_open_max :: int
  fstat :: "nat \<Rightarrow> fd_status"
  freopen_null :: "nat \<Rightarrow> bool"
  pw_dir :: "byte list option"
  getenv :: "byte list \<Rightarrow> byte list option"
  u_init_fails :: bool
  base_name :: "byte list \<Rightarrow> byte list"
  locale_name :: "byte list option \<Rightarrow> byte list option"
  default_encoding :: "byte list option"
  u_finit :: "nat \<Rightarrow> bool"
  widen :: "byte list \<Rightarrow> ochar16 list"
  ures_open :: "byte list \<Rightarrow> byte list \<Rightarrow> nat"

definition imalloc :: "host \<Rightarrow> nat \<Rightarrow> byte list outcome" where
  "imalloc w num = (if avail w num then Ret (map (fresh_byte w) [0..<usable w num]) else Halt)"

definition icalloc :: "host \<Rightarrow> nat \<Rightarrow> nat \<Rightarrow> byte list outcome" where
  "icalloc w num sz =
     obind (imalloc w (size_mul num sz)) (\<lambda>new. write_block new 0 (replicate (size_mul num sz) 0))"

definition istrdup :: "host \<Rightarrow> byte list option \<Rightarrow> byte list option outcome" where
  "istrdup w str =
     (case str of
        None \<Rightarrow> Ret None
      | Some m \<Rightarrow>
          obind (c_strlen m) (\<lambda>len.
          obind (imalloc w (size_add len 1)) (\<lambda>new.
          obind (write_block new 0 (take (len + 1) m)) (\<lambda>new. Ret (Some new)))))"

section \<open>File descriptors\<close>

definition open_devnull :: "host \<Rightarrow> nat \<Rightarrow> bool" where
  \<comment> \<open>\<open>freopen_null\<close>: the stream of that number is reopened under its old number\<close>
  "open_devnull w fd = (if fd = 0 \<or> fd = 1 \<or> fd = 2 then freopen_null w fd else False)"

text \<open>The number of descriptors: a limit of 64 bits cut to an \<^verbatim>\<open>int\<close>, \<open>- 1\<close> for no limit.\<close>

definition descriptor_limit :: "host \<Rightarrow> 64 word \<Rightarrow> int" where
  "descriptor_limit w limit =
     (let fds = sint (ucast limit :: 32 word) in if fds = - 1 then sysconf_open_max w else fds)"

fun check_std :: "host \<Rightarrow> nat list \<Rightarrow> nat set \<Rightarrow> nat set outcome" where
  "check_std w [] fds = Ret fds"
| "check_std w (fd # rest) fds =
     (case fstat w fd of
        Fd_open \<Rightarrow> check_std w rest fds
      | Fd_closed \<Rightarrow> if open_devnull w fd then check_std w rest (insert fd fds) else Halt
      | Fd_error \<Rightarrow> Halt)"

definition clean_io_open :: "host \<Rightarrow> nat set \<Rightarrow> nat set outcome" where
  \<comment> \<open>from the set of open descriptors to the set of those open afterwards\<close>
  "clean_io_open w fds =
     (case rlim_max w of
        None \<Rightarrow> Halt
      | Some limit \<Rightarrow>
          check_std w [0..<3] (foldl (\<lambda>fds fd. fds - {fd}) fds [3..<nat (descriptor_limit w limit)]))"

section \<open>The environment\<close>

definition home_prefix :: "byte list" where
  "home_prefix = [72, 79, 77, 69, 61]"

text \<open>The memory for \<^verbatim>\<open>HOME=\<close> and the directory; the null at the end is not counted.\<close>

definition get_home :: "host \<Rightarrow> byte list \<Rightarrow> byte list outcome" where
  "get_home w dir =
     obind (imalloc w (length dir + (length home_prefix + 1) - 1)) (\<lambda>home.
     write_block home 0 (home_prefix @ dir @ [0]))"

text \<open>
  The new environment is one block: a table of pointers, and behind it the strings. A pointer
  is an offset in the string area.
\<close>

record env_block =
  env_table :: "nat option list"
  env_area :: "byte list"

fun count_fixed :: "byte list list \<Rightarrow> nat \<times> nat \<Rightarrow> nat \<times> nat" where
  "count_fixed [] (new_size, arr_size) = (new_size, arr_size)"
| "count_fixed (var # vars) (new_size, arr_size) =
     count_fixed vars (size_add new_size (length var + 1), size_add arr_size 1)"

fun count_kept :: "host \<Rightarrow> byte list list \<Rightarrow> nat \<times> nat \<Rightarrow> nat \<times> nat" where
  "count_kept w [] (new_size, arr_size) = (new_size, arr_size)"
| "count_kept w (var # vars) (new_size, arr_size) =
     (case getenv w var of
        None \<Rightarrow> count_kept w vars (new_size, arr_size)
      | Some value \<Rightarrow>
          count_kept w vars (size_add new_size (length var + length value + 2), size_add arr_size 1))"

fun fill_fixed ::
  "byte list list \<Rightarrow> nat \<Rightarrow> nat \<Rightarrow> env_block \<Rightarrow> (nat \<times> nat \<times> env_block) outcome" where
  "fill_fixed [] arr_ptr ptr env = Ret (arr_ptr, ptr, env)"
| "fill_fixed (var # vars) arr_ptr ptr env =
     obind (poke (env_table env) arr_ptr (Some ptr)) (\<lambda>table.
     obind (write_block (env_area env) ptr (var @ [0])) (\<lambda>area.
     fill_fixed vars (arr_ptr + 1) (ptr + (length var + 1)) \<lparr>env_table = table, env_area = area\<rparr>))"

fun fill_kept ::
  "host \<Rightarrow> byte list list \<Rightarrow> nat \<Rightarrow> nat \<Rightarrow> env_block \<Rightarrow> (nat \<times> nat \<times> env_block) outcome" where
  "fill_kept w [] arr_ptr ptr env = Ret (arr_ptr, ptr, env)"
| "fill_kept w (var # vars) arr_ptr ptr env =
     (case getenv w var of
        None \<Rightarrow> fill_kept w vars arr_ptr ptr env
      | Some value \<Rightarrow>
          obind (poke (env_table env) arr_ptr (Some ptr)) (\<lambda>table.
          obind (write_block (env_area env) ptr var) (\<lambda>area.
          obind (poke area (ptr + length var) 61) (\<lambda>area.
          obind (write_block area (ptr + length var + 1) (value @ [0])) (\<lambda>area.
          fill_kept w vars (arr_ptr + 1) (ptr + (length var + length value + 2))
            \<lparr>env_table = table, env_area = area\<rparr>)))))"

definition pack_environment :: "host \<Rightarrow> byte list list \<Rightarrow> byte list list \<Rightarrow> env_block outcome" where
  "pack_environment w fixed kept =
     (case count_kept w kept (count_fixed fixed (0, 1)) of (new_size, arr_size) \<Rightarrow>
        obind (imalloc w (size_add new_size (size_mul arr_size 8))) (\<lambda>block.
        obind (poke (replicate arr_size None) (arr_size - 1) None) (\<lambda>table.
        obind (fill_fixed fixed 0 0 \<lparr>env_table = table, env_area = drop (arr_size * 8) block\<rparr>)
          (\<lambda>(arr_ptr, ptr, env).
        obind (fill_kept w kept arr_ptr ptr env) (\<lambda>(arr_ptr, ptr, env). Ret env)))))"

definition ifs_entry :: "byte list" where
  "ifs_entry = [73, 70, 83, 61, 32, 9, 10]"

text \<open>\<open>path_entry\<close> is \<^verbatim>\<open>PATH=\<close> with the standard path of the system, \<open>preserved\<close> the names to keep.\<close>

definition cleanenv ::
  "host \<Rightarrow> byte list \<Rightarrow> byte list list \<Rightarrow> (OlyStatus \<times> env_block option) outcome" where
  "cleanenv w path_entry preserved =
     (case pw_dir w of
        None \<Rightarrow> Ret (OLY_ERR_NOPWD, None)
      | Some dir \<Rightarrow>
          obind (get_home w dir) (\<lambda>home.
          obind (c_strlen home) (\<lambda>len.
          obind (pack_environment w [take len home, ifs_entry, path_entry] preserved) (\<lambda>env.
          Ret (OLY_OKAY, Some env)))))"

section \<open>Locale, encoding, streams\<close>

text \<open>
  A name that is not empty is copied into a block of exactly its length, so nothing ends it; for
  an empty name the result points to a local array, \<open>None\<close>.
\<close>

definition init_locale :: "host \<Rightarrow> byte list option \<Rightarrow> byte list option outcome" where
  "init_locale w locale =
     (case locale_name w locale of
        None \<Rightarrow> Halt
      | Some name \<Rightarrow>
          if length name > BUFSIZ then Halt
          else if length name > 0 then
            obind (icalloc w (length name) 1) (\<lambda>r.
            obind (write_block r 0 name) (\<lambda>r. Ret (Some r)))
          else Ret None)"

definition init_encoding :: "host \<Rightarrow> byte list option \<Rightarrow> byte list outcome" where
  "init_encoding w preset =
     (case (case preset of None \<Rightarrow> default_encoding w | Some e \<Rightarrow> Some e) of
        None \<Rightarrow> Halt
      | Some e \<Rightarrow> Ret e)"

definition init_io :: "host \<Rightarrow> bool \<Rightarrow> unit outcome" where
  \<comment> \<open>\<open>unset\<close>: the three streams are null before; they are opened in the order of the code\<close>
  "init_io w unset =
     c_assert unset
       (if \<not> u_finit w 2 then Halt
        else if \<not> u_finit w 1 then Halt
        else if \<not> u_finit w 0 then Halt
        else Ret ())"

text \<open>A copy that is converted, with a null, into a block counted without it.\<close>

definition widened_copy :: "host \<Rightarrow> byte list \<Rightarrow> ochar16 list outcome" where
  "widened_copy w str =
     obind (c_strlen str) (\<lambda>len.
     obind (icalloc w len 2) (\<lambda>n.
     obind (write_block n 0 (ochar_bytes (widen w (take len str) @ [0]))) (\<lambda>n.
     Ret (widen w (take len str)))))"

definition init_primary_resource ::
  "host \<Rightarrow> byte list option \<Rightarrow> byte list \<Rightarrow> byte list \<Rightarrow> OlyResource outcome" where
  \<comment> \<open>a bundle that cannot be opened is reported on the console only\<close>
  "init_primary_resource w locale encoding datadir =
     (case locale of
        None \<Rightarrow> Crash
      | Some l \<Rightarrow>
          obind (widened_copy w l) (\<lambda>wide_locale.
          obind (widened_copy w encoding) (\<lambda>wide_encoding.
          obind (c_strlen l) (\<lambda>len.
          Ret \<lparr>res_locale = Some wide_locale, res_encoding = Some wide_encoding,
               resource = ures_open w datadir (take len l)\<rparr>))))"

section \<open>The whole start\<close>

definition fresh_oly :: "'c Oly" where
  "fresh_oly = \<lparr>resource_dir = None, program_name = None, oly_data = None, oly_state = None,
     oly_status = OLY_OKAY, oly_config = 0, inbound = None, outbound = None, node_queue = None\<rparr>"

text \<open>The converted copy of a name, cut where the block ends in front of its null.\<close>

definition transfer :: "host \<Rightarrow> byte list \<Rightarrow> ochar16 list outcome" where
  "transfer w name =
     obind (icalloc w (size_add (length name) 1) 2) (\<lambda>block.
     let text = take (length name) (widen w name)
     in obind (write_block block 0 (ochar_bytes text)) (\<lambda>block. Ret text))"

text \<open>
  The calls into other components come with the arguments of their models: \<open>messages\<close> is what
  fetching the message bundle yields, \<open>load_config\<close> takes the pointer of the global object,
  \<open>open_queue\<close> and \<open>regexps\<close> are the answers of \<open>open_node_queue\<close> and \<open>init_regexp_data\<close>.
  \<^verbatim>\<open>HANDLE_STATUS_AND_DIE\<close> ends the process.
\<close>

definition init_oly ::
  "host \<Rightarrow> nat set \<Rightarrow> byte list \<Rightarrow> byte list list \<Rightarrow> OlyState \<Rightarrow> 'b \<times> int \<Rightarrow>
   (nat \<Rightarrow> (OlyStatus \<times> bool \<times> nat) outcome) \<Rightarrow> (OlyStatus \<times> OlyNodeQueue \<times> node_heap) outcome \<Rightarrow>
   (OlyStatus \<times> 'r list) outcome \<Rightarrow>
   byte list option \<Rightarrow> byte list option \<Rightarrow> byte list option \<Rightarrow> byte list option \<Rightarrow>
   (OlyStatus \<times> 'c Oly) outcome" where
  "init_oly w fds path_entry preserved state_junk messages load_config open_queue regexps
     prog datadir encoding locale =
     obind (istrdup w prog) (\<lambda>inner_prog.
     obind (istrdup w datadir) (\<lambda>inner_datadir.
     obind (imalloc w 72) (\<lambda>_.
     case (inner_prog, inner_datadir) of
       (Some p, Some d) \<Rightarrow>
         obind (clean_io_open w fds) (\<lambda>fds.
         obind (cleanenv w path_entry preserved) (\<lambda>(status, env).
         if status \<noteq> OLY_OKAY then Halt
         else if u_init_fails w then Halt
         else
           obind (c_strlen p) (\<lambda>plen.
           obind (transfer w (base_name w (take plen p))) (\<lambda>name.
           obind (c_strlen d) (\<lambda>dlen.
           obind (transfer w (take dlen d)) (\<lambda>dir.
           obind (init_locale w locale) (\<lambda>inner_locale.
           obind (init_encoding w encoding) (\<lambda>inner_encoding.
           obind (init_io w True) (\<lambda>_.
           obind (init_primary_resource w inner_locale inner_encoding (take dlen d)) (\<lambda>data.
           obind (init_errmsg None messages) (\<lambda>_.
           obind (new_state state_junk (Some data)) (\<lambda>state.
           let oly = fresh_oly\<lparr>program_name := Some name, resource_dir := Some dir,
                       oly_data := Some data, oly_state := Some state\<rparr>
           in obind (load_config (oly_config oly)) (\<lambda>(status, _, config).
              if status \<noteq> OLY_OKAY then Halt
              else
                obind open_queue (\<lambda>(status, queue, h).
                if status \<noteq> OLY_OKAY then Halt
                else
                  obind regexps (\<lambda>(status, table).
                  if status \<noteq> OLY_OKAY then Halt
                  else Ret (status, oly\<lparr>oly_status := status, oly_config := config,
                         node_queue := Some queue\<rparr>))))))))))))))))
     | _ \<Rightarrow> Halt)))"

text \<open>What \<open>close_oly\<close> releases at the end of the process, in order.\<close>

datatype oly_part = Oly_resource resource_part | Oly_program_name | Oly_resource_dir | Oly_config_items
  | Oly_stdout | Oly_stdin

definition close_oly :: "'c Oly \<Rightarrow> oly_part list outcome" where
  "close_oly oly =
     obind (close_resource (oly_data oly)) (\<lambda>parts.
     Ret (map Oly_resource parts
       @ (if program_name oly \<noteq> None then [Oly_program_name] else [])
       @ (if resource_dir oly \<noteq> None then [Oly_resource_dir] else [])
       @ (if oly_config oly \<noteq> 0 then [Oly_config_items] else [])
       @ [Oly_stdout, Oly_stdin]))"


section \<open>The environment is packed\<close>

text \<open>
  What a packed block holds: \<open>entry_bytes\<close> are the strings one behind the other, each with its
  null, \<open>offsets\<close> the pointers to them, and \<open>env_strings\<close> what a reader of the table finds.
\<close>

definition entry_bytes :: "byte list list \<Rightarrow> byte list" where
  "entry_bytes ss = concat (map (\<lambda>s. s @ [0]) ss)"

fun offsets :: "nat \<Rightarrow> byte list list \<Rightarrow> nat option list" where
  "offsets p [] = []"
| "offsets p (s # ss) = Some p # offsets (p + (length s + 1)) ss"

definition env_strings :: "env_block \<Rightarrow> byte list option list" where
  "env_strings env = map (map_option (\<lambda>p. takeWhile (\<lambda>c. c \<noteq> 0) (drop p (env_area env)))) (env_table env)"

text \<open>The entries for the names that have a value, as the process was given them.\<close>

fun kept_entries :: "host \<Rightarrow> byte list list \<Rightarrow> byte list list" where
  "kept_entries w [] = []"
| "kept_entries w (var # vars) =
     (case getenv w var of None \<Rightarrow> [] | Some value \<Rightarrow> [var @ 61 # value]) @ kept_entries w vars"

definition block_bytes :: "byte list list \<Rightarrow> nat" where
  "block_bytes ss = length (entry_bytes ss) + 8 * (length ss + 1)"

lemma entry_bytes_simps [simp]:
  "entry_bytes [] = []"
  "entry_bytes (s # ss) = s @ 0 # entry_bytes ss"
  by (simp_all add: entry_bytes_def)

lemma length_offsets [simp]: "length (offsets p ss) = length ss"
  by (induction ss arbitrary: p) auto

lemma offsets_append:
  "offsets p (ss @ ts) = offsets p ss @ offsets (p + length (entry_bytes ss)) ts"
  by (induction ss arbitrary: p) (auto simp: add.assoc)

text \<open>Writing an entry in three parts is writing it as a whole.\<close>

lemma write_block_split:
  "obind (write_block m p xs) (\<lambda>m. obind (write_block m (p + length xs) ys) f)
    = obind (write_block m p (xs @ ys)) f" if "ys \<noteq> []"
proof (cases "p + length xs \<le> length m")
  case True
  have "overlay (overlay m p xs) (p + length xs) ys = overlay m p (xs @ ys)"
    if "p + (length xs + length ys) \<le> length m"
    using that by (intro nth_equalityI) (auto simp: nth_overlay nth_append)
  with True show ?thesis by (auto simp: write_block_def add.assoc)
qed (simp add: write_block_def)

lemma poke_is_write: "poke m p x = write_block m p [x]"
  by (simp add: poke_def write_block_def overlay_def upd_conv_take_nth_drop)

lemma write_entry:
  "obind (write_block m p var) (\<lambda>m. obind (poke m (p + length var) 61) (\<lambda>m.
     obind (write_block m (p + length var + 1) (value @ [0])) f))
    = obind (write_block m p ((var @ 61 # value) @ [0])) f"
proof -
  have "obind (poke m' (p + length var) 61) (\<lambda>m. obind (write_block m (p + length var + 1) (value @ [0])) f)
      = obind (write_block m' (p + length var) ([61] @ value @ [0])) f" for m'
    using write_block_split [of "value @ [0]" m' "p + length var" "[61]" f] by (simp add: poke_is_write)
  then show ?thesis
    using write_block_split [of "[61] @ value @ [0]" m p var f] by simp
qed

lemma fill_kept_is_fill_fixed:
  "fill_kept w vars k p env = fill_fixed (kept_entries w vars) k p env"
proof (induction vars arbitrary: k p env)
  case (Cons var vars)
  then show ?case
    by (cases "getenv w var") (simp_all add: write_entry [simplified] add.assoc)
qed simp

lemma count_kept_is_count_fixed: "count_kept w vars (n, k) = count_fixed (kept_entries w vars) (n, k)"
  by (induction vars arbitrary: n k) (auto simp: add.assoc split: option.splits)

lemma count_fixed_append: "count_fixed (ss @ ts) (n, k) = count_fixed ts (count_fixed ss (n, k))"
  by (induction ss arbitrary: n k) auto

lemma count_fixed_sizes:
  "n + length (entry_bytes ss) < size_mod \<Longrightarrow> k + length ss < size_mod \<Longrightarrow>
   count_fixed ss (n, k) = (n + length (entry_bytes ss), k + length ss)"
  by (induction ss arbitrary: n k) (auto simp: size_simps)

lemma fill_fixed_append:
  "fill_fixed (ss @ ts) k p env = obind (fill_fixed ss k p env) (\<lambda>(k, p, env). fill_fixed ts k p env)"
  by (induction ss arbitrary: k p env) (auto simp: obind_assoc)

lemma overlay_middle: "length ys = length xs \<Longrightarrow> overlay (a @ ys @ b) (length a) xs = a @ xs @ b"
  by (simp add: overlay_def)

lemma fill_fixed_layout:
  assumes "length ss \<le> length qs" and "length (entry_bytes ss) \<le> length b"
  shows "fill_fixed ss (length ps) (length a) \<lparr>env_table = ps @ qs, env_area = a @ b\<rparr> =
    Ret (length ps + length ss, length a + length (entry_bytes ss),
      \<lparr>env_table = ps @ offsets (length a) ss @ drop (length ss) qs,
       env_area = a @ entry_bytes ss @ drop (length (entry_bytes ss)) b\<rparr>)"
  using assms
proof (induction ss arbitrary: ps qs a b)
  case (Cons s ss)
  obtain q qs' where qs: "qs = q # qs'" using Cons.prems by (cases qs) auto
  have area: "write_block (a @ b) (length a) (s @ [0]) = Ret ((a @ s @ [0]) @ drop (length s + 1) b)"
    using Cons.prems by (simp add: write_block_def overlay_def)
  have tab: "poke (ps @ q # qs') (length ps) (Some (length a)) = Ret ((ps @ [Some (length a)]) @ qs')"
    by (simp add: poke_def)
  show ?case
    using Cons.IH [of qs' "drop (length s + 1) b" "ps @ [Some (length a)]" "a @ s @ [0]"] Cons.prems
    by (simp add: qs area tab ac_simps)
qed simp

lemma env_strings_layout:
  assumes "\<forall>s\<in>set ss. 0 \<notin> set s"
  shows "map (map_option (\<lambda>p. takeWhile (\<lambda>c. c \<noteq> 0) (drop p (a @ entry_bytes ss @ b)))) (offsets (length a) ss)
    = map Some ss"
  using assms
proof (induction ss arbitrary: a)
  case (Cons s ss)
  have "takeWhile (\<lambda>c. c \<noteq> 0) (s @ 0 # u) = s" for u
    using Cons.prems by (subst takeWhile_append2) auto
  with Cons.IH [of "a @ s @ [0]"] Cons.prems show ?case by (simp add: add.assoc)
qed simp

text \<open>The whole block, for the fixed entries and those of the names that are kept.\<close>

lemma pack_environment_counts:
  fixes w fixed kept
  defines "ss \<equiv> fixed @ kept_entries w kept"
  assumes small: "block_bytes ss < size_mod"
  shows "count_kept w kept (count_fixed fixed (0, 1)) = (length (entry_bytes ss), Suc (length ss))"
    and "size_add (length (entry_bytes ss)) (size_mul (Suc (length ss)) 8) = block_bytes ss"
proof -
  show "count_kept w kept (count_fixed fixed (0, 1)) = (length (entry_bytes ss), Suc (length ss))"
    using small count_fixed_sizes [of 0 ss 1] unfolding ss_def block_bytes_def
    by (cases "count_fixed fixed (0, 1)") (simp add: count_kept_is_count_fixed count_fixed_append)
  show "size_add (length (entry_bytes ss)) (size_mul (Suc (length ss)) 8) = block_bytes ss"
    using small by (simp add: block_bytes_def size_simps)
qed

lemma pack_environment_halts:
  assumes "block_bytes (fixed @ kept_entries w kept) < size_mod"
    and "\<not> avail w (block_bytes (fixed @ kept_entries w kept))"
  shows "pack_environment w fixed kept = Halt"
  using assms(2) unfolding pack_environment_def pack_environment_counts(1) [OF assms(1)]
  by (simp only: prod.case pack_environment_counts(2) [OF assms(1)] imalloc_def if_False obind.simps)

lemma pack_environment_layout:
  fixes w fixed kept
  defines "ss \<equiv> fixed @ kept_entries w kept"
  assumes small: "block_bytes ss < size_mod" and mem: "avail w (block_bytes ss)"
    "block_bytes ss \<le> usable w (block_bytes ss)" and no_null: "\<forall>s\<in>set ss. 0 \<notin> set s"
  shows "\<exists>env. pack_environment w fixed kept = Ret env \<and> env_strings env = map Some ss @ [None]"
proof -
  let ?n = "length ss" and ?block = "map (fresh_byte w) [0..<usable w (block_bytes ss)]"
  note count = pack_environment_counts(1) [OF small [unfolded ss_def], folded ss_def]
    and bytes = pack_environment_counts(2) [OF small [unfolded ss_def], folded ss_def]
  have tab: "poke (replicate (Suc ?n) None) ?n None = Ret (replicate (Suc ?n) None)"
    by (simp add: poke_def list_update_same_conv [THEN iffD2] nth_append del: replicate_Suc)
  have room: "length (entry_bytes ss) \<le> length (drop ((Suc ?n) * 8) ?block)"
    using mem by (simp add: block_bytes_def)
  have fill: "fill_fixed ss 0 0 \<lparr>env_table = replicate (Suc ?n) None, env_area = drop ((Suc ?n) * 8) ?block\<rparr>
    = Ret (?n, length (entry_bytes ss), \<lparr>env_table = offsets 0 ss @ [None],
        env_area = entry_bytes ss @ drop (length (entry_bytes ss)) (drop ((Suc ?n) * 8) ?block)\<rparr>)"
    using fill_fixed_layout [of ss "replicate (Suc ?n) None" "drop ((Suc ?n) * 8) ?block" "[]" "[]"] room
    by (simp add: drop_replicate del: replicate_Suc drop_drop) (simp add: replicate_Suc)
  have "obind (fill_fixed fixed 0 0 e) (\<lambda>(k, p, e). obind (fill_kept w kept k p e) (\<lambda>(k, p, e). Ret e))
    = obind (fill_fixed ss 0 0 e) (\<lambda>(k, p, e). Ret e)" for e
    unfolding ss_def fill_fixed_append fill_kept_is_fill_fixed obind_assoc
    by (rule arg_cong2 [where f = obind]) (auto simp: obind_assoc)
  then have "pack_environment w fixed kept = Ret \<lparr>env_table = offsets 0 ss @ [None],
        env_area = entry_bytes ss @ drop (length (entry_bytes ss)) (drop ((Suc ?n) * 8) ?block)\<rparr>"
    unfolding pack_environment_def count using mem fill
    by (simp add: bytes imalloc_def tab del: replicate_Suc)
  with env_strings_layout [of ss "[]"] no_null show ?thesis
    by (simp add: env_strings_def del: drop_append drop_drop)
qed


section \<open>Home and the clean environment\<close>

lemma get_home_eq:
  "get_home w dir = (if \<not> avail w (length dir + 5) then Halt
     else if length dir + 6 \<le> usable w (length dir + 5)
     then Ret ((home_prefix @ dir) @ 0 # drop (length dir + 6)
       (map (fresh_byte w) [0..<usable w (length dir + 5)])) else Crash)"
proof -
  have "length home_prefix = 5" by (simp add: home_prefix_def)
  then show ?thesis by (simp add: get_home_def imalloc_def write_block_def overlay_def ac_simps del: One_nat_def)
qed

lemma get_home_strict: "usable w = (\<lambda>n. n) \<Longrightarrow> get_home w dir \<noteq> Ret home"
  by (simp add: get_home_def home_prefix_def imalloc_def write_block_def)

lemma cleanenv_strict:
  assumes "usable w = (\<lambda>n. n)" and "cleanenv w path_entry preserved = Ret (status, env)"
  shows "status = OLY_ERR_NOPWD"
  using assms get_home_strict [OF assms(1)]
  by (auto simp: cleanenv_def outcome_simps split: option.splits)

definition clean_entries :: "host \<Rightarrow> byte list \<Rightarrow> byte list \<Rightarrow> byte list list \<Rightarrow> byte list list" where
  "clean_entries w dir path_entry preserved =
     [home_prefix @ dir, ifs_entry, path_entry] @ kept_entries w preserved"

text \<open>
  C34: The allocator is a standard one, which hands out at least the bytes it is asked for, or nothing. If it refuses
  the block for the home entry, or that for the new environment, the process is ended. If it hands out
  exactly the bytes \<open>get_home\<close> asks for, the null behind the entry is written outside the block. If it hands out
  a byte more, \<open>cleanenv\<close> replaces the environment by exactly these strings, in this order, closed by a null
  pointer: the home directory of the password entry, the field separators, the standard path, and of the
  names to preserve those that had a value, with that value.
\<close>
theorem cleanenv_builds_environment:
  assumes dir: "pw_dir w = Some dir" and mem: "\<forall>n. n \<le> usable w n"
    and small: "block_bytes (clean_entries w dir path_entry preserved) < size_mod"
    and no_null: "\<forall>s\<in>set (clean_entries w dir path_entry preserved). 0 \<notin> set s"
  shows "if \<not> avail w (length dir + 5) then cleanenv w path_entry preserved = Halt
    else if usable w (length dir + 5) = length dir + 5 then cleanenv w path_entry preserved = Crash
    else if \<not> avail w (block_bytes (clean_entries w dir path_entry preserved))
    then cleanenv w path_entry preserved = Halt
    else \<exists>env. cleanenv w path_entry preserved = Ret (OLY_OKAY, Some env)
      \<and> env_strings env = map Some (clean_entries w dir path_entry preserved) @ [None]"
proof (cases "avail w (length dir + 5) \<and> usable w (length dir + 5) \<noteq> length dir + 5")
  case False
  then show ?thesis using dir by (auto simp: cleanenv_def get_home_eq)
next
  case True
  let ?home = "home_prefix @ dir" and ?es = "clean_entries w dir path_entry preserved"
  have home: "0 \<notin> set ?home" using no_null by (simp_all add: clean_entries_def)
  have "length dir + 6 \<le> usable w (length dir + 5)"
    using True mem [rule_format, of "length dir + 5"] by simp
  with True obtain rest where "get_home w dir = Ret (?home @ 0 # rest)" by (simp add: get_home_eq)
  moreover from home have "c_strlen (?home @ 0 # rest) = Ret (length ?home)"
    by (rule c_strlen_terminated)
  ultimately have env: "cleanenv w path_entry preserved
      = obind (pack_environment w [?home, ifs_entry, path_entry] preserved) (\<lambda>env. Ret (OLY_OKAY, Some env))"
    using dir by (simp add: cleanenv_def)
  have es: "[?home, ifs_entry, path_entry] @ kept_entries w preserved = ?es" by (simp add: clean_entries_def)
  show ?thesis
  proof (cases "avail w (block_bytes ?es)")
    case False
    then show ?thesis
      using True pack_environment_halts [of "[?home, ifs_entry, path_entry]" w preserved, unfolded es, OF small]
      by (simp add: env)
  next
    case avail: True
    with pack_environment_layout [of "[?home, ifs_entry, path_entry]" w preserved, unfolded es, OF small]
    show ?thesis using True mem no_null by (auto simp: env)
  qed
qed

text \<open>
  With an allocator that hands out exactly the bytes it is asked for, the start of the program
  never returns: \<open>get_home\<close> writes one byte behind its block, before anything else can go right.
\<close>
theorem init_oly_needs_slack:
  assumes "usable w = (\<lambda>n. n)"
  shows "init_oly w fds path_entry preserved junk messages load_config open_queue regexps
    prog datadir encoding locale \<noteq> Ret result"
  using cleanenv_strict [OF assms]
  by (auto simp: init_oly_def outcome_simps split: option.splits)

section \<open>Descriptors\<close>

lemma close_all: "foldl (\<lambda>fds fd. fds - {fd}) fds xs = fds - set xs" for fds :: "nat set"
  by (induction xs arbitrary: fds) auto

text \<open>A standard descriptor is open, or is closed and can be opened again.\<close>

definition std_ok :: "host \<Rightarrow> nat \<Rightarrow> bool" where
  "std_ok w fd \<longleftrightarrow> fstat w fd = Fd_open \<or> fstat w fd = Fd_closed \<and> open_devnull w fd"

lemma check_std_result:
  "check_std w xs fds =
    (if \<forall>fd\<in>set xs. std_ok w fd then Ret (fds \<union> {fd\<in>set xs. fstat w fd = Fd_closed}) else Halt)"
  by (induction xs arbitrary: fds) (auto simp: std_ok_def split: fd_status.splits)

text \<open>
  C35: With a limit of the resources at hand, the process goes on exactly if each of the three
  standard descriptors is open or can be opened on the null device; then these three are open, every
  descriptor from 3 up to the limit, cut to a signed 32-bit integer, is closed, and those above
  stay as they were.
\<close>
theorem clean_io_open_result:
  assumes "rlim_max w = Some limit"
  shows "clean_io_open w fds =
    (if \<forall>fd<3. std_ok w fd
     then Ret (fds - {fd. 3 \<le> fd \<and> int fd < descriptor_limit w limit} \<union> {fd. fd < 3 \<and> fstat w fd = Fd_closed})
     else Halt)"
proof -
  have "set [3..<nat (descriptor_limit w limit)] = {fd. 3 \<le> fd \<and> int fd < descriptor_limit w limit}"
    by auto
  moreover have "set [0..<3] = {fd. fd < (3 :: nat)}" by auto
  ultimately show ?thesis
    using assms by (simp add: clean_io_open_def close_all check_std_result del: set_upt upt_Suc)
qed

text \<open>A limit of \<open>2 ^ 32\<close> descriptors is cut to none, so nothing is closed.\<close>

lemma large_limit_closes_nothing: "descriptor_limit w (2 ^ 32) = 0"
  by (simp add: descriptor_limit_def ucast_0)

definition sample_host :: "(nat \<Rightarrow> nat) \<Rightarrow> 64 word \<Rightarrow> host" where
  "sample_host use limit =
     \<lparr>avail = (\<lambda>_. True), usable = use, fresh_byte = (\<lambda>_. 7), rlim_max = Some limit,
      sysconf_open_max = 256, fstat = (\<lambda>fd. if fd = 1 then Fd_closed else Fd_open),
      freopen_null = (\<lambda>_. True), pw_dir = Some [47],
      getenv = (\<lambda>name. if name = [84, 90] then Some [85] else None), u_init_fails = False,
      base_name = (\<lambda>s. s), locale_name = (\<lambda>_. Some []), default_encoding = Some [85, 0],
      u_finit = (\<lambda>_. True), widen = map ucast, ures_open = (\<lambda>_ _. 1)\<rparr>"

text \<open>
  Once with an allocator that rounds up to blocks of 16 bytes, and once with one that hands out exactly what
  it is asked for.
\<close>

theorem cleanenv_builds_environment_witness:
  "(\<exists>env. cleanenv (sample_host (\<lambda>n. (n + 23) div 16 * 16 - 8) 4) [80] [[76], [84, 90]] = Ret (OLY_OKAY, Some env)
      \<and> env_strings env = map Some [[72, 79, 77, 69, 61, 47], ifs_entry, [80], [84, 90, 61, 85]] @ [None])
    \<and> cleanenv (sample_host (\<lambda>n. n) 4) [80] [[76], [84, 90]] = Crash"
proof -
  have e: "clean_entries (sample_host f 4) [47] [80] [[76], [84, 90]]
      = [[72, 79, 77, 69, 61, 47], ifs_entry, [80], [84, 90, 61, 85]]" for f
    by (simp add: clean_entries_def sample_host_def home_prefix_def)
  have r: "n \<le> (n + 23) div 16 * 16 - 8" for n :: nat by presburger
  show ?thesis
    using cleanenv_builds_environment [of "sample_host (\<lambda>n. (n + 23) div 16 * 16 - 8) 4" "[47]" "[80]" "[[76], [84, 90]]"]
      cleanenv_builds_environment [of "sample_host (\<lambda>n. n) 4" "[47]" "[80]" "[[76], [84, 90]]"] r
    unfolding e by (simp add: sample_host_def block_bytes_def ifs_entry_def size_mod_def)
qed

theorem init_oly_needs_slack_witness:
  "init_oly (sample_host (\<lambda>n. n) 4) {0} [80] [] \<lparr>state_status = OLY_OKAY, lib_status = 0, msgbuf_size = 0, msgbuf = [],
      msgbuf_end = 0\<rparr> ((), 0) (\<lambda>_. Halt) Halt (Halt :: (OlyStatus \<times> unit list) outcome) (Some [111, 0]) (Some [47, 0]) None None
    \<noteq> Ret ((OLY_OKAY, fresh_oly) :: OlyStatus \<times> unit Oly)"
  by (rule init_oly_needs_slack) (simp add: sample_host_def)

theorem clean_io_open_result_witness:
  "clean_io_open (sample_host Suc 5) {0, 2, 3, 4, 5} = Ret {0, 1, 2, 5}"
proof -
  have "descriptor_limit (sample_host Suc 5) 5 = 5" by (simp add: descriptor_limit_def)
  moreover have "\<forall>fd<3. std_ok (sample_host Suc 5) fd"
    by (simp add: std_ok_def sample_host_def open_devnull_def All_less_Suc numeral_3_eq_3)
  moreover have "{fd. fd < 3 \<and> fstat (sample_host Suc 5) fd = Fd_closed} = {1}"
    by (auto simp: sample_host_def)
  moreover have "{0, 2, 3, 4, 5} - {fd. 3 \<le> fd \<and> int fd < 5} \<union> {1} = {0, 1, 2, 5}"
    by (simp add: insert_Diff_if insert_commute)
  moreover have "rlim_max (sample_host Suc 5) = Some 5" by (simp add: sample_host_def)
  ultimately show ?thesis
    using clean_io_open_result [of "sample_host Suc 5" 5 "{0, 2, 3, 4, 5}"] by simp
qed


end
