(* ===== verification/Console.thy ===== *)
theory Console
  imports Boundary
begin

text \<open>
  Output on the terminal, from \<^verbatim>\<open>src/debug/bash_printing.c\<close> and \<^verbatim>\<open>src/oly/oly_dev.h\<close>. What the
  program prints is the list of its writes, each with the stream it goes to.
\<close>

datatype stream = Stdout | Stderr | U_stdout | U_stderr

type_synonym console = "(stream \<times> byte list) list"

definition text_bytes :: "string \<Rightarrow> byte list" where
  "text_bytes s = map of_char s"

text \<open>The conversion \<^verbatim>\<open>%d\<close>.\<close>

fun decimal :: "nat \<Rightarrow> byte list" where
  "decimal n = (if n < 10 then [] else decimal (n div 10)) @ [48 + of_nat (n mod 10)]"

declare decimal.simps [simp del]

definition decimal_int :: "int \<Rightarrow> byte list" where
  "decimal_int i = (if i < 0 then 45 # decimal (nat (- i)) else decimal (nat i))"

datatype BashAttr = RESET | BRIGHT | DIM | UNDERLINE | BLINK | REVERSE | HIDDEN

primrec attr_code :: "BashAttr \<Rightarrow> nat" where
  "attr_code RESET = 0"
| "attr_code BRIGHT = 1"
| "attr_code DIM = 2"
| "attr_code UNDERLINE = 3"
| "attr_code BLINK = 4"
| "attr_code REVERSE = 7"
| "attr_code HIDDEN = 8"

datatype BashColors = BLACK | RED | GREEN | YELLOW | BLUE | MAGENTA | CYAN | WHITE

primrec color_code :: "BashColors \<Rightarrow> nat" where
  "color_code BLACK = 0"
| "color_code RED = 1"
| "color_code GREEN = 2"
| "color_code YELLOW = 3"
| "color_code BLUE = 4"
| "color_code MAGENTA = 5"
| "color_code CYAN = 6"
| "color_code WHITE = 7"

definition color_sequence :: "BashColors \<Rightarrow> BashColors \<Rightarrow> BashAttr \<Rightarrow> byte list" where
  "color_sequence fg bg attr =
     0x1B # text_bytes ''['' @ decimal (attr_code attr) @ text_bytes '';''
     @ decimal (color_code fg + 30) @ text_bytes '';'' @ decimal (color_code bg + 40) @ text_bytes ''m''"

definition reset :: console where
  "reset = [(Stdout, color_sequence WHITE BLACK RESET)]"

definition print_stdout_char_color :: "BashColors \<Rightarrow> BashColors \<Rightarrow> BashAttr \<Rightarrow> byte list \<Rightarrow> console" where
  "print_stdout_char_color fg bg attr msg = (Stdout, color_sequence fg bg attr @ msg) # reset"

definition print_stderr_char_color :: "BashColors \<Rightarrow> BashColors \<Rightarrow> BashAttr \<Rightarrow> byte list \<Rightarrow> console" where
  \<comment> \<open>the reset goes to the other stream\<close>
  "print_stderr_char_color fg bg attr msg = (Stderr, color_sequence fg bg attr @ msg) # reset"

text \<open>
  The text of 16-bit characters is given to the conversion \<^verbatim>\<open>%s\<close>, which takes bytes up to the first
  null byte.
\<close>

definition print_stdout_OChar_color :: "BashColors \<Rightarrow> BashColors \<Rightarrow> BashAttr \<Rightarrow> ochar16 list \<Rightarrow> console" where
  "print_stdout_OChar_color fg bg attr msg =
     (U_stdout, color_sequence fg bg attr @ takeWhile (\<lambda>b. b \<noteq> 0) (ochar_bytes msg)) # reset"

definition print_stderr_OChar_color :: "BashColors \<Rightarrow> BashColors \<Rightarrow> BashAttr \<Rightarrow> ochar16 list \<Rightarrow> console" where
  "print_stderr_OChar_color fg bg attr msg =
     (U_stderr, color_sequence fg bg attr @ takeWhile (\<lambda>b. b \<noteq> 0) (ochar_bytes msg)) # reset"

text \<open>Of a text in ASCII only the first character is printed.\<close>

lemma ochar_of_byte: "(ucast (ucast a :: ochar16) :: byte) = a" "(drop_bit 8 (ucast a :: ochar16)) = 0"
  for a :: byte
  by (rule bit_word_eqI; auto simp: bit_simps dest: bit_imp_le_length)+

lemma OChar_color_prints_one_character:
  "a \<noteq> 0 \<Longrightarrow> print_stdout_OChar_color fg bg attr (ucast a # msg) =
    (U_stdout, color_sequence fg bg attr @ [a]) # reset" for a :: byte
  by (simp add: print_stdout_OChar_color_def ochar_of_byte)

end
