(* ===== verification/Oly_Yaml.thy ===== *)
theory Oly_Yaml
  imports Config Console
begin

text \<open>
  The YAML data source, from \<^verbatim>\<open>src/data_source/oly_yaml.c\<close> and \<^verbatim>\<open>oly_yaml.h\<close>: printing the events and
  the tokens of a file, and the preflight that counts the nodes and characters of every level.
  A parser is the list of its answers, \<open>None\<close> for an error. Behind the end of its list it goes on
  to answer with no token and no event, as libyaml does behind the end of a stream, so a loop that
  reads on never returns: the result \<open>None\<close>.
\<close>

section \<open>Printing the events of a file\<close>

definition put_line :: "string \<Rightarrow> console" where
  \<comment> \<open>\<^verbatim>\<open>puts\<close>\<close>
  "put_line s = [(Stdout, text_bytes s @ [10])]"

fun print_event :: "yaml_event \<Rightarrow> console" where
  "print_event YAML_NO_EVENT = put_line ''No event!''"
| "print_event YAML_STREAM_START_EVENT = put_line ''<p>STREAM START''"
| "print_event YAML_STREAM_END_EVENT = put_line ''STREAM END</p>''"
| "print_event YAML_DOCUMENT_START_EVENT = put_line ''<b>Start Document</b></br>''"
| "print_event YAML_DOCUMENT_END_EVENT = put_line ''<b>End Document</b></br>''"
| "print_event YAML_SEQUENCE_START_EVENT = put_line ''<b>Start Sequence</b></br>''"
| "print_event YAML_SEQUENCE_END_EVENT = put_line ''<b>End Sequence</b></br>''"
| "print_event YAML_MAPPING_START_EVENT = put_line ''<b>Start Mapping</b></br>''"
| "print_event YAML_MAPPING_END_EVENT = put_line ''<b>End Mapping</b></br>''"
| "print_event (YAML_ALIAS_EVENT anchor) =
     [(Stdout, text_bytes ''Got alias (anchor '' @ anchor @ text_bytes '')</br>'')]"
| "print_event (YAML_SCALAR_EVENT s) =
     [(Stdout, text_bytes ''Got scalar (value '' @ s @ text_bytes '')</br>'')]"

fun print_events :: "yaml_event option list \<Rightarrow> console \<Rightarrow> console outcome option" where
  "print_events [] out = None"
| "print_events (None # es) out = Some Halt"
| "print_events (Some event # es) out =
     (if event = YAML_STREAM_END_EVENT then Some (Ret (out @ print_event event))
      else print_events es (out @ print_event event))"

text \<open>
  The parser is attached to a file that may be null: then the assertion of \<open>yaml_input_ofile\<close>
  fails. \<open>opened\<close> is whether the file of the data source was opened, \<open>initialized\<close> whether
  libyaml set up a parser.
\<close>

definition yaml_input_ofile :: "bool \<Rightarrow> 'a outcome option \<Rightarrow> 'a outcome option" where
  "yaml_input_ofile file k = (if file then k else Some Halt)"

definition load_yaml ::
  "bool \<Rightarrow> bool \<Rightarrow> yaml_event option list \<Rightarrow> OlyStatus \<Rightarrow> (OlyStatus \<times> console) outcome option" where
  "load_yaml opened initialized events status =
     (if status \<noteq> OLY_OKAY then Some (Ret (status, []))
      else
        let status = (if \<not> opened then OLY_ERR_FILE_NOT_FOUND else status)
        in if \<not> initialized then Some (Ret (OLY_ERR_LIBYAML_INIT, []))
           else yaml_input_ofile opened (rbind (print_events events []) (\<lambda>out. Some (Ret (status, out)))))"

text \<open>
  What libyaml calls for more input. \<open>u_file_read\<close> takes a count as a signed 32-bit number and gives
  the characters it has read; the answer 1 says that all went well.
\<close>

definition ofile_read_handler ::
  "(int \<Rightarrow> ochar16 list) option \<Rightarrow> nat \<Rightarrow> (int \<times> nat \<times> byte list) outcome" where
  "ofile_read_handler file sz =
     (case file of
        None \<Rightarrow> Crash
      | Some u_file_read \<Rightarrow>
          (let got = u_file_read (sint (of_nat (size_diff (sz div 2) 1) :: 32 word))
           in Ret (1, size_mul (length got) 2, ochar_bytes got)))"

section \<open>Tokens and marks\<close>

datatype yaml_token =
    YAML_NO_TOKEN
  | YAML_STREAM_START_TOKEN | YAML_STREAM_END_TOKEN
  | YAML_VERSION_DIRECTIVE_TOKEN | YAML_TAG_DIRECTIVE_TOKEN
  | YAML_DOCUMENT_START_TOKEN | YAML_DOCUMENT_END_TOKEN
  | YAML_BLOCK_SEQUENCE_START_TOKEN | YAML_BLOCK_MAPPING_START_TOKEN | YAML_BLOCK_END_TOKEN
  | YAML_FLOW_SEQUENCE_START_TOKEN | YAML_FLOW_SEQUENCE_END_TOKEN
  | YAML_FLOW_MAPPING_START_TOKEN | YAML_FLOW_MAPPING_END_TOKEN
  | YAML_BLOCK_ENTRY_TOKEN | YAML_FLOW_ENTRY_TOKEN | YAML_KEY_TOKEN | YAML_VALUE_TOKEN
  | YAML_ALIAS_TOKEN "byte list" | YAML_ANCHOR_TOKEN "byte list"
  | YAML_TAG_TOKEN "byte list" "byte list" | YAML_SCALAR_TOKEN "byte list"

record token_flags =
  is_stream_start :: bool
  is_stream_end :: bool
  is_version_directive :: bool
  is_tag_directive :: bool
  is_document_start :: bool
  is_document_end :: bool
  is_block_sequence_start :: bool
  is_block_mapping_start :: bool
  is_block_end :: bool
  is_flow_sequence_start :: bool
  is_flow_sequence_end :: bool
  is_flow_mapping_start :: bool
  is_flow_mapping_end :: bool
  is_block_entry_start :: bool
  is_flow_entry_start :: bool
  is_key_token :: bool
  is_value_token :: bool
  is_alias_token :: bool
  is_anchor_token :: bool
  is_tag_token :: bool
  is_scalar_token :: bool

datatype YAMLTokenMark =
  YAMLTokenMark (count_ochars: int) (count_nodes: int) (subnode: "YAMLTokenMark option")
    (token_flags: token_flags)

definition zero_flags :: token_flags where
  "zero_flags = token_flags.make False False False False False False False False False False False
     False False False False False False False False False False"

definition zero_token_mark :: "YAMLTokenMark \<Rightarrow> YAMLTokenMark" where
  "zero_token_mark m = YAMLTokenMark (count_ochars m) (count_nodes m) (subnode m) zero_flags"

definition new_token_mark :: YAMLTokenMark where
  "new_token_mark = zero_token_mark (YAMLTokenMark 0 0 None zero_flags)"

definition set_subnode :: "YAMLTokenMark \<Rightarrow> YAMLTokenMark \<Rightarrow> YAMLTokenMark" where
  "set_subnode m sub = YAMLTokenMark (count_ochars m) (count_nodes m) (Some sub) (token_flags m)"

text \<open>The next answer of the parser, and the ones behind it.\<close>

definition yaml_parser_scan :: "yaml_token option list \<Rightarrow> yaml_token option \<times> yaml_token option list" where
  "yaml_parser_scan toks = (case toks of [] \<Rightarrow> (Some YAML_NO_TOKEN, []) | t # ts \<Rightarrow> (t, ts))"

section \<open>The preflight\<close>

definition opens_level :: "yaml_token \<Rightarrow> bool" where
  "opens_level t \<longleftrightarrow> t = YAML_FLOW_MAPPING_START_TOKEN \<or> t = YAML_BLOCK_MAPPING_START_TOKEN
     \<or> t = YAML_BLOCK_ENTRY_TOKEN \<or> t = YAML_FLOW_ENTRY_TOKEN"

definition closes_level :: "yaml_token \<Rightarrow> bool" where
  "closes_level t \<longleftrightarrow> t = YAML_FLOW_SEQUENCE_END_TOKEN \<or> t = YAML_FLOW_MAPPING_END_TOKEN
     \<or> t = YAML_BLOCK_END_TOKEN \<or> t = YAML_STREAM_END_TOKEN"

text \<open>
  A length is a \<^verbatim>\<open>size_t\<close>, so the sum of characters is cut to 32 bits; counting the node behind
  the greatest \<^verbatim>\<open>int\<close> is undefined.
\<close>

fun count_token :: "yaml_token \<Rightarrow> YAMLTokenMark \<Rightarrow> YAMLTokenMark outcome" where
  "count_token YAML_KEY_TOKEN m =
     (if count_nodes m = 2 ^ 31 - 1 then Crash
      else Ret (YAMLTokenMark (count_ochars m) (count_nodes m + 1) (subnode m)
             ((token_flags m)\<lparr>is_key_token := True\<rparr>)))"
| "count_token YAML_VALUE_TOKEN m =
     Ret (YAMLTokenMark (count_ochars m) (count_nodes m) (subnode m)
       ((token_flags m)\<lparr>is_value_token := True\<rparr>))"
| "count_token (YAML_SCALAR_TOKEN s) m =
     Ret (zero_token_mark (YAMLTokenMark
       (sint (word_of_int (count_ochars m + int (length (takeWhile (\<lambda>b. b \<noteq> 0) s)) + 1) :: 32 word))
       (count_nodes m) (subnode m) (token_flags m)))"
| "count_token _ m = Ret m"

text \<open>
  The result is the status, the mark, the last token, which the levels share, and what the parser
  has left. The status of an inner level is ignored.
\<close>

partial_function (option) count_this_level ::
  "YAMLTokenMark \<Rightarrow> yaml_token option list \<Rightarrow>
   (OlyStatus \<times> YAMLTokenMark \<times> yaml_token \<times> yaml_token option list) outcome option" where
  "count_this_level token_mark config_parser =
     (case yaml_parser_scan config_parser of
        (None, _) \<Rightarrow> Some Halt
      | (Some token, config_parser) \<Rightarrow>
          if opens_level token \<and> is_value_token (token_flags token_mark) then
            rbind (count_this_level new_token_mark config_parser) (\<lambda>(_, sub, token, config_parser).
            if token \<noteq> YAML_STREAM_END_TOKEN
            then count_this_level (set_subnode token_mark sub) config_parser
            else Some (Ret (OLY_OKAY, set_subnode token_mark sub, token, config_parser)))
          else if closes_level token
          then Some (Ret (OLY_OKAY, zero_token_mark token_mark, token, config_parser))
          else rbind (Some (count_token token token_mark)) (\<lambda>token_mark.
               count_this_level token_mark config_parser))"

definition preflight_yaml ::
  "bool \<Rightarrow> bool \<Rightarrow> yaml_token option list \<Rightarrow> OlyStatus \<Rightarrow>
   (OlyStatus \<times> YAMLTokenMark option) outcome option" where
  "preflight_yaml opened initialized tokens status =
     (if status \<noteq> OLY_OKAY then Some (Ret (status, None))
      else
        let status = (if \<not> opened then OLY_ERR_FILE_NOT_FOUND else status)
        in if \<not> initialized then Some (Ret (OLY_ERR_LIBYAML_INIT, None))
           else yaml_input_ofile opened
             (rbind (count_this_level new_token_mark tokens) (\<lambda>(counted, mark, _, _).
              Some (Ret (if counted \<noteq> OLY_OKAY then OLY_ERR_YAML_PARSE else status, Some mark)))))"

fun print_preflight_count :: "YAMLTokenMark \<Rightarrow> nat \<Rightarrow> console" where
  "print_preflight_count (YAMLTokenMark chars nds sub flags) level =
     replicate level (Stdout, text_bytes ''  '')
     @ [(Stdout, text_bytes ''Node count/OChar count: '' @ decimal_int nds @ text_bytes ''/''
          @ decimal_int chars @ [10])]
     @ (case sub of None \<Rightarrow> [] | Some sub \<Rightarrow> print_preflight_count sub (level + 1))"

section \<open>Printing the tokens of a file\<close>

text \<open>
  Names and tags are formatted into an array of \<open>BUFSIZ\<close> bytes, with a null at the end, before they
  are printed.
\<close>

definition ultrabuffer :: "byte list \<Rightarrow> byte list outcome" where
  "ultrabuffer msg = (if length msg + 1 \<le> BUFSIZ then Ret msg else Crash)"

definition print_color :: "BashColors \<Rightarrow> BashColors \<Rightarrow> BashAttr \<Rightarrow> string \<Rightarrow> console outcome" where
  "print_color fg bg attr msg = Ret (print_stdout_char_color fg bg attr (text_bytes msg))"

definition nl :: string where
  "nl = [CHR 10]"

text \<open>What a token prints; the flags are those of the mark.\<close>

fun print_token :: "token_flags \<Rightarrow> yaml_token \<Rightarrow> console outcome" where
  "print_token fl YAML_STREAM_START_TOKEN = print_color BLACK WHITE DIM (''[STREAM START]'' @ nl)"
| "print_token fl YAML_STREAM_END_TOKEN = print_color BLACK WHITE DIM (''[STREAM END]'' @ nl)"
| "print_token fl YAML_VERSION_DIRECTIVE_TOKEN = print_color WHITE MAGENTA DIM (''[VERSION DIRECTIVE]'' @ nl)"
| "print_token fl YAML_TAG_DIRECTIVE_TOKEN = print_color WHITE CYAN DIM (''[TAG DIRECTIVE]'' @ nl)"
| "print_token fl YAML_DOCUMENT_START_TOKEN = print_color MAGENTA BLACK DIM (''[Document Start]'' @ nl)"
| "print_token fl YAML_DOCUMENT_END_TOKEN = print_color MAGENTA BLACK DIM (''[Document End]'' @ nl)"
| "print_token fl YAML_BLOCK_SEQUENCE_START_TOKEN = print_color YELLOW BLUE DIM (''[Block Sequence Start]'' @ nl)"
| "print_token fl YAML_BLOCK_MAPPING_START_TOKEN =
     (if is_value_token fl then print_color BLUE BLACK BRIGHT (nl @ ''[Block Mapping START]'' @ nl)
      else print_color BLUE BLACK BRIGHT (''[Block Mapping START]'' @ nl))"
| "print_token fl YAML_BLOCK_END_TOKEN = print_color RED BLACK BRIGHT (''[Block End]'' @ nl)"
| "print_token fl YAML_FLOW_SEQUENCE_START_TOKEN = print_color YELLOW BLUE DIM (''[Flow Sequence Start]'' @ nl)"
| "print_token fl YAML_FLOW_SEQUENCE_END_TOKEN = print_color YELLOW BLUE DIM (''[Flow Sequence End]'' @ nl)"
| "print_token fl YAML_FLOW_MAPPING_START_TOKEN = print_color BLUE RED BRIGHT (''[Flow Mapping Start]'' @ nl)"
| "print_token fl YAML_FLOW_MAPPING_END_TOKEN = print_color BLUE RED BRIGHT (''[Flow Mapping End]'' @ nl)"
| "print_token fl YAML_BLOCK_ENTRY_TOKEN = print_color BLUE BLACK BRIGHT (nl @ ''[Block Entry]'')"
| "print_token fl YAML_FLOW_ENTRY_TOKEN = print_color YELLOW BLACK BRIGHT (nl @ ''[Flow Entry]'')"
| "print_token fl (YAML_ALIAS_TOKEN v) =
     obind (ultrabuffer (v @ text_bytes nl)) (\<lambda>msg.
     Ret (print_stdout_char_color YELLOW BLACK BRIGHT msg))"
| "print_token fl (YAML_ANCHOR_TOKEN v) =
     obind (ultrabuffer (text_bytes (nl @ ''[Anchor Token] '') @ v @ text_bytes nl)) (\<lambda>msg.
     Ret (print_stdout_char_color GREEN BLACK BRIGHT msg))"
| "print_token fl (YAML_TAG_TOKEN handle suffix) =
     obind (ultrabuffer (text_bytes (nl @ ''[Tag Token] handle: '') @ handle @ text_bytes '', suffix: ''
       @ suffix @ text_bytes nl)) (\<lambda>msg.
     Ret (print_stdout_char_color CYAN BLACK BRIGHT msg))"
| "print_token fl (YAML_SCALAR_TOKEN s) =
     Ret [(U_stdout, s @ text_bytes (if is_key_token fl then '' : '' else nl))]"
| "print_token fl _ = Ret []"

fun mark_token :: "yaml_token \<Rightarrow> token_flags \<Rightarrow> token_flags" where
  "mark_token YAML_KEY_TOKEN fl = fl\<lparr>is_key_token := True\<rparr>"
| "mark_token YAML_VALUE_TOKEN fl = fl\<lparr>is_value_token := True\<rparr>"
| "mark_token (YAML_SCALAR_TOKEN s) fl = zero_flags"
| "mark_token _ fl = fl"

fun print_tokens :: "token_flags \<Rightarrow> yaml_token option list \<Rightarrow> console \<Rightarrow> console outcome option" where
  "print_tokens fl [] out = None"
| "print_tokens fl (None # ts) out = Some Halt"
| "print_tokens fl (Some t # ts) out =
     rbind (Some (print_token fl t)) (\<lambda>printed.
     if t = YAML_STREAM_END_TOKEN then Some (Ret (out @ printed))
     else print_tokens (mark_token t fl) ts (out @ printed))"

definition print_yaml ::
  "bool \<Rightarrow> bool \<Rightarrow> yaml_token option list \<Rightarrow> OlyStatus \<Rightarrow> (OlyStatus \<times> console) outcome option" where
  "print_yaml opened initialized tokens status =
     (if status \<noteq> OLY_OKAY then Some (Ret (status, []))
      else
        let status = (if \<not> opened then OLY_ERR_FILE_NOT_FOUND else status)
        in if \<not> initialized then Some (Ret (OLY_ERR_LIBYAML_INIT, []))
           else yaml_input_ofile opened
             (rbind (print_tokens zero_flags tokens []) (\<lambda>out. Some (Ret (status, out)))))"


section \<open>The preflight comes to an end\<close>

definition stream_ends :: "yaml_token option list \<Rightarrow> bool" where
  "stream_ends toks \<longleftrightarrow> None \<in> set toks \<or> Some YAML_STREAM_END_TOKEN \<in> set toks"

text \<open>
  What counting a level, marked \<open>m\<close>, may come to: the process ends at an error of the parser, or the level is
  closed by a token \<open>t\<close>, all before it has been read without an error, and no more nodes have been counted
  than there are keys.
\<close>

definition level_result ::
  "YAMLTokenMark \<Rightarrow> yaml_token option list \<Rightarrow>
   (OlyStatus \<times> YAMLTokenMark \<times> yaml_token \<times> yaml_token option list) outcome \<Rightarrow> bool"
where
  "level_result m toks r \<longleftrightarrow>
     r = Halt \<and> None \<in> set toks
     \<or> (\<exists>mark t pre rest. r = Ret (OLY_OKAY, mark, t, rest) \<and> toks = pre @ Some t # rest \<and> None \<notin> set pre
          \<and> closes_level t \<and> (t = YAML_STREAM_END_TOKEN \<or> stream_ends rest) \<and> count_nodes m \<le> count_nodes mark
          \<and> count_nodes mark \<le> count_nodes m + int (count_list pre (Some YAML_KEY_TOKEN)))"

text \<open>Tokens read before the rest of a level, which has been counted from the mark \<open>m'\<close> on.\<close>

lemma level_resultE:
  assumes "level_result m toks r"
  obtains (halted) "r = Halt" "None \<in> set toks"
  | (counted) mark t pre rest where "r = Ret (OLY_OKAY, mark, t, rest)" "toks = pre @ Some t # rest"
      "None \<notin> set pre" "closes_level t" "t = YAML_STREAM_END_TOKEN \<or> stream_ends rest"
      "count_nodes m \<le> count_nodes mark"
      "count_nodes mark \<le> count_nodes m + int (count_list pre (Some YAML_KEY_TOKEN))"
  using assms unfolding level_result_def by metis

lemma level_resultI:
  assumes "toks = pre @ Some t # rest" and "None \<notin> set pre" and "closes_level t"
    and "t = YAML_STREAM_END_TOKEN \<or> stream_ends rest" and "count_nodes m \<le> count_nodes mark"
    and "count_nodes mark \<le> count_nodes m + int (count_list pre (Some YAML_KEY_TOKEN))"
  shows "level_result m toks (Ret (OLY_OKAY, mark, t, rest))"
  using assms unfolding level_result_def by blast

lemma level_result_behind:
  assumes "level_result m' ts r" and "None \<notin> set us" and "count_nodes m \<le> count_nodes m'"
    and "count_nodes m' \<le> count_nodes m + int (count_list us (Some YAML_KEY_TOKEN))"
  shows "level_result m (us @ ts) r"
  using assms(1)
proof (cases rule: level_resultE)
  case halted
  then show ?thesis by (simp add: level_result_def)
next
  case (counted mark t pre rest)
  then show ?thesis
    unfolding counted(1) by (intro level_resultI [of _ "us @ pre"]) (use assms(2-4) in simp_all)
qed

lemma count_this_level_Cons:
  "count_this_level m (None # ts) = Some Halt"
  "count_this_level m (Some t # ts) =
     (if opens_level t \<and> is_value_token (token_flags m) then
        rbind (count_this_level new_token_mark ts) (\<lambda>(_, sub, t, ts).
        if t \<noteq> YAML_STREAM_END_TOKEN then count_this_level (set_subnode m sub) ts
        else Some (Ret (OLY_OKAY, set_subnode m sub, t, ts)))
      else if closes_level t then Some (Ret (OLY_OKAY, zero_token_mark m, t, ts))
      else rbind (Some (count_token t m)) (\<lambda>m. count_this_level m ts))"
  by (subst count_this_level.simps; simp add: yaml_parser_scan_def)+

lemma stream_ends_Cons:
  "stream_ends (Some t # ts) \<Longrightarrow> t \<noteq> YAML_STREAM_END_TOKEN \<Longrightarrow> stream_ends ts"
  by (auto simp: stream_ends_def)

text \<open>A token counts one node if it is a key, and else none.\<close>

lemma count_token_nodes:
  assumes "count_nodes m < 2 ^ 31 - 1"
  obtains m' where "count_token t m = Ret m'"
    and "count_nodes m' = count_nodes m + (if t = YAML_KEY_TOKEN then 1 else 0)"
  using assms by (cases t) (auto simp: zero_token_mark_def)

lemma count_this_level_result:
  assumes "stream_ends toks" and "0 \<le> count_nodes m" and "count_nodes m + int (length toks) < 2 ^ 31"
  shows "\<exists>r. count_this_level m toks = Some r \<and> level_result m toks r"
  using assms
proof (induction "length toks" arbitrary: m toks rule: less_induct)
  case less
  then obtain a ts where toks: "toks = a # ts" by (cases toks) (auto simp: stream_ends_def)
  show ?case
  proof (cases a)
    case None
    then show ?thesis by (simp add: toks count_this_level_Cons level_result_def)
  next
    case (Some t)
    show ?thesis
    proof (cases "closes_level t")
      case True
      moreover from this have "\<not> opens_level t" by (auto simp: opens_level_def closes_level_def)
      moreover have "t = YAML_STREAM_END_TOKEN \<or> stream_ends ts"
        using less.prems(1) stream_ends_Cons by (auto simp: toks Some)
      ultimately show ?thesis
        unfolding toks Some count_this_level_Cons level_result_def
        by (auto intro!: exI [of _ "[]"] simp: zero_token_mark_def)
    next
      case False
      then have ends: "stream_ends ts"
        using less.prems(1) stream_ends_Cons by (auto simp: toks Some closes_level_def)
      show ?thesis
      proof (cases "opens_level t \<and> is_value_token (token_flags m)")
        case True
        have fresh: "0 \<le> count_nodes new_token_mark" "count_nodes new_token_mark + int (length ts) < 2 ^ 31"
          using less.prems(2,3) by (simp_all add: new_token_mark_def zero_token_mark_def toks)
        obtain r where r: "count_this_level new_token_mark ts = Some r" "level_result new_token_mark ts r"
          using less.hyps [OF _ ends fresh] by (auto simp: toks)
        from r(2) show ?thesis
        proof (cases rule: level_resultE)
          case x: (counted sub t' pre rest)
          show ?thesis
          proof (cases "t' = YAML_STREAM_END_TOKEN")
            case ended: True
            then have "count_this_level m toks = Some (Ret (OLY_OKAY, set_subnode m sub, t', rest))"
              using True r(1) x(1) by (simp add: toks Some count_this_level_Cons)
            moreover have "level_result m toks (Ret (OLY_OKAY, set_subnode m sub, t', rest))"
              by (rule level_resultI [of _ "Some t # pre"])
                (use x ended in \<open>simp_all add: toks Some set_subnode_def\<close>)
            ultimately show ?thesis by blast
          next
            case go: False
            let ?m = "set_subnode m sub"
            have "stream_ends rest" "length rest < length toks" using x go by (simp_all add: toks)
            moreover have "0 \<le> count_nodes ?m" "count_nodes ?m + int (length rest) < 2 ^ 31"
              using less.prems(2,3) x(2) by (simp_all add: set_subnode_def toks)
            ultimately obtain r' where r': "count_this_level ?m rest = Some r'" "level_result ?m rest r'"
              using less.hyps by blast
            have "level_result m ((Some t # pre @ [Some t']) @ rest) r'"
              by (rule level_result_behind [OF r'(2)]) (use x in \<open>simp_all add: set_subnode_def\<close>)
            moreover have "count_this_level m toks = Some r'"
              using True r(1) x(1) r'(1) go by (simp add: toks Some count_this_level_Cons)
            ultimately show ?thesis by (simp add: toks Some x(2))
          qed
        next
          case halted
          then show ?thesis using True r(1) by (auto simp: toks Some count_this_level_Cons level_result_def)
        qed
      next
        case no: False
        have "count_nodes m < 2 ^ 31 - 1" using less.prems(3) by (simp add: toks)
        then obtain m' where m': "count_token t m = Ret m'"
          "count_nodes m' = count_nodes m + (if t = YAML_KEY_TOKEN then 1 else 0)" by (rule count_token_nodes)
        then have c: "count_this_level m toks = count_this_level m' ts"
          using False no by (auto simp: toks Some count_this_level_Cons)
        have "0 \<le> count_nodes m'" "count_nodes m' + int (length ts) < 2 ^ 31"
          using less.prems(2,3) m'(2) by (simp_all add: toks)
        then obtain r where r: "count_this_level m' ts = Some r" "level_result m' ts r"
          using less.hyps [OF _ ends] by (auto simp: toks)
        have "level_result m ([Some t] @ ts) r"
          by (rule level_result_behind [OF r(2)]) (simp_all add: m'(2))
        then show ?thesis using c r(1) by (simp add: toks Some)
      qed
    qed
  qed
qed

text \<open>
  C4: If the answers of the parser contain an error or the end of the stream, and the nodes counted so far and
  the answers do not exceed the range of an \<^verbatim>\<open>int\<close>, counting a level comes to an end and never faults. The
  process is ended only if there is an error among the answers; otherwise the status is \<open>OLY_OKAY\<close>, the answers
  have been read without an error up to a token that closes a level, which is the last token handed
  back, what is left of them is handed back, and the node count has grown by no more than the keys that were read.
\<close>

theorem count_this_level_returns:
  assumes "None \<in> set toks \<or> Some YAML_STREAM_END_TOKEN \<in> set toks"
    and "0 \<le> count_nodes m" and "count_nodes m + int (length toks) < 2 ^ 31"
  shows "count_this_level m toks = Some Halt \<and> None \<in> set toks
    \<or> (\<exists>mark t pre rest. count_this_level m toks = Some (Ret (OLY_OKAY, mark, t, rest))
        \<and> toks = pre @ Some t # rest \<and> None \<notin> set pre \<and> closes_level t
        \<and> count_nodes m \<le> count_nodes mark
        \<and> count_nodes mark \<le> count_nodes m + int (count_list pre (Some YAML_KEY_TOKEN)))"
proof -
  from assms(1) have "stream_ends toks" by (simp add: stream_ends_def)
  from count_this_level_result [OF this assms(2,3)] show ?thesis unfolding level_result_def by blast
qed

section \<open>What the preflight counts\<close>

text \<open>Documents of nested block mappings, and their tokens.\<close>

datatype yaml_value = Empty_value | Scalar_value "byte list" | Mapping_value yaml_pairs
and yaml_pairs = No_pairs | Pair "byte list" yaml_value yaml_pairs

primrec value_tokens :: "yaml_value \<Rightarrow> yaml_token list" and pair_tokens :: "yaml_pairs \<Rightarrow> yaml_token list"
where
  "value_tokens Empty_value = []"
| "value_tokens (Scalar_value s) = [YAML_SCALAR_TOKEN s]"
| "value_tokens (Mapping_value ps) = YAML_BLOCK_MAPPING_START_TOKEN # pair_tokens ps @ [YAML_BLOCK_END_TOKEN]"
| "pair_tokens No_pairs = []"
| "pair_tokens (Pair name v ps) =
     YAML_KEY_TOKEN # YAML_SCALAR_TOKEN name # YAML_VALUE_TOKEN # value_tokens v @ pair_tokens ps"

text \<open>
  What is to be counted on one level: the pairs, and the characters of the names and of the plain
  values, each with a null. The mark keeps the last inner level only.
\<close>

definition c_chars :: "byte list \<Rightarrow> nat" where
  "c_chars s = length (takeWhile (\<lambda>b. b \<noteq> 0) s) + 1"

primrec level_nodes :: "yaml_pairs \<Rightarrow> nat" where
  "level_nodes No_pairs = 0"
| "level_nodes (Pair name v ps) = Suc (level_nodes ps)"

primrec level_chars :: "yaml_pairs \<Rightarrow> nat" where
  "level_chars No_pairs = 0"
| "level_chars (Pair name v ps) =
     c_chars name + (case v of Scalar_value s \<Rightarrow> c_chars s | _ \<Rightarrow> 0) + level_chars ps"

primrec value_level :: "yaml_value \<Rightarrow> YAMLTokenMark option \<Rightarrow> YAMLTokenMark option"
and last_level :: "yaml_pairs \<Rightarrow> YAMLTokenMark option \<Rightarrow> YAMLTokenMark option" where
  "value_level Empty_value sub = sub"
| "value_level (Scalar_value s) sub = sub"
| "value_level (Mapping_value ps) sub =
     Some (YAMLTokenMark (int (level_chars ps)) (int (level_nodes ps)) (last_level ps None) zero_flags)"
| "last_level No_pairs sub = sub"
| "last_level (Pair name v ps) sub = last_level ps (value_level v sub)"

text \<open>The counts of every level fit an \<^verbatim>\<open>int\<close>.\<close>

primrec small_value :: "yaml_value \<Rightarrow> bool" and small_pairs :: "yaml_pairs \<Rightarrow> bool" where
  "small_value Empty_value \<longleftrightarrow> True"
| "small_value (Scalar_value s) \<longleftrightarrow> True"
| "small_value (Mapping_value ps) \<longleftrightarrow>
     level_chars ps < 2 ^ 31 \<and> level_nodes ps < 2 ^ 31 \<and> small_pairs ps"
| "small_pairs No_pairs \<longleftrightarrow> True"
| "small_pairs (Pair name v ps) \<longleftrightarrow> small_value v \<and> small_pairs ps"

lemma int_of_small: "sint (word_of_int i :: 32 word) = i" if "- (2 ^ 31) \<le> i" "i < 2 ^ 31"
  using that by (simp add: sint_sbintrunc' signed_take_bit_int_eq_self)

lemma count_scalar:
  assumes "n + int (c_chars s) < 2 ^ 31" and "0 \<le> n"
  shows "count_this_level (YAMLTokenMark n k sub fl) (Some (YAML_SCALAR_TOKEN s) # ts) =
    count_this_level (YAMLTokenMark (n + int (c_chars s)) k sub zero_flags) ts"
proof -
  have "sint (word_of_int (n + int (length (takeWhile (\<lambda>b. b \<noteq> 0) s)) + 1) :: 32 word) = n + int (c_chars s)"
    using assms by (subst int_of_small) (auto simp: c_chars_def)
  then show ?thesis
    by (simp add: count_this_level_Cons opens_level_def closes_level_def zero_token_mark_def add.assoc)
qed

lemma count_key:
  assumes "0 \<le> n" and "k < 2 ^ 31 - 1" and "n + int (c_chars name) < 2 ^ 31"
  shows "count_this_level (YAMLTokenMark n k sub fl)
      (Some YAML_KEY_TOKEN # Some (YAML_SCALAR_TOKEN name) # Some YAML_VALUE_TOKEN # ts) =
    count_this_level (YAMLTokenMark (n + int (c_chars name)) (k + 1) sub (zero_flags\<lparr>is_value_token := True\<rparr>)) ts"
proof -
  have key: "count_this_level (YAMLTokenMark n k sub fl) (Some YAML_KEY_TOKEN # u) =
      count_this_level (YAMLTokenMark n (k + 1) sub (fl\<lparr>is_key_token := True\<rparr>)) u" for u
    using assms by (simp add: count_this_level_Cons opens_level_def closes_level_def)
  have val: "count_this_level (YAMLTokenMark n' k' sub fl') (Some YAML_VALUE_TOKEN # u) =
      count_this_level (YAMLTokenMark n' k' sub (fl'\<lparr>is_value_token := True\<rparr>)) u" for n' k' fl' u
    by (simp add: count_this_level_Cons opens_level_def closes_level_def)
  show ?thesis using assms by (simp add: key count_scalar val)
qed

lemma count_block_end:
  "count_this_level m (Some YAML_BLOCK_END_TOKEN # ts) =
    Some (Ret (OLY_OKAY, zero_token_mark m, YAML_BLOCK_END_TOKEN, ts))"
  by (simp add: count_this_level_Cons opens_level_def closes_level_def)

lemma count_pairs:
  "small_value v \<Longrightarrow> 0 \<le> n \<Longrightarrow>
     n + int (case v of Scalar_value s \<Rightarrow> c_chars s | _ \<Rightarrow> 0) < 2 ^ 31 \<Longrightarrow> is_value_token fl \<Longrightarrow>
   \<exists>fl'. \<forall>ts. count_this_level (YAMLTokenMark n k sub fl) (map Some (value_tokens v) @ ts) =
     count_this_level (YAMLTokenMark (n + int (case v of Scalar_value s \<Rightarrow> c_chars s | _ \<Rightarrow> 0)) k
       (value_level v sub) fl') ts"
  "small_pairs ps \<Longrightarrow> 0 \<le> n \<Longrightarrow> n + int (level_chars ps) < 2 ^ 31 \<Longrightarrow> 0 \<le> k \<Longrightarrow>
     k + int (level_nodes ps) < 2 ^ 31 \<Longrightarrow>
   \<exists>fl'. \<forall>ts. count_this_level (YAMLTokenMark n k sub fl) (map Some (pair_tokens ps) @ ts) =
     count_this_level (YAMLTokenMark (n + int (level_chars ps)) (k + int (level_nodes ps)) (last_level ps sub) fl') ts"
proof (induction v and ps arbitrary: n k sub fl and n k sub fl)
  case (Scalar_value s)
  then show ?case by (auto simp: count_scalar)
next
  case (Mapping_value ps)
  obtain fl1 where IH: "\<forall>ts. count_this_level new_token_mark (map Some (pair_tokens ps) @ ts) =
      count_this_level (YAMLTokenMark (int (level_chars ps)) (int (level_nodes ps)) (last_level ps None) fl1) ts"
    using Mapping_value.IH [of 0 0 None zero_flags] Mapping_value.prems
    by (auto simp: new_token_mark_def zero_token_mark_def)
  show ?case
    using Mapping_value.prems
    by (intro exI [of _ fl])
      (simp add: count_this_level_Cons(2) [of _ YAML_BLOCK_MAPPING_START_TOKEN] opens_level_def IH count_block_end
        set_subnode_def zero_token_mark_def)
next
  case (Pair name v ps)
  let ?c = "case v of Scalar_value s \<Rightarrow> c_chars s | _ \<Rightarrow> 0" and ?fl = "zero_flags\<lparr>is_value_token := True\<rparr>"
  have nonneg: "0 \<le> int ?c" "0 \<le> int (level_chars ps)" "0 \<le> int (level_nodes ps)" by simp_all
  have key: "count_this_level (YAMLTokenMark n k sub fl) (Some YAML_KEY_TOKEN # Some (YAML_SCALAR_TOKEN name)
      # Some YAML_VALUE_TOKEN # u) = count_this_level (YAMLTokenMark (n + int (c_chars name)) (k + 1) sub ?fl) u" for u
    using Pair.prems by (intro count_key) auto
  obtain fl1 where v: "\<forall>u. count_this_level (YAMLTokenMark (n + int (c_chars name)) (k + 1) sub ?fl)
      (map Some (value_tokens v) @ u) =
    count_this_level (YAMLTokenMark (n + int (c_chars name) + int ?c) (k + 1) (value_level v sub) fl1) u"
    using Pair.IH(1) [of "n + int (c_chars name)" ?fl "k + 1" sub] Pair.prems by auto
  obtain fl2 where ps: "\<forall>u. count_this_level (YAMLTokenMark (n + int (c_chars name) + int ?c) (k + 1)
      (value_level v sub) fl1) (map Some (pair_tokens ps) @ u) =
    count_this_level (YAMLTokenMark (n + int (c_chars name) + int ?c + int (level_chars ps))
      (k + 1 + int (level_nodes ps)) (last_level ps (value_level v sub)) fl2) u"
    using Pair.IH(2) [of "n + int (c_chars name) + int ?c" "k + 1" "value_level v sub" fl1] Pair.prems by auto
  show ?case
    by (intro exI [of _ fl2]) (use ps in \<open>simp add: key v add.assoc\<close>)
qed auto

text \<open>
  C3: For a document of nested block mappings, whose counts fit an \<^verbatim>\<open>int\<close>, the preflight returns
  \<open>OLY_OKAY\<close> and a mark with the number of pairs of the top level, the bytes its names and plain
  values take with their nulls, and below it the mark of the last value that is a mapping.
\<close>
theorem preflight_counts_mappings:
  assumes "small_value (Mapping_value ps)"
  shows "preflight_yaml True True (map Some ([YAML_STREAM_START_TOKEN, YAML_DOCUMENT_START_TOKEN]
      @ value_tokens (Mapping_value ps) @ [YAML_DOCUMENT_END_TOKEN, YAML_STREAM_END_TOKEN])) OLY_OKAY =
    Some (Ret (OLY_OKAY,
      Some (YAMLTokenMark (int (level_chars ps)) (int (level_nodes ps)) (last_level ps None) zero_flags)))"
proof -
  have skip: "count_this_level new_token_mark (Some t # u) = count_this_level new_token_mark u"
    if "t = YAML_STREAM_START_TOKEN \<or> t = YAML_DOCUMENT_START_TOKEN \<or> t = YAML_BLOCK_MAPPING_START_TOKEN" for t u
    using that by (auto simp: count_this_level_Cons closes_level_def new_token_mark_def zero_token_mark_def
        zero_flags_def token_flags.defs)
  obtain fl where "\<forall>u. count_this_level new_token_mark (map Some (pair_tokens ps) @ u) =
      count_this_level (YAMLTokenMark (int (level_chars ps)) (int (level_nodes ps)) (last_level ps None) fl) u"
    using count_pairs(2) [of ps 0 0 None zero_flags] assms
    by (auto simp: new_token_mark_def zero_token_mark_def)
  then show ?thesis
    by (simp add: preflight_yaml_def yaml_input_ofile_def skip count_block_end zero_token_mark_def)
qed

text \<open>
  The end of a sequence ends the level it stands in: behind a value that is a sequence nothing is
  counted any more.
\<close>

lemma sequence_ends_level:
  assumes "0 \<le> n" and "n + int (c_chars name) < 2 ^ 31" and "k < 2 ^ 31 - 1"
  shows "count_this_level (YAMLTokenMark n k sub fl)
      (map Some [YAML_KEY_TOKEN, YAML_SCALAR_TOKEN name, YAML_VALUE_TOKEN, YAML_FLOW_SEQUENCE_START_TOKEN,
         YAML_FLOW_SEQUENCE_END_TOKEN] @ ts) =
    Some (Ret (OLY_OKAY, YAMLTokenMark (n + int (c_chars name)) (k + 1) sub zero_flags,
      YAML_FLOW_SEQUENCE_END_TOKEN, ts))"
  using assms
  by (simp add: count_key) (simp add: count_this_level_Cons opens_level_def closes_level_def zero_token_mark_def)

theorem count_this_level_returns_witness:
  "\<exists>mark t pre rest. count_this_level new_token_mark (map Some [YAML_KEY_TOKEN, YAML_SCALAR_TOKEN [97],
        YAML_VALUE_TOKEN, YAML_SCALAR_TOKEN [98], YAML_STREAM_END_TOKEN]) = Some (Ret (OLY_OKAY, mark, t, rest))
    \<and> map Some [YAML_KEY_TOKEN, YAML_SCALAR_TOKEN [97], YAML_VALUE_TOKEN, YAML_SCALAR_TOKEN [98], YAML_STREAM_END_TOKEN]
        = pre @ Some t # rest
    \<and> 0 \<le> count_nodes mark \<and> count_nodes mark \<le> int (count_list pre (Some YAML_KEY_TOKEN))"
proof -
  have zero: "count_nodes new_token_mark = 0" by (simp add: new_token_mark_def zero_token_mark_def)
  show ?thesis
    using count_this_level_returns [of "map Some [YAML_KEY_TOKEN, YAML_SCALAR_TOKEN [97], YAML_VALUE_TOKEN,
        YAML_SCALAR_TOKEN [98], YAML_STREAM_END_TOKEN]" new_token_mark]
    unfolding zero by simp blast
qed

theorem preflight_counts_mappings_witness:
  "preflight_yaml True True (map Some ([YAML_STREAM_START_TOKEN, YAML_DOCUMENT_START_TOKEN,
       YAML_BLOCK_MAPPING_START_TOKEN, YAML_KEY_TOKEN, YAML_SCALAR_TOKEN [97], YAML_VALUE_TOKEN,
       YAML_SCALAR_TOKEN [98, 99], YAML_KEY_TOKEN, YAML_SCALAR_TOKEN [100], YAML_VALUE_TOKEN,
       YAML_BLOCK_MAPPING_START_TOKEN, YAML_KEY_TOKEN, YAML_SCALAR_TOKEN [101], YAML_VALUE_TOKEN,
       YAML_BLOCK_END_TOKEN, YAML_BLOCK_END_TOKEN, YAML_DOCUMENT_END_TOKEN, YAML_STREAM_END_TOKEN])) OLY_OKAY =
    Some (Ret (OLY_OKAY, Some (YAMLTokenMark 7 2 (Some (YAMLTokenMark 2 1 None zero_flags)) zero_flags)))"
  using preflight_counts_mappings [of "Pair [97] (Scalar_value [98, 99])
      (Pair [100] (Mapping_value (Pair [101] Empty_value No_pairs)) No_pairs)"]
  by (simp add: c_chars_def)

text \<open>A missing file fails an assertion, and a long alias is written behind \<^verbatim>\<open>ultrabuffer\<close>.\<close>

lemma missing_yaml_file_aborts:
  "load_yaml False True events OLY_OKAY = Some Halt" "print_yaml False True tokens OLY_OKAY = Some Halt"
  "preflight_yaml False True tokens OLY_OKAY = Some Halt"
  by (simp_all add: load_yaml_def print_yaml_def preflight_yaml_def yaml_input_ofile_def)

lemma long_alias_overruns: "BUFSIZ \<le> length v + 1 \<Longrightarrow> print_token fl (YAML_ALIAS_TOKEN v) = Crash"
  by (simp add: ultrabuffer_def nl_def text_bytes_def)


end
