(* ===== verification/Keccak_F.thy ===== *)
theory Keccak_F
  imports Oly_Prelude
begin

text \<open>
  The permutation Keccak-f[1600], as \<^verbatim>\<open>lib/sha_three/Keccak-simple.c\<close> and
  \<^verbatim>\<open>lib/sha_three/Keccak-compact.c\<close> compute it: the first with local variables and two rounds in one
  pass, the second in place with tables. Both are proved equal to the five steps of the standard.
  A state is a list of 25 lanes of 64 bits, lane \<open>x + 5 * y\<close> for the coordinates \<open>x\<close> and \<open>y\<close>.
\<close>

unbundle bit_operations_syntax

type_synonym lane = "64 word"

section \<open>The standard\<close>

definition column :: "(nat \<Rightarrow> lane) \<Rightarrow> nat \<Rightarrow> lane" where
  "column a x = a x XOR a (x + 5) XOR a (x + 10) XOR a (x + 15) XOR a (x + 20)"

definition theta :: "(nat \<Rightarrow> lane) \<Rightarrow> nat \<Rightarrow> lane" where
  "theta a i = a i XOR (column a ((i mod 5 + 4) mod 5) XOR word_rotl 1 (column a ((i mod 5 + 1) mod 5)))"

text \<open>The coordinates after \<open>t\<close> steps of the walk that gives the rotations their numbers.\<close>

fun walk :: "nat \<Rightarrow> nat \<times> nat" where
  "walk 0 = (1, 0)"
| "walk (Suc t) = (case walk t of (x, y) \<Rightarrow> (y, (2 * x + 3 * y) mod 5))"

definition rotations :: "(nat \<times> nat) list" where
  "rotations = (0, 0) # map (\<lambda>t. (case walk t of (x, y) \<Rightarrow> x + 5 * y, (t + 1) * (t + 2) div 2 mod 64)) [0..<24]"

definition rho :: "(nat \<Rightarrow> lane) \<Rightarrow> nat \<Rightarrow> lane" where
  "rho a i = word_rotl (the (map_of rotations i)) (a i)"

definition lane_pi :: "(nat \<Rightarrow> lane) \<Rightarrow> nat \<Rightarrow> lane" where
  "lane_pi a i = (let x = i mod 5; y = i div 5 in a ((x + 3 * y) mod 5 + 5 * x))"

definition chi :: "(nat \<Rightarrow> lane) \<Rightarrow> nat \<Rightarrow> lane" where
  "chi a i =
     (let x = i mod 5; y = i div 5 in a i XOR (NOT (a ((x + 1) mod 5 + 5 * y)) AND a ((x + 2) mod 5 + 5 * y)))"

definition iota :: "lane \<Rightarrow> (nat \<Rightarrow> lane) \<Rightarrow> nat \<Rightarrow> lane" where
  "iota rc a i = (if i = 0 then a i XOR rc else a i)"

definition keccak_round :: "lane \<Rightarrow> lane list \<Rightarrow> lane list" where
  "keccak_round rc state = map (iota rc (chi (lane_pi (rho (theta (\<lambda>i. state ! i)))))) [0..<25]"

text \<open>The bits of the constants come out of a shift register of eight bits.\<close>

fun shift_register :: "nat \<Rightarrow> bool list" where
  "shift_register 0 = [True, False, False, False, False, False, False, False]"
| "shift_register (Suc t) =
     (case shift_register t of
        [r0, r1, r2, r3, r4, r5, r6, r7] \<Rightarrow> [r7, r0, r1, r2, r3 \<noteq> r7, r4 \<noteq> r7, r5 \<noteq> r7, r6]
      | _ \<Rightarrow> [])"

definition standard_constant :: "nat \<Rightarrow> lane" where
  "standard_constant r =
     foldl (\<lambda>w j. if hd (shift_register ((j + 7 * r) mod 255)) then set_bit (2 ^ j - 1) w else w) 0 [0..<7]"

definition keccak_f :: "lane list \<Rightarrow> lane list" where
  "keccak_f state = foldl (\<lambda>state r. keccak_round (standard_constant r) state) state [0..<24]"

section \<open>The tables of the programs\<close>

text \<open>The shift is undefined for an offset that is a multiple of 64; no caller uses one.\<close>

definition ROL :: "lane \<Rightarrow> nat \<Rightarrow> lane" where
  "ROL a offset = push_bit (offset mod 64) a XOR drop_bit (64 - offset mod 64) a"

definition KeccakF_RoundConstants :: "lane list" where
  "KeccakF_RoundConstants =
    [0x0000000000000001, 0x0000000000008082, 0x800000000000808a, 0x8000000080008000,
     0x000000000000808b, 0x0000000080000001, 0x8000000080008081, 0x8000000000008009,
     0x000000000000008a, 0x0000000000000088, 0x0000000080008009, 0x000000008000000a,
     0x000000008000808b, 0x800000000000008b, 0x8000000000008089, 0x8000000000008003,
     0x8000000000008002, 0x8000000000000080, 0x000000000000800a, 0x800000008000000a,
     0x8000000080008081, 0x8000000000008080, 0x0000000080000001, 0x8000000080008008]"

section \<open>Keccak-simple\<close>

text \<open>The two halves of the loop body: one round from the variables \<open>A\<close> to \<open>E\<close>, one back.\<close>

definition simple_round_AE :: "lane \<Rightarrow> lane list \<Rightarrow> lane list" where
  "simple_round_AE rc state =
     (let Aba = state ! 0; Abe = state ! 1; Abi = state ! 2; Abo = state ! 3; Abu = state ! 4;
          Aga = state ! 5; Age = state ! 6; Agi = state ! 7; Ago = state ! 8; Agu = state ! 9;
          Aka = state ! 10; Ake = state ! 11; Aki = state ! 12; Ako = state ! 13; Aku = state ! 14;
          Ama = state ! 15; Ame = state ! 16; Ami = state ! 17; Amo = state ! 18; Amu = state ! 19;
          Asa = state ! 20; Ase = state ! 21; Asi = state ! 22; Aso = state ! 23; Asu = state ! 24;
          BCa = Aba XOR Aga XOR Aka XOR Ama XOR Asa; BCe = Abe XOR Age XOR Ake XOR Ame XOR Ase;
          BCi = Abi XOR Agi XOR Aki XOR Ami XOR Asi; BCo = Abo XOR Ago XOR Ako XOR Amo XOR Aso;
          BCu = Abu XOR Agu XOR Aku XOR Amu XOR Asu; Da = BCu XOR ROL BCe 1; De = BCa XOR ROL BCi 1;
          Di = BCe XOR ROL BCo 1; Do = BCi XOR ROL BCu 1; Du = BCo XOR ROL BCa 1; Aba = Aba XOR Da;
          BCa = Aba; Age = Age XOR De; BCe = ROL Age 44; Aki = Aki XOR Di; BCi = ROL Aki 43;
          Amo = Amo XOR Do; BCo = ROL Amo 21; Asu = Asu XOR Du; BCu = ROL Asu 14;
          Eba = BCa XOR (NOT BCe AND BCi); Eba = Eba XOR rc; Ebe = BCe XOR (NOT BCi AND BCo);
          Ebi = BCi XOR (NOT BCo AND BCu); Ebo = BCo XOR (NOT BCu AND BCa);
          Ebu = BCu XOR (NOT BCa AND BCe); Abo = Abo XOR Do; BCa = ROL Abo 28; Agu = Agu XOR Du;
          BCe = ROL Agu 20; Aka = Aka XOR Da; BCi = ROL Aka 3; Ame = Ame XOR De; BCo = ROL Ame 45;
          Asi = Asi XOR Di; BCu = ROL Asi 61; Ega = BCa XOR (NOT BCe AND BCi);
          Ege = BCe XOR (NOT BCi AND BCo); Egi = BCi XOR (NOT BCo AND BCu);
          Ego = BCo XOR (NOT BCu AND BCa); Egu = BCu XOR (NOT BCa AND BCe); Abe = Abe XOR De;
          BCa = ROL Abe 1; Agi = Agi XOR Di; BCe = ROL Agi 6; Ako = Ako XOR Do; BCi = ROL Ako 25;
          Amu = Amu XOR Du; BCo = ROL Amu 8; Asa = Asa XOR Da; BCu = ROL Asa 18;
          Eka = BCa XOR (NOT BCe AND BCi); Eke = BCe XOR (NOT BCi AND BCo);
          Eki = BCi XOR (NOT BCo AND BCu); Eko = BCo XOR (NOT BCu AND BCa);
          Eku = BCu XOR (NOT BCa AND BCe); Abu = Abu XOR Du; BCa = ROL Abu 27; Aga = Aga XOR Da;
          BCe = ROL Aga 36; Ake = Ake XOR De; BCi = ROL Ake 10; Ami = Ami XOR Di; BCo = ROL Ami 15;
          Aso = Aso XOR Do; BCu = ROL Aso 56; Ema = BCa XOR (NOT BCe AND BCi);
          Eme = BCe XOR (NOT BCi AND BCo); Emi = BCi XOR (NOT BCo AND BCu);
          Emo = BCo XOR (NOT BCu AND BCa); Emu = BCu XOR (NOT BCa AND BCe); Abi = Abi XOR Di;
          BCa = ROL Abi 62; Ago = Ago XOR Do; BCe = ROL Ago 55; Aku = Aku XOR Du; BCi = ROL Aku 39;
          Ama = Ama XOR Da; BCo = ROL Ama 41; Ase = Ase XOR De; BCu = ROL Ase 2;
          Esa = BCa XOR (NOT BCe AND BCi); Ese = BCe XOR (NOT BCi AND BCo);
          Esi = BCi XOR (NOT BCo AND BCu); Eso = BCo XOR (NOT BCu AND BCa);
          Esu = BCu XOR (NOT BCa AND BCe)
      in [Eba, Ebe, Ebi, Ebo, Ebu,
          Ega, Ege, Egi, Ego, Egu,
          Eka, Eke, Eki, Eko, Eku,
          Ema, Eme, Emi, Emo, Emu,
          Esa, Ese, Esi, Eso, Esu])"

definition simple_round_EA :: "lane \<Rightarrow> lane list \<Rightarrow> lane list" where
  "simple_round_EA rc state =
     (let Eba = state ! 0; Ebe = state ! 1; Ebi = state ! 2; Ebo = state ! 3; Ebu = state ! 4;
          Ega = state ! 5; Ege = state ! 6; Egi = state ! 7; Ego = state ! 8; Egu = state ! 9;
          Eka = state ! 10; Eke = state ! 11; Eki = state ! 12; Eko = state ! 13; Eku = state ! 14;
          Ema = state ! 15; Eme = state ! 16; Emi = state ! 17; Emo = state ! 18; Emu = state ! 19;
          Esa = state ! 20; Ese = state ! 21; Esi = state ! 22; Eso = state ! 23; Esu = state ! 24;
          BCa = Eba XOR Ega XOR Eka XOR Ema XOR Esa; BCe = Ebe XOR Ege XOR Eke XOR Eme XOR Ese;
          BCi = Ebi XOR Egi XOR Eki XOR Emi XOR Esi; BCo = Ebo XOR Ego XOR Eko XOR Emo XOR Eso;
          BCu = Ebu XOR Egu XOR Eku XOR Emu XOR Esu; Da = BCu XOR ROL BCe 1; De = BCa XOR ROL BCi 1;
          Di = BCe XOR ROL BCo 1; Do = BCi XOR ROL BCu 1; Du = BCo XOR ROL BCa 1; Eba = Eba XOR Da;
          BCa = Eba; Ege = Ege XOR De; BCe = ROL Ege 44; Eki = Eki XOR Di; BCi = ROL Eki 43;
          Emo = Emo XOR Do; BCo = ROL Emo 21; Esu = Esu XOR Du; BCu = ROL Esu 14;
          Aba = BCa XOR (NOT BCe AND BCi); Aba = Aba XOR rc; Abe = BCe XOR (NOT BCi AND BCo);
          Abi = BCi XOR (NOT BCo AND BCu); Abo = BCo XOR (NOT BCu AND BCa);
          Abu = BCu XOR (NOT BCa AND BCe); Ebo = Ebo XOR Do; BCa = ROL Ebo 28; Egu = Egu XOR Du;
          BCe = ROL Egu 20; Eka = Eka XOR Da; BCi = ROL Eka 3; Eme = Eme XOR De; BCo = ROL Eme 45;
          Esi = Esi XOR Di; BCu = ROL Esi 61; Aga = BCa XOR (NOT BCe AND BCi);
          Age = BCe XOR (NOT BCi AND BCo); Agi = BCi XOR (NOT BCo AND BCu);
          Ago = BCo XOR (NOT BCu AND BCa); Agu = BCu XOR (NOT BCa AND BCe); Ebe = Ebe XOR De;
          BCa = ROL Ebe 1; Egi = Egi XOR Di; BCe = ROL Egi 6; Eko = Eko XOR Do; BCi = ROL Eko 25;
          Emu = Emu XOR Du; BCo = ROL Emu 8; Esa = Esa XOR Da; BCu = ROL Esa 18;
          Aka = BCa XOR (NOT BCe AND BCi); Ake = BCe XOR (NOT BCi AND BCo);
          Aki = BCi XOR (NOT BCo AND BCu); Ako = BCo XOR (NOT BCu AND BCa);
          Aku = BCu XOR (NOT BCa AND BCe); Ebu = Ebu XOR Du; BCa = ROL Ebu 27; Ega = Ega XOR Da;
          BCe = ROL Ega 36; Eke = Eke XOR De; BCi = ROL Eke 10; Emi = Emi XOR Di; BCo = ROL Emi 15;
          Eso = Eso XOR Do; BCu = ROL Eso 56; Ama = BCa XOR (NOT BCe AND BCi);
          Ame = BCe XOR (NOT BCi AND BCo); Ami = BCi XOR (NOT BCo AND BCu);
          Amo = BCo XOR (NOT BCu AND BCa); Amu = BCu XOR (NOT BCa AND BCe); Ebi = Ebi XOR Di;
          BCa = ROL Ebi 62; Ego = Ego XOR Do; BCe = ROL Ego 55; Eku = Eku XOR Du; BCi = ROL Eku 39;
          Ema = Ema XOR Da; BCo = ROL Ema 41; Ese = Ese XOR De; BCu = ROL Ese 2;
          Asa = BCa XOR (NOT BCe AND BCi); Ase = BCe XOR (NOT BCi AND BCo);
          Asi = BCi XOR (NOT BCo AND BCu); Aso = BCo XOR (NOT BCu AND BCa);
          Asu = BCu XOR (NOT BCa AND BCe)
      in [Aba, Abe, Abi, Abo, Abu,
          Aga, Age, Agi, Ago, Agu,
          Aka, Ake, Aki, Ako, Aku,
          Ama, Ame, Ami, Amo, Amu,
          Asa, Ase, Asi, Aso, Asu])"

text \<open>The input is added from its last lane to its first.\<close>

fun xor_lanes :: "lane list \<Rightarrow> lane list \<Rightarrow> nat \<Rightarrow> lane list outcome" where
  "xor_lanes state in_lanes 0 = Ret state"
| "xor_lanes state in_lanes (Suc laneCount) =
     obind (peek state laneCount) (\<lambda>s.
     obind (peek in_lanes laneCount) (\<lambda>i.
     obind (poke state laneCount (s XOR i)) (\<lambda>state.
     xor_lanes state in_lanes laneCount)))"

definition simple_KeccakF :: "lane list \<Rightarrow> lane list \<Rightarrow> nat \<Rightarrow> lane list outcome" where
  "simple_KeccakF state in_lanes laneCount =
     obind (xor_lanes state in_lanes laneCount) (\<lambda>state.
     Ret (foldl (\<lambda>state r. simple_round_EA (KeccakF_RoundConstants ! (r + 1))
            (simple_round_AE (KeccakF_RoundConstants ! r) state))
          state (map (\<lambda>k. 2 * k) [0..<12])))"

section \<open>Keccak-compact\<close>

definition KeccakF_RotationConstants :: "nat list" where
  "KeccakF_RotationConstants =
     [1, 3, 6, 10, 15, 21, 28, 36, 45, 55, 2, 14, 27, 41, 56, 8, 25, 43, 62, 18, 39, 61, 20, 44, 0]"

definition KeccakF_PiLane :: "nat list" where
  "KeccakF_PiLane =
     [10, 7, 11, 17, 18, 3, 5, 16, 8, 21, 24, 4, 15, 23, 19, 13, 12, 2, 20, 14, 22, 9, 6, 1, 0]"

definition KeccakF_Mod5 :: "nat list" where
  "KeccakF_Mod5 = [0, 1, 2, 3, 4, 0, 1, 2, 3, 4]"

definition rows :: "nat list" where
  \<comment> \<open>the values of \<^verbatim>\<open>y\<close> in \<^verbatim>\<open>for ( y = 0; y < 25; y += 5 )\<close>\<close>
  "rows = [0, 5, 10, 15, 20]"

definition compact_theta :: "lane list \<Rightarrow> lane list" where
  "compact_theta state =
     (let BC = map (\<lambda>x. state ! x XOR state ! (5 + x) XOR state ! (10 + x) XOR state ! (15 + x)
                 XOR state ! (20 + x)) [0..<5]
      in foldl (\<lambda>state x.
           let temp = BC ! (KeccakF_Mod5 ! (x + 4)) XOR ROL (BC ! (KeccakF_Mod5 ! (x + 1))) 1
           in foldl (\<lambda>state y. state[y + x := state ! (y + x) XOR temp]) state rows) state [0..<5])"

definition compact_rho_pi :: "lane list \<Rightarrow> lane list" where
  "compact_rho_pi state =
     fst (foldl (\<lambda>(state, temp) x.
       let BC0 = state ! (KeccakF_PiLane ! x)
       in (state[KeccakF_PiLane ! x := ROL temp (KeccakF_RotationConstants ! x)], BC0))
       (state, state ! 1) [0..<24])"

definition compact_chi :: "lane list \<Rightarrow> lane list" where
  "compact_chi state =
     foldl (\<lambda>state y.
       let BC = map (\<lambda>x. state ! (y + x)) [0..<5]
       in foldl (\<lambda>state x. state[y + x :=
            BC ! x XOR (NOT (BC ! (KeccakF_Mod5 ! (x + 1))) AND BC ! (KeccakF_Mod5 ! (x + 2)))]) state [0..<5])
       state rows"

definition compact_KeccakF :: "lane list \<Rightarrow> lane list \<Rightarrow> nat \<Rightarrow> lane list outcome" where
  "compact_KeccakF state in_lanes laneCount =
     obind (xor_lanes state in_lanes laneCount) (\<lambda>state.
     Ret (foldl (\<lambda>state r.
       let state = compact_chi (compact_rho_pi (compact_theta state))
       in state[0 := state ! 0 XOR KeccakF_RoundConstants ! r]) state [0..<24]))"

section \<open>Correctness\<close>

lemma ROL_is_rotl:
  assumes n: "0 < n" "n < 64"
  shows "ROL a n = word_rotl n a"
proof (rule bit_word_eqI)
  fix i
  assume "i < LENGTH(64)"
  then have i: "i < 64" by simp
  have far: "\<not> bit a k" if "64 \<le> k" for k
    using that bit_imp_le_length [of a k] by auto
  show "bit (ROL a n) i \<longleftrightarrow> bit (word_rotl n a) i"
  proof (cases "n \<le> i")
    case True
    then have "(i + (64 - n)) mod 64 = i - n" using n i by (simp add: mod_if)
    with True n i far [of "64 - n + i"] show ?thesis by (auto simp: ROL_def bit_simps)
  next
    case False
    then have "(i + (64 - n)) mod 64 = 64 - n + i" using n i by simp
    with False n i show ?thesis by (auto simp: ROL_def bit_simps)
  qed
qed

lemma rotations_eq:
  "rotations = [(0, 0), (1, 1), (10, 3), (7, 6), (11, 10), (17, 15), (18, 21), (3, 28), (5, 36), (16, 45),
     (8, 55), (21, 2), (24, 14), (4, 27), (15, 41), (23, 56), (19, 8), (13, 25), (12, 43), (2, 62),
     (20, 18), (14, 39), (22, 61), (9, 20), (6, 44)]"
  by code_simp

text \<open>The bits of the shift register, one after the other.\<close>

primrec register_bits :: "bool list \<Rightarrow> nat \<Rightarrow> bool list" where
  "register_bits R 0 = []"
| "register_bits R (Suc n) =
     hd R # register_bits (case R of
         [r0, r1, r2, r3, r4, r5, r6, r7] \<Rightarrow> [r7, r0, r1, r2, r3 \<noteq> r7, r4 \<noteq> r7, r5 \<noteq> r7, r6]
       | _ \<Rightarrow> []) n"

lemma register_bits_nth: "k < n \<Longrightarrow> register_bits (shift_register t) n ! k = hd (shift_register (t + k))"
proof (induction n arbitrary: t k)
  case (Suc n)
  show ?case
  proof (cases k)
    case (Suc k')
    with Suc.prems Suc.IH [of k' "Suc t"] show ?thesis by simp
  qed simp
qed simp

lemma standard_constant_bits:
  assumes "r < 24"
  shows "standard_constant r =
    (let bits = register_bits (shift_register 0) 168
     in foldl (\<lambda>w j. if bits ! (j + 7 * r) then set_bit (2 ^ j - 1) w else w) 0 [0..<7])"
proof -
  have "hd (shift_register ((j + 7 * r) mod 255)) = register_bits (shift_register 0) 168 ! (j + 7 * r)"
    if "j < 7" for j
    using that assms register_bits_nth [of "j + 7 * r" 168 0] by (simp del: shift_register.simps)
  then show ?thesis unfolding standard_constant_def Let_def by (intro foldl_cong) auto
qed

lemma register_bits_168: "register_bits (shift_register 0) 168 = 
   [True, False, False, False, False, False, False, False, True, False, True, True, False, False,
    False, True, True, True, True, False, True, False, False, False, False, True, True, True,
    True, True, True, True, True, False, False, True, False, False, False, False, True, False,
    True, False, False, True, True, True, True, True, False, True, False, True, False, True,
    False, True, True, True, False, False, False, False, False, True, True, False, False, False,
    True, False, True, False, True, True, False, False, True, True, False, False, True, False,
    True, True, True, True, True, True, False, True, True, True, True, False, False, True,
    True, False, True, True, True, False, True, True, True, False, False, True, False, True,
    False, True, False, False, True, False, True, False, False, False, True, False, False, True,
    False, True, True, False, True, False, False, False, True, True, False, False, True, True,
    True, False, False, True, True, True, True, False, False, False, True, True, False, True,
    True, False, False, False, False, True, False, False, False, True, False, True, True, True]"
  by code_simp

lemma constants_are_standard: "KeccakF_RoundConstants = map standard_constant [0..<24]"
proof -
  have "map standard_constant [0..<24] = map (\<lambda>r. let bits = register_bits (shift_register 0) 168
     in foldl (\<lambda>w j. if bits ! (j + 7 * r) then set_bit (2 ^ j - 1) w else w) 0 [0..<7]) [0..<24]"
    by (rule map_cong) (simp_all add: standard_constant_bits del: register_bits.simps)
  also have "\<dots> = KeccakF_RoundConstants"
    unfolding register_bits_168 by code_simp
  finally show ?thesis by (rule sym)
qed

lemma upt_25: "[0..<25] = [0, 1, 2, 3, 4, 5, 6, 7, 8, 9, 10, 11, 12, 13, 14, 15, 16, 17, 18, 19, 20, 21, 22, 23, 24]"
  by (simp add: upt_rec)

lemma rotl_0: "word_rotl 0 (a :: lane) = a"
  by (rule bit_word_eqI) (simp add: bit_simps)

text \<open>The five steps at every lane.\<close>

lemma theta_values:
  "theta a 0 = a 0 XOR (column a 4 XOR word_rotl 1 (column a 1))"
  "theta a 1 = a 1 XOR (column a 0 XOR word_rotl 1 (column a 2))"
  "theta a 2 = a 2 XOR (column a 1 XOR word_rotl 1 (column a 3))"
  "theta a 3 = a 3 XOR (column a 2 XOR word_rotl 1 (column a 4))"
  "theta a 4 = a 4 XOR (column a 3 XOR word_rotl 1 (column a 0))"
  "theta a 5 = a 5 XOR (column a 4 XOR word_rotl 1 (column a 1))"
  "theta a 6 = a 6 XOR (column a 0 XOR word_rotl 1 (column a 2))"
  "theta a 7 = a 7 XOR (column a 1 XOR word_rotl 1 (column a 3))"
  "theta a 8 = a 8 XOR (column a 2 XOR word_rotl 1 (column a 4))"
  "theta a 9 = a 9 XOR (column a 3 XOR word_rotl 1 (column a 0))"
  "theta a 10 = a 10 XOR (column a 4 XOR word_rotl 1 (column a 1))"
  "theta a 11 = a 11 XOR (column a 0 XOR word_rotl 1 (column a 2))"
  "theta a 12 = a 12 XOR (column a 1 XOR word_rotl 1 (column a 3))"
  "theta a 13 = a 13 XOR (column a 2 XOR word_rotl 1 (column a 4))"
  "theta a 14 = a 14 XOR (column a 3 XOR word_rotl 1 (column a 0))"
  "theta a 15 = a 15 XOR (column a 4 XOR word_rotl 1 (column a 1))"
  "theta a 16 = a 16 XOR (column a 0 XOR word_rotl 1 (column a 2))"
  "theta a 17 = a 17 XOR (column a 1 XOR word_rotl 1 (column a 3))"
  "theta a 18 = a 18 XOR (column a 2 XOR word_rotl 1 (column a 4))"
  "theta a 19 = a 19 XOR (column a 3 XOR word_rotl 1 (column a 0))"
  "theta a 20 = a 20 XOR (column a 4 XOR word_rotl 1 (column a 1))"
  "theta a 21 = a 21 XOR (column a 0 XOR word_rotl 1 (column a 2))"
  "theta a 22 = a 22 XOR (column a 1 XOR word_rotl 1 (column a 3))"
  "theta a 23 = a 23 XOR (column a 2 XOR word_rotl 1 (column a 4))"
  "theta a 24 = a 24 XOR (column a 3 XOR word_rotl 1 (column a 0))"
  by (simp_all add: theta_def) (simp_all add: numeral_2_eq_2)

lemma rho_values:
  "rho a 0 = a 0"
  "rho a 1 = word_rotl 1 (a 1)"
  "rho a 2 = word_rotl 62 (a 2)"
  "rho a 3 = word_rotl 28 (a 3)"
  "rho a 4 = word_rotl 27 (a 4)"
  "rho a 5 = word_rotl 36 (a 5)"
  "rho a 6 = word_rotl 44 (a 6)"
  "rho a 7 = word_rotl 6 (a 7)"
  "rho a 8 = word_rotl 55 (a 8)"
  "rho a 9 = word_rotl 20 (a 9)"
  "rho a 10 = word_rotl 3 (a 10)"
  "rho a 11 = word_rotl 10 (a 11)"
  "rho a 12 = word_rotl 43 (a 12)"
  "rho a 13 = word_rotl 25 (a 13)"
  "rho a 14 = word_rotl 39 (a 14)"
  "rho a 15 = word_rotl 41 (a 15)"
  "rho a 16 = word_rotl 45 (a 16)"
  "rho a 17 = word_rotl 15 (a 17)"
  "rho a 18 = word_rotl 21 (a 18)"
  "rho a 19 = word_rotl 8 (a 19)"
  "rho a 20 = word_rotl 18 (a 20)"
  "rho a 21 = word_rotl 2 (a 21)"
  "rho a 22 = word_rotl 61 (a 22)"
  "rho a 23 = word_rotl 56 (a 23)"
  "rho a 24 = word_rotl 14 (a 24)"
  by (simp_all add: rho_def rotations_eq rotl_0)

lemma pi_values:
  "lane_pi a 0 = a 0"
  "lane_pi a 1 = a 6"
  "lane_pi a 2 = a 12"
  "lane_pi a 3 = a 18"
  "lane_pi a 4 = a 24"
  "lane_pi a 5 = a 3"
  "lane_pi a 6 = a 9"
  "lane_pi a 7 = a 10"
  "lane_pi a 8 = a 16"
  "lane_pi a 9 = a 22"
  "lane_pi a 10 = a 1"
  "lane_pi a 11 = a 7"
  "lane_pi a 12 = a 13"
  "lane_pi a 13 = a 19"
  "lane_pi a 14 = a 20"
  "lane_pi a 15 = a 4"
  "lane_pi a 16 = a 5"
  "lane_pi a 17 = a 11"
  "lane_pi a 18 = a 17"
  "lane_pi a 19 = a 23"
  "lane_pi a 20 = a 2"
  "lane_pi a 21 = a 8"
  "lane_pi a 22 = a 14"
  "lane_pi a 23 = a 15"
  "lane_pi a 24 = a 21"
  by (simp_all add: lane_pi_def)

lemma chi_values:
  "chi a 0 = a 0 XOR (NOT (a 1) AND a 2)"
  "chi a 1 = a 1 XOR (NOT (a 2) AND a 3)"
  "chi a 2 = a 2 XOR (NOT (a 3) AND a 4)"
  "chi a 3 = a 3 XOR (NOT (a 4) AND a 0)"
  "chi a 4 = a 4 XOR (NOT (a 0) AND a 1)"
  "chi a 5 = a 5 XOR (NOT (a 6) AND a 7)"
  "chi a 6 = a 6 XOR (NOT (a 7) AND a 8)"
  "chi a 7 = a 7 XOR (NOT (a 8) AND a 9)"
  "chi a 8 = a 8 XOR (NOT (a 9) AND a 5)"
  "chi a 9 = a 9 XOR (NOT (a 5) AND a 6)"
  "chi a 10 = a 10 XOR (NOT (a 11) AND a 12)"
  "chi a 11 = a 11 XOR (NOT (a 12) AND a 13)"
  "chi a 12 = a 12 XOR (NOT (a 13) AND a 14)"
  "chi a 13 = a 13 XOR (NOT (a 14) AND a 10)"
  "chi a 14 = a 14 XOR (NOT (a 10) AND a 11)"
  "chi a 15 = a 15 XOR (NOT (a 16) AND a 17)"
  "chi a 16 = a 16 XOR (NOT (a 17) AND a 18)"
  "chi a 17 = a 17 XOR (NOT (a 18) AND a 19)"
  "chi a 18 = a 18 XOR (NOT (a 19) AND a 15)"
  "chi a 19 = a 19 XOR (NOT (a 15) AND a 16)"
  "chi a 20 = a 20 XOR (NOT (a 21) AND a 22)"
  "chi a 21 = a 21 XOR (NOT (a 22) AND a 23)"
  "chi a 22 = a 22 XOR (NOT (a 23) AND a 24)"
  "chi a 23 = a 23 XOR (NOT (a 24) AND a 20)"
  "chi a 24 = a 24 XOR (NOT (a 20) AND a 21)"
  by (simp_all add: chi_def numeral_2_eq_2)

lemma iota_values:
  "iota rc a 0 = a 0 XOR rc"
  "iota rc a 1 = a 1"
  "iota rc a 2 = a 2"
  "iota rc a 3 = a 3"
  "iota rc a 4 = a 4"
  "iota rc a 5 = a 5"
  "iota rc a 6 = a 6"
  "iota rc a 7 = a 7"
  "iota rc a 8 = a 8"
  "iota rc a 9 = a 9"
  "iota rc a 10 = a 10"
  "iota rc a 11 = a 11"
  "iota rc a 12 = a 12"
  "iota rc a 13 = a 13"
  "iota rc a 14 = a 14"
  "iota rc a 15 = a 15"
  "iota rc a 16 = a 16"
  "iota rc a 17 = a 17"
  "iota rc a 18 = a 18"
  "iota rc a 19 = a 19"
  "iota rc a 20 = a 20"
  "iota rc a 21 = a 21"
  "iota rc a 22 = a 22"
  "iota rc a 23 = a 23"
  "iota rc a 24 = a 24"
  by (simp_all add: iota_def)

lemma column_values:
  "column a 0 = a 0 XOR a 5 XOR a 10 XOR a 15 XOR a 20"
  "column a 1 = a 1 XOR a 6 XOR a 11 XOR a 16 XOR a 21"
  "column a 2 = a 2 XOR a 7 XOR a 12 XOR a 17 XOR a 22"
  "column a 3 = a 3 XOR a 8 XOR a 13 XOR a 18 XOR a 23"
  "column a 4 = a 4 XOR a 9 XOR a 14 XOR a 19 XOR a 24"
  by (simp_all add: column_def)

lemmas step_values = iota_values chi_values pi_values rho_values theta_values column_values

lemma ROL_numeral: "ROL a 1 = word_rotl 1 a"
  "(0 :: nat) < numeral k \<Longrightarrow> numeral k < (64 :: nat) \<Longrightarrow> ROL a (numeral k) = word_rotl (numeral k) a"
  by (simp_all add: ROL_is_rotl)

text \<open>Both halves of the loop body are the round of the standard.\<close>

lemma simple_round_AE_is_round: "simple_round_AE rc state = keccak_round rc state"
  unfolding simple_round_AE_def keccak_round_def upt_25 Let_def
  by (simp only: list.map step_values ROL_numeral zero_less_numeral rel_simps xor.assoc)

lemma simple_round_EA_is_round: "simple_round_EA rc state = keccak_round rc state"
  unfolding simple_round_AE_is_round [symmetric] simple_round_AE_def simple_round_EA_def by (rule refl)

lemma upt_small: "[0..<5] = [0, 1, 2, 3, 4]"
  "[0..<24] = [0, 1, 2, 3, 4, 5, 6, 7, 8, 9, 10, 11, 12, 13, 14, 15, 16, 17, 18, 19, 20, 21, 22, 23]"
  by (simp_all add: upt_rec)

text \<open>Each loop in place is a step of the standard on a state of 25 lanes.\<close>

lemma compact_theta_is_theta: "compact_theta (map a [0..<25]) = map (theta a) [0..<25]"
  unfolding compact_theta_def upt_25 upt_small Let_def KeccakF_Mod5_def rows_def list.map step_values
  by (simp add: ROL_is_rotl xor.assoc)

lemma compact_rho_pi_is_rho_pi: "compact_rho_pi (map a [0..<25]) = map (lane_pi (rho a)) [0..<25]"
  unfolding compact_rho_pi_def upt_25 upt_small Let_def KeccakF_PiLane_def KeccakF_RotationConstants_def
    list.map step_values
  by (simp add: ROL_is_rotl)

lemma compact_chi_is_chi: "compact_chi (map a [0..<25]) = map (chi a) [0..<25]"
  unfolding compact_chi_def upt_25 upt_small Let_def KeccakF_Mod5_def rows_def list.map step_values
  by simp

lemma length_keccak_round [simp]: "length (keccak_round rc state) = 25"
  by (simp add: keccak_round_def)

lemma compact_round_is_round:
  assumes "length state = 25"
  shows "(let state = compact_chi (compact_rho_pi (compact_theta state)) in state[0 := state ! 0 XOR rc])
    = keccak_round rc state"
proof -
  have "state = map (\<lambda>i. state ! i) [0..<25]" using assms map_nth [of state] by simp
  then have "compact_chi (compact_rho_pi (compact_theta state))
      = map (chi (lane_pi (rho (theta (\<lambda>i. state ! i))))) [0..<25]"
    using compact_theta_is_theta [of "\<lambda>i. state ! i"] by (simp only: compact_rho_pi_is_rho_pi compact_chi_is_chi)
  then show ?thesis
    by (auto simp: Let_def keccak_round_def iota_def nth_list_update intro!: nth_equalityI)
qed

lemma constant_at: "r < 24 \<Longrightarrow> KeccakF_RoundConstants ! r = standard_constant r"
  by (simp add: constants_are_standard)

lemma compact_rounds:
  assumes "length state = 25" and "\<forall>r\<in>set rs. r < 24"
  shows "foldl (\<lambda>state r. let state = compact_chi (compact_rho_pi (compact_theta state))
      in state[0 := state ! 0 XOR KeccakF_RoundConstants ! r]) state rs
    = foldl (\<lambda>state r. keccak_round (standard_constant r) state) state rs"
  using assms by (induction rs arbitrary: state) (simp_all add: compact_round_is_round constant_at)

lemma simple_rounds:
  "foldl (\<lambda>state r. simple_round_EA (KeccakF_RoundConstants ! (r + 1))
      (simple_round_AE (KeccakF_RoundConstants ! r) state)) state (map (\<lambda>k. 2 * k) [0..<n])
    = foldl (\<lambda>state r. keccak_round (standard_constant r) state) state [0..<2 * n]" if "n \<le> 12"
  using that
  by (induction n) (simp_all add: simple_round_AE_is_round simple_round_EA_is_round constant_at)

text \<open>What is in the state when the input has been added to it.\<close>

definition add_input :: "lane list \<Rightarrow> lane list \<Rightarrow> nat \<Rightarrow> lane list" where
  "add_input state in_lanes n = map (\<lambda>i. if i < n then state ! i XOR in_lanes ! i else state ! i) [0..<25]"

lemma xor_lanes_result:
  assumes "length state = 25" and "n \<le> 25" and "n \<le> length in_lanes"
  shows "xor_lanes state in_lanes n = Ret (add_input state in_lanes n)"
  using assms
proof (induction n arbitrary: state)
  case 0
  then show ?case using map_nth [of state] by (simp add: add_input_def)
next
  case (Suc n)
  then have "xor_lanes (state[n := state ! n XOR in_lanes ! n]) in_lanes n
      = Ret (add_input (state[n := state ! n XOR in_lanes ! n]) in_lanes n)"
    by (intro Suc.IH) auto
  also have "add_input (state[n := state ! n XOR in_lanes ! n]) in_lanes n = add_input state in_lanes (Suc n)"
    using Suc.prems by (auto simp: add_input_def nth_list_update less_Suc_eq)
  finally show ?case using Suc.prems by (simp add: mem_simps)
qed

text \<open>Both programs add the input lanes and apply the permutation of the standard.\<close>

lemma simple_and_compact_keccak_f:
  assumes "length state = 25" and "laneCount \<le> 25" and "laneCount \<le> length in_lanes"
  shows "simple_KeccakF state in_lanes laneCount = Ret (keccak_f (add_input state in_lanes laneCount))"
    and "compact_KeccakF state in_lanes laneCount = Ret (keccak_f (add_input state in_lanes laneCount))"
proof -
  have len: "length (add_input state in_lanes laneCount) = 25" by (simp add: add_input_def)
  show "simple_KeccakF state in_lanes laneCount = Ret (keccak_f (add_input state in_lanes laneCount))"
    using simple_rounds [of 12 "add_input state in_lanes laneCount"] xor_lanes_result [OF assms]
    by (simp add: simple_KeccakF_def keccak_f_def del: upt_Suc)
  show "compact_KeccakF state in_lanes laneCount = Ret (keccak_f (add_input state in_lanes laneCount))"
    using compact_rounds [OF len, of "[0..<24]"] xor_lanes_result [OF assms]
    by (simp add: compact_KeccakF_def keccak_f_def del: upt_Suc)
qed

lemma length_keccak_rounds: "length state = 25 \<Longrightarrow>
    length (foldl (\<lambda>state r. keccak_round (standard_constant r) state) state rs) = 25"
  by (induction rs arbitrary: state) simp_all

lemma length_keccak_f: "length state = 25 \<Longrightarrow> length (keccak_f state) = 25"
  unfolding keccak_f_def by (rule length_keccak_rounds)

end
