(* ===== verification/Keccak_Inplace.thy ===== *)
theory Keccak_Inplace
  imports Keccak_F
begin

text \<open>
  The permutation as \<^verbatim>\<open>lib/sha_three/Keccak-inplace.c\<close> computes it. Four rounds make one pass, and
  each of them leaves its lanes where it has read them, so the lanes wander; after four rounds they
  are back. The view of a state through the places after \<open>k\<close> rounds is the state of the standard.
\<close>

unbundle bit_operations_syntax

section \<open>The four rounds of a pass\<close>

definition inplace_round_0 :: "lane \<Rightarrow> lane list \<Rightarrow> lane list" where
  "inplace_round_0 rc state =
     (let Aba = state ! 0; Abe = state ! 1; Abi = state ! 2; Abo = state ! 3; Abu = state ! 4;
          Aga = state ! 5; Age = state ! 6; Agi = state ! 7; Ago = state ! 8; Agu = state ! 9;
          Aka = state ! 10; Ake = state ! 11; Aki = state ! 12; Ako = state ! 13; Aku = state ! 14;
          Ama = state ! 15; Ame = state ! 16; Ami = state ! 17; Amo = state ! 18; Amu = state ! 19;
          Asa = state ! 20; Ase = state ! 21; Asi = state ! 22; Aso = state ! 23; Asu = state ! 24;
          Ca = Aba XOR Aga XOR Aka XOR Ama XOR Asa; Ce = Abe XOR Age XOR Ake XOR Ame XOR Ase;
          Ci = Abi XOR Agi XOR Aki XOR Ami XOR Asi; Co = Abo XOR Ago XOR Ako XOR Amo XOR Aso;
          Cu = Abu XOR Agu XOR Aku XOR Amu XOR Asu; Da = Cu XOR ROL Ce 1; De = Ca XOR ROL Ci 1;
          Di = Ce XOR ROL Co 1; Do = Ci XOR ROL Cu 1; Du = Co XOR ROL Ca 1; Ba = (Aba XOR Da);
          Be = ROL (Age XOR De) 44; Bi = ROL (Aki XOR Di) 43; Bo = ROL (Amo XOR Do) 21;
          Bu = ROL (Asu XOR Du) 14; Aba = Ba XOR (NOT Be AND Bi); Aba = Aba XOR rc;
          Age = Be XOR (NOT Bi AND Bo); Aki = Bi XOR (NOT Bo AND Bu); Amo = Bo XOR (NOT Bu AND Ba);
          Asu = Bu XOR (NOT Ba AND Be); Bi = ROL (Aka XOR Da) 3; Bo = ROL (Ame XOR De) 45;
          Bu = ROL (Asi XOR Di) 61; Ba = ROL (Abo XOR Do) 28; Be = ROL (Agu XOR Du) 20;
          Aka = Ba XOR (NOT Be AND Bi); Ame = Be XOR (NOT Bi AND Bo); Asi = Bi XOR (NOT Bo AND Bu);
          Abo = Bo XOR (NOT Bu AND Ba); Agu = Bu XOR (NOT Ba AND Be); Bu = ROL (Asa XOR Da) 18;
          Ba = ROL (Abe XOR De) 1; Be = ROL (Agi XOR Di) 6; Bi = ROL (Ako XOR Do) 25;
          Bo = ROL (Amu XOR Du) 8; Asa = Ba XOR (NOT Be AND Bi); Abe = Be XOR (NOT Bi AND Bo);
          Agi = Bi XOR (NOT Bo AND Bu); Ako = Bo XOR (NOT Bu AND Ba); Amu = Bu XOR (NOT Ba AND Be);
          Be = ROL (Aga XOR Da) 36; Bi = ROL (Ake XOR De) 10; Bo = ROL (Ami XOR Di) 15;
          Bu = ROL (Aso XOR Do) 56; Ba = ROL (Abu XOR Du) 27; Aga = Ba XOR (NOT Be AND Bi);
          Ake = Be XOR (NOT Bi AND Bo); Ami = Bi XOR (NOT Bo AND Bu); Aso = Bo XOR (NOT Bu AND Ba);
          Abu = Bu XOR (NOT Ba AND Be); Bo = ROL (Ama XOR Da) 41; Bu = ROL (Ase XOR De) 2;
          Ba = ROL (Abi XOR Di) 62; Be = ROL (Ago XOR Do) 55; Bi = ROL (Aku XOR Du) 39;
          Ama = Ba XOR (NOT Be AND Bi); Ase = Be XOR (NOT Bi AND Bo); Abi = Bi XOR (NOT Bo AND Bu);
          Ago = Bo XOR (NOT Bu AND Ba); Aku = Bu XOR (NOT Ba AND Be)
      in [Aba, Abe, Abi, Abo, Abu,
          Aga, Age, Agi, Ago, Agu,
          Aka, Ake, Aki, Ako, Aku,
          Ama, Ame, Ami, Amo, Amu,
          Asa, Ase, Asi, Aso, Asu])"

definition inplace_round_1 :: "lane \<Rightarrow> lane list \<Rightarrow> lane list" where
  "inplace_round_1 rc state =
     (let Aba = state ! 0; Abe = state ! 1; Abi = state ! 2; Abo = state ! 3; Abu = state ! 4;
          Aga = state ! 5; Age = state ! 6; Agi = state ! 7; Ago = state ! 8; Agu = state ! 9;
          Aka = state ! 10; Ake = state ! 11; Aki = state ! 12; Ako = state ! 13; Aku = state ! 14;
          Ama = state ! 15; Ame = state ! 16; Ami = state ! 17; Amo = state ! 18; Amu = state ! 19;
          Asa = state ! 20; Ase = state ! 21; Asi = state ! 22; Aso = state ! 23; Asu = state ! 24;
          Ca = Aba XOR Aka XOR Asa XOR Aga XOR Ama; Ce = Age XOR Ame XOR Abe XOR Ake XOR Ase;
          Ci = Aki XOR Asi XOR Agi XOR Ami XOR Abi; Co = Amo XOR Abo XOR Ako XOR Aso XOR Ago;
          Cu = Asu XOR Agu XOR Amu XOR Abu XOR Aku; Da = Cu XOR ROL Ce 1; De = Ca XOR ROL Ci 1;
          Di = Ce XOR ROL Co 1; Do = Ci XOR ROL Cu 1; Du = Co XOR ROL Ca 1; Ba = (Aba XOR Da);
          Be = ROL (Ame XOR De) 44; Bi = ROL (Agi XOR Di) 43; Bo = ROL (Aso XOR Do) 21;
          Bu = ROL (Aku XOR Du) 14; Aba = Ba XOR (NOT Be AND Bi); Aba = Aba XOR rc;
          Ame = Be XOR (NOT Bi AND Bo); Agi = Bi XOR (NOT Bo AND Bu); Aso = Bo XOR (NOT Bu AND Ba);
          Aku = Bu XOR (NOT Ba AND Be); Bi = ROL (Asa XOR Da) 3; Bo = ROL (Ake XOR De) 45;
          Bu = ROL (Abi XOR Di) 61; Ba = ROL (Amo XOR Do) 28; Be = ROL (Agu XOR Du) 20;
          Asa = Ba XOR (NOT Be AND Bi); Ake = Be XOR (NOT Bi AND Bo); Abi = Bi XOR (NOT Bo AND Bu);
          Amo = Bo XOR (NOT Bu AND Ba); Agu = Bu XOR (NOT Ba AND Be); Bu = ROL (Ama XOR Da) 18;
          Ba = ROL (Age XOR De) 1; Be = ROL (Asi XOR Di) 6; Bi = ROL (Ako XOR Do) 25;
          Bo = ROL (Abu XOR Du) 8; Ama = Ba XOR (NOT Be AND Bi); Age = Be XOR (NOT Bi AND Bo);
          Asi = Bi XOR (NOT Bo AND Bu); Ako = Bo XOR (NOT Bu AND Ba); Abu = Bu XOR (NOT Ba AND Be);
          Be = ROL (Aka XOR Da) 36; Bi = ROL (Abe XOR De) 10; Bo = ROL (Ami XOR Di) 15;
          Bu = ROL (Ago XOR Do) 56; Ba = ROL (Asu XOR Du) 27; Aka = Ba XOR (NOT Be AND Bi);
          Abe = Be XOR (NOT Bi AND Bo); Ami = Bi XOR (NOT Bo AND Bu); Ago = Bo XOR (NOT Bu AND Ba);
          Asu = Bu XOR (NOT Ba AND Be); Bo = ROL (Aga XOR Da) 41; Bu = ROL (Ase XOR De) 2;
          Ba = ROL (Aki XOR Di) 62; Be = ROL (Abo XOR Do) 55; Bi = ROL (Amu XOR Du) 39;
          Aga = Ba XOR (NOT Be AND Bi); Ase = Be XOR (NOT Bi AND Bo); Aki = Bi XOR (NOT Bo AND Bu);
          Abo = Bo XOR (NOT Bu AND Ba); Amu = Bu XOR (NOT Ba AND Be)
      in [Aba, Abe, Abi, Abo, Abu,
          Aga, Age, Agi, Ago, Agu,
          Aka, Ake, Aki, Ako, Aku,
          Ama, Ame, Ami, Amo, Amu,
          Asa, Ase, Asi, Aso, Asu])"

definition inplace_round_2 :: "lane \<Rightarrow> lane list \<Rightarrow> lane list" where
  "inplace_round_2 rc state =
     (let Aba = state ! 0; Abe = state ! 1; Abi = state ! 2; Abo = state ! 3; Abu = state ! 4;
          Aga = state ! 5; Age = state ! 6; Agi = state ! 7; Ago = state ! 8; Agu = state ! 9;
          Aka = state ! 10; Ake = state ! 11; Aki = state ! 12; Ako = state ! 13; Aku = state ! 14;
          Ama = state ! 15; Ame = state ! 16; Ami = state ! 17; Amo = state ! 18; Amu = state ! 19;
          Asa = state ! 20; Ase = state ! 21; Asi = state ! 22; Aso = state ! 23; Asu = state ! 24;
          Ca = Aba XOR Asa XOR Ama XOR Aka XOR Aga; Ce = Ame XOR Ake XOR Age XOR Abe XOR Ase;
          Ci = Agi XOR Abi XOR Asi XOR Ami XOR Aki; Co = Aso XOR Amo XOR Ako XOR Ago XOR Abo;
          Cu = Aku XOR Agu XOR Abu XOR Asu XOR Amu; Da = Cu XOR ROL Ce 1; De = Ca XOR ROL Ci 1;
          Di = Ce XOR ROL Co 1; Do = Ci XOR ROL Cu 1; Du = Co XOR ROL Ca 1; Ba = (Aba XOR Da);
          Be = ROL (Ake XOR De) 44; Bi = ROL (Asi XOR Di) 43; Bo = ROL (Ago XOR Do) 21;
          Bu = ROL (Amu XOR Du) 14; Aba = Ba XOR (NOT Be AND Bi); Aba = Aba XOR rc;
          Ake = Be XOR (NOT Bi AND Bo); Asi = Bi XOR (NOT Bo AND Bu); Ago = Bo XOR (NOT Bu AND Ba);
          Amu = Bu XOR (NOT Ba AND Be); Bi = ROL (Ama XOR Da) 3; Bo = ROL (Abe XOR De) 45;
          Bu = ROL (Aki XOR Di) 61; Ba = ROL (Aso XOR Do) 28; Be = ROL (Agu XOR Du) 20;
          Ama = Ba XOR (NOT Be AND Bi); Abe = Be XOR (NOT Bi AND Bo); Aki = Bi XOR (NOT Bo AND Bu);
          Aso = Bo XOR (NOT Bu AND Ba); Agu = Bu XOR (NOT Ba AND Be); Bu = ROL (Aga XOR Da) 18;
          Ba = ROL (Ame XOR De) 1; Be = ROL (Abi XOR Di) 6; Bi = ROL (Ako XOR Do) 25;
          Bo = ROL (Asu XOR Du) 8; Aga = Ba XOR (NOT Be AND Bi); Ame = Be XOR (NOT Bi AND Bo);
          Abi = Bi XOR (NOT Bo AND Bu); Ako = Bo XOR (NOT Bu AND Ba); Asu = Bu XOR (NOT Ba AND Be);
          Be = ROL (Asa XOR Da) 36; Bi = ROL (Age XOR De) 10; Bo = ROL (Ami XOR Di) 15;
          Bu = ROL (Abo XOR Do) 56; Ba = ROL (Aku XOR Du) 27; Asa = Ba XOR (NOT Be AND Bi);
          Age = Be XOR (NOT Bi AND Bo); Ami = Bi XOR (NOT Bo AND Bu); Abo = Bo XOR (NOT Bu AND Ba);
          Aku = Bu XOR (NOT Ba AND Be); Bo = ROL (Aka XOR Da) 41; Bu = ROL (Ase XOR De) 2;
          Ba = ROL (Agi XOR Di) 62; Be = ROL (Amo XOR Do) 55; Bi = ROL (Abu XOR Du) 39;
          Aka = Ba XOR (NOT Be AND Bi); Ase = Be XOR (NOT Bi AND Bo); Agi = Bi XOR (NOT Bo AND Bu);
          Amo = Bo XOR (NOT Bu AND Ba); Abu = Bu XOR (NOT Ba AND Be)
      in [Aba, Abe, Abi, Abo, Abu,
          Aga, Age, Agi, Ago, Agu,
          Aka, Ake, Aki, Ako, Aku,
          Ama, Ame, Ami, Amo, Amu,
          Asa, Ase, Asi, Aso, Asu])"

definition inplace_round_3 :: "lane \<Rightarrow> lane list \<Rightarrow> lane list" where
  "inplace_round_3 rc state =
     (let Aba = state ! 0; Abe = state ! 1; Abi = state ! 2; Abo = state ! 3; Abu = state ! 4;
          Aga = state ! 5; Age = state ! 6; Agi = state ! 7; Ago = state ! 8; Agu = state ! 9;
          Aka = state ! 10; Ake = state ! 11; Aki = state ! 12; Ako = state ! 13; Aku = state ! 14;
          Ama = state ! 15; Ame = state ! 16; Ami = state ! 17; Amo = state ! 18; Amu = state ! 19;
          Asa = state ! 20; Ase = state ! 21; Asi = state ! 22; Aso = state ! 23; Asu = state ! 24;
          Ca = Aba XOR Ama XOR Aga XOR Asa XOR Aka; Ce = Ake XOR Abe XOR Ame XOR Age XOR Ase;
          Ci = Asi XOR Aki XOR Abi XOR Ami XOR Agi; Co = Ago XOR Aso XOR Ako XOR Abo XOR Amo;
          Cu = Amu XOR Agu XOR Asu XOR Aku XOR Abu; Da = Cu XOR ROL Ce 1; De = Ca XOR ROL Ci 1;
          Di = Ce XOR ROL Co 1; Do = Ci XOR ROL Cu 1; Du = Co XOR ROL Ca 1; Ba = (Aba XOR Da);
          Be = ROL (Abe XOR De) 44; Bi = ROL (Abi XOR Di) 43; Bo = ROL (Abo XOR Do) 21;
          Bu = ROL (Abu XOR Du) 14; Aba = Ba XOR (NOT Be AND Bi); Aba = Aba XOR rc;
          Abe = Be XOR (NOT Bi AND Bo); Abi = Bi XOR (NOT Bo AND Bu); Abo = Bo XOR (NOT Bu AND Ba);
          Abu = Bu XOR (NOT Ba AND Be); Bi = ROL (Aga XOR Da) 3; Bo = ROL (Age XOR De) 45;
          Bu = ROL (Agi XOR Di) 61; Ba = ROL (Ago XOR Do) 28; Be = ROL (Agu XOR Du) 20;
          Aga = Ba XOR (NOT Be AND Bi); Age = Be XOR (NOT Bi AND Bo); Agi = Bi XOR (NOT Bo AND Bu);
          Ago = Bo XOR (NOT Bu AND Ba); Agu = Bu XOR (NOT Ba AND Be); Bu = ROL (Aka XOR Da) 18;
          Ba = ROL (Ake XOR De) 1; Be = ROL (Aki XOR Di) 6; Bi = ROL (Ako XOR Do) 25;
          Bo = ROL (Aku XOR Du) 8; Aka = Ba XOR (NOT Be AND Bi); Ake = Be XOR (NOT Bi AND Bo);
          Aki = Bi XOR (NOT Bo AND Bu); Ako = Bo XOR (NOT Bu AND Ba); Aku = Bu XOR (NOT Ba AND Be);
          Be = ROL (Ama XOR Da) 36; Bi = ROL (Ame XOR De) 10; Bo = ROL (Ami XOR Di) 15;
          Bu = ROL (Amo XOR Do) 56; Ba = ROL (Amu XOR Du) 27; Ama = Ba XOR (NOT Be AND Bi);
          Ame = Be XOR (NOT Bi AND Bo); Ami = Bi XOR (NOT Bo AND Bu); Amo = Bo XOR (NOT Bu AND Ba);
          Amu = Bu XOR (NOT Ba AND Be); Bo = ROL (Asa XOR Da) 41; Bu = ROL (Ase XOR De) 2;
          Ba = ROL (Asi XOR Di) 62; Be = ROL (Aso XOR Do) 55; Bi = ROL (Asu XOR Du) 39;
          Asa = Ba XOR (NOT Be AND Bi); Ase = Be XOR (NOT Bi AND Bo); Asi = Bi XOR (NOT Bo AND Bu);
          Aso = Bo XOR (NOT Bu AND Ba); Asu = Bu XOR (NOT Ba AND Be)
      in [Aba, Abe, Abi, Abo, Abu,
          Aga, Age, Agi, Ago, Agu,
          Aka, Ake, Aki, Ako, Aku,
          Ama, Ame, Ami, Amo, Amu,
          Asa, Ase, Asi, Aso, Asu])"

definition inplace_pass :: "lane list \<Rightarrow> nat \<Rightarrow> lane list" where
  "inplace_pass state i =
     inplace_round_3 (KeccakF_RoundConstants ! (i + 3)) (inplace_round_2 (KeccakF_RoundConstants ! (i + 2))
       (inplace_round_1 (KeccakF_RoundConstants ! (i + 1)) (inplace_round_0 (KeccakF_RoundConstants ! i) state)))"

definition inplace_KeccakF :: "lane list \<Rightarrow> lane list \<Rightarrow> nat \<Rightarrow> lane list outcome" where
  "inplace_KeccakF state in_lanes laneCount =
     obind (xor_lanes state in_lanes laneCount) (\<lambda>state.
     Ret (foldl inplace_pass state (map (\<lambda>k. 4 * k) [0..<6])))"

section \<open>Where the lanes are\<close>

definition place :: "nat \<Rightarrow> nat" where
  \<comment> \<open>where a round leaves the lane \<open>i\<close> if it finds every lane at its number\<close>
  "place i = (let x = i mod 5; y = i div 5 in x + 5 * ((x + 2 * y) mod 5))"

fun places :: "nat \<Rightarrow> nat list" where
  "places 0 = [0..<25]"
| "places (Suc k) = map (\<lambda>i. places k ! place i) [0..<25]"

definition view :: "nat \<Rightarrow> lane list \<Rightarrow> lane list" where
  "view k state = map (\<lambda>i. state ! i) (places k)"

lemma places_eq:
  "places 0 = [0, 1, 2, 3, 4, 5, 6, 7, 8, 9, 10, 11, 12, 13, 14, 15, 16, 17, 18, 19, 20, 21, 22, 23, 24]"
  "places (Suc 0) = [0, 6, 12, 18, 24, 10, 16, 22, 3, 9, 20, 1, 7, 13, 19, 5, 11, 17, 23, 4, 15, 21, 2, 8, 14]"
  "places (Suc (Suc 0)) = [0, 16, 7, 23, 14, 20, 11, 2, 18, 9, 15, 6, 22, 13, 4, 10, 1, 17, 8, 24, 5, 21, 12, 3, 19]"
  "places (Suc (Suc (Suc 0))) = [0, 11, 22, 8, 19, 15, 1, 12, 23, 9, 5, 16, 2, 13, 24, 20, 6, 17, 3, 14, 10, 21, 7, 18, 4]"
  "places (Suc (Suc (Suc (Suc 0)))) = [0, 1, 2, 3, 4, 5, 6, 7, 8, 9, 10, 11, 12, 13, 14, 15, 16, 17, 18, 19, 20, 21, 22, 23, 24]"
proof -
  show p0: "places 0 = [0, 1, 2, 3, 4, 5, 6, 7, 8, 9, 10, 11, 12, 13, 14, 15, 16, 17, 18, 19, 20, 21, 22, 23, 24]"
    by (simp add: upt_25 place_def)
  show p1: "places (Suc 0) = [0, 6, 12, 18, 24, 10, 16, 22, 3, 9, 20, 1, 7, 13, 19, 5, 11, 17, 23, 4, 15, 21, 2, 8, 14]"
    by (simp add: p0 upt_25 place_def)
  show p2: "places (Suc (Suc 0)) = [0, 16, 7, 23, 14, 20, 11, 2, 18, 9, 15, 6, 22, 13, 4, 10, 1, 17, 8, 24, 5, 21, 12, 3, 19]"
    by (simp add: p1 upt_25 place_def)
  show p3: "places (Suc (Suc (Suc 0))) = [0, 11, 22, 8, 19, 15, 1, 12, 23, 9, 5, 16, 2, 13, 24, 20, 6, 17, 3, 14, 10, 21, 7, 18, 4]"
    by (simp add: p2 upt_25 place_def)
  show p4: "places (Suc (Suc (Suc (Suc 0)))) = [0, 1, 2, 3, 4, 5, 6, 7, 8, 9, 10, 11, 12, 13, 14, 15, 16, 17, 18, 19, 20, 21, 22, 23, 24]"
    by (simp add: p3 upt_25 place_def)
qed

lemma view_id: "length state = 25 \<Longrightarrow> view 0 state = state" "length state = 25 \<Longrightarrow> view (Suc (Suc (Suc (Suc 0)))) state = state"
  using map_nth [of state] by (simp_all only: view_def places_eq upt_25 [symmetric])

lemma view_list:
  "view (Suc 0) [a0, a1, a2, a3, a4, a5, a6, a7, a8, a9, a10, a11, a12, a13, a14, a15, a16, a17, a18, a19, a20, a21, a22, a23, a24] = [a0, a6, a12, a18, a24, a10, a16, a22, a3, a9, a20, a1, a7, a13, a19, a5, a11, a17, a23, a4, a15, a21, a2, a8, a14]"
  "view (Suc (Suc 0)) [a0, a1, a2, a3, a4, a5, a6, a7, a8, a9, a10, a11, a12, a13, a14, a15, a16, a17, a18, a19, a20, a21, a22, a23, a24] = [a0, a16, a7, a23, a14, a20, a11, a2, a18, a9, a15, a6, a22, a13, a4, a10, a1, a17, a8, a24, a5, a21, a12, a3, a19]"
  "view (Suc (Suc (Suc 0))) [a0, a1, a2, a3, a4, a5, a6, a7, a8, a9, a10, a11, a12, a13, a14, a15, a16, a17, a18, a19, a20, a21, a22, a23, a24] = [a0, a11, a22, a8, a19, a15, a1, a12, a23, a9, a5, a16, a2, a13, a24, a20, a6, a17, a3, a14, a10, a21, a7, a18, a4]"
  "view (Suc (Suc (Suc (Suc 0)))) [a0, a1, a2, a3, a4, a5, a6, a7, a8, a9, a10, a11, a12, a13, a14, a15, a16, a17, a18, a19, a20, a21, a22, a23, a24] = [a0, a1, a2, a3, a4, a5, a6, a7, a8, a9, a10, a11, a12, a13, a14, a15, a16, a17, a18, a19, a20, a21, a22, a23, a24]"
  unfolding view_def places_eq by simp_all

lemma view_nth:
  "view 0 state = [state ! 0, state ! 1, state ! 2, state ! 3, state ! 4, state ! 5, state ! 6, state ! 7, state ! 8, state ! 9, state ! 10, state ! 11, state ! 12, state ! 13, state ! 14, state ! 15, state ! 16, state ! 17, state ! 18, state ! 19, state ! 20, state ! 21, state ! 22, state ! 23, state ! 24]"
  "view (Suc 0) state = [state ! 0, state ! 6, state ! 12, state ! 18, state ! 24, state ! 10, state ! 16, state ! 22, state ! 3, state ! 9, state ! 20, state ! 1, state ! 7, state ! 13, state ! 19, state ! 5, state ! 11, state ! 17, state ! 23, state ! 4, state ! 15, state ! 21, state ! 2, state ! 8, state ! 14]"
  "view (Suc (Suc 0)) state = [state ! 0, state ! 16, state ! 7, state ! 23, state ! 14, state ! 20, state ! 11, state ! 2, state ! 18, state ! 9, state ! 15, state ! 6, state ! 22, state ! 13, state ! 4, state ! 10, state ! 1, state ! 17, state ! 8, state ! 24, state ! 5, state ! 21, state ! 12, state ! 3, state ! 19]"
  "view (Suc (Suc (Suc 0))) state = [state ! 0, state ! 11, state ! 22, state ! 8, state ! 19, state ! 15, state ! 1, state ! 12, state ! 23, state ! 9, state ! 5, state ! 16, state ! 2, state ! 13, state ! 24, state ! 20, state ! 6, state ! 17, state ! 3, state ! 14, state ! 10, state ! 21, state ! 7, state ! 18, state ! 4]"
  unfolding view_def places_eq by simp_all

lemma nth_list_25:
  "[a0, a1, a2, a3, a4, a5, a6, a7, a8, a9, a10, a11, a12, a13, a14, a15, a16, a17, a18, a19, a20, a21, a22, a23, a24] ! 0 = a0"
  "[a0, a1, a2, a3, a4, a5, a6, a7, a8, a9, a10, a11, a12, a13, a14, a15, a16, a17, a18, a19, a20, a21, a22, a23, a24] ! 1 = a1"
  "[a0, a1, a2, a3, a4, a5, a6, a7, a8, a9, a10, a11, a12, a13, a14, a15, a16, a17, a18, a19, a20, a21, a22, a23, a24] ! 2 = a2"
  "[a0, a1, a2, a3, a4, a5, a6, a7, a8, a9, a10, a11, a12, a13, a14, a15, a16, a17, a18, a19, a20, a21, a22, a23, a24] ! 3 = a3"
  "[a0, a1, a2, a3, a4, a5, a6, a7, a8, a9, a10, a11, a12, a13, a14, a15, a16, a17, a18, a19, a20, a21, a22, a23, a24] ! 4 = a4"
  "[a0, a1, a2, a3, a4, a5, a6, a7, a8, a9, a10, a11, a12, a13, a14, a15, a16, a17, a18, a19, a20, a21, a22, a23, a24] ! 5 = a5"
  "[a0, a1, a2, a3, a4, a5, a6, a7, a8, a9, a10, a11, a12, a13, a14, a15, a16, a17, a18, a19, a20, a21, a22, a23, a24] ! 6 = a6"
  "[a0, a1, a2, a3, a4, a5, a6, a7, a8, a9, a10, a11, a12, a13, a14, a15, a16, a17, a18, a19, a20, a21, a22, a23, a24] ! 7 = a7"
  "[a0, a1, a2, a3, a4, a5, a6, a7, a8, a9, a10, a11, a12, a13, a14, a15, a16, a17, a18, a19, a20, a21, a22, a23, a24] ! 8 = a8"
  "[a0, a1, a2, a3, a4, a5, a6, a7, a8, a9, a10, a11, a12, a13, a14, a15, a16, a17, a18, a19, a20, a21, a22, a23, a24] ! 9 = a9"
  "[a0, a1, a2, a3, a4, a5, a6, a7, a8, a9, a10, a11, a12, a13, a14, a15, a16, a17, a18, a19, a20, a21, a22, a23, a24] ! 10 = a10"
  "[a0, a1, a2, a3, a4, a5, a6, a7, a8, a9, a10, a11, a12, a13, a14, a15, a16, a17, a18, a19, a20, a21, a22, a23, a24] ! 11 = a11"
  "[a0, a1, a2, a3, a4, a5, a6, a7, a8, a9, a10, a11, a12, a13, a14, a15, a16, a17, a18, a19, a20, a21, a22, a23, a24] ! 12 = a12"
  "[a0, a1, a2, a3, a4, a5, a6, a7, a8, a9, a10, a11, a12, a13, a14, a15, a16, a17, a18, a19, a20, a21, a22, a23, a24] ! 13 = a13"
  "[a0, a1, a2, a3, a4, a5, a6, a7, a8, a9, a10, a11, a12, a13, a14, a15, a16, a17, a18, a19, a20, a21, a22, a23, a24] ! 14 = a14"
  "[a0, a1, a2, a3, a4, a5, a6, a7, a8, a9, a10, a11, a12, a13, a14, a15, a16, a17, a18, a19, a20, a21, a22, a23, a24] ! 15 = a15"
  "[a0, a1, a2, a3, a4, a5, a6, a7, a8, a9, a10, a11, a12, a13, a14, a15, a16, a17, a18, a19, a20, a21, a22, a23, a24] ! 16 = a16"
  "[a0, a1, a2, a3, a4, a5, a6, a7, a8, a9, a10, a11, a12, a13, a14, a15, a16, a17, a18, a19, a20, a21, a22, a23, a24] ! 17 = a17"
  "[a0, a1, a2, a3, a4, a5, a6, a7, a8, a9, a10, a11, a12, a13, a14, a15, a16, a17, a18, a19, a20, a21, a22, a23, a24] ! 18 = a18"
  "[a0, a1, a2, a3, a4, a5, a6, a7, a8, a9, a10, a11, a12, a13, a14, a15, a16, a17, a18, a19, a20, a21, a22, a23, a24] ! 19 = a19"
  "[a0, a1, a2, a3, a4, a5, a6, a7, a8, a9, a10, a11, a12, a13, a14, a15, a16, a17, a18, a19, a20, a21, a22, a23, a24] ! 20 = a20"
  "[a0, a1, a2, a3, a4, a5, a6, a7, a8, a9, a10, a11, a12, a13, a14, a15, a16, a17, a18, a19, a20, a21, a22, a23, a24] ! 21 = a21"
  "[a0, a1, a2, a3, a4, a5, a6, a7, a8, a9, a10, a11, a12, a13, a14, a15, a16, a17, a18, a19, a20, a21, a22, a23, a24] ! 22 = a22"
  "[a0, a1, a2, a3, a4, a5, a6, a7, a8, a9, a10, a11, a12, a13, a14, a15, a16, a17, a18, a19, a20, a21, a22, a23, a24] ! 23 = a23"
  "[a0, a1, a2, a3, a4, a5, a6, a7, a8, a9, a10, a11, a12, a13, a14, a15, a16, a17, a18, a19, a20, a21, a22, a23, a24] ! 24 = a24"
  by simp_all

text \<open>Every round of the pass is a round of the standard, seen through the places of its lanes.\<close>

lemma inplace_round_0_view: "view (Suc 0) (inplace_round_0 rc state) = keccak_round rc (view 0 state)"
  unfolding simple_round_AE_is_round [symmetric] inplace_round_0_def simple_round_AE_def
    view_nth(1) [of state] nth_list_25
  by (simp only: Let_def view_list xor.assoc)

lemma inplace_round_1_view: "view (Suc (Suc 0)) (inplace_round_1 rc state) = keccak_round rc (view (Suc 0) state)"
  unfolding simple_round_AE_is_round [symmetric] inplace_round_1_def simple_round_AE_def
    view_nth(2) [of state] nth_list_25
  by (simp only: Let_def view_list xor.assoc)

lemma inplace_round_2_view: "view (Suc (Suc (Suc 0))) (inplace_round_2 rc state) = keccak_round rc (view (Suc (Suc 0)) state)"
  unfolding simple_round_AE_is_round [symmetric] inplace_round_2_def simple_round_AE_def
    view_nth(3) [of state] nth_list_25
  by (simp only: Let_def view_list xor.assoc)

lemma inplace_round_3_view: "view (Suc (Suc (Suc (Suc 0)))) (inplace_round_3 rc state) = keccak_round rc (view (Suc (Suc (Suc 0))) state)"
  unfolding simple_round_AE_is_round [symmetric] inplace_round_3_def simple_round_AE_def
    view_nth(4) [of state] nth_list_25
  by (simp only: Let_def view_list xor.assoc)

lemma length_inplace_round_3: "length (inplace_round_3 rc state) = 25"
  by (simp add: inplace_round_3_def Let_def)

lemma inplace_pass_is_four_rounds:
  assumes "length state = 25" and "i + 3 < 24"
  shows "inplace_pass state i = foldl (\<lambda>state r. keccak_round (standard_constant r) state) state
    [i, i + 1, i + 2, i + 3]"
proof -
  have "inplace_pass state i = view (Suc (Suc (Suc (Suc 0)))) (inplace_pass state i)"
    by (rule view_id(2) [symmetric]) (simp add: inplace_pass_def length_inplace_round_3)
  also have "\<dots> = foldl (\<lambda>state r. keccak_round (KeccakF_RoundConstants ! r) state) (view 0 state)
      [i, i + 1, i + 2, i + 3]"
    unfolding inplace_pass_def inplace_round_3_view inplace_round_2_view inplace_round_1_view
      inplace_round_0_view by simp
  finally show ?thesis using assms by (simp add: view_id(1) constant_at)
qed

lemma inplace_passes:
  assumes "length state = 25" and "n \<le> 6"
  shows "foldl inplace_pass state (map (\<lambda>k. 4 * k) [0..<n])
    = foldl (\<lambda>state r. keccak_round (standard_constant r) state) state [0..<4 * n]"
  using assms(2)
proof (induction n)
  case (Suc n)
  have "[0..<4 * Suc n] = [0..<4 * n] @ [4 * n, 4 * n + 1, 4 * n + 2, 4 * n + 3]"
    by (simp add: numeral_eq_Suc)
  with Suc length_keccak_rounds [OF assms(1), of "[0..<4 * n]"] inplace_pass_is_four_rounds
  show ?case by simp
qed simp

text \<open>
  C10: Keccak-simple, Keccak-compact and Keccak-inplace compute the same function: the input lanes are
  added to the state, and the result is the permutation of the standard, its rotations numbered by
  the walk over the coordinates and its constants read from the shift register.
\<close>
theorem programs_compute_keccak_f:
  assumes "length state = 25" and "laneCount \<le> 25" and "laneCount \<le> length in_lanes"
  shows "simple_KeccakF state in_lanes laneCount = Ret (keccak_f (add_input state in_lanes laneCount))
    \<and> compact_KeccakF state in_lanes laneCount = Ret (keccak_f (add_input state in_lanes laneCount))
    \<and> inplace_KeccakF state in_lanes laneCount = Ret (keccak_f (add_input state in_lanes laneCount))"
proof -
  have len: "length (add_input state in_lanes laneCount) = 25" by (simp add: add_input_def)
  show ?thesis
    using inplace_passes [OF len, of 6] xor_lanes_result [OF assms] simple_and_compact_keccak_f [OF assms]
    by (simp add: inplace_KeccakF_def keccak_f_def del: upt_Suc)
qed

theorem programs_compute_keccak_f_witness:
  "simple_KeccakF (replicate 25 0) [1, 2] 2 = Ret (keccak_f (add_input (replicate 25 0) [1, 2] 2))
    \<and> compact_KeccakF (replicate 25 0) [1, 2] 2 = Ret (keccak_f (add_input (replicate 25 0) [1, 2] 2))
    \<and> inplace_KeccakF (replicate 25 0) [1, 2] 2 = Ret (keccak_f (add_input (replicate 25 0) [1, 2] 2))"
  by (rule programs_compute_keccak_f) simp_all

end
