(* ===== verification/Keccak_Opt64.thy ===== *)
theory Keccak_Opt64
  imports Keccak_F Boundary
begin

text \<open>
  The permutation of \<^verbatim>\<open>lib/sha_three/KeccakF-1600-opt64.c\<close> with its macros in
  \<^verbatim>\<open>KeccakF-1600-64.macros\<close> and \<^verbatim>\<open>KeccakF-1600-unrolling.macros\<close>, in the settings of the repository:
  24 rounds unrolled, and six lanes kept complemented, which saves complements in every round. The
  functions on bytes and the record of all functions of the interface follow. The state of the
  program is the complement of the standard's in those lanes.
\<close>

unbundle bit_operations_syntax

section \<open>One round on lanes that are partly complemented\<close>

definition prepareTheta :: "lane list \<Rightarrow> lane list" where
  "prepareTheta state =
     (let Aba = state ! 0; Abe = state ! 1; Abi = state ! 2; Abo = state ! 3; Abu = state ! 4;
          Aga = state ! 5; Age = state ! 6; Agi = state ! 7; Ago = state ! 8; Agu = state ! 9;
          Aka = state ! 10; Ake = state ! 11; Aki = state ! 12; Ako = state ! 13; Aku = state ! 14;
          Ama = state ! 15; Ame = state ! 16; Ami = state ! 17; Amo = state ! 18; Amu = state ! 19;
          Asa = state ! 20; Ase = state ! 21; Asi = state ! 22; Aso = state ! 23; Asu = state ! 24;
          Ca = Aba XOR Aga XOR Aka XOR Ama XOR Asa; Ce = Abe XOR Age XOR Ake XOR Ame XOR Ase;
          Ci = Abi XOR Agi XOR Aki XOR Ami XOR Asi; Co = Abo XOR Ago XOR Ako XOR Amo XOR Aso;
          Cu = Abu XOR Agu XOR Aku XOR Amu XOR Asu
      in [Ca, Ce, Ci, Co, Cu])"

definition thetaRhoPiChiIotaPrepareTheta :: "lane \<Rightarrow> lane list \<Rightarrow> lane list \<Rightarrow> lane list \<times> lane list" where
  "thetaRhoPiChiIotaPrepareTheta rc state cs =
     (let Aba = state ! 0; Abe = state ! 1; Abi = state ! 2; Abo = state ! 3; Abu = state ! 4;
          Aga = state ! 5; Age = state ! 6; Agi = state ! 7; Ago = state ! 8; Agu = state ! 9;
          Aka = state ! 10; Ake = state ! 11; Aki = state ! 12; Ako = state ! 13; Aku = state ! 14;
          Ama = state ! 15; Ame = state ! 16; Ami = state ! 17; Amo = state ! 18; Amu = state ! 19;
          Asa = state ! 20; Ase = state ! 21; Asi = state ! 22; Aso = state ! 23; Asu = state ! 24;
          Ca = cs ! 0; Ce = cs ! 1; Ci = cs ! 2; Co = cs ! 3; Cu = cs ! 4;
          Da = Cu XOR ROL Ce 1; De = Ca XOR ROL Ci 1; Di = Ce XOR ROL Co 1; Do = Ci XOR ROL Cu 1;
          Du = Co XOR ROL Ca 1; Aba = Aba XOR Da; Bba = Aba; Age = Age XOR De; Bbe = ROL Age 44;
          Aki = Aki XOR Di; Bbi = ROL Aki 43; Amo = Amo XOR Do; Bbo = ROL Amo 21; Asu = Asu XOR Du;
          Bbu = ROL Asu 14; Eba = Bba XOR (Bbe OR Bbi); Eba = Eba XOR rc; Ca = Eba;
          Ebe = Bbe XOR (NOT Bbi OR Bbo); Ce = Ebe; Ebi = Bbi XOR (Bbo AND Bbu); Ci = Ebi;
          Ebo = Bbo XOR (Bbu OR Bba); Co = Ebo; Ebu = Bbu XOR (Bba AND Bbe); Cu = Ebu;
          Abo = Abo XOR Do; Bga = ROL Abo 28; Agu = Agu XOR Du; Bge = ROL Agu 20; Aka = Aka XOR Da;
          Bgi = ROL Aka 3; Ame = Ame XOR De; Bgo = ROL Ame 45; Asi = Asi XOR Di; Bgu = ROL Asi 61;
          Ega = Bga XOR (Bge OR Bgi); Ca = Ca XOR Ega; Ege = Bge XOR (Bgi AND Bgo); Ce = Ce XOR Ege;
          Egi = Bgi XOR (Bgo OR NOT Bgu); Ci = Ci XOR Egi; Ego = Bgo XOR (Bgu OR Bga); Co = Co XOR Ego;
          Egu = Bgu XOR (Bga AND Bge); Cu = Cu XOR Egu; Abe = Abe XOR De; Bka = ROL Abe 1;
          Agi = Agi XOR Di; Bke = ROL Agi 6; Ako = Ako XOR Do; Bki = ROL Ako 25; Amu = Amu XOR Du;
          Bko = ROL Amu 8; Asa = Asa XOR Da; Bku = ROL Asa 18; Eka = Bka XOR (Bke OR Bki);
          Ca = Ca XOR Eka; Eke = Bke XOR (Bki AND Bko); Ce = Ce XOR Eke;
          Eki = Bki XOR (NOT Bko AND Bku); Ci = Ci XOR Eki; Eko = NOT Bko XOR (Bku OR Bka);
          Co = Co XOR Eko; Eku = Bku XOR (Bka AND Bke); Cu = Cu XOR Eku; Abu = Abu XOR Du;
          Bma = ROL Abu 27; Aga = Aga XOR Da; Bme = ROL Aga 36; Ake = Ake XOR De; Bmi = ROL Ake 10;
          Ami = Ami XOR Di; Bmo = ROL Ami 15; Aso = Aso XOR Do; Bmu = ROL Aso 56;
          Ema = Bma XOR (Bme AND Bmi); Ca = Ca XOR Ema; Eme = Bme XOR (Bmi OR Bmo); Ce = Ce XOR Eme;
          Emi = Bmi XOR (NOT Bmo OR Bmu); Ci = Ci XOR Emi; Emo = NOT Bmo XOR (Bmu AND Bma);
          Co = Co XOR Emo; Emu = Bmu XOR (Bma OR Bme); Cu = Cu XOR Emu; Abi = Abi XOR Di;
          Bsa = ROL Abi 62; Ago = Ago XOR Do; Bse = ROL Ago 55; Aku = Aku XOR Du; Bsi = ROL Aku 39;
          Ama = Ama XOR Da; Bso = ROL Ama 41; Ase = Ase XOR De; Bsu = ROL Ase 2;
          Esa = Bsa XOR (NOT Bse AND Bsi); Ca = Ca XOR Esa; Ese = NOT Bse XOR (Bsi OR Bso);
          Ce = Ce XOR Ese; Esi = Bsi XOR (Bso AND Bsu); Ci = Ci XOR Esi; Eso = Bso XOR (Bsu OR Bsa);
          Co = Co XOR Eso; Esu = Bsu XOR (Bsa AND Bse); Cu = Cu XOR Esu
      in ([Eba, Ebe, Ebi, Ebo, Ebu,
          Ega, Ege, Egi, Ego, Egu,
          Eka, Eke, Eki, Eko, Eku,
          Ema, Eme, Emi, Emo, Emu,
          Esa, Ese, Esi, Eso, Esu],
          [Ca, Ce, Ci, Co, Cu]))"

definition thetaRhoPiChiIota :: "lane \<Rightarrow> lane list \<Rightarrow> lane list \<Rightarrow> lane list" where
  "thetaRhoPiChiIota rc state cs =
     (let Aba = state ! 0; Abe = state ! 1; Abi = state ! 2; Abo = state ! 3; Abu = state ! 4;
          Aga = state ! 5; Age = state ! 6; Agi = state ! 7; Ago = state ! 8; Agu = state ! 9;
          Aka = state ! 10; Ake = state ! 11; Aki = state ! 12; Ako = state ! 13; Aku = state ! 14;
          Ama = state ! 15; Ame = state ! 16; Ami = state ! 17; Amo = state ! 18; Amu = state ! 19;
          Asa = state ! 20; Ase = state ! 21; Asi = state ! 22; Aso = state ! 23; Asu = state ! 24;
          Ca = cs ! 0; Ce = cs ! 1; Ci = cs ! 2; Co = cs ! 3; Cu = cs ! 4;
          Da = Cu XOR ROL Ce 1; De = Ca XOR ROL Ci 1; Di = Ce XOR ROL Co 1; Do = Ci XOR ROL Cu 1;
          Du = Co XOR ROL Ca 1; Aba = Aba XOR Da; Bba = Aba; Age = Age XOR De; Bbe = ROL Age 44;
          Aki = Aki XOR Di; Bbi = ROL Aki 43; Amo = Amo XOR Do; Bbo = ROL Amo 21; Asu = Asu XOR Du;
          Bbu = ROL Asu 14; Eba = Bba XOR (Bbe OR Bbi); Eba = Eba XOR rc;
          Ebe = Bbe XOR (NOT Bbi OR Bbo); Ebi = Bbi XOR (Bbo AND Bbu); Ebo = Bbo XOR (Bbu OR Bba);
          Ebu = Bbu XOR (Bba AND Bbe); Abo = Abo XOR Do; Bga = ROL Abo 28; Agu = Agu XOR Du;
          Bge = ROL Agu 20; Aka = Aka XOR Da; Bgi = ROL Aka 3; Ame = Ame XOR De; Bgo = ROL Ame 45;
          Asi = Asi XOR Di; Bgu = ROL Asi 61; Ega = Bga XOR (Bge OR Bgi); Ege = Bge XOR (Bgi AND Bgo);
          Egi = Bgi XOR (Bgo OR NOT Bgu); Ego = Bgo XOR (Bgu OR Bga); Egu = Bgu XOR (Bga AND Bge);
          Abe = Abe XOR De; Bka = ROL Abe 1; Agi = Agi XOR Di; Bke = ROL Agi 6; Ako = Ako XOR Do;
          Bki = ROL Ako 25; Amu = Amu XOR Du; Bko = ROL Amu 8; Asa = Asa XOR Da; Bku = ROL Asa 18;
          Eka = Bka XOR (Bke OR Bki); Eke = Bke XOR (Bki AND Bko); Eki = Bki XOR (NOT Bko AND Bku);
          Eko = NOT Bko XOR (Bku OR Bka); Eku = Bku XOR (Bka AND Bke); Abu = Abu XOR Du;
          Bma = ROL Abu 27; Aga = Aga XOR Da; Bme = ROL Aga 36; Ake = Ake XOR De; Bmi = ROL Ake 10;
          Ami = Ami XOR Di; Bmo = ROL Ami 15; Aso = Aso XOR Do; Bmu = ROL Aso 56;
          Ema = Bma XOR (Bme AND Bmi); Eme = Bme XOR (Bmi OR Bmo); Emi = Bmi XOR (NOT Bmo OR Bmu);
          Emo = NOT Bmo XOR (Bmu AND Bma); Emu = Bmu XOR (Bma OR Bme); Abi = Abi XOR Di;
          Bsa = ROL Abi 62; Ago = Ago XOR Do; Bse = ROL Ago 55; Aku = Aku XOR Du; Bsi = ROL Aku 39;
          Ama = Ama XOR Da; Bso = ROL Ama 41; Ase = Ase XOR De; Bsu = ROL Ase 2;
          Esa = Bsa XOR (NOT Bse AND Bsi); Ese = NOT Bse XOR (Bsi OR Bso); Esi = Bsi XOR (Bso AND Bsu);
          Eso = Bso XOR (Bsu OR Bsa); Esu = Bsu XOR (Bsa AND Bse)
      in [Eba, Ebe, Ebi, Ebo, Ebu,
          Ega, Ege, Egi, Ego, Egu,
          Eka, Eke, Eki, Eko, Eku,
          Ema, Eme, Emi, Emo, Emu,
          Esa, Ese, Esi, Eso, Esu])"

definition copyFromStateAndXor576bits :: "lane list \<Rightarrow> lane list \<Rightarrow> lane list" where
  "copyFromStateAndXor576bits state input =
     [state ! 0 XOR input ! 0, state ! 1 XOR input ! 1, state ! 2 XOR input ! 2, state ! 3 XOR input ! 3,
      state ! 4 XOR input ! 4, state ! 5 XOR input ! 5, state ! 6 XOR input ! 6, state ! 7 XOR input ! 7,
      state ! 8 XOR input ! 8, state ! 9, state ! 10, state ! 11,
      state ! 12, state ! 13, state ! 14, state ! 15,
      state ! 16, state ! 17, state ! 18, state ! 19,
      state ! 20, state ! 21, state ! 22, state ! 23,
      state ! 24]"

definition copyFromStateAndXor832bits :: "lane list \<Rightarrow> lane list \<Rightarrow> lane list" where
  "copyFromStateAndXor832bits state input =
     [state ! 0 XOR input ! 0, state ! 1 XOR input ! 1, state ! 2 XOR input ! 2, state ! 3 XOR input ! 3,
      state ! 4 XOR input ! 4, state ! 5 XOR input ! 5, state ! 6 XOR input ! 6, state ! 7 XOR input ! 7,
      state ! 8 XOR input ! 8, state ! 9 XOR input ! 9, state ! 10 XOR input ! 10, state ! 11 XOR input ! 11,
      state ! 12 XOR input ! 12, state ! 13, state ! 14, state ! 15,
      state ! 16, state ! 17, state ! 18, state ! 19,
      state ! 20, state ! 21, state ! 22, state ! 23,
      state ! 24]"

definition copyFromStateAndXor1024bits :: "lane list \<Rightarrow> lane list \<Rightarrow> lane list" where
  "copyFromStateAndXor1024bits state input =
     [state ! 0 XOR input ! 0, state ! 1 XOR input ! 1, state ! 2 XOR input ! 2, state ! 3 XOR input ! 3,
      state ! 4 XOR input ! 4, state ! 5 XOR input ! 5, state ! 6 XOR input ! 6, state ! 7 XOR input ! 7,
      state ! 8 XOR input ! 8, state ! 9 XOR input ! 9, state ! 10 XOR input ! 10, state ! 11 XOR input ! 11,
      state ! 12 XOR input ! 12, state ! 13 XOR input ! 13, state ! 14 XOR input ! 14, state ! 15 XOR input ! 15,
      state ! 16, state ! 17, state ! 18, state ! 19,
      state ! 20, state ! 21, state ! 22, state ! 23,
      state ! 24]"

definition copyFromStateAndXor1088bits :: "lane list \<Rightarrow> lane list \<Rightarrow> lane list" where
  "copyFromStateAndXor1088bits state input =
     [state ! 0 XOR input ! 0, state ! 1 XOR input ! 1, state ! 2 XOR input ! 2, state ! 3 XOR input ! 3,
      state ! 4 XOR input ! 4, state ! 5 XOR input ! 5, state ! 6 XOR input ! 6, state ! 7 XOR input ! 7,
      state ! 8 XOR input ! 8, state ! 9 XOR input ! 9, state ! 10 XOR input ! 10, state ! 11 XOR input ! 11,
      state ! 12 XOR input ! 12, state ! 13 XOR input ! 13, state ! 14 XOR input ! 14, state ! 15 XOR input ! 15,
      state ! 16 XOR input ! 16, state ! 17, state ! 18, state ! 19,
      state ! 20, state ! 21, state ! 22, state ! 23,
      state ! 24]"

definition copyFromStateAndXor1152bits :: "lane list \<Rightarrow> lane list \<Rightarrow> lane list" where
  "copyFromStateAndXor1152bits state input =
     [state ! 0 XOR input ! 0, state ! 1 XOR input ! 1, state ! 2 XOR input ! 2, state ! 3 XOR input ! 3,
      state ! 4 XOR input ! 4, state ! 5 XOR input ! 5, state ! 6 XOR input ! 6, state ! 7 XOR input ! 7,
      state ! 8 XOR input ! 8, state ! 9 XOR input ! 9, state ! 10 XOR input ! 10, state ! 11 XOR input ! 11,
      state ! 12 XOR input ! 12, state ! 13 XOR input ! 13, state ! 14 XOR input ! 14, state ! 15 XOR input ! 15,
      state ! 16 XOR input ! 16, state ! 17 XOR input ! 17, state ! 18, state ! 19,
      state ! 20, state ! 21, state ! 22, state ! 23,
      state ! 24]"

definition copyFromStateAndXor1344bits :: "lane list \<Rightarrow> lane list \<Rightarrow> lane list" where
  "copyFromStateAndXor1344bits state input =
     [state ! 0 XOR input ! 0, state ! 1 XOR input ! 1, state ! 2 XOR input ! 2, state ! 3 XOR input ! 3,
      state ! 4 XOR input ! 4, state ! 5 XOR input ! 5, state ! 6 XOR input ! 6, state ! 7 XOR input ! 7,
      state ! 8 XOR input ! 8, state ! 9 XOR input ! 9, state ! 10 XOR input ! 10, state ! 11 XOR input ! 11,
      state ! 12 XOR input ! 12, state ! 13 XOR input ! 13, state ! 14 XOR input ! 14, state ! 15 XOR input ! 15,
      state ! 16 XOR input ! 16, state ! 17 XOR input ! 17, state ! 18 XOR input ! 18, state ! 19 XOR input ! 19,
      state ! 20 XOR input ! 20, state ! 21, state ! 22, state ! 23,
      state ! 24]"

section \<open>The permutation\<close>

definition opt_rounds :: "lane list \<Rightarrow> lane list" where
  "opt_rounds state =
     (case foldl (\<lambda>(state, cs) i. thetaRhoPiChiIotaPrepareTheta (KeccakF_RoundConstants ! i) state cs)
         (state, prepareTheta state) [0..<23] of
        (state, cs) \<Rightarrow> thetaRhoPiChiIota (KeccakF_RoundConstants ! 23) state cs)"

definition KeccakPermutationOnWords :: "lane list \<Rightarrow> lane list" where
  "KeccakPermutationOnWords state = opt_rounds state"

fun xor_each :: "lane list \<Rightarrow> lane list \<Rightarrow> nat list \<Rightarrow> lane list outcome" where
  "xor_each state input [] = Ret state"
| "xor_each state input (j # js) =
     obind (peek state j) (\<lambda>s.
     obind (peek input j) (\<lambda>i.
     obind (poke state j (s XOR i)) (\<lambda>state. xor_each state input js)))"

definition KeccakPermutationOnWordsAfterXoring :: "lane list \<Rightarrow> lane list \<Rightarrow> nat \<Rightarrow> lane list outcome" where
  "KeccakPermutationOnWordsAfterXoring state input laneCount =
     obind (xor_each state input [0..<laneCount]) (\<lambda>state. Ret (opt_rounds state))"

definition KeccakPermutationOnWordsAfterXoring576bits :: "lane list \<Rightarrow> lane list \<Rightarrow> lane list" where
  "KeccakPermutationOnWordsAfterXoring576bits state input = opt_rounds (copyFromStateAndXor576bits state input)"

definition KeccakPermutationOnWordsAfterXoring832bits :: "lane list \<Rightarrow> lane list \<Rightarrow> lane list" where
  "KeccakPermutationOnWordsAfterXoring832bits state input = opt_rounds (copyFromStateAndXor832bits state input)"

definition KeccakPermutationOnWordsAfterXoring1024bits :: "lane list \<Rightarrow> lane list \<Rightarrow> lane list" where
  "KeccakPermutationOnWordsAfterXoring1024bits state input = opt_rounds (copyFromStateAndXor1024bits state input)"

definition KeccakPermutationOnWordsAfterXoring1088bits :: "lane list \<Rightarrow> lane list \<Rightarrow> lane list" where
  "KeccakPermutationOnWordsAfterXoring1088bits state input = opt_rounds (copyFromStateAndXor1088bits state input)"

definition KeccakPermutationOnWordsAfterXoring1152bits :: "lane list \<Rightarrow> lane list \<Rightarrow> lane list" where
  "KeccakPermutationOnWordsAfterXoring1152bits state input = opt_rounds (copyFromStateAndXor1152bits state input)"

definition KeccakPermutationOnWordsAfterXoring1344bits :: "lane list \<Rightarrow> lane list \<Rightarrow> lane list" where
  "KeccakPermutationOnWordsAfterXoring1344bits state input = opt_rounds (copyFromStateAndXor1344bits state input)"

section \<open>Bytes\<close>

definition KeccakInitializeState :: "lane list" where
  "KeccakInitializeState =
     (replicate 25 0)[1 := NOT 0, 2 := NOT 0, 8 := NOT 0, 12 := NOT 0, 17 := NOT 0, 20 := NOT 0]"

definition KeccakPermutation :: "lane list \<Rightarrow> lane list" where
  "KeccakPermutation state = KeccakPermutationOnWords state"

definition fromBytesToWord :: "byte list \<Rightarrow> lane" where
  "fromBytesToWord bytes = foldl (\<lambda>w i. w OR push_bit (8 * i) (ucast (bytes ! i))) 0 [0..<8]"

definition fromWordToBytes :: "lane \<Rightarrow> byte list" where
  "fromWordToBytes w = map (\<lambda>i. ucast (drop_bit (8 * i) w AND 0xFF)) [0..<8]"

definition data_words :: "byte list \<Rightarrow> nat \<Rightarrow> lane list outcome" where
  "data_words data n =
     (if 8 * n \<le> length data then Ret (map (\<lambda>i. fromBytesToWord (take 8 (drop (8 * i) data))) [0..<n]) else Crash)"

definition KeccakAbsorb576bits :: "lane list \<Rightarrow> byte list \<Rightarrow> lane list outcome" where
  "KeccakAbsorb576bits state data =
     obind (data_words data 9) (\<lambda>w. Ret (KeccakPermutationOnWordsAfterXoring576bits state w))"

definition KeccakAbsorb832bits :: "lane list \<Rightarrow> byte list \<Rightarrow> lane list outcome" where
  "KeccakAbsorb832bits state data =
     obind (data_words data 13) (\<lambda>w. Ret (KeccakPermutationOnWordsAfterXoring832bits state w))"

definition KeccakAbsorb1024bits :: "lane list \<Rightarrow> byte list \<Rightarrow> lane list outcome" where
  "KeccakAbsorb1024bits state data =
     obind (data_words data 16) (\<lambda>w. Ret (KeccakPermutationOnWordsAfterXoring1024bits state w))"

definition KeccakAbsorb1088bits :: "lane list \<Rightarrow> byte list \<Rightarrow> lane list outcome" where
  "KeccakAbsorb1088bits state data =
     obind (data_words data 17) (\<lambda>w. Ret (KeccakPermutationOnWordsAfterXoring1088bits state w))"

definition KeccakAbsorb1152bits :: "lane list \<Rightarrow> byte list \<Rightarrow> lane list outcome" where
  "KeccakAbsorb1152bits state data =
     obind (data_words data 18) (\<lambda>w. Ret (KeccakPermutationOnWordsAfterXoring1152bits state w))"

definition KeccakAbsorb1344bits :: "lane list \<Rightarrow> byte list \<Rightarrow> lane list outcome" where
  "KeccakAbsorb1344bits state data =
     obind (data_words data 21) (\<lambda>w. Ret (KeccakPermutationOnWordsAfterXoring1344bits state w))"

definition KeccakAbsorb :: "lane list \<Rightarrow> byte list \<Rightarrow> nat \<Rightarrow> lane list outcome" where
  "KeccakAbsorb state data laneCount =
     obind (data_words data laneCount) (\<lambda>w. KeccakPermutationOnWordsAfterXoring state w laneCount)"

text \<open>The nested tests: a lane is complemented if it has been copied, up to the first that has not.\<close>

fun complement_lanes :: "nat list \<Rightarrow> nat \<Rightarrow> lane list \<Rightarrow> lane list" where
  "complement_lanes [] laneCount w = w"
| "complement_lanes (i # is) laneCount w =
     (if laneCount > i then complement_lanes is laneCount (w[i := NOT (w ! i)]) else w)"

text \<open>The lanes are copied to the start of \<open>data\<close>, and complemented there.\<close>

definition KeccakExtract1024bits :: "lane list \<Rightarrow> byte list \<Rightarrow> byte list outcome" where
  "KeccakExtract1024bits state data =
     write_block data 0 (concat (map fromWordToBytes
       ((take 16 state)[1 := NOT (state ! 1), 2 := NOT (state ! 2), 8 := NOT (state ! 8), 12 := NOT (state ! 12)])))"

definition KeccakExtract :: "lane list \<Rightarrow> byte list \<Rightarrow> nat \<Rightarrow> byte list outcome" where
  "KeccakExtract state data laneCount =
     (if laneCount \<le> length state
      then write_block data 0 (concat (map fromWordToBytes
             (complement_lanes [1, 2, 8, 12, 17, 20] laneCount (take laneCount state))))
      else Crash)"

section \<open>The complement\<close>

definition complemented :: "nat set" where
  "complemented = {1, 2, 8, 12, 17, 20}"

definition masked :: "lane list \<Rightarrow> lane list" where
  "masked state = map (\<lambda>i. if i \<in> complemented then NOT (state ! i) else state ! i) [0..<25]"

lemma mask_explicit:
  "masked state =
    [state ! 0, NOT (state ! 1), NOT (state ! 2), state ! 3, state ! 4, state ! 5, state ! 6, state ! 7,
     NOT (state ! 8), state ! 9, state ! 10, state ! 11, NOT (state ! 12), state ! 13, state ! 14, state ! 15,
     state ! 16, NOT (state ! 17), state ! 18, state ! 19, NOT (state ! 20), state ! 21, state ! 22, state ! 23,
     state ! 24]"
  unfolding masked_def upt_25 by (simp add: complemented_def)

lemma mask_list:
  "masked [a0, a1, a2, a3, a4, a5, a6, a7,
     a8, a9, a10, a11, a12, a13, a14, a15,
     a16, a17, a18, a19, a20, a21, a22, a23,
     a24] =
    [a0, NOT a1, NOT a2, a3, a4, a5, a6, a7,
     NOT a8, a9, a10, a11, NOT a12, a13, a14, a15,
     a16, NOT a17, a18, a19, NOT a20, a21, a22, a23,
     a24]"
  unfolding mask_explicit by simp

lemma mask_nth:
  "masked state ! 0 = state ! 0"
  "masked state ! 1 = NOT (state ! 1)"
  "masked state ! 2 = NOT (state ! 2)"
  "masked state ! 3 = state ! 3"
  "masked state ! 4 = state ! 4"
  "masked state ! 5 = state ! 5"
  "masked state ! 6 = state ! 6"
  "masked state ! 7 = state ! 7"
  "masked state ! 8 = NOT (state ! 8)"
  "masked state ! 9 = state ! 9"
  "masked state ! 10 = state ! 10"
  "masked state ! 11 = state ! 11"
  "masked state ! 12 = NOT (state ! 12)"
  "masked state ! 13 = state ! 13"
  "masked state ! 14 = state ! 14"
  "masked state ! 15 = state ! 15"
  "masked state ! 16 = state ! 16"
  "masked state ! 17 = NOT (state ! 17)"
  "masked state ! 18 = state ! 18"
  "masked state ! 19 = state ! 19"
  "masked state ! 20 = NOT (state ! 20)"
  "masked state ! 21 = state ! 21"
  "masked state ! 22 = state ! 22"
  "masked state ! 23 = state ! 23"
  "masked state ! 24 = state ! 24"
  unfolding mask_explicit by simp_all

lemma ROL_not: "0 < n \<Longrightarrow> n < 64 \<Longrightarrow> ROL (NOT a) n = NOT (ROL a n)"
  by (simp add: ROL_is_rotl) (rule bit_word_eqI, simp add: bit_simps)

lemma or_by_and: "x OR y = NOT (NOT x AND NOT y)" for x y :: lane
  by simp

text \<open>Complements move outwards; every disjunction becomes a conjunction.\<close>

lemmas complement_rules = or_by_and bit.xor_compl_left bit.xor_compl_right bit.double_compl ROL_not
  xor.assoc rel_simps zero_less_one one_less_numeral_iff zero_less_numeral

lemma prepareTheta_of_round:
  "snd (thetaRhoPiChiIotaPrepareTheta rc state cs) = prepareTheta (fst (thetaRhoPiChiIotaPrepareTheta rc state cs))"
  by (simp add: thetaRhoPiChiIotaPrepareTheta_def prepareTheta_def Let_def xor.assoc)

lemma last_round: "thetaRhoPiChiIota rc state cs = fst (thetaRhoPiChiIotaPrepareTheta rc state cs)"
  unfolding thetaRhoPiChiIota_def thetaRhoPiChiIotaPrepareTheta_def by (simp only: Let_def fst_conv)

lemma nth_list_5: "[a, b, c, d, e] ! 0 = a" "[a, b, c, d, e] ! 1 = b" "[a, b, c, d, e] ! 2 = c"
  "[a, b, c, d, e] ! 3 = d" "[a, b, c, d, e] ! 4 = e"
  by simp_all

lemma opt_round_masked:
  "fst (thetaRhoPiChiIotaPrepareTheta rc (masked state) (prepareTheta (masked state))) = masked (keccak_round rc state)"
  unfolding simple_round_AE_is_round [symmetric] thetaRhoPiChiIotaPrepareTheta_def simple_round_AE_def
    prepareTheta_def mask_nth
  by (simp only: Let_def mask_list fst_conv nth_list_5)
    (simp only: complement_rules)

section \<open>The permutation of the standard\<close>

lemma length_mask [simp]: "length (masked state) = 25"
  by (simp add: masked_def)

lemma mask_mask: "length state = 25 \<Longrightarrow> masked (masked state) = state"
  by (rule nth_equalityI) (auto simp: masked_def)

lemma rounds_masked:
  "foldl (\<lambda>(state, cs) i. thetaRhoPiChiIotaPrepareTheta (KeccakF_RoundConstants ! i) state cs)
      (masked state, prepareTheta (masked state)) is
    = (let state = foldl (\<lambda>state r. keccak_round (KeccakF_RoundConstants ! r) state) state is
       in (masked state, prepareTheta (masked state)))"
proof (induction "is" arbitrary: state)
  case (Cons i "is")
  have "thetaRhoPiChiIotaPrepareTheta (KeccakF_RoundConstants ! i) (masked state) (prepareTheta (masked state))
      = (masked (keccak_round (KeccakF_RoundConstants ! i) state),
         prepareTheta (masked (keccak_round (KeccakF_RoundConstants ! i) state)))"
    by (rule prod_eqI) (simp_all only: opt_round_masked prepareTheta_of_round fst_conv snd_conv)
  then show ?case by (simp add: Cons.IH)
qed simp

lemma opt_rounds_masked: "opt_rounds (masked state) = masked (keccak_f state)"
proof -
  have cong: "foldl (\<lambda>state r. keccak_round (KeccakF_RoundConstants ! r) state) state [0..<23]
      = foldl (\<lambda>state r. keccak_round (standard_constant r) state) state [0..<23]"
    by (rule foldl_cong) (simp_all add: constant_at)
  have "keccak_f state = keccak_round (standard_constant 23)
      (foldl (\<lambda>state r. keccak_round (standard_constant r) state) state [0..<23])"
    using upt_Suc_append [of 0 23] by (simp add: keccak_f_def del: upt_Suc)
  then show ?thesis
    unfolding opt_rounds_def rounds_masked cong last_round
    by (simp only: Let_def case_prod_conv opt_round_masked constant_at)
qed

text \<open>Input is added to the masked state as to the plain one.\<close>

lemma xor_each_append:
  "xor_each state input (js @ js') = obind (xor_each state input js) (\<lambda>state. xor_each state input js')"
  by (induction js arbitrary: state) (simp_all add: obind_assoc)

lemma xor_each_masked:
  assumes "length state = 25" and "n \<le> 25" and "n \<le> length input"
  shows "xor_each (masked state) input [0..<n] = Ret (masked (add_input state input n))"
  using assms(2,3)
proof (induction n)
  case 0
  have "add_input state input 0 = state"
    using assms(1) map_nth [of state] by (simp add: add_input_def)
  then show ?case by simp
next
  case (Suc n)
  then have n: "n < 25" "n < length input" by simp_all
  have "(masked (add_input state input n))[n := masked (add_input state input n) ! n XOR input ! n]
      = masked (add_input state input (Suc n))"
    using n by (auto simp: masked_def add_input_def nth_list_update intro!: nth_equalityI)
  with Suc n show ?case by (simp add: xor_each_append mem_simps)
qed

lemma copy_masked_576: "copyFromStateAndXor576bits (masked state) input = masked (add_input state input 9)"
  unfolding copyFromStateAndXor576bits_def masked_def add_input_def upt_25 by (simp add: complemented_def)

lemma copy_masked_832: "copyFromStateAndXor832bits (masked state) input = masked (add_input state input 13)"
  unfolding copyFromStateAndXor832bits_def masked_def add_input_def upt_25 by (simp add: complemented_def)

lemma copy_masked_1024: "copyFromStateAndXor1024bits (masked state) input = masked (add_input state input 16)"
  unfolding copyFromStateAndXor1024bits_def masked_def add_input_def upt_25 by (simp add: complemented_def)

lemma copy_masked_1088: "copyFromStateAndXor1088bits (masked state) input = masked (add_input state input 17)"
  unfolding copyFromStateAndXor1088bits_def masked_def add_input_def upt_25 by (simp add: complemented_def)

lemma copy_masked_1152: "copyFromStateAndXor1152bits (masked state) input = masked (add_input state input 18)"
  unfolding copyFromStateAndXor1152bits_def masked_def add_input_def upt_25 by (simp add: complemented_def)

lemma copy_masked_1344: "copyFromStateAndXor1344bits (masked state) input = masked (add_input state input 21)"
  unfolding copyFromStateAndXor1344bits_def masked_def add_input_def upt_25 by (simp add: complemented_def)

section \<open>Words and bytes\<close>

definition block_words :: "byte list \<Rightarrow> nat \<Rightarrow> lane list" where
  "block_words data n = map (\<lambda>i. fromBytesToWord (take 8 (drop (8 * i) data))) [0..<n]"

lemma length_block_words [simp]: "length (block_words data n) = n"
  by (simp add: block_words_def)

text \<open>The permutation of the standard after a block of bytes has been added.\<close>

definition absorbed :: "lane list \<Rightarrow> byte list \<Rightarrow> nat \<Rightarrow> lane list" where
  "absorbed state data n = keccak_f (add_input state (block_words data n) n)"

lemma length_absorbed [simp]: "length (absorbed state data n) = 25"
  by (simp add: absorbed_def length_keccak_f add_input_def)

lemma absorb_masked:
  "72 \<le> length data \<Longrightarrow> KeccakAbsorb576bits (masked state) data = Ret (masked (absorbed state data 9))"
  "104 \<le> length data \<Longrightarrow> KeccakAbsorb832bits (masked state) data = Ret (masked (absorbed state data 13))"
  "128 \<le> length data \<Longrightarrow> KeccakAbsorb1024bits (masked state) data = Ret (masked (absorbed state data 16))"
  "136 \<le> length data \<Longrightarrow> KeccakAbsorb1088bits (masked state) data = Ret (masked (absorbed state data 17))"
  "144 \<le> length data \<Longrightarrow> KeccakAbsorb1152bits (masked state) data = Ret (masked (absorbed state data 18))"
  "168 \<le> length data \<Longrightarrow> KeccakAbsorb1344bits (masked state) data = Ret (masked (absorbed state data 21))"
  by (simp_all add: KeccakPermutationOnWordsAfterXoring576bits_def KeccakPermutationOnWordsAfterXoring832bits_def
      KeccakPermutationOnWordsAfterXoring1024bits_def KeccakPermutationOnWordsAfterXoring1088bits_def
      KeccakPermutationOnWordsAfterXoring1152bits_def KeccakPermutationOnWordsAfterXoring1344bits_def
      KeccakAbsorb576bits_def KeccakAbsorb832bits_def KeccakAbsorb1024bits_def KeccakAbsorb1088bits_def
      KeccakAbsorb1152bits_def KeccakAbsorb1344bits_def copy_masked_576 copy_masked_832 copy_masked_1024
      copy_masked_1088 copy_masked_1152 copy_masked_1344 opt_rounds_masked absorbed_def data_words_def
      block_words_def)

lemma absorb_lanes_masked:
  "length state = 25 \<Longrightarrow> n \<le> 25 \<Longrightarrow> 8 * n \<le> length data \<Longrightarrow>
   KeccakAbsorb (masked state) data n = Ret (masked (absorbed state data n))"
  by (simp add: KeccakAbsorb_def KeccakPermutationOnWordsAfterXoring_def data_words_def
      block_words_def [symmetric] xor_each_masked opt_rounds_masked absorbed_def)

text \<open>The bytes of the first lanes, the result of squeezing.\<close>

definition state_bytes :: "lane list \<Rightarrow> nat \<Rightarrow> byte list" where
  "state_bytes state n = concat (map fromWordToBytes (take n state))"

lemma length_fromWordToBytes [simp]: "length (fromWordToBytes w) = 8"
  by (simp add: fromWordToBytes_def)

lemma length_concat_words [simp]: "length (concat (map fromWordToBytes ws)) = 8 * length ws"
  by (induction ws) simp_all

lemma length_state_bytes [simp]: "length (state_bytes state n) = 8 * min (length state) n"
  by (simp add: state_bytes_def)

lemma nth_complement_lanes:
  "sorted is \<Longrightarrow> distinct is \<Longrightarrow> n \<le> length w \<Longrightarrow> j < length w \<Longrightarrow>
   complement_lanes is n w ! j = (if j \<in> set is \<and> j < n then NOT (w ! j) else w ! j)"
proof (induction "is" n w rule: complement_lanes.induct)
  case (2 i "is" n w)
  show ?case
  proof (cases "n > i")
    case True
    then have "complement_lanes (i # is) n w ! j
        = (if j \<in> set is \<and> j < n then NOT (w[i := NOT (w ! i)] ! j) else w[i := NOT (w ! i)] ! j)"
      using 2 by simp
    with True 2 show ?thesis by (auto simp: nth_list_update)
  next
    case False
    with 2 show ?thesis by auto
  qed
qed simp

lemma length_complement_lanes [simp]: "length (complement_lanes is n w) = length w"
  by (induction "is" n w rule: complement_lanes.induct) simp_all

lemma complement_of_mask:
  assumes "length state = 25" and "n \<le> 25"
  shows "complement_lanes [1, 2, 8, 12, 17, 20] n (take n (masked state)) = take n state"
  using assms
  by (intro nth_equalityI)
    (simp_all add: nth_complement_lanes min_def masked_def complemented_def del: complement_lanes.simps)

lemma extract_masked:
  assumes "length state = 25" and "n \<le> 25" and "8 * n \<le> length data"
  shows "KeccakExtract (masked state) data n = Ret (overlay data 0 (state_bytes state n))"
  using assms
  by (simp add: KeccakExtract_def complement_of_mask state_bytes_def write_block_def
      del: complement_lanes.simps One_nat_def)

lemma extract_1024_masked:
  assumes "length state = 25" and "128 \<le> length data"
  shows "KeccakExtract1024bits (masked state) data = Ret (overlay data 0 (state_bytes state 16))"
proof -
  have "(take 16 (masked state))[1 := NOT (masked state ! 1), 2 := NOT (masked state ! 2), 8 := NOT (masked state ! 8),
      12 := NOT (masked state ! 12)] = complement_lanes [1, 2, 8, 12, 17, 20] 16 (take 16 (masked state))"
    by simp
  also have "\<dots> = take 16 state" using assms by (intro complement_of_mask) simp_all
  finally show ?thesis using assms by (simp add: KeccakExtract1024bits_def state_bytes_def write_block_def)
qed

lemma initial_masked: "KeccakInitializeState = masked (replicate 25 0)"
  unfolding KeccakInitializeState_def masked_def complemented_def by (rule nth_equalityI) (auto simp: nth_list_update)


end
