(* ===== verification/Keccak_Sponge.thy ===== *)
theory Keccak_Sponge
  imports Keccak_Opt64
begin

text \<open>
  The sponge of \<^verbatim>\<open>lib/sha_three/KeccakSponge.c\<close> and the interface of \<^verbatim>\<open>KeccakNISTInterface.c\<close> over any
  implementation of \<^verbatim>\<open>KeccakF-1600-interface.h\<close>, the record \<open>keccak_impl\<close>. A variable of type
  \<^verbatim>\<open>unsigned int\<close> is a number with its wrap-around written out: the length of the part of the input
  that is queued is one.
\<close>

unbundle bit_operations_syntax

section \<open>The interface of the permutation\<close>

record keccak_impl =
  impl_InitializeState :: "lane list"
  impl_Permutation :: "lane list \<Rightarrow> lane list"
  impl_Absorb576bits :: "lane list \<Rightarrow> byte list \<Rightarrow> lane list outcome"
  impl_Absorb832bits :: "lane list \<Rightarrow> byte list \<Rightarrow> lane list outcome"
  impl_Absorb1024bits :: "lane list \<Rightarrow> byte list \<Rightarrow> lane list outcome"
  impl_Absorb1088bits :: "lane list \<Rightarrow> byte list \<Rightarrow> lane list outcome"
  impl_Absorb1152bits :: "lane list \<Rightarrow> byte list \<Rightarrow> lane list outcome"
  impl_Absorb1344bits :: "lane list \<Rightarrow> byte list \<Rightarrow> lane list outcome"
  impl_Absorb :: "lane list \<Rightarrow> byte list \<Rightarrow> nat \<Rightarrow> lane list outcome"
  impl_Extract1024bits :: "lane list \<Rightarrow> byte list \<Rightarrow> byte list outcome"
  impl_Extract :: "lane list \<Rightarrow> byte list \<Rightarrow> nat \<Rightarrow> byte list outcome"

definition opt64_impl :: keccak_impl where
  "opt64_impl =
     \<lparr>impl_InitializeState = KeccakInitializeState, impl_Permutation = KeccakPermutation,
      impl_Absorb576bits = KeccakAbsorb576bits, impl_Absorb832bits = KeccakAbsorb832bits,
      impl_Absorb1024bits = KeccakAbsorb1024bits, impl_Absorb1088bits = KeccakAbsorb1088bits,
      impl_Absorb1152bits = KeccakAbsorb1152bits, impl_Absorb1344bits = KeccakAbsorb1344bits,
      impl_Absorb = KeccakAbsorb, impl_Extract1024bits = KeccakExtract1024bits,
      impl_Extract = KeccakExtract\<rparr>"

section \<open>The state of the sponge\<close>

definition uint32 :: "nat \<Rightarrow> nat" where
  "uint32 n = n mod 2 ^ 32"

definition uint32_sub :: "nat \<Rightarrow> nat \<Rightarrow> nat" where
  "uint32_sub a b = uint32 (a + 2 ^ 32 - b)"

definition KeccakMaximumRateInBytes :: nat where
  "KeccakMaximumRateInBytes = 192"

record spongeState =
  sponge_state :: "lane list"
  dataQueue :: "byte list"
  rate :: nat
  capacity :: nat
  bitsInQueue :: nat
  fixedOutputLength :: nat
  squeezing :: bool
  bitsAvailableForSqueezing :: nat

definition InitSponge :: "keccak_impl \<Rightarrow> spongeState \<Rightarrow> nat \<Rightarrow> nat \<Rightarrow> nat \<times> spongeState" where
  "InitSponge K s r c =
     (if uint32 (r + c) \<noteq> 1600 then (1, s)
      else if r \<le> 0 \<or> r \<ge> 1600 \<or> r mod 64 \<noteq> 0 then (1, s)
      else (0, \<lparr>sponge_state = impl_InitializeState K, dataQueue = replicate KeccakMaximumRateInBytes 0,
              rate = r, capacity = c, bitsInQueue = 0, fixedOutputLength = 0, squeezing = False,
              bitsAvailableForSqueezing = 0\<rparr>))"

section \<open>Absorbing\<close>

text \<open>One block of the rate, by the function made for it if there is one.\<close>

definition absorb_block :: "keccak_impl \<Rightarrow> nat \<Rightarrow> lane list \<Rightarrow> byte list \<Rightarrow> lane list outcome" where
  "absorb_block K r state data =
     (if r = 576 then impl_Absorb576bits K state data
      else if r = 832 then impl_Absorb832bits K state data
      else if r = 1024 then impl_Absorb1024bits K state data
      else if r = 1088 then impl_Absorb1088bits K state data
      else if r = 1152 then impl_Absorb1152bits K state data
      else if r = 1344 then impl_Absorb1344bits K state data
      else impl_Absorb K state data (r div 64))"

definition AbsorbQueue :: "keccak_impl \<Rightarrow> spongeState \<Rightarrow> spongeState outcome" where
  "AbsorbQueue K s =
     obind (absorb_block K (rate s) (sponge_state s) (dataQueue s)) (\<lambda>state.
     Ret (s\<lparr>sponge_state := state, bitsInQueue := 0\<rparr>))"

fun absorb_blocks :: "keccak_impl \<Rightarrow> nat \<Rightarrow> lane list \<Rightarrow> byte list \<Rightarrow> nat \<Rightarrow> lane list outcome" where
  "absorb_blocks K r state curData 0 = Ret state"
| "absorb_blocks K r state curData (Suc j) =
     obind (absorb_block K r state curData) (\<lambda>state.
     absorb_blocks K r state (drop (r div 8) curData) j)"

text \<open>
  The part of the input that goes to the queue; the result is the state and the number of bits
  that have been read.
\<close>

definition absorb_part ::
  "keccak_impl \<Rightarrow> spongeState \<Rightarrow> byte list \<Rightarrow> nat \<Rightarrow> nat \<Rightarrow> (spongeState \<times> nat) outcome" where
  "absorb_part K s data databitlen i =
     (let partialBlock = uint32 (databitlen - i);
          partialBlock =
            (if uint32 (partialBlock + bitsInQueue s) > rate s
             then uint32_sub (rate s) (bitsInQueue s) else partialBlock);
          partialByte = partialBlock mod 8;
          partialBlock = partialBlock - partialByte
      in if i div 8 + partialBlock div 8 \<le> length data then
           obind (write_block (dataQueue s) (bitsInQueue s div 8) (take (partialBlock div 8) (drop (i div 8) data)))
             (\<lambda>q.
           let s = s\<lparr>dataQueue := q, bitsInQueue := uint32 (bitsInQueue s + partialBlock)\<rparr>;
               i = i + partialBlock
           in obind (if bitsInQueue s = rate s then AbsorbQueue K s else Ret s) (\<lambda>s.
              if partialByte > 0 then
                obind (peek data (i div 8)) (\<lambda>b.
                obind (poke (dataQueue s) (bitsInQueue s div 8) (b AND (push_bit partialByte 1 - 1))) (\<lambda>q.
                Ret (s\<lparr>dataQueue := q, bitsInQueue := uint32 (bitsInQueue s + partialByte)\<rparr>, i + partialByte)))
              else Ret (s, i)))
         else Crash)"

text \<open>A part of length zero is read over and over again: then the loop does not return.\<close>

partial_function (option) absorb_loop ::
  "keccak_impl \<Rightarrow> spongeState \<Rightarrow> byte list \<Rightarrow> nat \<Rightarrow> nat \<Rightarrow> spongeState outcome option" where
  "absorb_loop K s data databitlen i =
     (if i < databitlen then
        if bitsInQueue s = 0 \<and> databitlen \<ge> rate s \<and> i \<le> databitlen - rate s then
          rbind (Some (absorb_blocks K (rate s) (sponge_state s) (drop (i div 8) data)
                   ((databitlen - i) div rate s))) (\<lambda>state.
          absorb_loop K (s\<lparr>sponge_state := state\<rparr>) data databitlen
            (i + (databitlen - i) div rate s * rate s))
        else
          rbind (Some (absorb_part K s data databitlen i)) (\<lambda>(s, i). absorb_loop K s data databitlen i)
      else Some (Ret s))"

definition Absorb ::
  "keccak_impl \<Rightarrow> spongeState \<Rightarrow> byte list \<Rightarrow> nat \<Rightarrow> (nat \<times> spongeState) outcome option" where
  "Absorb K s data databitlen =
     (if bitsInQueue s mod 8 \<noteq> 0 then Some (Ret (1, s))
      else if squeezing s then Some (Ret (1, s))
      else rbind (absorb_loop K s data databitlen 0) (\<lambda>s. Some (Ret (0, s))))"

section \<open>Squeezing\<close>

definition or_byte :: "byte list \<Rightarrow> nat \<Rightarrow> byte \<Rightarrow> byte list outcome" where
  "or_byte q k b = obind (peek q k) (\<lambda>x. poke q k (x OR b))"

definition extract_block :: "keccak_impl \<Rightarrow> spongeState \<Rightarrow> spongeState outcome" where
  "extract_block K s =
     (if rate s = 1024 then
        obind (impl_Extract1024bits K (sponge_state s) (dataQueue s)) (\<lambda>q.
        Ret (s\<lparr>dataQueue := q, bitsAvailableForSqueezing := 1024\<rparr>))
      else
        obind (impl_Extract K (sponge_state s) (dataQueue s) (rate s div 64)) (\<lambda>q.
        Ret (s\<lparr>dataQueue := q, bitsAvailableForSqueezing := rate s\<rparr>)))"

definition PadAndSwitchToSqueezingPhase :: "keccak_impl \<Rightarrow> spongeState \<Rightarrow> spongeState outcome" where
  "PadAndSwitchToSqueezingPhase K s =
     obind
       (if uint32 (bitsInQueue s + 1) = rate s then
          obind (or_byte (dataQueue s) (bitsInQueue s div 8) (push_bit (bitsInQueue s mod 8) 1)) (\<lambda>q.
          obind (AbsorbQueue K (s\<lparr>dataQueue := q\<rparr>)) (\<lambda>s.
          obind (write_block (dataQueue s) 0 (replicate (rate s div 8) 0)) (\<lambda>q. Ret (s\<lparr>dataQueue := q\<rparr>))))
        else
          obind (write_block (dataQueue s) ((bitsInQueue s + 7) div 8)
                  (replicate (uint32_sub (rate s div 8) ((bitsInQueue s + 7) div 8)) 0)) (\<lambda>q.
          obind (or_byte q (bitsInQueue s div 8) (push_bit (bitsInQueue s mod 8) 1)) (\<lambda>q.
          Ret (s\<lparr>dataQueue := q\<rparr>)))) (\<lambda>s.
     obind (or_byte (dataQueue s) (uint32_sub (rate s) 1 div 8) (push_bit (uint32_sub (rate s) 1 mod 8) 1)) (\<lambda>q.
     obind (AbsorbQueue K (s\<lparr>dataQueue := q\<rparr>)) (\<lambda>s.
     obind (extract_block K s) (\<lambda>s. Ret (s\<lparr>squeezing := True\<rparr>)))))"

partial_function (option) squeeze_loop ::
  "keccak_impl \<Rightarrow> spongeState \<Rightarrow> byte list \<Rightarrow> nat \<Rightarrow> nat \<Rightarrow> (spongeState \<times> byte list) outcome option" where
  "squeeze_loop K s out outputLength i =
     (if i < outputLength then
        rbind (Some (if bitsAvailableForSqueezing s = 0
                     then extract_block K (s\<lparr>sponge_state := impl_Permutation K (sponge_state s)\<rparr>)
                     else Ret s)) (\<lambda>s.
        let partialBlock =
              (if bitsAvailableForSqueezing s > outputLength - i then uint32 (outputLength - i)
               else bitsAvailableForSqueezing s);
            from = uint32_sub (rate s) (bitsAvailableForSqueezing s) div 8
        in if from + partialBlock div 8 \<le> length (dataQueue s) then
             rbind (Some (write_block out (i div 8) (take (partialBlock div 8) (drop from (dataQueue s)))))
               (\<lambda>out.
             squeeze_loop K (s\<lparr>bitsAvailableForSqueezing := bitsAvailableForSqueezing s - partialBlock\<rparr>) out
               outputLength (i + partialBlock))
           else Some Crash)
      else Some (Ret (s, out)))"

definition Squeeze ::
  "keccak_impl \<Rightarrow> spongeState \<Rightarrow> byte list \<Rightarrow> nat \<Rightarrow> (nat \<times> spongeState \<times> byte list) outcome option" where
  "Squeeze K s out outputLength =
     rbind (Some (if \<not> squeezing s then PadAndSwitchToSqueezingPhase K s else Ret s)) (\<lambda>s.
     if outputLength mod 8 \<noteq> 0 then Some (Ret (1, s, out))
     else rbind (squeeze_loop K s out outputLength 0) (\<lambda>(s, out). Some (Ret (0, s, out))))"

section \<open>The NIST interface\<close>

datatype HashReturn = SUCCESS | FAIL | BAD_HASHLEN

definition hash_return :: "nat \<Rightarrow> HashReturn" where
  "hash_return r = (if r = 0 then SUCCESS else FAIL)"

text \<open>The rate and the capacity for a length; the result of \<^verbatim>\<open>InitSponge\<close> is not looked at.\<close>

definition nist_Init :: "keccak_impl \<Rightarrow> spongeState \<Rightarrow> nat \<Rightarrow> HashReturn \<times> spongeState" where
  "nist_Init K s hashbitlen =
     (if hashbitlen = 0 then (SUCCESS, (snd (InitSponge K s 1024 576))\<lparr>fixedOutputLength := hashbitlen\<rparr>)
      else if hashbitlen = 224 then (SUCCESS, (snd (InitSponge K s 1152 448))\<lparr>fixedOutputLength := hashbitlen\<rparr>)
      else if hashbitlen = 256 then (SUCCESS, (snd (InitSponge K s 1088 512))\<lparr>fixedOutputLength := hashbitlen\<rparr>)
      else if hashbitlen = 384 then (SUCCESS, (snd (InitSponge K s 832 768))\<lparr>fixedOutputLength := hashbitlen\<rparr>)
      else if hashbitlen = 512 then (SUCCESS, (snd (InitSponge K s 576 1024))\<lparr>fixedOutputLength := hashbitlen\<rparr>)
      else (BAD_HASHLEN, s))"

definition nist_Update ::
  "keccak_impl \<Rightarrow> spongeState \<Rightarrow> byte list \<Rightarrow> nat \<Rightarrow> (HashReturn \<times> spongeState) outcome option" where
  "nist_Update K s data databitlen =
     (if databitlen mod 8 = 0 then
        rbind (Absorb K s data databitlen) (\<lambda>(r, s). Some (Ret (hash_return r, s)))
      else
        rbind (Absorb K s data (databitlen - databitlen mod 8)) (\<lambda>(r, s).
        if hash_return r = SUCCESS then
          rbind (Some (peek data (databitlen div 8))) (\<lambda>b.
          rbind (Absorb K s [drop_bit (8 - databitlen mod 8) b] (databitlen mod 8)) (\<lambda>(r, s).
          Some (Ret (hash_return r, s))))
        else Some (Ret (hash_return r, s))))"

definition nist_Final ::
  "keccak_impl \<Rightarrow> spongeState \<Rightarrow> byte list \<Rightarrow> (HashReturn \<times> spongeState \<times> byte list) outcome option" where
  "nist_Final K s hashval =
     rbind (Squeeze K s hashval (fixedOutputLength s)) (\<lambda>(r, s, hashval).
     Some (Ret (hash_return r, s, hashval)))"

definition nist_Hash ::
  "keccak_impl \<Rightarrow> spongeState \<Rightarrow> nat \<Rightarrow> byte list \<Rightarrow> nat \<Rightarrow> byte list \<Rightarrow> (HashReturn \<times> byte list) outcome option"
where
  \<comment> \<open>the second argument is the local state, not initialised\<close>
  "nist_Hash K state hashbitlen data databitlen hashval =
     (if hashbitlen \<noteq> 224 \<and> hashbitlen \<noteq> 256 \<and> hashbitlen \<noteq> 384 \<and> hashbitlen \<noteq> 512
      then Some (Ret (BAD_HASHLEN, hashval))
      else
        case nist_Init K state hashbitlen of
          (result, state) \<Rightarrow>
            if result \<noteq> SUCCESS then Some (Ret (result, hashval))
            else
              rbind (nist_Update K state data databitlen) (\<lambda>(result, state).
              if result \<noteq> SUCCESS then Some (Ret (result, hashval))
              else
                rbind (nist_Final K state hashval) (\<lambda>(result, state, hashval).
                Some (Ret (result, hashval)))))"

section \<open>The sponge of the standard, on bits\<close>

definition byte_bits :: "byte \<Rightarrow> bool list" where
  "byte_bits b = map (bit b) [0..<8]"

definition data_bits :: "byte list \<Rightarrow> bool list" where
  "data_bits data = concat (map byte_bits data)"

definition lane_of_bits :: "bool list \<Rightarrow> lane" where
  "lane_of_bits bs = horner_sum of_bool 2 bs"

text \<open>A block is added to the state, lane by lane, and the state is permuted.\<close>

definition standard_block :: "lane list \<Rightarrow> bool list \<Rightarrow> lane list" where
  "standard_block state block =
     keccak_f (map (\<lambda>i. state ! i XOR lane_of_bits (take 64 (drop (64 * i) block))) [0..<25])"

text \<open>The state after the whole blocks of a message, and the bits that are left.\<close>

definition standard_state :: "nat \<Rightarrow> bool list \<Rightarrow> lane list" where
  "standard_state r m =
     foldl (\<lambda>state j. standard_block state (take r (drop (r * j) m))) (replicate 25 0) [0..<length m div r]"

definition leftover :: "nat \<Rightarrow> bool list \<Rightarrow> bool list" where
  "leftover r m = drop (r * (length m div r)) m"

definition pad :: "nat \<Rightarrow> bool list \<Rightarrow> bool list" where
  "pad r m = m @ True # replicate ((r - (length m + 2) mod r) mod r) False @ [True]"

lemma length_byte_bits [simp]: "length (byte_bits b) = 8"
  by (simp add: byte_bits_def)

lemma data_bits_simps [simp]:
  "data_bits [] = []" "data_bits (b # data) = byte_bits b @ data_bits data"
  "data_bits (xs @ ys) = data_bits xs @ data_bits ys"
  by (simp_all add: data_bits_def)

lemma length_data_bits [simp]: "length (data_bits data) = 8 * length data"
  by (induction data) simp_all

lemma nth_data_bits: "k < 8 * length data \<Longrightarrow> data_bits data ! k = bit (data ! (k div 8)) (k mod 8)"
proof (induction data arbitrary: k)
  case (Cons b data)
  show ?case
  proof (cases "k < 8")
    case True
    then show ?thesis by (simp add: nth_append byte_bits_def)
  next
    case False
    then have "k div 8 = Suc ((k - 8) div 8)" and "k mod 8 = (k - 8) mod 8" by (simp_all add: le_div_geq le_mod_geq)
    with False Cons show ?thesis by (simp add: nth_append)
  qed
qed simp

lemma take_data_bits: "take (8 * n) (data_bits data) = data_bits (take n data)"
proof (induction n arbitrary: data)
  case (Suc n)
  then show ?case by (cases data) simp_all
qed simp

lemma drop_data_bits: "drop (8 * n) (data_bits data) = data_bits (drop n data)"
proof (induction n arbitrary: data)
  case (Suc n)
  then show ?case by (cases data) simp_all
qed simp

lemma bit_lane_of_bits: "bit (lane_of_bits bs) k \<longleftrightarrow> k < 64 \<and> k < length bs \<and> bs ! k"
  by (simp add: lane_of_bits_def bit_horner_sum_bit_word_iff)

lemma bit_foldl_or:
  "bit (foldl (\<lambda>w i. w OR f i) w0 is) k \<longleftrightarrow> bit w0 k \<or> (\<exists>i\<in>set is. bit (f i) k)" for w0 :: lane
  by (induction "is" arbitrary: w0) (auto simp: bit_simps)

lemma word_of_bytes:
  assumes "length bytes = 8"
  shows "fromBytesToWord bytes = lane_of_bits (data_bits bytes)"
proof (rule bit_word_eqI)
  fix k
  assume "k < LENGTH(64)"
  then have k: "k < 64" by simp
  have "bit (push_bit (8 * i) (ucast (bytes ! i)) :: lane) k \<longleftrightarrow> i = k div 8 \<and> bit (bytes ! i) (k mod 8)"
    if "i < 8" for i
  proof -
    have "bit (push_bit (8 * i) (ucast (bytes ! i)) :: lane) k \<longleftrightarrow>
        8 * i \<le> k \<and> k - 8 * i < 8 \<and> bit (bytes ! i) (k - 8 * i)"
      using k bit_imp_le_length [of "bytes ! i" "k - 8 * i"] by (auto simp: bit_simps)
    moreover have "8 * i \<le> k \<and> k - 8 * i < 8 \<longleftrightarrow> i = k div 8" by auto
    moreover have "k - 8 * (k div 8) = k mod 8" by (simp add: minus_mult_div_eq_mod)
    ultimately show ?thesis by auto
  qed
  then have "bit (fromBytesToWord bytes) k \<longleftrightarrow> bit (bytes ! (k div 8)) (k mod 8)"
    using k by (auto simp: fromBytesToWord_def bit_foldl_or less_mult_imp_div_less)
  with k assms show "bit (fromBytesToWord bytes) k \<longleftrightarrow> bit (lane_of_bits (data_bits bytes)) k"
    by (simp add: bit_lane_of_bits nth_data_bits)
qed

lemma lane_of_no_bits [simp]: "lane_of_bits [] = 0"
  by (simp add: lane_of_bits_def)

lemma absorbed_is_block:
  assumes "8 * n \<le> length data" and "n \<le> 25"
  shows "absorbed state data n = standard_block state (take (64 * n) (data_bits data))"
proof -
  have "block_words data n ! i = lane_of_bits (take 64 (drop (64 * i) (take (64 * n) (data_bits data))))"
    if i: "i < n" for i
  proof -
    have "8 * i + 8 \<le> 8 * n" using i by simp
    with assms have "length (take 8 (drop (8 * i) data)) = 8" by simp
    then have "block_words data n ! i = lane_of_bits (data_bits (take 8 (drop (8 * i) data)))"
      using i by (simp add: block_words_def word_of_bytes)
    moreover have "data_bits (take 8 (drop (8 * i) data)) = take 64 (drop (64 * i) (take (64 * n) (data_bits data)))"
      using i take_data_bits [of 8 "drop (8 * i) data"] drop_data_bits [of "8 * i" data]
      by (simp add: drop_take mult.assoc)
    ultimately show ?thesis by simp
  qed
  then have "add_input state (block_words data n) n
      = map (\<lambda>i. state ! i XOR lane_of_bits (take 64 (drop (64 * i) (take (64 * n) (data_bits data))))) [0..<25]"
    by (auto simp: add_input_def)
  then show ?thesis by (simp add: absorbed_def standard_block_def)
qed

lemma length_standard_block [simp]: "length (standard_block state block) = 25"
  by (simp add: standard_block_def length_keccak_f)

lemma length_standard_state [simp]: "length (standard_state r m) = 25"
proof -
  have "length (foldl (\<lambda>state j. standard_block state (take r (drop (r * j) m))) state js) = 25"
    if "length state = 25" for state js
    using that by (induction js arbitrary: state) simp_all
  then show ?thesis unfolding standard_state_def by simp
qed

text \<open>More bits stay in the leftover until they fill a block.\<close>

lemma length_leftover: "length (leftover r m) = length m mod r"
  by (simp add: leftover_def minus_mult_div_eq_mod)

lemma whole_block:
  assumes "j < length m div r"
  shows "take r (drop (r * j) (m @ x)) = take r (drop (r * j) m)"
proof -
  have "r * j + r \<le> r * (length m div r)"
    using assms by (metis Suc_leI mult_Suc_right mult_le_mono2 add.commute)
  also have "\<dots> \<le> length m" by simp
  finally have "r + r * j \<le> length m" by simp
  then show ?thesis by simp
qed

lemma leftover_short:
  assumes "length (leftover r m) + length x < r"
  shows "standard_state r (m @ x) = standard_state r m" "leftover r (m @ x) = leftover r m @ x"
proof -
  have div: "(length m + length x) div r = length m div r"
    using assms mult_div_mod_eq [of r "length m"] unfolding length_leftover
    by (intro div_nat_eqI) (linarith, unfold mult_Suc_right, linarith)
  have le: "r * (length m div r) \<le> length m" by simp
  show "standard_state r (m @ x) = standard_state r m"
    unfolding standard_state_def length_append div by (intro foldl_cong) (simp_all add: whole_block del: take_append drop_append)
  show "leftover r (m @ x) = leftover r m @ x"
    unfolding leftover_def length_append div using le by simp
qed

lemma leftover_full:
  assumes "length (leftover r m) + length x = r" and "0 < r"
  shows "standard_state r (m @ x) = standard_block (standard_state r m) (leftover r m @ x)"
    "leftover r (m @ x) = []"
proof -
  have "length m + length x = r * Suc (length m div r)"
    using assms mult_div_mod_eq [of r "length m"] unfolding length_leftover mult_Suc_right by linarith
  then have div: "(length m + length x) div r = Suc (length m div r)" using assms(2) by simp
  have le: "r * (length m div r) \<le> length m" by simp
  have "take r (drop (r * (length m div r)) (m @ x)) = leftover r m @ x"
    using assms(1) le by (simp add: leftover_def)
  moreover have "foldl (\<lambda>state j. standard_block state (take r (drop (r * j) (m @ x)))) (replicate 25 0)
      [0..<length m div r] = standard_state r m"
    unfolding standard_state_def by (intro foldl_cong) (simp_all add: whole_block del: take_append drop_append)
  ultimately show "standard_state r (m @ x) = standard_block (standard_state r m) (leftover r m @ x)"
    unfolding standard_state_def [of r "m @ x"] length_append div by simp
  show "leftover r (m @ x) = []"
    unfolding leftover_def length_append div using \<open>length m + length x = r * Suc (length m div r)\<close> by simp
qed


text \<open>The output of the sponge: the bytes of the state, one block after each permutation.\<close>

definition out_byte :: "nat \<Rightarrow> lane list \<Rightarrow> nat \<Rightarrow> byte" where
  "out_byte r state k = state_bytes ((keccak_f ^^ (k div (r div 8))) state) (r div 64) ! (k mod (r div 8))"

lemma length_keccak_f_power: "length state = 25 \<Longrightarrow> length ((keccak_f ^^ n) state) = 25"
  by (induction n) (simp_all add: length_keccak_f)

lemma data_bits_zeros: "data_bits (replicate n 0) = replicate (8 * n) False"
proof (induction n)
  case (Suc n)
  have "byte_bits 0 = replicate 8 False" by (rule nth_equalityI) (simp_all add: byte_bits_def)
  with Suc show ?case by (simp flip: replicate_add)
qed simp

end
