(* ===== verification/Keccak_Hash.thy ===== *)
theory Keccak_Hash
  imports Keccak_Sponge
begin

text \<open>
  That the sponge is the sponge of the standard: the invariant of the absorbing and of the squeezing
  phase, the locale \<open>keccak_provider\<close> of what an implementation of \<^verbatim>\<open>KeccakF-1600-interface.h\<close> promises
  (lanes kept in any representation), the operations of \<^verbatim>\<open>KeccakSponge.c\<close> and \<^verbatim>\<open>KeccakNISTInterface.c\<close>
  inside it, and its interpretation on \<^verbatim>\<open>KeccakF-1600-opt64.c\<close>.
\<close>

unbundle bit_operations_syntax

section \<open>Bits of a queue\<close>

lemma uint32_id: "n < 2 ^ 32 \<Longrightarrow> uint32 n = n"
  by (simp add: uint32_def)

lemma uint32_sub_id: "b \<le> a \<Longrightarrow> a < 2 ^ 32 \<Longrightarrow> uint32_sub a b = a - b"
proof -
  assume a: "b \<le> a" "a < 2 ^ 32"
  then have "a + 2 ^ 32 - b = (a - b) + 2 ^ 32" by simp
  then have "uint32_sub a b = (a - b) mod 2 ^ 32" by (simp only: uint32_sub_def uint32_def mod_add_self2)
  with a show ?thesis by simp
qed

lemma data_bits_overlay: "data_bits (overlay m p xs) = overlay (data_bits m) (8 * p) (data_bits xs)"
proof -
  have "drop (8 * p + 8 * length xs) (data_bits m) = data_bits (drop (p + length xs) m)"
    using drop_data_bits [of "p + length xs" m] by (simp only: distrib_left)
  then show ?thesis by (simp add: overlay_def take_data_bits)
qed

lemma take_overlay: "b + length X \<le> length Q \<Longrightarrow> take (b + length X) (overlay Q b X) = take b Q @ X"
  by (cases X) (auto simp: overlay_def min_def)

lemma update_is_overlay: "k < length q \<Longrightarrow> q[k := x] = overlay q k [x]"
  by (simp add: overlay_def upd_conv_take_nth_drop)

lemma masked_byte_bits:
  assumes "p \<le> 8"
  shows "byte_bits (x AND (push_bit p 1 - 1)) = take p (byte_bits x) @ replicate (8 - p) False"
proof -
  have "push_bit p 1 - 1 = (Bit_Operations.mask p :: byte)"
    by (simp add: mask_eq_exp_minus_1 push_bit_eq_mult)
  then show ?thesis
    using assms by (intro nth_equalityI) (auto simp: byte_bits_def nth_append bit_simps)
qed

section \<open>The invariant of the absorbing phase\<close>

definition valid_rate :: "nat \<Rightarrow> bool" where
  "valid_rate r \<longleftrightarrow> 0 < r \<and> r < 1600 \<and> r mod 64 = 0"

lemma valid_rate_facts:
  assumes "valid_rate r"
  shows "0 < r" "r \<le> 1536" "r mod 8 = 0" "r = 64 * (r div 64)" "r div 8 \<le> 192" "r div 64 \<le> 24" "8 * (r div 64) = r div 8" "64 \<le> r"
proof -
  obtain k where "r = 64 * k" using assms by (auto simp: valid_rate_def mod_eq_0_iff_dvd dvd_def)
  with assms show "0 < r" "r \<le> 1536" "r mod 8 = 0" "r = 64 * (r div 64)" "r div 8 \<le> 192" "r div 64 \<le> 24" "8 * (r div 64) = r div 8" "64 \<le> r"
    by (auto simp: valid_rate_def)
qed

text \<open>
  The state has absorbed the message \<open>m\<close>: its whole blocks are in the lanes, represented by \<open>repr\<close>,
  and its last bits in the queue, a byte begun filled up with zeros.
\<close>

definition absorbing :: "(lane list \<Rightarrow> lane list) \<Rightarrow> nat \<Rightarrow> bool list \<Rightarrow> spongeState \<Rightarrow> bool" where
  "absorbing repr r m s \<longleftrightarrow>
     valid_rate r \<and> rate s = r \<and> \<not> squeezing s \<and> sponge_state s = repr (standard_state r m)
     \<and> length (dataQueue s) = KeccakMaximumRateInBytes \<and> bitsInQueue s = length (leftover r m)
     \<and> take (bitsInQueue s) (data_bits (dataQueue s)) = leftover r m
     \<and> (\<forall>k. bitsInQueue s \<le> k \<and> k < 8 * ((bitsInQueue s + 7) div 8) \<longrightarrow> \<not> data_bits (dataQueue s) ! k)"

lemma absorbing_facts:
  assumes "absorbing repr r m s"
  shows "valid_rate r" "rate s = r" "\<not> squeezing s" "sponge_state s = repr (standard_state r m)"
    "length (dataQueue s) = 192" "bitsInQueue s = length (leftover r m)" "bitsInQueue s < r"
    "take (bitsInQueue s) (data_bits (dataQueue s)) = leftover r m"
  using assms by (auto simp: absorbing_def KeccakMaximumRateInBytes_def length_leftover valid_rate_def)

lemma clean_bits:
  "absorbing repr r m s \<Longrightarrow> bitsInQueue s \<le> k \<Longrightarrow> k < 8 * ((bitsInQueue s + 7) div 8) \<Longrightarrow>
   \<not> data_bits (dataQueue s) ! k"
  by (simp add: absorbing_def)

lemma absorbingI:
  "valid_rate r \<Longrightarrow> rate s = r \<Longrightarrow> \<not> squeezing s \<Longrightarrow> sponge_state s = repr (standard_state r m) \<Longrightarrow>
   length (dataQueue s) = 192 \<Longrightarrow> bitsInQueue s = length (leftover r m) \<Longrightarrow>
   take (bitsInQueue s) (data_bits (dataQueue s)) = leftover r m \<Longrightarrow>
   (\<And>k. bitsInQueue s \<le> k \<Longrightarrow> k < 8 * ((bitsInQueue s + 7) div 8) \<Longrightarrow> \<not> data_bits (dataQueue s) ! k) \<Longrightarrow>
   absorbing repr r m s"
  by (simp add: absorbing_def KeccakMaximumRateInBytes_def)

text \<open>With whole bytes in the queue there is nothing to be filled up.\<close>

lemma absorbing_bytes:
  assumes "valid_rate r" "rate s = r" "\<not> squeezing s" "sponge_state s = repr (standard_state r m)"
    "length (dataQueue s) = 192" "bitsInQueue s = length (leftover r m)"
    "take (bitsInQueue s) (data_bits (dataQueue s)) = leftover r m" "bitsInQueue s mod 8 = 0"
  shows "absorbing repr r m s"
proof (rule absorbingI [where repr = repr, OF assms(1-7)])
  fix k
  assume "bitsInQueue s \<le> k" "k < 8 * ((bitsInQueue s + 7) div 8)"
  with assms(8) show "\<not> data_bits (dataQueue s) ! k" by presburger
qed

text \<open>Some bits of one more byte.\<close>

lemma absorbing_last_bits:
  assumes inv: "absorbing repr r m s" and "bitsInQueue s mod 8 = 0" and "p < 8" and "bitsInQueue s + p < r"
    and "0 < p"
  shows "absorbing repr r (m @ take p (byte_bits x))
    (s\<lparr>dataQueue := (dataQueue s)[bitsInQueue s div 8 := x AND (push_bit p 1 - 1)],
      bitsInQueue := bitsInQueue s + p\<rparr>)"
proof -
  define y where "y = x AND (push_bit p 1 - 1)"
  let ?b = "bitsInQueue s" and ?Q = "data_bits (dataQueue s)" and ?x = "byte_bits y"
  note facts = absorbing_facts [OF inv] and rate = valid_rate_facts [OF absorbing_facts(1) [OF inv]]
  have b8: "8 * (?b div 8) = ?b" using assms(2) by presburger
  have in_q: "?b div 8 < length (dataQueue s)" using assms(4) facts(5) rate(2) by linarith
  have Q: "data_bits ((dataQueue s)[?b div 8 := y]) = overlay ?Q ?b ?x"
    using in_q b8 by (simp add: update_is_overlay data_bits_overlay)
  have room: "?b + 8 \<le> length ?Q" using in_q b8 by simp
  have bits: "?x = take p (byte_bits x) @ replicate (8 - p) False"
    using assms(3) unfolding y_def by (intro masked_byte_bits) simp
  have "take (?b + p) (overlay ?Q ?b ?x) = take ?b ?Q @ take p (byte_bits x)"
    using room assms(3) unfolding bits by (simp add: overlay_def min_def)
  moreover have "\<not> overlay ?Q ?b ?x ! k" if "?b + p \<le> k" "k < 8 * ((?b + p + 7) div 8)" for k
  proof -
    have "(?b + p + 7) div 8 = ?b div 8 + 1"
      by (rule div_nat_eqI) (use b8 assms(3,5) in simp_all)
    then have "k < ?b + 8" using that(2) b8 by simp
    moreover have "\<not> k - ?b < p" and "?b \<le> k" using that(1) by simp_all
    ultimately show ?thesis using room assms(3) unfolding bits by (simp add: nth_overlay nth_append)
  qed
  moreover have "standard_state r (m @ take p (byte_bits x)) = standard_state r m"
    "leftover r (m @ take p (byte_bits x)) = leftover r m @ take p (byte_bits x)"
    using assms(3,4) facts(6) by (auto intro!: leftover_short)
  ultimately show ?thesis
    using facts(1-5,7,8) facts(6) [symmetric] assms(3) unfolding y_def [symmetric]
    by (intro absorbingI) (simp_all add: Q)
qed

section \<open>The invariant of the squeezing phase\<close>

definition squeezing_from ::
  "(lane list \<Rightarrow> lane list) \<Rightarrow> nat \<Rightarrow> lane list \<Rightarrow> nat \<Rightarrow> spongeState \<Rightarrow> bool" where
  "squeezing_from repr r state e s \<longleftrightarrow>
     valid_rate r \<and> length state = 25 \<and> rate s = r \<and> squeezing s \<and> length (dataQueue s) = 192
     \<and> bitsAvailableForSqueezing s mod 8 = 0 \<and> bitsAvailableForSqueezing s \<le> r
     \<and> (\<exists>j. sponge_state s = repr ((keccak_f ^^ j) state)
          \<and> take (r div 8) (dataQueue s) = state_bytes ((keccak_f ^^ j) state) (r div 64)
          \<and> e + bitsAvailableForSqueezing s div 8 = (j + 1) * (r div 8))"

section \<open>Any implementation of the interface\<close>

locale keccak_provider =
  fixes K :: keccak_impl and repr :: "lane list \<Rightarrow> lane list"
  assumes initial: "impl_InitializeState K = repr (replicate 25 0)"
    and permutation: "impl_Permutation K (repr state) = repr (keccak_f state)"
    and absorb_576: "72 \<le> length data \<Longrightarrow>
      impl_Absorb576bits K (repr state) data = Ret (repr (absorbed state data 9))"
    and absorb_832: "104 \<le> length data \<Longrightarrow>
      impl_Absorb832bits K (repr state) data = Ret (repr (absorbed state data 13))"
    and absorb_1024: "128 \<le> length data \<Longrightarrow>
      impl_Absorb1024bits K (repr state) data = Ret (repr (absorbed state data 16))"
    and absorb_1088: "136 \<le> length data \<Longrightarrow>
      impl_Absorb1088bits K (repr state) data = Ret (repr (absorbed state data 17))"
    and absorb_1152: "144 \<le> length data \<Longrightarrow>
      impl_Absorb1152bits K (repr state) data = Ret (repr (absorbed state data 18))"
    and absorb_1344: "168 \<le> length data \<Longrightarrow>
      impl_Absorb1344bits K (repr state) data = Ret (repr (absorbed state data 21))"
    and absorb_lanes: "length state = 25 \<Longrightarrow> n \<le> 25 \<Longrightarrow> 8 * n \<le> length data \<Longrightarrow>
      impl_Absorb K (repr state) data n = Ret (repr (absorbed state data n))"
    and extract_1024: "length state = 25 \<Longrightarrow> 128 \<le> length data \<Longrightarrow>
      impl_Extract1024bits K (repr state) data = Ret (overlay data 0 (state_bytes state 16))"
    and extract_lanes: "length state = 25 \<Longrightarrow> n \<le> 25 \<Longrightarrow> 8 * n \<le> length data \<Longrightarrow>
      impl_Extract K (repr state) data n = Ret (overlay data 0 (state_bytes state n))"
begin

lemma absorb_block_repr:
  assumes "valid_rate r" and "length state = 25" and "r \<le> 8 * length data"
  shows "absorb_block K r (repr state) data = Ret (repr (standard_block state (take r (data_bits data))))"
proof -
  let ?n = "r div 64"
  note r = valid_rate_facts [OF assms(1)]
  have n: "8 * ?n \<le> length data" "?n \<le> 25" using assms(3) r by linarith+
  have std: "absorbed state data ?n = standard_block state (take r (data_bits data))"
    using absorbed_is_block [OF n] r(4) by simp
  have "absorb_block K r (repr state) data = Ret (repr (absorbed state data ?n))"
    unfolding absorb_block_def
    using absorb_lanes [OF assms(2) n(2,1)] absorb_576 absorb_832 absorb_1024 absorb_1088 absorb_1152 absorb_1344
      assms(3) by simp
  then show ?thesis by (simp add: std)
qed

lemma absorbing_queue_bytes:
  assumes inv: "absorbing repr r m s" and b8: "bitsInQueue s mod 8 = 0"
    and room: "bitsInQueue s + 8 * length xs \<le> r"
  defines "s1 \<equiv> s\<lparr>dataQueue := overlay (dataQueue s) (bitsInQueue s div 8) xs,
    bitsInQueue := bitsInQueue s + 8 * length xs\<rparr>"
  obtains s' where "(if bitsInQueue s1 = rate s1 then AbsorbQueue K s1 else Ret s1) = Ret s'"
    and "absorbing repr r (m @ data_bits xs) s'"
    and "bitsInQueue s' = (bitsInQueue s + 8 * length xs) mod r"
proof -
  let ?b = "bitsInQueue s" and ?Q = "data_bits (dataQueue s)"
  note facts = absorbing_facts [OF inv] and rate = valid_rate_facts [OF absorbing_facts(1) [OF inv]]
  have b: "8 * (?b div 8) = ?b" using b8 by presburger
  have len: "?b + 8 * length xs \<le> length ?Q" using room facts(5) rate(2) by simp
  then have len8: "?b div 8 + length xs \<le> length (dataQueue s)" using b by simp
  have Q: "data_bits (overlay (dataQueue s) (?b div 8) xs) = overlay ?Q ?b (data_bits xs)"
    by (simp add: data_bits_overlay b)
  have start: "take (?b + 8 * length xs) (overlay ?Q ?b (data_bits xs)) = leftover r m @ data_bits xs"
    using take_overlay [of ?b "data_bits xs" ?Q] len facts(8) by simp
  show ?thesis
  proof (cases "?b + 8 * length xs = r")
    case True
    have "AbsorbQueue K s1 = Ret (s1\<lparr>sponge_state := repr (standard_block (standard_state r m)
        (leftover r m @ data_bits xs)), bitsInQueue := 0\<rparr>)"
      using absorb_block_repr [OF facts(1) length_standard_state, of "overlay (dataQueue s) (?b div 8) xs" r m]
        len8 facts True start rate(2) Q by (simp add: s1_def AbsorbQueue_def)
    moreover have "standard_state r (m @ data_bits xs) = standard_block (standard_state r m) (leftover r m @ data_bits xs)"
      "leftover r (m @ data_bits xs) = []"
      using True facts(6) rate(1) by (auto intro!: leftover_full)
    ultimately show ?thesis
      using True facts len8 rate(1)
      by (intro that [of "s1\<lparr>sponge_state := repr (standard_block (standard_state r m)
        (leftover r m @ data_bits xs)), bitsInQueue := 0\<rparr>"]) (auto simp: s1_def intro!: absorbing_bytes)
  next
    case False
    have "standard_state r (m @ data_bits xs) = standard_state r m"
      "leftover r (m @ data_bits xs) = leftover r m @ data_bits xs"
      using False room facts(6) by (auto intro!: leftover_short)
    moreover have "(?b + 8 * length xs) mod 8 = 0" using b8 by presburger
    ultimately show ?thesis
      using False room facts len8 Q start
      by (intro that [of s1]) (auto simp: s1_def intro!: absorbing_bytes)
  qed
qed

text \<open>A part of the input goes to the queue, and out of it when it is full.\<close>

lemma absorb_part_result:
  assumes inv: "absorbing repr r m s" and b8: "bitsInQueue s mod 8 = 0" and i8: "i mod 8 = 0"
    and i: "i < N" and N: "N \<le> 8 * length data" and small: "N - i + bitsInQueue s < 2 ^ 32"
  defines "n \<equiv> min (N - i) (r - bitsInQueue s)"
  obtains s' where "absorb_part K s data N i = Ret (s', i + n)"
    and "absorbing repr r (m @ take n (drop i (data_bits data))) s'"
    and "bitsInQueue s' = (bitsInQueue s + n) mod r"
proof -
  let ?b = "bitsInQueue s" and ?D = "data_bits data"
  note facts = absorbing_facts [OF inv] and rate = valid_rate_facts [OF absorbing_facts(1) [OF inv]]
  have b: "?b < r" "?b = 8 * (?b div 8)" using facts(7) b8 by presburger+
  have iw: "i = 8 * (i div 8)" using i8 by presburger
  have n: "n \<le> N - i" "?b + n \<le> r" "n > 0" using b i by (auto simp: n_def)
  define w p where "w = n - n mod 8" and "p = n mod 8"
  have w: "w mod 8 = 0" "w = 8 * (w div 8)" "w \<le> n" "n = w + p" "p < 8"
    by (simp_all add: w_def p_def minus_mod_eq_mult_div)
  have part: "(if uint32 (uint32 (N - i) + ?b) > r then uint32_sub r ?b else uint32 (N - i)) = n"
    using small b rate(2) by (auto simp: uint32_id uint32_sub_id n_def)
  define xs where "xs = take (w div 8) (drop (i div 8) data)"
  have in_data: "i div 8 + w div 8 \<le> length data" using n(1) i N iw w(2,3) by linarith
  then have len: "8 * length xs = w" using w(2) by (simp add: xs_def)
  have bits: "data_bits xs = take w (drop i ?D)"
    using take_data_bits [of "w div 8" "drop (i div 8) data"] drop_data_bits [of "i div 8" data] iw w(2)
    by (simp add: xs_def)
  have fits: "?b div 8 + length xs \<le> length (dataQueue s)"
    using b n(2) w(3) len facts(5) rate(2) by linarith
  let ?s = "s\<lparr>dataQueue := overlay (dataQueue s) (?b div 8) xs, bitsInQueue := ?b + 8 * length xs\<rparr>"
  have "?b + 8 * length xs \<le> r" using n(2) w(3) len by linarith
  then obtain s1 where s1': "(if bitsInQueue ?s = rate ?s then AbsorbQueue K ?s else Ret ?s) = Ret s1"
    "absorbing repr r (m @ data_bits xs) s1" "bitsInQueue s1 = (?b + 8 * length xs) mod r"
    by (rule absorbing_queue_bytes [OF inv b8])
  note s1 = s1' [unfolded len]
  have small': "uint32 (?b + w) = ?b + w" using n(2) w(3) rate(2) by (simp add: uint32_def)
  have unfolded: "absorb_part K s data N i =
    (if i div 8 + w div 8 \<le> length data then
       obind (write_block (dataQueue s) (?b div 8) xs) (\<lambda>q.
       let s = s\<lparr>dataQueue := q, bitsInQueue := uint32 (?b + w)\<rparr>; i = i + w
       in obind (if bitsInQueue s = rate s then AbsorbQueue K s else Ret s) (\<lambda>s.
          if p > 0 then
            obind (peek data (i div 8)) (\<lambda>b.
            obind (poke (dataQueue s) (bitsInQueue s div 8) (b AND (push_bit p 1 - 1))) (\<lambda>q.
            Ret (s\<lparr>dataQueue := q, bitsInQueue := uint32 (bitsInQueue s + p)\<rparr>, i + p)))
          else Ret (s, i)))
     else Crash)"
    unfolding absorb_part_def part [folded facts(2)] Let_def w_def p_def xs_def ..
  have written: "write_block (dataQueue s) (?b div 8) xs = Ret (overlay (dataQueue s) (?b div 8) xs)"
    using fits by (rule write_block_in)
  have step: "absorb_part K s data N i =
    (if p > 0 then
       obind (peek data ((i + w) div 8)) (\<lambda>b.
       obind (poke (dataQueue s1) (bitsInQueue s1 div 8) (b AND (push_bit p 1 - 1))) (\<lambda>q.
       Ret (s1\<lparr>dataQueue := q, bitsInQueue := uint32 (bitsInQueue s1 + p)\<rparr>, i + w + p)))
     else Ret (s1, i + w))"
    unfolding unfolded written small' using in_data s1(1) by (simp only: Let_def obind.simps if_True)
  show ?thesis
  proof (cases "p = 0")
    case True
    then have "w = n" using w(4) by simp
    with True step bits s1(2,3) show ?thesis by (intro that [of s1]) simp_all
  next
    case False
    have "(r - ?b) mod 8 = 0" using rate(3) b8 b(1) by presburger
    then have "n \<noteq> r - ?b" using False p_def by auto
    then have last: "n = N - i" "?b + n < r" using n_def b(1) by (auto simp: min_def split: if_splits)
    let ?k = "(i + w) div 8"
    have k: "8 * ?k = i + w" using i8 w(1) by presburger
    have below: "w < n" "w + p = n" using False w(4) by simp_all
    have in_k: "?k < length data" using k below last(1) i N by linarith
    have q: "bitsInQueue s1 = ?b + w" "bitsInQueue s1 mod 8 = 0" "bitsInQueue s1 + p < r"
      using s1(3) last(2) below b8 w(1) mod_add_eq [of ?b 8 w] by simp_all
    have in_q: "bitsInQueue s1 div 8 < length (dataQueue s1)"
      using q(3) absorbing_facts(5) [OF s1(2)] rate(2) by simp
    have "take p (drop (i + w) ?D) = take p (byte_bits (data ! ?k))"
    proof -
      have "drop (i + w) ?D = data_bits (data ! ?k # drop (Suc ?k) data)"
        using drop_data_bits [of ?k data] by (simp only: Cons_nth_drop_Suc [OF in_k] k)
      with w(5) show ?thesis by simp
    qed
    then have "take n (drop i ?D) = data_bits xs @ take p (byte_bits (data ! ?k))"
      using below(2) bits take_add [of w p "drop i ?D"] by (simp add: add.commute)
    moreover have "uint32 (bitsInQueue s1 + p) = bitsInQueue s1 + p" using q(3) rate(2) by (simp add: uint32_def)
    moreover define s2 where "s2 = s1\<lparr>dataQueue := (dataQueue s1)[bitsInQueue s1 div 8 :=
          data ! ?k AND (push_bit p 1 - 1)], bitsInQueue := bitsInQueue s1 + p\<rparr>"
    ultimately have run: "absorb_part K s data N i = Ret (s2, i + n)"
      and after: "absorbing repr r (m @ take n (drop i ?D)) s2"
      using step in_k in_q False absorbing_last_bits [OF s1(2) q(2) _ q(3), of "data ! ?k"] w(4,5)
      by (simp_all add: mem_simps add.assoc)
    have "bitsInQueue s2 = bitsInQueue s1 + p" unfolding s2_def by simp
    then have "bitsInQueue s2 = (?b + n) mod r" using q(1) last(2) below(2) by simp
    with run after show ?thesis by (rule that)
  qed
qed


text \<open>Whole blocks are absorbed without the queue.\<close>

lemma absorb_blocks_result:
  assumes "valid_rate r" and "leftover r m = []" and "r * j \<le> 8 * length cur"
  shows "absorb_blocks K r (repr (standard_state r m)) cur j =
      Ret (repr (standard_state r (m @ take (r * j) (data_bits cur))))
    \<and> leftover r (m @ take (r * j) (data_bits cur)) = []"
  using assms(2,3)
proof (induction j arbitrary: m cur)
  case (Suc j)
  note rate = valid_rate_facts [OF assms(1)]
  have r8: "r = 8 * (r div 8)" using rate(3) by presburger
  have len: "r \<le> 8 * length cur" "r * j \<le> 8 * length (drop (r div 8) cur)"
    using Suc.prems(2) r8 by (simp_all add: diff_mult_distrib2)
  let ?x = "take r (data_bits cur)"
  have full: "standard_state r (m @ ?x) = standard_block (standard_state r m) ?x" "leftover r (m @ ?x) = []"
    using leftover_full [of r m ?x] Suc.prems(1) len(1) rate(1) by simp_all
  have "drop r (data_bits cur) = data_bits (drop (r div 8) cur)"
    using drop_data_bits [of "r div 8" cur] r8 by simp
  then have "?x @ take (r * j) (data_bits (drop (r div 8) cur)) = take (r * Suc j) (data_bits cur)"
    using take_add [of r "r * j" "data_bits cur"] by simp
  with Suc.IH [OF full(2) len(2)] absorb_block_repr [OF assms(1) length_standard_state len(1), of r m] full(1)
  show ?case by simp
qed simp

lemma take_split:
  assumes "n \<le> N - i"
  shows "take n (drop i xs) @ take (N - (i + n)) (drop (i + n) xs) = take (N - i) (drop i xs)"
proof -
  have "N - i = n + (N - (i + n))" using assms by simp
  then show ?thesis using take_add [of n "N - (i + n)" "drop i xs"] by (simp add: add.commute)
qed

lemma absorb_loop_result:
  assumes inv: "absorbing repr r m s" and "bitsInQueue s mod 8 = 0" and "i mod 8 = 0" and "i \<le> N"
    and "N \<le> 8 * length data" and "bitsInQueue s = 0 \<or> N - i + bitsInQueue s < 2 ^ 32"
  shows "\<exists>s'. absorb_loop K s data N i = Some (Ret s')
    \<and> absorbing repr r (m @ take (N - i) (drop i (data_bits data))) s'"
  using assms
proof (induction "N - i" arbitrary: m s i rule: less_induct)
  case less
  let ?b = "bitsInQueue s" and ?D = "data_bits data"
  note facts = absorbing_facts [OF less.prems(1)]
  note rate = valid_rate_facts [OF facts(1)]
  show ?case
  proof (cases "i < N")
    case False
    then show ?thesis using less.prems(1,4) by (subst absorb_loop.simps) simp
  next
    case True
    show ?thesis
    proof (cases "?b = 0 \<and> N \<ge> r \<and> i \<le> N - r")
      case fast: True
      let ?j = "(N - i) div r"
      let ?s = "s\<lparr>sponge_state := repr (standard_state r (m @ take (r * ?j) (drop i ?D)))\<rparr>"
      have le: "r * ?j \<le> N - i" by simp
      have pos: "0 < r * ?j" using fast rate(1) True by (simp add: div_greater_zero_iff) linarith
      have i8: "i = 8 * (i div 8)" using less.prems(3) by presburger
      have D: "drop i ?D = data_bits (drop (i div 8) data)" using drop_data_bits [of "i div 8" data] i8 by simp
      have no: "leftover r m = []" using fast facts(6) by simp
      have "8 * length (drop (i div 8) data) = 8 * length data - i" using i8 by (simp add: diff_mult_distrib2)
      then have "r * ?j \<le> 8 * length (drop (i div 8) data)" using le less.prems(5) by linarith
      from absorb_blocks_result [OF facts(1) no this]
      have blocks: "absorb_blocks K r (sponge_state s) (drop (i div 8) data) ?j =
          Ret (repr (standard_state r (m @ take (r * ?j) (drop i ?D))))"
        "leftover r (m @ take (r * ?j) (drop i ?D)) = []" by (simp_all add: facts(4) D)
      have "absorbing repr r (m @ take (r * ?j) (drop i ?D)) ?s"
        using facts fast blocks(2) by (intro absorbing_bytes) simp_all
      moreover have "(i + ?j * r) mod 8 = 0" using less.prems(3) rate(3) by (metis mod_add_eq mod_mult_right_eq add_0 mult_0_right mod_0)
      moreover have "N - (i + ?j * r) < N - i" "i + ?j * r \<le> N"
        unfolding mult.commute [of ?j r] using pos le True by linarith+
      ultimately obtain s' where "absorb_loop K ?s data N (i + ?j * r) = Some (Ret s')"
        "absorbing repr r ((m @ take (r * ?j) (drop i ?D)) @ take (N - (i + ?j * r)) (drop (i + ?j * r) ?D)) s'"
        using less.hyps [of "i + ?j * r" "m @ take (r * ?j) (drop i ?D)" ?s] less.prems(5) fast by auto
      moreover have "take (r * ?j) (drop i ?D) @ take (N - (i + ?j * r)) (drop (i + ?j * r) ?D)
          = take (N - i) (drop i ?D)"
        using take_split [OF le] by (simp add: mult.commute)
      ultimately show ?thesis
        using True fast blocks(1) facts(2) by (subst absorb_loop.simps) simp
    next
      case slow: False
      define n where "n = min (N - i) (r - ?b)"
      have small: "N - i + ?b < 2 ^ 32" using less.prems(6) slow rate(2) True by auto
      obtain s' where part: "absorb_part K s data N i = Ret (s', i + n)"
        "absorbing repr r (m @ take n (drop i ?D)) s'" "bitsInQueue s' = (?b + n) mod r"
        using absorb_part_result [OF less.prems(1-3) True less.prems(5) small] unfolding n_def by blast
      have pos: "0 < n" "n \<le> N - i" using True facts(7) by (simp_all add: n_def)
      have all: "take n (drop i ?D) @ take (N - (i + n)) (drop (i + n) ?D) = take (N - i) (drop i ?D)"
        using pos(2) by (rule take_split)
      have loop: "absorb_loop K s data N i = absorb_loop K s' data N (i + n)"
        using True slow part(1) facts(2) by (subst absorb_loop.simps) (simp only: if_True if_False rbind_simps prod.case)
      show ?thesis
      proof (cases "i + n = N")
        case end_: True
        then have "absorb_loop K s' data N (i + n) = Some (Ret s')" by (subst absorb_loop.simps) simp
        with loop part(2) end_ pos show ?thesis by auto
      next
        case False
        then have n: "n = r - ?b" "?b + n = r" using facts(7) True by (auto simp: n_def min_def split: if_splits)
        have "n mod 8 = 0" using n(1) rate(3) less.prems(2) facts(7) by presburger
        then have "(i + n) mod 8 = 0" using less.prems(3) by presburger
        moreover have "bitsInQueue s' = 0" using part(3) n(2) by simp
        moreover have "N - (i + n) < N - i" "i + n \<le> N" using pos True by linarith+
        ultimately obtain s'' where "absorb_loop K s' data N (i + n) = Some (Ret s'')"
          "absorbing repr r ((m @ take n (drop i ?D)) @ take (N - (i + n)) (drop (i + n) ?D)) s''"
          using less.hyps [of "i + n" "m @ take n (drop i ?D)" s'] less.prems(5) part(2) by auto
        with loop all show ?thesis by simp
      qed
    qed
  qed
qed

lemma Absorb_result:
  assumes "absorbing repr r m s" and "bitsInQueue s mod 8 = 0" and "N \<le> 8 * length data"
    and "bitsInQueue s = 0 \<or> N + bitsInQueue s < 2 ^ 32"
  obtains s' where "Absorb K s data N = Some (Ret (0, s'))"
    and "absorbing repr r (m @ take N (data_bits data)) s'"
  using absorb_loop_result [OF assms(1,2), of 0 N data] assms absorbing_facts(3) [OF assms(1)]
  by (auto simp: Absorb_def)
text \<open>The padding, and the first block for squeezing.\<close>

lemma or_byte_sets_bit:
  assumes "k < 8 * length q"
  obtains q' where "or_byte q (k div 8) (push_bit (k mod 8) 1) = Ret q'"
    and "length q' = length q" and "data_bits q' = (data_bits q)[k := True]"
proof -
  have in_q: "k div 8 < length q" using assms by linarith
  define q' where "q' = q[k div 8 := (q ! (k div 8)) OR push_bit (k mod 8) 1]"
  have "data_bits q' = (data_bits q)[k := True]"
  proof (rule nth_equalityI)
    fix l
    assume "l < length (data_bits q')"
    then have l: "l < 8 * length q" by (simp add: q'_def)
    have same: "l = k \<longleftrightarrow> l div 8 = k div 8 \<and> l mod 8 = k mod 8" by (metis mult_div_mod_eq)
    have "bit (q' ! (l div 8)) (l mod 8) \<longleftrightarrow> l = k \<or> bit (q ! (l div 8)) (l mod 8)"
    proof (cases "l div 8 = k div 8")
      case True
      have "bit (push_bit (k mod 8) 1 :: byte) (l mod 8) \<longleftrightarrow> l mod 8 = k mod 8"
        by (auto simp: bit_simps)
      with True in_q same show ?thesis by (auto simp: q'_def bit_or_iff)
    next
      case False
      with same show ?thesis by (simp add: q'_def)
    qed
    with l assms show "data_bits q' ! l = (data_bits q)[k := True] ! l"
      by (simp add: nth_data_bits nth_list_update q'_def)
  qed (simp add: q'_def)
  with in_q show ?thesis by (intro that [of q']) (simp_all add: or_byte_def q'_def mem_simps)
qed

lemma extract_block_result:
  assumes "valid_rate r" and "rate s = r" and "sponge_state s = repr state" and "length state = 25"
    and "length (dataQueue s) = 192"
  shows "extract_block K s = Ret (s\<lparr>dataQueue := overlay (dataQueue s) 0 (state_bytes state (r div 64)),
    bitsAvailableForSqueezing := r\<rparr>)"
  using extract_1024 [OF assms(4), of "dataQueue s"] extract_lanes [OF assms(4), of "r div 64" "dataQueue s"]
    valid_rate_facts [OF assms(1)] assms(2,3,5)
  by (simp add: extract_block_def)

text \<open>Squeezing: the queue holds a block of the output, its last bytes still to be read.\<close>

lemma refill_result:
  assumes inv: "squeezing_from repr r state e s"
  obtains s' where "(if bitsAvailableForSqueezing s = 0
      then extract_block K (s\<lparr>sponge_state := impl_Permutation K (sponge_state s)\<rparr>) else Ret s) = Ret s'"
    and "squeezing_from repr r state e s'" and "0 < bitsAvailableForSqueezing s'"
proof (cases "bitsAvailableForSqueezing s = 0")
  case True
  from inv obtain j where s: "valid_rate r" "length state = 25" "rate s = r" "squeezing s" "length (dataQueue s) = 192"
    "sponge_state s = repr ((keccak_f ^^ j) state)" "e = (j + 1) * (r div 8)"
    using True unfolding squeezing_from_def by auto
  note rate = valid_rate_facts [OF s(1)]
  let ?next = "(keccak_f ^^ (j + 1)) state"
  define s' where "s' = s\<lparr>sponge_state := repr ?next, dataQueue := overlay (dataQueue s) 0 (state_bytes ?next (r div 64)),
    bitsAvailableForSqueezing := r\<rparr>"
  have len: "length ?next = 25" using length_keccak_f_power [OF s(2)] .
  have "extract_block K (s\<lparr>sponge_state := impl_Permutation K (sponge_state s)\<rparr>) = Ret s'"
    using extract_block_result [OF s(1) _ _ len, of "s\<lparr>sponge_state := repr ?next\<rparr>"] s
    by (simp add: permutation s'_def)
  moreover have "squeezing_from repr r state e s'"
    unfolding squeezing_from_def using s(1-5,7) rate len
    by (auto intro!: exI [of _ "j + 1"] simp: s'_def overlay_def min_def simp del: funpow.simps)
  moreover have "0 < bitsAvailableForSqueezing s'" using rate(1) by (simp add: s'_def)
  ultimately show ?thesis using True by (intro that [of s']) simp_all
next
  case False
  with inv show ?thesis by (intro that [of s]) simp_all
qed

lemma squeeze_part:
  assumes inv: "squeezing_from repr r state e s" and "8 * n \<le> bitsAvailableForSqueezing s" and "0 < n"
  defines "from \<equiv> uint32_sub (rate s) (bitsAvailableForSqueezing s) div 8"
  shows "from + n \<le> length (dataQueue s)"
    and "take n (drop from (dataQueue s)) = map (out_byte r state) [e..<e + n]"
    and "squeezing_from repr r state (e + n) (s\<lparr>bitsAvailableForSqueezing := bitsAvailableForSqueezing s - 8 * n\<rparr>)"
proof -
  from inv obtain j where s: "valid_rate r" "length state = 25" "rate s = r" "squeezing s" "length (dataQueue s) = 192"
    "sponge_state s = repr ((keccak_f ^^ j) state)"
    "take (r div 8) (dataQueue s) = state_bytes ((keccak_f ^^ j) state) (r div 64)"
    "e + bitsAvailableForSqueezing s div 8 = (j + 1) * (r div 8)" "bitsAvailableForSqueezing s mod 8 = 0"
    "bitsAvailableForSqueezing s \<le> r"
    unfolding squeezing_from_def by auto
  note rate = valid_rate_facts [OF s(1)]
  define a where "a = bitsAvailableForSqueezing s div 8"
  have a: "bitsAvailableForSqueezing s = 8 * a" using s(9) unfolding a_def by presburger
  have "from = (r - 8 * a) div 8" using s(3,10) rate(2) a by (simp add: from_def uint32_sub_id)
  moreover obtain b where "r = 8 * b" using rate(3) by (metis mod_0_imp_dvd dvdE)
  ultimately have "from": "from + a = r div 8" using s(10) a by (simp flip: diff_mult_distrib2)
  have na: "n \<le> a" using assms(2) a by simp
  show in_q: "from + n \<le> length (dataQueue s)" using "from" na rate(5) s(5) by linarith
  have e: "e = j * (r div 8) + from" using s(8) "from" a_def by simp
  show "take n (drop from (dataQueue s)) = map (out_byte r state) [e..<e + n]"
  proof (rule nth_equalityI)
    fix k
    assume "k < length (take n (drop from (dataQueue s)))"
    then have k: "k < n" by simp
    then have small: "from + k < r div 8" using "from" na by simp
    have "(e + k) div (r div 8) = j"
      using small unfolding e by (intro div_nat_eqI) simp_all
    moreover have "(e + k) mod (r div 8) = from + k" using small unfolding e by (simp add: add.assoc)
    moreover have "dataQueue s ! (from + k) = state_bytes ((keccak_f ^^ j) state) (r div 64) ! (from + k)"
      using small unfolding s(7) [symmetric] by simp
    ultimately show "take n (drop from (dataQueue s)) ! k = map (out_byte r state) [e..<e + n] ! k"
      using k in_q by (simp add: out_byte_def)
  qed (use in_q in simp)
  show "squeezing_from repr r state (e + n) (s\<lparr>bitsAvailableForSqueezing := bitsAvailableForSqueezing s - 8 * n\<rparr>)"
    unfolding squeezing_from_def using s na unfolding a
    by (auto intro!: exI [of _ j] simp flip: diff_mult_distrib2)
qed

lemma squeeze_loop_result:
  assumes "squeezing_from repr r state e s" and "i mod 8 = 0" and "N mod 8 = 0" and "i \<le> N"
    and "N \<le> 8 * length out"
  shows "\<exists>s'. squeeze_loop K s out N i =
      Some (Ret (s', overlay out (i div 8) (map (out_byte r state) [e..<e + (N - i) div 8])))
    \<and> squeezing_from repr r state (e + (N - i) div 8) s'"
  using assms
proof (induction "N - i" arbitrary: s i e out rule: less_induct)
  case less
  show ?case
  proof (cases "i < N")
    case False
    then show ?thesis using less.prems(1,4) by (subst squeeze_loop.simps) (simp add: overlay_def)
  next
    case True
    obtain s1 where s1: "(if bitsAvailableForSqueezing s = 0
        then extract_block K (s\<lparr>sponge_state := impl_Permutation K (sponge_state s)\<rparr>) else Ret s) = Ret s1"
      "squeezing_from repr r state e s1" "0 < bitsAvailableForSqueezing s1"
      using refill_result [OF less.prems(1)] by blast
    let ?a = "bitsAvailableForSqueezing s1"
    have a: "?a mod 8 = 0" "?a \<le> r" "r \<le> 1536" "rate s1 = r"
      using s1(2) valid_rate_facts(2) by (auto simp: squeezing_from_def)
    define p where "p = (if ?a > N - i then uint32 (N - i) else ?a)"
    have p_min: "p = min ?a (N - i)" using a by (auto simp: p_def uint32_def)
    have "(N - i) mod 8 = 0" using less.prems(2,3) by presburger
    then have "p mod 8 = 0" using a(1) by (simp add: p_min min_def)
    then obtain n where n: "p = 8 * n" by (metis mod_0_imp_dvd dvdE)
    have pos: "0 < n" using p_min n True s1(3) by auto
    have le: "8 * n \<le> ?a" "8 * n \<le> N - i" using p_min n by auto
    obtain i8 N8 where words: "i = 8 * i8" "N = 8 * N8" using less.prems(2,3) by (metis mod_0_imp_dvd dvdE)
    note part = squeeze_part [OF s1(2) le(1) pos]
    let ?s = "s1\<lparr>bitsAvailableForSqueezing := ?a - p\<rparr>" and ?out = "overlay out i8 (map (out_byte r state) [e..<e + n])"
    have bound: "i8 + n \<le> length out" using le(2) words less.prems(4,5) by simp
    have "write_block out i8 (map (out_byte r state) [e..<e + n]) = Ret ?out"
      using bound by (simp add: mem_simps)
    moreover have "squeeze_loop K s out N i =
        (if uint32_sub (rate s1) ?a div 8 + p div 8 \<le> length (dataQueue s1) then
           rbind (Some (write_block out (i div 8)
             (take (p div 8) (drop (uint32_sub (rate s1) ?a div 8) (dataQueue s1)))))
             (\<lambda>out. squeeze_loop K ?s out N (i + p))
         else Some Crash)"
      by (subst squeeze_loop.simps) (simp only: True s1(1) rbind_simps if_True p_def Let_def)
    moreover have "p div 8 = n" "i div 8 = i8" using n words(1) by simp_all
    ultimately have loop: "squeeze_loop K s out N i = squeeze_loop K ?s ?out N (i + p)"
      using part(1,2) by simp
    have "i8 + n \<le> N8" using le(2) words True by linarith
    moreover obtain l where "l = N8 - (i8 + n)" by simp
    ultimately have rest: "i + p = 8 * (i8 + n)" "N - (i + p) = 8 * l" "N - i = 8 * (n + l)" "i8 + n + l = N8"
      using words n by simp_all
    have "N - (i + p) < N - i" unfolding rest(2,3) using pos by simp
    moreover have "(i + p) mod 8 = 0" unfolding rest(1) by simp
    moreover have "i + p \<le> N" using rest(1,4) words(2) by simp
    moreover have "N \<le> 8 * length ?out" using less.prems(5) bound by simp
    ultimately have "\<exists>s'. squeeze_loop K ?s ?out N (i + p) =
        Some (Ret (s', overlay ?out ((i + p) div 8) (map (out_byte r state) [e + n..<e + n + (N - (i + p)) div 8])))
      \<and> squeezing_from repr r state (e + n + (N - (i + p)) div 8) s'"
      using part(3) less.prems(3) n by (intro less.hyps) simp_all
    moreover have "overlay ?out (i8 + n) (map (out_byte r state) [e + n..<e + n + l])
        = overlay out i8 (map (out_byte r state) [e..<e + (n + l)])"
    proof -
      have "i8 + n + l \<le> length out" using words(2) rest(4) less.prems(5) by simp
      then show ?thesis
        using overlay_overlay [of i8 "map (out_byte r state) [e..<e + n]"
            "map (out_byte r state) [e + n..<e + n + l]" out]
          upt_add_eq_append [of e "e + n" l]
        by (simp flip: map_append add: add.assoc)
    qed
    moreover have "(i + p) div 8 = i8 + n" "(N - (i + p)) div 8 = l" "(N - i) div 8 = n + l"
      using rest by simp_all
    ultimately show ?thesis using \<open>i div 8 = i8\<close> by (simp add: loop add.assoc)
  qed
qed

lemma Squeeze_result:
  assumes "squeezing_from repr r state e s" and "8 * n \<le> 8 * length out"
  obtains s' where "Squeeze K s out (8 * n) =
      Some (Ret (0, s', overlay out 0 (map (out_byte r state) [e..<e + n])))"
    and "squeezing_from repr r state (e + n) s'"
proof -
  have "squeezing s" using assms(1) by (simp add: squeezing_from_def)
  then show ?thesis using squeeze_loop_result [OF assms(1), of 0 "8 * n" out] assms(2) that
    by (auto simp: Squeeze_def)
qed

text \<open>The padding.\<close>

lemma pad_is:
  fixes m :: "bool list"
  assumes "valid_rate r"
  defines "b \<equiv> length (leftover r m)"
  shows "b + 2 \<le> r \<Longrightarrow> pad r m = m @ True # replicate (r - (b + 2)) False @ [True]"
    and "b + 1 = r \<Longrightarrow> pad r m = (m @ [True]) @ replicate (r - 1) False @ [True]"
proof -
  have r: "0 < r" "64 \<le> r" using valid_rate_facts(1,8) [OF assms(1)] by auto
  have mod: "(length m + 2) mod r = (b + 2) mod r" by (simp only: b_def length_leftover mod_add_left_eq)
  show "b + 2 \<le> r \<Longrightarrow> pad r m = m @ True # replicate (r - (b + 2)) False @ [True]"
    unfolding pad_def mod using r by (cases "b + 2 = r") simp_all
  assume "b + 1 = r"
  then have "b + 2 = 1 + r" by simp
  then have "(b + 2) mod r = 1" using r by (simp only: mod_add_self2) simp
  then show "pad r m = (m @ [True]) @ replicate (r - 1) False @ [True]" unfolding pad_def mod using r by simp
qed

lemma PadAndSwitch_result:
  assumes inv: "absorbing repr r m s"
  obtains s' where "PadAndSwitchToSqueezingPhase K s = Ret s'"
    and "squeezing_from repr r (standard_state r (pad r m)) 0 s'" and "fixedOutputLength s' = fixedOutputLength s"
proof -
  let ?b = "bitsInQueue s" and ?Q = "data_bits (dataQueue s)"
  note facts = absorbing_facts [OF inv] and rate = valid_rate_facts [OF absorbing_facts(1) [OF inv]]
  have r8: "r = 8 * (r div 8)" and pos: "64 \<le> r" using rate(3,8) by auto
  have small: "uint32 (?b + 1) = ?b + 1" "uint32_sub r 1 = r - 1"
    using facts(7) rate(1,2) by (simp_all add: uint32_id uint32_sub_id)
  have first: "\<exists>s1. (if uint32 (?b + 1) = rate s then
        obind (or_byte (dataQueue s) (?b div 8) (push_bit (?b mod 8) 1)) (\<lambda>q.
        obind (AbsorbQueue K (s\<lparr>dataQueue := q\<rparr>)) (\<lambda>s.
        obind (write_block (dataQueue s) 0 (replicate (rate s div 8) 0)) (\<lambda>q. Ret (s\<lparr>dataQueue := q\<rparr>))))
      else
        obind (write_block (dataQueue s) ((?b + 7) div 8)
                (replicate (uint32_sub (rate s div 8) ((?b + 7) div 8)) 0)) (\<lambda>q.
        obind (or_byte q (?b div 8) (push_bit (?b mod 8) 1)) (\<lambda>q. Ret (s\<lparr>dataQueue := q\<rparr>)))) = Ret s1
    \<and> (\<exists>m' x. pad r m = m' @ x @ [True] \<and> length (leftover r m') + length x + 1 = r
        \<and> sponge_state s1 = repr (standard_state r m')
        \<and> take (r - 1) (data_bits (dataQueue s1)) = leftover r m' @ x)
    \<and> length (dataQueue s1) = 192 \<and> rate s1 = r \<and> fixedOutputLength s1 = fixedOutputLength s"
    (is "\<exists>s1. ?branch = Ret s1 \<and> _ s1")
  proof (cases "?b + 1 = r")
    case True
    obtain q where q: "or_byte (dataQueue s) (?b div 8) (push_bit (?b mod 8) 1) = Ret q"
      "length q = length (dataQueue s)" "data_bits q = ?Q[?b := True]"
      using or_byte_sets_bit [of ?b "dataQueue s"] facts(5,7) rate(2) by auto
    have "take r (data_bits q) = leftover r m @ [True]"
      using facts(5,8) rate(2) unfolding True [symmetric] q(3) by (simp add: take_Suc_conv_app_nth)
    moreover have "leftover r (m @ [True]) = []"
      "standard_state r (m @ [True]) = standard_block (standard_state r m) (leftover r m @ [True])"
      using True facts(6) rate(1) by (auto intro!: leftover_full)
    ultimately have "AbsorbQueue K (s\<lparr>dataQueue := q\<rparr>)
        = Ret (s\<lparr>dataQueue := q, sponge_state := repr (standard_state r (m @ [True])), bitsInQueue := 0\<rparr>)"
      using absorb_block_repr [OF facts(1) length_standard_state, of q r m] q(2) facts(2,4,5) rate(2)
      by (simp add: AbsorbQueue_def)
    moreover have "data_bits (overlay q 0 (replicate (r div 8) 0)) = overlay (data_bits q) 0 (replicate r False)"
      using r8 data_bits_zeros [of "r div 8"] by (simp add: data_bits_overlay del: data_bits_simps)
    then have "take (r - 1) (data_bits (overlay q 0 (replicate (r div 8) 0))) = replicate (r - 1) False"
      by (simp add: overlay_def del: data_bits_simps)
    ultimately show ?thesis
      using True small(1) facts(2,5) q(1,2) rate(2,5) pos \<open>leftover r (m @ [True]) = []\<close>
        pad_is(2) [OF facts(1), of m] facts(6)
      by (intro exI [of _ "s\<lparr>dataQueue := overlay q 0 (replicate (r div 8) 0),
          sponge_state := repr (standard_state r (m @ [True])), bitsInQueue := 0\<rparr>"] conjI
          exI [of _ "m @ [True]"] exI [of _ "replicate (r - 1) False"])
        (simp_all add: mem_simps)
  next
    case False
    then have b: "?b + 2 \<le> r" using facts(7) by simp
    define z where "z = (?b + 7) div 8"
    have z_le: "z \<le> r div 8" "?b \<le> 8 * z" using r8 b unfolding z_def by presburger+
    then have z: "8 * z \<le> r" "?b \<le> 8 * z" "z \<le> r div 8" using r8 by linarith+
    define q0 where "q0 = overlay (dataQueue s) z (replicate (r div 8 - z) 0)"
    have written: "write_block (dataQueue s) z (replicate (uint32_sub (r div 8) z) 0) = Ret q0"
      using z(3) facts(5) rate(2,5) by (simp add: uint32_sub_id q0_def mem_simps)
    have len: "length q0 = 192" using z(3) facts(5) rate(5) by (simp add: q0_def)
    have Q0: "data_bits q0 = overlay ?Q (8 * z) (replicate (r - 8 * z) False)"
      using r8 by (simp add: q0_def data_bits_overlay data_bits_zeros diff_mult_distrib2)
    obtain q where q: "or_byte q0 (?b div 8) (push_bit (?b mod 8) 1) = Ret q"
      "length q = length q0" "data_bits q = (data_bits q0)[?b := True]"
      using or_byte_sets_bit [of ?b q0] len facts(7) rate(2) by auto
    have "take (r - 1) (data_bits q) = leftover r m @ True # replicate (r - (?b + 2)) False"
    proof (rule nth_equalityI)
      show "length (take (r - 1) (data_bits q)) = length (leftover r m @ True # replicate (r - (?b + 2)) False)"
        using b len q(2) rate(2) facts(6) by simp
      fix k
      assume "k < length (take (r - 1) (data_bits q))"
      then have "k < r - 1" by simp
      then have k: "k < r - 1" "k < r" by linarith+
      have old: "?Q ! k = leftover r m ! k" if "k < ?b" using that nth_take [of k ?b ?Q] facts(8) by simp
      have "\<not> data_bits q0 ! k" if "?b \<le> k"
      proof (cases "k < 8 * z")
        case True
        with clean_bits [OF inv that] z rate(2) facts(5) show ?thesis by (simp add: Q0 z_def nth_overlay)
      next
        case False
        with k z rate(2) facts(5) show ?thesis by (simp add: Q0 nth_overlay)
      qed
      moreover have "data_bits q0 ! k = ?Q ! k" if "k < ?b" using that z rate(2) facts(5) by (simp add: Q0 nth_overlay)
      ultimately show "take (r - 1) (data_bits q) ! k = (leftover r m @ True # replicate (r - (?b + 2)) False) ! k"
        using k old facts(6) len rate(2) b unfolding q(3)
        by (auto simp: nth_append nth_list_update nth_Cons' q(2))
    qed
    moreover have "1 + length (leftover r m) + (r - (?b + 2)) + 1 = r" using b facts(6) by simp
    ultimately show ?thesis
      using False small(1) facts(2,4-6) q(1,2) len written pad_is(1) [OF facts(1), of m] b
      unfolding z_def [symmetric]
      by (intro exI [of _ "s\<lparr>dataQueue := q\<rparr>"] conjI exI [of _ m]
          exI [of _ "True # replicate (r - (?b + 2)) False"]) simp_all
  qed
  then obtain s1 m' x where branch: "?branch = Ret s1" and s1: "pad r m = m' @ x @ [True]" "length (leftover r m') + length x + 1 = r"
    "sponge_state s1 = repr (standard_state r m')" "take (r - 1) (data_bits (dataQueue s1)) = leftover r m' @ x"
    "length (dataQueue s1) = 192" "rate s1 = r" "fixedOutputLength s1 = fixedOutputLength s"
    by blast
  have run: "PadAndSwitchToSqueezingPhase K s = obind (or_byte (dataQueue s1) ((r - 1) div 8) (push_bit ((r - 1) mod 8) 1)) (\<lambda>q.
     obind (AbsorbQueue K (s1\<lparr>dataQueue := q\<rparr>)) (\<lambda>s.
     obind (extract_block K s) (\<lambda>s. Ret (s\<lparr>squeezing := True\<rparr>))))"
    unfolding PadAndSwitchToSqueezingPhase_def branch obind.simps s1(6) small(2) ..
  have "r - 1 < 8 * length (dataQueue s1)" using s1(5) rate(1,2) by simp
  then obtain q where q: "or_byte (dataQueue s1) ((r - 1) div 8) (push_bit ((r - 1) mod 8) 1) = Ret q"
    "length q = 192" "data_bits q = (data_bits (dataQueue s1))[r - 1 := True]"
    using or_byte_sets_bit [of "r - 1" "dataQueue s1"] s1(5) by metis
  have "r = Suc (r - 1)" using rate(1) by simp
  then have "take r (data_bits q) = leftover r m' @ x @ [True]"
    using s1(4,5) rate(2) take_Suc_conv_app_nth [of "r - 1" "data_bits q"] unfolding q(3) by simp
  moreover have "standard_state r (pad r m) = standard_block (standard_state r m') (leftover r m' @ x @ [True])"
    unfolding s1(1) using s1(2) rate(1) by (intro leftover_full) simp_all
  ultimately have "AbsorbQueue K (s1\<lparr>dataQueue := q\<rparr>)
      = Ret (s1\<lparr>dataQueue := q, sponge_state := repr (standard_state r (pad r m)), bitsInQueue := 0\<rparr>)"
    using absorb_block_repr [OF facts(1) length_standard_state, of q r m'] q(2) s1(3,6) rate(2)
    by (simp add: AbsorbQueue_def)
  moreover define s' where "s' = s1\<lparr>dataQueue := overlay q 0 (state_bytes (standard_state r (pad r m)) (r div 64)),
    sponge_state := repr (standard_state r (pad r m)), bitsInQueue := 0, bitsAvailableForSqueezing := r,
    squeezing := True\<rparr>"
  ultimately have "PadAndSwitchToSqueezingPhase K s = Ret s'"
    using extract_block_result [OF facts(1) _ _ length_standard_state] q(1,2) s1(6) by (simp add: run)
  moreover have "squeezing_from repr r (standard_state r (pad r m)) 0 s'"
    unfolding squeezing_from_def using facts(1) rate s1(6) q(2)
    by (auto intro!: exI [of _ 0] simp: s'_def overlay_def min_def)
  moreover have "fixedOutputLength s' = fixedOutputLength s" by (simp add: s'_def s1(7))
  ultimately show ?thesis by (rule that)
qed

end

section \<open>The NIST interface\<close>

text \<open>
  The message of a call: whole bytes from their lowest bit, and of a last byte begun the highest bits,
  from the lowest of them.
\<close>

definition nist_message :: "byte list \<Rightarrow> nat \<Rightarrow> bool list" where
  "nist_message data N =
     take (N - N mod 8) (data_bits data)
     @ (if N mod 8 = 0 then [] else take (N mod 8) (byte_bits (drop_bit (8 - N mod 8) (data ! (N div 8)))))"

lemma enqueue_keeps:
  "(if c then
      obind (write_block Q k xs) (\<lambda>q.
      obind (if bitsInQueue (s\<lparr>dataQueue := q, bitsInQueue := b\<rparr>) = rate (s\<lparr>dataQueue := q, bitsInQueue := b\<rparr>)
             then AbsorbQueue K (s\<lparr>dataQueue := q, bitsInQueue := b\<rparr>)
             else Ret (s\<lparr>dataQueue := q, bitsInQueue := b\<rparr>)) (\<lambda>s.
      if p then obind x (\<lambda>y. obind (z s y) (\<lambda>q. Ret (s\<lparr>dataQueue := q, bitsInQueue := e s\<rparr>, j1))) else Ret (s, j2)))
    else Crash) = Ret (s', j) \<Longrightarrow> fixedOutputLength s' = fixedOutputLength s"
  by (auto simp: AbsorbQueue_def outcome_simps split: if_splits)

lemma absorb_part_keeps: "absorb_part K s data N i = Ret (s', j) \<Longrightarrow> fixedOutputLength s' = fixedOutputLength s"
  unfolding absorb_part_def Let_def by (erule enqueue_keeps)

lemma rbind_eq_Ret: "rbind x f = Some (Ret y) \<longleftrightarrow> (\<exists>z. x = Some (Ret z) \<and> f z = Some (Ret y))"
proof (cases x)
  case (Some o1)
  then show ?thesis by (cases o1) simp_all
qed simp

lemma absorb_loop_keeps:
  assumes "absorb_loop K s data N i = Some y"
  shows "y = Ret s' \<longrightarrow> fixedOutputLength s' = fixedOutputLength s"
proof (rule absorb_loop.raw_induct
    [where P = "\<lambda>K s data N i y. y = Ret s' \<longrightarrow> fixedOutputLength s' = fixedOutputLength s", OF _ assms],
    intro impI)
  fix loop :: "keccak_impl \<Rightarrow> spongeState \<Rightarrow> byte list \<Rightarrow> nat \<Rightarrow> nat \<Rightarrow> spongeState outcome option"
    and K s data N i y
  assume IH: "\<And>K s data N i y. loop K s data N i = Some y \<Longrightarrow>
      y = Ret s' \<longrightarrow> fixedOutputLength s' = fixedOutputLength s"
    and body: "(if i < N then
        if bitsInQueue s = 0 \<and> N \<ge> rate s \<and> i \<le> N - rate s then
          rbind (Some (absorb_blocks K (rate s) (sponge_state s) (drop (i div 8) data) ((N - i) div rate s)))
            (\<lambda>state. loop K (s\<lparr>sponge_state := state\<rparr>) data N (i + (N - i) div rate s * rate s))
        else rbind (Some (absorb_part K s data N i)) (\<lambda>(s, i). loop K s data N i)
      else Some (Ret s)) = Some y"
    and y: "y = Ret s'"
  show "fixedOutputLength s' = fixedOutputLength s"
  proof (cases "i < N")
    case False
    with body y show ?thesis by simp
  next
    case True
    show ?thesis
    proof (cases "bitsInQueue s = 0 \<and> N \<ge> rate s \<and> i \<le> N - rate s")
      case fast: True
      from body obtain state where
        "loop K (s\<lparr>sponge_state := state\<rparr>) data N (i + (N - i) div rate s * rate s) = Some (Ret s')"
        unfolding y if_P [OF True] if_P [OF fast] rbind_eq_Ret by blast
      from IH [OF this] show ?thesis by simp
    next
      case slow: False
      from body obtain s1 j where "absorb_part K s data N i = Ret (s1, j)" "loop K s1 data N j = Some (Ret s')"
        unfolding y if_P [OF True] if_not_P [OF slow] rbind_eq_Ret by auto
      with IH [OF this(2)] absorb_part_keeps show ?thesis by simp
    qed
  qed
qed

context keccak_provider begin

lemma start_absorbing:
  assumes "valid_rate r"
  shows "absorbing repr r [] \<lparr>sponge_state = impl_InitializeState K, dataQueue = replicate KeccakMaximumRateInBytes 0,
    rate = r, capacity = c, bitsInQueue = 0, fixedOutputLength = n, squeezing = False, bitsAvailableForSqueezing = 0\<rparr>"
  using assms by (intro absorbing_bytes) (simp_all add: initial standard_state_def leftover_def KeccakMaximumRateInBytes_def)

lemma nist_Init_result:
  assumes "hashbitlen \<in> {224, 256, 384, 512}"
  obtains s where "nist_Init K state hashbitlen = (SUCCESS, s)"
    and "absorbing repr (1600 - 2 * hashbitlen) [] s" and "fixedOutputLength s = hashbitlen"
    and "bitsInQueue s = 0"
proof -
  have "valid_rate (1600 - 2 * hashbitlen)" using assms by (auto simp: valid_rate_def)
  from start_absorbing [OF this] show ?thesis
    using assms by (intro that [of "snd (nist_Init K state hashbitlen)"])
      (auto simp: nist_Init_def InitSponge_def uint32_def)
qed

lemma nist_Update_result:
  assumes inv: "absorbing repr r [] s" and "bitsInQueue s = 0" and "N \<le> 8 * length data"
  obtains s' where "nist_Update K s data N = Some (Ret (SUCCESS, s'))"
    and "absorbing repr r (nist_message data N) s'" and "fixedOutputLength s' = fixedOutputLength s"
proof -
  let ?w = "N - N mod 8" and ?p = "N mod 8"
  have keeps: "fixedOutputLength s' = fixedOutputLength s"
    if "Absorb K s data N = Some (Ret (r, s'))" for s s' :: spongeState and data N r
    using that absorb_loop_keeps by (auto simp: Absorb_def rbind_eq_Ret split: if_splits)
  have w: "?w \<le> 8 * length data" "?w mod 8 = 0" using assms(3) by (simp_all add: minus_mod_eq_mult_div)
  obtain s1 where s1: "Absorb K s data ?w = Some (Ret (0, s1))" "absorbing repr r (take ?w (data_bits data)) s1"
    using Absorb_result [OF inv, of ?w data] assms(2) w(1) by auto
  show ?thesis
  proof (cases "?p = 0")
    case True
    then show ?thesis using s1 keeps [OF s1(1)]
      by (intro that [of s1]) (simp_all add: nist_Update_def nist_message_def hash_return_def)
  next
    case False
    let ?b = "drop_bit (8 - ?p) (data ! (N div 8))"
    have in_data: "N div 8 < length data" using False assms(3) by presburger
    note facts = absorbing_facts [OF s1(2)] and rate = valid_rate_facts [OF absorbing_facts(1) [OF s1(2)]]
    have "bitsInQueue s1 = ?w mod r" unfolding facts(6) length_leftover using w(1) by simp
    then have b8: "bitsInQueue s1 mod 8 = 0" using w(2) rate(3) by (simp add: mod_mod_cancel mod_eq_0_iff_dvd dvd_mod)
    moreover have "?p + bitsInQueue s1 < 2 ^ 32" using facts(7) rate(2) by (simp add: less_imp_le trans_less_add2)
    ultimately obtain s2 where s2: "Absorb K s1 [?b] ?p = Some (Ret (0, s2))"
      "absorbing repr r (take ?w (data_bits data) @ take ?p (data_bits [?b])) s2"
      using Absorb_result [OF s1(2), of ?p "[?b]"] by (auto simp: less_imp_le)
    show ?thesis using s1(1) s2 keeps [OF s1(1)] keeps [OF s2(1)] False in_data
      by (intro that [of s2]) (simp_all add: nist_Update_def nist_message_def hash_return_def mem_simps)
  qed
qed

lemma nist_Hash_result:
  assumes "hashbitlen \<in> {224, 256, 384, 512}" and "N \<le> 8 * length data" and "hashbitlen \<le> 8 * length hashval"
  defines "r \<equiv> 1600 - 2 * hashbitlen"
  shows "nist_Hash K state hashbitlen data N hashval = Some (Ret (SUCCESS,
    overlay hashval 0 (map (out_byte r (standard_state r (pad r (nist_message data N)))) [0..<hashbitlen div 8])))"
proof -
  obtain s1 where s1: "nist_Init K state hashbitlen = (SUCCESS, s1)" "absorbing repr r [] s1"
    "fixedOutputLength s1 = hashbitlen" "bitsInQueue s1 = 0"
    using nist_Init_result [OF assms(1)] unfolding r_def by metis
  obtain s2 where s2: "nist_Update K s1 data N = Some (Ret (SUCCESS, s2))"
    "absorbing repr r (nist_message data N) s2" "fixedOutputLength s2 = hashbitlen"
    using nist_Update_result [OF s1(2,4) assms(2)] s1(3) by metis
  let ?S = "standard_state r (pad r (nist_message data N))"
  obtain s3 where s3: "PadAndSwitchToSqueezingPhase K s2 = Ret s3" "squeezing_from repr r ?S 0 s3"
    using PadAndSwitch_result [OF s2(2)] by metis
  have bytes: "8 * (hashbitlen div 8) = hashbitlen" using assms(1) by auto
  obtain s4 where s4: "Squeeze K s3 hashval hashbitlen =
      Some (Ret (0, s4, overlay hashval 0 (map (out_byte r ?S) [0..<hashbitlen div 8])))"
    using Squeeze_result [OF s3(2), of "hashbitlen div 8" hashval] assms(3) unfolding bytes by auto
  have "squeezing s3" using s3(2) by (simp add: squeezing_from_def)
  moreover have "\<not> squeezing s2" using absorbing_facts(3) [OF s2(2)] .
  ultimately have "Squeeze K s2 hashval hashbitlen = Squeeze K s3 hashval hashbitlen"
    by (simp add: Squeeze_def s3(1))
  then have "nist_Final K s2 hashval = Some (Ret (SUCCESS, s4,
      overlay hashval 0 (map (out_byte r ?S) [0..<hashbitlen div 8])))"
    by (simp add: nist_Final_def s2(3) s4 hash_return_def)
  then show ?thesis using assms(1) s1(1) s2(1) by (auto simp: nist_Hash_def)
qed

end

text \<open>The optimised implementation, which keeps six lanes complemented.\<close>

interpretation opt64: keccak_provider opt64_impl masked
  by unfold_locales
    (simp_all add: opt64_impl_def initial_masked absorb_masked absorb_lanes_masked extract_masked
      extract_1024_masked KeccakPermutation_def KeccakPermutationOnWords_def opt_rounds_masked)

section \<open>Properties\<close>

text \<open>
  C8: Absorbing is incremental: a sponge that has absorbed a message, its last whole block in the
  lanes and the rest in the queue, has absorbed the longer message after a call of \<^verbatim>\<open>Absorb\<close> with
  more bits; so the pieces a message is cut into do not matter. The call returns 0 provided that the
  queue is empty or that the lengths add up to less than \<^verbatim>\<open>unsigned int\<close> holds.
\<close>
theorem absorb_extends_message:
  assumes "absorbing masked r m s" and "bitsInQueue s mod 8 = 0" and "databitlen \<le> 8 * length data"
    and "bitsInQueue s = 0 \<or> databitlen + bitsInQueue s < 2 ^ 32"
  shows "\<exists>s'. Absorb opt64_impl s data databitlen = Some (Ret (0, s'))
    \<and> absorbing masked r (m @ take databitlen (data_bits data)) s'"
  using opt64.Absorb_result [OF assms] by blast

definition fresh_sponge :: "nat \<Rightarrow> spongeState" where
  "fresh_sponge r = \<lparr>sponge_state = impl_InitializeState opt64_impl, dataQueue = replicate KeccakMaximumRateInBytes 0,
    rate = r, capacity = 1600 - r, bitsInQueue = 0, fixedOutputLength = 0, squeezing = False,
    bitsAvailableForSqueezing = 0\<rparr>"

lemma fresh_absorbing: "valid_rate r \<Longrightarrow> absorbing masked r [] (fresh_sponge r)"
  unfolding fresh_sponge_def by (rule opt64.start_absorbing)

theorem absorb_extends_message_witness:
  "\<exists>s'. Absorb opt64_impl (fresh_sponge 1088) [1, 2, 3] 20 = Some (Ret (0, s'))
    \<and> absorbing masked 1088 ([] @ take 20 (data_bits [1, 2, 3])) s'"
  by (rule absorb_extends_message [OF fresh_absorbing]) (simp_all add: valid_rate_def fresh_sponge_def)

text \<open>
  C5: \<^verbatim>\<open>Hash\<close> is the sponge of the standard for the four lengths: it writes the first bytes of the
  state that is reached from the padded message, whole blocks at the rate 1600 minus twice the
  length added to the lanes with the permutation after each, and nothing after them. The message
  may end within a byte.
\<close>
theorem hash_is_sponge:
  assumes "hashbitlen \<in> {224, 256, 384, 512}" and "databitlen \<le> 8 * length data"
    and "hashbitlen \<le> 8 * length hashval"
  shows "nist_Hash opt64_impl state hashbitlen data databitlen hashval = Some (Ret (SUCCESS,
    overlay hashval 0 (map (out_byte (1600 - 2 * hashbitlen)
        (standard_state (1600 - 2 * hashbitlen) (pad (1600 - 2 * hashbitlen) (nist_message data databitlen))))
      [0..<hashbitlen div 8])))"
  using assms by (rule opt64.nist_Hash_result)

theorem hash_is_sponge_witness:
  "nist_Hash opt64_impl (fresh_sponge 576) 256 [171, 205] 13 (replicate 32 0) = Some (Ret (SUCCESS,
    overlay (replicate 32 0) 0 (map (out_byte (1600 - 2 * 256)
        (standard_state (1600 - 2 * 256) (pad (1600 - 2 * 256) (nist_message [171, 205] 13))))
      [0..<256 div 8])))"
  by (rule hash_is_sponge) simp_all

text \<open>
  C11: Squeezing is incremental, at any length: the first call pads the message and yields the first
  bytes of the output stream, and a call after \<open>e\<close> bytes yields the bytes from \<open>e\<close> on; a length that
  is not whole bytes is refused.
\<close>
theorem squeeze_extends_output:
  assumes "absorbing masked r m s \<and> e = 0 \<or> squeezing_from masked r (standard_state r (pad r m)) e s"
    and "n \<le> length out"
  shows "\<exists>s'. Squeeze opt64_impl s out (8 * n) = Some (Ret (0, s',
      overlay out 0 (map (out_byte r (standard_state r (pad r m))) [e..<e + n])))
    \<and> squeezing_from masked r (standard_state r (pad r m)) (e + n) s'"
  using assms(1)
proof
  assume start: "absorbing masked r m s \<and> e = 0"
  then obtain s1 where s1: "PadAndSwitchToSqueezingPhase opt64_impl s = Ret s1"
    "squeezing_from masked r (standard_state r (pad r m)) 0 s1"
    using opt64.PadAndSwitch_result by metis
  moreover have "squeezing s1" "\<not> squeezing s"
    using s1(2) start absorbing_facts(3) by (auto simp: squeezing_from_def)
  ultimately have "Squeeze opt64_impl s out (8 * n) = Squeeze opt64_impl s1 out (8 * n)"
    by (simp add: Squeeze_def)
  with opt64.Squeeze_result [OF s1(2), of n out] assms(2) start show ?thesis by auto
next
  assume "squeezing_from masked r (standard_state r (pad r m)) e s"
  from opt64.Squeeze_result [OF this, of n out] assms(2) show ?thesis by auto
qed

theorem squeeze_extends_output_witness:
  "\<exists>s'. Squeeze opt64_impl (fresh_sponge 1024) (replicate 300 0) (8 * 200) = Some (Ret (0, s',
      overlay (replicate 300 0) 0 (map (out_byte 1024 (standard_state 1024 (pad 1024 []))) [0..<0 + 200])))
    \<and> squeezing_from masked 1024 (standard_state 1024 (pad 1024 [])) (0 + 200) s'"
  by (rule squeeze_extends_output) (simp_all add: fresh_absorbing valid_rate_def)

text \<open>
  The length of the queued part is computed in 32 bits: with something in the queue, a length
  below \<^verbatim>\<open>2^32\<close> that adds up to \<^verbatim>\<open>2^32\<close> or more passes the test against the rate, and the whole
  input is copied over the end of the queue.
\<close>
theorem absorb_overruns_queue:
  assumes "0 < bitsInQueue s" and "bitsInQueue s mod 8 = 0" and "bitsInQueue s < rate s" and "rate s \<le> 1536"
    and "\<not> squeezing s" and "length (dataQueue s) = KeccakMaximumRateInBytes"
    and "databitlen \<le> 8 * length data" and "databitlen < 2 ^ 32" and "2 ^ 32 \<le> databitlen + bitsInQueue s"
  shows "Absorb K s data databitlen = Some Crash"
proof -
  let ?q = "bitsInQueue s"
  define n where "n = (databitlen - databitlen mod 8) div 8"
  have same: "uint32 databitlen = databitlen" using assms(8) by (rule uint32_id)
  have "uint32 (databitlen + ?q) = databitlen + ?q - 2 ^ 32"
    using assms(3,4,8,9) by (simp add: uint32_def le_mod_geq)
  then have fits: "\<not> rate s < uint32 (databitlen + ?q)" using assms(3,8) by linarith
  have "8 * n + databitlen mod 8 = databitlen" by (simp add: n_def minus_mod_eq_mult_div)
  then have n: "databitlen < 8 * n + 8" "8 * n \<le> databitlen" by linarith+
  have "(4294967296 :: nat) \<le> databitlen + ?q" using assms(9) by simp
  with n have "192 < n" "n \<le> length data" using assms(3,4,7) by linarith+
  then have crash: "write_block (dataQueue s) (?q div 8) (take n data) = Crash"
    using assms(6) by (simp add: write_block_def KeccakMaximumRateInBytes_def)
  with same fits have "absorb_part K s data databitlen 0 = Crash"
    by (simp add: absorb_part_def Let_def flip: n_def)
  moreover have "0 < databitlen" using n \<open>192 < n\<close> by linarith
  ultimately show ?thesis using assms(1,2,5) by (subst Absorb_def, subst absorb_loop.simps) simp
qed

theorem absorb_overruns_queue_witness:
  "Absorb opt64_impl ((fresh_sponge 1088)\<lparr>bitsInQueue := 8\<rparr>) (replicate (2 ^ 29) 0) (2 ^ 32 - 8) = Some Crash"
  by (rule absorb_overruns_queue) (simp_all add: fresh_sponge_def)

text \<open>
  With something in the queue, a length that is a multiple of \<^verbatim>\<open>2^32\<close> is cut to zero: the pass
  through the loop moves nothing, and \<^verbatim>\<open>Absorb\<close> never returns.
\<close>
theorem absorb_of_wrapped_length_hangs:
  assumes "0 < bitsInQueue s" and "bitsInQueue s mod 8 = 0" and "bitsInQueue s < rate s" and "rate s \<le> 1536"
    and "\<not> squeezing s" and "length (dataQueue s) = KeccakMaximumRateInBytes"
    and "0 < databitlen" and "databitlen mod 2 ^ 32 = 0"
  shows "Absorb K s data databitlen = None"
proof -
  have "uint32 databitlen = 0" "uint32 (bitsInQueue s) = bitsInQueue s"
    using assms(3,4,8) by (simp_all add: uint32_def)
  moreover have "write_block (dataQueue s) (bitsInQueue s div 8) [] = Ret (dataQueue s)"
    using assms(3,4,6) by (simp add: mem_simps KeccakMaximumRateInBytes_def overlay_def)
  ultimately have part: "absorb_part K s data databitlen 0 = Ret (s, 0)"
    using assms(3) by (simp add: absorb_part_def Let_def)
  have "\<not> (K' = K \<and> s' = s \<and> data' = data \<and> N = databitlen \<and> i = 0)"
    if "absorb_loop K' s' data' N i = Some y" for K' s' data' N i y
  proof (rule absorb_loop.raw_induct [where P = "\<lambda>K' s' data' N i y.
        \<not> (K' = K \<and> s' = s \<and> data' = data \<and> N = databitlen \<and> i = 0)", OF _ that], rule notI, elim conjE)
  qed (use assms(1,7) part in fastforce)
  then have "absorb_loop K s data databitlen 0 = None" by (metis option.exhaust)
  then show ?thesis using assms(2,5) by (simp add: Absorb_def)
qed

theorem absorb_of_wrapped_length_hangs_witness:
  "Absorb opt64_impl ((fresh_sponge 1088)\<lparr>bitsInQueue := 8\<rparr>) [] (2 ^ 32) = None"
  by (rule absorb_of_wrapped_length_hangs) (simp_all add: fresh_sponge_def)

end
