(* ===== verification/Keccak_Duplex.thy ===== *)
theory Keccak_Duplex
  imports Keccak_Hash
begin

text \<open>
  The duplex object of \<^verbatim>\<open>lib/sha_three/KeccakDuplex.c\<close>, over any implementation of
  \<^verbatim>\<open>KeccakF-1600-interface.h\<close>. A call absorbs its input, padded to one block of the rate, and gives the
  first bits of the state back; the calls together are a sponge that absorbs the padded inputs.
\<close>

unbundle bit_operations_syntax

section \<open>The operations\<close>

record duplexState =
  duplex_lanes :: "lane list"
  duplex_rate :: nat
  duplex_capacity :: nat
  rho_max :: nat

definition InitDuplex :: "keccak_impl \<Rightarrow> duplexState \<Rightarrow> nat \<Rightarrow> nat \<Rightarrow> nat \<times> duplexState" where
  "InitDuplex K s r c =
     (if uint32 (r + c) \<noteq> 1600 then (1, s)
      else if r \<le> 0 \<or> r > 1600 then (1, s)
      else (0, \<lparr>duplex_lanes = impl_InitializeState K, duplex_rate = r, duplex_capacity = c,
              rho_max = uint32_sub r 2\<rparr>))"

text \<open>Whether the bits of a last byte begun are the low ones.\<close>

definition input_aligned :: "byte list \<Rightarrow> nat \<Rightarrow> bool outcome" where
  "input_aligned input inBitLen =
     (if inBitLen mod 8 \<noteq> 0 then
        obind (peek input (inBitLen div 8)) (\<lambda>b. Ret (b AND NOT (push_bit (inBitLen mod 8) 1 - 1) = 0))
      else Ret True)"

text \<open>The block that is absorbed: the input, zeros, and the two bits of the padding.\<close>

definition duplex_block :: "byte list \<Rightarrow> nat \<Rightarrow> byte list \<Rightarrow> nat \<Rightarrow> byte list outcome" where
  "duplex_block block r input inBitLen =
     (let n = uint32 (inBitLen + 7) div 8 in
      if n \<le> length input then
        obind (write_block block 0 (take n input)) (\<lambda>block.
        obind (write_block block n (replicate (uint32_sub (uint32 (r + 63) div 64 * 8) n) 0)) (\<lambda>block.
        obind (or_byte block (inBitLen div 8) (push_bit (inBitLen mod 8) 1)) (\<lambda>block.
        or_byte block (uint32_sub r 1 div 8) (push_bit (uint32_sub r 1 mod 8) 1))))
      else Crash)"

definition copy_output :: "byte list \<Rightarrow> byte list \<Rightarrow> nat \<Rightarrow> byte list outcome" where
  "copy_output block out outBitLen =
     (let n = uint32 (outBitLen + 7) div 8 in
      if n \<le> length block then
        obind (write_block out 0 (take n block)) (\<lambda>out.
        if outBitLen mod 8 \<noteq> 0 then
          obind (peek out (outBitLen div 8)) (\<lambda>b.
          poke out (outBitLen div 8) (b AND (push_bit (outBitLen mod 8) 1 - 1)))
        else Ret out)
      else Crash)"

text \<open>The argument \<open>block\<close> is the local array, not initialised.\<close>

definition Duplexing ::
  "keccak_impl \<Rightarrow> byte list \<Rightarrow> duplexState \<Rightarrow> byte list \<Rightarrow> nat \<Rightarrow> byte list \<Rightarrow> nat
   \<Rightarrow> (nat \<times> duplexState \<times> byte list) outcome" where
  "Duplexing K block s input inBitLen out outBitLen =
     (if inBitLen > rho_max s then Ret (1, s, out)
      else
        obind (input_aligned input inBitLen) (\<lambda>aligned.
        if \<not> aligned then Ret (1, s, out)
        else if outBitLen > duplex_rate s then Ret (1, s, out)
        else
          obind (duplex_block block (duplex_rate s) input inBitLen) (\<lambda>block.
          obind (impl_Absorb K (duplex_lanes s) block (uint32 (duplex_rate s + 63) div 64)) (\<lambda>state.
          obind (impl_Extract K state block (uint32 (duplex_rate s + 63) div 64)) (\<lambda>block.
          obind (copy_output block out outBitLen) (\<lambda>out.
          Ret (0, s\<lparr>duplex_lanes := state\<rparr>, out)))))))"

section \<open>The bits of the block\<close>

text \<open>The bits above the last one of the input, in its byte, are zero.\<close>

definition low_bits :: "byte list \<Rightarrow> nat \<Rightarrow> bool" where
  "low_bits input n \<longleftrightarrow> (\<forall>k\<in>{n..<8 * ((n + 7) div 8)}. \<not> data_bits input ! k)"

lemma low_mask: "push_bit p 1 - 1 = (Bit_Operations.mask p :: byte)"
  by (simp add: mask_eq_exp_minus_1 push_bit_eq_mult)

lemma byte_is_zero: "b = 0 \<longleftrightarrow> (\<forall>j<8. \<not> bit b j)" for b :: byte
proof
  assume "\<forall>j<8. \<not> bit b j"
  then show "b = 0" by (intro bit_word_eqI) simp
qed simp

lemma high_bits: "b AND NOT (push_bit p 1 - 1) = 0 \<longleftrightarrow> (\<forall>j<8. p \<le> j \<longrightarrow> \<not> bit b j)" for b :: byte
proof -
  have "bit (b AND NOT (push_bit p 1 - 1)) j \<longleftrightarrow> bit b j \<and> p \<le> j" if "j < 8" for j
    using that unfolding low_mask by (simp add: bit_and_iff bit_not_iff bit_mask_iff not_less)
  then show ?thesis unfolding byte_is_zero by blast
qed

lemma whole_bytes: "n mod 8 = 0 \<Longrightarrow> (n + 7) div 8 = n div 8" for n :: nat
  using div_add1_eq [of n 7 8] by simp

lemma begun_byte: "n mod 8 \<noteq> 0 \<Longrightarrow> (n + 7) div 8 = n div 8 + 1" for n :: nat
  using div_add1_eq [of n 7 8] mod_less_divisor [of 8 n] by (simp add: div_nat_eqI)

lemma input_aligned_iff:
  assumes "(n + 7) div 8 \<le> length input"
  shows "input_aligned input n = Ret (low_bits input n)"
proof (cases "n mod 8 = 0")
  case True
  then have "(n + 7) div 8 = n div 8" "8 * (n div 8) = n" by (auto simp: whole_bytes)
  with True show ?thesis by (simp add: input_aligned_def low_bits_def)
next
  case False
  let ?b = "input ! (n div 8)"
  have up: "(n + 7) div 8 = n div 8 + 1" using False by (rule begun_byte)
  then have in_range: "n div 8 < length input" using assms by simp
  have "low_bits input n \<longleftrightarrow> (\<forall>j<8. n mod 8 \<le> j \<longrightarrow> \<not> bit ?b j)"
  proof
    assume low: "low_bits input n"
    show "\<forall>j<8. n mod 8 \<le> j \<longrightarrow> \<not> bit ?b j"
    proof (intro allI impI)
      fix j :: nat
      assume j: "j < 8" "n mod 8 \<le> j"
      have "8 * (n div 8) + j < 8 * length input" using j(1) in_range by linarith
      moreover have "n \<le> 8 * (n div 8) + j" "8 * (n div 8) + j < 8 * ((n + 7) div 8)"
        using j up mult_div_mod_eq [of 8 n] by linarith+
      ultimately show "\<not> bit ?b j" using low nth_data_bits [of "8 * (n div 8) + j" input] j(1) by (auto simp: low_bits_def)
    qed
  next
    assume bits: "\<forall>j<8. n mod 8 \<le> j \<longrightarrow> \<not> bit ?b j"
    show "low_bits input n" unfolding low_bits_def
    proof
      fix k
      assume "k \<in> {n..<8 * ((n + 7) div 8)}"
      then have k: "n \<le> k" "k < 8 * (n div 8) + 8" using up by simp_all
      then have same: "k div 8 = n div 8" using div_le_mono [of n k 8] by linarith
      then have "n mod 8 \<le> k mod 8"
        using k(1) mult_div_mod_eq [of 8 n] mult_div_mod_eq [of 8 k] by linarith
      moreover have "k < 8 * length input" using k(2) in_range by linarith
      ultimately show "\<not> data_bits input ! k" using bits same by (simp add: nth_data_bits)
    qed
  qed
  also have "\<dots> \<longleftrightarrow> ?b AND NOT (push_bit (n mod 8) 1 - 1) = 0"
    unfolding high_bits ..
  finally show ?thesis using False in_range by (simp add: input_aligned_def mem_simps)
qed

lemma lane_of_bits_zeros: "lane_of_bits (xs @ replicate n False) = lane_of_bits xs"
  by (rule bit_word_eqI) (auto simp: bit_lane_of_bits nth_append)

lemma standard_block_zeros: "standard_block state (xs @ replicate n False) = standard_block state xs"
proof -
  have "lane_of_bits (take 64 (drop i (xs @ replicate n False))) = lane_of_bits (take 64 (drop i xs))" for i
    by (simp add: lane_of_bits_zeros)
  then show ?thesis by (simp add: standard_block_def del: take_append drop_append)
qed

section \<open>The invariant\<close>

text \<open>
  The object has absorbed the message \<open>m\<close>, whole blocks of the rate, represented by \<open>repr\<close>.
\<close>

definition duplexed :: "(lane list \<Rightarrow> lane list) \<Rightarrow> nat \<Rightarrow> bool list \<Rightarrow> duplexState \<Rightarrow> bool" where
  "duplexed repr r m s \<longleftrightarrow> 2 \<le> r \<and> r \<le> 1600 \<and> r dvd length m \<and> duplex_rate s = r \<and> rho_max s = r - 2
     \<and> duplex_lanes s = repr (standard_state r m)"

lemma pad_block:
  assumes "r dvd length m" and "length x + 2 \<le> r"
  shows "pad r (m @ x) = m @ (x @ True # replicate (r - (length x + 2)) False @ [True])"
proof -
  have "(length (m @ x) + 2) mod r = (length x + 2) mod r"
    using assms(1) mod_add_cong [of "length m" r 0 "length x + 2" "length x + 2"] by (simp add: add.assoc)
  then show ?thesis using assms(2) unfolding pad_def by (cases "length x + 2 = r") simp_all
qed

lemma duplex_bytes:
  assumes "2 \<le> r" and "r \<le> 1600" and "n + 2 \<le> r"
  shows "uint32 (r + 63) div 64 * 8 \<le> 200" "r \<le> 8 * (uint32 (r + 63) div 64 * 8)"
    "(n + 7) div 8 \<le> uint32 (r + 63) div 64 * 8" "uint32 (n + 7) = n + 7" "uint32_sub r 1 = r - 1"
    "uint32_sub (uint32 (r + 63) div 64 * 8) ((n + 7) div 8) = uint32 (r + 63) div 64 * 8 - (n + 7) div 8"
proof -
  have r: "uint32 (r + 63) = r + 63" using assms(2) by (simp add: uint32_def)
  show a: "uint32 (r + 63) div 64 * 8 \<le> 200" using assms(2) div_le_mono [of "r + 63" 1663 64] unfolding r by simp
  show "r \<le> 8 * (uint32 (r + 63) div 64 * 8)" unfolding r by linarith
  show b: "(n + 7) div 8 \<le> uint32 (r + 63) div 64 * 8" using assms(3) unfolding r by linarith
  show "uint32 (n + 7) = n + 7" using assms by (simp add: uint32_def)
  show "uint32_sub r 1 = r - 1" using assms by (simp add: uint32_sub_id)
  show "uint32_sub (uint32 (r + 63) div 64 * 8) ((n + 7) div 8) = uint32 (r + 63) div 64 * 8 - (n + 7) div 8"
    using a b by (intro uint32_sub_id) simp_all
qed

lemma duplex_block_result:
  assumes r: "2 \<le> r" "r \<le> 1600" and n: "n + 2 \<le> r" "(n + 7) div 8 \<le> length input" "low_bits input n"
    and block: "length block = 200"
  defines "N \<equiv> uint32 (r + 63) div 64 * 8"
  obtains block' where "duplex_block block r input n = Ret block'" and "length block' = 200"
    and "take (8 * N) (data_bits block') = take n (data_bits input) @ True # replicate (r - (n + 2)) False @ True # replicate (8 * N - r) False"
proof -
  note b = duplex_bytes [OF r n(1), folded N_def]
  let ?k = "(n + 7) div 8"
  define B where "B = overlay (overlay block 0 (take ?k input)) ?k (replicate (N - ?k) 0)"
  have B: "length B = 200" using b block n(2) by (simp add: B_def)
  have n8: "n \<le> 8 * ?k" "8 * ?k < n + 8" by linarith+
  have "take N B = take ?k input @ replicate (N - ?k) 0"
    using b block n(2) by (simp add: B_def overlay_def min_def)
  then have bits: "take (8 * N) (data_bits B) = data_bits (take ?k input) @ replicate (8 * (N - ?k)) False"
    by (simp add: take_data_bits data_bits_zeros)
  have "data_bits (take ?k input) = take n (data_bits input) @ replicate (8 * ?k - n) False"
  proof (rule nth_equalityI)
    fix i
    assume "i < length (data_bits (take ?k input))"
    then have i: "i < 8 * ?k" using n(2) by simp
    have "data_bits (take ?k input) ! i = data_bits input ! i"
      using i take_data_bits [of ?k input, symmetric] by simp
    with i n8 n(2,3) show "data_bits (take ?k input) ! i = (take n (data_bits input) @ replicate (8 * ?k - n) False) ! i"
      by (auto simp: nth_append low_bits_def)
  qed (use n(2) n8 in simp)
  with bits have bits: "take (8 * N) (data_bits B) = take n (data_bits input) @ replicate (8 * N - n) False"
    using b(3) n8 by (simp flip: replicate_add add: diff_mult_distrib2)
  have len: "length (take n (data_bits input)) = n" using n(2) n8 by simp
  obtain B1 where B1: "or_byte B (n div 8) (push_bit (n mod 8) 1) = Ret B1" "length B1 = length B"
    "data_bits B1 = (data_bits B)[n := True]"
    by (rule opt64.or_byte_sets_bit [of n B]) (use B n(1) r(2) in simp)
  obtain B2 where B2: "or_byte B1 ((r - 1) div 8) (push_bit ((r - 1) mod 8) 1) = Ret B2" "length B2 = length B1"
    "data_bits B2 = (data_bits B1)[r - 1 := True]"
    by (rule opt64.or_byte_sets_bit [of "r - 1" B1]) (use B B1(2) r in simp)
  have "duplex_block block r input n = Ret B2"
    using b block n(2) B1(1) B2(1) unfolding duplex_block_def b(4,5) N_def [symmetric] b(6) Let_def
    by (simp add: write_block_in B_def)
  moreover have "take (8 * N) (data_bits B2) = (take (8 * N) (data_bits B))[n := True, r - 1 := True]"
    by (simp add: B2(3) B1(3) take_update_swap)
  moreover have "(take n (data_bits input) @ replicate (8 * N - n) False)[n := True, r - 1 := True]
      = take n (data_bits input) @ True # replicate (r - (n + 2)) False @ True # replicate (8 * N - r) False"
  proof (rule nth_equalityI)
    fix i
    assume "i < length ((take n (data_bits input) @ replicate (8 * N - n) False)[n := True, r - 1 := True])"
    then have "i < 8 * N" using len b(2) n(1) by simp
    then show "(take n (data_bits input) @ replicate (8 * N - n) False)[n := True, r - 1 := True] ! i
      = (take n (data_bits input) @ True # replicate (r - (n + 2)) False @ True # replicate (8 * N - r) False) ! i"
      using len b(2) n(1) by (auto simp: nth_append nth_list_update nth_Cons' simp del: length_take)
  qed (use len b(2) n(1) in \<open>simp del: length_take\<close>)
  ultimately show ?thesis using that [of B2] B B1(2) B2(2) bits by simp
qed

section \<open>The output\<close>

text \<open>The first bits of the block; the rest of the last byte is cleared.\<close>

lemma copy_output_result:
  assumes n: "n \<le> 8 * length block" "n < 2 ^ 31" and room: "(n + 7) div 8 \<le> length out"
  shows "\<exists>out'. copy_output block out n = Ret out' \<and> data_bits out'
    = overlay (data_bits out) 0 (take n (data_bits block) @ replicate (8 * ((n + 7) div 8) - n) False)"
proof -
  let ?k = "(n + 7) div 8"
  define X where "X = overlay out 0 (take ?k block)"
  have small: "uint32 (n + 7) = n + 7" using n(2) by (simp add: uint32_def)
  have k: "?k \<le> length block" using n(1) by linarith
  have X: "length X = length out" using k room by (simp add: X_def)
  have bits: "data_bits X = overlay (data_bits out) 0 (take (8 * ?k) (data_bits block))"
    by (simp add: X_def data_bits_overlay take_data_bits)
  have run: "copy_output block out n =
      (if n mod 8 \<noteq> 0 then obind (peek X (n div 8)) (\<lambda>b. poke X (n div 8) (b AND (push_bit (n mod 8) 1 - 1))) else Ret X)"
    using k room unfolding copy_output_def small Let_def by (simp add: write_block_in X_def)
  show ?thesis
  proof (cases "n mod 8 = 0")
    case True
    then have "8 * ?k = n" by (auto simp: whole_bytes)
    with True run bits show ?thesis by simp
  next
    case False
    then have up: "?k = n div 8 + 1" by (rule begun_byte)
    let ?b = "X ! (n div 8)" and ?d = "n div 8"
    have in_X: "?d < length X" using up room X by simp
    define Y where "Y = X[?d := ?b AND (push_bit (n mod 8) 1 - 1)]"
    have Y: "copy_output block out n = Ret Y" using False run in_X by (simp add: mem_simps Y_def)
    have n8: "8 * ?d + n mod 8 = n" by simp
    have "data_bits Y = overlay (data_bits X) (8 * ?d) (take (n mod 8) (byte_bits ?b) @ replicate (8 - n mod 8) False)"
      using in_X masked_byte_bits [of "n mod 8" ?b]
      by (simp add: Y_def update_is_overlay data_bits_overlay del: data_bits_simps(3))
    also have "\<dots> = overlay (data_bits out) 0 (take n (data_bits block) @ replicate (8 * ?k - n) False)"
    proof (rule nth_equalityI)
      show "length (overlay (data_bits X) (8 * ?d) (take (n mod 8) (byte_bits ?b) @ replicate (8 - n mod 8) False))
        = length (overlay (data_bits out) 0 (take n (data_bits block) @ replicate (8 * ?k - n) False))"
        using in_X X room k n(1) n8 up by simp
    next
      fix i
      assume "i < length (overlay (data_bits X) (8 * ?d) (take (n mod 8) (byte_bits ?b) @ replicate (8 - n mod 8) False))"
      then have i: "i < 8 * length out" using in_X X by simp
      have b: "byte_bits ?b ! j = data_bits X ! (8 * ?d + j)" if "j < 8" for j
        using that in_X nth_data_bits [of "8 * ?d + j" X] by (simp add: byte_bits_def)
      show "overlay (data_bits X) (8 * ?d) (take (n mod 8) (byte_bits ?b) @ replicate (8 - n mod 8) False) ! i
        = overlay (data_bits out) 0 (take n (data_bits block) @ replicate (8 * ?k - n) False) ! i"
      proof (cases "8 * ?d \<le> i \<and> i < 8 * ?d + 8")
        case True
        then obtain j where j: "i = 8 * ?d + j" "j < 8" using le_Suc_ex by (metis nat_add_left_cancel_less)
        have m: "n mod 8 \<le> 8" by simp
        have "data_bits X ! i = data_bits block ! i" using j in_X X room k up by (simp add: bits nth_overlay)
        moreover have "i < n \<longleftrightarrow> j < n mod 8" using j(1) n8 by linarith
        moreover have "j - n mod 8 < 8 - n mod 8" "8 * ?d + j - n < 8 + 8 * ?d - n" if "\<not> j < n mod 8"
          using that j(2) n8 by linarith+
        ultimately show ?thesis using j in_X X room k n(1) up b [OF j(2)] m
          by (cases "j < n mod 8") (auto simp: nth_overlay nth_append)
      next
        case False
        then show ?thesis using i in_X X room k n(1) n8 up
          by (auto simp: nth_overlay nth_append bits simp del: mult_div_mod_eq)
      qed
    qed
    finally show ?thesis using Y by blast
  qed
qed

section \<open>A call\<close>

lemma shorter_prefix: "take n xs = take n ys \<Longrightarrow> k \<le> n \<Longrightarrow> take k xs = take k ys"
  by (drule arg_cong [where f = "take k"]) (simp add: min_def)

lemma take_state_bytes: "n \<le> k \<Longrightarrow> take (8 * n) (state_bytes state k) = state_bytes state n"
proof -
  have words: "take (8 * n) (concat (map fromWordToBytes ws)) = concat (map fromWordToBytes (take n ws))" for ws n
  proof (induction ws arbitrary: n)
    case (Cons w ws)
    then show ?case by (cases n) simp_all
  qed simp
  assume "n \<le> k"
  then show ?thesis by (simp add: state_bytes_def words min_def)
qed

context keccak_provider
begin

lemma InitDuplex_result:
  assumes "2 \<le> r" and "r \<le> 1600"
  shows "\<exists>s'. InitDuplex K s r (1600 - r) = (0, s') \<and> duplexed repr r [] s'"
proof -
  have "uint32_sub r 2 = r - 2" using assms by (simp add: uint32_sub_id)
  then show ?thesis using assms initial by (auto simp: InitDuplex_def duplexed_def uint32_def standard_state_def)
qed

lemma Duplexing_result:
  assumes inv: "duplexed repr r m s" and n: "n + 2 \<le> r" "(n + 7) div 8 \<le> length input" "low_bits input n"
    and k: "k \<le> r" "(k + 7) div 8 \<le> length out" and block: "length block = 200"
  defines "m' \<equiv> pad r (m @ take n (data_bits input))"
  shows "\<exists>s' out'. Duplexing K block s input n out k = Ret (0, s', out') \<and> duplexed repr r m' s'
    \<and> data_bits out' = overlay (data_bits out) 0
        (take k (data_bits (state_bytes (standard_state r m') 25)) @ replicate (8 * ((k + 7) div 8) - k) False)"
proof -
  have s: "2 \<le> r" "r \<le> 1600" "r dvd length m" "duplex_rate s = r" "rho_max s = r - 2"
    "duplex_lanes s = repr (standard_state r m)"
    using inv by (simp_all add: duplexed_def)
  let ?n = "uint32 (r + 63) div 64"
  define x where "x = take n (data_bits input) @ True # replicate (r - (n + 2)) False @ [True]"
  note b = duplex_bytes [OF s(1,2) n(1)]
  have len: "length (take n (data_bits input)) = n" using n(2) by simp
  have m': "m' = m @ x" unfolding m'_def x_def using pad_block [OF s(3), of "take n (data_bits input)"] n(1) len by simp
  have x: "length x = r" using n(1) len by (simp add: x_def del: length_take)
  have empty: "leftover r m = []" using s(3) by (simp add: leftover_def)
  have st: "standard_state r m' = standard_block (standard_state r m) x"
    using leftover_full(1) [of r m x] empty x s(1) by (simp add: m')
  obtain B where B: "duplex_block block r input n = Ret B" "length B = 200"
    "take (8 * (?n * 8)) (data_bits B) = take n (data_bits input) @ True # replicate (r - (n + 2)) False @ True # replicate (8 * (?n * 8) - r) False"
    by (rule duplex_block_result [OF s(1,2) n block])
  have "take (64 * ?n) (data_bits B) = x @ replicate (64 * ?n - r) False"
    using B(3) by (simp add: x_def mult.commute mult.left_commute)
  moreover have "8 * ?n \<le> length B" "?n \<le> 25" using b(1) B(2) by simp_all
  ultimately have absorb: "impl_Absorb K (duplex_lanes s) B ?n = Ret (repr (standard_state r m'))"
    using absorb_lanes [of "standard_state r m" ?n B] absorbed_is_block [of ?n B "standard_state r m"] s(6)
    by (simp add: st standard_block_zeros)
  define E where "E = overlay B 0 (state_bytes (standard_state r m') ?n)"
  have extracted: "impl_Extract K (repr (standard_state r m')) B ?n = Ret E"
    using extract_lanes [of "standard_state r m'" ?n B] B(2) b(1) by (simp add: E_def)
  have "min 25 ?n = ?n" using b(1) by simp
  then have E: "length E = 200" "take (8 * ?n) E = state_bytes (standard_state r m') ?n"
    using B(2) b(1) by (simp_all add: E_def overlay_def)
  then have "take (8 * (8 * ?n)) (data_bits E) = take (8 * (8 * ?n)) (data_bits (state_bytes (standard_state r m') 25))"
    unfolding take_data_bits using take_state_bytes [of ?n 25 "standard_state r m'"] b(1) by simp
  moreover have "k \<le> 8 * (8 * ?n)" using k(1) b(2) by simp
  ultimately have bits: "take k (data_bits E) = take k (data_bits (state_bytes (standard_state r m') 25))"
    by (rule shorter_prefix)
  have "k \<le> 8 * length E" "k < 2 ^ 31" using k(1) s(2) E(1) by simp_all
  from copy_output_result [OF this k(2)] obtain out' where out': "copy_output E out k = Ret out'"
    "data_bits out' = overlay (data_bits out) 0 (take k (data_bits E) @ replicate (8 * ((k + 7) div 8) - k) False)" by blast
  have "Duplexing K block s input n out k = Ret (0, s\<lparr>duplex_lanes := repr (standard_state r m')\<rparr>, out')"
    using n(1) k(1) s(4,5) input_aligned_iff [OF n(2)] n(3) B(1) absorb extracted out'(1) by (simp add: Duplexing_def)
  moreover have "duplexed repr r m' (s\<lparr>duplex_lanes := repr (standard_state r m')\<rparr>)"
    using s x by (simp add: duplexed_def m')
  ultimately show ?thesis using out'(2) bits by metis
qed

end

section \<open>Properties\<close>

text \<open>
  C9: The calls of a duplex object are a sponge: after any calls, a further one absorbs its input
  bits, padded to a block, behind the blocks of the calls before, and its output is the first bits of the
  state the standard sponge has after all of them, for every rate from 2 to 1600 and inputs and outputs
  of any length in bits the rate allows.
\<close>
theorem duplexing_is_sponge:
  assumes "duplexed masked r m s" and "inBitLen + 2 \<le> r" and "(inBitLen + 7) div 8 \<le> length input"
    and "low_bits input inBitLen" and "outBitLen \<le> r" and "(outBitLen + 7) div 8 \<le> length out" and "length block = 200"
  shows "\<exists>s' out'. Duplexing opt64_impl block s input inBitLen out outBitLen = Ret (0, s', out')
    \<and> duplexed masked r (pad r (m @ take inBitLen (data_bits input))) s'
    \<and> take outBitLen (data_bits out')
        = take outBitLen (data_bits (state_bytes (standard_state r (pad r (m @ take inBitLen (data_bits input)))) 25))"
proof -
  let ?m = "pad r (m @ take inBitLen (data_bits input))"
  from opt64.Duplexing_result [OF assms] obtain s' out' where
    "Duplexing opt64_impl block s input inBitLen out outBitLen = Ret (0, s', out')" "duplexed masked r ?m s'"
    "data_bits out' = overlay (data_bits out) 0 (take outBitLen (data_bits (state_bytes (standard_state r ?m) 25))
       @ replicate (8 * ((outBitLen + 7) div 8) - outBitLen) False)" by blast
  moreover have "outBitLen \<le> 1600" using assms(1,5) by (simp add: duplexed_def)
  ultimately show ?thesis by (auto simp: overlay_def)
qed

definition fresh_duplex :: "nat \<Rightarrow> duplexState" where
  "fresh_duplex r = snd (InitDuplex opt64_impl \<lparr>duplex_lanes = [], duplex_rate = 0, duplex_capacity = 0, rho_max = 0\<rparr> r (1600 - r))"

lemma fresh_duplexed: "2 \<le> r \<Longrightarrow> r \<le> 1600 \<Longrightarrow> duplexed masked r [] (fresh_duplex r)"
  using opt64.InitDuplex_result [of r] unfolding fresh_duplex_def by (metis snd_conv)

theorem duplexing_is_sponge_witness:
  "\<exists>s' out'. Duplexing opt64_impl (replicate 200 0) (fresh_duplex 1027) [171, 5] 11 [0, 0] 13 = Ret (0, s', out')
    \<and> duplexed masked 1027 (pad 1027 ([] @ take 11 (data_bits [171, 5]))) s'
    \<and> take 13 (data_bits out')
        = take 13 (data_bits (state_bytes (standard_state 1027 (pad 1027 ([] @ take 11 (data_bits [171, 5])))) 25))"
proof (rule duplexing_is_sponge)
  show "duplexed masked 1027 [] (fresh_duplex 1027)" by (rule fresh_duplexed) simp_all
  have "{11..<16} = {11, 12, 13, 14, 15::nat}" by auto
  then show "low_bits [171, 5] 11" by (simp add: low_bits_def byte_bits_def upt_rec)
qed simp_all

text \<open>
  A rate of one bit is accepted, but the longest input that is allowed, two bits less, is computed in 32
  bits: every aligned input of more than 64 bits is then taken and written over the end of the block.
\<close>
theorem duplex_of_rate_one_overruns:
  assumes "64 < inBitLen" and "inBitLen < 2 ^ 32 - 7" and "(inBitLen + 7) div 8 \<le> length input"
    and "low_bits input inBitLen" and "outBitLen \<le> 1" and "length block = 200"
  shows "\<exists>s'. InitDuplex K s 1 1599 = (0, s') \<and> Duplexing K block s' input inBitLen out outBitLen = Crash"
proof -
  let ?n = "(inBitLen + 7) div 8"
  have small: "uint32 (inBitLen + 7) = inBitLen + 7" using assms(2) by (simp add: uint32_def)
  have one: "uint32 (1 + 63) div 64 * 8 = 8" by (simp add: uint32_def)
  have n: "8 < ?n" "?n < 2 ^ 29" using assms(1,2) by simp_all
  then have wide: "uint32_sub 8 ?n = 8 + 2 ^ 32 - ?n" by (simp add: uint32_sub_def uint32_def)
  have "write_block (overlay block 0 (take ?n input)) ?n (replicate (uint32_sub 8 ?n) 0) = Crash" if "?n \<le> 200"
    using that assms(3,6) unfolding wide by (simp add: write_block_def)
  then have "duplex_block block 1 input inBitLen = Crash"
    using assms(3,6) unfolding duplex_block_def small one Let_def
    by (cases "?n \<le> 200") (simp_all add: write_block_def)
  then show ?thesis
    using assms input_aligned_iff [OF assms(3)]
    by (simp add: InitDuplex_def uint32_def uint32_sub_def Duplexing_def)
qed

theorem duplex_of_rate_one_overruns_witness:
  "\<exists>s'. InitDuplex opt64_impl (fresh_duplex 8) 1 1599 = (0, s')
    \<and> Duplexing opt64_impl (replicate 200 0) s' (replicate 9 0) 72 [0] 1 = Crash"
  by (rule duplex_of_rate_one_overruns) (simp_all add: low_bits_def)

end
