(* ===== verification/Keccak_Compact.thy ===== *)
theory Keccak_Compact
  imports Keccak_Duplex Keccak_Inplace
begin

text \<open>
  The sponges that are written around one \<^verbatim>\<open>KeccakF\<close>: \<^verbatim>\<open>crypto_hash\<close>, the same function in
  \<^verbatim>\<open>Keccak-simple.c\<close>, \<^verbatim>\<open>Keccak-compact.c\<close> and \<^verbatim>\<open>Keccak-inplace.c\<close>, and the interface with a queue of bits of
  \<^verbatim>\<open>Keccak-compact.c\<close>, which keeps no queue but adds every byte to the state at once. The rate and the
  length of the output are settings of the build and arguments here; the lanes have 64 bits and the
  machine is little-endian.
\<close>

unbundle bit_operations_syntax

section \<open>The function crypto_hash\<close>

type_synonym keccak_program = "lane list \<Rightarrow> lane list \<Rightarrow> nat \<Rightarrow> lane list outcome"

text \<open>The bytes of an array of lanes in the memory.\<close>

definition lane_bytes :: "lane list \<Rightarrow> byte list" where
  "lane_bytes lanes = concat (map fromWordToBytes lanes)"

text \<open>Whole blocks are read from the input as lanes; \<open>rb\<close> is \<^verbatim>\<open>cKeccakR_SizeInBytes\<close>.\<close>

partial_function (option) hash_blocks ::
  "keccak_program \<Rightarrow> nat \<Rightarrow> lane list \<Rightarrow> byte list \<Rightarrow> nat \<Rightarrow> (lane list \<times> byte list \<times> nat) outcome option" where
  "hash_blocks F rb state input inlen =
     (if inlen \<ge> rb then
        rbind (Some (data_words input (rb div 8))) (\<lambda>w.
        rbind (Some (F state w (rb div 8))) (\<lambda>state.
        hash_blocks F rb state (drop rb input) (inlen - rb)))
      else Some (Ret (state, input, inlen)))"

text \<open>The last block: the rest of the input, the first bit of the padding, zeros and the last bit.\<close>

definition last_block :: "byte list \<Rightarrow> nat \<Rightarrow> byte list \<Rightarrow> nat \<Rightarrow> byte list outcome" where
  "last_block temp rb input inlen =
     (if inlen \<le> length input then
        obind (write_block temp 0 (take inlen input)) (\<lambda>temp.
        obind (poke temp inlen 1) (\<lambda>temp.
        obind (write_block temp (inlen + 1) (replicate (rb - (inlen + 1)) 0)) (\<lambda>temp.
        or_byte temp (rb - 1) 0x80)))
      else Crash)"

text \<open>
  The block is the output itself if it is long enough, else the local array \<open>temp\<close>, not initialised.
  \<open>n\<close> is \<^verbatim>\<open>crypto_hash_BYTES\<close>.
\<close>

definition crypto_hash ::
  "keccak_program \<Rightarrow> nat \<Rightarrow> nat \<Rightarrow> byte list \<Rightarrow> byte list \<Rightarrow> byte list \<Rightarrow> nat \<Rightarrow> (nat \<times> byte list) outcome option" where
  "crypto_hash F rb n temp out input inlen =
     rbind (hash_blocks F rb (replicate 25 0) input inlen) (\<lambda>(state, input, inlen).
     rbind (Some (last_block (if n \<ge> rb then out else temp) rb input inlen)) (\<lambda>temp.
     rbind (Some (data_words temp (rb div 8))) (\<lambda>w.
     rbind (Some (F state w (rb div 8))) (\<lambda>state.
     rbind (Some (write_block (if n \<ge> rb then temp else out) 0 (take n (lane_bytes state)))) (\<lambda>out.
     Some (Ret (0, out)))))))"

definition simple_crypto_hash :: "nat \<Rightarrow> nat \<Rightarrow> byte list \<Rightarrow> byte list \<Rightarrow> byte list \<Rightarrow> nat \<Rightarrow> (nat \<times> byte list) outcome option" where
  "simple_crypto_hash = crypto_hash simple_KeccakF"

definition compact_crypto_hash :: "nat \<Rightarrow> nat \<Rightarrow> byte list \<Rightarrow> byte list \<Rightarrow> byte list \<Rightarrow> nat \<Rightarrow> (nat \<times> byte list) outcome option" where
  "compact_crypto_hash = crypto_hash compact_KeccakF"

definition inplace_crypto_hash :: "nat \<Rightarrow> nat \<Rightarrow> byte list \<Rightarrow> byte list \<Rightarrow> byte list \<Rightarrow> nat \<Rightarrow> (nat \<times> byte list) outcome option" where
  "inplace_crypto_hash = crypto_hash inplace_KeccakF"

section \<open>The interface of the compact program\<close>

record hashState =
  hash_state :: "byte list"
  hash_queue :: int

definition permute_bytes :: "byte list \<Rightarrow> lane list \<Rightarrow> nat \<Rightarrow> byte list outcome" where
  "permute_bytes b w n =
     obind (data_words b 25) (\<lambda>state. obind (compact_KeccakF state w n) (\<lambda>state. Ret (lane_bytes state)))"

definition xor_byte :: "byte list \<Rightarrow> nat \<Rightarrow> byte \<Rightarrow> byte list outcome" where
  "xor_byte b j x = obind (peek b j) (\<lambda>y. poke b j (y XOR x))"

definition compact_Init :: "hashState \<Rightarrow> HashReturn \<times> hashState" where
  "compact_Init s = (SUCCESS, s\<lparr>hash_queue := 0, hash_state := replicate 200 0\<rparr>)"

text \<open>Bytes until the queue is empty; \<open>r\<close> is \<^verbatim>\<open>cKeccakR\<close>.\<close>

fun fill_queue :: "nat \<Rightarrow> hashState \<Rightarrow> byte list \<Rightarrow> nat \<Rightarrow> (hashState \<times> byte list \<times> nat) outcome" where
  "fill_queue r s data databitlen =
     (if databitlen \<ge> 8 \<and> hash_queue s \<noteq> 0 then
        obind (peek data 0) (\<lambda>x.
        obind (xor_byte (hash_state s) (nat (hash_queue s div 8)) x) (\<lambda>b.
        if hash_queue s + 8 = int r
        then obind (permute_bytes b [] 0) (\<lambda>b.
             fill_queue r (s\<lparr>hash_state := b, hash_queue := 0\<rparr>) (drop 1 data) (databitlen - 8))
        else fill_queue r (s\<lparr>hash_state := b, hash_queue := hash_queue s + 8\<rparr>) (drop 1 data) (databitlen - 8)))
      else Ret (s, data, databitlen))"

declare fill_queue.simps [simp del]

partial_function (option) compact_blocks ::
  "nat \<Rightarrow> byte list \<Rightarrow> byte list \<Rightarrow> nat \<Rightarrow> (byte list \<times> byte list \<times> nat) outcome option" where
  "compact_blocks r b data databitlen =
     (if databitlen \<ge> r then
        rbind (Some (data_words data (r div 8 div 8))) (\<lambda>w.
        rbind (Some (permute_bytes b w (r div 8 div 8))) (\<lambda>b.
        compact_blocks r b (drop (r div 8) data) (databitlen - r)))
      else Some (Ret (b, data, databitlen)))"

fun queue_bytes :: "hashState \<Rightarrow> byte list \<Rightarrow> nat \<Rightarrow> (hashState \<times> byte list \<times> nat) outcome" where
  "queue_bytes s data databitlen =
     (if databitlen \<ge> 8 then
        obind (peek data 0) (\<lambda>x.
        obind (xor_byte (hash_state s) (nat (hash_queue s div 8)) x) (\<lambda>b.
        queue_bytes (s\<lparr>hash_state := b, hash_queue := hash_queue s + 8\<rparr>) (drop 1 data) (databitlen - 8)))
      else Ret (s, data, databitlen))"

declare queue_bytes.simps [simp del]

definition compact_Update ::
  "nat \<Rightarrow> hashState \<Rightarrow> byte list \<Rightarrow> nat \<Rightarrow> (HashReturn \<times> hashState) outcome option" where
  "compact_Update r s data databitlen =
     (if hash_queue s < 0 \<or> hash_queue s mod 8 \<noteq> 0 then Some (Ret (FAIL, s))
      else
        rbind (Some (fill_queue r s data databitlen)) (\<lambda>(s, data, databitlen).
        rbind (compact_blocks r (hash_state s) data databitlen) (\<lambda>(b, data, databitlen).
        rbind (Some (queue_bytes (s\<lparr>hash_state := b\<rparr>) data databitlen)) (\<lambda>(s, data, databitlen).
        if databitlen \<noteq> 0 then
          rbind (Some (peek data 0)) (\<lambda>x.
          rbind (Some (xor_byte (hash_state s) (nat (hash_queue s div 8)) (drop_bit (8 - databitlen) x))) (\<lambda>b.
          Some (Ret (SUCCESS, s\<lparr>hash_state := b, hash_queue := hash_queue s + int databitlen\<rparr>))))
        else Some (Ret (SUCCESS, s))))))"

text \<open>The output; a negative length is converted to \<^verbatim>\<open>size_t\<close> and copied to the end of the memory.\<close>

partial_function (option) compact_output ::
  "nat \<Rightarrow> byte list \<Rightarrow> byte list \<Rightarrow> nat \<Rightarrow> int \<Rightarrow> (byte list \<times> byte list) outcome option" where
  "compact_output rb b hashval pos n =
     (if n < 0 then Some Crash
      else if n \<noteq> 0 then
        let i = (if n < int rb then nat n else rb) in
        rbind (Some (write_block hashval pos (take i b))) (\<lambda>hashval.
        rbind (Some (if int i \<noteq> n then permute_bytes b [] 0 else Ret b)) (\<lambda>b.
        compact_output rb b hashval (pos + i) (n - int i)))
      else Some (Ret (b, hashval)))"

definition compact_Final ::
  "nat \<Rightarrow> hashState \<Rightarrow> byte list \<Rightarrow> int \<Rightarrow> (HashReturn \<times> hashState \<times> byte list) outcome option" where
  "compact_Final r s hashval hashbytelen =
     (if hash_queue s < 0 then Some (Ret (FAIL, s, hashval))
      else
        rbind (Some
          (if hash_queue s + 1 = int (r div 8 * 8)
           then obind (xor_byte (hash_state s) (r div 8 - 1) 0x80) (\<lambda>b. permute_bytes b [] 0)
           else xor_byte (hash_state s) (nat (hash_queue s div 8)) (push_bit (nat (hash_queue s mod 8)) 1))) (\<lambda>b.
        rbind (Some (xor_byte b (r div 8 - 1) 0x80)) (\<lambda>b.
        rbind (Some (permute_bytes b [] 0)) (\<lambda>b.
        rbind (compact_output (r div 8) b hashval 0 hashbytelen) (\<lambda>(b, hashval).
        Some (Ret (SUCCESS, s\<lparr>hash_state := b, hash_queue := - 1\<rparr>, hashval)))))))"

section \<open>The function crypto_hash is the sponge\<close>

definition is_keccak_f :: "keccak_program \<Rightarrow> bool" where
  "is_keccak_f F \<longleftrightarrow> (\<forall>state w n. length state = 25 \<and> n \<le> 25 \<and> n \<le> length w
     \<longrightarrow> F state w n = Ret (keccak_f (add_input state w n)))"

lemma keccak_programs:
  "is_keccak_f simple_KeccakF" "is_keccak_f compact_KeccakF" "is_keccak_f inplace_KeccakF"
proof -
  note len = inplace_passes [of "add_input state w n" 6 for state w n]
  show "is_keccak_f simple_KeccakF" "is_keccak_f compact_KeccakF"
    using simple_and_compact_keccak_f by (auto simp: is_keccak_f_def)
  show "is_keccak_f inplace_KeccakF"
    using len xor_lanes_result by (auto simp: is_keccak_f_def inplace_KeccakF_def keccak_f_def add_input_def simp del: upt_Suc)
qed

lemma data_words_in: "8 * n \<le> length data \<Longrightarrow> data_words data n = Ret (block_words data n)"
  by (simp add: data_words_def block_words_def)

text \<open>One block: it is read as lanes, added and permuted.\<close>

lemma run_block:
  assumes F: "is_keccak_f F" and r: "valid_rate r" and empty: "leftover r m = []" and len: "r \<le> 8 * length data"
  shows "\<exists>w. data_words data (r div 8 div 8) = Ret w
      \<and> F (standard_state r m) w (r div 8 div 8) = Ret (standard_state r (m @ data_bits (take (r div 8) data)))
      \<and> leftover r (m @ data_bits (take (r div 8) data)) = []"
proof -
  note R = valid_rate_facts [OF r]
  define n where "n = r div 8 div 8"
  have n: "n = r div 64" "8 * n = r div 8" "64 * n = r" "n \<le> 25" using R unfolding n_def by (simp_all add: div_mult2_eq [symmetric])
  have n8: "8 * n \<le> length data" using len n(3) by simp
  have r8: "8 * (r div 8) = r" using n(2,3) by simp
  have "F (standard_state r m) (block_words data n) n = Ret (absorbed (standard_state r m) data n)"
    using F n(4) by (simp add: is_keccak_f_def absorbed_def)
  moreover have "absorbed (standard_state r m) data n = standard_block (standard_state r m) (data_bits (take (r div 8) data))"
    using absorbed_is_block [OF n8 n(4)] take_data_bits [of "r div 8" data] r8 by (simp add: n(3))
  moreover have "length (data_bits (take (r div 8) data)) = r" using len n(2,3) by simp
  ultimately show ?thesis
    using leftover_full [of r m "data_bits (take (r div 8) data)"] empty R(1) data_words_in [OF n8]
    unfolding n_def by simp
qed

lemma hash_blocks_result:
  assumes F: "is_keccak_f F" and r: "valid_rate r"
  shows "leftover r m = [] \<Longrightarrow> inlen \<le> length input \<Longrightarrow> \<exists>m'. hash_blocks F (r div 8) (standard_state r m) input inlen
      = Some (Ret (standard_state r m', drop (inlen - inlen mod (r div 8)) input, inlen mod (r div 8)))
    \<and> leftover r m' = [] \<and> m' = m @ data_bits (take (inlen - inlen mod (r div 8)) input)"
proof (induction inlen arbitrary: m input rule: less_induct)
  case (less inlen)
  let ?b = "r div 8"
  have b: "0 < ?b" "r = 8 * ?b" using valid_rate_facts [OF r] by (simp_all add: div_greater_zero_iff)
  show ?case
  proof (cases "?b \<le> inlen")
    case False
    then show ?thesis using less.prems by (subst hash_blocks.simps) simp
  next
    case True
    have "r \<le> 8 * length input" using True less.prems(2) b(2) by linarith
    from run_block [OF F r less.prems(1) this] obtain w where w: "data_words input (?b div 8) = Ret w"
      "F (standard_state r m) w (?b div 8) = Ret (standard_state r (m @ data_bits (take ?b input)))"
      "leftover r (m @ data_bits (take ?b input)) = []" by blast
    have "inlen - ?b < inlen" "inlen - ?b \<le> length (drop ?b input)" using True b(1) less.prems(2) by simp_all
    note IH = less.IH [OF this(1) w(3) this(2)]
    have mod: "(inlen - ?b) mod ?b = inlen mod ?b" using True by (simp add: le_mod_geq)
    have below: "inlen mod ?b \<le> inlen - ?b" using mod by (metis mod_less_eq_dividend)
    then have "drop (inlen - ?b - inlen mod ?b) (drop ?b input) = drop (inlen - inlen mod ?b) input"
      "take ?b input @ take (inlen - ?b - inlen mod ?b) (drop ?b input) = take (inlen - inlen mod ?b) input"
      using True take_add [of ?b "inlen - ?b - inlen mod ?b" input] by simp_all
    with IH w(1,2) True show ?thesis
      unfolding mod by (subst hash_blocks.simps) (simp add: data_bits_simps(3) [symmetric] del: data_bits_simps(3))
  qed
qed

lemma byte_bits_1: "byte_bits 1 = True # replicate 7 False"
proof (rule nth_equalityI)
  fix i
  assume "i < length (byte_bits 1)"
  then show "byte_bits 1 ! i = (True # replicate 7 False) ! i" by (cases i) (simp_all add: byte_bits_def)
qed simp

lemma last_block_result:
  assumes "n < rb" and "n \<le> length input" and "rb \<le> length temp"
  obtains temp' where "last_block temp rb input n = Ret temp'" and "length temp' = length temp" and "drop rb temp' = drop rb temp"
    and "data_bits (take rb temp') = data_bits (take n input) @ True # replicate (8 * rb - (8 * n + 2)) False @ [True]"
proof -
  define x where "x = take n input @ 1 # replicate (rb - (n + 1)) 0"
  have x: "length x = rb" using assms by (simp add: x_def)
  define T where "T = overlay temp 0 x"
  have T: "length T = length temp" "take rb T = x" using assms(3) x by (simp_all add: T_def overlay_def)
  have steps: "overlay ((overlay temp 0 (take n input))[n := 1]) (n + 1) (replicate (rb - (n + 1)) 0) = T"
    using assms by (intro nth_equalityI) (auto simp: T_def x_def nth_overlay nth_append nth_list_update nth_Cons')
  obtain temp' where t: "or_byte T ((8 * rb - 1) div 8) (push_bit ((8 * rb - 1) mod 8) 1) = Ret temp'"
    "length temp' = length T" "data_bits temp' = (data_bits T)[8 * rb - 1 := True]"
    by (rule opt64.or_byte_sets_bit [of "8 * rb - 1" T]) (use assms T(1) in simp)
  have "(8 * rb - 1) div 8 = rb - 1" "(8 * rb - 1) mod 8 = 7" using assms(1) by (simp_all add: div_nat_eqI mod_nat_eqI)
  then have "drop rb temp' = drop rb T"
    using t(1) assms(1) by (auto simp: or_byte_def peek_def poke_def split: if_splits)
  then have "drop rb temp' = drop rb temp" using x by (simp add: T_def overlay_def)
  moreover have "last_block temp rb input n = Ret temp'"
    using assms t(1) steps \<open>(8 * rb - 1) div 8 = rb - 1\<close> \<open>(8 * rb - 1) mod 8 = 7\<close>
    by (simp add: last_block_def write_block_in poke_def)
  moreover have "data_bits (take rb temp') = (data_bits x)[8 * rb - 1 := True]"
    using take_data_bits [of rb temp'] take_data_bits [of rb T] by (simp add: t(3) T(2) take_update_swap)
  moreover have "(data_bits x)[8 * rb - 1 := True] = data_bits (take n input) @ True # replicate (8 * rb - (8 * n + 2)) False @ [True]"
    using assms
    by (intro nth_equalityI)
      (auto simp: x_def byte_bits_1 data_bits_zeros nth_append nth_list_update nth_Cons')
  ultimately show ?thesis using t(2) T(1) by (intro that) simp_all
qed

lemma first_bytes:
  assumes "valid_rate r" and "length state = 25" and "n \<le> r div 8"
  shows "take n (lane_bytes state) = map (out_byte r state) [0..<n]"
proof (rule nth_equalityI)
  note R = valid_rate_facts [OF assms(1)]
  have n: "n \<le> 200" using assms(3) R(5) by simp
  show "length (take n (lane_bytes state)) = length (map (out_byte r state) [0..<n])"
    using n assms(2) by (simp add: lane_bytes_def)
  fix i
  assume "i < length (take n (lane_bytes state))"
  then have i: "i < n" by simp
  have "state_bytes state (r div 64) = take (8 * (r div 64)) (state_bytes state 25)"
    using R(6) by (intro take_state_bytes [symmetric]) simp
  then have "state_bytes state (r div 64) ! i = lane_bytes state ! i"
    using i assms(2,3) R(7) by (simp add: lane_bytes_def state_bytes_def)
  with i assms(3) show "take n (lane_bytes state) ! i = map (out_byte r state) [0..<n] ! i" by (simp add: out_byte_def)
qed

lemma crypto_hash_result:
  assumes F: "is_keccak_f F" and r: "valid_rate r" and n: "n \<le> r div 8" "n \<le> length out"
    and input: "inlen \<le> length input" and temp: "n < r div 8 \<Longrightarrow> r div 8 \<le> length temp"
  shows "crypto_hash F (r div 8) n temp out input inlen = Some (Ret (0, overlay out 0
    (map (out_byte r (standard_state r (pad r (data_bits (take inlen input))))) [0..<n])))"
proof -
  let ?b = "r div 8"
  define M where "M = data_bits (take inlen input)"
  note R = valid_rate_facts [OF r]
  have b: "0 < ?b" "8 * ?b = r" "?b * 8 = r" using R by (simp_all add: div_greater_zero_iff)
  define k where "k = inlen mod ?b"
  obtain m where m: "hash_blocks F ?b (replicate 25 0) input inlen = Some (Ret (standard_state r m, drop (inlen - k) input, k))"
    "leftover r m = []" "m = data_bits (take (inlen - k) input)"
    using hash_blocks_result [OF F r _ input, of "[]"] unfolding k_def by (auto simp: leftover_def standard_state_def)
  have k: "k < ?b" "k \<le> inlen" using b(1) by (simp_all add: k_def)
  define x where "x = data_bits (take k (drop (inlen - k) input))"
  have x: "length x = 8 * k" using input k(2) by (simp add: x_def)
  have M: "M = m @ x" unfolding M_def m(3) x_def data_bits_simps(3) [symmetric]
    using take_add [of "inlen - k" k input] k(2) by simp
  have short: "length (leftover r m) + length x < r" using k(1) b(2) m(2) x by simp
  note left = leftover_short [OF short]
  have pad: "pad r M = m @ (x @ True # replicate (r - (8 * k + 2)) False @ [True])"
    using opt64.pad_is(1) [OF r, of M] left(2) m(2) x k(1) b(2) by (simp add: M)
  let ?temp = "if n \<ge> ?b then out else temp"
  have len: "?b \<le> length ?temp" using n temp by auto
  obtain T where T: "last_block ?temp ?b (drop (inlen - k) input) k = Ret T" "length T = length ?temp"
    "drop ?b T = drop ?b ?temp" "data_bits (take ?b T) = x @ True # replicate (r - (8 * k + 2)) False @ [True]"
    unfolding x_def by (rule last_block_result [of k ?b "drop (inlen - k) input" ?temp, unfolded b(2)]) (use k input len in simp_all)
  have "r \<le> 8 * length T" using len T(2) b(2) by linarith
  then obtain w where w: "data_words T (?b div 8) = Ret w"
    "F (standard_state r m) w (?b div 8) = Ret (standard_state r (pad r M))"
    using run_block [OF F r m(2), of T] unfolding T(4) pad by blast
  have bytes: "take n (lane_bytes (standard_state r (pad r M))) = map (out_byte r (standard_state r (pad r M))) [0..<n]"
    by (rule first_bytes [OF r length_standard_state n(1)])
  have "write_block (if n \<ge> ?b then T else out) 0 xs = Ret (overlay out 0 xs)" if "length xs = n" for xs
    using that T(2,3) n by (auto simp: overlay_def write_block_def)
  then show ?thesis
    using m(1) T(1) w unfolding M_def [symmetric]
    by (simp add: crypto_hash_def bytes split del: if_split)
qed

section \<open>The state with bits added to it\<close>

definition state_bit :: "lane list \<Rightarrow> nat \<Rightarrow> bool" where
  "state_bit state k = bit (state ! (k div 64)) (k mod 64)"

text \<open>The bytes of the state to which the bits \<open>x\<close>, less than a block, have been added.\<close>

definition mixed :: "lane list \<Rightarrow> bool list \<Rightarrow> byte list \<Rightarrow> bool" where
  "mixed state x b \<longleftrightarrow> length b = 200
     \<and> (\<forall>k<1600. data_bits b ! k \<longleftrightarrow> state_bit state k \<noteq> (k < length x \<and> x ! k))"

lemma bits_of_lanes:
  assumes "k < 64 * length lanes"
  shows "data_bits (lane_bytes lanes) ! k = bit (lanes ! (k div 64)) (k mod 64)"
proof -
  have words: "j < length ws \<Longrightarrow> i < 8 \<Longrightarrow> concat (map fromWordToBytes ws) ! (8 * j + i) = fromWordToBytes (ws ! j) ! i" for ws j i
  proof (induction ws arbitrary: j)
    case (Cons w ws)
    then show ?case by (cases j) (simp_all add: nth_append)
  qed simp
  have "k div 8 = 8 * (k div 64) + k mod 64 div 8" 
    using div_mult2_eq [of k 8 8] mod_mult2_eq [of k 8 8] by (simp add: mult.commute)
  moreover have "k div 64 < length lanes" "k mod 64 div 8 < 8" using assms by (simp_all add: less_mult_imp_div_less mult.commute)
  ultimately have "lane_bytes lanes ! (k div 8) = fromWordToBytes (lanes ! (k div 64)) ! (k mod 64 div 8)"
    by (simp add: lane_bytes_def words)
  moreover have "8 * (k mod 64 div 8) + k mod 8 = k mod 64"
    using mult_div_mod_eq [of 8 "k mod 64"] by (simp add: mod_mod_cancel)
  moreover have "bit (ucast (drop_bit (8 * i) w AND 0xFF) :: byte) j = bit w (8 * i + j)" if "j < 8" for w :: lane and i j
  proof -
    have "0xFF = (Bit_Operations.mask 8 :: lane)" by (simp add: mask_eq_exp_minus_1)
    with that show ?thesis by (simp only: bit_simps) (auto simp: bit_simps add.commute)
  qed
  ultimately show ?thesis
    using assms \<open>k mod 64 div 8 < 8\<close> by (simp add: nth_data_bits fromWordToBytes_def lane_bytes_def)
qed

lemma length_lane_bytes [simp]: "length (lane_bytes lanes) = 8 * length lanes"
  by (simp add: lane_bytes_def)

lemma mixed_nothing: "length state = 25 \<Longrightarrow> mixed state [] (lane_bytes state)"
  by (simp add: mixed_def bits_of_lanes state_bit_def)

lemma mixed_unique:
  assumes "mixed state x b" and "mixed state x b'"
  shows "b = b'"
proof (rule nth_equalityI)
  show len: "length b = length b'" using assms by (simp add: mixed_def)
  fix j
  assume j: "j < length b"
  have b: "length b = 200" using assms(1) by (simp add: mixed_def)
  show "b ! j = b' ! j"
  proof (rule bit_word_eqI)
    fix i
    assume "i < LENGTH(8)"
    then have i: "i < 8" by simp
    have "data_bits b ! (8 * j + i) = data_bits b' ! (8 * j + i)" using assms i j b by (simp add: mixed_def)
    then show "bit (b ! j) i \<longleftrightarrow> bit (b' ! j) i" using i j len b by (simp add: nth_data_bits)
  qed
qed

lemma bits_after_xor:
  assumes "k < 8 * length b"
  shows "data_bits (b[j := b ! j XOR x]) ! k \<longleftrightarrow> data_bits b ! k \<noteq> (k div 8 = j \<and> bit x (k mod 8))"
  using assms by (cases "k div 8 = j") (auto simp: nth_data_bits nth_list_update bit_xor_iff)

lemma mixed_more:
  assumes mix: "mixed state x b" and j: "length x = 8 * j" "j < 200" and p: "p \<le> 8" "\<And>i. p \<le> i \<Longrightarrow> \<not> bit y i"
  shows "\<exists>b'. xor_byte b j y = Ret b' \<and> mixed state (x @ take p (byte_bits y)) b'"
proof -
  let ?b = "b[j := b ! j XOR y]"
  have b: "length b = 200" using mix by (simp add: mixed_def)
  have "data_bits ?b ! k \<longleftrightarrow> state_bit state k \<noteq> (k < length (x @ take p (byte_bits y)) \<and> (x @ take p (byte_bits y)) ! k)"
    if k: "k < 1600" for k
  proof -
    have "data_bits ?b ! k \<longleftrightarrow> (state_bit state k \<noteq> (k < length x \<and> x ! k)) \<noteq> (k div 8 = j \<and> bit y (k mod 8))"
      using mix k bits_after_xor [of k b j y] b by (simp add: mixed_def)
    moreover have "(state_bit state k \<noteq> (k < length x \<and> x ! k)) \<noteq> (k div 8 = j \<and> bit y (k mod 8))
      \<longleftrightarrow> state_bit state k \<noteq> (k < length (x @ take p (byte_bits y)) \<and> (x @ take p (byte_bits y)) ! k)"
    proof (cases "k div 8 = j")
      case True
      define i where "i = k mod 8"
      have k: "k = 8 * j + i" "i < 8" using True mult_div_mod_eq [of 8 k] by (simp_all add: i_def)
      have "k < length (x @ take p (byte_bits y)) \<and> (x @ take p (byte_bits y)) ! k \<longleftrightarrow> i < p \<and> bit y i"
        using k j(1) p(1) by (auto simp: nth_append byte_bits_def)
      with True k j(1) p(2) [of i] show ?thesis by (auto simp: i_def [symmetric])
    next
      case False
      then have "k < 8 * j \<or> 8 * j + 8 \<le> k" by auto
      with False j(1) p(1) show ?thesis by (auto simp: nth_append)
    qed
    ultimately show ?thesis by simp
  qed
  with b j(2) show ?thesis by (intro exI [of _ ?b]) (simp add: xor_byte_def mem_simps mixed_def)
qed

lemma mixed_bit:
  assumes mix: "mixed state x b" and n: "length x \<le> n" "n < 1600"
  shows "\<exists>b'. xor_byte b (n div 8) (push_bit (n mod 8) 1) = Ret b' \<and> mixed state (x @ replicate (n - length x) False @ [True]) b'"
proof -
  let ?b = "b[n div 8 := b ! (n div 8) XOR push_bit (n mod 8) 1]" and ?x = "x @ replicate (n - length x) False @ [True]"
  have b: "length b = 200" using mix by (simp add: mixed_def)
  have "data_bits ?b ! k \<longleftrightarrow> state_bit state k \<noteq> (k < length ?x \<and> ?x ! k)" if k: "k < 1600" for k
  proof -
    have "bit (push_bit (n mod 8) 1 :: byte) (k mod 8) \<longleftrightarrow> k mod 8 = n mod 8" by (auto simp: bit_simps)
    moreover have "k div 8 = n div 8 \<and> k mod 8 = n mod 8 \<longleftrightarrow> k = n" by (metis mult_div_mod_eq)
    ultimately have "data_bits ?b ! k \<longleftrightarrow> (state_bit state k \<noteq> (k < length x \<and> x ! k)) \<noteq> (k = n)"
      using mix k bits_after_xor [of k b "n div 8" "push_bit (n mod 8) 1"] b by (simp add: mixed_def)
    moreover have "k < length ?x \<and> ?x ! k \<longleftrightarrow> k < length x \<and> x ! k \<or> k = n"
      using n(1) by (auto simp: nth_append nth_Cons')
    ultimately show ?thesis using n(1) by auto
  qed
  with b n(2) show ?thesis by (intro exI [of _ ?b]) (simp add: xor_byte_def mem_simps mixed_def)
qed

lemma words_of_mixed:
  assumes mix: "mixed state x b"
  shows "data_words b 25 = Ret (map (\<lambda>i. state ! i XOR lane_of_bits (take 64 (drop (64 * i) x))) [0..<25])"
proof -
  have b: "length b = 200" using mix by (simp add: mixed_def)
  have "block_words b 25 ! i = state ! i XOR lane_of_bits (take 64 (drop (64 * i) x))" if i: "i < 25" for i
  proof (rule bit_word_eqI)
    fix k
    assume "k < LENGTH(64)"
    then have k: "k < 64" by simp
    have len: "length (take 8 (drop (8 * i) b)) = 8" using b i by simp
    have "bit (block_words b 25 ! i) k \<longleftrightarrow> data_bits (take 8 (drop (8 * i) b)) ! k"
      using i k len by (simp add: block_words_def word_of_bytes bit_lane_of_bits)
    also have "\<dots> \<longleftrightarrow> data_bits b ! (64 * i + k)"
      using take_data_bits [of 8 "drop (8 * i) b"] drop_data_bits [of "8 * i" b] b i k by (simp flip: take_data_bits drop_data_bits)
    finally show "bit (block_words b 25 ! i) k \<longleftrightarrow> bit (state ! i XOR lane_of_bits (take 64 (drop (64 * i) x))) k"
      using mix i k unfolding mixed_def state_bit_def
      by (auto simp: bit_xor_iff bit_lane_of_bits min_def)
  qed
  then show ?thesis using b by (auto simp: data_words_in intro!: nth_equalityI)
qed

lemma words_of_lanes: "length state = 25 \<Longrightarrow> data_words (lane_bytes state) 25 = Ret state"
  using words_of_mixed [OF mixed_nothing, of state] map_nth [of state] by simp

text \<open>A whole block has been added: the permutation makes it a block of the standard.\<close>

lemma permute_mixed:
  assumes mix: "mixed state x b"
  shows "permute_bytes b [] 0 = Ret (lane_bytes (standard_block state x))"
proof -
  let ?w = "map (\<lambda>i. state ! i XOR lane_of_bits (take 64 (drop (64 * i) x))) [0..<25]"
  have "add_input ?w [] 0 = ?w" by (simp add: add_input_def)
  then show ?thesis
    using keccak_programs(2) words_of_mixed [OF mix]
    by (simp add: permute_bytes_def is_keccak_f_def standard_block_def)
qed

section \<open>The queue of bits\<close>

definition compact_absorbing :: "nat \<Rightarrow> bool list \<Rightarrow> hashState \<Rightarrow> bool" where
  "compact_absorbing r m s \<longleftrightarrow> valid_rate r \<and> hash_queue s = int (length (leftover r m))
     \<and> mixed (standard_state r m) (leftover r m) (hash_state s)"

lemma compact_facts:
  assumes "compact_absorbing r m s"
  shows "valid_rate r" "hash_queue s = int (length (leftover r m))" "mixed (standard_state r m) (leftover r m) (hash_state s)"
    "length (leftover r m) < r" "nat (hash_queue s div 8) = length (leftover r m) div 8" "hash_queue s < int r" "0 \<le> hash_queue s"
    "hash_queue s mod 8 = int (length (leftover r m) mod 8)"
proof -
  have q: "hash_queue s = int (length (leftover r m))" and r: "valid_rate r" using assms by (simp_all add: compact_absorbing_def)
  then show "length (leftover r m) < r" by (simp add: length_leftover valid_rate_def)
  with q show "hash_queue s < int r" "0 \<le> hash_queue s" by simp_all
  show "nat (hash_queue s div 8) = length (leftover r m) div 8" "hash_queue s mod 8 = int (length (leftover r m) mod 8)"
    unfolding q by (simp_all add: nat_div_distrib zmod_int)
qed (use assms in \<open>simp_all add: compact_absorbing_def\<close>)

lemma compact_start:
  assumes "valid_rate r"
  shows "compact_absorbing r [] (snd (compact_Init s))"
proof -
  have "lane_bytes (replicate 25 0) = replicate 200 0"
    unfolding lane_bytes_def by (rule nth_equalityI) (simp_all add: fromWordToBytes_def upt_rec numeral_eq_Suc)
  then show ?thesis
    using mixed_nothing [of "replicate 25 0"] assms
    by (simp add: compact_absorbing_def compact_Init_def leftover_def standard_state_def)
qed

text \<open>One byte.\<close>

lemma queue_one_byte:
  assumes inv: "compact_absorbing r m s" and b8: "hash_queue s mod 8 = 0"
  obtains b where "xor_byte (hash_state s) (nat (hash_queue s div 8)) x = Ret b"
    and "hash_queue s + 8 \<noteq> int r \<Longrightarrow> compact_absorbing r (m @ byte_bits x) (s\<lparr>hash_state := b, hash_queue := hash_queue s + 8\<rparr>)"
    and "hash_queue s + 8 = int r \<Longrightarrow> \<exists>b'. permute_bytes b [] 0 = Ret b'
      \<and> compact_absorbing r (m @ byte_bits x) (s\<lparr>hash_state := b', hash_queue := 0\<rparr>)"
proof -
  note C = compact_facts [OF inv] and R = valid_rate_facts [OF compact_facts(1) [OF inv]]
  let ?x = "leftover r m"
  have j: "length ?x = 8 * (length ?x div 8)" using b8 C(8) mult_div_mod_eq [of 8 "length ?x"] by simp
  have "length ?x div 8 < 200" using C(4) R(2) by linarith
  moreover have "\<not> bit x i" if "8 \<le> i" for i using that bit_imp_le_length [of x i] by auto
  ultimately obtain b where b: "xor_byte (hash_state s) (length ?x div 8) x = Ret b"
    "mixed (standard_state r m) (?x @ byte_bits x) b"
    using mixed_more [OF C(3) j, of 8 x] by auto
  have r8: "r = 8 * (r div 8)" using R(3) mult_div_mod_eq [of 8 r] by simp
  then have "length ?x div 8 < r div 8" using j C(4) by linarith
  then have room: "length ?x + 8 \<le> r" using j r8 by linarith
  show ?thesis
  proof (rule that)
    show "xor_byte (hash_state s) (nat (hash_queue s div 8)) x = Ret b" using b(1) C(5) by simp
  next
    assume "hash_queue s + 8 \<noteq> int r"
    then have "length ?x + length (byte_bits x) < r" using room C(2) by simp
    with leftover_short [OF this] show "compact_absorbing r (m @ byte_bits x) (s\<lparr>hash_state := b, hash_queue := hash_queue s + 8\<rparr>)"
      using b(2) C(1,2) by (simp add: compact_absorbing_def)
  next
    assume "hash_queue s + 8 = int r"
    then have "length ?x + length (byte_bits x) = r" using C(2) by simp
    from leftover_full [OF this R(1)] show "\<exists>b'. permute_bytes b [] 0 = Ret b'
      \<and> compact_absorbing r (m @ byte_bits x) (s\<lparr>hash_state := b', hash_queue := 0\<rparr>)"
      using permute_mixed [OF b(2)] C(1) by (simp add: compact_absorbing_def mixed_nothing)
  qed
qed

lemma fill_queue_result:
  "compact_absorbing r m s \<Longrightarrow> hash_queue s mod 8 = 0 \<Longrightarrow> N \<le> 8 * length data \<Longrightarrow>
    \<exists>s' j. fill_queue r s data N = Ret (s', drop j data, N - 8 * j) \<and> 8 * j \<le> N
    \<and> compact_absorbing r (m @ data_bits (take j data)) s' \<and> hash_queue s' mod 8 = 0 \<and> (hash_queue s' = 0 \<or> N - 8 * j < 8)"
proof (induction N arbitrary: m s data rule: less_induct)
  case (less N)
  show ?case
  proof (cases "8 \<le> N \<and> hash_queue s \<noteq> 0")
    case False
    then show ?thesis using less.prems
      by (intro exI [of _ s] exI [of _ 0]) (auto simp: fill_queue.simps [of r s data N])
  next
    case True
    then obtain x xs where data: "data = x # xs" using less.prems(3) by (cases data) auto
    obtain b where b: "xor_byte (hash_state s) (nat (hash_queue s div 8)) x = Ret b"
      "hash_queue s + 8 \<noteq> int r \<Longrightarrow> compact_absorbing r (m @ byte_bits x) (s\<lparr>hash_state := b, hash_queue := hash_queue s + 8\<rparr>)"
      "hash_queue s + 8 = int r \<Longrightarrow> \<exists>b'. permute_bytes b [] 0 = Ret b'
        \<and> compact_absorbing r (m @ byte_bits x) (s\<lparr>hash_state := b', hash_queue := 0\<rparr>)"
      by (rule queue_one_byte [OF less.prems(1,2)]) blast
    have step: "\<exists>s1. fill_queue r s data N = fill_queue r s1 xs (N - 8) \<and> compact_absorbing r (m @ byte_bits x) s1
        \<and> hash_queue s1 mod 8 = 0"
    proof (cases "hash_queue s + 8 = int r")
      case full: True
      with b(3) obtain b' where "permute_bytes b [] 0 = Ret b'"
        "compact_absorbing r (m @ byte_bits x) (s\<lparr>hash_state := b', hash_queue := 0\<rparr>)" by blast
      then show ?thesis using True full b(1) by (intro exI) (subst fill_queue.simps, auto simp: data mem_simps)
    next
      case False
      then show ?thesis using True b(1,2) less.prems(2)
        by (intro exI [of _ "s\<lparr>hash_state := b, hash_queue := hash_queue s + 8\<rparr>"]) (subst fill_queue.simps, auto simp: data mem_simps)
    qed
    then obtain s1 where s1: "fill_queue r s data N = fill_queue r s1 xs (N - 8)" "compact_absorbing r (m @ byte_bits x) s1"
      "hash_queue s1 mod 8 = 0" by (elim exE conjE)
    have "N - 8 < N" "N - 8 \<le> 8 * length xs" using True less.prems(3) data by auto
    from less.IH [OF this(1) s1(2,3) this(2)] obtain s' j where
      "fill_queue r s1 xs (N - 8) = Ret (s', drop j xs, N - 8 - 8 * j)" "8 * j \<le> N - 8"
      "compact_absorbing r ((m @ byte_bits x) @ data_bits (take j xs)) s'" "hash_queue s' mod 8 = 0"
      "hash_queue s' = 0 \<or> N - 8 - 8 * j < 8" by (elim exE conjE)
    moreover have "8 * Suc j \<le> N" using conjunct1 [OF True] \<open>8 * j \<le> N - 8\<close> le_diff_conv2 [of 8 N "8 * j"] by simp
    ultimately show ?thesis unfolding s1(1) unfolding data by (intro exI [of _ s'] exI [of _ "Suc j"]) simp
  qed
qed

text \<open>Whole blocks, with nothing in the queue.\<close>

lemma compact_blocks_result:
  assumes r: "valid_rate r"
  shows "leftover r m = [] \<Longrightarrow> N \<le> 8 * length data \<Longrightarrow>
    \<exists>j. compact_blocks r (lane_bytes (standard_state r m)) data N
        = Some (Ret (lane_bytes (standard_state r (m @ data_bits (take j data))), drop j data, N - 8 * j))
    \<and> 8 * j \<le> N \<and> N - 8 * j < r \<and> leftover r (m @ data_bits (take j data)) = []"
proof (induction N arbitrary: m data rule: less_induct)
  case (less N)
  have r8: "r = 8 * (r div 8)" "0 < r" using valid_rate_facts [OF r] mult_div_mod_eq [of 8 r] by simp_all
  show ?case
  proof (cases "r \<le> N")
    case False
    then show ?thesis using less.prems(1) by (intro exI [of _ 0], subst compact_blocks.simps) simp
  next
    case True
    then have "r \<le> 8 * length data" using less.prems(2) by simp
    from run_block [OF keccak_programs(2) r less.prems(1) this] obtain w where
      w: "data_words data (r div 8 div 8) = Ret w"
      "compact_KeccakF (standard_state r m) w (r div 8 div 8) = Ret (standard_state r (m @ data_bits (take (r div 8) data)))"
      "leftover r (m @ data_bits (take (r div 8) data)) = []" by (elim exE conjE)
    let ?m = "m @ data_bits (take (r div 8) data)"
    have "permute_bytes (lane_bytes (standard_state r m)) w (r div 8 div 8) = Ret (lane_bytes (standard_state r ?m))"
      using w(2) by (simp add: permute_bytes_def words_of_lanes)
    then have step: "compact_blocks r (lane_bytes (standard_state r m)) data N
        = compact_blocks r (lane_bytes (standard_state r ?m)) (drop (r div 8) data) (N - r)"
      using True w(1) by (subst compact_blocks.simps) simp
    have "N - r < N" "N - r \<le> 8 * length (drop (r div 8) data)" using True r8 less.prems(2) by simp_all
    from less.IH [OF this(1) w(3) this(2)] obtain j where
      j: "compact_blocks r (lane_bytes (standard_state r ?m)) (drop (r div 8) data) (N - r)
        = Some (Ret (lane_bytes (standard_state r (?m @ data_bits (take j (drop (r div 8) data)))), drop j (drop (r div 8) data), N - r - 8 * j))"
      "8 * j \<le> N - r" "N - r - 8 * j < r" "leftover r (?m @ data_bits (take j (drop (r div 8) data))) = []"
      by (elim exE conjE)
    have "data_bits (take (r div 8) data) @ data_bits (take j (drop (r div 8) data)) = data_bits (take (r div 8 + j) data)"
      by (simp add: take_add)
    moreover have all: "8 * (r div 8 + j) = r + 8 * j" using r8(1) distrib_left [of 8 "r div 8" j] by linarith
    moreover have "N - r - 8 * j = N - 8 * (r div 8 + j)" "8 * (r div 8 + j) \<le> N" unfolding all using j(2) True by simp_all
    ultimately show ?thesis
      unfolding step using j by (intro exI [of _ "r div 8 + j"]) (simp add: add.commute)
  qed
qed

lemma queue_bytes_result:
  "compact_absorbing r m s \<Longrightarrow> hash_queue s mod 8 = 0 \<Longrightarrow> N \<le> 8 * length data \<Longrightarrow> length (leftover r m) + N < r \<or> N < 8 \<Longrightarrow>
    \<exists>s' j. queue_bytes s data N = Ret (s', drop j data, N - 8 * j) \<and> 8 * j \<le> N \<and> N - 8 * j < 8
    \<and> compact_absorbing r (m @ data_bits (take j data)) s' \<and> hash_queue s' mod 8 = 0"
proof (induction N arbitrary: m s data rule: less_induct)
  case (less N)
  show ?case
  proof (cases "8 \<le> N")
    case False
    then show ?thesis using less.prems
      by (intro exI [of _ s] exI [of _ 0]) (simp add: queue_bytes.simps [of s data N])
  next
    case True
    then obtain x xs where data: "data = x # xs" using less.prems(3) by (cases data) auto
    have room: "length (leftover r m) + N < r" using less.prems(4) True by simp
    then have "hash_queue s + 8 \<noteq> int r" using True compact_facts(2) [OF less.prems(1)] by simp
    then obtain b where b: "xor_byte (hash_state s) (nat (hash_queue s div 8)) x = Ret b"
      "compact_absorbing r (m @ byte_bits x) (s\<lparr>hash_state := b, hash_queue := hash_queue s + 8\<rparr>)"
      using queue_one_byte [OF less.prems(1,2), of x] by metis
    let ?s = "s\<lparr>hash_state := b, hash_queue := hash_queue s + 8\<rparr>"
    have step: "queue_bytes s data N = queue_bytes ?s xs (N - 8)"
      using True b(1) data by (subst queue_bytes.simps) (simp add: mem_simps)
    have "length (leftover r (m @ byte_bits x)) = length (leftover r m) + 8"
      using leftover_short(2) [of r m "byte_bits x"] room True by simp
    then have "N - 8 < N" "hash_queue ?s mod 8 = 0" "N - 8 \<le> 8 * length xs" "length (leftover r (m @ byte_bits x)) + (N - 8) < r \<or> N - 8 < 8"
      using True less.prems(2,3) data room by simp_all
    from less.IH [OF this(1) b(2) this(2-4)] obtain s' j where
      "queue_bytes ?s xs (N - 8) = Ret (s', drop j xs, N - 8 - 8 * j)" "8 * j \<le> N - 8" "N - 8 - 8 * j < 8"
      "compact_absorbing r ((m @ byte_bits x) @ data_bits (take j xs)) s'" "hash_queue s' mod 8 = 0" by (elim exE conjE)
    then show ?thesis unfolding step using True data by (intro exI [of _ s'] exI [of _ "Suc j"]) simp
  qed
qed

text \<open>A call of \<^verbatim>\<open>Update\<close>.\<close>

lemma compact_Update_result:
  assumes inv: "compact_absorbing r m s" and b8: "hash_queue s mod 8 = 0" and N: "N \<le> 8 * length data"
  obtains s' where "compact_Update r s data N = Some (Ret (SUCCESS, s'))" and "compact_absorbing r (m @ nist_message data N) s'"
    and "hash_queue s' mod 8 = int (N mod 8)"
proof -
  note r = compact_facts(1) [OF inv]
  have r8: "8 \<le> r" "r = 8 * (r div 8)" using valid_rate_facts [OF r] mult_div_mod_eq [of 8 r] by simp_all
  from fill_queue_result [OF inv b8 N] obtain s1 j1 where
    s1: "fill_queue r s data N = Ret (s1, drop j1 data, N - 8 * j1)" "8 * j1 \<le> N"
    "compact_absorbing r (m @ data_bits (take j1 data)) s1" "hash_queue s1 mod 8 = 0"
    "hash_queue s1 = 0 \<or> N - 8 * j1 < 8" by (elim exE conjE)
  define m1 where "m1 = m @ data_bits (take j1 data)"
  note C1 = compact_facts [OF s1(3), folded m1_def]
  have n1: "N - 8 * j1 \<le> 8 * length (drop j1 data)" using N by simp
  have "\<exists>b j2. compact_blocks r (hash_state s1) (drop j1 data) (N - 8 * j1) = Some (Ret (b, drop j2 (drop j1 data), N - 8 * j1 - 8 * j2))
    \<and> 8 * j2 \<le> N - 8 * j1 \<and> compact_absorbing r (m1 @ data_bits (take j2 (drop j1 data))) (s1\<lparr>hash_state := b\<rparr>)
    \<and> (length (leftover r (m1 @ data_bits (take j2 (drop j1 data)))) + (N - 8 * j1 - 8 * j2) < r \<or> N - 8 * j1 - 8 * j2 < 8)"
  proof (cases "N - 8 * j1 < 8")
    case True
    then show ?thesis using r8(1) s1(3)
      by (intro exI [of _ "hash_state s1"] exI [of _ 0], subst compact_blocks.simps) (simp add: m1_def)
  next
    case False
    then have q: "hash_queue s1 = 0" using s1(5) by simp
    then have empty: "leftover r m1 = []" using C1(2) by simp
    have b: "hash_state s1 = lane_bytes (standard_state r m1)"
      using mixed_unique [OF C1(3) [unfolded empty]] mixed_nothing [of "standard_state r m1"] by simp
    from compact_blocks_result [OF r empty n1] obtain j2 where
      "compact_blocks r (lane_bytes (standard_state r m1)) (drop j1 data) (N - 8 * j1)
        = Some (Ret (lane_bytes (standard_state r (m1 @ data_bits (take j2 (drop j1 data)))), drop j2 (drop j1 data), N - 8 * j1 - 8 * j2))"
      "8 * j2 \<le> N - 8 * j1" "N - 8 * j1 - 8 * j2 < r" "leftover r (m1 @ data_bits (take j2 (drop j1 data))) = []" by (elim exE conjE)
    then show ?thesis using q r
      by (intro exI [of _ "lane_bytes (standard_state r (m1 @ data_bits (take j2 (drop j1 data))))"] exI [of _ j2])
        (simp add: b compact_absorbing_def mixed_nothing)
  qed
  then obtain b j2 where s2: "compact_blocks r (hash_state s1) (drop j1 data) (N - 8 * j1) = Some (Ret (b, drop j2 (drop j1 data), N - 8 * j1 - 8 * j2))"
    "8 * j2 \<le> N - 8 * j1" "compact_absorbing r (m1 @ data_bits (take j2 (drop j1 data))) (s1\<lparr>hash_state := b\<rparr>)"
    "length (leftover r (m1 @ data_bits (take j2 (drop j1 data)))) + (N - 8 * j1 - 8 * j2) < r \<or> N - 8 * j1 - 8 * j2 < 8"
    by (elim exE conjE)
  have q2: "hash_queue (s1\<lparr>hash_state := b\<rparr>) mod 8 = 0" using s1(4) by simp
  have n2: "N - 8 * j1 - 8 * j2 \<le> 8 * length (drop j2 (drop j1 data))" using n1 by simp
  from queue_bytes_result [OF s2(3) q2 n2 s2(4)] obtain s3 j3 where
    s3: "queue_bytes (s1\<lparr>hash_state := b\<rparr>) (drop j2 (drop j1 data)) (N - 8 * j1 - 8 * j2)
      = Ret (s3, drop j3 (drop j2 (drop j1 data)), N - 8 * j1 - 8 * j2 - 8 * j3)"
    "8 * j3 \<le> N - 8 * j1 - 8 * j2" "N - 8 * j1 - 8 * j2 - 8 * j3 < 8"
    "compact_absorbing r ((m1 @ data_bits (take j2 (drop j1 data))) @ data_bits (take j3 (drop j2 (drop j1 data)))) s3"
    "hash_queue s3 mod 8 = 0" by (elim exE conjE)
  define j where "j = j1 + j2 + j3"
  have j8: "8 * j \<le> N" "N - 8 * j1 - 8 * j2 - 8 * j3 = N - 8 * j" using s1(2) s2(2) s3(2) by (simp_all add: j_def)
  then have j: "j = N div 8" "N - 8 * j = N mod 8" using s3(3) by (auto simp: div_nat_eqI minus_mult_div_eq_mod [symmetric])
  have "data_bits (take j1 data) @ data_bits (take j2 (drop j1 data)) @ data_bits (take j3 (drop j2 (drop j1 data))) = data_bits (take j data)"
    by (simp add: j_def take_add add.commute [of j2 j1])
  then have inv3: "compact_absorbing r (m @ data_bits (take j data)) s3" using s3(4) by (simp add: m1_def)
  have run: "compact_Update r s data N = (if N mod 8 \<noteq> 0 then
      rbind (Some (peek (drop j data) 0)) (\<lambda>x.
      rbind (Some (xor_byte (hash_state s3) (nat (hash_queue s3 div 8)) (drop_bit (8 - N mod 8) x))) (\<lambda>b.
      Some (Ret (SUCCESS, s3\<lparr>hash_state := b, hash_queue := hash_queue s3 + int (N mod 8)\<rparr>))))
    else Some (Ret (SUCCESS, s3)))"
    using compact_facts(7) [OF inv] b8 s1(1) s2(1) s3(1) j(2) j8(2)
    by (simp add: compact_Update_def j_def add.commute add.left_commute)
  have whole: "data_bits (take j data) = take (N - N mod 8) (data_bits data)"
    using take_data_bits [of j data] j(1) by (simp add: minus_mod_eq_mult_div)
  show ?thesis
  proof (cases "N mod 8 = 0")
    case True
    then show ?thesis using run inv3 s3(5) whole by (intro that [of s3]) (simp_all add: nist_message_def)
  next
    case False
    note C = compact_facts [OF inv3] and R = valid_rate_facts [OF r]
    let ?m = "m @ data_bits (take j data)" and ?p = "N mod 8"
    define y where "y = drop_bit (8 - ?p) (data ! j)"
    have in_data: "j < length data" using False N j by linarith
    have l8: "length (leftover r ?m) = 8 * (length (leftover r ?m) div 8)"
      using s3(5) C(8) mult_div_mod_eq [of 8 "length (leftover r ?m)"] by simp
    then have lower: "length (leftover r ?m) div 8 < r div 8" using C(4) r8(2) by linarith
    then have room: "length (leftover r ?m) + ?p < r" "length (leftover r ?m) div 8 < 200"
      using l8 r8(2) mod_less_divisor [of 8 N] R(5) by linarith+
    have "\<not> bit y i" if "?p \<le> i" for i using that bit_imp_le_length [of "data ! j" "8 - ?p + i"] mod_less_divisor [of 8 N]
      by (auto simp: y_def bit_drop_bit_eq)
    then obtain b' where b': "xor_byte (hash_state s3) (length (leftover r ?m) div 8) y = Ret b'"
      "mixed (standard_state r ?m) (leftover r ?m @ take ?p (byte_bits y)) b'"
      using mixed_more [OF C(3) l8 room(2), of ?p y] by auto
    have "length (take ?p (byte_bits y)) = ?p" by simp
    with room(1) have "length (leftover r ?m) + length (take ?p (byte_bits y)) < r" by simp
    note left = leftover_short [OF this]
    have msg: "?m @ take ?p (byte_bits y) = m @ nist_message data N"
      using False whole j(1) by (simp add: nist_message_def y_def)
    let ?s = "s3\<lparr>hash_state := b', hash_queue := hash_queue s3 + int ?p\<rparr>"
    have "compact_Update r s data N = Some (Ret (SUCCESS, ?s))"
      using run False in_data b'(1) C(5) by (simp add: mem_simps y_def)
    moreover have "compact_absorbing r (m @ nist_message data N) ?s"
      using left b'(2) C(2) r unfolding msg [symmetric] by (simp add: compact_absorbing_def)
    moreover have "hash_queue ?s mod 8 = int ?p" using s3(5) by (simp add: mod_add_left_eq [symmetric] zmod_int)
    ultimately show ?thesis by (rule that)
  qed
qed

section \<open>The output\<close>

lemma permute_lanes: "length state = 25 \<Longrightarrow> permute_bytes (lane_bytes state) [] 0 = Ret (lane_bytes (keccak_f state))"
  using keccak_programs(2) map_nth [of state] by (simp add: permute_bytes_def words_of_lanes is_keccak_f_def add_input_def)

lemma compact_output_result:
  assumes r: "valid_rate r" and st: "length state = 25"
  shows "j * (r div 8) + n \<le> length hashval \<Longrightarrow>
    \<exists>b'. compact_output (r div 8) (lane_bytes ((keccak_f ^^ j) state)) hashval (j * (r div 8)) (int n)
      = Some (Ret (b', overlay hashval (j * (r div 8)) (map (out_byte r state) [j * (r div 8)..<j * (r div 8) + n])))"
proof (induction n arbitrary: j hashval rule: less_induct)
  case (less n)
  let ?b = "r div 8" and ?S = "(keccak_f ^^ j) state"
  have b: "0 < ?b" using valid_rate_facts(8) [OF r] by (simp add: div_greater_zero_iff)
  have S: "length ?S = 25" by (rule length_keccak_f_power [OF st])
  have bytes: "take i (lane_bytes ?S) = map (out_byte r state) [j * ?b..<j * ?b + i]" if "i \<le> ?b" for i
  proof (rule nth_equalityI)
    show "length (take i (lane_bytes ?S)) = length (map (out_byte r state) [j * ?b..<j * ?b + i])"
      using that valid_rate_facts(5) [OF r] S by simp
    fix k
    assume "k < length (take i (lane_bytes ?S))"
    then have k: "k < i" by simp
    have "take i (lane_bytes ?S) ! k = out_byte r ?S k" using first_bytes [OF r S that] k by simp
    then show "take i (lane_bytes ?S) ! k = map (out_byte r state) [j * ?b..<j * ?b + i] ! k"
      using k that b by (simp add: out_byte_def)
  qed
  show ?case
  proof (cases "n = 0")
    case True
    then show ?thesis by (subst compact_output.simps) simp
  next
    case False
    define i where "i = (if int n < int ?b then n else ?b)"
    have i: "i \<le> n" "i \<le> ?b" "i < n \<Longrightarrow> i = ?b" "0 < i" using False b by (auto simp: i_def)
    define h where "h = overlay hashval (j * ?b) (map (out_byte r state) [j * ?b..<j * ?b + i])"
    have written: "write_block hashval (j * ?b) (take i (lane_bytes ?S)) = Ret h"
      using less.prems i(1) by (simp add: bytes [OF i(2)] h_def write_block_in)
    have nat: "(if int n < int ?b then nat (int n) else ?b) = i" by (simp add: i_def)
    have next_b: "(if int i \<noteq> int n then permute_bytes (lane_bytes ?S) [] 0 else Ret (lane_bytes ?S))
        = Ret (if i \<noteq> n then lane_bytes ((keccak_f ^^ Suc j) state) else lane_bytes ?S)"
      using permute_lanes [OF S] by simp
    have step: "compact_output ?b (lane_bytes ?S) hashval (j * ?b) (int n)
        = compact_output ?b (if i \<noteq> n then lane_bytes ((keccak_f ^^ Suc j) state) else lane_bytes ?S) h (j * ?b + i) (int (n - i))"
      using False i(1) by (subst compact_output.simps) (simp only: nat Let_def written next_b rbind_simps of_nat_diff, simp)
    show ?thesis
    proof (cases "i = n")
      case True
      then show ?thesis unfolding step by (subst compact_output.simps) (simp add: h_def)
    next
      case more: False
      then have ib: "i = ?b" "j * ?b + i = Suc j * ?b" using i by auto
      have "n - i < n" "Suc j * ?b + (n - i) \<le> length h" using i less.prems ib(2) by (auto simp: h_def)
      from less.IH [OF this] obtain b' where
        "compact_output ?b (lane_bytes ((keccak_f ^^ Suc j) state)) h (Suc j * ?b) (int (n - i))
          = Some (Ret (b', overlay h (Suc j * ?b) (map (out_byte r state) [Suc j * ?b..<Suc j * ?b + (n - i)])))" by blast
      moreover have "overlay h (Suc j * ?b) (map (out_byte r state) [Suc j * ?b..<Suc j * ?b + (n - i)])
          = overlay hashval (j * ?b) (map (out_byte r state) [j * ?b..<j * ?b + n])"
        using less.prems i(1) unfolding h_def ib(2) [symmetric]
        by (intro nth_equalityI) (auto simp: nth_overlay)
      ultimately show ?thesis unfolding step using more by (simp add: ib(2) del: funpow.simps)
    qed
  qed
qed

lemma compact_Final_result:
  assumes inv: "compact_absorbing r m s" and n: "n \<le> length hashval"
  shows "\<exists>s'. compact_Final r s hashval (int n)
      = Some (Ret (SUCCESS, s', overlay hashval 0 (map (out_byte r (standard_state r (pad r m))) [0..<n])))
    \<and> hash_queue s' = - 1"
proof -
  note C = compact_facts [OF inv] and R = valid_rate_facts [OF compact_facts(1) [OF inv]]
  let ?x = "leftover r m" and ?P = "standard_state r (pad r m)"
  have r8: "r = 8 * (r div 8)" "0 < r div 8" using R(3,8) mult_div_mod_eq [of 8 r] by (simp_all add: div_greater_zero_iff)
  have last: "(r - 1) div 8 = r div 8 - 1" "push_bit ((r - 1) mod 8) 1 = (0x80 :: byte)"
  proof -
    have "r - 1 = 8 * (r div 8 - 1) + 7" using r8 by linarith
    then show "(r - 1) div 8 = r div 8 - 1" "push_bit ((r - 1) mod 8) 1 = (0x80 :: byte)" by simp_all
  qed
  have small: "length ?x < 1600" "r - 1 < 1600" using C(4) R(2) by simp_all
  have "\<exists>b b'. (if hash_queue s + 1 = int (r div 8 * 8)
           then obind (xor_byte (hash_state s) (r div 8 - 1) 0x80) (\<lambda>b. permute_bytes b [] 0)
           else xor_byte (hash_state s) (nat (hash_queue s div 8)) (push_bit (nat (hash_queue s mod 8)) 1)) = Ret b
    \<and> xor_byte b (r div 8 - 1) 0x80 = Ret b' \<and> permute_bytes b' [] 0 = Ret (lane_bytes ?P)"
  proof (cases "length ?x + 1 = r")
    case True
    then have len: "length ?x = r - 1" by simp
    from mixed_bit [OF C(3) _ small(2)] obtain b where b: "xor_byte (hash_state s) (r div 8 - 1) 0x80 = Ret b"
      "mixed (standard_state r m) (?x @ [True]) b" unfolding last using len by auto
    have full: "standard_state r (m @ [True]) = standard_block (standard_state r m) (?x @ [True])" "leftover r (m @ [True]) = []"
      using leftover_full [of r m "[True]"] True R(1) by simp_all
    let ?S = "standard_state r (m @ [True])"
    have p: "permute_bytes b [] 0 = Ret (lane_bytes ?S)" using permute_mixed [OF b(2)] full(1) by simp
    from mixed_bit [OF mixed_nothing [of ?S] _ small(2)] obtain b' where
      b': "xor_byte (lane_bytes ?S) (r div 8 - 1) 0x80 = Ret b'" "mixed ?S (replicate (r - 1) False @ [True]) b'"
      unfolding last by auto
    have "pad r m = (m @ [True]) @ (replicate (r - 1) False @ [True])"
      using opt64.pad_is(2) [OF C(1), of m] True by simp
    moreover have "length (leftover r (m @ [True])) + length (replicate (r - 1) False @ [True]) = r"
      using full(2) R(1) by simp
    note leftover_full(1) [OF this R(1)]
    ultimately have "permute_bytes b' [] 0 = Ret (lane_bytes ?P)" using permute_mixed [OF b'(2)] full(2) by simp
    moreover have "hash_queue s + 1 = int (r div 8 * 8)" using C(2) len r8 R(1) by (simp add: mult.commute)
    ultimately show ?thesis using b(1) p b'(1) by simp
  next
    case False
    then have two: "length ?x + 2 \<le> r" using C(4) by simp
    from mixed_bit [OF C(3) le_refl small(1)] obtain b where b: "xor_byte (hash_state s) (length ?x div 8) (push_bit (length ?x mod 8) 1) = Ret b"
      "mixed (standard_state r m) (?x @ [True]) b" by auto
    have "length (?x @ [True]) \<le> r - 1" using two by simp
    from mixed_bit [OF b(2) this small(2)] obtain b' where b': "xor_byte b (r div 8 - 1) 0x80 = Ret b'"
      "mixed (standard_state r m) (?x @ True # replicate (r - (length ?x + 2)) False @ [True]) b'"
      unfolding last by auto
    have "pad r m = m @ (True # replicate (r - (length ?x + 2)) False @ [True])"
      using opt64.pad_is(1) [OF C(1), of m] two by simp
    moreover have "length ?x + length (True # replicate (r - (length ?x + 2)) False @ [True]) = r" using two by simp
    note leftover_full(1) [OF this R(1)]
    ultimately have "permute_bytes b' [] 0 = Ret (lane_bytes ?P)" using permute_mixed [OF b'(2)] by simp
    moreover have "hash_queue s + 1 \<noteq> int (r div 8 * 8)" using C(2) False r8 by (simp add: mult.commute)
    moreover have "nat (hash_queue s mod 8) = length ?x mod 8" using C(8) by simp
    ultimately show ?thesis using b(1) b'(1) C(5) by simp
  qed
  then obtain b b' where run: "(if hash_queue s + 1 = int (r div 8 * 8)
           then obind (xor_byte (hash_state s) (r div 8 - 1) 0x80) (\<lambda>b. permute_bytes b [] 0)
           else xor_byte (hash_state s) (nat (hash_queue s div 8)) (push_bit (nat (hash_queue s mod 8)) 1)) = Ret b"
    "xor_byte b (r div 8 - 1) 0x80 = Ret b'" "permute_bytes b' [] 0 = Ret (lane_bytes ?P)" by (elim exE conjE)
  from compact_output_result [OF C(1) length_standard_state, of 0 n hashval] n obtain b'' where
    "compact_output (r div 8) (lane_bytes ?P) hashval 0 (int n) = Some (Ret (b'', overlay hashval 0 (map (out_byte r ?P) [0..<n])))"
    by auto
  then show ?thesis using C(7) unfolding compact_Final_def run(1) by (simp add: run(2,3) not_less del: One_nat_def)
qed

section \<open>Properties\<close>

text \<open>
  C7: \<^verbatim>\<open>crypto_hash\<close> of the simple, the compact and the in-place program, built for any rate and any length of output up
  to the rate, writes the first bytes of the state the standard sponge reaches from the padded message.
\<close>
theorem crypto_hash_is_sponge:
  assumes "hash \<in> {simple_crypto_hash, compact_crypto_hash, inplace_crypto_hash}" and "valid_rate r" and "n \<le> r div 8"
    and "n \<le> length out" and "inlen \<le> length input" and "r div 8 \<le> length temp"
  shows "hash (r div 8) n temp out input inlen = Some (Ret (0, overlay out 0
    (map (out_byte r (standard_state r (pad r (data_bits (take inlen input))))) [0..<n])))"
proof -
  obtain F where "is_keccak_f F" "hash = crypto_hash F"
    using assms(1) keccak_programs by (auto simp: simple_crypto_hash_def compact_crypto_hash_def inplace_crypto_hash_def)
  with assms(2-6) show ?thesis by (auto intro: crypto_hash_result)
qed

theorem crypto_hash_is_sponge_witness:
  "compact_crypto_hash (1088 div 8) 32 (replicate 136 0) (replicate 32 0) [1, 2, 3] 3 = Some (Ret (0, overlay (replicate 32 0) 0
    (map (out_byte 1088 (standard_state 1088 (pad 1088 (data_bits (take 3 [1, 2, 3]))))) [0..<32])))"
  by (rule crypto_hash_is_sponge) (simp_all add: valid_rate_def)

text \<open>
  C6: The compact program and the optimised one agree: \<^verbatim>\<open>Init\<close>, \<^verbatim>\<open>Update\<close> and \<^verbatim>\<open>Final\<close> of \<^verbatim>\<open>Keccak-compact.c\<close> built
  for the rate of a length write the bytes that \<^verbatim>\<open>Hash\<close> of \<^verbatim>\<open>KeccakNISTInterface.c\<close> over
  \<^verbatim>\<open>KeccakF-1600-opt64.c\<close> writes, for messages of any number of bits.
\<close>
theorem compact_agrees_with_nist:
  assumes "hashbitlen \<in> {224, 256, 384, 512}" and "databitlen \<le> 8 * length data" and "hashbitlen \<le> 8 * length hashval"
  shows "\<exists>s' s'' digest. compact_Update (1600 - 2 * hashbitlen) (snd (compact_Init s)) data databitlen = Some (Ret (SUCCESS, s'))
    \<and> compact_Final (1600 - 2 * hashbitlen) s' hashval (int (hashbitlen div 8)) = Some (Ret (SUCCESS, s'', digest))
    \<and> nist_Hash opt64_impl state hashbitlen data databitlen hashval = Some (Ret (SUCCESS, digest))"
proof -
  let ?r = "1600 - 2 * hashbitlen"
  have r: "valid_rate ?r" using assms(1) by (auto simp: valid_rate_def)
  have start: "compact_absorbing ?r [] (snd (compact_Init s))" "hash_queue (snd (compact_Init s)) mod 8 = 0"
    using compact_start [OF r] by (simp_all add: compact_Init_def)
  obtain s' where s': "compact_Update ?r (snd (compact_Init s)) data databitlen = Some (Ret (SUCCESS, s'))"
    "compact_absorbing ?r ([] @ nist_message data databitlen) s'"
    by (rule compact_Update_result [OF start assms(2)])
  have "hashbitlen div 8 \<le> length hashval" using assms(3) by simp
  from compact_Final_result [OF s'(2) this] s'(1) opt64.nist_Hash_result [OF assms] show ?thesis by auto
qed

theorem compact_agrees_with_nist_witness:
  "\<exists>s' s'' digest. compact_Update (1600 - 2 * 256) (snd (compact_Init \<lparr>hash_state = [], hash_queue = 0\<rparr>)) [171, 205] 13 = Some (Ret (SUCCESS, s'))
    \<and> compact_Final (1600 - 2 * 256) s' (replicate 32 0) (int (256 div 8)) = Some (Ret (SUCCESS, s'', digest))
    \<and> nist_Hash opt64_impl (fresh_sponge 576) 256 [171, 205] 13 (replicate 32 0) = Some (Ret (SUCCESS, digest))"
  by (rule compact_agrees_with_nist) simp_all

end
