(* ===== verification/Buffer_Machine.thy ===== *)
theory Buffer_Machine
  imports String_Buffer
begin

text \<open>
  The string buffer as a state machine: its three operations of \<^verbatim>\<open>src/core/string_buffer.c\<close> in any
  order, so that strings may be read between a reservation and the enqueue it was made for. A run is
  careful when it keeps to the conditions under which the buffer is a queue; every state a careful run
  reaches keeps the invariant, and every string gets out of it in the end. One of the conditions
  excludes reading the last string while a reservation is pending, which delivers it twice.
\<close>

section \<open>Steps and runs\<close>

text \<open>An operation with its arguments, and what it answers.\<close>

datatype sb_event =
    Reserve nat OlyStatus
  | Enqueue "ochar list" OlyStatus
  | Dequeue nat OlyStatus "ochar list option"

inductive sb_step :: "OlyStringBuffer \<Rightarrow> sb_event \<Rightarrow> OlyStringBuffer \<Rightarrow> bool" where
  step_reserve: "reserve_string_buffer b len = Ret (status, b') \<Longrightarrow> sb_step b (Reserve len status) b'"
| step_enqueue: "enqueue_to_string_buffer b (s @ 0 # rest) = Ret r \<Longrightarrow> 0 \<notin> set s
    \<Longrightarrow> sb_step b (Enqueue s (enq_status r)) (enq_buffer r)"
| step_dequeue: "dequeue_from_string_buffer b dest (length dest) = Ret r
    \<Longrightarrow> sb_step b (Dequeue (length dest) (deq_status r)
          (map_option (\<lambda>n. take (n - 1) (deq_dest r)) (deq_length r))) (deq_buffer r)"

inductive_cases reserve_stepE: "sb_step b (Reserve len status) b'"
inductive_cases enqueue_stepE: "sb_step b (Enqueue s status) b'"
inductive_cases dequeue_stepE: "sb_step b (Dequeue n status item) b'"

definition straight :: "OlyStringBuffer \<Rightarrow> bool" where
  "straight b \<longleftrightarrow> sb_state b = WRITE_A_READ_A \<or> sb_state b = WRITE_B_READ_B"

text \<open>
  The conditions of a careful client: the length of a reservation does not wrap around; a string
  leaves two cells of its reservation free; and the last string is not read from the part that a
  pending reservation lies in.
\<close>

fun careful :: "OlyStringBuffer \<Rightarrow> sb_event \<Rightarrow> bool" where
  "careful b (Reserve len status) \<longleftrightarrow> len + 1 < size_mod"
| "careful b (Enqueue s status) \<longleftrightarrow>
     (case (reserve_start b, reserve_end b) of
        (Some start, Some stop) \<Rightarrow> s = [] \<or> start + length s + 3 \<le> stop
      | _ \<Rightarrow> True)"
| "careful b (Dequeue n status item) \<longleftrightarrow>
     0 < n \<and> (reserve_start b \<noteq> None \<and> straight b \<longrightarrow> length (contents b) \<noteq> 1)"

inductive sb_run :: "OlyStringBuffer \<Rightarrow> sb_event list \<Rightarrow> OlyStringBuffer \<Rightarrow> bool" where
  run_start: "sb_run b [] b"
| run_step: "sb_run b tr b' \<Longrightarrow> careful b' e \<Longrightarrow> sb_step b' e b'' \<Longrightarrow> sb_run b (tr @ [e]) b''"

fun put_strings :: "sb_event list \<Rightarrow> ochar list list" where
  "put_strings [] = []"
| "put_strings (Enqueue s status # tr) = (if status = OLY_OKAY \<and> s \<noteq> [] then s # put_strings tr else put_strings tr)"
| "put_strings (e # tr) = put_strings tr"

fun got_strings :: "sb_event list \<Rightarrow> ochar list list" where
  "got_strings [] = []"
| "got_strings (Dequeue n status (Some s) # tr) = s # got_strings tr"
| "got_strings (e # tr) = got_strings tr"

lemma put_strings_append [simp]: "put_strings (xs @ ys) = put_strings xs @ put_strings ys"
  by (induction xs rule: put_strings.induct) simp_all

lemma got_strings_append [simp]: "got_strings (xs @ ys) = got_strings xs @ got_strings ys"
  by (induction xs rule: got_strings.induct) simp_all

section \<open>The invariant\<close>

definition sb_live :: "OlyStringBuffer \<Rightarrow> bool" where
  "sb_live b \<longleftrightarrow> sb_inv b \<and> (unreserved b \<or> (\<exists>len. reserved b len \<and> len + 1 < size_mod))"

lemma sb_liveE:
  assumes "sb_live b"
  obtains "sb_inv b" "unreserved b" | len where "sb_inv b" "reserved b len" "len + 1 < size_mod"
  using assms by (auto simp: sb_live_def)

lemma reserve_live:
  assumes "sb_live b" and "len + 1 < size_mod" and "reserve_string_buffer b len = Ret (status, b')"
  shows "sb_live b' \<and> contents b' = contents b"
  using assms(1)
proof (cases rule: sb_liveE)
  case 1
  show ?thesis
  proof (cases "len < sb_room b")
    case True
    obtain c where "reserve_string_buffer b len = Ret (OLY_OKAY, c)" "sb_inv c" "reserved c len" "contents c = contents b"
      using reserve_granted [OF 1 assms(2) True] by metis
    with assms show ?thesis by (auto simp: sb_live_def)
  next
    case False
    then obtain c where "reserve_string_buffer b len = Ret (OLY_ERR_BUFFER_OVERFLOW, c)" "sb_inv c" "unreserved c" "contents c = contents b"
      using reserve_refused [OF 1 assms(2)] by (metis not_less)
    with assms(3) show ?thesis by (auto simp: sb_live_def)
  qed
next
  case (2 l)
  then have "reserve_string_buffer b len = Ret (OLY_WARN_BUFFER_WRITE_LOCK, b)"
    by (simp add: reserve_unfold reserved_def)
  with assms show ?thesis by simp
qed

lemma enqueue_unreserved:
  "unreserved b \<Longrightarrow> enqueue_to_string_buffer b mem =
    Ret \<lparr>enq_status = OLY_ERR_NO_RESERVATION, enq_buffer = b, enq_result = None, enq_length = None\<rparr>"
  by (simp add: enqueue_to_string_buffer_def unreserved_def)

lemma enqueue_cancels:
  assumes "reserved b len"
  shows "enqueue_to_string_buffer b (0 # rest) =
    Ret \<lparr>enq_status = OLY_OKAY, enq_buffer = b\<lparr>reserve_start := None, reserve_end := None\<rparr>,
         enq_result = None, enq_length = Some 0\<rparr>"
  using assms by (simp add: enqueue_to_string_buffer_def reserved_def mem_simps release_reserve_def)

lemma enqueue_live:
  assumes "sb_live b" and "0 \<notin> set s" and "careful b (Enqueue s status)"
    and "enqueue_to_string_buffer b (s @ 0 # rest) = Ret r"
  shows "sb_live (enq_buffer r) \<and> contents (enq_buffer r) = contents b @ put_strings [Enqueue s (enq_status r)]"
  using assms(1)
proof (cases rule: sb_liveE)
  case 1
  with assms(1,4) show ?thesis by (auto simp: enqueue_unreserved)
next
  case (2 len)
  show ?thesis
  proof (cases "s = []")
    case True
    with assms(4) enqueue_cancels [OF 2(2)] 2(1) show ?thesis
      by (auto simp: sb_live_def unreserved_def)
  next
    case False
    then have s: "storable s" using assms(2) by (simp add: storable_def)
    have fits: "length s + 2 \<le> len" using assms(3) 2(2) False by (simp add: reserved_def)
    have "r = \<lparr>enq_status = OLY_OKAY, enq_buffer = append_string b s,
        enq_result = Some (write_ptr b), enq_length = Some (length s + 1)\<rparr>"
      using enqueue_stores [OF 2(1,2) s _ 2(3), of rest] fits assms(4) by simp
    with append_string_inv [OF 2(1) s write_room [OF 2(1,2) fits]] False show ?thesis
      by (simp add: sb_live_def)
  qed
qed

lemma drop_string_reserved:
  assumes inv: "sb_inv b" and c: "contents b = s # ss" and res: "reserved b len"
    and last: "straight b \<longrightarrow> ss \<noteq> []"
  shows "reserved (drop_string b (length s)) len"
proof -
  let ?b = "drop_string b (length s)"
  have shape: "sb_shape b" "sb_parts b" using inv by (auto simp: sb_inv_def)
  note t = sb_inv_tiles [OF inv]
  have le: "read_a b \<le> write_a b" "read_b b \<le> write_b b" using t by (auto dest: tiles_le)
  show ?thesis
  proof (cases "reads_a b")
    case True
    obtain as where as: "contents_a b = s # as" "ss = as @ contents_b b"
      and ta: "tiles (block b) (read_a b + length s + 2) (write_a b) as"
      using front_a [OF inv c True] by metis
    have "contents_b b = []" if "straight b" using that True shape
      by (auto simp: straight_def reads_a_def sb_parts_def contents_b_def)
    then have "straight b \<Longrightarrow> read_a b + length s + 2 < write_a b"
      using ta last as(2) tiles_le [OF ta] tiles_empty_iff [OF ta] by (auto simp: le_less)
    with True res shape le tiles_le [OF ta] show ?thesis
      by (cases "sb_state b")
        (auto simp: straight_def reads_a_def drop_string_def Let_def read_ptr_def get_higher_write_def
          sb_parts_def sb_shape_def finish_part_def reserved_def write_ptr_def writes_a_def write_limit_def)
  next
    case False
    obtain bs where bs: "contents_b b = s # bs" "ss = bs @ contents_a b"
      and tb: "tiles (block b) (read_b b + length s + 2) (write_b b) bs"
      using front_b [OF inv c False] by metis
    have "contents_a b = []" if "straight b" using that False shape
      by (auto simp: straight_def reads_a_def sb_parts_def contents_a_def)
    then have "straight b \<Longrightarrow> read_b b + length s + 2 < write_b b"
      using tb last bs(2) tiles_le [OF tb] tiles_empty_iff [OF tb] by (auto simp: le_less)
    with False res shape le tiles_le [OF tb] show ?thesis
      by (cases "sb_state b")
        (auto simp: straight_def reads_a_def drop_string_def Let_def read_ptr_def get_higher_write_def
          sb_parts_def sb_shape_def finish_part_def reserved_def write_ptr_def writes_a_def write_limit_def)
  qed
qed

lemma empty_restart_reserved:
  assumes "sb_inv b" and "contents b = []" and "reserved b len"
  shows "reserved (b\<lparr>sb_state := WRITE_A_READ_A\<rparr>) len"
proof -
  have w: "write_a b = 0" "write_b b = 0"
    using empty_iff_contents [OF assms(1)] assms(1,2)
    by (auto simp: is_buffer_empty_def sb_inv_def sb_shape_def split: if_splits)
  with assms(1) have "sb_state b = WRITE_A_READ_A \<or> sb_state b = WRITE_B_READ_B"
    by (cases "sb_state b") (auto simp: sb_inv_def sb_parts_def)
  with w assms(3) show ?thesis
    by (auto simp: reserved_def write_ptr_def writes_a_def write_limit_def)
qed

lemma dequeue_live:
  assumes live: "sb_live b" and careful: "careful b (Dequeue (length dest) status item)"
    and run: "dequeue_from_string_buffer b dest (length dest) = Ret r"
  shows "sb_live (deq_buffer r)
    \<and> contents b = (case deq_length r of None \<Rightarrow> [] | Some n \<Rightarrow> [take (n - 1) (deq_dest r)]) @ contents (deq_buffer r)"
proof -
  have inv: "sb_inv b" using live by (simp add: sb_live_def)
  have dest: "dest \<noteq> []" "0 < length dest" using careful by auto
  show ?thesis
  proof (cases "contents b")
    case Nil
    have "sb_live (b\<lparr>sb_state := WRITE_A_READ_A\<rparr>)"
      using live empty_restart_inv [OF inv Nil] empty_restart_reserved [OF inv Nil]
      by (auto simp: sb_live_def unreserved_def)
    with run dequeue_empty [OF inv Nil dest(1)] empty_restart_inv [OF inv Nil] Nil show ?thesis by auto
  next
    case (Cons s ss)
    show ?thesis
    proof (cases "length s + 3 \<le> length dest")
      case True
      have "\<not> unreserved b \<Longrightarrow> straight b \<longrightarrow> ss \<noteq> []"
        using careful Cons live by (auto simp: sb_live_def reserved_def)
      then have "sb_live (drop_string b (length s))"
        using live drop_string_inv [OF inv Cons] drop_string_reserved [OF inv Cons]
        by (auto simp: sb_live_def)
      moreover have "r = \<lparr>deq_status = OLY_OKAY, deq_buffer = drop_string b (length s),
          deq_dest = overlay dest 0 (s @ [0]), deq_length = Some (length s + 1)\<rparr>"
        using dequeue_front [OF inv Cons True] True run by simp
      ultimately show ?thesis
        using drop_string_inv [OF inv Cons] Cons by (simp add: overlay_def)
    next
      case False
      then have short: "length dest < length s + 3" by simp
      obtain d where "dequeue_from_string_buffer b dest (length dest) =
          Ret \<lparr>deq_status = OLY_ERR_BUFFER_OVERFLOW, deq_buffer = b, deq_dest = d, deq_length = None\<rparr>"
        using dequeue_short [OF inv Cons short dest(2) order_refl] by metis
      with run live show ?thesis by auto
    qed
  qed
qed

lemma careful_step:
  assumes "sb_live b" and "careful b e" and "sb_step b e b'"
  shows "sb_live b' \<and> contents b @ put_strings [e] = got_strings [e] @ contents b'"
  using assms(3)
proof (cases rule: sb_step.cases)
  case (step_reserve len status)
  with reserve_live [OF assms(1)] assms(2) show ?thesis by simp
next
  case (step_enqueue s rest r)
  with enqueue_live [OF assms(1)] assms(2) show ?thesis by simp
next
  case (step_dequeue dest r)
  then have "careful b (Dequeue (length dest) (deq_status r) (map_option (\<lambda>n. take (n - 1) (deq_dest r)) (deq_length r)))"
    using assms(2) by simp
  from dequeue_live [OF assms(1) this] step_dequeue show ?thesis by (auto split: option.splits)
qed

lemma careful_run:
  assumes "sb_run b tr b'" and "sb_live b"
  shows "sb_live b' \<and> contents b @ put_strings tr = got_strings tr @ contents b'"
  using assms
proof (induction rule: sb_run.induct)
  case (run_step b tr b' e b'')
  then have "sb_live b'" "contents b @ put_strings tr = got_strings tr @ contents b'" by auto
  with careful_step [OF this(1) run_step.hyps(2,3)] show ?case
    by (metis append.assoc got_strings_append put_strings_append)
qed simp

section \<open>Every string gets out\<close>

lemma cancel_run:
  assumes "sb_run b0 tr b" and "sb_live b"
  obtains es b' where "sb_run b0 (tr @ es) b'" and "sb_inv b'" and "unreserved b'"
    and "contents b' = contents b" and "put_strings es = []" and "got_strings es = []"
  using assms(2)
proof (cases rule: sb_liveE)
  case 1
  then show ?thesis using that [of "[]" b] assms(1) by simp
next
  case (2 len)
  let ?b = "b\<lparr>reserve_start := None, reserve_end := None\<rparr>"
  have "sb_step b (Enqueue [] OLY_OKAY) ?b"
    using step_enqueue [of b "[]" "[]"] enqueue_cancels [OF 2(2)] by simp
  moreover have "careful b (Enqueue [] OLY_OKAY)" by (simp split: option.split)
  ultimately have "sb_run b0 (tr @ [Enqueue [] OLY_OKAY]) ?b" using assms(1) by (intro run_step)
  with 2(1) show ?thesis by (intro that [of "[Enqueue [] OLY_OKAY]" ?b]) (simp_all add: unreserved_def)
qed

lemma drain_run:
  assumes "sb_run b0 tr b" and "sb_inv b" and "unreserved b"
  shows "\<exists>es b'. sb_run b0 (tr @ es) b' \<and> contents b' = [] \<and> put_strings es = [] \<and> got_strings es = contents b"
  using assms
proof (induction "contents b" arbitrary: b tr)
  case Nil
  then show ?case by (intro exI [of _ "[]"] exI [of _ b]) simp
next
  case (Cons s ss)
  let ?dest = "replicate (length s + 3) (0 :: ochar)" and ?b = "drop_string b (length s)"
  note c = Cons.hyps(2) [symmetric]
  note drop = drop_string_inv [OF Cons.prems(2) c]
  have "sb_step b (Dequeue (length s + 3) OLY_OKAY (Some s)) ?b"
    using step_dequeue [of b ?dest] dequeue_front [OF Cons.prems(2) c, of "length s + 3" ?dest]
    by (simp add: overlay_def)
  moreover have "careful b (Dequeue (length s + 3) OLY_OKAY (Some s))"
    using Cons.prems(3) by (simp add: unreserved_def)
  ultimately have "sb_run b0 (tr @ [Dequeue (length s + 3) OLY_OKAY (Some s)]) ?b"
    using Cons.prems(1) by (intro run_step)
  from Cons.hyps(1) [OF _ this] drop Cons.prems(3)
  obtain es b' where "sb_run b0 ((tr @ [Dequeue (length s + 3) OLY_OKAY (Some s)]) @ es) b'"
    "contents b' = []" "put_strings es = []" "got_strings es = ss" by auto
  then show ?case using c
    by (intro exI [of _ "Dequeue (length s + 3) OLY_OKAY (Some s) # es"] exI [of _ b']) simp
qed

section \<open>Reading under a reservation\<close>

lemma enqueue_at:
  assumes p: "reserve_start b = Some p" "reserve_end b = Some (p + len + 1)" and s: "storable s"
    and fits: "length s + 2 \<le> len" and small: "len + 1 < size_mod" and room: "p + len + 1 < length (block b)"
    and size: "length (block b) < size_mod" and b: "\<not> writes_a b"
  shows "enqueue_to_string_buffer b (s @ 0 # t) =
    Ret \<lparr>enq_status = OLY_OKAY,
         enq_buffer = b\<lparr>block := overlay (block b) p (s @ [0, 0]), write_b := p + length s + 2,
                        reserve_start := None, reserve_end := None\<rparr>,
         enq_result = Some p, enq_length = Some (length s + 1)\<rparr>"
proof -
  have n0: "s \<noteq> []" "0 \<notin> set s" "s ! 0 \<noteq> 0"
    using s by (auto simp: storable_def) (metis length_greater_0_conv nth_mem)
  have copy: "copy_loop (s @ 0 # t) 0 (block b) p (p + len + 1)
      = Ret (overlay (block b) p (s @ [0]), p + length s + 1)"
    using n0 fits room by (intro copy_loop_string) auto
  have avail: "size_of_int (int (p + len + 1) - int p - 1) = len"
    using small by (simp add: size_simps)
  have diff: "size_diff (p + length s + 1) p = length s + 1"
    using fits room size by (simp add: size_simps)
  show ?thesis
    using p n0 copy avail diff fits room b
    by (auto simp: enqueue_to_string_buffer_def Let_def peek_def nth_append
        poke_def overlay_two_nulls [simplified] release_reserve_def writes_a_def)
qed

text \<open>
  When the only string lies at the start of the part a reservation is pending in, reading it makes the
  other part the one to be written, from the start of the block: the string that has been read is
  taken for its first one.
\<close>

lemma redelivers:
  assumes inv: "sb_inv b" and res: "reserved b len" and state: "sb_state b = WRITE_A_READ_A"
    and first: "read_a b = 0" "contents b = [s]" and t: "storable t" "length t + 2 \<le> len" "len + 1 < size_mod"
  shows "\<exists>b'. enqueue_to_string_buffer (drop_string b (length s)) (t @ 0 # rest) =
      Ret \<lparr>enq_status = OLY_OKAY, enq_buffer = b', enq_result = Some (write_ptr b), enq_length = Some (length t + 1)\<rparr>
    \<and> sb_good b' \<and> contents b' = [s, t]"
proof -
  note shape = inv [unfolded sb_inv_def sb_shape_def sb_parts_def]
  have b: "read_b b = 0" "write_b b = 0" "contents_b b = []" "reads_a b"
    using shape state by (auto simp: contents_b_def reads_a_def)
  have cb: "contents_a b = [s]" using first(2) b(3,4) by (simp add: contents_def)
  with sb_inv_tiles(1) [OF inv] first(1)
  have s: "storable s" "take (Suc (length s)) (block b) = s @ [0]" "write_a b = length s + 2" by auto
  let ?p = "length s + 2"
  have p: "write_ptr b = ?p" using state s(3) by (simp add: write_ptr_def writes_a_def)
  have drop: "drop_string b (length s) = b\<lparr>read_a := 0, write_a := 0, sb_state := WRITE_B_READ_B\<rparr>"
    using state b s(3) first(1) shape
    by (simp add: drop_string_def Let_def read_ptr_def get_higher_write_def finish_part_def)
  have room: "?p + len + 1 < length (block b)" "length (block b) < size_mod"
    and r: "reserve_start b = Some ?p" "reserve_end b = Some (?p + len + 1)"
    using res p shape state by (auto simp: reserved_def write_limit_def)
  let ?m = "overlay (block b) ?p (t @ [0, 0])"
  let ?b = "b\<lparr>block := ?m, read_a := 0, write_a := 0, write_b := ?p + length t + 2,
    reserve_start := None, reserve_end := None, sb_state := WRITE_B_READ_B\<rparr>"
  have run: "enqueue_to_string_buffer (drop_string b (length s)) (t @ 0 # rest) =
      Ret \<lparr>enq_status = OLY_OKAY, enq_buffer = ?b, enq_result = Some (write_ptr b), enq_length = Some (length t + 1)\<rparr>"
    unfolding drop p
    by (subst enqueue_at [where p = ?p and len = len]) (use t room r in \<open>auto simp: writes_a_def\<close>)
  have len: "length ?m = length (block b)" and in_m: "?p + length (t @ [0, 0]) \<le> length (block b)"
    using room t(2) by auto
  have "tiles ?m 0 ?p [s]"
    by (rule tiles_cong [of "block b"]) (use s len in_m in \<open>auto simp: nth_overlay\<close>)
  moreover have "take (Suc (length t)) (drop ?p ?m) = t @ [0]"
    using in_m by (subst take_drop_overlay_same) auto
  ultimately have tiles: "tiles ?m 0 (?p + length t + 2) [s, t]"
    using tiles_snoc [of ?m 0 ?p "[s]" t] t(1) by simp
  have limit: "?p + length t + 2 < buffer_end b"
    using res p state t(2) by (auto simp: reserved_def write_limit_def)
  have "sb_inv ?b \<and> contents_a ?b = [] \<and> contents_b ?b = [s, t]"
    using tiles shape len limit b(1) by (intro sb_inv_intro) (auto simp: sb_shape_def sb_parts_def)
  with run show ?thesis
    by (intro exI [of _ ?b]) (simp add: sb_good_def unreserved_def contents_def reads_a_def)
qed

section \<open>Properties\<close>

text \<open>A run on an opened buffer: a string is reserved and stored.\<close>

lemma sample_run:
  obtains b b' where "open_string_buffer (OLY_OKAY, 24) (\<lambda>_. 0) = Ret (OLY_OKAY, Some b)"
    and "sb_run b [Reserve 5 OLY_OKAY, Enqueue sample_string OLY_OKAY] b'"
proof -
  obtain b where b: "open_string_buffer (OLY_OKAY, 24) (\<lambda>_. 0) = Ret (OLY_OKAY, Some b)" "sb_good b" "sb_room b = 22"
    using open_string_buffer_good [of 24 "\<lambda>_. 0"] by (auto simp: size_mod_def)
  obtain c where c: "reserve_string_buffer b 5 = Ret (OLY_OKAY, c)" "sb_inv c" "reserved c 5"
    using reserve_granted [of b 5] b by (auto simp: sb_good_def size_mod_def)
  have stored: "sb_step c (Enqueue sample_string OLY_OKAY) (append_string c sample_string)"
    using step_enqueue [of c sample_string "[]"] enqueue_stores [OF c(2,3) sample_string_okay(1), of "[]"] sample_string_okay
    by (simp add: storable_def size_mod_def)
  have "sb_run b ([] @ [Reserve 5 OLY_OKAY]) c"
    by (rule run_step [OF run_start]) (use c(1) in \<open>auto intro: sb_step.intros simp: size_mod_def\<close>)
  then have "sb_run b (([] @ [Reserve 5 OLY_OKAY]) @ [Enqueue sample_string OLY_OKAY]) (append_string c sample_string)"
    by (rule run_step) (use stored c(3) sample_string_okay(3) in \<open>auto simp: reserved_def\<close>)
  with b(1) that show ?thesis by simp
qed

lemma opened_live:
  assumes "2 \<le> n" and "2 * n < size_mod" and "open_string_buffer (OLY_OKAY, n) junk = Ret (OLY_OKAY, Some b)"
  shows "sb_live b" "contents b = []"
  using open_string_buffer_good [OF assms(1,2), of junk] assms(3) by (auto simp: sb_live_def sb_good_def)

text \<open>
  C12: From the opened buffer on, whatever order a careful client reserves, enqueues and dequeues in,
  also with reads between a reservation and its enqueue, the buffer keeps its invariant, and the
  strings that were stored are the ones that have been read followed by the ones it still holds.
\<close>

theorem careful_runs_are_fifo:
  assumes "2 \<le> n" and "2 * n < size_mod" and "open_string_buffer (OLY_OKAY, n) junk = Ret (OLY_OKAY, Some b)"
    and "sb_run b tr b'"
  shows "sb_inv b' \<and> put_strings tr = got_strings tr @ contents b'"
  using careful_run [OF assms(4) opened_live(1) [OF assms(1-3)]] opened_live(2) [OF assms(1-3)]
  by (simp add: sb_live_def)

theorem careful_runs_are_fifo_witness:
  "\<exists>b b'. open_string_buffer (OLY_OKAY, 24) (\<lambda>_. 0) = Ret (OLY_OKAY, Some b)
    \<and> sb_run b [Reserve 5 OLY_OKAY, Enqueue sample_string OLY_OKAY] b' \<and> contents b' = [sample_string]"
proof -
  obtain b b' where b: "open_string_buffer (OLY_OKAY, 24) (\<lambda>_. 0) = Ret (OLY_OKAY, Some b)"
    "sb_run b [Reserve 5 OLY_OKAY, Enqueue sample_string OLY_OKAY] b'"
    by (rule sample_run)
  have "(2 :: nat) \<le> 24" "2 * 24 < size_mod" by (simp_all add: size_mod_def)
  from careful_runs_are_fifo [OF this b] sample_string_okay(3) have "contents b' = [sample_string]"
    by (cases "sample_string = []") auto
  with b show ?thesis by blast
qed

text \<open>
  C13: No careful run gets stuck: it can be continued by cancelling a pending reservation and reading
  until the buffer is empty, and then every string that was ever stored has been delivered, in order.
\<close>

theorem every_string_is_delivered:
  assumes "2 \<le> n" and "2 * n < size_mod" and "open_string_buffer (OLY_OKAY, n) junk = Ret (OLY_OKAY, Some b)"
    and "sb_run b tr b'"
  shows "\<exists>es b''. sb_run b (tr @ es) b'' \<and> contents b'' = [] \<and> put_strings es = []
    \<and> got_strings (tr @ es) = put_strings tr"
proof -
  have live: "sb_live b'" and fifo: "put_strings tr = got_strings tr @ contents b'"
    using careful_run [OF assms(4)] opened_live [OF assms(1-3)] by simp_all
  obtain es c where c: "sb_run b (tr @ es) c" "sb_inv c" "unreserved c" "contents c = contents b'"
    "put_strings es = []" "got_strings es = []"
    by (rule cancel_run [OF assms(4) live])
  from drain_run [OF c(1-3)] obtain ds d where "sb_run b ((tr @ es) @ ds) d" "contents d = []"
    "put_strings ds = []" "got_strings ds = contents c" by blast
  with c fifo show ?thesis by (intro exI [of _ "es @ ds"] exI [of _ d]) simp
qed

theorem every_string_is_delivered_witness:
  "\<exists>b es b''. sb_run b ([Reserve 5 OLY_OKAY, Enqueue sample_string OLY_OKAY] @ es) b'' \<and> contents b'' = []
    \<and> got_strings ([Reserve 5 OLY_OKAY, Enqueue sample_string OLY_OKAY] @ es) = [sample_string]"
proof -
  obtain b b' where b: "open_string_buffer (OLY_OKAY, 24) (\<lambda>_. 0) = Ret (OLY_OKAY, Some b)"
    "sb_run b [Reserve 5 OLY_OKAY, Enqueue sample_string OLY_OKAY] b'"
    by (rule sample_run)
  have "(2 :: nat) \<le> 24" "2 * 24 < size_mod" by (simp_all add: size_mod_def)
  from every_string_is_delivered [OF this b] sample_string_okay(3) show ?thesis
    by (cases "sample_string = []") auto
qed

text \<open>
  C28: Reading the last string while a reservation is pending breaks the queue: when the string lies
  at the start of part A, which is being written, the dequeue delivers it, the enqueue that uses the
  reservation reports success, and the buffer then holds the string that was read a second time,
  in front of the new one.
\<close>

theorem dequeue_under_reservation_redelivers:
  assumes "sb_inv b" and "reserved b len" and "sb_state b = WRITE_A_READ_A"
    and "read_a b = 0" and "contents b = [s]" and "storable t" and "length t + 2 \<le> len" and "len + 1 < size_mod"
    and "length s + 3 \<le> length dest"
  shows "\<exists>r r'. dequeue_from_string_buffer b dest (length dest) = Ret r \<and> deq_length r = Some (length s + 1)
    \<and> take (length s) (deq_dest r) = s
    \<and> enqueue_to_string_buffer (deq_buffer r) (t @ 0 # rest) = Ret r' \<and> enq_status r' = OLY_OKAY
    \<and> sb_good (enq_buffer r') \<and> contents (enq_buffer r') = [s, t]"
proof -
  have "dequeue_from_string_buffer b dest (length dest) =
    Ret \<lparr>deq_status = OLY_OKAY, deq_buffer = drop_string b (length s),
         deq_dest = overlay dest 0 (s @ [0]), deq_length = Some (length s + 1)\<rparr>"
    using dequeue_front [OF assms(1,5,9)] assms(9) by simp
  then show ?thesis using redelivers [OF assms(1-8), of rest] by (auto simp: overlay_def)
qed

theorem dequeue_under_reservation_redelivers_witness:
  "\<exists>r r'. dequeue_from_string_buffer (sample_filled\<lparr>reserve_start := Some 5, reserve_end := Some 11\<rparr>)
      (replicate 6 0) (length (replicate 6 (0 :: ochar))) = Ret r
    \<and> enqueue_to_string_buffer (deq_buffer r) (sample_string @ 0 # []) = Ret r'
    \<and> contents (enq_buffer r') = [sample_string, sample_string]"
proof -
  let ?b = "sample_filled\<lparr>reserve_start := Some 5, reserve_end := Some 11\<rparr>"
  have f: "sb_state sample_filled = WRITE_A_READ_A" "read_a sample_filled = 0" "write_a sample_filled = 5"
    "buffer_end sample_filled = 23"
    using sample_string_okay(3)
    by (simp_all add: sample_filled_def sample_reserved_def append_string_def Let_def writes_a_def write_ptr_def sample_buffer_def)
  have "reserved ?b 5" using f by (simp add: reserved_def write_ptr_def writes_a_def write_limit_def)
  with dequeue_under_reservation_redelivers [of ?b 5 sample_string sample_string "replicate 6 0" "[]"]
    f sample_filled_good sample_string_okay show ?thesis by (auto simp: size_mod_def)
qed

end
