(* ===== verification/Linked_List.thy ===== *)
theory Linked_List
  imports Oly_Prelude "HOL-Library.Multiset"
begin

text \<open>
  The singly linked lists of \<^verbatim>\<open>src/lib/libltdl/slist.c\<close>. An item is a structure that begins with the
  pointer to the next one; what follows it is \<open>userdata\<close>. The items live in a store, a map from
  addresses, where 0 is the null pointer; every function that changes a list returns the store. Loops
  along the pointers are partial functions, as a list that leads back to itself never ends.
\<close>

section \<open>Items\<close>

record 'a SList =
  next_item :: nat
  userdata :: 'a

type_synonym 'a store = "nat \<rightharpoonup> 'a SList"

definition item_at :: "'a store \<Rightarrow> nat \<Rightarrow> 'a SList outcome" where
  "item_at h p = (if p = 0 then Crash else case h p of None \<Rightarrow> Crash | Some i \<Rightarrow> Ret i)"

definition set_next :: "'a store \<Rightarrow> nat \<Rightarrow> nat \<Rightarrow> 'a store outcome" where
  "set_next h p q = obind (item_at h p) (\<lambda>i. Ret (h(p \<mapsto> i\<lparr>next_item := q\<rparr>)))"

section \<open>Operations\<close>

text \<open>The callback of \<open>slist_delete\<close> gets an item and may release it.\<close>

partial_function (option) slist_delete ::
  "('a store \<Rightarrow> nat \<Rightarrow> 'a store outcome) \<Rightarrow> 'a store \<Rightarrow> nat \<Rightarrow> 'a store outcome option" where
  "slist_delete delete_fct h head =
     (if head = 0 then Some (Ret h)
      else
        rbind (Some (item_at h head)) (\<lambda>i.
        rbind (Some (delete_fct h head)) (\<lambda>h.
        slist_delete delete_fct h (next_item i))))"

text \<open>\<open>finder\<close> answers with a pointer, null if the item does not match.\<close>

partial_function (option) remove_loop ::
  "('a store \<Rightarrow> nat \<Rightarrow> nat) \<Rightarrow> 'a store \<Rightarrow> nat \<Rightarrow> (nat \<times> 'a store) outcome option" where
  "remove_loop finder h head =
     rbind (Some (item_at h head)) (\<lambda>i.
     if next_item i = 0 then Some (Ret (0, h))
     else
       let result = finder h (next_item i)
       in if result \<noteq> 0 then
            rbind (Some (item_at h (next_item i))) (\<lambda>stale.
            rbind (Some (set_next h head (next_item stale))) (\<lambda>h. Some (Ret (result, h))))
          else remove_loop finder h (next_item i))"

text \<open>The result, the new head and the store; \<open>phead\<close> is \<open>None\<close> if there is no pointer to the head.\<close>

definition slist_remove ::
  "('a store \<Rightarrow> nat \<Rightarrow> nat) \<Rightarrow> 'a store \<Rightarrow> nat option \<Rightarrow> (nat \<times> nat option \<times> 'a store) outcome option" where
  "slist_remove finder h phead =
     (if phead = None \<or> phead = Some 0 then Some (Ret (0, phead, h))
      else
        let head = the phead; result = finder h head
        in if result \<noteq> 0 then
             rbind (Some (item_at h head)) (\<lambda>stale. Some (Ret (result, Some (next_item stale), h)))
           else rbind (remove_loop finder h head) (\<lambda>(result, h). Some (Ret (result, phead, h))))"

partial_function (option) slist_find ::
  "('a store \<Rightarrow> nat \<Rightarrow> nat) \<Rightarrow> 'a store \<Rightarrow> nat \<Rightarrow> nat outcome option" where
  "slist_find finder h slist =
     (if slist = 0 then Some (Ret 0)
      else if finder h slist \<noteq> 0 then Some (Ret (finder h slist))
      else rbind (Some (item_at h slist)) (\<lambda>i. slist_find finder h (next_item i)))"

partial_function (option) last_loop :: "'a store \<Rightarrow> nat \<Rightarrow> nat outcome option" where
  "last_loop h p =
     rbind (Some (item_at h p)) (\<lambda>i. if next_item i \<noteq> 0 then last_loop h (next_item i) else Some (Ret p))"

definition slist_concat :: "'a store \<Rightarrow> nat \<Rightarrow> nat \<Rightarrow> (nat \<times> 'a store) outcome option" where
  "slist_concat h head tail =
     (if head = 0 then Some (Ret (tail, h))
      else
        rbind (last_loop h head) (\<lambda>p.
        rbind (Some (set_next h p tail)) (\<lambda>h. Some (Ret (head, h)))))"

definition slist_cons :: "'a store \<Rightarrow> nat \<Rightarrow> nat \<Rightarrow> (nat \<times> 'a store) outcome" where
  "slist_cons h item slist =
     (if item = 0 then Ret (slist, h)
      else
        obind (item_at h item) (\<lambda>i.
        c_assert (next_item i = 0) (obind (set_next h item slist) (\<lambda>h. Ret (item, h)))))"

definition slist_tail :: "'a store \<Rightarrow> nat \<Rightarrow> nat outcome" where
  "slist_tail h slist = (if slist \<noteq> 0 then obind (item_at h slist) (\<lambda>i. Ret (next_item i)) else Ret 0)"

fun slist_nth :: "'a store \<Rightarrow> nat \<Rightarrow> nat \<Rightarrow> nat outcome" where
  "slist_nth h slist n =
     (if n > 1 \<and> slist \<noteq> 0 then obind (item_at h slist) (\<lambda>i. slist_nth h (next_item i) (n - 1))
      else Ret slist)"

partial_function (option) length_loop :: "'a store \<Rightarrow> nat \<Rightarrow> nat \<Rightarrow> nat outcome option" where
  "length_loop h slist n =
     (if slist = 0 then Some (Ret n)
      else rbind (Some (item_at h slist)) (\<lambda>i. length_loop h (next_item i) (n + 1)))"

definition slist_length :: "'a store \<Rightarrow> nat \<Rightarrow> nat outcome option" where
  "slist_length h slist = length_loop h slist 0"

partial_function (option) reverse_loop :: "'a store \<Rightarrow> nat \<Rightarrow> nat \<Rightarrow> (nat \<times> 'a store) outcome option" where
  "reverse_loop h slist result =
     (if slist = 0 then Some (Ret (result, h))
      else
        rbind (Some (item_at h slist)) (\<lambda>i.
        rbind (Some (set_next h slist result)) (\<lambda>h.
        reverse_loop h (next_item i) slist)))"

definition slist_reverse :: "'a store \<Rightarrow> nat \<Rightarrow> (nat \<times> 'a store) outcome option" where
  "slist_reverse h slist = reverse_loop h slist 0"

text \<open>The callback of \<open>slist_foreach\<close> may change the store; the next item is read before it is called.\<close>

partial_function (option) slist_foreach ::
  "('a store \<Rightarrow> nat \<Rightarrow> (nat \<times> 'a store) outcome) \<Rightarrow> 'a store \<Rightarrow> nat \<Rightarrow> nat \<Rightarrow> (nat \<times> 'a store) outcome option" where
  "slist_foreach foreach h slist result =
     (if slist = 0 then Some (Ret (result, h))
      else
        rbind (Some (item_at h slist)) (\<lambda>i.
        rbind (Some (foreach h slist)) (\<lambda>(result, h).
        if result \<noteq> 0 then Some (Ret (result, h))
        else slist_foreach foreach h (next_item i) result)))"

text \<open>
  The merge of two lists. \<open>ins\<close> is the item \<^verbatim>\<open>insert\<close> to be linked next, \<open>None\<close> while it is the local item
  \<^verbatim>\<open>merged\<close>, whose pointer is \<open>merged\<close>.
\<close>

definition link_item :: "'a store \<Rightarrow> nat \<Rightarrow> nat option \<Rightarrow> nat \<Rightarrow> ('a store \<times> nat) outcome" where
  "link_item h merged ins p =
     (case ins of
        None \<Rightarrow> Ret (h, p)
      | Some q \<Rightarrow> obind (set_next h q p) (\<lambda>h. Ret (h, merged)))"

partial_function (option) merge_loop ::
  "('a \<Rightarrow> 'a \<Rightarrow> int) \<Rightarrow> 'a store \<Rightarrow> nat \<Rightarrow> nat option \<Rightarrow> nat \<Rightarrow> nat \<Rightarrow> (nat \<times> 'a store) outcome option" where
  "merge_loop compare h merged ins left right =
     (if left \<noteq> 0 \<and> right \<noteq> 0 then
        rbind (Some (item_at h left)) (\<lambda>l.
        rbind (Some (item_at h right)) (\<lambda>r.
        if compare (userdata l) (userdata r) \<le> 0 then
          rbind (Some (link_item h merged ins left)) (\<lambda>(h, merged).
          rbind (Some (item_at h left)) (\<lambda>l.
          merge_loop compare h merged (Some left) (next_item l) right))
        else
          rbind (Some (link_item h merged ins right)) (\<lambda>(h, merged).
          rbind (Some (item_at h right)) (\<lambda>r.
          merge_loop compare h merged (Some right) left (next_item r)))))
      else
        rbind (Some (link_item h merged ins (if left \<noteq> 0 then left else right))) (\<lambda>(h, merged).
        Some (Ret (merged, h))))"

definition slist_sort_merge ::
  "('a \<Rightarrow> 'a \<Rightarrow> int) \<Rightarrow> 'a store \<Rightarrow> nat \<Rightarrow> nat \<Rightarrow> (nat \<times> 'a store) outcome option" where
  "slist_sort_merge compare h left right = merge_loop compare h 0 None left right"

text \<open>
  The loop that finds the last item of the first half: \<open>right\<close> goes two items on for each one of
  \<open>slist\<close>.
\<close>

partial_function (option) split_loop :: "'a store \<Rightarrow> nat \<Rightarrow> nat \<Rightarrow> nat outcome option" where
  "split_loop h slist right =
     (if right = 0 then Some (Ret slist)
      else
        rbind (Some (item_at h right)) (\<lambda>r.
        if next_item r = 0 then Some (Ret slist)
        else
          rbind (Some (item_at h (next_item r))) (\<lambda>r.
          if next_item r = 0 then Some (Ret slist)
          else rbind (Some (item_at h slist)) (\<lambda>i. split_loop h (next_item i) (next_item r)))))"

partial_function (option) slist_sort ::
  "('a \<Rightarrow> 'a \<Rightarrow> int) \<Rightarrow> 'a store \<Rightarrow> nat \<Rightarrow> (nat \<times> 'a store) outcome option" where
  "slist_sort compare h slist =
     (if slist = 0 then Some (Ret (slist, h))
      else
        rbind (Some (item_at h slist)) (\<lambda>first.
        if next_item first = 0 then Some (Ret (slist, h))
        else
          rbind (split_loop h slist (next_item first)) (\<lambda>middle.
          rbind (Some (item_at h middle)) (\<lambda>m.
          rbind (Some (set_next h middle 0)) (\<lambda>h.
          rbind (slist_sort compare h slist) (\<lambda>(left, h).
          rbind (slist_sort compare h (next_item m)) (\<lambda>(right, h).
          slist_sort_merge compare h left right)))))))"

text \<open>\<open>addr\<close> is the answer of \<^verbatim>\<open>malloc\<close>, null when there is no memory.\<close>

definition slist_box :: "'a store \<Rightarrow> nat \<Rightarrow> 'a \<Rightarrow> nat \<times> 'a store" where
  "slist_box h addr data = (if addr = 0 then (0, h) else (addr, h(addr \<mapsto> \<lparr>next_item = 0, userdata = data\<rparr>)))"

definition slist_unbox :: "'a store \<Rightarrow> nat \<Rightarrow> ('a option \<times> 'a store) outcome" where
  "slist_unbox h item =
     (if item = 0 then Ret (None, h)
      else obind (item_at h item) (\<lambda>i. Ret (Some (userdata i), h(item := None))))"

section \<open>Chains of items\<close>

fun chain :: "'a store \<Rightarrow> nat \<Rightarrow> nat list \<Rightarrow> bool" where
  "chain h p [] \<longleftrightarrow> p = 0"
| "chain h p (x # xs) \<longleftrightarrow> p = x \<and> x \<noteq> 0 \<and> (\<exists>i. h x = Some i \<and> chain h (next_item i) xs)"

lemma item_at_Some [simp]: "h p = Some i \<Longrightarrow> p \<noteq> 0 \<Longrightarrow> item_at h p = Ret i"
  by (simp add: item_at_def)

lemma set_next_Some [simp]: "h p = Some i \<Longrightarrow> p \<noteq> 0 \<Longrightarrow> set_next h p q = Ret (h(p \<mapsto> i\<lparr>next_item := q\<rparr>))"
  by (simp add: set_next_def)

lemma chain_null_iff: "chain h p xs \<Longrightarrow> p = 0 \<longleftrightarrow> xs = []"
  by (cases xs) auto

lemma chain_frame: "\<forall>a\<in>set xs. h' a = h a \<Longrightarrow> chain h' p xs = chain h p xs"
  by (induction xs arbitrary: p) auto

lemma chain_unique: "chain h p xs \<Longrightarrow> chain h p ys \<Longrightarrow> xs = ys"
proof (induction xs arbitrary: p ys)
  case (Cons x xs)
  then show ?case by (cases ys) auto
qed (simp add: chain_null_iff)


lemma chain_split:
  "chain h p (xs @ y # ys) \<Longrightarrow> chain h y (y # ys)"
  by (induction xs arbitrary: p) auto

lemma chain_distinct: "chain h p xs \<Longrightarrow> distinct xs"
proof (rule ccontr)
  assume c: "chain h p xs" and "\<not> distinct xs"
  then obtain us vs ws y where xs: "xs = us @ [y] @ vs @ [y] @ ws" by (auto dest: not_distinct_decomp)
  from c have "chain h y (y # vs @ y # ws)" using chain_split [of h p us y "vs @ y # ws"] by (simp add: xs)
  moreover have "chain h y (y # ws)" using c chain_split [of h p "us @ y # vs" y ws] by (simp add: xs)
  ultimately have "y # vs @ y # ws = y # ws" by (rule chain_unique)
  then show False by (simp add: append_eq_append_conv2)
qed

lemma chain_not_null: "chain h p xs \<Longrightarrow> 0 \<notin> set xs"
  by (induction xs arbitrary: p) auto

lemma chain_mapped: "chain h p xs \<Longrightarrow> x \<in> set xs \<Longrightarrow> \<exists>i. h x = Some i"
  by (induction xs arbitrary: p) auto

text \<open>
  What an operation on the items \<open>xs\<close> may change: only the pointers of these items.
\<close>

definition user :: "'a store \<Rightarrow> nat \<Rightarrow> 'a option" where
  "user h a = map_option userdata (h a)"

definition relinked :: "nat set \<Rightarrow> 'a store \<Rightarrow> 'a store \<Rightarrow> bool" where
  "relinked A h h' \<longleftrightarrow> (\<forall>a. a \<notin> A \<longrightarrow> h' a = h a) \<and> (\<forall>a. user h' a = user h a)"

lemma relinked_refl [simp]: "relinked A h h"
  by (simp add: relinked_def)

lemma relinked_trans: "relinked A h h1 \<Longrightarrow> relinked A h1 h2 \<Longrightarrow> relinked A h h2"
  by (simp add: relinked_def)

lemma relinked_mono: "relinked A h h' \<Longrightarrow> A \<subseteq> B \<Longrightarrow> relinked B h h'"
  by (auto simp: relinked_def)

lemma relinked_set_next: "h q = Some i \<Longrightarrow> q \<in> A \<Longrightarrow> relinked A h (h(q \<mapsto> i\<lparr>next_item := p\<rparr>))"
  by (auto simp: relinked_def user_def)

lemma relinked_chain: "relinked A h h' \<Longrightarrow> set xs \<inter> A = {} \<Longrightarrow> chain h' p xs = chain h p xs"
  by (intro chain_frame) (auto simp: relinked_def)

lemma relinked_user: "relinked A h h' \<Longrightarrow> user h' = user h"
  by (auto simp: relinked_def)

section \<open>Merging\<close>

fun merge_by :: "('b \<Rightarrow> 'b \<Rightarrow> bool) \<Rightarrow> 'b list \<Rightarrow> 'b list \<Rightarrow> 'b list" where
  "merge_by le [] ys = ys"
| "merge_by le xs [] = xs"
| "merge_by le (x # xs) (y # ys) =
     (if le x y then x # merge_by le xs (y # ys) else y # merge_by le (x # xs) ys)"

lemma merge_by_Nil2 [simp]: "merge_by le xs [] = xs"
  by (cases xs) simp_all

lemma set_merge_by [simp]: "set (merge_by le xs ys) = set xs \<union> set ys"
  by (induction le xs ys rule: merge_by.induct) auto

lemma mset_merge_by: "mset (merge_by le xs ys) = mset xs + mset ys"
  by (induction le xs ys rule: merge_by.induct) auto

text \<open>The order of two items: by the comparison of what they hold.\<close>

definition item_le :: "('a \<Rightarrow> 'a \<Rightarrow> int) \<Rightarrow> 'a store \<Rightarrow> nat \<Rightarrow> nat \<Rightarrow> bool" where
  "item_le compare h x y \<longleftrightarrow> compare (the (user h x)) (the (user h y)) \<le> 0"

lemma item_le_cong: "user h' = user h \<Longrightarrow> item_le compare h' = item_le compare h"
  by (simp add: item_le_def fun_eq_iff)

text \<open>Linked behind the item \<open>q\<close>, the merge ends the chain of what is linked already.\<close>

lemma merge_loop_behind:
  assumes "chain h left xs" and "chain h right ys" and "set xs \<inter> set ys = {}"
    and "h q = Some j" and "q \<noteq> 0" and "q \<notin> set xs \<union> set ys"
  shows "\<exists>h' j'. merge_loop compare h merged (Some q) left right = Some (Ret (merged, h'))
    \<and> h' q = Some j' \<and> chain h' (next_item j') (merge_by (item_le compare h) xs ys)
    \<and> relinked (insert q (set xs \<union> set ys)) h h'"
  using assms
proof (induction "length xs + length ys" arbitrary: h left right xs ys q j)
  case 0
  then show ?case
    by (subst merge_loop.simps)
      (auto simp: link_item_def intro: exI [of _ "h(q \<mapsto> j\<lparr>next_item := 0\<rparr>)"] relinked_set_next)
next
  case (Suc n)
  show ?case
  proof (cases "xs = [] \<or> ys = []")
    case True
    define p where "p = (if left \<noteq> 0 then left else right)"
    define zs where "zs = merge_by (item_le compare h) xs ys"
    have c: "chain h p zs" "set zs = set xs \<union> set ys"
      using True Suc.prems(1,2) by (auto simp: p_def zs_def)
    let ?h = "h(q \<mapsto> j\<lparr>next_item := p\<rparr>)"
    have "\<not> (left \<noteq> 0 \<and> right \<noteq> 0)" using True Suc.prems(1,2) chain_null_iff by fastforce
    then have "merge_loop compare h merged (Some q) left right = Some (Ret (merged, ?h))"
      using Suc.prems(4,5) by (subst merge_loop.simps) (auto simp: link_item_def p_def)
    moreover have "chain ?h p zs" using c Suc.prems(6) by (subst chain_frame [of zs _ h]) auto
    moreover have "relinked (insert q (set xs \<union> set ys)) h ?h" using Suc.prems(4) by (intro relinked_set_next) auto
    ultimately show ?thesis unfolding zs_def by (intro exI [of _ ?h]) simp
  next
    case False
    then obtain x xs' y ys' where xy: "xs = x # xs'" "ys = y # ys'" by (meson neq_Nil_conv)
    obtain l r where l: "left = x" "x \<noteq> 0" "h x = Some l" "chain h (next_item l) xs'"
      and r: "right = y" "y \<noteq> 0" "h y = Some r" "chain h (next_item r) ys'"
      using Suc.prems(1,2) xy by auto
    have dist: "x \<notin> set xs'" "y \<notin> set ys'" using chain_distinct [OF Suc.prems(1)] chain_distinct [OF Suc.prems(2)] xy by auto
    have q: "q \<noteq> x" "q \<noteq> y" "q \<notin> set xs'" "q \<notin> set ys'" "x \<noteq> y" "x \<notin> set ys'" "y \<notin> set xs'" "set xs' \<inter> set ys' = {}"
      using Suc.prems(3,6) xy by auto
    let ?le = "item_le compare h"
    have cmp: "(compare (userdata l) (userdata r) \<le> 0) = ?le x y" using l(3) r(3) by (simp add: item_le_def user_def)
    show ?thesis
    proof (cases "?le x y")
      case True
      let ?h = "h(q \<mapsto> j\<lparr>next_item := x\<rparr>)"
      have step: "merge_loop compare h merged (Some q) left right = merge_loop compare ?h merged (Some x) (next_item l) right"
        using True l r q Suc.prems(4,5) by (subst merge_loop.simps) (simp add: cmp link_item_def)
      have rel: "relinked {q} h ?h" using Suc.prems(4) by (intro relinked_set_next) auto
      have le: "item_le compare ?h = ?le" using relinked_user [OF rel] by (rule item_le_cong)
      have c: "chain ?h (next_item l) xs'" "chain ?h right ys"
        using relinked_chain [OF rel] l(4) Suc.prems(2) q xy by simp_all
      have d: "n = length xs' + length ys" "set xs' \<inter> set ys = {}" "?h x = Some l" "x \<notin> set xs' \<union> set ys"
        using Suc.hyps(2) q l(3) dist xy by auto
      obtain h' j' where h': "merge_loop compare ?h merged (Some x) (next_item l) right = Some (Ret (merged, h'))"
        "h' x = Some j'" "chain h' (next_item j') (merge_by ?le xs' ys)" "relinked (insert x (set xs' \<union> set ys)) ?h h'"
        using Suc.hyps(1) [OF d(1) c d(2,3) l(2) d(4)] unfolding le by blast
      have "h' q = ?h q" using h'(4) q xy by (auto simp: relinked_def)
      moreover have "relinked (insert q (set xs \<union> set ys)) h h'"
        by (rule relinked_trans [OF relinked_mono [OF rel] relinked_mono [OF h'(4)]]) (use xy in auto)
      ultimately show ?thesis using step h'(1-3) l(2) True xy by auto
    next
      case False
      let ?h = "h(q \<mapsto> j\<lparr>next_item := y\<rparr>)"
      have step: "merge_loop compare h merged (Some q) left right = merge_loop compare ?h merged (Some y) left (next_item r)"
        using False l r q Suc.prems(4,5) by (subst merge_loop.simps) (simp add: cmp link_item_def)
      have rel: "relinked {q} h ?h" using Suc.prems(4) by (intro relinked_set_next) auto
      have le: "item_le compare ?h = ?le" using relinked_user [OF rel] by (rule item_le_cong)
      have c: "chain ?h left xs" "chain ?h (next_item r) ys'"
        using relinked_chain [OF rel] r(4) Suc.prems(1) q xy by simp_all
      have d: "n = length xs + length ys'" "set xs \<inter> set ys' = {}" "?h y = Some r" "y \<notin> set xs \<union> set ys'"
        using Suc.hyps(2) q r(3) dist xy by auto
      obtain h' j' where h': "merge_loop compare ?h merged (Some y) left (next_item r) = Some (Ret (merged, h'))"
        "h' y = Some j'" "chain h' (next_item j') (merge_by ?le xs ys')" "relinked (insert y (set xs \<union> set ys')) ?h h'"
        using Suc.hyps(1) [OF d(1) c d(2,3) r(2) d(4)] unfolding le by blast
      have "h' q = ?h q" using h'(4) q xy by (auto simp: relinked_def)
      moreover have "relinked (insert q (set xs \<union> set ys)) h h'"
        by (rule relinked_trans [OF relinked_mono [OF rel] relinked_mono [OF h'(4)]]) (use xy in auto)
      ultimately show ?thesis using step h'(1-3) r(2) False xy by auto
    qed
  qed
qed

lemma slist_sort_merge_result:
  assumes "chain h left xs" and "chain h right ys" and "set xs \<inter> set ys = {}" and "xs \<noteq> []" and "ys \<noteq> []"
  obtains p h' where "slist_sort_merge compare h left right = Some (Ret (p, h'))"
    and "chain h' p (merge_by (item_le compare h) xs ys)" and "relinked (set xs \<union> set ys) h h'"
proof -
  obtain x xs' y ys' where xy: "xs = x # xs'" "ys = y # ys'" using assms(4,5) by (meson neq_Nil_conv)
  obtain l r where l: "left = x" "x \<noteq> 0" "h x = Some l" "chain h (next_item l) xs'"
    and r: "right = y" "y \<noteq> 0" "h y = Some r" "chain h (next_item r) ys'"
    using assms(1,2) xy by auto
  have q: "x \<notin> set xs' \<union> set ys" "y \<notin> set xs \<union> set ys'" "set xs' \<inter> set ys = {}" "set xs \<inter> set ys' = {}"
    using chain_distinct [OF assms(1)] chain_distinct [OF assms(2)] assms(3) xy by auto
  let ?le = "item_le compare h"
  have cmp: "(compare (userdata l) (userdata r) \<le> 0) = ?le x y" using l(3) r(3) by (simp add: item_le_def user_def)
  show ?thesis
  proof (cases "?le x y")
    case True
    have step: "slist_sort_merge compare h left right = merge_loop compare h x (Some x) (next_item l) right"
      using True l r unfolding slist_sort_merge_def by (subst merge_loop.simps) (simp add: cmp link_item_def)
    obtain h' j' where "merge_loop compare h x (Some x) (next_item l) right = Some (Ret (x, h'))"
      "h' x = Some j'" "chain h' (next_item j') (merge_by ?le xs' ys)" "relinked (insert x (set xs' \<union> set ys)) h h'"
      using merge_loop_behind [OF l(4) assms(2) q(3) l(3,2) q(1)] by blast
    with True step l(2) xy that [of x h'] show ?thesis by (auto simp: insert_commute)
  next
    case False
    have step: "slist_sort_merge compare h left right = merge_loop compare h y (Some y) left (next_item r)"
      using False l r unfolding slist_sort_merge_def by (subst merge_loop.simps) (simp add: cmp link_item_def)
    obtain h' j' where "merge_loop compare h y (Some y) left (next_item r) = Some (Ret (y, h'))"
      "h' y = Some j'" "chain h' (next_item j') (merge_by ?le xs ys')" "relinked (insert y (set xs \<union> set ys')) h h'"
      using merge_loop_behind [OF assms(1) r(4) q(4) r(3,2) q(2)] by blast
    with False step r(2) xy that [of y h'] show ?thesis by (auto simp: insert_commute)
  qed
qed

section \<open>Splitting\<close>

lemma chain_drop: "chain h p xs \<Longrightarrow> n < length xs \<Longrightarrow> chain h (xs ! n) (drop n xs)"
  by (induction xs arbitrary: p n) (auto simp: nth_Cons drop_Cons' split: nat.splits)

lemma chain_nth:
  assumes "chain h p xs" and "n < length xs"
  obtains i where "h (xs ! n) = Some i" and "xs ! n \<noteq> 0" and "chain h (next_item i) (drop (Suc n) xs)"
proof -
  have "drop n xs = xs ! n # drop (Suc n) xs" using assms(2) by (simp add: Cons_nth_drop_Suc)
  with chain_drop [OF assms] that show ?thesis by auto
qed

lemma chain_head: "chain h p xs \<Longrightarrow> p = (if xs = [] then 0 else xs ! 0)"
  by (cases xs) auto

lemma split_loop_result:
  assumes "chain h p xs"
  shows "2 * n + 1 < length xs \<Longrightarrow>
    split_loop h (xs ! n) (xs ! (2 * n + 1)) = Some (Ret (xs ! (length xs div 2 - 1)))"
proof (induction "length xs - n" arbitrary: n rule: less_induct)
  case less
  let ?m = "2 * n + 1"
  obtain r where r: "h (xs ! ?m) = Some r" "xs ! ?m \<noteq> 0" "chain h (next_item r) (drop (Suc ?m) xs)"
    by (rule chain_nth [OF assms less.prems])
  show ?case
  proof (cases "Suc ?m < length xs")
    case False
    then have "next_item r = 0" "length xs = 2 * n + 2" using chain_head [OF r(3)] less.prems by auto
    then show ?thesis using r by (subst split_loop.simps) simp
  next
    case True
    have next1: "next_item r = xs ! Suc ?m" using chain_head [OF r(3)] True by simp
    obtain r2 where r2: "h (xs ! Suc ?m) = Some r2" "xs ! Suc ?m \<noteq> 0" "chain h (next_item r2) (drop (Suc (Suc ?m)) xs)"
      by (rule chain_nth [OF assms True])
    show ?thesis
    proof (cases "Suc (Suc ?m) < length xs")
      case False
      then have "next_item r2 = 0" "length xs = 2 * n + 3" using chain_head [OF r2(3)] True by auto
      then show ?thesis using r r2 next1 by (subst split_loop.simps) simp
    next
      case more: True
      have next2: "next_item r2 = xs ! (2 * Suc n + 1)" using chain_head [OF r2(3)] more by simp
      have n: "n < length xs" "Suc n < length xs" using less.prems by auto
      obtain i where i: "h (xs ! n) = Some i" "xs ! n \<noteq> 0" "chain h (next_item i) (drop (Suc n) xs)"
        by (rule chain_nth [OF assms n(1)])
      have ahead: "next_item i = xs ! Suc n" using chain_head [OF i(3)] n(2) by simp
      have "xs ! (2 * Suc n + 1) \<noteq> 0" using chain_not_null [OF assms] more by (metis nth_mem add_Suc_right mult_Suc_right plus_1_eq_Suc add.commute add_2_eq_Suc)
      then have "split_loop h (xs ! n) (xs ! ?m) = split_loop h (xs ! Suc n) (xs ! (2 * Suc n + 1))"
        using r r2 next1 next2 i ahead by (subst split_loop.simps) simp
      also have "\<dots> = Some (Ret (xs ! (length xs div 2 - 1)))" using more n by (intro less.hyps) auto
      finally show ?thesis .
    qed
  qed
qed

lemma chain_cut:
  assumes "chain h p xs" and "n < length xs" and "h (xs ! n) = Some i"
  shows "chain (h(xs ! n \<mapsto> i\<lparr>next_item := 0\<rparr>)) p (take (Suc n) xs)"
  using assms
proof (induction xs arbitrary: p n)
  case (Cons x xs)
  then obtain j where j: "p = x" "x \<noteq> 0" "h x = Some j" "chain h (next_item j) xs" by auto
  have x: "x \<notin> set xs" using chain_distinct [OF Cons.prems(1)] by simp
  show ?case
  proof (cases n)
    case 0
    with j show ?thesis by simp
  next
    case (Suc m)
    with Cons.prems have m: "m < length xs" "h (xs ! m) = Some i" by auto
    with x have "xs ! m \<noteq> x" by auto
    then show ?thesis using j Suc Cons.IH [OF j(4) m] by simp
  qed
qed simp

section \<open>Sorting\<close>

lemma sorted_merge_by:
  "sorted (map f xs) \<Longrightarrow> sorted (map f ys) \<Longrightarrow> sorted (map f (merge_by (\<lambda>x y. f x \<le> f y) xs ys))"
  by (induction "\<lambda>x y. f x \<le> f y" xs ys rule: merge_by.induct) auto

lemma filter_merge_by:
  assumes "sorted (map f xs)" and "sorted (map f ys)"
  shows "filter (\<lambda>x. f x = k) (merge_by (\<lambda>x y. f x \<le> f y) xs ys) = filter (\<lambda>x. f x = k) xs @ filter (\<lambda>x. f x = k) ys"
  using assms
proof (induction "\<lambda>x y. f x \<le> f y" xs ys rule: merge_by.induct)
  case (3 x xs y ys)
  show ?case
  proof (cases "f x \<le> f y")
    case False
    then have "\<forall>z\<in>set (x # xs). f y < f z" using "3.prems"(1) by auto
    then have "f y = k \<Longrightarrow> filter (\<lambda>x. f x = k) (x # xs) = []" by (auto simp: filter_empty_conv)
    with False "3.hyps"(2) "3.prems" show ?thesis by (cases "f y = k") auto
  qed (use 3 in auto)
qed auto

lemma merge_sorted:
  "merge_by (\<lambda>x y. f x \<le> f y) (sort_key f xs) (sort_key f ys) = sort_key f (xs @ ys)"
  (is "?m = _")
proof (rule sym, rule properties_for_sort_key)
  show "mset ?m = mset (xs @ ys)" by (simp add: mset_merge_by)
  show "filter (\<lambda>x. f k = f x) ?m = filter (\<lambda>x. f k = f x) (xs @ ys)" for k
    using filter_merge_by [of f "sort_key f xs" "sort_key f ys" "f k"]
    by (simp add: sort_key_stable eq_commute [of "f k"])
  show "sorted (map f ?m)" by (rule sorted_merge_by) simp_all
qed

lemma slist_sort_result:
  fixes key :: "'a \<Rightarrow> 'k :: linorder"
  assumes "chain h p xs" and cmp: "\<forall>a b. compare a b \<le> 0 \<longleftrightarrow> key a \<le> key b"
  shows "\<exists>p' h'. slist_sort compare h p = Some (Ret (p', h'))
    \<and> chain h' p' (sort_key (\<lambda>x. key (the (user h x))) xs) \<and> relinked (set xs) h h'"
  using assms(1)
proof (induction "length xs" arbitrary: h p xs rule: less_induct)
  case less
  define f where "f = (\<lambda>x. key (the (user h x)))"
  have le: "item_le compare h = (\<lambda>x y. f x \<le> f y)" using cmp by (simp add: item_le_def f_def fun_eq_iff)
  consider "xs = []" | x where "xs = [x]" | "1 < length xs"
    by (cases xs rule: list.exhaust; cases "tl xs") auto
  then show ?case
  proof cases
    case 1
    with less.prems show ?thesis by (subst slist_sort.simps) simp
  next
    case 2
    with less.prems show ?thesis by (subst slist_sort.simps) auto
  next
    case 3
    define m where "m = length xs div 2 - 1"
    define us where "us = take (Suc m) xs"
    define vs where "vs = drop (Suc m) xs"
    have m: "m < length xs" "Suc m < length xs" "length us < length xs" "length vs < length xs" "us \<noteq> []" "vs \<noteq> []"
      "us @ vs = xs"
      using 3 by (auto simp: m_def us_def vs_def)
    have disj: "set us \<inter> set vs = {}" "set us \<union> set vs = set xs"
      using chain_distinct [OF less.prems] by (metis m(7) distinct_append, metis m(7) set_append)
    obtain x y zs where "xs = x # y # zs" using 3 by (cases xs rule: list.exhaust; cases "tl xs") auto
    then obtain first where first: "h p = Some first" "p \<noteq> 0" "next_item first = xs ! 1" "p = xs ! 0"
      using less.prems by auto
    have second: "xs ! 1 \<noteq> 0" using chain_not_null [OF less.prems] 3 by (metis nth_mem)
    obtain mid where mid: "h (xs ! m) = Some mid" "xs ! m \<noteq> 0" "chain h (next_item mid) vs"
      using chain_nth [OF less.prems m(1)] unfolding vs_def by metis
    have split: "split_loop h p (xs ! 1) = Some (Ret (xs ! m))"
      using split_loop_result [OF less.prems, of 0] 3 first(4) by (simp add: m_def)
    let ?h = "h(xs ! m \<mapsto> mid\<lparr>next_item := 0\<rparr>)"
    have in_us: "xs ! m \<in> set us" using m(1) by (auto simp: us_def in_set_conv_nth intro!: exI [of _ m])
    have rel: "relinked (set us) h ?h" using mid(1) in_us by (rule relinked_set_next)
    have c: "chain ?h p us" "chain ?h (next_item mid) vs"
      using chain_cut [OF less.prems m(1) mid(1)] relinked_chain [OF rel, of vs] mid(3) disj(1) by (auto simp: us_def)
    note user1 = relinked_user [OF rel]
    obtain p1 h1 where 1: "slist_sort compare ?h p = Some (Ret (p1, h1))" "chain h1 p1 (sort_key f us)" "relinked (set us) ?h h1"
      using less.hyps [OF m(3) c(1)] unfolding user1 f_def [symmetric] by blast
    have c2: "chain h1 (next_item mid) vs" using relinked_chain [OF 1(3), of vs] c(2) disj(1) by auto
    have user2: "user h1 = user h" using relinked_user [OF 1(3)] user1 by simp
    obtain p2 h2 where 2: "slist_sort compare h1 (next_item mid) = Some (Ret (p2, h2))"
      "chain h2 p2 (sort_key f vs)" "relinked (set vs) h1 h2"
      using less.hyps [OF m(4) c2] unfolding user2 f_def [symmetric] by blast
    have c1: "chain h2 p1 (sort_key f us)" using relinked_chain [OF 2(3), of "sort_key f us"] 1(2) disj(1) by auto
    have user3: "user h2 = user h" using relinked_user [OF 2(3)] user2 by simp
    have ne: "sort_key f us \<noteq> []" "sort_key f vs \<noteq> []" and disj': "set (sort_key f us) \<inter> set (sort_key f vs) = {}"
      using m(5,6) disj(1) by (metis length_sort length_0_conv, metis length_sort length_0_conv, simp)
    obtain p3 h3 where 3: "slist_sort_merge compare h2 p1 p2 = Some (Ret (p3, h3))"
      "chain h3 p3 (sort_key f (us @ vs))" "relinked (set us \<union> set vs) h2 h3"
      using slist_sort_merge_result [OF c1 2(2) disj' ne, of compare]
      unfolding item_le_cong [OF user3] le merge_sorted set_sort by blast
    have "slist_sort compare h p = Some (Ret (p3, h3))"
      using first mid(1,2) split second 1(1) 2(1) 3(1) by (subst slist_sort.simps) simp
    moreover have "relinked (set xs) h h3"
      using relinked_mono [OF rel] relinked_mono [OF 1(3)] relinked_mono [OF 2(3)] relinked_mono [OF 3(3)] disj(2)
      by (metis relinked_trans sup_ge1 sup_ge2 order_refl)
    ultimately show ?thesis using 3(2) m(7) unfolding f_def by auto
  qed
qed

section \<open>The other operations\<close>

lemma length_loop_result: "chain h p xs \<Longrightarrow> length_loop h p n = Some (Ret (n + length xs))"
proof (induction xs arbitrary: p n)
  case (Cons x xs)
  then show ?case by (subst length_loop.simps) auto
qed (simp add: length_loop.simps)

lemma slist_length_result: "chain h p xs \<Longrightarrow> slist_length h p = Some (Ret (length xs))"
  by (simp add: slist_length_def length_loop_result)

lemma reverse_loop_result:
  assumes "chain h p xs" and "chain h q ys" and "set xs \<inter> set ys = {}"
  shows "\<exists>p' h'. reverse_loop h p q = Some (Ret (p', h')) \<and> chain h' p' (rev xs @ ys) \<and> relinked (set xs) h h'"
  using assms
proof (induction xs arbitrary: h p q ys)
  case Nil
  then show ?case by (subst reverse_loop.simps) simp
next
  case (Cons x xs)
  then obtain i where i: "p = x" "x \<noteq> 0" "h x = Some i" "chain h (next_item i) xs" by auto
  let ?h = "h(x \<mapsto> i\<lparr>next_item := q\<rparr>)"
  have rel: "relinked {x} h ?h" using i(3) by (rule relinked_set_next) simp
  have x: "x \<notin> set xs" using chain_distinct [OF Cons.prems(1)] by simp
  have "chain ?h (next_item i) xs" "chain ?h x (x # ys)" "set xs \<inter> set (x # ys) = {}"
    using relinked_chain [OF rel] i Cons.prems(2,3) x by auto
  from Cons.IH [OF this] obtain p' h' where
    "reverse_loop ?h (next_item i) x = Some (Ret (p', h'))" "chain h' p' (rev xs @ x # ys)" "relinked (set xs) ?h h'"
    by blast
  moreover have "reverse_loop h p q = reverse_loop ?h (next_item i) x"
    using i by (subst reverse_loop.simps) simp
  moreover have "relinked (set (x # xs)) h h'"
    by (rule relinked_trans [OF relinked_mono [OF rel] relinked_mono [OF calculation(3)]]) auto
  ultimately show ?case by auto
qed

lemma slist_reverse_result:
  assumes "chain h p xs"
  shows "\<exists>p' h'. slist_reverse h p = Some (Ret (p', h')) \<and> chain h' p' (rev xs) \<and> relinked (set xs) h h'"
  using reverse_loop_result [OF assms, of 0 "[]"] by (simp add: slist_reverse_def)

lemma last_loop_result: "chain h p xs \<Longrightarrow> xs \<noteq> [] \<Longrightarrow> last_loop h p = Some (Ret (last xs))"
proof (induction xs arbitrary: p)
  case (Cons x xs)
  then obtain i where i: "p = x" "x \<noteq> 0" "h x = Some i" "chain h (next_item i) xs" by auto
  with Cons.IH [OF i(4)] chain_null_iff [OF i(4)] show ?case by (subst last_loop.simps) auto
qed simp

lemma chain_concat:
  assumes "chain h p xs" and "xs \<noteq> []" and "chain h q ys" and "set xs \<inter> set ys = {}"
  shows "\<exists>i. h (last xs) = Some i \<and> last xs \<noteq> 0 \<and> chain (h(last xs \<mapsto> i\<lparr>next_item := q\<rparr>)) p (xs @ ys)"
  using assms
proof (induction xs arbitrary: p)
  case (Cons x xs)
  then obtain j where j: "p = x" "x \<noteq> 0" "h x = Some j" "chain h (next_item j) xs" by auto
  show ?case
  proof (cases "xs = []")
    case True
    have "chain (h(x \<mapsto> j\<lparr>next_item := q\<rparr>)) q ys" using Cons.prems(3,4) by (subst chain_frame [of ys _ h]) auto
    with True j show ?thesis by (simp add: fun_upd_def)
  next
    case False
    have "x \<notin> set xs" using chain_distinct [OF Cons.prems(1)] by simp
    with False have "last xs \<noteq> x" by (metis last_in_set)
    with Cons.IH [OF j(4) False] Cons.prems(3,4) j False show ?thesis by auto
  qed
qed simp

lemma slist_concat_result:
  assumes "chain h p xs" and "chain h q ys" and "set xs \<inter> set ys = {}"
  shows "\<exists>p' h'. slist_concat h p q = Some (Ret (p', h')) \<and> chain h' p' (xs @ ys) \<and> relinked (set xs) h h'"
proof (cases "xs = []")
  case True
  with assms show ?thesis by (auto simp: slist_concat_def)
next
  case False
  obtain i where i: "h (last xs) = Some i" "last xs \<noteq> 0" "chain (h(last xs \<mapsto> i\<lparr>next_item := q\<rparr>)) p (xs @ ys)"
    using chain_concat [OF assms(1) False assms(2,3)] by blast
  with False last_loop_result [OF assms(1) False] chain_null_iff [OF assms(1)] show ?thesis
    by (auto simp: slist_concat_def intro!: relinked_set_next)
qed

text \<open>
  The first item that matches is unlinked: \<open>xs\<close> are the ones in front of it, and \<open>finder\<close> does not
  look at the pointers it changes.
\<close>

lemma remove_loop_result:
  assumes "chain h p (xs @ x # ys)" and "xs \<noteq> []" and "\<forall>a\<in>set (tl xs). finder h a = 0" and "finder h x \<noteq> 0"
  shows "\<exists>h'. remove_loop finder h p = Some (Ret (finder h x, h')) \<and> chain h' p (xs @ ys) \<and> relinked {last xs} h h'"
  using assms
proof (induction xs arbitrary: p)
  case (Cons a xs)
  then obtain i where i: "p = a" "a \<noteq> 0" "h a = Some i" "chain h (next_item i) (xs @ x # ys)" by auto
  have dist: "distinct (a # xs @ x # ys)" using chain_distinct [OF Cons.prems(1)] by simp
  show ?case
  proof (cases "xs = []")
    case True
    with i obtain j where j: "next_item i = x" "x \<noteq> 0" "h x = Some j" "chain h (next_item j) ys" by auto
    let ?h = "h(a \<mapsto> i\<lparr>next_item := next_item j\<rparr>)"
    have rel: "relinked {a} h ?h" using i(3) by (rule relinked_set_next) simp
    have "remove_loop finder h p = Some (Ret (finder h x, ?h))"
      using i j Cons.prems(4) by (subst remove_loop.simps) (simp add: Let_def)
    moreover have "chain ?h p (a # ys)" using relinked_chain [OF rel, of ys] j i dist by simp
    ultimately show ?thesis using rel True by auto
  next
    case False
    then obtain b bs where b: "xs = b # bs" by (cases xs) auto
    with i have nb: "next_item i = b" "b \<noteq> 0" by auto
    have "remove_loop finder h p = remove_loop finder h (next_item i)"
      using i nb Cons.prems(3) b by (subst remove_loop.simps) (simp add: Let_def)
    moreover obtain h' where h': "remove_loop finder h (next_item i) = Some (Ret (finder h x, h'))"
      "chain h' (next_item i) (xs @ ys)" "relinked {last xs} h h'"
      using Cons.IH [OF i(4) False] Cons.prems(3,4) b by auto
    moreover have "a \<noteq> last xs" using dist False by auto
    then have "h' a = Some i" using h'(3) i(3) by (simp add: relinked_def)
    ultimately show ?thesis using i False by auto
  qed
qed simp

lemma slist_remove_result:
  assumes "chain h p (xs @ x # ys)" and "\<forall>a\<in>set xs. finder h a = 0" and "finder h x \<noteq> 0"
  shows "\<exists>p' h'. slist_remove finder h (Some p) = Some (Ret (finder h x, Some p', h'))
    \<and> chain h' p' (xs @ ys) \<and> relinked (set xs) h h'"
proof (cases xs)
  case Nil
  with assms show ?thesis by (auto simp: slist_remove_def Let_def)
next
  case (Cons a as)
  then have p: "p = a" "a \<noteq> 0" using assms(1) by auto
  obtain h' where "remove_loop finder h p = Some (Ret (finder h x, h'))" "chain h' p (xs @ ys)" "relinked {last xs} h h'"
    using remove_loop_result [OF assms(1), of finder] Cons assms(2,3) by auto
  moreover have "relinked (set xs) h h'" using calculation(3) Cons by (elim relinked_mono) auto
  ultimately show ?thesis using p Cons assms(2) by (auto simp: slist_remove_def Let_def)
qed

lemma slist_remove_without_match:
  "chain h p xs \<Longrightarrow> \<forall>a\<in>set xs. finder h a = 0 \<Longrightarrow> slist_remove finder h (Some p) = Some (Ret (0, Some p, h))"
proof (induction xs arbitrary: p)
  case (Cons x xs)
  then obtain i where i: "p = x" "x \<noteq> 0" "h x = Some i" "chain h (next_item i) xs" by auto
  have "remove_loop finder h p = Some (Ret (0, h))"
  proof (cases xs)
    case Nil
    with i show ?thesis by (subst remove_loop.simps) simp
  next
    case (Cons y ys)
    then have y: "next_item i = y" "y \<noteq> 0" "finder h y = 0" using i Cons.prems by auto
    then have "remove_loop finder h p = remove_loop finder h y" using i by (subst remove_loop.simps) (simp add: Let_def)
    moreover have "slist_remove finder h (Some y) = Some (Ret (0, Some y, h))"
      using Cons.IH [OF i(4)] Cons.prems(2) y by simp
    then have "remove_loop finder h y = Some (Ret (0, h))"
      using y by (cases "remove_loop finder h y"; cases "the (remove_loop finder h y)") (auto simp: slist_remove_def Let_def)
    ultimately show ?thesis by simp
  qed
  then show ?case using i Cons.prems(2) by (simp add: slist_remove_def Let_def)
qed (simp add: slist_remove_def)

section \<open>Properties\<close>

text \<open>
  C18: Sorting a list returns for every chain of items, however they lie in memory: with a comparison
  that orders items by a key, the result is the chain of the same items sorted by the key, those with
  equal keys in the order they had; what the items hold, and everything outside the list, is unchanged.
\<close>

theorem slist_sort_is_stable:
  fixes key :: "'a \<Rightarrow> 'k :: linorder"
  assumes "chain h p xs" and "\<forall>a b. compare a b \<le> 0 \<longleftrightarrow> key a \<le> key b"
  shows "\<exists>p' h'. slist_sort compare h p = Some (Ret (p', h'))
    \<and> chain h' p' (sort_key (\<lambda>x. key (the (user h x))) xs) \<and> relinked (set xs) h h'"
  using assms by (rule slist_sort_result)

definition sample_list :: "(int \<times> int) store" where
  "sample_list = [5 \<mapsto> \<lparr>next_item = 9, userdata = (2, 0)\<rparr>, 9 \<mapsto> \<lparr>next_item = 3, userdata = (1, 1)\<rparr>,
     3 \<mapsto> \<lparr>next_item = 7, userdata = (2, 2)\<rparr>, 7 \<mapsto> \<lparr>next_item = 0, userdata = (1, 3)\<rparr>]"

theorem slist_sort_is_stable_witness:
  "\<exists>p' h'. slist_sort (\<lambda>a b. fst a - fst b) sample_list 5 = Some (Ret (p', h')) \<and> chain h' p' [9, 7, 5, 3]"
proof -
  have c: "chain sample_list 5 [5, 9, 3, 7]" by (simp add: sample_list_def)
  have "sort_key (\<lambda>x. fst (the (user sample_list x))) [5, 9, 3, 7] = [9, 7, 5, 3]"
    by (simp add: sample_list_def user_def insort_key.simps)
  with slist_sort_is_stable [OF c, of "\<lambda>a b. fst a - fst b" fst] show ?thesis by auto
qed

end
