(* ===== verification/C_String.thy ===== *)
theory C_String
  imports Boundary
begin

text \<open>
  The replacements for functions of the C library that \<^verbatim>\<open>src/lib\<close> brings along for systems without
  them: \<^verbatim>\<open>strlcpy.c\<close>, \<^verbatim>\<open>strlcat.c\<close>, \<^verbatim>\<open>strspn.c\<close>, \<^verbatim>\<open>strcspn.c\<close>, \<^verbatim>\<open>strtok_r.c\<close>, \<^verbatim>\<open>basename.c\<close>,
  \<^verbatim>\<open>readline.c\<close>, \<^verbatim>\<open>waitpid.c\<close> and \<^verbatim>\<open>gettimeofday.c\<close>. A string is the memory from its first byte to the
  end of its object.
\<close>

section \<open>Copying and appending\<close>

text \<open>
  The first loop of \<open>strlcpy\<close>; \<open>d\<close> and \<open>s\<close> are the distances of the two pointers from the starts.
\<close>

fun strlcpy_loop :: "byte list \<Rightarrow> nat \<Rightarrow> byte list \<Rightarrow> nat \<Rightarrow> nat \<Rightarrow> (byte list \<times> nat \<times> nat \<times> nat) outcome" where
  "strlcpy_loop dst d src s 0 = Ret (dst, d, s, 0)"
| "strlcpy_loop dst d src s (Suc n) =
     (if n = 0 then Ret (dst, d, s, 0)
      else
        obind (peek src s) (\<lambda>c.
        obind (poke dst d c) (\<lambda>dst.
        if c = 0 then Ret (dst, d + 1, s + 1, n) else strlcpy_loop dst (d + 1) src (s + 1) n)))"

definition strlcpy :: "byte list \<Rightarrow> byte list \<Rightarrow> nat \<Rightarrow> (byte list \<times> nat) outcome" where
  "strlcpy dst src siz =
     obind (strlcpy_loop dst 0 src 0 siz) (\<lambda>(dst, d, s, n).
     if n = 0 then
       obind (if siz \<noteq> 0 then poke dst d 0 else Ret dst) (\<lambda>dst.
       obind (c_strlen (drop s src)) (\<lambda>k. Ret (dst, s + k + 1 - 1)))
     else Ret (dst, s - 1))"

fun strlcat_end :: "byte list \<Rightarrow> nat \<Rightarrow> nat \<Rightarrow> nat outcome" where
  "strlcat_end dst d 0 = Ret d"
| "strlcat_end dst d (Suc n) =
     obind (peek dst d) (\<lambda>c. if c \<noteq> 0 then strlcat_end dst (d + 1) n else Ret d)"

fun strlcat_copy :: "byte list \<Rightarrow> nat \<Rightarrow> byte list \<Rightarrow> nat \<Rightarrow> nat \<Rightarrow> (byte list \<times> nat) outcome" where
  "strlcat_copy dst d [] n count = Crash"
| "strlcat_copy dst d (c # cs) n count =
     (if c = 0 then obind (poke dst d 0) (\<lambda>dst. Ret (dst, count))
      else if n \<noteq> 1 then obind (poke dst d c) (\<lambda>dst. strlcat_copy dst (d + 1) cs (n - 1) (count + 1))
      else strlcat_copy dst d cs n (count + 1))"

definition strlcat :: "byte list \<Rightarrow> byte list \<Rightarrow> nat \<Rightarrow> (byte list \<times> nat) outcome" where
  "strlcat dst src siz =
     obind (strlcat_end dst 0 siz) (\<lambda>dlen.
     let n = siz - dlen
     in if n = 0 then obind (c_strlen src) (\<lambda>k. Ret (dst, dlen + k))
        else obind (strlcat_copy dst dlen src n 0) (\<lambda>(dst, count). Ret (dst, dlen + count)))"

section \<open>Spans and tokens\<close>

text \<open>\<^verbatim>\<open>strchr\<close> of the C library finds the null at the end of the string as well.\<close>

definition strchr_found :: "byte list \<Rightarrow> byte \<Rightarrow> bool outcome" where
  "strchr_found s c = obind (c_strlen s) (\<lambda>n. Ret (c \<in> set (take (n + 1) s)))"

fun strspn_loop :: "byte list \<Rightarrow> byte list \<Rightarrow> nat \<Rightarrow> nat outcome" where
  "strspn_loop [] accept count = Crash"
| "strspn_loop (c # string) accept count =
     obind (strchr_found accept c) (\<lambda>found.
     if found then strspn_loop string accept (count + 1) else Ret count)"

definition strspn :: "byte list \<Rightarrow> byte list \<Rightarrow> nat outcome" where
  "strspn string accept = strspn_loop string accept 0"

fun strcspn_loop :: "byte list \<Rightarrow> byte list \<Rightarrow> nat \<Rightarrow> nat outcome" where
  "strcspn_loop [] reject count = Crash"
| "strcspn_loop (c # string) reject count =
     obind (strchr_found reject c) (\<lambda>found.
     if \<not> found then strcspn_loop string reject (count + 1) else Ret count)"

definition strcspn :: "byte list \<Rightarrow> byte list \<Rightarrow> nat outcome" where
  "strcspn string reject = strcspn_loop string reject 0"

text \<open>\<^verbatim>\<open>strpbrk\<close> of the C library: the distance of the first byte that is in the set.\<close>

definition strpbrk :: "byte list \<Rightarrow> byte list \<Rightarrow> nat option outcome" where
  "strpbrk string accept =
     obind (c_strlen string) (\<lambda>n.
     obind (c_strlen accept) (\<lambda>k.
     let m = length (takeWhile (\<lambda>c. c \<notin> set (take k accept)) (take n string))
     in Ret (if m < n then Some m else None)))"

text \<open>
  Strings are positions in the memory \<open>m\<close>; \<open>s\<close> is \<open>None\<close> for a null pointer, and the result is the
  memory, the saved pointer and the token. \<open>span\<close> is the function \<^verbatim>\<open>strspn\<close> it is linked with.
\<close>

definition strtok_r ::
  "(byte list \<Rightarrow> byte list \<Rightarrow> nat outcome) \<Rightarrow> byte list \<Rightarrow> nat option \<Rightarrow> byte list \<Rightarrow> nat \<Rightarrow>
   (byte list \<times> nat \<times> nat option) outcome" where
  "strtok_r span m s delim save =
     (let s = (case s of None \<Rightarrow> save | Some p \<Rightarrow> p)
      in obind (span (drop s m) delim) (\<lambda>k.
         let s = s + k
         in obind (peek m s) (\<lambda>c.
            if c = 0 then Ret (m, s, None)
            else
              let token = s
              in obind (strpbrk (drop token m) delim) (\<lambda>found.
                 case found of
                   None \<Rightarrow> obind (c_strlen (drop token m)) (\<lambda>n. Ret (m, token + n, Some token))
                 | Some k \<Rightarrow> obind (poke m (token + k) 0) (\<lambda>m. Ret (m, token + k + 1, Some token))))))"

section \<open>Names, lines, processes and the time\<close>

text \<open>The distance of the last part of a path from its start.\<close>

definition basename :: "byte list \<Rightarrow> nat outcome" where
  "basename fpath =
     obind (c_strlen fpath) (\<lambda>n.
     Ret (let after = length (takeWhile (\<lambda>c. c \<noteq> 47) (rev (take n fpath))) in n - after))"

text \<open>
  \<open>lim\<close> is the size of the buffer, which is doubled when it is full; the input is what \<^verbatim>\<open>getc\<close>
  answers before the end of the file. The result is the buffer, or \<open>None\<close> for the empty line, and
  what is left of the input.
\<close>

fun readline_loop :: "byte list \<Rightarrow> nat \<Rightarrow> nat \<Rightarrow> byte list \<Rightarrow> (byte list \<times> nat \<times> byte list) outcome" where
  "readline_loop buf lim i [] = Ret (buf, i, [])"
| "readline_loop buf lim i (c # input) =
     (if c = 10 then Ret (buf, i, input)
      else
        let (buf, lim) = (if i = lim then (take (lim * 2) buf @ replicate (lim * 2 - length buf) 0, lim * 2)
                          else (buf, lim))
        in obind (poke buf i c) (\<lambda>buf. readline_loop buf lim (i + 1) input))"

definition readline :: "nat \<Rightarrow> byte list \<Rightarrow> (byte list option \<times> byte list) outcome" where
  "readline lim input =
     obind (readline_loop (replicate lim 0) lim 0 input) (\<lambda>(buf, i, rest).
     obind (poke buf i 0) (\<lambda>buf.
     obind (peek buf 0) (\<lambda>c. Ret (if c \<noteq> 0 then Some buf else None, rest))))"

text \<open>The children \<^verbatim>\<open>wait\<close> reports, with their states; the options are not looked at.\<close>

fun waitpid :: "int \<Rightarrow> (int \<times> int) list \<Rightarrow> int \<Rightarrow> (int \<times> int) option" where
  "waitpid pid [] options = None"
| "waitpid pid ((result, state) # reports) options =
     (if result \<ge> 0 \<and> result \<noteq> pid then waitpid pid reports options else Some (result, state))"

definition epoch :: "64 word" where
  "epoch = 116444736000000000"

definition gettimeofday :: "64 word \<Rightarrow> 16 word \<Rightarrow> int \<times> int" where
  "gettimeofday QuadPart wMilliseconds =
     (sint (ucast ((QuadPart - epoch) div 10000000) :: 32 word), sint (ucast wMilliseconds * 1000 :: 32 word))"

section \<open>Copying is truncating\<close>

lemma strlcpy_loop_result:
  assumes "0 \<notin> set str" and "s \<le> length str" and "d + Suc n \<le> length dst"
  shows "strlcpy_loop dst d (str @ 0 # rest) s (Suc n) =
    (let r = drop s str
     in if length r < n then Ret (overlay dst d (r @ [0]), d + length r + 1, s + length r + 1, n - length r)
        else Ret (overlay dst d (take n r), d + n, s + n, 0))"
  using assms(2,3)
proof (induction n arbitrary: dst d s)
  case (Suc n)
  show ?case
  proof (cases "s = length str")
    case True
    then show ?thesis using Suc.prems by (simp add: mem_simps Let_def overlay_def upd_conv_take_nth_drop)
  next
    case False
    then have s: "s < length str" using Suc.prems(1) by simp
    then have c: "(str @ 0 # rest) ! s = str ! s" "str ! s \<noteq> 0"
      using assms(1) by (auto simp: nth_append in_set_conv_nth)
    have r: "drop s str = str ! s # drop (Suc s) str" using s by (simp add: Cons_nth_drop_Suc)
    have len: "length (drop s str) = Suc (length str - Suc s)" using s by simp
    have "strlcpy_loop dst d (str @ 0 # rest) s (Suc (Suc n)) =
        strlcpy_loop (dst[d := str ! s]) (d + 1) (str @ 0 # rest) (s + 1) (Suc n)"
      using c s Suc.prems(2) by (simp add: mem_simps)
    also have "\<dots> = (let r = drop (s + 1) str
       in if length r < n then Ret (overlay (dst[d := str ! s]) (d + 1) (r @ [0]), d + 1 + length r + 1, s + 1 + length r + 1, n - length r)
          else Ret (overlay (dst[d := str ! s]) (d + 1) (take n r), d + 1 + n, s + 1 + n, 0))"
      using s Suc.prems(2) by (intro Suc.IH) simp_all
    also have "\<dots> = (let r = drop s str
       in if length r < Suc n then Ret (overlay dst d (r @ [0]), d + length r + 1, s + length r + 1, Suc n - length r)
          else Ret (overlay dst d (take (Suc n) r), d + Suc n, s + Suc n, 0))"
      using Suc.prems(2) s by (auto simp: Let_def r overlay_Cons)
    finally show ?thesis .
  qed
qed (simp add: Let_def)

lemma strlcpy_result:
  assumes "0 \<notin> set str" and "siz \<le> length dst"
  shows "strlcpy dst (str @ 0 # rest) siz =
    Ret (if siz = 0 then dst else overlay dst 0 (take (siz - 1) str @ [0]), length str)"
proof (cases siz)
  case 0
  then show ?thesis using assms(1) by (simp add: strlcpy_def)
next
  case (Suc n)
  show ?thesis
  proof (cases "length str < n")
    case True
    then show ?thesis using strlcpy_loop_result [OF assms(1), of 0 0 n dst rest] assms(2) Suc
      by (simp add: strlcpy_def Let_def)
  next
    case False
    have "(overlay dst 0 (take n str))[n := 0] = overlay dst 0 (take n str @ [0])"
      using False assms(2) Suc by (intro nth_equalityI) (auto simp: nth_overlay nth_list_update nth_append)
    moreover have "drop n (str @ 0 # rest) = drop n str @ 0 # rest" using False by simp
    moreover have "0 \<notin> set (drop n str)" using assms(1) by (meson in_set_dropD)
    ultimately show ?thesis using strlcpy_loop_result [OF assms(1), of 0 0 n dst rest] assms(2) Suc False
      by (simp add: strlcpy_def Let_def mem_simps)
  qed
qed

lemma strlcat_end_result:
  assumes "0 \<notin> set old" and "d + n \<le> length (old @ 0 # junk)" and "d \<le> length old"
  shows "strlcat_end (old @ 0 # junk) d n = Ret (min (length old) (d + n))"
  using assms(2,3)
proof (induction n arbitrary: d)
  case (Suc n)
  show ?case
  proof (cases "d = length old")
    case True
    then show ?thesis by (simp add: mem_simps)
  next
    case False
    with Suc.prems(2) have "d < length old" by simp
    with assms(1) have "(old @ 0 # junk) ! d \<noteq> 0" by (auto simp: nth_append in_set_conv_nth)
    with \<open>d < length old\<close> Suc show ?thesis by (simp add: mem_simps)
  qed
qed simp

lemma strlcat_copy_result:
  assumes "0 \<notin> set str" and "0 < n" and "d + n \<le> length dst"
  shows "strlcat_copy dst d (str @ 0 # rest) n count =
    Ret (overlay dst d (take (n - 1) str @ [0]), count + length str)"
  using assms
proof (induction str arbitrary: dst d n count)
  case Nil
  then show ?case by (simp add: mem_simps overlay_def upd_conv_take_nth_drop)
next
  case (Cons c str)
  show ?case
  proof (cases "n = 1")
    case True
    with Cons.IH [of 1 d dst "count + 1"] Cons.prems show ?thesis by simp
  next
    case False
    obtain m where m: "n = Suc (Suc m)" using Cons.prems(2) False by (metis Suc_pred One_nat_def not_gr0 diff_Suc_1)
    with Cons.IH [of "Suc m" "d + 1" "dst[d := c]" "count + 1"] Cons.prems
    show ?thesis by (auto simp: mem_simps overlay_Cons min_def)
  qed
qed

lemma strlcat_result:
  assumes "0 \<notin> set old" and "0 \<notin> set str" and "siz \<le> length (old @ 0 # junk)"
  shows "strlcat (old @ 0 # junk) (str @ 0 # rest) siz =
    (if siz \<le> length old then Ret (old @ 0 # junk, siz + length str)
     else Ret (overlay (old @ 0 # junk) (length old) (take (siz - length old - 1) str @ [0]), length old + length str))"
  using strlcat_end_result [OF assms(1), of 0 siz junk] strlcat_copy_result [OF assms(2), of "siz - length old" "length old"] assms
  by (auto simp: strlcat_def Let_def min_def)

text \<open>
  Copying one string into a buffer of a given size and appending a second one leaves the
  concatenation of both there, cut to the size less one and null-terminated, and the lengths returned
  tell whether it has been cut: the first call returns the length of its string, the second one the
  length of the whole, or what \<^verbatim>\<open>strlcat\<close> promises if the first string has been cut already.
\<close>
theorem copy_then_append_concatenates:
  assumes "0 \<notin> set a" and "0 \<notin> set b" and "0 < siz" and "siz \<le> length dst"
  shows "obind (strlcpy dst (a @ 0 # rest) siz) (\<lambda>(dst, na).
      obind (strlcat dst (b @ 0 # rest') siz) (\<lambda>(dst, nb). Ret (dst, na, nb)))
    = Ret (overlay dst 0 (take (siz - 1) (a @ b) @ [0]), length a, min (length a) (siz - 1) + length b)"
proof -
  let ?a = "take (siz - 1) a"
  have "overlay dst 0 (?a @ [0]) = ?a @ 0 # drop (Suc (length ?a)) dst" by (simp add: overlay_def)
  moreover have "0 \<notin> set ?a" using assms(1) by (meson in_set_takeD)
  moreover have "siz \<le> length (?a @ 0 # drop (Suc (length ?a)) dst)" using assms(3,4) by auto
  moreover have "overlay (?a @ 0 # drop (Suc (length ?a)) dst) (length ?a) (take (siz - length ?a - 1) b @ [0])
      = overlay dst 0 (take (siz - 1) (a @ b) @ [0])"
    using assms(3,4) by (auto simp: overlay_def min_def add.commute)
  ultimately show ?thesis
    using strlcpy_result [OF assms(1,4), of rest] strlcat_result [of ?a b siz "drop (Suc (length ?a)) dst" rest'] assms(2,3)
    by (auto simp: min_def)
qed

theorem copy_then_append_concatenates_witness:
  "obind (strlcpy (replicate 6 9) ([1, 2, 3] @ 0 # []) 5) (\<lambda>(dst, na).
      obind (strlcat dst ([4, 5] @ 0 # []) 5) (\<lambda>(dst, nb). Ret (dst, na, nb)))
    = Ret (overlay (replicate 6 9) 0 (take (5 - 1) ([1, 2, 3] @ [4, 5]) @ [0]), length [1, 2, 3 :: byte],
        min (length [1, 2, 3 :: byte]) (5 - 1) + length [4, 5 :: byte])"
  by (rule copy_then_append_concatenates) simp_all

section \<open>Spans\<close>

lemma strchr_found_result [simp]:
  "0 \<notin> set A \<Longrightarrow> strchr_found (A @ 0 # r) c = Ret (c = 0 \<or> c \<in> set A)"
  by (auto simp: strchr_found_def)

lemma strspn_loop_result:
  assumes "0 \<notin> set A"
  shows "strspn_loop m (A @ 0 # r) count =
    (if \<exists>c\<in>set m. c \<noteq> 0 \<and> c \<notin> set A then Ret (count + length (takeWhile (\<lambda>c. c = 0 \<or> c \<in> set A) m)) else Crash)"
  using assms by (induction m arbitrary: count) auto

text \<open>
  The replacement for \<^verbatim>\<open>strspn\<close> counts the null among the bytes it accepts, because \<^verbatim>\<open>strchr\<close>
  finds it at the end of the set: it stops only at a byte that is neither null nor in the set, and
  where there is none it reads behind the object. So the span of a string that consists of accepted
  bytes is never its length.
\<close>
theorem strspn_reads_past_the_null:
  assumes "0 \<notin> set A"
  shows "strspn m (A @ 0 # r) =
    (if \<exists>c\<in>set m. c \<noteq> 0 \<and> c \<notin> set A then Ret (length (takeWhile (\<lambda>c. c = 0 \<or> c \<in> set A) m)) else Crash)"
  using strspn_loop_result [OF assms] by (simp add: strspn_def)

theorem strspn_reads_past_the_null_witness:
  "strspn [32, 32, 0] ([32] @ 0 # []) =
    (if \<exists>c\<in>set [32, 32, 0 :: byte]. c \<noteq> 0 \<and> c \<notin> set [32]
     then Ret (length (takeWhile (\<lambda>c. c = 0 \<or> c \<in> set [32]) [32, 32, 0 :: byte])) else Crash)"
  by (rule strspn_reads_past_the_null) simp

lemma strspn_stops_inside:
  assumes "0 \<notin> set A" and "0 \<notin> set s" and "\<not> set s \<subseteq> set A"
  shows "strspn (s @ 0 # rest) (A @ 0 # r) = Ret (length (takeWhile (\<lambda>c. c \<in> set A) s))"
proof -
  have "takeWhile (\<lambda>c. c = 0 \<or> c \<in> set A) (s @ 0 # rest) = takeWhile (\<lambda>c. c \<in> set A) s"
    using assms(2,3) by (induction s) auto
  moreover from assms(3) obtain c where "c \<in> set s" "c \<notin> set A" by blast
  then have "\<exists>c\<in>set (s @ 0 # rest). c \<noteq> 0 \<and> c \<notin> set A" using assms(2) by (intro bexI [of _ c]) auto
  ultimately show ?thesis using strspn_loop_result [OF assms(1), of "s @ 0 # rest" r 0]
    by (simp add: strspn_def)
qed

lemma strcspn_result:
  assumes "0 \<notin> set R" and "0 \<notin> set s"
  shows "strcspn (s @ 0 # rest) (R @ 0 # r) = Ret (length (takeWhile (\<lambda>c. c \<notin> set R) s))"
proof -
  have "strcspn_loop (s @ 0 # rest) (R @ 0 # r) count = Ret (count + length (takeWhile (\<lambda>c. c \<notin> set R) s))" for count
    using assms by (induction s arbitrary: count) auto
  then show ?thesis by (simp add: strcspn_def)
qed

section \<open>Tokens\<close>

text \<open>What \<open>strtok_r\<close> needs of the function it calls, and that of the C library.\<close>

locale span_function =
  fixes span :: "byte list \<Rightarrow> byte list \<Rightarrow> nat outcome"
  assumes span: "0 \<notin> set s \<Longrightarrow> 0 \<notin> set A \<Longrightarrow>
    span (s @ 0 # rest) (A @ 0 # r) = Ret (length (takeWhile (\<lambda>c. c \<in> set A) s))"
begin

lemma strtok_r_result:
  assumes "0 \<notin> set s" and "0 \<notin> set A"
  defines "lead \<equiv> takeWhile (\<lambda>c. c \<in> set A) s" and "tok \<equiv> takeWhile (\<lambda>c. c \<notin> set A) (dropWhile (\<lambda>c. c \<in> set A) s)"
  shows "strtok_r span (pre @ s @ 0 # rest) (Some (length pre)) (A @ 0 # r) save =
    (if tok = [] then Ret (pre @ s @ 0 # rest, length pre + length s, None)
     else if s = lead @ tok then Ret (pre @ s @ 0 # rest, length pre + length s, Some (length pre + length lead))
     else Ret (pre @ lead @ tok @ 0 # drop (Suc (length lead + length tok)) s @ 0 # rest,
       length pre + length lead + length tok + 1, Some (length pre + length lead)))"
proof -
  let ?r = "dropWhile (\<lambda>c. c \<in> set A) s"
  have s: "s = lead @ ?r" by (simp add: lead_def)
  have r0: "0 \<notin> set ?r" using assms(1) set_dropWhileD by fast
  have lead: "span (drop (length pre) (pre @ s @ 0 # rest)) (A @ 0 # r) = Ret (length lead)"
    using span [OF assms(1,2)] by (simp add: lead_def)
  have at: "drop (length pre + length lead) (pre @ s @ 0 # rest) = ?r @ 0 # rest"
  proof -
    have "drop (length lead) s = ?r" using s by (metis append_eq_conv_conj)
    moreover have "length lead \<le> length s" by (simp add: lead_def length_takeWhile_le)
    ultimately show ?thesis by simp
  qed
  show ?thesis
  proof (cases ?r)
    case Nil
    then have "lead = s" using s unfolding Nil by simp
    then have "(pre @ s @ 0 # rest) ! (length pre + length lead) = 0" "length lead = length s"
      by (simp_all add: nth_append)
    moreover have "tok = []" unfolding tok_def Nil by simp
    ultimately show ?thesis using lead by (simp add: strtok_r_def Let_def mem_simps)
  next
    case (Cons c cs)
    then have c: "c \<notin> set A" by (metis (full_types) hd_dropWhile list.sel(1) list.distinct(1))
    then have tok: "tok \<noteq> []" unfolding tok_def Cons by simp
    have "(pre @ s @ 0 # rest) ! (length pre + length lead) = c"
      using at Cons by (metis append_Cons hd_drop_conv_nth length_append length_drop list.sel(1) length_greater_0_conv list.distinct(1) zero_less_diff)
    moreover have "c \<noteq> 0" using r0 Cons by auto
    moreover have in_m: "length pre + length lead < length (pre @ s @ 0 # rest)"
      by (subst s) simp
    moreover have "strpbrk (?r @ 0 # rest) (A @ 0 # r) = Ret (if length tok < length ?r then Some (length tok) else None)"
      using r0 assms(2) by (simp add: strpbrk_def Let_def tok_def)
    ultimately have run: "strtok_r span (pre @ s @ 0 # rest) (Some (length pre)) (A @ 0 # r) save =
        (if length tok < length ?r
         then obind (poke (pre @ s @ 0 # rest) (length pre + length lead + length tok) 0) (\<lambda>m.
           Ret (m, length pre + length lead + length tok + 1, Some (length pre + length lead)))
         else Ret (pre @ s @ 0 # rest, length pre + length lead + length ?r, Some (length pre + length lead)))"
      using lead at r0 by (simp add: strtok_r_def Let_def mem_simps del: drop_append)
    show ?thesis
    proof (cases "length tok < length ?r")
      case True
      obtain d ds where d: "?r = tok @ d # ds"
        using True takeWhile_dropWhile_id [of "\<lambda>c. c \<notin> set A" ?r] unfolding tok_def
        by (metis append_Nil2 less_irrefl neq_Nil_conv)
      then have "s = lead @ tok @ d # ds" using s by simp
      then show ?thesis using True tok run by (auto simp: mem_simps list_update_append)
    next
      case False
      have "tok = ?r" using False unfolding tok_def
        by (metis append_Nil2 length_append length_greater_0_conv less_add_same_cancel1 takeWhile_dropWhile_id)
      then have st: "s = lead @ tok" using s by metis
      then have "length lead + length ?r = length s" using \<open>tok = ?r\<close> by (metis length_append)
      then show ?thesis unfolding run if_not_P [OF False] if_not_P [OF tok] if_P [OF st] by (simp add: add.assoc)
    qed
  qed
qed

end

text \<open>The tokens of a text, and the loop that fetches them, each as the bytes up to its null.\<close>

function tokens :: "byte set \<Rightarrow> byte list \<Rightarrow> byte list list" where
  "tokens A s =
     (case dropWhile (\<lambda>c. c \<in> A) s of
        [] \<Rightarrow> []
      | c # cs \<Rightarrow> (c # takeWhile (\<lambda>c. c \<notin> A) cs) # tokens A (dropWhile (\<lambda>c. c \<notin> A) cs))"
  by pat_completeness auto
termination
proof (relation "measure (length \<circ> snd)", simp, clarsimp)
  fix A :: "byte set" and s c cs
  assume "dropWhile (\<lambda>c. c \<in> A) s = c # cs"
  then have "length (c # cs) \<le> length s" by (metis length_dropWhile_le)
  then show "length (dropWhile (\<lambda>c. c \<notin> A) cs) < length s" using length_dropWhile_le [of "\<lambda>c. c \<notin> A" cs] by simp
qed

declare tokens.simps [simp del]

partial_function (option) strtok_all ::
  "(byte list \<Rightarrow> byte list \<Rightarrow> nat outcome) \<Rightarrow> byte list \<Rightarrow> nat option \<Rightarrow> byte list \<Rightarrow> nat \<Rightarrow>
   byte list list outcome option" where
  "strtok_all span m s delim save =
     rbind (Some (strtok_r span m s delim save)) (\<lambda>(m, save, token).
     if token = None then Some (Ret [])
     else rbind (Some (c_strlen (drop (the token) m))) (\<lambda>n.
       rbind (strtok_all span m None delim save) (\<lambda>ts. Some (Ret (take n (drop (the token) m) # ts)))))"

context span_function begin

lemma strtok_r_null: "strtok_r span m None delim save = strtok_r span m (Some save) delim save'"
  by (simp add: strtok_r_def)

lemma strtok_all_result:
  assumes "0 \<notin> set s" and "0 \<notin> set A"
  shows "strtok_all span (pre @ s @ 0 # rest) (Some (length pre)) (A @ 0 # r) save =
    Some (Ret (tokens (set A) s))"
  using assms(1)
proof (induction "length s" arbitrary: s pre save rest rule: less_induct)
  case less
  let ?lead = "takeWhile (\<lambda>c. c \<in> set A) s" and ?r = "dropWhile (\<lambda>c. c \<in> set A) s"
  let ?tok = "takeWhile (\<lambda>c. c \<notin> set A) ?r"
  note step = strtok_r_result [OF less.prems assms(2), of pre rest r save]
  show ?case
  proof (cases ?r)
    case Nil
    have "tokens (set A) s = []" by (subst tokens.simps) (simp only: Nil list.case)
    moreover have "?tok = []" unfolding Nil by simp
    ultimately show ?thesis unfolding strtok_all.simps [of span "pre @ s @ 0 # rest"] step by simp
  next
    case (Cons c cs)
    then have c: "c \<notin> set A" by (metis (full_types) hd_dropWhile list.sel(1) list.distinct(1))
    then have tok: "?tok = c # takeWhile (\<lambda>c. c \<notin> set A) cs" using Cons by simp
    have s: "s = ?lead @ ?r" by simp
    have sets: "0 \<notin> set ?tok" "0 \<notin> set cs"
      using less.prems Cons by (metis set_dropWhileD set_takeWhileD list.set_intros(2))+
    let ?rest = "dropWhile (\<lambda>c. c \<notin> set A) cs"
    have all: "tokens (set A) s = ?tok # tokens (set A) ?rest"
      using Cons tok by (subst tokens.simps) simp
    have split: "?r = ?tok @ ?rest" using Cons c by simp
    show ?thesis
    proof (cases ?rest)
      case Nil
      then have "?r = ?tok" using split by (simp only: append_Nil2)
      then have "s = ?lead @ ?tok" using s by metis
      then have run: "strtok_r span (pre @ s @ 0 # rest) (Some (length pre)) (A @ 0 # r) save =
          Ret (pre @ s @ 0 # rest, length pre + length s, Some (length pre + length ?lead))"
        using step tok by simp
      have "strtok_r span (pre @ s @ 0 # rest) (Some (length (pre @ s))) (A @ 0 # r) (length pre + length s) =
          Ret (pre @ s @ 0 # rest, length pre + length s, None)"
        using strtok_r_result [OF _ assms(2), of "[]" "pre @ s" rest r] by simp
      then have "strtok_all span (pre @ s @ 0 # rest) None (A @ 0 # r) (length pre + length s) = Some (Ret [])"
        by (subst strtok_all.simps, subst strtok_r_null [of _ _ _ "length pre + length s"]) simp
      moreover have "drop (length pre + length ?lead) (pre @ s @ 0 # rest) = ?tok @ 0 # rest"
        using \<open>s = ?lead @ ?tok\<close> by (metis append.assoc append_eq_conv_conj length_append)
      ultimately show ?thesis using run sets(1) all Nil
        by (subst strtok_all.simps) (simp add: tokens.simps)
    next
      case (Cons d ds)
      have s': "s = ?lead @ ?tok @ d # ds" using split s Cons by simp
      let ?m = "(pre @ ?lead @ ?tok @ [0]) @ ds @ 0 # rest"
      define L T where LT: "L = ?lead" "T = ?tok"
      have sLT: "s = L @ T @ d # ds" using s' unfolding LT .
      have "drop (Suc (length L + length T)) s = ds" "s \<noteq> L @ T" unfolding sLT by simp_all
      then have "drop (Suc (length ?lead + length ?tok)) s = ds" "s \<noteq> ?lead @ ?tok" unfolding LT by simp_all
      then have run: "strtok_r span (pre @ s @ 0 # rest) (Some (length pre)) (A @ 0 # r) save =
          Ret (?m, length (pre @ ?lead @ ?tok @ [0]), Some (length pre + length ?lead))"
        using step tok by simp
      have "0 \<notin> set ds" using sets(2) Cons by (metis set_dropWhileD list.set_intros(2))
      moreover have "length ds < length s" unfolding sLT by simp
      ultimately have "strtok_all span ?m (Some (length (pre @ ?lead @ ?tok @ [0]))) (A @ 0 # r)
          (length (pre @ ?lead @ ?tok @ [0])) = Some (Ret (tokens (set A) ds))"
        by (intro less.hyps) simp_all
      then have "strtok_all span ?m None (A @ 0 # r) (length (pre @ ?lead @ ?tok @ [0])) = Some (Ret (tokens (set A) ds))"
        by (subst strtok_all.simps, subst strtok_r_null [of _ _ _ "length (pre @ ?lead @ ?tok @ [0])"],
            subst (asm) strtok_all.simps)
      moreover have "drop (length pre + length ?lead) ?m = ?tok @ 0 # ds @ 0 # rest" by simp
      then have "c_strlen (drop (length pre + length ?lead) ?m) = Ret (length ?tok)"
        "take (length ?tok) (drop (length pre + length ?lead) ?m) = ?tok"
        using sets(1) by simp_all
      moreover have "tokens (set A) ?rest = tokens (set A) ds"
      proof -
        have "d \<in> set A" using Cons by (metis (full_types) hd_dropWhile list.sel(1) list.distinct(1))
        then show ?thesis unfolding Cons by (subst (1 2) tokens.simps) simp
      qed
      ultimately show ?thesis
        unfolding strtok_all.simps [of span "pre @ s @ 0 # rest"] run
        by (simp only: rbind_simps prod.case option.simps if_False option.sel all)
    qed
  qed
qed

end

text \<open>\<^verbatim>\<open>strspn\<close> of the C library.\<close>

definition c_strspn :: "byte list \<Rightarrow> byte list \<Rightarrow> nat outcome" where
  "c_strspn string accept =
     obind (c_strlen string) (\<lambda>n.
     obind (c_strlen accept) (\<lambda>k. Ret (length (takeWhile (\<lambda>c. c \<in> set (take k accept)) (take n string)))))"

interpretation c_span: span_function c_strspn
  by unfold_locales (simp add: c_strspn_def)

text \<open>
  C24: \<^verbatim>\<open>strtok_r\<close>, called with the text and then with null pointers, delivers the tokens of the text
  in order, the longest runs without a delimiter, and then a null pointer. It is linked with the
  \<^verbatim>\<open>strspn\<close> of the C library.
\<close>
theorem strtok_r_delivers_tokens:
  assumes "0 \<notin> set s" and "0 \<notin> set A"
  shows "strtok_all c_strspn (s @ 0 # rest) (Some 0) (A @ 0 # r) save = Some (Ret (tokens (set A) s))"
  using c_span.strtok_all_result [OF assms, of "[]"] by simp

theorem strtok_r_delivers_tokens_witness:
  "strtok_all c_strspn ([47, 97, 47, 98] @ 0 # []) (Some 0) ([47] @ 0 # []) 0 =
    Some (Ret (tokens (set [47]) [47, 97, 47, 98]))"
  by (rule strtok_r_delivers_tokens) simp_all

text \<open>Linked with the replacement instead, it reads behind a text that ends with a delimiter.\<close>

lemma strtok_r_overruns:
  assumes "0 \<notin> set s" and "0 \<notin> set A" and "set s \<subseteq> set A"
  shows "strtok_r strspn (s @ [0]) (Some 0) (A @ 0 # r) save = Crash"
  using assms strspn_loop_result [OF assms(2), of "s @ [0]" r 0]
  by (auto simp: strtok_r_def strspn_def)

section \<open>Lines\<close>

lemma readline_loop_result:
  assumes "length buf = lim" and "i \<le> lim" and "0 < lim" and "take i buf = done"
    and "lim = lim0 * 2 ^ k" and "k = 0 \<or> lim0 * 2 ^ (k - 1) < i"
  shows "\<exists>buf' k'. readline_loop buf lim i input =
      Ret (buf', i + length (takeWhile (\<lambda>c. c \<noteq> 10) input), drop (length (takeWhile (\<lambda>c. c \<noteq> 10) input) + 1) input)
    \<and> length buf' = lim0 * 2 ^ k' \<and> i + length (takeWhile (\<lambda>c. c \<noteq> 10) input) \<le> lim0 * 2 ^ k'
    \<and> (k' = 0 \<or> lim0 * 2 ^ (k' - 1) < i + length (takeWhile (\<lambda>c. c \<noteq> 10) input))
    \<and> take (i + length (takeWhile (\<lambda>c. c \<noteq> 10) input)) buf' = done @ takeWhile (\<lambda>c. c \<noteq> 10) input"
  using assms
proof (induction input arbitrary: buf lim i "done" k)
  case Nil
  then show ?case by (auto intro!: exI [of _ k])
next
  case (Cons c input)
  show ?case
  proof (cases "c = 10")
    case True
    then show ?thesis using Cons.prems by (auto intro!: exI [of _ k])
  next
    case newline: False
    define buf1 lim1 k1 where "buf1 = (if i = lim then take (lim * 2) buf @ replicate (lim * 2 - length buf) 0 else buf)"
      and "lim1 = (if i = lim then lim * 2 else lim)" and "k1 = (if i = lim then k + 1 else k)"
    have step: "readline_loop buf lim i (c # input) = readline_loop (buf1[i := c]) lim1 (i + 1) input"
      using newline Cons.prems by (auto simp: buf1_def lim1_def Let_def mem_simps)
    have "length (buf1[i := c]) = lim1" "i + 1 \<le> lim1" "0 < lim1" "lim1 = lim0 * 2 ^ k1"
      "k1 = 0 \<or> lim0 * 2 ^ (k1 - 1) < i + 1" "take (i + 1) (buf1[i := c]) = done @ [c]"
      using Cons.prems by (auto simp: buf1_def lim1_def k1_def take_Suc_conv_app_nth min_def)
    from Cons.IH [OF this(1-3,6,4,5)] newline show ?thesis
      unfolding step by (simp add: add.assoc)
  qed
qed

text \<open>
  \<^verbatim>\<open>readline\<close> reads a line into a buffer that grows, but has no room for the null when the line
  fills the buffer: it writes behind it exactly when the length of the line is the initial size or
  that size doubled a number of times. Otherwise the line is delivered with its null, and the rest of
  the input is left; a line that is empty or starts with a null byte gives a null pointer.
\<close>
theorem readline_overruns_iff_buffer_full:
  assumes "0 < lim" and "line = takeWhile (\<lambda>c. c \<noteq> 10) input"
  shows "if \<exists>k. length line = lim * 2 ^ k then readline lim input = Crash
    else \<exists>buf. readline lim input = Ret (if line = [] \<or> hd line = 0 then None else Some buf, drop (length line + 1) input)
      \<and> take (length line + 1) buf = line @ [0]"
proof -
  obtain buf k where buf: "readline_loop (replicate lim 0) lim 0 input = Ret (buf, length line, drop (length line + 1) input)"
    "length buf = lim * 2 ^ k" "length line \<le> lim * 2 ^ k" "k = 0 \<or> lim * 2 ^ (k - 1) < length line"
    "take (length line) buf = line"
    using readline_loop_result [of "replicate lim 0" lim 0 "[]" lim 0 input] assms by auto
  show ?thesis
  proof (cases "length line = lim * 2 ^ k")
    case True
    then have "readline lim input = Crash" using buf(1,2) by (simp add: readline_def mem_simps)
    with True show ?thesis by auto
  next
    case False
    then have less: "length line < lim * 2 ^ k" using buf(3) by simp
    have "length line \<noteq> lim * 2 ^ j" for j
    proof
      assume j: "length line = lim * 2 ^ j"
      with less assms(1) have "j < k" by simp
      then have "j \<le> k - 1" by linarith
      then have "lim * 2 ^ j \<le> lim * 2 ^ (k - 1)" by simp
      with j buf(4) \<open>j < k\<close> show False by auto
    qed
    moreover have "take (length line + 1) (buf[length line := 0]) = line @ [0]"
      using less buf(2,5) by (simp add: take_Suc_conv_app_nth)
    moreover have "buf[length line := 0] ! 0 = (if line = [] then 0 else hd line)"
      using less buf(2,5) by (metis hd_conv_nth length_greater_0_conv list.size(3) nth_list_update_eq nth_list_update_neq nth_take)
    moreover have "0 < length buf" using less buf(2) assms(1) by simp
    then have "readline lim input = Ret (if buf[length line := 0] ! 0 \<noteq> 0 then Some (buf[length line := 0]) else None,
        drop (length line + 1) input)"
      using less buf(1,2) by (simp add: readline_def mem_simps)
    ultimately show ?thesis by auto
  qed
qed

theorem readline_overruns_iff_buffer_full_witness:
  "if \<exists>k. length ([1, 2] :: byte list) = 2 * 2 ^ k then readline 2 [1, 2, 10, 3] = Crash
    else \<exists>buf. readline 2 [1, 2, 10, 3] = Ret (if [1, 2 :: byte] = [] \<or> hd [1, 2 :: byte] = 0 then None else Some buf,
        drop (length ([1, 2] :: byte list) + 1) [1, 2, 10, 3])
      \<and> take (length ([1, 2] :: byte list) + 1) buf = [1, 2] @ [0]"
  by (rule readline_overruns_iff_buffer_full) simp_all

end
