(* ===== verification/Argz.thy ===== *)
theory Argz
  imports C_String
begin

text \<open>
  The vectors of strings of \<^verbatim>\<open>src/lib/libltdl/argz.c\<close>: a block of memory with the strings one after
  the other, each with its null, and its length. A vector is the block, \<open>None\<close> for a null pointer, and
  the length, which may be shorter than the block; positions in it are offsets. \<open>av\<close> says which requests
  for memory are met, \<open>junk\<close> what a new cell holds.
\<close>

type_synonym argz = "byte list option \<times> nat"

definition ENOMEM :: nat where
  "ENOMEM = 12"

text \<open>What every function asserts of a vector.\<close>

definition argz_matched :: "argz \<Rightarrow> bool" where
  "argz_matched v \<longleftrightarrow> (fst v \<noteq> None \<and> snd v \<noteq> 0) \<or> (fst v = None \<and> snd v = 0)"

text \<open>\<^verbatim>\<open>realloc\<close> keeps what fits.\<close>

definition resized :: "(nat \<Rightarrow> byte) \<Rightarrow> byte list option \<Rightarrow> nat \<Rightarrow> byte list" where
  "resized junk block n = (let old = (case block of None \<Rightarrow> [] | Some m \<Rightarrow> m) in take n old @ map junk [length old..<n])"

section \<open>Operations\<close>

text \<open>The result of an operation on a vector: an error number, and the vector afterwards.\<close>

definition argz_append ::
  "(nat \<Rightarrow> bool) \<Rightarrow> (nat \<Rightarrow> byte) \<Rightarrow> argz \<Rightarrow> byte list \<Rightarrow> nat \<Rightarrow> (nat \<times> argz) outcome" where
  "argz_append av junk v buf buf_len =
     c_assert (argz_matched v)
       (if buf_len = 0 then Ret (0, v)
        else
          let argz_len = size_add (snd v) buf_len
          in if \<not> av argz_len then Ret (ENOMEM, v)
             else if length buf < buf_len then Crash
             else
               obind (write_block (resized junk (fst v) argz_len) (snd v) (take buf_len buf)) (\<lambda>argz.
               Ret (0, (Some argz, argz_len))))"

text \<open>The loop over the text; \<open>q\<close> is the distance of the pointer into the copy from its start.\<close>

fun create_loop :: "int \<Rightarrow> byte list \<Rightarrow> byte list \<Rightarrow> nat \<Rightarrow> nat \<Rightarrow> (byte list \<times> nat \<times> nat) outcome" where
  "create_loop delim [] argz q argz_len = Crash"
| "create_loop delim (c # str) argz q argz_len =
     (if c = 0 then Ret (argz, q, argz_len)
      else if sint c = delim then
        obind (if q > 0 then obind (peek argz (q - 1)) (\<lambda>b. Ret (b \<noteq> 0)) else Ret False) (\<lambda>after_char.
        if after_char then
          obind (poke argz q 0) (\<lambda>argz. create_loop delim str argz (q + 1) argz_len)
        else create_loop delim str argz q (size_diff argz_len 1))
      else obind (poke argz q c) (\<lambda>argz. create_loop delim str argz (q + 1) argz_len))"

text \<open>\<open>None\<close> in the place of the vector when it is left alone.\<close>

definition argz_create_sep ::
  "(nat \<Rightarrow> bool) \<Rightarrow> (nat \<Rightarrow> byte) \<Rightarrow> byte list \<Rightarrow> int \<Rightarrow> (nat \<times> argz option) outcome" where
  "argz_create_sep av junk str delim =
     obind (c_strlen str) (\<lambda>n.
     let argz_len = size_add 1 n
     in if argz_len \<noteq> 0 then
          if \<not> av argz_len then Ret (ENOMEM, None)
          else
            obind (create_loop delim str (map junk [0..<argz_len]) 0 argz_len) (\<lambda>(argz, q, argz_len).
            obind (poke argz q 0) (\<lambda>argz.
            Ret (0, Some (if argz_len = 0 then None else Some argz, argz_len))))
        else Ret (0, Some (None, 0)))"

fun entry_start :: "byte list \<Rightarrow> nat \<Rightarrow> nat outcome" where
  "entry_start argz 0 = Ret 0"
| "entry_start argz (Suc n) = obind (peek argz n) (\<lambda>c. if c \<noteq> 0 then entry_start argz n else Ret (Suc n))"

definition argz_insert ::
  "(nat \<Rightarrow> bool) \<Rightarrow> (nat \<Rightarrow> byte) \<Rightarrow> argz \<Rightarrow> nat option \<Rightarrow> byte list \<Rightarrow> (nat \<times> argz) outcome" where
  "argz_insert av junk v before entry =
     obind (peek entry 0) (\<lambda>first.
     c_assert (first \<noteq> 0)
       (obind (c_strlen entry) (\<lambda>n.
        let entry_len = size_add 1 n
        in case before of
             None \<Rightarrow> argz_append av junk v entry entry_len
           | Some before \<Rightarrow>
               (case fst v of
                  None \<Rightarrow> Crash
                | Some block \<Rightarrow>
                    obind (entry_start block before) (\<lambda>offset.
                    let argz_len = size_add (snd v) entry_len
                    in if \<not> av argz_len then Ret (ENOMEM, v)
                       else
                         let argz = resized junk (fst v) argz_len
                         in obind (write_block argz (offset + entry_len)
                                     (take (snd v - offset) (drop offset argz))) (\<lambda>argz.
                            obind (write_block argz offset (take entry_len entry)) (\<lambda>argz.
                            Ret (0, (Some argz, argz_len)))))))))"

definition argz_next :: "argz \<Rightarrow> nat option \<Rightarrow> nat option outcome" where
  "argz_next v entry =
     c_assert (argz_matched v)
       (case entry of
          Some e \<Rightarrow>
            (case fst v of
               None \<Rightarrow> Ret None
             | Some argz \<Rightarrow>
                 c_assert (e < snd v)
                   (obind (c_strlen (drop e argz)) (\<lambda>n.
                    let entry = 1 + (e + n) in Ret (if entry \<ge> snd v then None else Some entry))))
        | None \<Rightarrow> Ret (if snd v > 0 then Some 0 else None))"

text \<open>The loop of \<open>argz_stringify\<close>, for the values of the length that are above zero.\<close>

fun stringify_loop :: "byte \<Rightarrow> byte list \<Rightarrow> nat \<Rightarrow> byte list outcome" where
  "stringify_loop sep argz 0 = Ret argz"
| "stringify_loop sep argz (Suc n) =
     obind (peek argz (Suc n)) (\<lambda>c.
     obind (if c = 0 then poke argz (Suc n) sep else Ret argz) (\<lambda>argz. stringify_loop sep argz n))"

definition argz_stringify :: "argz \<Rightarrow> int \<Rightarrow> argz outcome" where
  "argz_stringify v sep =
     c_assert (argz_matched v)
       (if sep \<noteq> 0 then
          obind (stringify_loop (word_of_int sep) (case fst v of None \<Rightarrow> [] | Some argz \<Rightarrow> argz)
                   (size_diff (size_diff (snd v) 1) 1)) (\<lambda>argz.
          Ret (Some argz, snd v))
        else Ret v)"

section \<open>Splitting a text\<close>

text \<open>
  What the loop writes: the text with its delimiters as nulls, without those that do not follow a
  character; \<open>after_char\<close> is whether the cell in front holds one.
\<close>

fun squeeze :: "byte \<Rightarrow> bool \<Rightarrow> byte list \<Rightarrow> byte list" where
  "squeeze d after_char [] = [0]"
| "squeeze d after_char (c # cs) =
     (if c = d then if after_char then 0 # squeeze d False cs else squeeze d False cs
      else c # squeeze d True cs)"

lemma squeeze_length: "length (squeeze d b s) \<le> length s + 1"
  by (induction d b s rule: squeeze.induct) auto

lemma squeeze_not_Nil: "squeeze d b s \<noteq> []"
  by (induction d b s rule: squeeze.induct) auto

lemma sint_byte_eq: "sint (c :: byte) = sint d \<longleftrightarrow> c = d"
  by (rule word_eq_iff_signed [symmetric])

lemma create_loop_result:
  assumes "0 \<notin> set s" and "d \<noteq> 0" and "q + length s < length m" and "length m < size_mod"
    and "b \<longleftrightarrow> 0 < q \<and> m ! (q - 1) \<noteq> 0"
  shows "\<exists>m' q'. create_loop (sint d) (s @ 0 # r) m q (q + length s + 1) = Ret (m', q', q' + 1)
    \<and> q' < length m' \<and> m'[q' := 0] = overlay m q (squeeze d b s) \<and> q' + 1 = q + length (squeeze d b s)"
  using assms
proof (induction s arbitrary: m q b)
  case Nil
  then show ?case by (simp add: overlay_Cons [of q 0 "[]", simplified])
next
  case (Cons c s)
  have len: "q < length m" "q + 1 + length s < length m" "q + length (squeeze d x s) < length m" for x
    using Cons.prems(3) squeeze_length [of d x s] by auto
  have after: "(if q > 0 then obind (peek m (q - 1)) (\<lambda>b. Ret (b \<noteq> 0)) else Ret False) = Ret b"
    using len(1) Cons.prems(5) by (auto simp: mem_simps)
  consider "c \<noteq> d" | "c = d" "b" | "c = d" "\<not> b" by blast
  then show ?case
  proof cases
    case 1
    have step: "create_loop (sint d) ((c # s) @ 0 # r) m q (q + length (c # s) + 1)
        = create_loop (sint d) (s @ 0 # r) (m[q := c]) (q + 1) (q + 1 + length s + 1)"
      using 1 Cons.prems(1) len(1) by (simp add: mem_simps sint_byte_eq)
    obtain m' q' where "create_loop (sint d) (s @ 0 # r) (m[q := c]) (q + 1) (q + 1 + length s + 1) = Ret (m', q', q' + 1)"
      "q' < length m'" "m'[q' := 0] = overlay (m[q := c]) (q + 1) (squeeze d True s)" "q' + 1 = q + 1 + length (squeeze d True s)"
      using Cons.IH [of "q + 1" "m[q := c]" True] Cons.prems len by auto
    moreover have "overlay (m[q := c]) (Suc q) (squeeze d True s) = overlay m q (c # squeeze d True s)"
      using len(3) [of True] by (intro overlay_Cons) simp
    ultimately show ?thesis using 1 unfolding step by auto
  next
    case 2
    have step: "create_loop (sint d) ((c # s) @ 0 # r) m q (q + length (c # s) + 1)
        = create_loop (sint d) (s @ 0 # r) (m[q := 0]) (q + 1) (q + 1 + length s + 1)"
      using 2 Cons.prems(1) len(1) after by (simp add: mem_simps)
    obtain m' q' where "create_loop (sint d) (s @ 0 # r) (m[q := 0]) (q + 1) (q + 1 + length s + 1) = Ret (m', q', q' + 1)"
      "q' < length m'" "m'[q' := 0] = overlay (m[q := 0]) (q + 1) (squeeze d False s)" "q' + 1 = q + 1 + length (squeeze d False s)"
      using Cons.IH [of "q + 1" "m[q := 0]" False] Cons.prems len by auto
    moreover have "overlay (m[q := 0]) (Suc q) (squeeze d False s) = overlay m q (0 # squeeze d False s)"
      using len(3) [of False] by (intro overlay_Cons) simp
    ultimately show ?thesis using 2 unfolding step by auto
  next
    case 3
    have "size_diff (q + length (c # s) + 1) 1 = q + length s + 1"
      using Cons.prems(3,4) by (simp add: size_simps)
    then have step: "create_loop (sint d) ((c # s) @ 0 # r) m q (q + length (c # s) + 1)
        = create_loop (sint d) (s @ 0 # r) m q (q + length s + 1)"
      using 3 Cons.prems(1) after by (simp add: mem_simps)
    show ?thesis using Cons.IH [of q m b] Cons.prems 3 len unfolding step by auto
  qed
qed

lemma create_sep_result:
  assumes "0 \<notin> set s" and "d \<noteq> 0" and "length s + 1 < size_mod" and "av (length s + 1)"
  shows "\<exists>junk'. argz_create_sep av junk (s @ 0 # r) (sint d) =
    Ret (0, Some (Some (squeeze d False s @ junk'), length (squeeze d False s)))"
proof -
  let ?m = "map junk [0..<length s + 1]"
  have "0 + length s < length ?m" "length ?m < size_mod" using assms(3) by simp_all
  then obtain m' q' where r: "create_loop (sint d) (s @ 0 # r) ?m 0 (length s + 1) = Ret (m', q', q' + 1)"
    "q' < length m'" "m'[q' := 0] = overlay ?m 0 (squeeze d False s)" "q' + 1 = length (squeeze d False s)"
    using create_loop_result [OF assms(1,2), of 0 ?m False r] by auto
  have "argz_create_sep av junk (s @ 0 # r) (sint d) = Ret (0, Some (Some (m'[q' := 0]), q' + 1))"
    using assms r(1,2) by (simp add: argz_create_sep_def size_simps mem_simps del: upt_Suc)
  with r(3,4) show ?thesis by (auto simp: overlay_def)
qed

text \<open>The words between the delimiters, each with its null, and an empty one where the text ends in a
  delimiter or has no words.\<close>

definition argz_of :: "byte list list \<Rightarrow> byte list" where
  "argz_of ws = concat (map (\<lambda>w. w @ [0]) ws)"

lemma squeeze_word:
  "squeeze d True s = takeWhile (\<lambda>c. c \<noteq> d) s
    @ (case dropWhile (\<lambda>c. c \<noteq> d) s of [] \<Rightarrow> [0] | _ # cs \<Rightarrow> 0 # squeeze d False cs)"
  by (induction s) auto

lemma squeeze_tokens:
  "squeeze d False s = argz_of (tokens {d} s) @ (if s = [] \<or> last s = d then [0] else [])"
proof (induction "length s" arbitrary: s rule: less_induct)
  case less
  show ?case
  proof (cases s)
    case Nil
    then show ?thesis by (simp add: argz_of_def tokens.simps)
  next
    case (Cons c cs)
    show ?thesis
    proof (cases "c = d")
      case True
      then have "tokens {d} s = tokens {d} cs" unfolding Cons by (subst (1 2) tokens.simps) simp
      with True less.hyps [of cs] Cons show ?thesis by (cases cs) auto
    next
      case False
      define w where "w = takeWhile (\<lambda>c. c \<noteq> d) cs"
      define rest where "rest = dropWhile (\<lambda>c. c \<noteq> d) cs"
      have t: "tokens {d} s = (c # w) # tokens {d} rest"
        using False unfolding Cons w_def rest_def by (subst tokens.simps) simp
      have cs: "cs = w @ rest" by (simp add: w_def rest_def)
      show ?thesis
      proof (cases rest)
        case Nil
        then have "d \<notin> set cs" using cs by (metis w_def append_Nil2 set_takeWhileD)
        then have "last s \<noteq> d" using False Cons by (cases cs) (auto dest: last_in_set)
        with Nil False t show ?thesis
          by (simp add: Cons squeeze_word w_def [symmetric] rest_def [symmetric] argz_of_def tokens.simps)
      next
        case (Cons e es)
        have e: "e = d" using Cons hd_dropWhile [of "\<lambda>c. c \<noteq> d" cs] by (simp add: rest_def)
        have "length es < length s" using cs Cons \<open>s = c # cs\<close> by simp
        from less.hyps [OF this] have
          ih: "squeeze d False es = argz_of (tokens {d} es) @ (if es = [] \<or> last es = d then [0] else [])" .
        have "tokens {d} rest = tokens {d} es" unfolding Cons e by (subst (1 2) tokens.simps) simp
        moreover have "last s = (if es = [] then d else last es)" using \<open>s = c # cs\<close> cs Cons e by auto
        ultimately show ?thesis using False Cons t ih e
          by (auto simp: \<open>s = c # cs\<close> squeeze_word w_def [symmetric] rest_def [symmetric] argz_of_def)
      qed
    qed
  qed
qed

section \<open>Joining the strings\<close>

lemma stringify_loop_result:
  "n < length m \<Longrightarrow> stringify_loop sep m n =
    Ret (take 1 m @ map (\<lambda>c. if c = 0 then sep else c) (take n (drop 1 m)) @ drop (n + 1) m)"
proof (induction n arbitrary: m)
  case 0
  then show ?case by (cases m) simp_all
next
  case (Suc n)
  define m' where "m' = (if m ! Suc n = 0 then m[Suc n := sep] else m)"
  have len: "length m' = length m" by (simp add: m'_def)
  have "stringify_loop sep m (Suc n) = stringify_loop sep m' n"
    using Suc.prems by (simp add: mem_simps m'_def)
  also have "\<dots> = Ret (take 1 m' @ map (\<lambda>c. if c = 0 then sep else c) (take n (drop 1 m')) @ drop (n + 1) m')"
    using Suc.prems len by (intro Suc.IH) simp
  also have "\<dots> = Ret (take 1 m @ map (\<lambda>c. if c = 0 then sep else c) (take (Suc n) (drop 1 m)) @ drop (Suc n + 1) m)"
  proof -
    have "take 1 m' = take 1 m" "take n (drop 1 m') = take n (drop 1 m)"
      by (auto simp: m'_def intro: take_drop_update_outside)
    moreover have "drop (n + 1) m' = (if m ! Suc n = 0 then sep else m ! Suc n) # drop (Suc n + 1) m"
      using Suc.prems by (auto simp: m'_def Cons_nth_drop_Suc [symmetric] nth_list_update)
    moreover have "take (Suc n) (drop 1 m) = take n (drop 1 m) @ [m ! Suc n]"
      using Suc.prems by (simp add: take_Suc_conv_app_nth)
    ultimately show ?thesis by simp
  qed
  finally show ?case by simp
qed

lemma squeeze_clean:
  "successively (\<lambda>x y. x \<noteq> d \<or> y \<noteq> d) s \<Longrightarrow> s = [] \<or> b \<or> hd s \<noteq> d \<Longrightarrow>
    squeeze d b s = map (\<lambda>c. if c = d then 0 else c) s @ [0]"
proof (induction s arbitrary: b)
  case (Cons c s)
  have tail: "successively (\<lambda>x y. x \<noteq> d \<or> y \<noteq> d) s" "s = [] \<or> c \<noteq> d \<or> hd s \<noteq> d"
    using Cons.prems(1) by (cases s; simp)+
  show ?case
  proof (cases "c = d")
    case True
    with tail have "squeeze d False s = map (\<lambda>c. if c = d then 0 else c) s @ [0]" by (intro Cons.IH) auto
    with True Cons.prems(2) show ?thesis by simp
  next
    case False
    with tail have "squeeze d True s = map (\<lambda>c. if c = d then 0 else c) s @ [0]" by (intro Cons.IH) auto
    with False show ?thesis by simp
  qed
qed simp

lemma stringify_result:
  assumes "0 \<notin> set s" and "d \<noteq> 0" and "s \<noteq> []" and "hd s \<noteq> d" and "length s + 1 < size_mod"
  shows "argz_stringify (Some (map (\<lambda>c. if c = d then 0 else c) s @ 0 # junk), length s + 1) (sint d)
    = Ret (Some (s @ 0 # junk), length s + 1)"
proof -
  obtain c cs where s: "s = c # cs" using assms(3) by (cases s) auto
  let ?v = "map (\<lambda>c. if c = d then 0 else c) s @ 0 # junk"
  have "size_diff (size_diff (length s + 1) 1) 1 = length cs" using s assms(5) by (simp add: size_simps)
  moreover have "sint d \<noteq> 0" using assms(2) sint_byte_eq [of d 0] by simp
  moreover have "map (\<lambda>c. if c = 0 then d else c) (map (\<lambda>c. if c = d then 0 else c) cs) = cs"
    using assms(1,2) s by (auto intro!: map_idI)
  then have "stringify_loop d ?v (length cs) = Ret (s @ 0 # junk)"
    using stringify_loop_result [of "length cs" ?v d] s assms(1,4) by (simp del: map_map)
  ultimately show ?thesis by (simp add: argz_stringify_def argz_matched_def)
qed

lemma stringify_loop_out: "0 < n \<Longrightarrow> length m \<le> n \<Longrightarrow> stringify_loop sep m n = Crash"
  by (cases n) (simp_all add: mem_simps)

text \<open>The length is decremented twice before it is tested, so with none or one it wraps around.\<close>

lemma stringify_short_overruns:
  assumes "argz_matched (block, n)" and "n \<le> 1" and "\<forall>m. block = Some m \<longrightarrow> length m < size_mod" and "sep \<noteq> 0"
  shows "argz_stringify (block, n) sep = Crash"
proof -
  let ?m = "case block of None \<Rightarrow> [] | Some m \<Rightarrow> m"
  have "n = 0 \<and> block = None \<or> n = 1" using assms(1,2) by (auto simp: argz_matched_def)
  then have "0 < size_diff (size_diff n 1) 1 \<and> length ?m \<le> size_diff (size_diff n 1) 1"
    using assms(3) by (auto simp: size_diff_def size_of_int_def size_mod_def split: option.split)
  then have "stringify_loop (word_of_int sep) ?m (size_diff (size_diff n 1) 1) = Crash"
    by (intro stringify_loop_out) auto
  with assms(1,4) show ?thesis by (simp add: argz_stringify_def)
qed

text \<open>A walk over a vector: the strings \<open>argz_next\<close> leads to, each up to its null.\<close>

partial_function (option) argz_walk :: "argz \<Rightarrow> nat option \<Rightarrow> byte list list outcome option" where
  "argz_walk v entry =
     rbind (Some (argz_next v entry)) (\<lambda>n.
     if n = None then Some (Ret [])
     else
       rbind (Some (c_strlen (drop (the n) (the (fst v))))) (\<lambda>k.
       rbind (argz_walk v n) (\<lambda>ws. Some (Ret (take k (drop (the n) (the (fst v))) # ws)))))"

lemma argz_walk_from:
  assumes "fst v = Some (argz_of (us @ w # ws) @ junk)" and "snd v = length (argz_of (us @ w # ws))"
    and "\<forall>x\<in>set (w # ws). 0 \<notin> set x"
  shows "argz_walk v (Some (length (argz_of us))) = Some (Ret ws)"
  using assms
proof (induction ws arbitrary: us w)
  case Nil
  have "argz_next v (Some (length (argz_of us))) = Ret None"
    using Nil by (simp add: argz_next_def argz_matched_def argz_of_def)
  then show ?case by (subst argz_walk.simps) simp
next
  case (Cons x xs)
  have step: "argz_next v (Some (length (argz_of us))) = Ret (Some (length (argz_of (us @ [w]))))"
    using Cons.prems by (simp add: argz_next_def argz_matched_def argz_of_def)
  have "argz_walk v (Some (length (argz_of (us @ [w])))) = Some (Ret xs)"
    using Cons.IH [of "us @ [w]" x] Cons.prems by simp
  moreover have "drop (length (argz_of (us @ [w]))) (the (fst v)) = x @ 0 # argz_of xs @ junk"
    using Cons.prems(1) by (simp add: argz_of_def)
  ultimately show ?case
    using step Cons.prems(3) by (subst argz_walk.simps) simp
qed

lemma argz_walk_result:
  assumes "ws \<noteq> []" and "\<forall>x\<in>set ws. 0 \<notin> set x"
  shows "argz_walk (Some (argz_of ws @ junk), length (argz_of ws)) None = Some (Ret ws)"
proof -
  obtain x xs where ws: "ws = x # xs" using assms(1) by (cases ws) auto
  let ?v = "(Some (argz_of ws @ junk), length (argz_of ws))"
  have "argz_walk ?v (Some (length (argz_of []))) = Some (Ret xs)"
    using argz_walk_from [of ?v "[]" x xs junk] assms(2) ws by simp
  then have "argz_walk ?v (Some 0) = Some (Ret xs)" by (simp add: argz_of_def)
  moreover have "argz_next ?v None = Ret (Some 0)" using ws by (simp add: argz_next_def argz_matched_def argz_of_def)
  ultimately show ?thesis using ws assms(2) by (subst argz_walk.simps) (simp add: argz_of_def)
qed

lemma tokens_no_null: "0 \<notin> set s \<Longrightarrow> \<forall>w\<in>set (tokens A s). 0 \<notin> set w"
proof (induction A s rule: tokens.induct)
  case (1 A s)
  show ?case
  proof (cases "dropWhile (\<lambda>c. c \<in> A) s")
    case Nil
    then have "tokens A s = []" by (subst tokens.simps) (simp only: Nil list.case)
    then show ?thesis by simp
  next
    case (Cons c cs)
    then have sub: "set (c # cs) \<subseteq> set s" by (metis set_dropWhileD subsetI)
    then have "0 \<notin> set (dropWhile (\<lambda>c. c \<notin> A) cs)" "0 \<notin> set (c # takeWhile (\<lambda>c. c \<notin> A) cs)"
      using "1.prems" set_dropWhileD [of 0 "\<lambda>c. c \<notin> A" cs] set_takeWhileD [of 0 "\<lambda>c. c \<notin> A" cs] by auto
    with "1.IH" [OF Cons] show ?thesis by (subst tokens.simps) (auto simp only: Cons list.case list.set)
  qed
qed

section \<open>Properties\<close>

text \<open>
  Walking with \<open>argz_next\<close> over what \<open>argz_create_sep\<close> makes of a text gives the words between
  the delimiters, in order; where the text is empty or ends in a delimiter an empty string follows
  them, so the vector is never empty.
\<close>

theorem create_sep_lists_words:
  assumes "0 \<notin> set s" and "d \<noteq> 0" and "length s + 1 < size_mod" and "av (length s + 1)"
  shows "\<exists>v. argz_create_sep av junk (s @ 0 # r) (sint d) = Ret (0, Some v)
    \<and> argz_walk v None = Some (Ret (tokens {d} s @ (if s = [] \<or> last s = d then [[]] else [])))"
proof -
  define ws where "ws = tokens {d} s @ (if s = [] \<or> last s = d then [[]] else [])"
  have v: "squeeze d False s = argz_of ws"
    by (simp add: squeeze_tokens ws_def argz_of_def)
  have "squeeze d False s \<noteq> []" by (rule squeeze_not_Nil)
  then have "ws \<noteq> []" unfolding v by (auto simp: argz_of_def)
  moreover have "\<forall>w\<in>set ws. 0 \<notin> set w" using tokens_no_null [OF assms(1), of "{d}"] by (auto simp: ws_def)
  ultimately show ?thesis
    using create_sep_result [where s = s and d = d and av = av and junk = junk and r = r] assms argz_walk_result [of ws] unfolding v ws_def [symmetric] by auto
qed

theorem create_sep_lists_words_witness:
  "\<exists>v. argz_create_sep (\<lambda>_. True) (\<lambda>_. 7) [58, 97, 58, 58, 98, 58, 0] 58 = Ret (0, Some v)
    \<and> argz_walk v None = Some (Ret [[97], [98], []])"
proof -
  have d: "sint (58 :: byte) = 58" by simp
  have "tokens {58} [58, 97, 58, 58, 98, 58 :: byte] = [[97], [98]]" by (simp add: tokens.simps)
  then show ?thesis
    using create_sep_lists_words [of "[58, 97, 58, 58, 98, 58]" 58 "\<lambda>_. True" "\<lambda>_. 7" "[]"]
    unfolding d by (simp add: size_mod_def)
qed



end
