(* ===== verification/Ltdl_Base.thy ===== *)
theory Ltdl_Base
  imports Argz Console
begin

text \<open>
  What the files of \<^verbatim>\<open>src/lib/libltdl\<close> share: the error message that is kept (\<^verbatim>\<open>lt_error.c\<close>), the
  requests for memory (\<^verbatim>\<open>lt__alloc.c\<close>) and the bounded copies of \<^verbatim>\<open>lt__strl.c\<close>. The static variables
  are the record \<open>ltdl\<close>. As in \<open>Argz\<close>, \<open>av\<close> says which requests for memory are met and \<open>junk\<close> what a new
  cell holds.
\<close>

section \<open>The error messages\<close>

datatype lt_error =
    LT_ERROR_UNKNOWN | LT_ERROR_DLOPEN_NOT_SUPPORTED | LT_ERROR_INVALID_LOADER | LT_ERROR_INIT_LOADER
  | LT_ERROR_REMOVE_LOADER | LT_ERROR_FILE_NOT_FOUND | LT_ERROR_DEPLIB_NOT_FOUND | LT_ERROR_NO_SYMBOLS
  | LT_ERROR_CANNOT_OPEN | LT_ERROR_CANNOT_CLOSE | LT_ERROR_SYMBOL_NOT_FOUND | LT_ERROR_NO_MEMORY
  | LT_ERROR_INVALID_HANDLE | LT_ERROR_BUFFER_OVERFLOW | LT_ERROR_INVALID_ERRORCODE | LT_ERROR_SHUTDOWN
  | LT_ERROR_CLOSE_RESIDENT_MODULE | LT_ERROR_INVALID_MUTEX_ARGS | LT_ERROR_INVALID_POSITION
  | LT_ERROR_CONFLICTING_FLAGS

definition lt_error_table :: "(lt_error \<times> string) list" where
  "lt_error_table =
     [(LT_ERROR_UNKNOWN, ''unknown error''),
      (LT_ERROR_DLOPEN_NOT_SUPPORTED, ''dlopen support not available''),
      (LT_ERROR_INVALID_LOADER, ''invalid loader''),
      (LT_ERROR_INIT_LOADER, ''loader initialization failed''),
      (LT_ERROR_REMOVE_LOADER, ''loader removal failed''),
      (LT_ERROR_FILE_NOT_FOUND, ''file not found''),
      (LT_ERROR_DEPLIB_NOT_FOUND, ''dependency library not found''),
      (LT_ERROR_NO_SYMBOLS, ''no symbols defined''),
      (LT_ERROR_CANNOT_OPEN, ''can'' @ [CHR 39] @ ''t open the module''),
      (LT_ERROR_CANNOT_CLOSE, ''can'' @ [CHR 39] @ ''t close the module''),
      (LT_ERROR_SYMBOL_NOT_FOUND, ''symbol not found''),
      (LT_ERROR_NO_MEMORY, ''not enough memory''),
      (LT_ERROR_INVALID_HANDLE, ''invalid module handle''),
      (LT_ERROR_BUFFER_OVERFLOW, ''internal buffer overflow''),
      (LT_ERROR_INVALID_ERRORCODE, ''invalid errorcode''),
      (LT_ERROR_SHUTDOWN, ''library already shutdown''),
      (LT_ERROR_CLOSE_RESIDENT_MODULE, ''can'' @ [CHR 39] @ ''t close resident module''),
      (LT_ERROR_INVALID_MUTEX_ARGS, ''internal error (code withdrawn)''),
      (LT_ERROR_INVALID_POSITION, ''invalid search path insert position''),
      (LT_ERROR_CONFLICTING_FLAGS, ''symbol visibility can be global or local'')]"

text \<open>A message is one of the table or one the program has given; messages are compared as pointers.\<close>

datatype lt_message = Table_message lt_error | User_message "byte list"

datatype alloc_die = alloc_die_default | lt__alloc_die_callback

record ltdl =
  last_error :: "lt_message option"
  user_error_strings :: "byte list list"
  errorcount :: int
  lt__alloc_die :: alloc_die
  user_search_path :: "byte list option"

text \<open>The values the static variables begin with.\<close>

definition fresh_ltdl :: ltdl where
  "fresh_ltdl = \<lparr>last_error = None, user_error_strings = [], errorcount = int (length lt_error_table),
     lt__alloc_die = alloc_die_default, user_search_path = None\<rparr>"

definition LT__SETERROR :: "lt_error \<Rightarrow> 'a ltdl_scheme \<Rightarrow> 'a ltdl_scheme" where
  "LT__SETERROR e s = s\<lparr>last_error := Some (Table_message e)\<rparr>"

definition lt__error_string :: "int \<Rightarrow> lt_message outcome" where
  "lt__error_string code =
     c_assert (code \<ge> 0)
       (c_assert (code < int (length lt_error_table)) (Ret (Table_message (fst (lt_error_table ! nat code)))))"

section \<open>Memory\<close>

definition die :: "'a ltdl_scheme \<Rightarrow> 'a ltdl_scheme outcome" where
  "die s = (case lt__alloc_die s of
              alloc_die_default \<Rightarrow> Halt
            | lt__alloc_die_callback \<Rightarrow> Ret (LT__SETERROR LT_ERROR_NO_MEMORY s))"

definition lt__malloc ::
  "(nat \<Rightarrow> bool) \<Rightarrow> (nat \<Rightarrow> byte) \<Rightarrow> nat \<Rightarrow> 'a ltdl_scheme \<Rightarrow> (byte list option \<times> 'a ltdl_scheme) outcome" where
  "lt__malloc av junk n s =
     (if av n then Ret (Some (map junk [0..<n]), s) else obind (die s) (\<lambda>s. Ret (None, s)))"

definition lt__zalloc ::
  "(nat \<Rightarrow> bool) \<Rightarrow> (nat \<Rightarrow> byte) \<Rightarrow> nat \<Rightarrow> 'a ltdl_scheme \<Rightarrow> (byte list option \<times> 'a ltdl_scheme) outcome" where
  "lt__zalloc av junk n s =
     obind (lt__malloc av junk n s) (\<lambda>(mem, s).
     case mem of
       None \<Rightarrow> Ret (None, s)
     | Some mem \<Rightarrow> obind (write_block mem 0 (replicate n 0)) (\<lambda>mem. Ret (Some mem, s)))"

definition lt__realloc ::
  "(nat \<Rightarrow> bool) \<Rightarrow> (nat \<Rightarrow> byte) \<Rightarrow> byte list option \<Rightarrow> nat \<Rightarrow> 'a ltdl_scheme
   \<Rightarrow> (byte list option \<times> 'a ltdl_scheme) outcome" where
  "lt__realloc av junk mem n s =
     (if av n then Ret (Some (resized junk mem n), s) else obind (die s) (\<lambda>s. Ret (None, s)))"

definition lt__memdup ::
  "(nat \<Rightarrow> bool) \<Rightarrow> (nat \<Rightarrow> byte) \<Rightarrow> byte list \<Rightarrow> nat \<Rightarrow> 'a ltdl_scheme \<Rightarrow> (byte list option \<times> 'a ltdl_scheme) outcome"
where
  "lt__memdup av junk mem n s =
     obind (lt__malloc av junk n s) (\<lambda>(newmem, s).
     case newmem of
       None \<Rightarrow> Ret (None, s)
     | Some newmem \<Rightarrow>
         if n \<le> length mem then obind (write_block newmem 0 (take n mem)) (\<lambda>newmem. Ret (Some newmem, s)) else Crash)"

definition lt__strdup ::
  "(nat \<Rightarrow> bool) \<Rightarrow> (nat \<Rightarrow> byte) \<Rightarrow> byte list \<Rightarrow> 'a ltdl_scheme \<Rightarrow> (byte list option \<times> 'a ltdl_scheme) outcome" where
  "lt__strdup av junk str s = obind (c_strlen str) (\<lambda>n. lt__memdup av junk str (n + 1) s)"

text \<open>\<^verbatim>\<open>strcpy\<close>, to a position of an object.\<close>

definition strcpy_at :: "byte list \<Rightarrow> nat \<Rightarrow> byte list \<Rightarrow> byte list outcome" where
  "strcpy_at dst p src = obind (c_strlen src) (\<lambda>n. write_block dst p (take (n + 1) src))"

section \<open>Messages of the program\<close>

definition lt_dladderror ::
  "(nat \<Rightarrow> bool) \<Rightarrow> byte list \<Rightarrow> 'a ltdl_scheme \<Rightarrow> (int \<times> 'a ltdl_scheme) outcome" where
  \<comment> \<open>\<open>av\<close> is asked for the number of pointers; a message that is not set yet is the empty list\<close>
  "lt_dladderror av diagnostic s =
     (let errindex = errorcount s - int (length lt_error_table) in
      if av (nat (1 + errindex)) then
        let temp = take (nat (1 + errindex)) (user_error_strings s)
              @ replicate (nat (1 + errindex) - length (user_error_strings s)) []
        in if errindex < 0 then Crash
           else
             obind (poke temp (nat errindex) diagnostic) (\<lambda>temp.
             Ret (errorcount s, s\<lparr>user_error_strings := temp, errorcount := errorcount s + 1\<rparr>))
      else obind (die s) (\<lambda>s. Ret (- 1, s)))"

definition lt_dlseterror :: "int \<Rightarrow> 'a ltdl_scheme \<Rightarrow> (nat \<times> 'a ltdl_scheme) outcome" where
  "lt_dlseterror errindex s =
     (if errindex \<ge> errorcount s \<or> errindex < 0 then Ret (1, LT__SETERROR LT_ERROR_INVALID_ERRORCODE s)
      else if errindex < int (length lt_error_table)
      then Ret (0, s\<lparr>last_error := Some (Table_message (fst (lt_error_table ! nat errindex)))\<rparr>)
      else
        obind (peek (user_error_strings s) (nat (errindex - int (length lt_error_table)))) (\<lambda>m.
        Ret (0, s\<lparr>last_error := Some (User_message m)\<rparr>)))"

definition lt_dlerror :: "'a ltdl_scheme \<Rightarrow> lt_message option \<times> 'a ltdl_scheme" where
  "lt_dlerror s = (last_error s, s\<lparr>last_error := None\<rparr>)"

definition file_not_found :: "'a ltdl_scheme \<Rightarrow> bool" where
  "file_not_found s \<longleftrightarrow> last_error s = Some (Table_message LT_ERROR_FILE_NOT_FOUND)"

section \<open>Bounded copies\<close>

text \<open>The loop both functions share: \<open>length\<close> is the position in the destination.\<close>

fun strl_copy :: "byte list \<Rightarrow> byte list \<Rightarrow> nat \<Rightarrow> nat \<Rightarrow> (byte list \<times> byte list \<times> nat) outcome" where
  "strl_copy dst [] len dstsize = Crash"
| "strl_copy dst (c # q) len dstsize =
     (if c \<noteq> 0 \<and> len < dstsize - 1
      then obind (poke dst len c) (\<lambda>dst. strl_copy dst q (len + 1) dstsize)
      else Ret (dst, c # q, len))"

definition lt_strlcat :: "byte list \<Rightarrow> byte list \<Rightarrow> nat \<Rightarrow> (byte list \<times> nat) outcome" where
  "lt_strlcat dst src dstsize =
     c_assert (dstsize \<ge> 1)
       (obind (c_strlen dst) (\<lambda>len.
        obind (strl_copy dst src len dstsize) (\<lambda>(dst, q, len).
        obind (poke dst len 0) (\<lambda>dst.
        obind (c_strlen q) (\<lambda>k. Ret (dst, len + k))))))"

definition lt_strlcpy :: "byte list \<Rightarrow> byte list \<Rightarrow> nat \<Rightarrow> (byte list \<times> nat) outcome" where
  "lt_strlcpy dst src dstsize =
     c_assert (dstsize \<ge> 1)
       (obind (strl_copy dst src 0 dstsize) (\<lambda>(dst, q, len).
        obind (poke dst len 0) (\<lambda>dst.
        obind (c_strlen q) (\<lambda>k. Ret (dst, len + k)))))"

section \<open>Lemmas\<close>

lemma lt__malloc_met [simp]: "av n \<Longrightarrow> lt__malloc av junk n s = Ret (Some (map junk [0..<n]), s)"
  by (simp add: lt__malloc_def)

lemma lt__strdup_met:
  "0 \<notin> set x \<Longrightarrow> av (length x + 1) \<Longrightarrow> lt__strdup av junk (x @ 0 # r) s = Ret (Some (x @ [0]), s)"
  by (simp add: lt__strdup_def lt__memdup_def write_block_def overlay_def del: upt_Suc)

lemma strcpy_at_in:
  "0 \<notin> set x \<Longrightarrow> p + length x + 1 \<le> length dst \<Longrightarrow> strcpy_at dst p (x @ 0 # r) = Ret (overlay dst p (x @ [0]))"
  by (simp add: strcpy_at_def write_block_def)

lemma strl_copy_result:
  "0 \<notin> set x \<Longrightarrow> len < dstsize \<Longrightarrow> dstsize \<le> length dst \<Longrightarrow>
    \<exists>k. strl_copy dst (x @ 0 # r) len dstsize = Ret (overlay dst len (take k x), drop k x @ 0 # r, len + k)
    \<and> k = min (length x) (dstsize - 1 - len)"
proof (induction x arbitrary: dst len)
  case (Cons c x)
  show ?case
  proof (cases "len < dstsize - 1")
    case True
    then obtain k where "strl_copy (dst[len := c]) (x @ 0 # r) (len + 1) dstsize
        = Ret (overlay (dst[len := c]) (len + 1) (take k x), drop k x @ 0 # r, len + 1 + k)"
      "k = min (length x) (dstsize - 1 - (len + 1))"
      using Cons.IH [of "len + 1" "dst[len := c]"] Cons.prems by auto
    moreover have "overlay (dst[len := c]) (Suc len) (take k x) = overlay dst len (c # take k x)"
      using True Cons.prems(3) calculation(2) by (intro overlay_Cons) simp
    ultimately show ?thesis using True Cons.prems by (intro exI [of _ "Suc k"]) (auto simp: mem_simps)
  next
    case False
    then show ?thesis using Cons.prems by (intro exI [of _ 0]) simp
  qed
qed simp

text \<open>
  The copies of libltdl agree with the ones of \<^verbatim>\<open>src/lib\<close>, which take a size of zero as well; the second
  pair returns different lengths where the text in the buffer is not shorter than the size.
\<close>

lemma take_min_length [simp]: "take (min (length xs) n) xs = take n xs"
  by (simp add: min_def)

lemma lt_strlcpy_agrees:
  assumes "0 \<notin> set str" and "1 \<le> siz" and "siz \<le> length dst"
  shows "lt_strlcpy dst (str @ 0 # rest) siz = strlcpy dst (str @ 0 # rest) siz"
proof -
  let ?k = "min (length str) (siz - 1)"
  have "strl_copy dst (str @ 0 # rest) 0 siz = Ret (overlay dst 0 (take ?k str), drop ?k str @ 0 # rest, ?k)"
    using strl_copy_result [of str 0 siz dst rest] assms by auto
  moreover have "0 \<notin> set (drop ?k str)" using assms(1) in_set_dropD by fast
  moreover have "(overlay dst 0 (take ?k str))[?k := 0] = overlay dst 0 (take (siz - 1) str @ [0])"
  proof -
    have "take ?k str = take (siz - 1) str" "length (take (siz - 1) str) = ?k" "?k < length dst"
      using assms by (auto simp: min_def)
    then show ?thesis using overlay_snoc [of 0 "take (siz - 1) str" dst 0] by simp
  qed
  moreover have "?k < length dst" using assms by auto
  ultimately show ?thesis
    using assms strlcpy_result [of str siz dst rest] by (simp add: lt_strlcpy_def mem_simps)
qed

lemma lt_strlcat_result:
  assumes "0 \<notin> set old" and "0 \<notin> set str" and "1 \<le> siz" and "siz \<le> length (old @ 0 # junk)"
  shows "lt_strlcat (old @ 0 # junk) (str @ 0 # rest) siz =
    Ret (if siz \<le> length old then old @ 0 # junk
         else overlay (old @ 0 # junk) (length old) (take (siz - length old - 1) str @ [0]), length old + length str)"
proof (cases "siz \<le> length old")
  case True
  then have "strl_copy (old @ 0 # junk) (str @ 0 # rest) (length old) siz = Ret (old @ 0 # junk, str @ 0 # rest, length old)"
    by (cases str) auto
  with True assms show ?thesis by (simp add: lt_strlcat_def mem_simps)
next
  case False
  let ?k = "min (length str) (siz - 1 - length old)" and ?m = "old @ 0 # junk"
  have "strl_copy ?m (str @ 0 # rest) (length old) siz
      = Ret (overlay ?m (length old) (take ?k str), drop ?k str @ 0 # rest, length old + ?k)"
    using strl_copy_result [of str "length old" siz ?m rest] assms False by auto
  moreover have "0 \<notin> set (drop ?k str)" using assms(2) in_set_dropD by fast
  moreover have "(overlay ?m (length old) (take ?k str))[length old + ?k := 0]
      = overlay ?m (length old) (take (siz - length old - 1) str @ [0])"
  proof -
    have k: "?k = min (length str) (siz - length old - 1)" by simp
    have "take ?k str = take (siz - length old - 1) str" "length (take (siz - length old - 1) str) = ?k"
      "length old + ?k < length ?m" unfolding k using assms False by auto
    then show ?thesis using overlay_snoc [of "length old" "take (siz - length old - 1) str" ?m 0] by simp
  qed
  moreover have "length old + ?k < length ?m" using assms False by auto
  ultimately show ?thesis
    using assms False by (simp add: lt_strlcat_def mem_simps)
qed

text \<open>A message that has been added can be set by its number.\<close>

lemma added_error_can_be_set:
  assumes "errorcount s = int (length lt_error_table + length (user_error_strings s))" and "av (length (user_error_strings s) + 1)"
  shows "\<exists>s'. lt_dladderror av diagnostic s = Ret (errorcount s, s')
    \<and> lt_dlseterror (errorcount s) s' = Ret (0, s'\<lparr>last_error := Some (User_message diagnostic)\<rparr>)"
  using assms by (simp add: lt_dladderror_def lt_dlseterror_def Let_def mem_simps nat_add_distrib)

section \<open>Properties\<close>

lemma take_through_overlay: "p \<le> length m \<Longrightarrow> take (p + length xs) (overlay m p xs) = take p m @ xs"
  by (simp add: overlay_def)

lemma drop_behind_overlay: "p + length xs \<le> n \<Longrightarrow> p + length xs \<le> length m \<Longrightarrow> drop n (overlay m p xs) = drop n m"
  by (rule nth_equalityI) (auto simp: nth_overlay)

text \<open>
  C25: \<open>lt_strlcat\<close>, called with a size that is not zero and does not exceed the memory of the buffer, changes no byte at
  or behind the size and returns the length of the whole concatenation. Where the text in the buffer is
  shorter than the size, it leaves as much of the concatenation as fits in front of its null; where
  it is not, it leaves the buffer as it was, since the one byte it stores is the null that ends the text, which may be
  at or behind the size.
\<close>

theorem bounded_append_stays_inside:
  assumes "0 \<notin> set old" and "0 \<notin> set str" and "1 \<le> siz" and "siz \<le> length (old @ 0 # junk)"
  shows "\<exists>dst. lt_strlcat (old @ 0 # junk) (str @ 0 # rest) siz = Ret (dst, length old + length str)
    \<and> length dst = length (old @ 0 # junk) \<and> drop siz dst = drop siz (old @ 0 # junk)
    \<and> (if length old < siz then take (min siz (length old + length str + 1)) dst = take (siz - 1) (old @ str) @ [0]
       else dst = old @ 0 # junk)"
proof (cases "siz \<le> length old")
  case True
  then show ?thesis using lt_strlcat_result [OF assms, of rest] by simp
next
  case False
  let ?t = "take (siz - length old - 1) str @ [0]"
  have fits: "length old + length ?t \<le> siz" using False by simp
  then have inside: "length old + length ?t \<le> length (old @ 0 # junk)" using assms(4) by linarith
  define dst where "dst = overlay (old @ 0 # junk) (length old) ?t"
  have "lt_strlcat (old @ 0 # junk) (str @ 0 # rest) siz = Ret (dst, length old + length str)"
    using False lt_strlcat_result [OF assms, of rest] by (simp add: dst_def)
  moreover have "length dst = length (old @ 0 # junk)" using inside by (simp add: dst_def)
  moreover have "drop siz dst = drop siz (old @ 0 # junk)" unfolding dst_def using fits inside by (rule drop_behind_overlay)
  moreover have "take (length old + length ?t) dst = old @ ?t" unfolding dst_def by (subst take_through_overlay) simp_all
  moreover have "length old + length ?t = min siz (length old + length str + 1)" using False by simp
  moreover have "old @ ?t = take (siz - 1) (old @ str) @ [0]" using False by simp
  moreover have "length old < siz" using False by simp
  ultimately show ?thesis by metis
qed

theorem bounded_append_stays_inside_witness:
  "(\<exists>dst. lt_strlcat ([97] @ 0 # [7, 7, 7]) ([98, 99, 100] @ 0 # []) 4 = Ret (dst, 4)
      \<and> length dst = 5 \<and> drop 4 dst = [7] \<and> take 4 dst = [97, 98, 99, 0])
    \<and> lt_strlcat ([97, 97] @ 0 # [7]) ([98] @ 0 # []) 1 = Ret ([97, 97, 0, 7], 3)"
proof
  show "\<exists>dst. lt_strlcat ([97] @ 0 # [7, 7, 7]) ([98, 99, 100] @ 0 # []) 4 = Ret (dst, 4)
      \<and> length dst = 5 \<and> drop 4 dst = [7] \<and> take 4 dst = [97, 98, 99, 0]"
  proof -
    have "0 \<notin> set [97 :: byte]" "0 \<notin> set [98, 99, 100 :: byte]" "1 \<le> (4 :: nat)" "4 \<le> length ([97] @ 0 # [7, 7, 7 :: byte])"
      by simp_all
    from bounded_append_stays_inside [OF this, of "[]"] show ?thesis by (simp add: eval_nat_numeral)
  qed
  show "lt_strlcat ([97, 97] @ 0 # [7]) ([98] @ 0 # []) 1 = Ret ([97, 97, 0, 7], 3)"
    using bounded_append_stays_inside [of "[97, 97]" "[98]" 1 "[7]" "[]"] by simp
qed

end
