(* ===== verification/Search_Path.thy ===== *)
theory Search_Path
  imports Ltdl_Base
begin

text \<open>
  The search path of \<^verbatim>\<open>src/lib/libltdl/ltdl.c\<close>: bringing a path into its canonical form, walking over its
  directories, and the operations on the path the program has set. The system is one where a path is
  separated by colons and directories by slashes. A callback gets the buffer with the name of the file
  and gives it back; what it works on besides the static variables is \<open>d\<close>.
\<close>

definition LT_PATHSEP_CHAR :: byte where
  "LT_PATHSEP_CHAR = 58"

definition DIRSEP :: byte where
  "DIRSEP = 47"

section \<open>The canonical form\<close>

text \<open>The loop over the path; \<open>dest\<close> is the position in the copy.\<close>

fun canon_loop :: "byte list \<Rightarrow> byte list \<Rightarrow> nat \<Rightarrow> (byte list \<times> nat) outcome" where
  "canon_loop [] canonical dest = Crash"
| "canon_loop (c # path) canonical dest =
     (if c = 0 then Ret (canonical, dest)
      else
        obind (peek path 0) (\<lambda>c1.
        if c = LT_PATHSEP_CHAR \<and> (dest = 0 \<or> c1 = LT_PATHSEP_CHAR \<or> c1 = 0) then canon_loop path canonical dest
        else if c \<noteq> DIRSEP then
          obind (poke canonical dest c) (\<lambda>canonical. canon_loop path canonical (dest + 1))
        else if c1 \<noteq> LT_PATHSEP_CHAR \<and> c1 \<noteq> 0 \<and> c1 \<noteq> DIRSEP then
          obind (poke canonical dest DIRSEP) (\<lambda>canonical. canon_loop path canonical (dest + 1))
        else canon_loop path canonical dest))"

text \<open>The number of errors, and the copy if there is one.\<close>

definition canonicalize_path ::
  "(nat \<Rightarrow> bool) \<Rightarrow> (nat \<Rightarrow> byte) \<Rightarrow> byte list \<Rightarrow> 'a ltdl_scheme \<Rightarrow> (nat \<times> byte list option \<times> 'a ltdl_scheme) outcome"
where
  "canonicalize_path av junk path s =
     obind (peek path 0) (\<lambda>c.
     c_assert (c \<noteq> 0)
       (obind (c_strlen path) (\<lambda>n.
        obind (lt__malloc av junk (1 + n) s) (\<lambda>(canonical, s).
        case canonical of
          None \<Rightarrow> Ret (1, None, s)
        | Some canonical \<Rightarrow>
            obind (canon_loop path canonical 0) (\<lambda>(canonical, dest).
            obind (poke canonical dest 0) (\<lambda>canonical. Ret (0, Some canonical, s)))))))"

definition set_argz_error :: "nat \<Rightarrow> 'a ltdl_scheme \<Rightarrow> 'a ltdl_scheme" where
  "set_argz_error e s = LT__SETERROR (if e = ENOMEM then LT_ERROR_NO_MEMORY else LT_ERROR_UNKNOWN) s"

definition argzize_path ::
  "(nat \<Rightarrow> bool) \<Rightarrow> (nat \<Rightarrow> byte) \<Rightarrow> byte list \<Rightarrow> 'a ltdl_scheme \<Rightarrow> (nat \<times> argz \<times> 'a ltdl_scheme) outcome" where
  \<comment> \<open>the vector of the caller is null before the call\<close>
  "argzize_path av junk path s =
     obind (argz_create_sep av junk path (sint LT_PATHSEP_CHAR)) (\<lambda>(error, v).
     let v = (case v of None \<Rightarrow> (None, 0) | Some v \<Rightarrow> v)
     in if error \<noteq> 0 then Ret (1, v, set_argz_error error s) else Ret (0, v, s))"

section \<open>The directories of a path\<close>

type_synonym ('d, 'a) dir_callback =
  "byte list \<Rightarrow> 'd \<Rightarrow> 'a ltdl_scheme \<Rightarrow> (int \<times> byte list \<times> 'd \<times> 'a ltdl_scheme) outcome option"

text \<open>
  The name of a file in the directory at \<open>e\<close> of the vector: the buffer is used again if it is large enough.
  Without memory for it there is no buffer.
\<close>

definition join_name ::
  "(nat \<Rightarrow> bool) \<Rightarrow> (nat \<Rightarrow> byte) \<Rightarrow> byte list \<Rightarrow> byte list option \<Rightarrow> nat \<Rightarrow> byte list option \<Rightarrow> nat \<Rightarrow> 'a ltdl_scheme
   \<Rightarrow> ((byte list \<times> nat) option \<times> 'a ltdl_scheme) outcome" where
  "join_name av junk dir_name base_name lenbase filename filenamesize s =
     obind (c_strlen dir_name) (\<lambda>lendir.
     obind
       (if size_add (size_add 1 lendir) lenbase \<ge> filenamesize then
          let n = size_add (size_add (size_add 1 lendir) 1) lenbase
          in obind (lt__malloc av junk n s) (\<lambda>(f, s). Ret (f, n, s))
        else Ret (filename, filenamesize, s)) (\<lambda>(filename, filenamesize, s).
     case filename of
       None \<Rightarrow> Ret (None, s)
     | Some filename \<Rightarrow>
         c_assert (filenamesize > lendir)
           (obind (strcpy_at filename 0 dir_name) (\<lambda>filename.
            obind
              (case base_name of
                 None \<Rightarrow> Ret filename
               | Some base \<Rightarrow>
                   obind (peek base 0) (\<lambda>b0.
                   if b0 = 0 then Ret filename
                   else
                     obind (peek filename (size_diff lendir 1)) (\<lambda>last.
                     obind (if last \<noteq> DIRSEP
                            then obind (poke filename lendir DIRSEP) (\<lambda>filename. Ret (filename, lendir + 1))
                            else Ret (filename, lendir)) (\<lambda>(filename, lendir).
                     strcpy_at filename lendir base)))) (\<lambda>filename.
            Ret (Some (filename, filenamesize), s))))))"

partial_function (option) dir_loop ::
  "(nat \<Rightarrow> bool) \<Rightarrow> (nat \<Rightarrow> byte) \<Rightarrow> argz \<Rightarrow> byte list option \<Rightarrow> nat \<Rightarrow> ('d, 'a) dir_callback
   \<Rightarrow> nat option \<Rightarrow> byte list option \<Rightarrow> nat \<Rightarrow> 'd \<Rightarrow> 'a ltdl_scheme \<Rightarrow> (int \<times> 'd \<times> 'a ltdl_scheme) outcome option" where
  "dir_loop av junk v base_name lenbase func dir_name filename filenamesize d s =
     rbind (Some (argz_next v dir_name)) (\<lambda>dir_name.
     case (dir_name, fst v) of
       (Some e, Some block) \<Rightarrow>
         rbind (Some (join_name av junk (drop e block) base_name lenbase filename filenamesize s)) (\<lambda>(name, s).
         case name of
           None \<Rightarrow> Some (Ret (0, d, s))
         | Some (filename, filenamesize) \<Rightarrow>
             rbind (func filename d s) (\<lambda>(result, filename, d, s).
             if result \<noteq> 0 then Some (Ret (result, d, s))
             else dir_loop av junk v base_name lenbase func dir_name (Some filename) filenamesize d s))
     | _ \<Rightarrow> Some (Ret (0, d, s)))"

text \<open>\<^verbatim>\<open>LT_STRLEN\<close> may be used on a null pointer.\<close>

definition LT_STRLEN :: "byte list option \<Rightarrow> nat outcome" where
  "LT_STRLEN s = (case s of None \<Rightarrow> Ret 0 | Some m \<Rightarrow> c_strlen m)"

definition foreach_dirinpath ::
  "(nat \<Rightarrow> bool) \<Rightarrow> (nat \<Rightarrow> byte) \<Rightarrow> byte list option \<Rightarrow> byte list option \<Rightarrow> ('d, 'a) dir_callback
   \<Rightarrow> 'd \<Rightarrow> 'a ltdl_scheme \<Rightarrow> (int \<times> 'd \<times> 'a ltdl_scheme) outcome option" where
  "foreach_dirinpath av junk search_path base_name func d s =
     rbind (Some (LT_STRLEN base_name)) (\<lambda>lenbase.
     rbind (Some (case search_path of None \<Rightarrow> Ret 0 | Some p \<Rightarrow> peek p 0)) (\<lambda>c.
     case search_path of
       None \<Rightarrow> Some (Ret (0, d, LT__SETERROR LT_ERROR_FILE_NOT_FOUND s))
     | Some path \<Rightarrow>
         if c = 0 then Some (Ret (0, d, LT__SETERROR LT_ERROR_FILE_NOT_FOUND s))
         else
           rbind (Some (canonicalize_path av junk path s)) (\<lambda>(errors, canonical, s).
           case canonical of
             None \<Rightarrow> Some (Ret (0, d, s))
           | Some canonical \<Rightarrow>
               rbind (Some (argzize_path av junk canonical s)) (\<lambda>(errors, v, s).
               if errors \<noteq> 0 then Some (Ret (0, d, s))
               else dir_loop av junk v base_name lenbase func None None 0 d s))))"

section \<open>The path the program has set\<close>

definition lt_argz_insert ::
  "(nat \<Rightarrow> bool) \<Rightarrow> (nat \<Rightarrow> byte) \<Rightarrow> argz \<Rightarrow> nat option \<Rightarrow> byte list \<Rightarrow> 'a ltdl_scheme
   \<Rightarrow> (nat \<times> argz \<times> 'a ltdl_scheme) outcome" where
  "lt_argz_insert av junk v before entry s =
     obind (case before of
              Some b \<Rightarrow> argz_insert av junk v (Some b) entry
            | None \<Rightarrow> obind (c_strlen entry) (\<lambda>n. argz_append av junk v entry (1 + n))) (\<lambda>(error, v).
     if error \<noteq> 0 then Ret (1, v, set_argz_error error s) else Ret (0, v, s))"

text \<open>A cast to \<^verbatim>\<open>int\<close>.\<close>

definition to_int :: "nat \<Rightarrow> int" where
  "to_int n = sint (of_nat n :: 32 word)"

text \<open>\<open>before\<close> is the distance from the start of the path; the result is the number of errors and the path.\<close>

definition lt_dlpath_insertdir ::
  "(nat \<Rightarrow> bool) \<Rightarrow> (nat \<Rightarrow> byte) \<Rightarrow> byte list option \<Rightarrow> nat option \<Rightarrow> byte list \<Rightarrow> 'a ltdl_scheme
   \<Rightarrow> (nat \<times> byte list option \<times> 'a ltdl_scheme) outcome" where
  "lt_dlpath_insertdir av junk ppath before dir s =
     obind (canonicalize_path av junk dir s) (\<lambda>(errors, canonical, s).
     case canonical of
       None \<Rightarrow> Ret (1, ppath, s)
     | Some canonical \<Rightarrow>
         obind (peek canonical 0) (\<lambda>c0.
         c_assert (c0 \<noteq> 0)
           (case ppath of
              None \<Rightarrow>
                c_assert (before = None)
                  (obind (lt__strdup av junk dir s) (\<lambda>(copy, s). Ret (if copy = None then 1 else 0, copy, s)))
            | Some path \<Rightarrow>
                obind (argzize_path av junk path s) (\<lambda>(errors, v, s).
                if errors \<noteq> 0 then Ret (1, ppath, s)
                else
                  obind (c_strlen path) (\<lambda>len.
                  c_assert (case before of None \<Rightarrow> True | Some b \<Rightarrow> to_int b \<le> to_int len)
                    (obind (lt_argz_insert av junk v before dir s) (\<lambda>(errors, v, s).
                     if errors \<noteq> 0 then Ret (1, ppath, s)
                     else
                       obind (argz_stringify v (sint LT_PATHSEP_CHAR)) (\<lambda>v.
                       Ret (0, if fst v = ppath then ppath else fst v, s)))))))))"

text \<open>Null or the empty string adds nothing.\<close>

definition given_dir :: "byte list option \<Rightarrow> bool outcome" where
  "given_dir dir = (case dir of None \<Rightarrow> Ret False | Some d \<Rightarrow> obind (peek d 0) (\<lambda>c. Ret (c \<noteq> 0)))"

definition lt_dladdsearchdir ::
  "(nat \<Rightarrow> bool) \<Rightarrow> (nat \<Rightarrow> byte) \<Rightarrow> byte list option \<Rightarrow> 'a ltdl_scheme \<Rightarrow> (nat \<times> 'a ltdl_scheme) outcome" where
  "lt_dladdsearchdir av junk search_dir s =
     obind (given_dir search_dir) (\<lambda>given.
     if given then
       obind (lt_dlpath_insertdir av junk (user_search_path s) None (the search_dir) s) (\<lambda>(errors, path, s).
       Ret (if errors \<noteq> 0 then 1 else 0, s\<lparr>user_search_path := path\<rparr>))
     else Ret (0, s))"

text \<open>\<open>before\<close> is the distance from \<open>user_search_path\<close>, or from the null pointer.\<close>

definition lt_dlinsertsearchdir ::
  "(nat \<Rightarrow> bool) \<Rightarrow> (nat \<Rightarrow> byte) \<Rightarrow> int option \<Rightarrow> byte list option \<Rightarrow> 'a ltdl_scheme \<Rightarrow> (nat \<times> 'a ltdl_scheme) outcome" where
  "lt_dlinsertsearchdir av junk before search_dir s =
     obind (case before of
              None \<Rightarrow> Ret False
            | Some b \<Rightarrow> if b < 0 then Ret True else obind (LT_STRLEN (user_search_path s)) (\<lambda>len. Ret (b \<ge> int len))) (\<lambda>outside.
     if outside then Ret (1, LT__SETERROR LT_ERROR_INVALID_POSITION s)
     else
       obind (given_dir search_dir) (\<lambda>given.
       if given then
         obind (lt_dlpath_insertdir av junk (user_search_path s) (map_option nat before) (the search_dir) s)
           (\<lambda>(errors, path, s). Ret (if errors \<noteq> 0 then 1 else 0, s\<lparr>user_search_path := path\<rparr>))
       else Ret (0, s)))"

definition lt_dlsetsearchpath ::
  "(nat \<Rightarrow> bool) \<Rightarrow> (nat \<Rightarrow> byte) \<Rightarrow> byte list option \<Rightarrow> 'a ltdl_scheme \<Rightarrow> (nat \<times> 'a ltdl_scheme) outcome" where
  "lt_dlsetsearchpath av junk search_path s =
     (let s = s\<lparr>user_search_path := None\<rparr> in
      obind (given_dir search_path) (\<lambda>given.
      if \<not> given then Ret (0, s)
      else
        obind (canonicalize_path av junk (the search_path) s) (\<lambda>(errors, canonical, s).
        Ret (errors, s\<lparr>user_search_path := canonical\<rparr>))))"

definition lt_dlgetsearchpath :: "'a ltdl_scheme \<Rightarrow> byte list option" where
  "lt_dlgetsearchpath s = user_search_path s"

section \<open>The elements of a path\<close>

text \<open>An element without the slashes that another follows, and without those at its end.\<close>

fun clean :: "byte list \<Rightarrow> byte list" where
  "clean [] = []"
| "clean (c # w) = (if c = DIRSEP \<and> (w = [] \<or> hd w = DIRSEP) then clean w else c # clean w)"

definition elements :: "byte list \<Rightarrow> byte list list" where
  "elements x = map clean (tokens {LT_PATHSEP_CHAR} x)"

fun join_path :: "byte list list \<Rightarrow> byte list" where
  "join_path [] = []"
| "join_path (w # ws) = w @ concat (map (\<lambda>w. LT_PATHSEP_CHAR # w) ws)"

text \<open>What the loop writes; \<open>first\<close> is whether the copy is still empty.\<close>

fun squash :: "bool \<Rightarrow> byte list \<Rightarrow> byte list" where
  "squash first [] = []"
| "squash first (c # x) =
     (if c = LT_PATHSEP_CHAR \<and> (first \<or> x = [] \<or> hd x = LT_PATHSEP_CHAR) then squash first x
      else if c \<noteq> DIRSEP then c # squash False x
      else if x \<noteq> [] \<and> hd x \<noteq> LT_PATHSEP_CHAR \<and> hd x \<noteq> DIRSEP then DIRSEP # squash False x
      else squash first x)"

lemma separators [simp]: "LT_PATHSEP_CHAR \<noteq> DIRSEP" "DIRSEP \<noteq> LT_PATHSEP_CHAR" "LT_PATHSEP_CHAR \<noteq> 0" "DIRSEP \<noteq> 0"
  by (simp_all add: LT_PATHSEP_CHAR_def DIRSEP_def)

lemma tokens_Nil [simp]: "tokens A [] = []"
  by (simp add: tokens.simps)

lemma length_squash: "length (squash first x) \<le> length x"
  by (induction x arbitrary: first) (simp_all add: le_SucI)

lemma canon_loop_result:
  assumes "0 \<notin> set x" and "dest + length x < length m"
  shows "canon_loop (x @ 0 # r) m dest = Ret (overlay m dest (squash (dest = 0) x), dest + length (squash (dest = 0) x))"
  using assms
proof (induction x arbitrary: m dest)
  case (Cons c x)
  let ?next = "if x = [] then 0 else hd x"
  have next_char: "peek (x @ 0 # r) 0 = Ret ?next" by (cases x) (simp_all add: mem_simps)
  have c: "c \<noteq> 0" and rest: "0 \<notin> set x" using Cons.prems(1) by auto
  have hd: "x \<noteq> [] \<Longrightarrow> hd x \<noteq> 0" using rest by (cases x) auto
  have wrote: "obind (poke m dest d) (\<lambda>m. canon_loop (x @ 0 # r) m (dest + 1))
      = Ret (overlay m dest (d # squash False x), dest + length (d # squash False x))" for d
    using Cons.IH [of "dest + 1" "m[dest := d]"] Cons.prems rest length_squash [of False x]
    by (simp add: mem_simps overlay_Cons)
  have skip: "canon_loop (x @ 0 # r) m dest = Ret (overlay m dest (squash (dest = 0) x), dest + length (squash (dest = 0) x))"
    using Cons.IH [of dest m] Cons.prems(2) rest by simp
  have "canon_loop ((c # x) @ 0 # r) m dest =
     (if c = LT_PATHSEP_CHAR \<and> (dest = 0 \<or> ?next = LT_PATHSEP_CHAR \<or> ?next = 0) then canon_loop (x @ 0 # r) m dest
      else if c \<noteq> DIRSEP then obind (poke m dest c) (\<lambda>m. canon_loop (x @ 0 # r) m (dest + 1))
      else if ?next \<noteq> LT_PATHSEP_CHAR \<and> ?next \<noteq> 0 \<and> ?next \<noteq> DIRSEP
      then obind (poke m dest DIRSEP) (\<lambda>m. canon_loop (x @ 0 # r) m (dest + 1))
      else canon_loop (x @ 0 # r) m dest)"
    using c by (simp only: append_Cons canon_loop.simps next_char if_False obind.simps)
  then show ?case
    unfolding wrote skip using hd by (cases "x = []") auto
qed simp

lemma tokens_sep: "c \<in> A \<Longrightarrow> tokens A (c # x) = tokens A x"
  by (subst (1 2) tokens.simps) simp

lemma tokens_char: "c \<notin> A \<Longrightarrow> tokens A (c # x) = (c # takeWhile (\<lambda>c. c \<notin> A) x) # tokens A (dropWhile (\<lambda>c. c \<notin> A) x)"
  by (subst tokens.simps) simp

lemma tokens_split:
  "tokens {d} x = (if takeWhile (\<lambda>c. c \<noteq> d) x = [] then [] else [takeWhile (\<lambda>c. c \<noteq> d) x]) @ tokens {d} (dropWhile (\<lambda>c. c \<noteq> d) x)"
  by (cases x) (auto simp: tokens_sep tokens_char)

lemma squash_inside:
  "squash False x = clean (takeWhile (\<lambda>c. c \<noteq> LT_PATHSEP_CHAR) x)
     @ concat (map (\<lambda>w. LT_PATHSEP_CHAR # clean w) (tokens {LT_PATHSEP_CHAR} (dropWhile (\<lambda>c. c \<noteq> LT_PATHSEP_CHAR) x)))"
proof (induction x)
  case Nil
  then show ?case by simp
next
  case (Cons c x)
  consider "c = LT_PATHSEP_CHAR" "x = []" | "c = LT_PATHSEP_CHAR" "x \<noteq> []" "hd x = LT_PATHSEP_CHAR"
    | "c = LT_PATHSEP_CHAR" "x \<noteq> []" "hd x \<noteq> LT_PATHSEP_CHAR" | "c \<noteq> LT_PATHSEP_CHAR" by blast
  then show ?case
  proof cases
    case 1
    then show ?thesis by (simp add: tokens_sep)
  next
    case 2
    then have "takeWhile (\<lambda>c. c \<noteq> LT_PATHSEP_CHAR) x = []" "dropWhile (\<lambda>c. c \<noteq> LT_PATHSEP_CHAR) x = x" by (cases x; simp)+
    with 2 Cons show ?thesis by (simp add: tokens_sep)
  next
    case 3
    then have "takeWhile (\<lambda>c. c \<noteq> LT_PATHSEP_CHAR) x \<noteq> []" by (cases x) simp_all
    with 3 Cons tokens_split [of LT_PATHSEP_CHAR x] show ?thesis by (simp add: tokens_sep)
  next
    case 4
    then show ?thesis using Cons by (cases x) (auto split: if_splits)
  qed
qed

lemma squash_start: "squash True x = join_path (dropWhile (\<lambda>w. w = []) (elements x))"
proof (induction x)
  case (Cons c x)
  consider "c = LT_PATHSEP_CHAR" | "c \<noteq> LT_PATHSEP_CHAR" "c = DIRSEP \<and> (x = [] \<or> hd x = LT_PATHSEP_CHAR)"
    | "c = DIRSEP" "x \<noteq> []" "hd x = DIRSEP" | "c \<noteq> LT_PATHSEP_CHAR" "\<not> (c = DIRSEP \<and> (x = [] \<or> hd x \<in> {LT_PATHSEP_CHAR, DIRSEP}))"
    by auto
  then show ?case
  proof cases
    case 1
    then show ?thesis using Cons by (simp add: elements_def tokens_sep)
  next
    case 2
    then show ?thesis using Cons by (cases x) (auto simp: elements_def tokens_char tokens_sep)
  next
    case 3
    then obtain y where x: "x = DIRSEP # y" by (cases x) auto
    have "elements (DIRSEP # x) = elements x"
      by (auto simp: elements_def x tokens_char)
    with 3 Cons show ?thesis by (simp add: x)
  next
    case 4
    let ?w = "takeWhile (\<lambda>c. c \<noteq> LT_PATHSEP_CHAR) x"
    have "clean (c # ?w) = c # clean ?w" using 4 by (cases x) auto
    moreover have "squash True (c # x) = c # squash False x" using 4 by (cases x) auto
    ultimately show ?thesis using 4 by (simp add: elements_def tokens_char squash_inside comp_def)
  qed
qed (simp add: elements_def)

lemma canonicalize_path_result:
  assumes "0 \<notin> set x" and "x \<noteq> []" and "av (1 + length x)"
  shows "\<exists>junk'. canonicalize_path av junk (x @ 0 # r) s
    = Ret (0, Some (join_path (dropWhile (\<lambda>w. w = []) (elements x)) @ 0 # junk'), s)"
proof -
  let ?m = "map junk [0..<1 + length x]" and ?y = "squash True x"
  have "x ! 0 \<noteq> 0" using assms(1,2) by (metis length_greater_0_conv nth_mem)
  moreover have "canon_loop (x @ 0 # r) ?m 0 = Ret (overlay ?m 0 ?y, length ?y)"
    using canon_loop_result [of x 0 ?m r] assms(1) by simp
  moreover have "poke (overlay ?m 0 ?y) (length ?y) 0 = Ret (?y @ 0 # drop (length ?y + 1) ?m)"
    using length_squash [of True x] by (simp add: poke_def overlay_def list_update_append upd_conv_take_nth_drop del: upt_Suc)
  ultimately show ?thesis
    using assms by (auto simp: canonicalize_path_def mem_simps nth_append squash_start simp del: upt_Suc)
qed

lemma first_char:
  assumes "x \<noteq> []" and "0 \<notin> set x"
  shows "peek (x @ 0 # r) 0 = Ret (hd x)" and "hd x \<noteq> 0"
  using assms by (cases x; simp add: mem_simps)+

section \<open>The walk over the directories\<close>

text \<open>What the callback is called with, in order, until it answers something else than zero.\<close>

fun visit :: "('n \<Rightarrow> 'd \<Rightarrow> 's \<Rightarrow> (int \<times> 'd \<times> 's) outcome option) \<Rightarrow> 'n list \<Rightarrow> 'd \<Rightarrow> 's \<Rightarrow> (int \<times> 'd \<times> 's) outcome option" where
  "visit g [] d s = Some (Ret (0, d, s))"
| "visit g (f # fs) d s = rbind (g f d s) (\<lambda>(r, d, s). if r \<noteq> 0 then Some (Ret (r, d, s)) else visit g fs d s)"

text \<open>The callback looks at the name in the buffer only; it may write to the buffer.\<close>

definition reads_name ::
  "('d, 'a) dir_callback \<Rightarrow> (byte list \<Rightarrow> 'd \<Rightarrow> 'a ltdl_scheme \<Rightarrow> (int \<times> 'd \<times> 'a ltdl_scheme) outcome option) \<Rightarrow> bool" where
  "reads_name func g \<longleftrightarrow> (\<forall>f junk d s. 0 \<notin> set f \<longrightarrow>
     (\<exists>buf. length buf = length (f @ 0 # junk) \<and> func (f @ 0 # junk) d s = rbind (g f d s) (\<lambda>(r, d, s). Some (Ret (r, buf, d, s)))))"

definition buffer_ok :: "byte list option \<Rightarrow> nat \<Rightarrow> bool" where
  "buffer_ok filename n \<longleftrightarrow> (case filename of None \<Rightarrow> n = 0 | Some m \<Rightarrow> length m = n \<and> n < size_mod)"

lemma join_name_result:
  assumes w: "w \<noteq> []" "0 \<notin> set w" "last w \<noteq> DIRSEP" and b: "b \<noteq> []" "0 \<notin> set b"
    and small: "length w + length b + 2 < size_mod" and buf: "buffer_ok filename n"
  shows "\<exists>m n'. join_name (\<lambda>_. True) junk (w @ 0 # rest) (Some (b @ 0 # r)) (length b) filename n s
      = Ret (Some ((w @ DIRSEP # b) @ 0 # m, n'), s) \<and> buffer_ok (Some ((w @ DIRSEP # b) @ 0 # m)) n'"
proof -
  let ?need = "length w + length b + 2"
  have sizes: "size_add (size_add 1 (length w)) (length b) = length w + length b + 1"
    "size_add (size_add (size_add 1 (length w)) 1) (length b) = ?need"
    "size_diff (length w) 1 = length w - 1"
    using small w(1) by (auto simp: size_simps Suc_le_eq)
  have "\<exists>M. (if size_add (size_add 1 (length w)) (length b) \<ge> n then
      let n = size_add (size_add (size_add 1 (length w)) 1) (length b)
      in obind (lt__malloc (\<lambda>_. True) junk n s) (\<lambda>(f, s). Ret (f, n, s))
    else Ret (filename, n, s)) = Ret (Some M, length M, s) \<and> ?need \<le> length M \<and> length M < size_mod"
  proof (cases "length w + length b + 1 \<ge> n")
    case True
    then show ?thesis unfolding sizes using small by (simp del: upt_Suc)
  next
    case False
    with buf obtain M where "filename = Some M" "length M = n" "n < size_mod" by (cases filename) (auto simp: buffer_ok_def)
    with False show ?thesis unfolding sizes by auto
  qed
  then obtain M where M: "(if size_add (size_add 1 (length w)) (length b) \<ge> n then
      let n = size_add (size_add (size_add 1 (length w)) 1) (length b)
      in obind (lt__malloc (\<lambda>_. True) junk n s) (\<lambda>(f, s). Ret (f, n, s))
    else Ret (filename, n, s)) = Ret (Some M, length M, s)" "?need \<le> length M" "length M < size_mod" by blast
  define M1 where "M1 = overlay M 0 (w @ [0])"
  have M1: "length M1 = length M" "M1 ! (length w - 1) = last w"
    using M(2) w(1) by (auto simp: M1_def nth_overlay nth_append last_conv_nth)
  have steps: "strcpy_at M 0 (w @ 0 # rest) = Ret M1" "peek M1 (length w - 1) = Ret (last w)" "poke M1 (length w) DIRSEP = Ret (M1[length w := DIRSEP])"
    "strcpy_at (M1[length w := DIRSEP]) (length w + 1) (b @ 0 # r) = Ret (overlay (M1[length w := DIRSEP]) (length w + 1) (b @ [0]))"
    using strcpy_at_in [OF w(2), of 0 M rest] strcpy_at_in [OF b(2), of "length w + 1" "M1[length w := DIRSEP]" r] M(2) M1
    by (simp_all add: M1_def mem_simps)
  have final: "overlay (M1[length w := DIRSEP]) (length w + 1) (b @ [0]) = (w @ DIRSEP # b) @ 0 # drop ?need M"
    using M(2) by (simp add: M1_def overlay_def list_update_append add.commute)
  have b0: "peek (b @ 0 # r) 0 = Ret (b ! 0)" "b ! 0 \<noteq> 0"
    using b by (auto simp: mem_simps nth_append) (metis length_greater_0_conv nth_mem)
  have "join_name (\<lambda>_. True) junk (w @ 0 # rest) (Some (b @ 0 # r)) (length b) filename n s
      = Ret (Some ((w @ DIRSEP # b) @ 0 # drop ?need M, length M), s)"
    using w M(2) b0 steps M(1) unfolding join_name_def sizes(3) c_strlen_terminated [OF w(2)] obind.simps M(1)
    by (simp add: final del: append_assoc append_Cons One_nat_def)
  moreover have "length ((w @ DIRSEP # b) @ 0 # drop ?need M) = length M" using M(2) by simp
  ultimately show ?thesis using M(3) by (auto simp: buffer_ok_def)
qed

text \<open>For an empty directory the byte in front of the buffer is read, whether the buffer is new or not.\<close>

lemma join_name_empty:
  assumes b: "b \<noteq> []" "0 \<notin> set b" and small: "length b + 2 < size_mod" and buf: "buffer_ok filename n"
  shows "join_name (\<lambda>_. True) junk (0 # rest) (Some (b @ 0 # r)) (length b) filename n s = Crash"
proof -
  have sizes: "size_add (size_add 1 0) (length b) = length b + 1" "size_add (size_add (size_add 1 0) 1) (length b) = length b + 2"
    "size_diff 0 1 = size_mod - 1"
    using small by (auto simp: size_simps size_diff_def size_of_int_def size_mod_def)
  have len0: "c_strlen (0 # rest) = Ret 0" using c_strlen_terminated [of "[]" rest] by simp
  have b0: "peek (b @ 0 # r) 0 = Ret (b ! 0)" "b ! 0 \<noteq> 0"
    using b by (auto simp: mem_simps nth_append) (metis length_greater_0_conv nth_mem)
  obtain M where M: "(if length b + 1 \<ge> n then
      let n = length b + 2 in obind (lt__malloc (\<lambda>_. True) junk n s) (\<lambda>(f, s). Ret (f, n, s))
    else Ret (filename, n, s)) = Ret (Some M, length M, s)" "0 < length M" "length M < size_mod"
  proof (cases "length b + 1 \<ge> n")
    case True
    then show ?thesis using small by (intro that [of "map junk [0..<length b + 2]"]) (simp_all del: upt_Suc)
  next
    case False
    with buf obtain M where "filename = Some M" "length M = n" "n < size_mod" by (cases filename) (auto simp: buffer_ok_def)
    with False show ?thesis by (intro that [of M]) auto
  qed
  have "strcpy_at M 0 (0 # rest) = Ret (overlay M 0 [0])" using strcpy_at_in [of "[]" 0 M rest] M(2) by simp
  moreover have "length (overlay M 0 [0]) = length M" using M(2) by (cases M) (simp_all add: overlay_def)
  then have "peek (overlay M 0 [0]) (size_mod - 1) = Crash"
    using M(3) by (simp add: peek_def)
  ultimately show ?thesis
    using b0 M(1,2) unfolding join_name_def len0 obind.simps sizes by (simp del: One_nat_def)
qed

lemma run_cases [case_names Stuck Ret Halt Crash]:
  assumes "m = None \<Longrightarrow> P" and "\<And>x y z. m = Some (Ret (x, y, z)) \<Longrightarrow> P" and "m = Some Halt \<Longrightarrow> P" and "m = Some Crash \<Longrightarrow> P"
  shows P
  using assms by (metis option.exhaust outcome.exhaust prod_cases3)

lemma next_entry:
  assumes "0 \<notin> set x" and "fst v = Some (argz_of (us @ x # xs) @ junk)" and "snd v = length (argz_of (us @ x # xs))"
  shows "argz_next v (Some (length (argz_of us))) = Ret (if xs = [] then None else Some (length (argz_of (us @ [x]))))"
  using assms by (cases xs) (simp_all add: argz_next_def argz_matched_def argz_of_def)

text \<open>The rest of the vector may end with an empty directory, which is the root.\<close>

definition root_last :: "bool \<Rightarrow> byte list list" where
  "root_last rooted = (if rooted then [[]] else [])"

definition walked :: "bool \<Rightarrow> (int \<times> 'd \<times> 's) outcome option \<Rightarrow> (int \<times> 'd \<times> 's) outcome option" where
  "walked rooted result = rbind result (\<lambda>(r, d, s). if r = 0 \<and> rooted then Some Crash else Some (Ret (r, d, s)))"

lemma dir_loop_root:
  assumes "b \<noteq> []" and "0 \<notin> set b" and "length b + 2 < size_mod" and "buffer_ok filename n"
    and "fst v = Some (argz_of (us @ [[]]) @ junk')" and "argz_next v dir_name = Ret (Some (length (argz_of us)))"
  shows "dir_loop (\<lambda>_. True) junk v (Some (b @ 0 # r)) (length b) func dir_name filename n d s = Some Crash"
proof -
  have "drop (length (argz_of us)) (argz_of (us @ [[]]) @ junk') = 0 # junk'" by (simp add: argz_of_def)
  then show ?thesis
    using assms(5,6) by (subst dir_loop.simps) (simp add: join_name_empty [OF assms(1-4)] del: drop_append)
qed

lemma dir_loop_from:
  assumes func: "reads_name func g" and b: "b \<noteq> []" "0 \<notin> set b" "length b + 2 < size_mod"
    and v: "fst v = Some (argz_of (us @ ws @ root_last rooted) @ junk')" "snd v = length (argz_of (us @ ws @ root_last rooted))"
    and ws: "\<forall>w\<in>set ws. w \<noteq> [] \<and> 0 \<notin> set w \<and> last w \<noteq> DIRSEP \<and> length w + length b + 2 < size_mod"
    and buf: "buffer_ok filename n"
    and start: "argz_next v dir_name = Ret (if ws @ root_last rooted = [] then None else Some (length (argz_of us)))"
  shows "dir_loop (\<lambda>_. True) junk v (Some (b @ 0 # r)) (length b) func dir_name filename n d s
    = walked rooted (visit g (map (\<lambda>w. w @ DIRSEP # b) ws) d s)"
  using v ws buf start
proof (induction ws arbitrary: us dir_name filename n d s)
  case Nil
  show ?case
  proof (cases rooted)
    case True
    with Nil dir_loop_root [OF b Nil.prems(4)] show ?thesis by (simp add: root_last_def walked_def)
  next
    case False
    with Nil show ?thesis by (subst dir_loop.simps) (simp add: root_last_def walked_def)
  qed
next
  case (Cons x xs)
  let ?f = "x @ DIRSEP # b" and ?xs = "xs @ root_last rooted"
  have at: "drop (length (argz_of us)) (the (fst v)) = x @ 0 # argz_of ?xs @ junk'"
    using Cons.prems(1) by (simp add: argz_of_def)
  have x: "x \<noteq> []" "0 \<notin> set x" "last x \<noteq> DIRSEP" "length x + length b + 2 < size_mod" using Cons.prems(3) by auto
  obtain m n' where name: "join_name (\<lambda>_. True) junk (x @ 0 # argz_of ?xs @ junk') (Some (b @ 0 # r)) (length b) filename n s
      = Ret (Some (?f @ 0 # m, n'), s)" "buffer_ok (Some (?f @ 0 # m)) n'"
    using join_name_result [OF x(1-3) b(1,2) x(4) Cons.prems(4)] by blast
  have "0 \<notin> set ?f" using x(2) b(2) by simp
  then obtain buf where f: "length buf = length (?f @ 0 # m)"
    "func (?f @ 0 # m) d s = rbind (g ?f d s) (\<lambda>(r, d, s). Some (Ret (r, buf, d, s)))"
    using func unfolding reads_name_def by blast
  have buf: "buffer_ok (Some buf) n'" using f(1) name(2) by (simp add: buffer_ok_def)
  have "argz_next v (Some (length (argz_of us))) = Ret (if ?xs = [] then None else Some (length (argz_of (us @ [x]))))"
    by (rule next_entry [OF x(2), of v us ?xs junk']) (use Cons.prems(1,2) in simp_all)
  then have rest: "dir_loop (\<lambda>_. True) junk v (Some (b @ 0 # r)) (length b) func (Some (length (argz_of us))) (Some buf) n' d s
      = walked rooted (visit g (map (\<lambda>w. w @ DIRSEP # b) xs) d s)" for d s
    using Cons.IH [of "us @ [x]" "Some buf" n' "Some (length (argz_of us))" d s] Cons.prems(1-3) buf by simp
  obtain block where block: "fst v = Some block" using Cons.prems(1) by blast
  have "dir_loop (\<lambda>_. True) junk v (Some (b @ 0 # r)) (length b) func dir_name filename n d s
      = rbind (func (?f @ 0 # m) d s) (\<lambda>(result, filename, d, s). if result \<noteq> 0 then Some (Ret (result, d, s))
          else dir_loop (\<lambda>_. True) junk v (Some (b @ 0 # r)) (length b) func (Some (length (argz_of us))) (Some filename) n' d s)"
    using Cons.prems(5) at name(1) by (subst dir_loop.simps) (simp add: block)
  also have "\<dots> = walked rooted (visit g (map (\<lambda>w. w @ DIRSEP # b) (x # xs)) d s)"
    unfolding f(2) by (cases "g ?f d s" rule: run_cases) (simp_all add: rest, simp_all add: walked_def)
  finally show ?case .
qed

section \<open>Splitting what has been joined\<close>

lemma set_clean: "set (clean w) \<subseteq> set w"
  by (induction w) auto

lemma length_clean: "length (clean w) \<le> length w"
  by (induction w) auto

lemma clean_Nil: "clean w = [] \<longleftrightarrow> set w \<subseteq> {DIRSEP}"
proof (induction w)
  case (Cons c w)
  then show ?case by (cases w) auto
qed simp

lemma last_clean: "clean w \<noteq> [] \<Longrightarrow> last (clean w) \<noteq> DIRSEP"
proof (induction w)
  case (Cons c w)
  then show ?case using clean_Nil [of w] by (cases w) (auto split: if_splits)
qed simp

lemma tokens_word: "d \<notin> set w \<Longrightarrow> w \<noteq> [] \<Longrightarrow> tokens {d} (w @ d # x) = w # tokens {d} x"
  by (cases w) (auto simp: tokens_char tokens_sep takeWhile_append)

lemma tokens_last_word: "d \<notin> set w \<Longrightarrow> w \<noteq> [] \<Longrightarrow> tokens {d} w = [w]"
proof (cases w)
  case (Cons c y)
  assume "d \<notin> set w"
  then have "takeWhile (\<lambda>c. c \<noteq> d) y = y" "dropWhile (\<lambda>c. c \<noteq> d) y = []" "c \<notin> {d}" by (auto simp: Cons takeWhile_eq_all_conv)
  then show ?thesis by (simp only: Cons tokens_char tokens_Nil insert_iff empty_iff simp_thms)
qed simp

lemma join_path_Cons: "ws \<noteq> [] \<Longrightarrow> join_path (w # ws) = w @ LT_PATHSEP_CHAR # join_path ws"
  by (cases ws) simp_all

lemma tokens_join: "\<forall>w\<in>set ws. LT_PATHSEP_CHAR \<notin> set w \<Longrightarrow> tokens {LT_PATHSEP_CHAR} (join_path ws) = filter (\<lambda>w. w \<noteq> []) ws"
proof (induction ws)
  case (Cons w ws)
  then have "w = [] \<or> tokens {LT_PATHSEP_CHAR} (w @ LT_PATHSEP_CHAR # y) = w # tokens {LT_PATHSEP_CHAR} y" for y
    using tokens_word by auto
  moreover have "w = [] \<or> tokens {LT_PATHSEP_CHAR} w = [w]" using Cons.prems tokens_last_word by auto
  ultimately show ?case
    using Cons by (cases "ws = []") (auto simp add: tokens_sep join_path_Cons simp del: join_path.simps(2), simp_all)
qed simp

lemma filter_words [simp]: "\<forall>w\<in>set ws. w \<noteq> [] \<Longrightarrow> filter (\<lambda>w. w \<noteq> []) ws = ws"
  by simp

lemma tokens_sub: "w \<in> set (tokens A x) \<Longrightarrow> w \<noteq> [] \<and> set w \<subseteq> set x - A \<and> length w \<le> length x"
proof (induction "length x" arbitrary: x rule: less_induct)
  case less
  show ?case
  proof (cases x)
    case (Cons c y)
    let ?r = "dropWhile (\<lambda>c. c \<notin> A) y"
    show ?thesis
    proof (cases "c \<in> A")
      case True
      with less.prems less.hyps [of y] show ?thesis by (auto simp: Cons tokens_sep)
    next
      case False
      have "set ?r \<subseteq> set y" "length ?r \<le> length y" by (auto dest: set_dropWhileD simp: length_dropWhile_le)
      moreover have "set (takeWhile (\<lambda>c. c \<notin> A) y) \<subseteq> set y - A" "length (takeWhile (\<lambda>c. c \<notin> A) y) \<le> length y"
        by (auto dest: set_takeWhileD simp: length_takeWhile_le)
      ultimately show ?thesis using False less.prems less.hyps [of ?r] by (auto simp: Cons tokens_char)
    qed
  qed (use less.prems in simp)
qed

section \<open>The vector of a path\<close>

lemma argz_of_Cons: "argz_of (w # ws) = w @ concat (map (\<lambda>w. 0 # w) ws) @ [0]"
proof (induction ws arbitrary: w)
  case (Cons x xs)
  have "argz_of (w # x # xs) = w @ 0 # argz_of (x # xs)" by (simp add: argz_of_def)
  then show ?case by (simp only: Cons) simp
qed (simp add: argz_of_def)

lemma stringify_words:
  assumes "w \<noteq> []" and "\<forall>x\<in>set (w # ws). 0 \<notin> set x" and "length (argz_of (w # ws)) < size_mod"
  shows "argz_stringify (Some (argz_of (w # ws) @ junk), length (argz_of (w # ws))) (sint LT_PATHSEP_CHAR)
    = Ret (Some (join_path (w # ws) @ 0 # junk), length (argz_of (w # ws)))"
proof -
  obtain c cs where w: "w = c # cs" using assms(1) by (cases w) auto
  let ?t = "cs @ concat (map (\<lambda>w. 0 # w) ws)" and ?f = "\<lambda>c. if c = 0 then LT_PATHSEP_CHAR else c"
  have m: "argz_of (w # ws) = c # ?t @ [0]" by (simp only: argz_of_Cons w) simp
  have "size_diff (size_diff (length (argz_of (w # ws))) 1) 1 = length ?t"
    using assms(3) unfolding m by (simp add: size_simps)
  moreover have keep: "\<forall>x\<in>set xs. 0 \<notin> set x \<Longrightarrow> map ?f (concat (map (\<lambda>w. 0 # w) xs)) = concat (map (\<lambda>w. LT_PATHSEP_CHAR # w) xs)" for xs
    by (induction xs) (auto intro!: map_idI)
  have "map ?f ?t = cs @ concat (map (\<lambda>w. LT_PATHSEP_CHAR # w) ws)"
    using keep [of ws] assms(2) by (auto simp: w intro!: map_idI)
  then have "stringify_loop LT_PATHSEP_CHAR (argz_of (w # ws) @ junk) (length ?t) = Ret (join_path (w # ws) @ 0 # junk)"
    using stringify_loop_result [of "length ?t" "argz_of (w # ws) @ junk" LT_PATHSEP_CHAR] unfolding m by (simp add: w del: map_append)
  moreover have "sint LT_PATHSEP_CHAR \<noteq> 0" by (simp add: LT_PATHSEP_CHAR_def)
  ultimately show ?thesis unfolding argz_stringify_def argz_matched_def
    by (simp add: m)
qed

lemma join_path_append:
  "us \<noteq> [] \<Longrightarrow> ws \<noteq> [] \<Longrightarrow> join_path (us @ join_path ws # vs) = join_path (us @ ws @ vs)"
  by (cases us; cases ws) simp_all

lemma join_path_first: "ws \<noteq> [] \<Longrightarrow> join_path (join_path ws # vs) = join_path (ws @ vs)"
  by (cases ws) simp_all

lemma join_path_last:
  "ws \<noteq> [] \<Longrightarrow> \<forall>w\<in>set ws. LT_PATHSEP_CHAR \<notin> set w \<Longrightarrow>
    (join_path ws = [] \<or> last (join_path ws) = LT_PATHSEP_CHAR) \<longleftrightarrow> last ws = []"
proof (induction ws)
  case (Cons w ws)
  show ?case
  proof (cases "ws = []")
    case True
    have "w \<noteq> [] \<Longrightarrow> last w \<noteq> LT_PATHSEP_CHAR" using Cons.prems by (metis last_in_set list.set_intros(1))
    with True show ?thesis by auto
  next
    case False
    then show ?thesis using Cons by (auto simp add: join_path_Cons simp del: join_path.simps(2))
  qed
qed simp

lemma argzize_path_result:
  assumes "ws \<noteq> []" and "\<forall>w\<in>set ws. LT_PATHSEP_CHAR \<notin> set w" and "0 \<notin> set (join_path ws)"
    and "length (join_path ws) + 1 < size_mod"
  shows "\<exists>v junk'. argzize_path (\<lambda>_. True) junk (join_path ws @ 0 # r) s = Ret (0, v, s)
    \<and> v = (Some (argz_of (filter (\<lambda>w. w \<noteq> []) ws @ (if last ws = [] then [[]] else [])) @ junk'),
        length (argz_of (filter (\<lambda>w. w \<noteq> []) ws @ (if last ws = [] then [[]] else []))))"
proof -
  have "squeeze LT_PATHSEP_CHAR False (join_path ws) = argz_of (filter (\<lambda>w. w \<noteq> []) ws @ (if last ws = [] then [[]] else []))"
    using join_path_last [OF assms(1,2)] by (simp add: squeeze_tokens tokens_join [OF assms(2)] argz_of_def)
  then show ?thesis
    using create_sep_result [OF assms(3), of LT_PATHSEP_CHAR "\<lambda>_. True" junk r] assms(4) by (auto simp: argzize_path_def)
qed

lemma elements_ok:
  assumes "w \<in> set (elements x)"
  shows "set w \<subseteq> set x" and "LT_PATHSEP_CHAR \<notin> set w" and "length w \<le> length x" and "w \<noteq> [] \<Longrightarrow> last w \<noteq> DIRSEP"
proof -
  obtain t where t: "w = clean t" "t \<in> set (tokens {LT_PATHSEP_CHAR} x)" using assms by (auto simp: elements_def)
  have "set t \<subseteq> set x - {LT_PATHSEP_CHAR}" "length t \<le> length x" using tokens_sub [OF t(2)] by auto
  with set_clean [of t] length_clean [of t] last_clean [of t] t(1)
  show "set w \<subseteq> set x" "LT_PATHSEP_CHAR \<notin> set w" "length w \<le> length x" "w \<noteq> [] \<Longrightarrow> last w \<noteq> DIRSEP" by auto
qed

lemma canonical_length: "length (join_path (dropWhile (\<lambda>w. w = []) (elements x))) \<le> length x"
  using length_squash [of True x] by (simp add: squash_start)

lemma canonical_chars: "set (join_path (dropWhile (\<lambda>w. w = []) (elements x))) \<subseteq> set x"
proof -
  have "set (squash f x) \<subseteq> set x" for f by (induction x arbitrary: f) (auto split: if_splits)
  then show ?thesis by (simp add: squash_start [symmetric])
qed

lemma filter_dropWhile: "filter (\<lambda>w. w \<noteq> []) (dropWhile (\<lambda>w. w = []) ws) = filter (\<lambda>w. w \<noteq> []) ws"
  by (induction ws) auto

lemma last_dropWhile_Nil: "dropWhile (\<lambda>w. w = []) ws \<noteq> [] \<Longrightarrow> last (dropWhile (\<lambda>w. w = []) ws) = last ws"
  by (induction ws) auto

definition directories :: "byte list \<Rightarrow> byte list list" where
  "directories x = filter (\<lambda>w. w \<noteq> []) (elements x)"

text \<open>The last element of the vector is empty where the last directory is the root, or there is none.\<close>

definition ends_in_root :: "byte list \<Rightarrow> bool" where
  "ends_in_root x \<longleftrightarrow> elements x = [] \<or> last (elements x) = []"

lemma canonical_vector:
  assumes "0 \<notin> set x" and "length x + 1 < size_mod"
  shows "\<exists>v junk'. argzize_path (\<lambda>_. True) junk (join_path (dropWhile (\<lambda>w. w = []) (elements x)) @ 0 # r) s = Ret (0, v, s)
    \<and> v = (Some (argz_of (directories x @ root_last (ends_in_root x)) @ junk'),
        length (argz_of (directories x @ root_last (ends_in_root x))))"
proof -
  let ?ws = "dropWhile (\<lambda>w. w = []) (elements x)"
  have small: "0 \<notin> set (join_path ?ws)" "length (join_path ?ws) + 1 < size_mod"
    using canonical_chars [of x] canonical_length [of x] assms by (auto simp: subset_iff)
  show ?thesis
  proof (cases "?ws = []")
    case True
    then have "\<forall>w\<in>set (elements x). w = []" by (simp add: dropWhile_eq_Nil_conv)
    then have "ends_in_root x" "directories x = []"
      by (cases "elements x = []"; simp add: ends_in_root_def directories_def)+
    moreover have empty: "join_path ?ws = []" by (simp only: True join_path.simps)
    ultimately show ?thesis unfolding empty
      using create_sep_result [of "[]" LT_PATHSEP_CHAR "\<lambda>_. True" junk r] small by (auto simp: argzize_path_def argz_of_def root_last_def)
  next
    case False
    have "\<forall>w\<in>set ?ws. LT_PATHSEP_CHAR \<notin> set w" using elements_ok(2) [of _ x] set_dropWhileD by fast
    then show ?thesis
      using argzize_path_result [OF False _ small, of junk r s] False last_dropWhile_Nil [OF False]
      by (auto simp: filter_dropWhile directories_def ends_in_root_def root_last_def)
  qed
qed

lemma directories_ok:
  assumes "0 \<notin> set x" and "length x + length b + 2 < size_mod"
  shows "\<forall>w\<in>set (directories x). w \<noteq> [] \<and> 0 \<notin> set w \<and> last w \<noteq> DIRSEP \<and> length w + length b + 2 < size_mod"
  using elements_ok [of _ x] assms by (fastforce simp: directories_def)

text \<open>
  C22: Walking over a path that is not empty calls the callback with the file's name behind each directory of the
  path but the root, in order, with one slash between them and none doubled, until a call answers something else
  than zero, which is the result. If none does, the result is zero, unless the last directory of the path is
  the root or it has none: then the byte in front of the buffer is read.
\<close>

theorem walk_visits_directories:
  assumes "reads_name func g" and "b \<noteq> []" and "0 \<notin> set b" and "0 \<notin> set x" and "x \<noteq> []"
    and "length x + length b + 2 < size_mod"
  shows "foreach_dirinpath (\<lambda>_. True) junk (Some (x @ 0 # r)) (Some (b @ 0 # r')) func d s
    = rbind (visit g (map (\<lambda>w. w @ DIRSEP # b) (directories x)) d s)
        (\<lambda>(result, d, s). if result = 0 \<and> ends_in_root x then Some Crash else Some (Ret (result, d, s)))"
proof -
  note x0 = first_char [OF assms(5,4)]
  obtain junk1 where canonical: "canonicalize_path (\<lambda>_. True) junk (x @ 0 # r) s
      = Ret (0, Some (join_path (dropWhile (\<lambda>w. w = []) (elements x)) @ 0 # junk1), s)"
    using canonicalize_path_result [OF assms(4,5), of "\<lambda>_. True" junk r s] by auto
  have "length x + 1 < size_mod" using assms(6) by simp
  from canonical_vector [OF assms(4) this, of junk junk1 s]
  obtain v junk2 where v: "argzize_path (\<lambda>_. True) junk (join_path (dropWhile (\<lambda>w. w = []) (elements x)) @ 0 # junk1) s = Ret (0, v, s)"
    "v = (Some (argz_of (directories x @ root_last (ends_in_root x)) @ junk2), length (argz_of (directories x @ root_last (ends_in_root x))))"
    by (elim exE conjE)
  have "directories x @ root_last (ends_in_root x) \<noteq> []"
    by (auto simp: root_last_def ends_in_root_def directories_def filter_empty_conv)
  then have start: "argz_next v None
      = Ret (if directories x @ root_last (ends_in_root x) = [] then None else Some (length (argz_of [])))"
    by (auto simp: v(2) argz_next_def argz_matched_def argz_of_def)
  have "dir_loop (\<lambda>_. True) junk v (Some (b @ 0 # r')) (length b) func None None 0 d s
      = walked (ends_in_root x) (visit g (map (\<lambda>w. w @ DIRSEP # b) (directories x)) d s)"
    by (rule dir_loop_from [OF assms(1-3), where us = "[]", OF _ _ _ _ _ start])
      (use assms(6) directories_ok [OF assms(4,6)] in \<open>simp_all add: v(2) buffer_ok_def\<close>)
  then show ?thesis
    using x0 canonical v(1) assms(3) by (simp add: foreach_dirinpath_def LT_STRLEN_def walked_def)
qed

theorem walk_visits_directories_witness:
  "foreach_dirinpath (\<lambda>_. True) (\<lambda>_. 7) (Some ([58, 97, 47, 47, 98, 47, 58, 47, 58, 99] @ 0 # [])) (Some ([102] @ 0 # []))
      (\<lambda>m d s. Some (Ret (if length d = 1 then 5 else 0, m, d @ [takeWhile (\<lambda>c. c \<noteq> 0) m], s))) [] fresh_ltdl
    = Some (Ret (5, [[97, 47, 98, 47, 102], [99, 47, 102]], fresh_ltdl))"
proof -
  let ?g = "\<lambda>f d s. Some (Ret (if length d = 1 then 5 else 0, d @ [f], s))"
  have e: "elements [58, 97, 47, 47, 98, 47, 58, 47, 58, 99] = [[97, 47, 98], [], [99]]"
    by (simp add: elements_def LT_PATHSEP_CHAR_def DIRSEP_def tokens_sep tokens_char)
  have "reads_name (\<lambda>m d s. Some (Ret (if length d = 1 then 5 else 0, m, d @ [takeWhile (\<lambda>c. c \<noteq> 0) m], s))) ?g"
    unfolding reads_name_def
  proof (intro allI impI exI conjI)
    fix f junk :: "byte list" assume "0 \<notin> set f"
    then have "takeWhile (\<lambda>c. c \<noteq> 0) (f @ 0 # junk) = f" by (subst takeWhile_append2) auto
    then show "Some (Ret (if length d = 1 then 5 else 0, f @ 0 # junk, d @ [takeWhile (\<lambda>c. c \<noteq> 0) (f @ 0 # junk)], s))
      = rbind (?g f d s) (\<lambda>(r, d, s). Some (Ret (r, f @ 0 # junk, d, s)))" for d s by simp
  qed simp
  from walk_visits_directories [OF this, of "[102]" "[58, 97, 47, 47, 98, 47, 58, 47, 58, 99]" "\<lambda>_. 7" "[]" "[]" "[]" fresh_ltdl] show ?thesis
    by (simp add: ends_in_root_def directories_def e size_mod_def DIRSEP_def)
qed

text \<open>
  The root is never visited: at the end of the path it is the byte in front of the buffer that is read, and
  elsewhere it is passed over, so of \<^verbatim>\<open>/:a\<close> only \<^verbatim>\<open>a\<close> is visited.
\<close>

lemma root_is_passed_over:
  "directories [DIRSEP, LT_PATHSEP_CHAR, 97] = [[97]]" "\<not> ends_in_root [DIRSEP, LT_PATHSEP_CHAR, 97]"
  by (simp_all add: directories_def ends_in_root_def elements_def LT_PATHSEP_CHAR_def DIRSEP_def tokens_sep tokens_char)

lemma separators_end_in_root:
  assumes "set x \<subseteq> {LT_PATHSEP_CHAR, DIRSEP}"
  shows "directories x = []" and "ends_in_root x"
proof -
  have "w = []" if "w \<in> set (elements x)" for w
  proof (rule ccontr)
    assume "w \<noteq> []"
    then have "last w \<in> set x" "last w \<noteq> LT_PATHSEP_CHAR" "last w \<noteq> DIRSEP"
      using elements_ok [OF that] by (metis last_in_set subsetD)+
    with assms show False by auto
  qed
  then show "directories x = []" "ends_in_root x"
    by (cases "elements x = []"; simp add: ends_in_root_def directories_def)+
qed

section \<open>The path as a list of directories\<close>

definition good_dirs :: "byte list list \<Rightarrow> bool" where
  "good_dirs ws \<longleftrightarrow> (\<forall>w\<in>set ws. w \<noteq> [] \<and> 0 \<notin> set w \<and> LT_PATHSEP_CHAR \<notin> set w)"

definition holds_path :: "'a ltdl_scheme \<Rightarrow> byte list list \<Rightarrow> bool" where
  "holds_path s es \<longleftrightarrow> good_dirs es \<and>
     (case user_search_path s of None \<Rightarrow> es = [] | Some m \<Rightarrow> es \<noteq> [] \<and> (\<exists>junk. m = join_path es @ 0 # junk))"

text \<open>The element of a path that a position points into, or at the separator behind it.\<close>

fun element_at :: "byte list list \<Rightarrow> nat \<Rightarrow> nat" where
  "element_at [] p = 0"
| "element_at (w # ws) p = (if p \<le> length w then 0 else Suc (element_at ws (p - length w - 1)))"

lemma argz_of_append [simp]: "argz_of (us @ ws) = argz_of us @ argz_of ws"
  by (simp add: argz_of_def)

lemma argz_of_simps [simp]: "argz_of [] = []" "argz_of (w # ws) = w @ 0 # argz_of ws"
  by (simp_all add: argz_of_def)

lemma length_argz_of: "es \<noteq> [] \<Longrightarrow> length (argz_of es) = length (join_path es) + 1"
proof (induction es)
  case (Cons w ws)
  then show ?case by (cases "ws = []") (auto simp: join_path_Cons simp del: join_path.simps(2), simp_all)
qed simp

lemma element_at_split:
  "p < length (argz_of es) \<Longrightarrow>
    \<exists>w ws i. es = take (element_at es p) es @ w # ws \<and> p = length (argz_of (take (element_at es p) es)) + i \<and> i \<le> length w"
proof (induction es arbitrary: p)
  case (Cons x xs)
  show ?case
  proof (cases "p \<le> length x")
    case False
    then have "p - length x - 1 < length (argz_of xs)" using Cons.prems by simp
    from Cons.IH [OF this] obtain w ws i where "xs = take (element_at xs (p - length x - 1)) xs @ w # ws"
      "p - length x - 1 = length (argz_of (take (element_at xs (p - length x - 1)) xs)) + i" "i \<le> length w"
      by (elim exE conjE)
    with False show ?thesis by (intro exI [of _ w] exI [of _ ws] exI [of _ i]) simp
  qed simp
qed simp

lemma entry_start_in_word:
  assumes "0 \<notin> set w" and "i \<le> length w"
  shows "entry_start (argz_of us @ w @ rest) (length (argz_of us) + i) = Ret (length (argz_of us))"
  using assms(2)
proof (induction i)
  case 0
  show ?case
  proof (cases us rule: rev_cases)
    case (snoc vs v)
    then show ?thesis by (simp add: mem_simps nth_append)
  qed simp
next
  case (Suc i)
  then have "w ! i \<noteq> 0" using assms(1) by (metis Suc_le_eq nth_mem)
  with Suc show ?case by (simp add: mem_simps nth_append)
qed

lemma resized_prefix:
  assumes "length p \<le> n"
  shows "\<exists>j'. resized junk (Some (p @ j)) n = p @ j' \<and> length j' = n - length p"
  using assms by (intro exI [of _ "take (n - length p) j @ map junk [length p + length j..<n]"]) (simp add: resized_def)

lemma argz_append_result:
  assumes "es \<noteq> []" and "0 \<notin> set dir" and "length (argz_of es) + length dir + 1 < size_mod"
  shows "argz_append (\<lambda>_. True) junk (Some (argz_of es @ j), length (argz_of es)) (dir @ 0 # r) (1 + length dir)
    = Ret (0, (Some (argz_of (es @ [dir])), length (argz_of (es @ [dir]))))"
proof -
  obtain j' where r: "resized junk (Some (argz_of es @ j)) (length (argz_of es) + (length dir + 1)) = argz_of es @ j'" "length j' = length dir + 1"
    using resized_prefix [of "argz_of es" "length (argz_of es) + (length dir + 1)" junk j] by auto
  have "size_add (length (argz_of es)) (Suc (length dir)) = length (argz_of es) + (length dir + 1)"
    using assms(3) by (simp add: size_simps)
  moreover have "argz_of es \<noteq> []" using assms(1) by (cases es) simp_all
  ultimately show ?thesis
    using r by (simp add: argz_append_def argz_matched_def write_block_def overlay_def)
qed

lemma argz_insert_result:
  assumes "good_dirs (us @ w # ws)" and "i \<le> length w" and "dir \<noteq> []" and "0 \<notin> set dir"
    and "length (argz_of (us @ w # ws)) + length dir + 1 < size_mod"
  shows "argz_insert (\<lambda>_. True) junk (Some (argz_of (us @ w # ws) @ j), length (argz_of (us @ w # ws))) (Some (length (argz_of us) + i)) (dir @ 0 # r)
    = Ret (0, (Some (argz_of (us @ dir # w # ws)), length (argz_of (us @ dir # w # ws))))"
proof -
  let ?v = "argz_of (us @ w # ws)" and ?n = "length (argz_of (us @ w # ws)) + (length dir + 1)" and ?u = "argz_of us"
  obtain j' where r: "resized junk (Some (?v @ j)) ?n = ?v @ j'" "length j' = length dir + 1"
    using resized_prefix [of ?v ?n junk j] by auto
  have sizes: "size_add 1 (length dir) = length dir + 1" "size_add (length ?v) (length dir + 1) = ?n"
    using assms(5) by (simp_all add: size_simps)
  have start: "entry_start (?v @ j) (length ?u + i) = Ret (length ?u)"
    using entry_start_in_word [OF _ assms(2), of us "0 # argz_of ws @ j"] assms(1) by (simp add: good_dirs_def)
  let ?w = "argz_of (w # ws)"
  have moved: "write_block (?v @ j') (length ?u + (length dir + 1)) (take (length ?v - length ?u) (drop (length ?u) (?v @ j')))
      = Ret (overlay (?v @ j') (length ?u + (length dir + 1)) ?w)"
    using r(2) by (simp add: write_block_def)
  have written: "write_block (overlay (?v @ j') (length ?u + (length dir + 1)) ?w) (length ?u) (dir @ [0])
      = Ret (argz_of (us @ dir # w # ws))"
    using r(2) by (simp add: write_block_def overlay_def)
  note dir = first_char [OF assms(3,4)]
  show ?thesis
    using dir assms(4) start moved written
    by (simp only: argz_insert_def dir obind.simps c_assert_def if_True c_strlen_terminated [OF assms(4)] Let_def option.case fst_conv snd_conv
        start sizes r moved simp_thms if_False) simp
qed

definition add_words :: "byte list list \<Rightarrow> nat option \<Rightarrow> byte list list \<Rightarrow> byte list list" where
  "add_words es before ds =
     (case before of None \<Rightarrow> es @ ds | Some p \<Rightarrow> take (element_at es p) es @ ds @ drop (element_at es p) es)"

lemma good_dirs_append [simp]: "good_dirs (us @ ws) \<longleftrightarrow> good_dirs us \<and> good_dirs ws"
  by (auto simp: good_dirs_def)

lemma good_dirs_Cons: "good_dirs (w # ws) \<longleftrightarrow> w \<noteq> [] \<and> 0 \<notin> set w \<and> LT_PATHSEP_CHAR \<notin> set w \<and> good_dirs ws"
  by (auto simp: good_dirs_def)

lemma good_dirs_path: "good_dirs es \<Longrightarrow> 0 \<notin> set (join_path es)"
proof (induction es)
  case (Cons w ws)
  then show ?case by (cases "ws = []") (auto simp: join_path_Cons good_dirs_Cons simp del: join_path.simps(2), simp)
qed simp

lemma good_dirs_tokens: "good_dirs es \<Longrightarrow> tokens {LT_PATHSEP_CHAR} (join_path es) = es"
  by (subst tokens_join) (auto simp: good_dirs_def)

lemma join_path_Nil: "good_dirs es \<Longrightarrow> join_path es = [] \<longleftrightarrow> es = []"
  by (cases es) (auto simp: good_dirs_Cons)

lemma lt_argz_insert_result:
  assumes "good_dirs es" and "es \<noteq> []" and "dir \<noteq> []" and "0 \<notin> set dir"
    and "case before of None \<Rightarrow> True | Some p \<Rightarrow> p < length (argz_of es)"
    and "length (argz_of es) + length dir + 1 < size_mod"
  shows "lt_argz_insert (\<lambda>_. True) junk (Some (argz_of es @ j), length (argz_of es)) before (dir @ 0 # r) s
    = Ret (0, (Some (argz_of (add_words es before [dir])), length (argz_of (add_words es before [dir]))), s)"
proof (cases before)
  case None
  then show ?thesis
    using argz_append_result [OF assms(2,4,6), of junk j r] assms(4) by (simp add: lt_argz_insert_def add_words_def)
next
  case (Some p)
  then obtain w ws i where at: "es = take (element_at es p) es @ w # ws"
    "p = length (argz_of (take (element_at es p) es)) + i" "i \<le> length w"
    using element_at_split [of p es] assms(5) by auto
  have "drop (element_at es p) es = w # ws"
    using at(1) by (metis append_eq_conv_conj append_take_drop_id same_append_eq)
  then have words: "add_words es before [dir] = take (element_at es p) es @ dir # w # ws" by (simp add: Some add_words_def)
  have "argz_insert (\<lambda>_. True) junk (Some (argz_of es @ j), length (argz_of es)) (Some p) (dir @ 0 # r)
      = Ret (0, (Some (argz_of (add_words es before [dir])), length (argz_of (add_words es before [dir]))))"
    using argz_insert_result [of "take (element_at es p) es" w ws i dir junk j r] assms(1,3,4,6) at(3)
    unfolding words at(1) [symmetric] at(2) [symmetric] by simp
  with Some show ?thesis by (simp add: lt_argz_insert_def)
qed

lemma join_add_words:
  assumes "es \<noteq> []" and "ds \<noteq> []"
  shows "join_path (add_words es before [join_path ds]) = join_path (add_words es before ds)"
proof (cases before)
  case None
  then show ?thesis using join_path_append [OF assms, of "[]"] by (simp add: add_words_def)
next
  case (Some p)
  then show ?thesis
    using join_path_append [OF _ assms(2)] join_path_first [OF assms(2)]
    by (cases "take (element_at es p) es = []") (auto simp add: add_words_def)
qed

lemma join_path_dropWhile: "\<exists>w\<in>set ws. w \<noteq> [] \<Longrightarrow> join_path (dropWhile (\<lambda>w. w = []) ws) \<noteq> []"
  by (induction ws) auto

lemma set_add_words: "set (add_words es before ds) = set es \<union> set ds"
proof (cases before)
  case (Some p)
  have "set es = set (take (element_at es p) es) \<union> set (drop (element_at es p) es)"
    by (metis append_take_drop_id set_append)
  with Some show ?thesis by (auto simp: add_words_def)
qed (simp add: add_words_def)

lemma length_add_words: "length (argz_of (add_words es before ds)) = length (argz_of es) + length (argz_of ds)"
proof (cases before)
  case (Some p)
  have "argz_of es = argz_of (take (element_at es p) es) @ argz_of (drop (element_at es p) es)"
    by (metis append_take_drop_id argz_of_append)
  with Some show ?thesis by (simp add: add_words_def)
qed (simp add: add_words_def)

lemma to_int_small: "n < 2 ^ 31 \<Longrightarrow> to_int n = int n"
  using signed_take_bit_int_eq_self [of 31 "int n"] by (simp add: to_int_def signed_of_nat)

lemma canonical_of_words:
  assumes "good_dirs ds" and "\<exists>w\<in>set ds. clean w \<noteq> []"
  shows "\<exists>canonical junk'. canonicalize_path (\<lambda>_. True) junk (join_path ds @ 0 # r) s = Ret (0, Some (canonical @ 0 # junk'), s)
    \<and> peek (canonical @ 0 # junk') 0 = Ret (hd canonical) \<and> hd canonical \<noteq> 0"
proof -
  let ?d = "join_path ds"
  have d: "?d \<noteq> []" "0 \<notin> set ?d" using assms(2) join_path_Nil [OF assms(1)] good_dirs_path [OF assms(1)] by auto
  define canonical where "canonical = join_path (dropWhile (\<lambda>w. w = []) (elements ?d))"
  obtain junk1 where c: "canonicalize_path (\<lambda>_. True) junk (?d @ 0 # r) s = Ret (0, Some (canonical @ 0 # junk1), s)"
    using canonicalize_path_result [OF d(2,1), of "\<lambda>_. True" junk r s] unfolding canonical_def by auto
  have "\<exists>w\<in>set (elements ?d). w \<noteq> []" using assms(2) by (auto simp: elements_def good_dirs_tokens [OF assms(1)])
  then have "canonical \<noteq> []" unfolding canonical_def by (rule join_path_dropWhile)
  moreover have "0 \<notin> set canonical" using canonical_chars [of ?d] d(2) unfolding canonical_def by auto
  ultimately have "peek (canonical @ 0 # junk1) 0 = Ret (hd canonical)" "hd canonical \<noteq> 0" by (rule first_char)+
  with c show ?thesis by blast
qed

text \<open>What the insertion of a text that lists directories, not all of them the root, makes of a path.\<close>

lemma lt_dlpath_insertdir_result:
  assumes "good_dirs es" and "es \<noteq> []" and "good_dirs ds" and "\<exists>w\<in>set ds. clean w \<noteq> []"
    and "case before of None \<Rightarrow> True | Some p \<Rightarrow> p < length (join_path es) \<and> length (join_path es) < 2 ^ 31"
    and "length (join_path es) + length (join_path ds) + 2 < size_mod"
  shows "\<exists>junk'. lt_dlpath_insertdir (\<lambda>_. True) junk (Some (join_path es @ 0 # j)) before (join_path ds @ 0 # r) s
    = Ret (0, Some (join_path (add_words es before ds) @ 0 # junk'), s)"
proof -
  let ?d = "join_path ds" and ?es = "add_words es before [join_path ds]"
  have ds: "ds \<noteq> []" using assms(4) by auto
  have d: "?d \<noteq> []" "0 \<notin> set ?d" using ds join_path_Nil [OF assms(3)] good_dirs_path [OF assms(3)] by auto
  obtain canonical junk1 where c: "canonicalize_path (\<lambda>_. True) junk (?d @ 0 # r) s = Ret (0, Some (canonical @ 0 # junk1), s)"
    and c0: "peek (canonical @ 0 # junk1) 0 = Ret (hd canonical)" "hd canonical \<noteq> 0"
    using canonical_of_words [OF assms(3,4), of junk r s] by (elim exE conjE)
  have p: "0 \<notin> set (join_path es)" "length (join_path es) + 1 < size_mod" "\<forall>w\<in>set es. LT_PATHSEP_CHAR \<notin> set w"
    "last es \<noteq> []" "filter (\<lambda>w. w \<noteq> []) es = es"
    using good_dirs_path [OF assms(1)] assms(1,2,6) by (auto simp: good_dirs_def)
  obtain junk2 where v: "argzize_path (\<lambda>_. True) junk (join_path es @ 0 # j) s = Ret (0, (Some (argz_of es @ junk2), length (argz_of es)), s)"
    using argzize_path_result [OF assms(2) p(3,1,2), of junk j s] p(4,5) by auto
  have bounds: "case before of None \<Rightarrow> True | Some p \<Rightarrow> p < length (argz_of es)"
    "length (argz_of es) + length ?d + 1 < size_mod"
    using assms(5,6) length_argz_of [OF assms(2)] by (auto split: option.splits)
  note ins = lt_argz_insert_result [OF assms(1,2) d bounds, of junk junk2 r s]
  have all: "\<forall>x\<in>set ?es. x \<noteq> [] \<and> 0 \<notin> set x" using assms(1) d by (auto simp: set_add_words good_dirs_def)
  have "?es \<noteq> []" by (simp add: set_empty [symmetric] set_add_words del: set_empty)
  then obtain w ws where words: "?es = w # ws" by (cases ?es) auto
  have "length (argz_of ?es) < size_mod" unfolding length_add_words using bounds(2) by simp
  with all have "w \<noteq> []" "\<forall>x\<in>set (w # ws). 0 \<notin> set x" "length (argz_of (w # ws)) < size_mod"
    unfolding words by simp_all
  from stringify_words [OF this, of "[]"]
  have "argz_stringify (Some (argz_of ?es), length (argz_of ?es)) (sint LT_PATHSEP_CHAR)
      = Ret (Some (join_path (add_words es before ds) @ [0]), length (argz_of ?es))"
    unfolding words [symmetric] join_add_words [OF assms(2) ds] by simp
  moreover have "case before of None \<Rightarrow> True | Some p \<Rightarrow> to_int p \<le> to_int (length (join_path es))"
    using assms(5) by (auto simp: to_int_small split: option.splits)
  ultimately show ?thesis
    unfolding lt_dlpath_insertdir_def c obind.simps prod.case option.case c0(1)
    using c0(2) v ins p(1) by auto
qed

lemma inserted_in_path:
  assumes "holds_path s es" and "good_dirs ds" and "\<exists>w\<in>set ds. clean w \<noteq> []"
    and "case before of None \<Rightarrow> True | Some p \<Rightarrow> p < length (join_path es) \<and> length (join_path es) < 2 ^ 31"
    and "length (join_path es) + length (join_path ds) + 2 < size_mod"
  shows "\<exists>junk'. lt_dlpath_insertdir (\<lambda>_. True) junk (user_search_path s) before (join_path ds @ 0 # r) s
    = Ret (0, Some (join_path (add_words es before ds) @ 0 # junk'), s)"
proof (cases "user_search_path s")
  case None
  then have es: "es = []" "before = None" using assms(1,4) by (auto simp: holds_path_def split: option.splits)
  obtain canonical junk1 where c: "canonicalize_path (\<lambda>_. True) junk (join_path ds @ 0 # r) s = Ret (0, Some (canonical @ 0 # junk1), s)"
    and c0: "peek (canonical @ 0 # junk1) 0 = Ret (hd canonical)" "hd canonical \<noteq> 0"
    using canonical_of_words [OF assms(2,3), of junk r s] by (elim exE conjE)
  show ?thesis
    unfolding lt_dlpath_insertdir_def c obind.simps prod.case option.case c0(1)
    using c0(2) None es lt__strdup_met [OF good_dirs_path [OF assms(2)], of "\<lambda>_. True" junk r s] by (simp add: add_words_def)
next
  case (Some m)
  then obtain j where m: "m = join_path es @ 0 # j" and es: "es \<noteq> []" "good_dirs es" using assms(1) by (auto simp: holds_path_def)
  show ?thesis unfolding Some m by (rule lt_dlpath_insertdir_result [OF es(2,1) assms(2-5)])
qed

text \<open>The calls of a program on its path, with lists of directories separated by colons, and what each makes of the path.\<close>

datatype path_call = Set_path "byte list list" | Add_dirs "byte list list" | Insert_dirs nat "byte list list"

fun call_path :: "(nat \<Rightarrow> byte) \<Rightarrow> path_call \<Rightarrow> 'a ltdl_scheme \<Rightarrow> (nat \<times> 'a ltdl_scheme) outcome" where
  "call_path junk (Set_path ds) s = lt_dlsetsearchpath (\<lambda>_. True) junk (Some (join_path ds @ [0])) s"
| "call_path junk (Add_dirs ds) s = lt_dladdsearchdir (\<lambda>_. True) junk (Some (join_path ds @ [0])) s"
| "call_path junk (Insert_dirs p ds) s = lt_dlinsertsearchdir (\<lambda>_. True) junk (Some (int p)) (Some (join_path ds @ [0])) s"

fun path_after :: "byte list list \<Rightarrow> path_call \<Rightarrow> byte list list" where
  "path_after es (Set_path ds) = map clean ds"
| "path_after es (Add_dirs ds) = es @ ds"
| "path_after es (Insert_dirs p ds) = add_words es (Some p) ds"

fun call_allowed :: "byte list list \<Rightarrow> path_call \<Rightarrow> bool" where
  "call_allowed es (Set_path ds) \<longleftrightarrow> good_dirs ds \<and> (\<forall>w\<in>set ds. clean w \<noteq> [])"
| "call_allowed es (Add_dirs ds) \<longleftrightarrow> good_dirs ds \<and> (ds \<noteq> [] \<longrightarrow> (\<exists>w\<in>set ds. clean w \<noteq> []))
     \<and> length (join_path es) + length (join_path ds) + 2 < size_mod"
| "call_allowed es (Insert_dirs p ds) \<longleftrightarrow> good_dirs ds \<and> (ds \<noteq> [] \<longrightarrow> (\<exists>w\<in>set ds. clean w \<noteq> []))
     \<and> p < length (join_path es) \<and> length (join_path es) < 2 ^ 31 \<and> length (join_path es) + length (join_path ds) + 2 < size_mod"

lemma given_dir_words: "good_dirs ds \<Longrightarrow> given_dir (Some (join_path ds @ [0])) = Ret (ds \<noteq> [])"
  using join_path_Nil [of ds] good_dirs_path [of ds] first_char(1) [of "join_path ds" "[]"] first_char(2) [of "join_path ds"]
  by (cases "ds = []") (simp_all add: given_dir_def mem_simps)

lemma good_dirs_add: "good_dirs es \<Longrightarrow> good_dirs ds \<Longrightarrow> good_dirs (add_words es before ds)"
  by (auto simp: good_dirs_def set_add_words)

lemma add_words_Nil: "add_words es before [] = es"
  by (simp add: add_words_def split: option.split)

text \<open>C23: Each of the calls that change the path makes of it what it says on lists of directories.\<close>

theorem path_calls_refine_lists:
  assumes "holds_path s es" and "call_allowed es c"
  shows "\<exists>s'. call_path junk c s = Ret (0, s') \<and> holds_path s' (path_after es c)"
proof (cases c)
  case (Set_path ds)
  have ds: "good_dirs ds" "\<forall>w\<in>set ds. clean w \<noteq> []" using assms(2) by (simp_all add: Set_path)
  show ?thesis
  proof (cases "ds = []")
    case True
    then show ?thesis
      using given_dir_words [OF ds(1)] by (simp add: Set_path lt_dlsetsearchpath_def holds_path_def good_dirs_def)
  next
    case False
    have d: "join_path ds \<noteq> []" "0 \<notin> set (join_path ds)" using False join_path_Nil [OF ds(1)] good_dirs_path [OF ds(1)] by auto
    have e: "elements (join_path ds) = map clean ds" by (simp add: elements_def good_dirs_tokens [OF ds(1)])
    have "dropWhile (\<lambda>w. w = []) (map clean ds) = map clean ds" using ds(2) False by (cases ds) auto
    with canonicalize_path_result [OF d(2,1), of "\<lambda>_. True" junk "[]" "s\<lparr>user_search_path := None\<rparr>"]
    obtain junk' where c: "canonicalize_path (\<lambda>_. True) junk (join_path ds @ 0 # []) (s\<lparr>user_search_path := None\<rparr>)
        = Ret (0, Some (join_path (map clean ds) @ 0 # junk'), s\<lparr>user_search_path := None\<rparr>)"
      unfolding e by auto
    have "set (clean w) \<subseteq> set w" for w by (rule set_clean)
    then have "good_dirs (map clean ds)" using ds by (fastforce simp: good_dirs_def)
    with False c show ?thesis
      using given_dir_words [OF ds(1)] by (auto simp: Set_path lt_dlsetsearchpath_def Let_def holds_path_def)
  qed
next
  case (Add_dirs ds)
  have good: "good_dirs es" using assms(1) by (simp add: holds_path_def)
  from Add_dirs have ds: "good_dirs ds" "ds \<noteq> [] \<Longrightarrow> \<exists>w\<in>set ds. clean w \<noteq> []"
    "length (join_path es) + length (join_path ds) + 2 < size_mod" using assms(2) by simp_all
  show ?thesis
  proof (cases "ds = []")
    case True
    then show ?thesis using given_dir_words [OF ds(1)] assms(1) by (simp add: Add_dirs lt_dladdsearchdir_def)
  next
    case False
    then show ?thesis
      using good ds(1) given_dir_words [OF ds(1)] inserted_in_path [OF assms(1) ds(1,2) _ ds(3), of None junk "[]"]
      by (auto simp: Add_dirs lt_dladdsearchdir_def add_words_def holds_path_def)
  qed
next
  case (Insert_dirs p ds)
  then have ds: "good_dirs ds" "ds \<noteq> [] \<Longrightarrow> \<exists>w\<in>set ds. clean w \<noteq> []" "p < length (join_path es)" "length (join_path es) < 2 ^ 31"
    "length (join_path es) + length (join_path ds) + 2 < size_mod" using assms(2) by simp_all
  then obtain j where path: "user_search_path s = Some (join_path es @ 0 # j)" "good_dirs es" "es \<noteq> []"
    using assms(1) by (auto simp: holds_path_def split: option.splits)
  have len: "LT_STRLEN (user_search_path s) = Ret (length (join_path es))"
    using good_dirs_path [OF path(2)] by (simp add: path(1) LT_STRLEN_def)
  show ?thesis
  proof (cases "ds = []")
    case True
    then show ?thesis
      using given_dir_words [OF ds(1)] assms(1) len ds(3) by (simp add: Insert_dirs lt_dlinsertsearchdir_def add_words_Nil)
  next
    case False
    have "add_words es (Some p) ds \<noteq> []" using False by (simp add: add_words_def)
    then show ?thesis
      using given_dir_words [OF ds(1)] len False ds(3) ds(4) inserted_in_path [OF assms(1) ds(1) ds(2) _ ds(5), of "Some p" junk "[]"]
        good_dirs_add [OF path(2) ds(1)]
      by (auto simp: Insert_dirs lt_dlinsertsearchdir_def holds_path_def)
  qed
qed

theorem path_calls_refine_lists_witness:
  "\<exists>s'. call_path (\<lambda>_. 7) (Insert_dirs 2 [[98]]) (fresh_ltdl\<lparr>user_search_path := Some ([97, 58, 99] @ 0 # [])\<rparr>) = Ret (0, s')
    \<and> holds_path s' [[97], [98], [99]]"
proof -
  let ?s = "fresh_ltdl\<lparr>user_search_path := Some ([97, 58, 99] @ 0 # [])\<rparr>"
  have "holds_path ?s [[97], [99]]" by (simp add: holds_path_def good_dirs_def LT_PATHSEP_CHAR_def)
  moreover have "call_allowed [[97], [99]] (Insert_dirs 2 [[98]])"
    by (simp add: good_dirs_def LT_PATHSEP_CHAR_def DIRSEP_def size_mod_def)
  moreover have "path_after [[97], [99]] (Insert_dirs 2 [[98]]) = [[97], [98], [99]]" by (simp add: add_words_def)
  ultimately show ?thesis using path_calls_refine_lists [of ?s "[[97], [99]]" "Insert_dirs 2 [[98]]"] by metis
qed

text \<open>
  Where the path is the empty string, which setting it to separators makes it, a directory that is added is lost
  behind the null the vector begins with.
\<close>

lemma added_to_empty_path_is_lost:
  assumes "user_search_path s = Some (0 # j)" and "good_dirs ds" and "\<exists>w\<in>set ds. clean w \<noteq> []"
    and "length (join_path ds) + 3 < size_mod"
  shows "\<exists>junk'. lt_dladdsearchdir (\<lambda>_. True) junk (Some (join_path ds @ [0])) s = Ret (0, s\<lparr>user_search_path := Some (0 # junk')\<rparr>)"
proof -
  let ?d = "join_path ds" and ?v = "argz_of [[], join_path ds]"
  obtain canonical junk1 where c: "canonicalize_path (\<lambda>_. True) junk (?d @ [0]) s = Ret (0, Some (canonical @ 0 # junk1), s)"
    and c0: "peek (canonical @ 0 # junk1) 0 = Ret (hd canonical)" "hd canonical \<noteq> 0"
    using canonical_of_words [OF assms(2,3), of junk "[]" s] by (elim exE conjE)
  obtain junk2 where v: "argzize_path (\<lambda>_. True) junk (0 # j) s = Ret (0, (Some (argz_of [[]] @ junk2), length (argz_of [[]])), s)"
    using create_sep_result [of "[]" LT_PATHSEP_CHAR "\<lambda>_. True" junk j] by (auto simp: argzize_path_def size_mod_def)
  have d: "0 \<notin> set ?d" "?d \<noteq> []" using good_dirs_path [OF assms(2)] join_path_Nil [OF assms(2)] assms(3) by auto
  have a: "lt_argz_insert (\<lambda>_. True) junk (Some (argz_of [[]] @ junk2), length (argz_of [[]])) None (?d @ [0]) s
      = Ret (0, (Some ?v, length ?v), s)"
    using argz_append_result [of "[[]]" ?d junk junk2 "[]"] d(1) assms(4) by (simp add: lt_argz_insert_def)
  have "size_diff (size_diff (length ?v) 1) 1 = length ?d" using assms(4) by (simp add: size_simps)
  moreover have "sint LT_PATHSEP_CHAR \<noteq> 0" by (simp add: LT_PATHSEP_CHAR_def)
  ultimately obtain junk3 where "argz_stringify (Some ?v, length ?v) (sint LT_PATHSEP_CHAR) = Ret (Some (0 # junk3), length ?v)"
    using stringify_loop_result [of "length ?d" ?v LT_PATHSEP_CHAR] unfolding argz_stringify_def argz_matched_def by simp
  then have "\<exists>junk3. lt_dlpath_insertdir (\<lambda>_. True) junk (Some (0 # j)) None (?d @ [0]) s = Ret (0, Some (0 # junk3), s)"
    unfolding lt_dlpath_insertdir_def c obind.simps prod.case option.case c0(1)
    using c0(2) v a by auto
  moreover have "given_dir (Some (?d @ [0])) = Ret True" using given_dir_words [OF assms(2)] assms(3) by auto
  ultimately show ?thesis using assms(1) by (auto simp: lt_dladdsearchdir_def)
qed

text \<open>The root cannot be added: its canonical form is empty, which an assertion denies.\<close>

lemma root_cannot_be_added: "lt_dladdsearchdir (\<lambda>_. True) (\<lambda>_. 7) (Some [47, 0]) fresh_ltdl = Halt"
  by code_simp

end
