(* ===== verification/Dl_Handles.thy ===== *)
theory Dl_Handles
  imports Search_Path Linked_List
begin

text \<open>
  Loaders and open modules: \<^verbatim>\<open>src/lib/libltdl/lt_dlloader.c\<close> and the part of \<^verbatim>\<open>ltdl.c\<close> that keeps the list of
  handles. Both lists are chains as in \<open>Linked_List\<close>: the pointer to the next handle is \<open>next_item\<close>, the other
  members are the record \<open>lt__handle\<close>. The functions of a loader are outside the program; they work on the
  message that is kept and on a state of their own, \<open>world\<close>. A string that is only compared is the list of its
  characters.
\<close>

section \<open>Loaders and handles\<close>

record lt__advise =
  try_ext :: bool
  advise_resident :: bool
  advise_symglobal :: bool
  advise_symlocal :: bool
  try_preload_only :: bool

text \<open>What a function of a loader does; the loader's \<^verbatim>\<open>dlloader_data\<close> is part of the function.\<close>

type_synonym ('w, 'r) loader_call = "lt_message option \<times> 'w \<Rightarrow> 'r \<times> lt_message option \<times> 'w"

record 'w lt_dlvtable =
  loader_name :: "byte list"
  sym_prefix :: "byte list option"
  module_open :: "(byte list option \<Rightarrow> lt__advise option \<Rightarrow> ('w, nat) loader_call) option"
  module_close :: "(nat \<Rightarrow> ('w, int) loader_call) option"
  find_sym :: "(nat \<Rightarrow> byte list \<Rightarrow> ('w, nat) loader_call) option"
  dlloader_init :: "('w, int) loader_call option"
  dlloader_exit :: "('w, int) loader_call option"
  priority :: int

definition LT_DLLOADER_PREPEND :: int where
  "LT_DLLOADER_PREPEND = 0"

definition LT_DLLOADER_APPEND :: int where
  "LT_DLLOADER_APPEND = 1"

record lt__handle =
  vtable :: nat
  info_filename :: "byte list option"
  info_name :: "byte list option"
  ref_count :: int
  is_resident :: bool
  is_symglobal :: bool
  is_symlocal :: bool
  depcount :: int
  deplibs :: "nat list"
  module :: nat
  interface_data :: "(nat \<times> nat) list"

record 'w dl = ltdl +
  handles :: nat
  handle_store :: "lt__handle store"
  loaders :: nat
  loader_store :: "nat store"
  vtables :: "nat \<rightharpoonup> 'w lt_dlvtable"
  initialized :: int
  world :: 'w

text \<open>What the program asks of its surroundings: memory, and where a new object is put.\<close>

record surroundings =
  met :: "nat \<Rightarrow> bool"
  fresh_bytes :: "nat \<Rightarrow> byte"
  new_place :: "nat set \<Rightarrow> nat"

text \<open>The sizes of the structures.\<close>

definition sizeof_item :: nat where
  "sizeof_item = 16"

definition sizeof_handle :: nat where
  "sizeof_handle = 88"

text \<open>Arithmetic on \<^verbatim>\<open>int\<close>, whose overflow is undefined.\<close>

definition int_value :: "int \<Rightarrow> int outcome" where
  "int_value n = (if - (2 ^ 31) \<le> n \<and> n < 2 ^ 31 then Ret n else Crash)"

definition vtable_at :: "'w dl \<Rightarrow> nat \<Rightarrow> 'w lt_dlvtable outcome" where
  "vtable_at s v = (if v = 0 then Crash else case vtables s v of None \<Rightarrow> Crash | Some vt \<Rightarrow> Ret vt)"

text \<open>A call through a pointer of the loader, which may be null.\<close>

definition call_loader :: "('w, 'r) loader_call option \<Rightarrow> 'w dl \<Rightarrow> ('r \<times> 'w dl) outcome" where
  "call_loader f s =
     (case f of
        None \<Rightarrow> Crash
      | Some f \<Rightarrow> (case f (last_error s, world s) of (r, e, w) \<Rightarrow> Ret (r, s\<lparr>last_error := e, world := w\<rparr>)))"

definition handle_at :: "'w dl \<Rightarrow> nat \<Rightarrow> lt__handle outcome" where
  "handle_at s h = obind (item_at (handle_store s) h) (\<lambda>i. Ret (userdata i))"

definition set_handle :: "'w dl \<Rightarrow> nat \<Rightarrow> lt__handle \<Rightarrow> 'w dl outcome" where
  "set_handle s h f = obind (item_at (handle_store s) h) (\<lambda>i. Ret (s\<lparr>handle_store := (handle_store s)(h \<mapsto> i\<lparr>userdata := f\<rparr>)\<rparr>))"

definition next_handle :: "'w dl \<Rightarrow> nat \<Rightarrow> nat outcome" where
  "next_handle s h = obind (item_at (handle_store s) h) (\<lambda>i. Ret (next_item i))"

section \<open>The list of loaders\<close>

text \<open>The callback of the searches: the item itself if its loader has the name.\<close>

definition loader_callback :: "'w dl \<Rightarrow> byte list \<Rightarrow> nat store \<Rightarrow> nat \<Rightarrow> nat" where
  "loader_callback s name h item =
     (case h item of
        None \<Rightarrow> 0
      | Some i \<Rightarrow>
          (case vtables s (userdata i) of
             None \<Rightarrow> 0
           | Some vt \<Rightarrow> if loader_name vt = name then item else 0))"

definition lt_dlloader_add :: "surroundings \<Rightarrow> nat \<Rightarrow> 'w dl \<Rightarrow> (nat \<times> 'w dl) outcome option" where
  "lt_dlloader_add env v s =
     rbind (Some (if v = 0 then Ret False
                  else obind (vtable_at s v) (\<lambda>vt.
                    Ret (module_open vt \<noteq> None \<and> module_close vt \<noteq> None \<and> find_sym vt \<noteq> None
                      \<and> (priority vt = LT_DLLOADER_PREPEND \<or> priority vt = LT_DLLOADER_APPEND))))) (\<lambda>valid.
     if \<not> valid then Some (Ret (1, LT__SETERROR LT_ERROR_INVALID_LOADER s))
     else
       let (item, h) = slist_box (loader_store s) (if met env sizeof_item then new_place env (dom (loader_store s)) else 0) v
       in if item = 0 then rbind (Some (die s)) (\<lambda>s. Some (Ret (1, s)))
          else
            rbind (Some (vtable_at s v)) (\<lambda>vt.
            if priority vt = LT_DLLOADER_PREPEND then
              rbind (Some (slist_cons h item (loaders s))) (\<lambda>(p, h).
              Some (Ret (0, s\<lparr>loaders := p, loader_store := h\<rparr>)))
            else
              rbind (slist_concat h (loaders s) item) (\<lambda>(p, h).
              Some (Ret (0, s\<lparr>loaders := p, loader_store := h\<rparr>)))))"

definition lt_dlloader_next :: "'w dl \<Rightarrow> nat \<Rightarrow> nat outcome" where
  "lt_dlloader_next s loader =
     (if loader \<noteq> 0 then obind (item_at (loader_store s) loader) (\<lambda>i. Ret (next_item i)) else Ret (loaders s))"

definition lt_dlloader_get :: "'w dl \<Rightarrow> nat \<Rightarrow> nat outcome" where
  "lt_dlloader_get s loader =
     (if loader \<noteq> 0 then obind (item_at (loader_store s) loader) (\<lambda>i. Ret (userdata i)) else Ret 0)"

definition lt_dlloader_find :: "byte list \<Rightarrow> 'w dl \<Rightarrow> nat outcome option" where
  "lt_dlloader_find name s =
     rbind (slist_find (loader_callback s name) (loader_store s) (loaders s)) (\<lambda>item. Some (lt_dlloader_get s item))"

section \<open>Walking over the handles\<close>

text \<open>The interface a client registers: its name, and a test of handles, which may be null.\<close>

type_synonym lt__interface_id = "byte list \<times> (lt__handle store \<Rightarrow> nat \<Rightarrow> byte list \<Rightarrow> int) option"

definition lt_dlinterface_register ::
  "surroundings \<Rightarrow> byte list \<Rightarrow> (lt__handle store \<Rightarrow> nat \<Rightarrow> byte list \<Rightarrow> int) option \<Rightarrow> 'w dl
   \<Rightarrow> (lt__interface_id option \<times> 'w dl) outcome" where
  "lt_dlinterface_register env id_string iface s =
     obind (lt__malloc (met env) (fresh_bytes env) sizeof_item s) (\<lambda>(interface_id, s).
     if interface_id = None then Ret (None, s)
     else
       obind (lt__strdup (met env) (fresh_bytes env) (id_string @ [0]) s) (\<lambda>(copy, s).
       Ret (if copy = None then None else Some (id_string, iface), s)))"

text \<open>The interface check of the handle; null passes every handle.\<close>

definition passes :: "lt__interface_id \<Rightarrow> 'w dl \<Rightarrow> nat \<Rightarrow> bool" where
  "passes iface s handle =
     (case snd iface of None \<Rightarrow> True | Some check \<Rightarrow> check (handle_store s) handle (fst iface) = 0)"

partial_function (option) advance :: "lt__interface_id \<Rightarrow> 'w dl \<Rightarrow> nat \<Rightarrow> nat outcome option" where
  "advance iface s handle =
     (if handle = 0 \<or> passes iface s handle then Some (Ret handle)
      else rbind (Some (next_handle s handle)) (\<lambda>handle. advance iface s handle))"

definition lt_dlhandle_iterate :: "lt__interface_id option \<Rightarrow> 'w dl \<Rightarrow> nat \<Rightarrow> nat outcome option" where
  "lt_dlhandle_iterate iface s place =
     (case iface of
        None \<Rightarrow> Some Halt
      | Some iface \<Rightarrow>
          rbind (Some (if place = 0 then Ret (handles s) else next_handle s place)) (\<lambda>handle. advance iface s handle))"

partial_function (option) lt_dlhandle_fetch ::
  "lt__interface_id option \<Rightarrow> byte list \<Rightarrow> 'w dl \<Rightarrow> nat \<Rightarrow> nat outcome option" where
  \<comment> \<open>\<open>handle\<close> is null at the call\<close>
  "lt_dlhandle_fetch iface name s handle =
     rbind (lt_dlhandle_iterate iface s handle) (\<lambda>handle.
     if handle = 0 then Some (Ret 0)
     else
       rbind (Some (handle_at s handle)) (\<lambda>cur.
       if info_name cur = Some name then Some (Ret handle) else lt_dlhandle_fetch iface name s handle))"

text \<open>The loop of \<open>lt_dlhandle_map\<close>; \<open>func\<close> may not be called with the null pointer.\<close>

partial_function (option) map_loop ::
  "lt__interface_id \<Rightarrow> (nat \<Rightarrow> 'd \<Rightarrow> 'w dl \<Rightarrow> (int \<times> 'd \<times> 'w dl) outcome option) \<Rightarrow> nat \<Rightarrow> 'd \<Rightarrow> 'w dl
   \<Rightarrow> (int \<times> 'd \<times> 'w dl) outcome option" where
  "map_loop iface func cur d s =
     (if cur = 0 then Some (Ret (0, d, s))
      else
        rbind (advance iface s cur) (\<lambda>cur.
        rbind (func cur d s) (\<lambda>(errorcode, d, s).
        if errorcode \<noteq> 0 then Some (Ret (errorcode, d, s)) else map_loop iface func cur d s)))"

definition lt_dlhandle_map ::
  "lt__interface_id option \<Rightarrow> (nat \<Rightarrow> 'd \<Rightarrow> 'w dl \<Rightarrow> (int \<times> 'd \<times> 'w dl) outcome option) \<Rightarrow> 'd \<Rightarrow> 'w dl
   \<Rightarrow> (int \<times> 'd \<times> 'w dl) outcome option" where
  "lt_dlhandle_map iface func d s =
     (case iface of None \<Rightarrow> Some Halt | Some iface \<Rightarrow> map_loop iface func (handles s) d s)"

definition lt_dlmakeresident :: "nat \<Rightarrow> 'w dl \<Rightarrow> (nat \<times> 'w dl) outcome" where
  "lt_dlmakeresident h s =
     (if h = 0 then Ret (1, LT__SETERROR LT_ERROR_INVALID_HANDLE s)
      else
        obind (handle_at s h) (\<lambda>f.
        obind (set_handle s h (f\<lparr>is_resident := True\<rparr>)) (\<lambda>s. Ret (0, s))))"

definition lt_dlisresident :: "nat \<Rightarrow> 'w dl \<Rightarrow> (int \<times> 'w dl) outcome" where
  "lt_dlisresident h s =
     (if h = 0 then Ret (- 1, LT__SETERROR LT_ERROR_INVALID_HANDLE s)
      else obind (handle_at s h) (\<lambda>f. Ret (if is_resident f then 1 else 0, s)))"

definition lt_dlgetinfo :: "nat \<Rightarrow> 'w dl \<Rightarrow> (nat \<times> 'w dl) outcome" where
  \<comment> \<open>the handle the information belongs to, or null\<close>
  "lt_dlgetinfo h s = (if h = 0 then Ret (0, LT__SETERROR LT_ERROR_INVALID_HANDLE s) else Ret (h, s))"

section \<open>Data of the callers\<close>

text \<open>The array ends with a null key.\<close>

fun count_keys :: "(nat \<times> nat) list \<Rightarrow> nat outcome" where
  "count_keys [] = Crash"
| "count_keys (e # es) = (if fst e \<noteq> 0 then obind (count_keys es) (\<lambda>n. Ret (n + 1)) else Ret 0)"

definition set_interface_data :: "nat \<Rightarrow> (nat \<times> nat) list \<Rightarrow> 'w dl \<Rightarrow> 'w dl outcome" where
  "set_interface_data h es s = obind (handle_at s h) (\<lambda>f. set_handle s h (f\<lparr>interface_data := es\<rparr>))"

definition lt_dlcaller_set_data :: "surroundings \<Rightarrow> nat \<Rightarrow> nat \<Rightarrow> nat \<Rightarrow> 'w dl \<Rightarrow> (nat \<times> 'w dl) outcome" where
  "lt_dlcaller_set_data env key_id h data s =
     obind (handle_at s h) (\<lambda>cur.
     obind (if interface_data cur \<noteq> [] then count_keys (interface_data cur) else Ret 0) (\<lambda>n_elements.
     let es = interface_data cur;
         i = length (takeWhile (\<lambda>e. fst e \<noteq> key_id) (take n_elements es))
     in if i < n_elements then
          obind (set_interface_data h (es[i := (fst (es ! i), data)]) s) (\<lambda>s. Ret (snd (es ! i), s))
        else if met env (sizeof_item * (2 + n_elements)) then
          obind (set_interface_data h (take n_elements es @ [(key_id, data), (0, 0)]) s) (\<lambda>s. Ret (0, s))
        else obind (die s) (\<lambda>s. Ret (0, s))))"

fun get_loop :: "nat \<Rightarrow> (nat \<times> nat) list \<Rightarrow> nat outcome" where
  "get_loop key_id [] = Crash"
| "get_loop key_id (e # es) =
     (if fst e = 0 then Ret 0 else if fst e = key_id then Ret (snd e) else get_loop key_id es)"

definition lt_dlcaller_get_data :: "nat \<Rightarrow> nat \<Rightarrow> 'w dl \<Rightarrow> nat outcome" where
  "lt_dlcaller_get_data key_id h s =
     obind (handle_at s h) (\<lambda>cur. if interface_data cur \<noteq> [] then get_loop key_id (interface_data cur) else Ret 0)"

section \<open>Closing a module\<close>

text \<open>The handle and the one in front of it.\<close>

partial_function (option) seek :: "'w dl \<Rightarrow> nat \<Rightarrow> nat \<Rightarrow> nat \<Rightarrow> (nat \<times> nat) outcome option" where
  "seek s handle prev cur =
     (if cur \<noteq> 0 \<and> handle \<noteq> cur then rbind (Some (next_handle s cur)) (\<lambda>n. seek s handle cur n)
      else Some (Ret (prev, cur)))"

text \<open>The loop over the dependencies of a handle, for the values of the index; \<open>close\<close> stands for \<open>lt_dlclose\<close>.\<close>

fun unload_loop ::
  "(nat \<Rightarrow> 'w dl \<Rightarrow> (int \<times> 'w dl) outcome option) \<Rightarrow> nat \<Rightarrow> nat list \<Rightarrow> int \<Rightarrow> 'w dl \<Rightarrow> (int \<times> 'w dl) outcome option" where
  "unload_loop close cur [] errors s = Some (Ret (errors, s))"
| "unload_loop close cur (i # is) errors s =
     rbind (Some (obind (handle_at s cur) (\<lambda>f. peek (deplibs f) i))) (\<lambda>d.
     rbind (Some (handle_at s d)) (\<lambda>dep.
     if is_resident dep then unload_loop close cur is errors s
     else rbind (close d s) (\<lambda>(e, s). unload_loop close cur is (errors + e) s)))"

definition unload_deplibs ::
  "(nat \<Rightarrow> 'w dl \<Rightarrow> (int \<times> 'w dl) outcome option) \<Rightarrow> nat \<Rightarrow> 'w dl \<Rightarrow> (int \<times> 'w dl) outcome option" where
  "unload_deplibs close cur s =
     rbind (Some (handle_at s cur)) (\<lambda>f.
     if depcount f \<noteq> 0 then
       rbind (unload_loop close cur [0..<nat (depcount f)] 0 s) (\<lambda>(errors, s).
       rbind (Some (obind (handle_at s cur) (\<lambda>f. set_handle s cur (f\<lparr>deplibs := []\<rparr>)))) (\<lambda>s. Some (Ret (errors, s))))
     else Some (Ret (0, s)))"

lemma unload_loop_mono:
  assumes "\<And>d s. mono_option (\<lambda>f. close f d s)"
  shows "mono_option (\<lambda>f. unload_loop (close f) cur is errors s)"
proof (induction "is" arbitrary: errors s)
  case Nil
  then show ?case by (auto intro: monotoneI simp: option.leq_refl)
next
  case (Cons i "is")
  have "mono_option (\<lambda>f. if is_resident dep then unload_loop (close f) cur is errors s
      else rbind (close f d s) (\<lambda>(e, s). unload_loop (close f) cur is (errors + e) s))" for dep d
    using Cons.IH assms rbind_mono [of "\<lambda>f. close f d s" "\<lambda>y f. case y of (e, s) \<Rightarrow> unload_loop (close f) cur is (errors + e) s"]
    by (cases "is_resident dep") (auto split: prod.splits)
  then show ?case by (auto intro!: rbind_mono option.const_mono)
qed

lemma unload_deplibs_mono [partial_function_mono]:
  assumes "\<And>d s. mono_option (\<lambda>f. close f d s)"
  shows "mono_option (\<lambda>f. unload_deplibs (close f) cur s)"
proof -
  have "mono_option (\<lambda>fn. if depcount f \<noteq> 0 then rbind (unload_loop (close fn) cur [0..<nat (depcount f)] 0 s) (\<lambda>(errors, s).
       rbind (Some (obind (handle_at s cur) (\<lambda>f. set_handle s cur (f\<lparr>deplibs := []\<rparr>)))) (\<lambda>s. Some (Ret (errors, s))))
     else Some (Ret (0, s)))" for f
  proof (cases "depcount f \<noteq> 0")
    case True
    have "mono_option (\<lambda>fn. case y of (errors, s) \<Rightarrow>
       rbind (Some (obind (handle_at s cur) (\<lambda>f. set_handle s cur (f\<lparr>deplibs := []\<rparr>)))) (\<lambda>s. Some (Ret (errors, s))))" for y
      by (rule option.const_mono)
    moreover have "mono_option (\<lambda>fn. unload_loop (close fn) cur [0..<nat (depcount f)] 0 s)"
      by (rule unload_loop_mono) (rule assms)
    ultimately have "mono_option (\<lambda>fn. rbind (unload_loop (close fn) cur [0..<nat (depcount f)] 0 s) (\<lambda>(errors, s).
       rbind (Some (obind (handle_at s cur) (\<lambda>f. set_handle s cur (f\<lparr>deplibs := []\<rparr>)))) (\<lambda>s. Some (Ret (errors, s)))))"
      by (intro rbind_mono)
    with True show ?thesis by simp
  qed (simp add: option.const_mono)
  then show ?thesis unfolding unload_deplibs_def by (intro rbind_mono option.const_mono)
qed

definition unlink :: "'w dl \<Rightarrow> nat \<Rightarrow> nat \<Rightarrow> 'w dl outcome" where
  "unlink s prev cur =
     obind (next_handle s cur) (\<lambda>n.
     if cur \<noteq> handles s then obind (set_next (handle_store s) prev n) (\<lambda>h. Ret (s\<lparr>handle_store := h\<rparr>))
     else Ret (s\<lparr>handles := n\<rparr>))"

definition count_down :: "nat \<Rightarrow> 'w dl \<Rightarrow> 'w dl outcome" where
  "count_down h s = obind (handle_at s h) (\<lambda>f. obind (int_value (ref_count f - 1)) (\<lambda>r. set_handle s h (f\<lparr>ref_count := r\<rparr>)))"

partial_function (option) lt_dlclose :: "nat \<Rightarrow> 'w dl \<Rightarrow> (int \<times> 'w dl) outcome option" where
  "lt_dlclose h s =
     rbind (seek s h (handles s) (handles s)) (\<lambda>(prev, cur).
     if cur = 0 then Some (Ret (1, LT__SETERROR LT_ERROR_INVALID_HANDLE s))
     else
       rbind (Some (count_down h s)) (\<lambda>s.
       rbind (Some (handle_at s h)) (\<lambda>f.
       if ref_count f \<le> 0 \<and> \<not> is_resident f then
         rbind (Some (vtable_at s (vtable f))) (\<lambda>vt.
         rbind (Some (unlink s prev h)) (\<lambda>s.
         rbind (Some (call_loader (map_option (\<lambda>close. close (module f)) (module_close vt)) s)) (\<lambda>(e, s).
         rbind (unload_deplibs lt_dlclose h s) (\<lambda>(errors, s).
         Some (Ret (e + errors, s\<lparr>handle_store := (handle_store s)(h := None)\<rparr>))))))
       else if is_resident f then Some (Ret (1, LT__SETERROR LT_ERROR_CLOSE_RESIDENT_MODULE s))
       else Some (Ret (0, s)))))"

section \<open>Removing a loader\<close>

text \<open>The loop over the handles: whether one uses the loader, and whether a resident one does.\<close>

partial_function (option) use_loop ::
  "lt__interface_id option \<Rightarrow> nat \<Rightarrow> 'w dl \<Rightarrow> nat \<Rightarrow> bool \<Rightarrow> bool \<Rightarrow> (bool \<times> bool) outcome option" where
  "use_loop iface v s handle in_use in_use_by_resident =
     rbind (lt_dlhandle_iterate iface s handle) (\<lambda>handle.
     if handle = 0 then Some (Ret (in_use, in_use_by_resident))
     else
       rbind (Some (handle_at s handle)) (\<lambda>cur.
       use_loop iface v s handle (in_use \<or> vtable cur = v) (in_use_by_resident \<or> vtable cur = v \<and> is_resident cur)))"

text \<open>The name under which the loop registers, \<^verbatim>\<open>lt_dlloader_remove\<close>.\<close>

definition remove_id :: "byte list" where
  "remove_id = map of_char ''lt_dlloader_remove''"

text \<open>The loader that has been removed, or null.\<close>

definition lt_dlloader_remove :: "surroundings \<Rightarrow> byte list \<Rightarrow> 'w dl \<Rightarrow> (nat \<times> 'w dl) outcome option" where
  "lt_dlloader_remove env name s =
     rbind (lt_dlloader_find name s) (\<lambda>v.
     if v = 0 then Some (Ret (0, LT__SETERROR LT_ERROR_INVALID_LOADER s))
     else
       rbind (Some (lt_dlinterface_register env remove_id None s)) (\<lambda>(iface, s).
       rbind (use_loop iface v s 0 False False) (\<lambda>(in_use, in_use_by_resident).
       if in_use then
         Some (Ret (0, if \<not> in_use_by_resident then LT__SETERROR LT_ERROR_REMOVE_LOADER s else s))
       else
         rbind (Some (obind (vtable_at s v) (\<lambda>vt.
                  if dlloader_exit vt \<noteq> None then call_loader (dlloader_exit vt) s else Ret (0, s)))) (\<lambda>(failed, s).
         if failed \<noteq> 0 then Some (Ret (0, s))
         else
           rbind (slist_remove (loader_callback s name) (loader_store s) (Some (loaders s))) (\<lambda>(item, head, h).
           rbind (Some (slist_unbox h item)) (\<lambda>(v, h).
           Some (Ret (case v of None \<Rightarrow> 0 | Some v \<Rightarrow> v, s\<lparr>loaders := the head, loader_store := h\<rparr>))))))))"

section \<open>Opening a module with the loaders\<close>

text \<open>The handle that has the file's name, or null; both names may be missing.\<close>

partial_function (option) opened :: "'w dl \<Rightarrow> nat \<Rightarrow> byte list option \<Rightarrow> nat outcome option" where
  "opened s handle name =
     (if handle = 0 then Some (Ret 0)
      else
        rbind (Some (handle_at s handle)) (\<lambda>f.
        if info_filename f = name then Some (Ret handle)
        else rbind (Some (next_handle s handle)) (\<lambda>n. opened s n name)))"

definition count_up :: "nat \<Rightarrow> 'w dl \<Rightarrow> 'w dl outcome" where
  "count_up h s = obind (handle_at s h) (\<lambda>f. obind (int_value (ref_count f + 1)) (\<lambda>r. set_handle s h (f\<lparr>ref_count := r\<rparr>)))"

definition update_handle :: "(lt__handle \<Rightarrow> lt__handle) \<Rightarrow> nat \<Rightarrow> 'w dl \<Rightarrow> 'w dl outcome" where
  "update_handle change h s = obind (handle_at s h) (\<lambda>f. set_handle s h (change f))"

definition heed :: "lt__advise option \<Rightarrow> lt__handle \<Rightarrow> lt__handle" where
  "heed advise f =
     (case advise of
        None \<Rightarrow> f
      | Some a \<Rightarrow> f\<lparr>is_resident := advise_resident a, is_symglobal := advise_symglobal a, is_symlocal := advise_symlocal a\<rparr>)"

text \<open>
  The loop over the loaders, or over the one given: the loader item it ends at, and the loader called last.
\<close>

partial_function (option) open_loop ::
  "nat \<Rightarrow> byte list option \<Rightarrow> lt__advise option \<Rightarrow> nat \<Rightarrow> nat \<Rightarrow> 'w dl \<Rightarrow> (nat \<times> nat \<times> 'w dl) outcome option" where
  "open_loop handle name advise v loader s =
     rbind (Some (if v \<noteq> 0 then Ret v else lt_dlloader_get s loader)) (\<lambda>used.
     rbind (Some (vtable_at s used)) (\<lambda>vt.
     rbind (Some (call_loader (map_option (\<lambda>open. open name advise) (module_open vt)) s)) (\<lambda>(m, s).
     rbind (Some (update_handle (\<lambda>f. f\<lparr>module := m\<rparr>) handle s)) (\<lambda>s.
     if m \<noteq> 0 then
       rbind (Some (update_handle (heed advise) handle s)) (\<lambda>s. Some (Ret (loader, used, s)))
     else if v = 0 then
       rbind (Some (lt_dlloader_next s loader)) (\<lambda>loader.
       if loader \<noteq> 0 then open_loop handle name advise v loader s else Some (Ret (loader, used, s)))
     else Some (Ret (loader, used, s))))))"

text \<open>The number of errors, and the handle at the address given.\<close>

definition tryall_dlopen ::
  "surroundings \<Rightarrow> nat \<Rightarrow> byte list option \<Rightarrow> lt__advise option \<Rightarrow> nat \<Rightarrow> 'w dl \<Rightarrow> (nat \<times> nat \<times> 'w dl) outcome option" where
  "tryall_dlopen env phandle name advise v s =
     (let saved_error = last_error s in
      rbind (opened s (handles s) name) (\<lambda>handle.
      if handle \<noteq> 0 then rbind (Some (count_up handle s)) (\<lambda>s. Some (Ret (0, handle, s)))
      else
        rbind (Some (case name of
                 None \<Rightarrow> obind (update_handle (\<lambda>f. f\<lparr>info_filename := None\<rparr>) phandle s) (\<lambda>s. Ret (True, s))
               | Some n \<Rightarrow>
                   obind (lt__strdup (met env) (fresh_bytes env) (n @ [0]) s) (\<lambda>(copy, s).
                   obind (update_handle (\<lambda>f. f\<lparr>info_filename := map_option (\<lambda>_. n) copy\<rparr>) phandle s) (\<lambda>s.
                   Ret (copy \<noteq> None, s))))) (\<lambda>(named, s).
        if \<not> named then Some (Ret (1, phandle, s))
        else
          rbind (Some (lt_dlloader_next s 0)) (\<lambda>loader.
          rbind (open_loop phandle name advise v loader s) (\<lambda>(loader, used, s).
          rbind (Some (handle_at s phandle)) (\<lambda>f.
          if v \<noteq> 0 \<and> module f = 0 \<or> v = 0 \<and> loader = 0 then
            rbind (Some (update_handle (\<lambda>f. f\<lparr>info_filename := None\<rparr>) phandle s)) (\<lambda>s. Some (Ret (1, phandle, s)))
          else
            rbind (Some (update_handle (\<lambda>f. f\<lparr>vtable := used\<rparr>) phandle s)) (\<lambda>s.
            Some (Ret (0, phandle, s\<lparr>last_error := saved_error\<rparr>)))))))))"

text \<open>A new handle, all of it zero, or null.\<close>

definition zero_handle :: "lt__handle SList" where
  "zero_handle = \<lparr>next_item = 0, userdata = \<lparr>vtable = 0, info_filename = None, info_name = None, ref_count = 0,
     is_resident = False, is_symglobal = False, is_symlocal = False, depcount = 0, deplibs = [], module = 0, interface_data = []\<rparr>\<rparr>"

definition new_handle :: "surroundings \<Rightarrow> 'w dl \<Rightarrow> (nat \<times> 'w dl) outcome" where
  "new_handle env s =
     (if met env sizeof_handle then
        let h = new_place env (dom (handle_store s)) in Ret (h, s\<lparr>handle_store := (handle_store s)(h \<mapsto> zero_handle)\<rparr>)
      else obind (die s) (\<lambda>s. Ret (0, s)))"

definition free_handle :: "nat \<Rightarrow> 'w dl \<Rightarrow> 'w dl" where
  "free_handle h s = s\<lparr>handle_store := (handle_store s)(h := None)\<rparr>"

text \<open>The end of \<open>try_dlopen\<close>: a handle that has been given another one in its place is released.\<close>

definition register_handle :: "nat \<Rightarrow> nat \<Rightarrow> byte list option \<Rightarrow> 'w dl \<Rightarrow> 'w dl outcome" where
  "register_handle phandle newhandle name s =
     (let s = (if phandle \<noteq> newhandle then free_handle phandle s else s) in
      obind (handle_at s newhandle) (\<lambda>f.
      if ref_count f = 0 then
        obind (update_handle (\<lambda>f. f\<lparr>ref_count := 1, info_name := name\<rparr>) newhandle s) (\<lambda>s.
        obind (set_next (handle_store s) newhandle (handles s)) (\<lambda>h.
        Ret (s\<lparr>handle_store := h, handles := newhandle\<rparr>)))
      else Ret s))"

section \<open>References\<close>

definition info_of :: "'w dl \<Rightarrow> nat \<Rightarrow> lt__handle" where
  "info_of s h = userdata (the (handle_store s h))"

text \<open>How often the handles of the list name a handle as a dependency.\<close>

definition uses :: "'w dl \<Rightarrow> nat list \<Rightarrow> nat \<Rightarrow> nat" where
  "uses s xs h = sum_list (map (\<lambda>g. count_list (deplibs (info_of s g)) h) xs)"

definition handle_ok :: "'w dl \<Rightarrow> nat list \<Rightarrow> nat multiset \<Rightarrow> nat \<Rightarrow> bool" where
  "handle_ok s xs ext h \<longleftrightarrow>
     (let f = info_of s h in
      vtable f \<noteq> 0 \<and> (\<exists>vt. vtables s (vtable f) = Some vt \<and> module_close vt \<noteq> None)
      \<and> depcount f = int (length (deplibs f)) \<and> set (deplibs f) \<subseteq> set xs \<and> ref_count f < 2 ^ 31
      \<and> (\<not> is_resident f \<longrightarrow> 0 < ref_count f \<and> ref_count f = int (count ext h + uses s xs h)))"

text \<open>
  \<open>xs\<close> is the list of handles, and \<open>ext\<close> holds the handles the program has been given and not closed yet, each as
  often as that: what is counted is the references from outside and those of other modules.
\<close>

definition handles_ok :: "'w dl \<Rightarrow> nat list \<Rightarrow> nat multiset \<Rightarrow> bool" where
  "handles_ok s xs ext \<longleftrightarrow>
     chain (handle_store s) (handles s) xs \<and> set_mset ext \<subseteq> set xs \<and> (\<forall>h\<in>set xs. handle_ok s xs ext h)"

lemma handle_ok_cong:
  assumes "vtables s' = vtables s" and "\<forall>g\<in>set xs. handle_store s' g = handle_store s g" and "h \<in> set xs"
  shows "handle_ok s' xs ext h = handle_ok s xs ext h"
proof -
  have "\<forall>g\<in>set xs. info_of s' g = info_of s g" using assms(2) by (simp add: info_of_def)
  then have "info_of s' h = info_of s h" "uses s' xs h = uses s xs h"
    using assms(3) by (auto simp: uses_def intro!: arg_cong [where f = sum_list])
  then show ?thesis using assms(1) by (simp add: handle_ok_def)
qed

lemma handles_ok_cong:
  assumes "handles s' = handles s" and "vtables s' = vtables s" and "\<forall>g\<in>set xs. handle_store s' g = handle_store s g"
  shows "handles_ok s' xs ext = handles_ok s xs ext"
  using assms chain_frame [OF assms(3), of "handles s"] handle_ok_cong [OF assms(2,3)] by (auto simp: handles_ok_def)

lemma listed_handle:
  assumes "chain (handle_store s) p xs" and "h \<in> set xs"
  shows "h \<noteq> 0" and "\<exists>i. handle_store s h = Some i" and "handle_at s h = Ret (info_of s h)"
    and "item_at (handle_store s) h = Ret (the (handle_store s h))"
    and "set_handle s h f = Ret (s\<lparr>handle_store := (handle_store s)(h \<mapsto> the (handle_store s h)\<lparr>userdata := f\<rparr>)\<rparr>)"
proof -
  show h: "h \<noteq> 0" "\<exists>i. handle_store s h = Some i"
    using chain_not_null [OF assms(1)] chain_mapped [OF assms] assms(2) by (metis, blast)
  then show "handle_at s h = Ret (info_of s h)" "item_at (handle_store s) h = Ret (the (handle_store s h))"
    "set_handle s h f = Ret (s\<lparr>handle_store := (handle_store s)(h \<mapsto> the (handle_store s h)\<lparr>userdata := f\<rparr>)\<rparr>)"
    by (auto simp: handle_at_def set_handle_def info_of_def)
qed

lemma chain_user_update:
  assumes "m h = Some i" and "next_item i' = next_item i"
  shows "chain (m(h \<mapsto> i')) p xs = chain m p xs"
proof (induction xs arbitrary: p)
  case (Cons x xs)
  then show ?case using assms by (cases "x = h") simp_all
qed simp

lemma seek_result:
  "chain (handle_store s) p (us @ h # ws) \<Longrightarrow> h \<notin> set us \<Longrightarrow> seek s h prev p = Some (Ret (last (prev # us), h))"
proof (induction us arbitrary: p prev)
  case Nil
  then show ?case by (subst seek.simps) simp
next
  case (Cons u us)
  then obtain i where i: "p = u" "u \<noteq> 0" "handle_store s u = Some i" "chain (handle_store s) (next_item i) (us @ h # ws)" by auto
  moreover have "seek s h u (next_item i) = Some (Ret (last (u # us), h))"
    using Cons.IH [OF i(4)] Cons.prems(2) by auto
  ultimately show ?case using Cons.prems(2) by (subst seek.simps) (simp add: next_handle_def)
qed

lemma seek_missing: "chain (handle_store s) p xs \<Longrightarrow> h \<notin> set xs \<Longrightarrow> \<exists>prev'. seek s h prev p = Some (Ret (prev', 0))"
proof (induction xs arbitrary: p prev)
  case Nil
  then show ?case by (subst seek.simps) simp
next
  case (Cons x xs)
  then obtain i where i: "p = x" "x \<noteq> 0" "handle_store s x = Some i" "chain (handle_store s) (next_item i) xs" by auto
  then obtain prev' where "seek s h x (next_item i) = Some (Ret (prev', 0))" using Cons.IH [OF i(4)] Cons.prems(2) by auto
  with i Cons.prems(2) show ?case by (subst seek.simps) (auto simp: next_handle_def)
qed

lemma chain_redirect:
  assumes "chain h p (xs @ zs)" and "xs \<noteq> []" and "chain h q ys" and "set xs \<inter> set ys = {}"
  shows "\<exists>i. h (last xs) = Some i \<and> last xs \<noteq> 0 \<and> chain (h(last xs \<mapsto> i\<lparr>next_item := q\<rparr>)) p (xs @ ys)"
  using assms
proof (induction xs arbitrary: p)
  case (Cons x xs)
  then obtain j where j: "p = x" "x \<noteq> 0" "h x = Some j" "chain h (next_item j) (xs @ zs)" by auto
  show ?case
  proof (cases "xs = []")
    case True
    have "chain (h(x \<mapsto> j\<lparr>next_item := q\<rparr>)) q ys" using Cons.prems(3,4) by (subst chain_frame [of ys _ h]) auto
    with True j show ?thesis by (simp add: fun_upd_def)
  next
    case False
    have "x \<notin> set xs" using chain_distinct [OF Cons.prems(1)] by simp
    with False have "last xs \<noteq> x" by (metis last_in_set)
    with Cons.IH [OF j(4) False] Cons.prems(3,4) j False show ?thesis by auto
  qed
qed simp

text \<open>The list without one of its handles.\<close>

lemma unlink_result:
  assumes "chain (handle_store s) (handles s) (us @ h # ws)"
  shows "\<exists>s'. unlink s (last (handles s # us)) h = Ret s' \<and> chain (handle_store s') (handles s') (us @ ws)
    \<and> relinked (set us) (handle_store s) (handle_store s') \<and> s' = s\<lparr>handles := handles s', handle_store := handle_store s'\<rparr>"
proof -
  have dist: "distinct (us @ h # ws)" using chain_distinct [OF assms] .
  obtain i where i: "handle_store s h = Some i" "h \<noteq> 0" "chain (handle_store s) (next_item i) ws"
    using chain_split [OF assms] by auto
  have n: "next_handle s h = Ret (next_item i)" using i by (simp add: next_handle_def)
  show ?thesis
  proof (cases "us = []")
    case True
    then have "handles s = h" using assms by simp
    with True n i(3) show ?thesis by (auto simp: unlink_def)
  next
    case False
    then have "handles s = hd us" using assms by (cases us) auto
    then have head: "h \<noteq> handles s" using False dist by (cases us) auto
    have "set us \<inter> set ws = {}" using dist by auto
    from chain_redirect [OF assms False i(3) this] obtain j where j: "handle_store s (last us) = Some j" "last us \<noteq> 0"
      "chain ((handle_store s)(last us \<mapsto> j\<lparr>next_item := next_item i\<rparr>)) (handles s) (us @ ws)" by (elim exE conjE)
    then have "relinked (set us) (handle_store s) ((handle_store s)(last us \<mapsto> j\<lparr>next_item := next_item i\<rparr>))"
      using False by (intro relinked_set_next) simp_all
    with head False n j show ?thesis by (simp add: unlink_def)
  qed
qed

lemma uses_append: "uses s (us @ ws) g = uses s us g + uses s ws g"
  by (simp add: uses_def)

lemma uses_Cons: "uses s (h # ws) g = count_list (deplibs (info_of s h)) g + uses s ws g"
  by (simp add: uses_def)

lemma uses_cong: "\<forall>g\<in>set xs. deplibs (info_of s' g) = deplibs (info_of s g) \<Longrightarrow> uses s' xs h = uses s xs h"
  by (auto simp: uses_def intro!: arg_cong [where f = sum_list])

lemma uses_zero: "uses s xs h = 0 \<longleftrightarrow> (\<forall>g\<in>set xs. h \<notin> set (deplibs (info_of s g)))"
  by (auto simp: uses_def count_list_0_iff)

text \<open>A handle whose last reference has gone is no dependency of another; its own dependencies are left to be closed.\<close>

lemma handles_ok_remove:
  assumes "handles_ok s (us @ h # ws) (add_mset h ext)" and "\<not> is_resident (info_of s h)" and "ref_count (info_of s h) = 1"
    and "chain (handle_store s') (handles s') (us @ ws)" and "\<forall>g\<in>set us \<union> set ws. info_of s' g = info_of s g" and "vtables s' = vtables s"
  shows "handles_ok s' (us @ ws) (ext + mset (deplibs (info_of s h)))"
proof -
  let ?xs = "us @ h # ws" and ?d = "deplibs (info_of s h)"
  have h: "handle_ok s ?xs (add_mset h ext) h" and ok: "\<And>g. g \<in> set us \<union> set ws \<Longrightarrow> handle_ok s ?xs (add_mset h ext) g"
    using assms(1) by (auto simp: handles_ok_def)
  then have none: "count ext h = 0" "uses s ?xs h = 0"
    using assms(2,3) by (auto simp: handle_ok_def Let_def)
  have "chain (handle_store s) (handles s) ?xs" using assms(1) by (simp add: handles_ok_def)
  then have dist: "distinct ?xs" by (rule chain_distinct)
  have free: "h \<notin> set (deplibs (info_of s g))" if "g \<in> set ?xs" for g using none(2) that unfolding uses_zero by blast
  have d: "set ?d \<subseteq> set us \<union> set ws" using h free [of h] by (auto simp: handle_ok_def Let_def)
  have ext: "set_mset ext \<subseteq> set us \<union> set ws" using assms(1) none(1) by (auto simp: handles_ok_def count_eq_zero_iff)
  have "handle_ok s' (us @ ws) (ext + mset ?d) g" if g: "g \<in> set us \<union> set ws" for g
  proof -
    have f: "info_of s' g = info_of s g" using assms(5) g by blast
    have "g \<noteq> h" using g dist by auto
    moreover have "uses s' (us @ ws) g = uses s (us @ ws) g" using assms(5) by (intro uses_cong) simp
    ultimately have "count (add_mset h ext) g + uses s ?xs g = count (ext + mset ?d) g + uses s' (us @ ws) g"
      by (simp add: uses_append uses_Cons count_mset)
    moreover have "set (deplibs (info_of s g)) \<subseteq> set (us @ ws)" using ok [OF g] free [of g] g by (auto simp: handle_ok_def Let_def)
    ultimately show ?thesis using ok [OF g] assms(6) f by (auto simp: handle_ok_def Let_def)
  qed
  with assms(4) d ext show ?thesis by (auto simp: handles_ok_def)
qed

text \<open>One reference less to a handle that stays.\<close>

lemma handles_ok_count_down:
  assumes "handles_ok s xs (add_mset h ext)" and "is_resident (info_of s h) \<or> ref_count (info_of s h) \<noteq> 1"
    and "info_of s' = (info_of s)(h := (info_of s h)\<lparr>ref_count := ref_count (info_of s h) - 1\<rparr>)"
    and "chain (handle_store s') (handles s') xs" and "vtables s' = vtables s"
  shows "handles_ok s' xs ext"
proof -
  have "handle_ok s' xs ext g" if g: "g \<in> set xs" for g
  proof -
    have ok: "handle_ok s xs (add_mset h ext) g" using assms(1) g by (auto simp: handles_ok_def)
    have "uses s' xs g = uses s xs g" using assms(3) by (intro uses_cong) simp
    then show ?thesis using ok assms(2,3,5) by (cases "g = h") (auto simp: handle_ok_def Let_def)
  qed
  with assms(1,4) show ?thesis by (auto simp: handles_ok_def)
qed

text \<open>A resident module may lose references.\<close>

lemma handles_ok_resident:
  assumes "handles_ok s xs (add_mset h ext)" and "is_resident (info_of s h)"
  shows "handles_ok s xs ext"
proof -
  have "handle_ok s xs ext g" if "g \<in> set xs" for g
    using assms that by (cases "g = h") (auto simp: handles_ok_def handle_ok_def Let_def)
  with assms(1) show ?thesis by (auto simp: handles_ok_def)
qed

lemma info_of_upd: "info_of (s\<lparr>handle_store := (handle_store s)(h \<mapsto> i)\<rparr>) = (info_of s)(h := userdata i)"
  by (auto simp: info_of_def)

lemma relinked_info_of:
  assumes "relinked A (handle_store s) (handle_store s')" and "handle_store s g = Some i"
  shows "info_of s' g = info_of s g"
proof -
  have "map_option userdata (handle_store s' g) = Some (userdata i)"
    using assms by (simp add: relinked_def user_def)
  then show ?thesis using assms(2) by (auto simp: info_of_def)
qed

lemma call_loader_frame:
  "call_loader f s = Ret (e, s') \<Longrightarrow> handles s' = handles s \<and> handle_store s' = handle_store s \<and> vtables s' = vtables s"
  by (auto simp: call_loader_def split: option.splits prod.splits)

lemma call_loader_there: "f \<noteq> None \<Longrightarrow> \<exists>e s'. call_loader f s = Ret (e, s')"
  by (auto simp: call_loader_def split: prod.splits)

text \<open>
  What closing does to the list: it loses handles, but no resident one, and of those that stay only the counts change.
\<close>

definition shrinks :: "'w dl \<Rightarrow> nat list \<Rightarrow> 'w dl \<Rightarrow> nat list \<Rightarrow> bool" where
  "shrinks s xs s' xs' \<longleftrightarrow>
     xs' = filter (\<lambda>g. g \<in> set xs') xs \<and> (\<forall>g\<in>set xs. is_resident (info_of s g) \<longrightarrow> g \<in> set xs')
     \<and> (\<forall>g\<in>set xs'. info_of s' g = (info_of s g)\<lparr>ref_count := ref_count (info_of s' g)\<rparr>)"

lemma shrinks_subset: "shrinks s xs s' xs' \<Longrightarrow> set xs' \<subseteq> set xs"
  unfolding shrinks_def by (metis filter_is_subset)

lemma shrinks_length: "shrinks s xs s' xs' \<Longrightarrow> length xs' \<le> length xs"
  unfolding shrinks_def by (metis length_filter_le)

lemma shrinks_same:
  assumes "\<forall>g\<in>set xs. info_of s' g = (info_of s g)\<lparr>ref_count := ref_count (info_of s' g)\<rparr>"
  shows "shrinks s xs s' xs"
proof -
  have "filter (\<lambda>g. g \<in> set xs) xs = xs" by (rule filter_True) simp
  with assms show ?thesis by (simp add: shrinks_def)
qed

lemma shrinks_cong: "shrinks s xs s1 xs1 \<Longrightarrow> \<forall>g\<in>set xs1. info_of s2 g = info_of s1 g \<Longrightarrow> shrinks s xs s2 xs1"
  by (simp add: shrinks_def)

lemma resident_of_count: "f' = f\<lparr>ref_count := r\<rparr> \<Longrightarrow> is_resident f' = is_resident f"
  by simp

lemma shrinks_trans:
  assumes "shrinks s xs s1 xs1" and "shrinks s1 xs1 s2 xs2"
  shows "shrinks s xs s2 xs2"
proof -
  have sub: "set xs2 \<subseteq> set xs1" "set xs1 \<subseteq> set xs" using assms by (auto dest: shrinks_subset)
  have "xs2 = filter (\<lambda>g. g \<in> set xs2) (filter (\<lambda>g. g \<in> set xs1) xs)"
    using assms unfolding shrinks_def by metis
  also have "\<dots> = filter (\<lambda>g. g \<in> set xs2) xs" using sub(1) by (auto intro: filter_cong)
  finally have "xs2 = filter (\<lambda>g. g \<in> set xs2) xs" .
  moreover have "g \<in> set xs2" if "g \<in> set xs" "is_resident (info_of s g)" for g
  proof -
    have "g \<in> set xs1" using assms(1) that by (auto simp: shrinks_def)
    moreover have "info_of s1 g = (info_of s g)\<lparr>ref_count := ref_count (info_of s1 g)\<rparr>" using assms(1) calculation by (auto simp: shrinks_def)
    then have "is_resident (info_of s1 g)" using that(2) resident_of_count by blast
    ultimately show ?thesis using assms(2) by (auto simp: shrinks_def)
  qed
  moreover have "info_of s2 g = (info_of s g)\<lparr>ref_count := ref_count (info_of s2 g)\<rparr>" if "g \<in> set xs2" for g
  proof -
    have "info_of s2 g = (info_of s1 g)\<lparr>ref_count := ref_count (info_of s2 g)\<rparr>" using assms(2) that by (auto simp: shrinks_def)
    also have "info_of s1 g = (info_of s g)\<lparr>ref_count := ref_count (info_of s1 g)\<rparr>" using assms(1) sub that by (auto simp: shrinks_def)
    finally show ?thesis by simp
  qed
  ultimately show ?thesis by (simp add: shrinks_def)
qed

text \<open>The dependencies of a handle that is no longer in the list are closed in turn.\<close>

lemma unload_loop_result:
  assumes close: "\<And>s xs ext d. length xs \<le> n \<Longrightarrow> handles_ok s xs (add_mset d ext) \<Longrightarrow> \<not> is_resident (info_of s d) \<Longrightarrow>
      \<exists>e s' xs'. close d s = Some (Ret (e, s')) \<and> handles_ok s' xs' ext \<and> shrinks s xs s' xs'
        \<and> (\<forall>g. g \<notin> set xs \<longrightarrow> handle_store s' g = handle_store s g)"
    and "handles_ok s xs (ext + mset (drop k (deplibs (info_of s h))))" and "k \<le> length (deplibs (info_of s h))"
    and "length xs \<le> n" and "h \<notin> set xs" and "h \<noteq> 0" and "handle_store s h = Some i"
  shows "\<exists>e s' xs'. unload_loop close h [k..<length (deplibs (info_of s h))] errors s = Some (Ret (e, s'))
    \<and> handles_ok s' xs' ext \<and> shrinks s xs s' xs' \<and> (\<forall>g. g \<notin> set xs \<longrightarrow> handle_store s' g = handle_store s g)"
  using assms(2-)
proof (induction "length (deplibs (info_of s h)) - k" arbitrary: s xs k errors)
  case 0
  then show ?case using shrinks_same [of xs s s] by auto
next
  case (Suc m)
  let ?d = "deplibs (info_of s h)"
  have k: "k < length ?d" using Suc.hyps(2) by simp
  then have drop: "drop k ?d = ?d ! k # drop (Suc k) ?d" by (simp add: Cons_nth_drop_Suc)
  have range: "[k..<length ?d] = k # [Suc k..<length ?d]" using k by (simp add: upt_rec)
  have h: "handle_at s h = Ret (info_of s h)" using Suc.prems by (simp add: handle_at_def info_of_def)
  have ok: "handles_ok s xs (add_mset (?d ! k) (ext + mset (drop (Suc k) ?d)))" using Suc.prems(1) by (simp add: drop)
  then have "?d ! k \<in> set xs" "chain (handle_store s) (handles s) xs" by (auto simp: handles_ok_def)
  then have d: "handle_at s (?d ! k) = Ret (info_of s (?d ! k))" by (intro listed_handle)
  show ?case
  proof (cases "is_resident (info_of s (?d ! k))")
    case True
    have "handles_ok s xs (ext + mset (drop (Suc k) ?d))" using handles_ok_resident [OF ok True] .
    from Suc.hyps(1) [OF _ this _ Suc.prems(3-), of errors] Suc.hyps(2) k
    show ?thesis unfolding range using True h d k by (simp add: mem_simps)
  next
    case False
    from close [OF Suc.prems(3) ok False] obtain e s1 xs1 where c: "close (?d ! k) s = Some (Ret (e, s1))"
      "handles_ok s1 xs1 (ext + mset (drop (Suc k) ?d))" "shrinks s xs s1 xs1" "\<forall>g. g \<notin> set xs \<longrightarrow> handle_store s1 g = handle_store s g"
      by blast
    have same: "handle_store s1 h = Some i" "info_of s1 h = info_of s h" using c(4) Suc.prems(4,6) by (auto simp: info_of_def)
    have sub: "set xs1 \<subseteq> set xs" by (rule shrinks_subset [OF c(3)])
    have "length xs1 \<le> n" using shrinks_length [OF c(3)] Suc.prems(3) by simp
    moreover have "h \<notin> set xs1" using sub Suc.prems(4) by blast
    moreover have m: "m = length (deplibs (info_of s1 h)) - Suc k" using Suc.hyps(2) same(2) by simp
    moreover have "handles_ok s1 xs1 (ext + mset (drop (Suc k) (deplibs (info_of s1 h))))" "Suc k \<le> length (deplibs (info_of s1 h))"
      using c(2) k same(2) by simp_all
    ultimately obtain e' s' xs' where r: "unload_loop close h [Suc k..<length (deplibs (info_of s1 h))] (errors + e) s1 = Some (Ret (e', s'))"
      "handles_ok s' xs' ext" "shrinks s1 xs1 s' xs'" "\<forall>g. g \<notin> set xs1 \<longrightarrow> handle_store s' g = handle_store s1 g"
      using Suc.hyps(1) [of s1 "Suc k" xs1 "errors + e"] Suc.prems(5) same(1) by blast
    have "handle_store s' g = handle_store s g" if "g \<notin> set xs" for g using r(4) c(4) sub that by auto
    with r c(1) shrinks_trans [OF c(3) r(3)] show ?thesis
      unfolding range using False h d k same(2) by (intro exI [of _ e'] exI [of _ s'] exI [of _ xs']) (auto simp: mem_simps)
  qed
qed

lemma unload_deplibs_result:
  assumes close: "\<And>s xs ext d. length xs \<le> n \<Longrightarrow> handles_ok s xs (add_mset d ext) \<Longrightarrow> \<not> is_resident (info_of s d) \<Longrightarrow>
      \<exists>e s' xs'. close d s = Some (Ret (e, s')) \<and> handles_ok s' xs' ext \<and> shrinks s xs s' xs'
        \<and> (\<forall>g. g \<notin> set xs \<longrightarrow> handle_store s' g = handle_store s g)"
    and "handles_ok s xs (ext + mset (deplibs (info_of s h)))" and "depcount (info_of s h) = int (length (deplibs (info_of s h)))"
    and "length xs \<le> n" and "h \<notin> set xs" and "h \<noteq> 0" and "handle_store s h = Some i"
  shows "\<exists>e s' xs'. unload_deplibs close h s = Some (Ret (e, s')) \<and> handles_ok s' xs' ext \<and> shrinks s xs s' xs'
    \<and> (\<forall>g. g \<notin> set xs \<longrightarrow> g \<noteq> h \<longrightarrow> handle_store s' g = handle_store s g)"
proof (cases "deplibs (info_of s h) = []")
  case True
  have "shrinks s xs s xs" by (rule shrinks_same) simp
  with True assms show ?thesis by (auto simp: unload_deplibs_def handle_at_def info_of_def)
next
  case False
  have h: "handle_at s h = Ret (info_of s h)" using assms(6,7) by (simp add: handle_at_def info_of_def)
  have "handles_ok s xs (ext + mset (drop 0 (deplibs (info_of s h))))" using assms(2) by simp
  from unload_loop_result [of n close, OF close this _ assms(4-7), of 0]
  obtain e s1 xs1 where r: "unload_loop close h [0..<length (deplibs (info_of s h))] 0 s = Some (Ret (e, s1))"
    "handles_ok s1 xs1 ext" "shrinks s xs s1 xs1" "\<forall>g. g \<notin> set xs \<longrightarrow> handle_store s1 g = handle_store s g" by auto
  have h1: "handle_store s1 h = Some i" using r(4) assms(5,7) by auto
  let ?s = "s1\<lparr>handle_store := (handle_store s1)(h \<mapsto> i\<lparr>userdata := (userdata i)\<lparr>deplibs := []\<rparr>\<rparr>)\<rparr>"
  have "h \<notin> set xs1" using shrinks_subset [OF r(3)] assms(5) by blast
  then have "handles_ok ?s xs1 ext" using r(2) by (subst handles_ok_cong [of _ s1]) auto
  moreover have "shrinks s xs ?s xs1" using \<open>h \<notin> set xs1\<close> by (intro shrinks_cong [OF r(3)]) (auto simp: info_of_def)
  moreover have "\<forall>g. g \<notin> set xs \<longrightarrow> g \<noteq> h \<longrightarrow> handle_store ?s g = handle_store s g" using r(4) by simp
  moreover have "unload_deplibs close h s = Some (Ret (e, ?s))"
    using False assms(3,6) h h1 r(1) by (simp add: unload_deplibs_def handle_at_def set_handle_def)
  ultimately show ?thesis by blast
qed

lemma lt_dlclose_result:
  fixes s :: "'w dl"
  assumes "length xs \<le> n" and "handles_ok s xs (add_mset h ext)" and "- (2 ^ 31) < ref_count (info_of s h)"
  shows "\<exists>e s' xs'. lt_dlclose h s = Some (Ret (e, s')) \<and> handles_ok s' xs' ext \<and> shrinks s xs s' xs'
    \<and> (\<forall>g. g \<notin> set xs \<longrightarrow> handle_store s' g = handle_store s g)"
  using assms
proof (induction n arbitrary: s xs h ext)
  case 0
  then show ?case by (auto simp: handles_ok_def)
next
  case (Suc n)
  have ch: "chain (handle_store s) (handles s) xs" and h: "h \<in> set xs" and ok: "handle_ok s xs (add_mset h ext) h"
    using Suc.prems(2) by (auto simp: handles_ok_def)
  obtain us ws where xs: "xs = us @ h # ws" "h \<notin> set us" using split_list_first [OF h] by blast
  note at = listed_handle [OF ch h]
  let ?f = "(info_of s h)\<lparr>ref_count := ref_count (info_of s h) - 1\<rparr>"
  let ?s = "s\<lparr>handle_store := (handle_store s)(h \<mapsto> the (handle_store s h)\<lparr>userdata := ?f\<rparr>)\<rparr>"
  have down: "count_down h s = Ret ?s"
    using at(3,5) Suc.prems(3) ok by (simp add: count_down_def int_value_def handle_ok_def Let_def)
  have f: "info_of ?s = (info_of s)(h := ?f)" by (simp add: info_of_upd)
  have rel: "\<forall>g. g \<noteq> h \<longrightarrow> handle_store ?s g = handle_store s g" by simp
  have ch1: "chain (handle_store ?s) (handles ?s) xs" using ch at(2) chain_user_update [of "handle_store s" h "the (handle_store s h)"] by simp
  have seek: "seek s h (handles s) (handles s) = Some (Ret (last (handles s # us), h))"
    using seek_result [of s "handles s" us h ws "handles s"] ch xs by simp
  have h1: "handle_at ?s h = Ret ?f" using listed_handle(3) [OF ch1 h] f by simp
  have closing: "lt_dlclose h s =
     (if ref_count ?f \<le> 0 \<and> \<not> is_resident ?f then
         rbind (Some (vtable_at ?s (vtable ?f))) (\<lambda>vt.
         rbind (Some (unlink ?s (last (handles s # us)) h)) (\<lambda>s.
         rbind (Some (call_loader (map_option (\<lambda>close. close (module ?f)) (module_close vt)) s)) (\<lambda>(e, s).
         rbind (unload_deplibs lt_dlclose h s) (\<lambda>(errors, s).
         Some (Ret (e + errors, s\<lparr>handle_store := (handle_store s)(h := None)\<rparr>))))))
       else if is_resident ?f then Some (Ret (1, LT__SETERROR LT_ERROR_CLOSE_RESIDENT_MODULE ?s))
       else Some (Ret (0, ?s)))"
    using at(1) by (subst lt_dlclose.simps) (simp only: seek rbind_simps prod.case if_False down h1)
  show ?case
  proof (cases "ref_count ?f \<le> 0 \<and> \<not> is_resident ?f")
    case False
    have "is_resident (info_of s h) \<or> ref_count (info_of s h) \<noteq> 1" using False by auto
    from handles_ok_count_down [OF Suc.prems(2) this f ch1] have ok1: "handles_ok ?s xs ext" by simp
    have "handles_ok (LT__SETERROR LT_ERROR_CLOSE_RESIDENT_MODULE ?s) xs ext"
      using ok1 by (subst handles_ok_cong [of _ ?s]) (simp_all add: LT__SETERROR_def)
    moreover have "\<forall>g. g \<notin> set xs \<longrightarrow> handle_store ?s g = handle_store s g" using h by auto
    moreover have same: "shrinks s xs ?s xs" by (rule shrinks_same) (simp add: f)
    then have "shrinks s xs (LT__SETERROR LT_ERROR_CLOSE_RESIDENT_MODULE ?s) xs"
      by (rule shrinks_cong) (simp add: LT__SETERROR_def info_of_def)
    ultimately show ?thesis unfolding closing if_not_P [OF False] using ok1 same
      by (cases "is_resident ?f") (auto simp: LT__SETERROR_def)
  next
    case True
    have one: "ref_count (info_of s h) = 1" "\<not> is_resident (info_of s h)"
      using True ok by (auto simp: handle_ok_def Let_def)
    obtain vt where vt: "vtable_at ?s (vtable ?f) = Ret vt" "module_close vt \<noteq> None"
      using ok by (auto simp: vtable_at_def handle_ok_def Let_def)
    obtain s2 where s2: "unlink ?s (last (handles s # us)) h = Ret s2" "chain (handle_store s2) (handles s2) (us @ ws)"
      "relinked (set us) (handle_store ?s) (handle_store s2)" "s2 = ?s\<lparr>handles := handles s2, handle_store := handle_store s2\<rparr>"
      using unlink_result [of ?s us h ws] ch1 unfolding xs(1) by auto
    obtain e s3 where s3: "call_loader (map_option (\<lambda>close. close (module ?f)) (module_close vt)) s2 = Ret (e, s3)"
      using call_loader_there [of "map_option (\<lambda>close. close (module ?f)) (module_close vt)" s2] vt(2) by auto
    note frame = call_loader_frame [OF s3]
    have "vtables s2 = vtables s" by (subst s2(4)) simp
    then have vts: "vtables s3 = vtables s" using frame by simp
    have info: "info_of s3 g = info_of ?s g" if g: "g \<in> set xs" for g
    proof -
      obtain i where "handle_store ?s g = Some i" using listed_handle(2) [OF ch1 g] by blast
      from relinked_info_of [OF s2(3) this] show ?thesis using frame by (simp add: info_of_def)
    qed
    have dist: "distinct xs" using chain_distinct [OF ch] .
    have same: "info_of s3 g = info_of s g" if "g \<in> set us \<union> set ws" for g
    proof -
      have "g \<in> set xs" "g \<noteq> h" using that xs dist by auto
      then show ?thesis using info [of g] by (simp add: f)
    qed
    then have ok3: "handles_ok s3 (us @ ws) (ext + mset (deplibs (info_of s h)))"
      using Suc.prems(2) one s2(2) frame vts unfolding xs(1) by (intro handles_ok_remove) auto
    have f3: "info_of s3 h = ?f" using info [OF h] by (simp add: f)
    have "h \<notin> set us" using xs(2) .
    then have at3: "handle_store s3 h \<noteq> None" using s2(3) frame at(2) by (simp add: relinked_def)
    then obtain i where i: "handle_store s3 h = Some i" by blast
    have "\<exists>e' s4 xs4. unload_deplibs lt_dlclose h s3 = Some (Ret (e', s4)) \<and> handles_ok s4 xs4 ext \<and> shrinks s3 (us @ ws) s4 xs4
      \<and> (\<forall>g. g \<notin> set (us @ ws) \<longrightarrow> g \<noteq> h \<longrightarrow> handle_store s4 g = handle_store s3 g)"
    proof (rule unload_deplibs_result [of n])
      show "\<exists>e s' xs'. lt_dlclose d s = Some (Ret (e, s')) \<and> handles_ok s' xs' ext \<and> shrinks s xs s' xs'
        \<and> (\<forall>g. g \<notin> set xs \<longrightarrow> handle_store s' g = handle_store s g)"
        if "length xs \<le> n" "handles_ok s xs (add_mset d ext)" "\<not> is_resident (info_of s d)" for s :: "'w dl" and xs ext d
      proof -
        have "- (2 ^ 31) < ref_count (info_of s d)" using that(2,3) by (auto simp: handles_ok_def handle_ok_def Let_def)
        with that(1,2) show ?thesis by (rule Suc.IH)
      qed
    qed (use ok3 f3 ok at(1) i dist Suc.prems(1) xs(1) in \<open>auto simp: handle_ok_def Let_def\<close>)
    then obtain e' s4 xs4 where s4: "unload_deplibs lt_dlclose h s3 = Some (Ret (e', s4))" "handles_ok s4 xs4 ext" "shrinks s3 (us @ ws) s4 xs4"
      "\<forall>g. g \<notin> set (us @ ws) \<longrightarrow> g \<noteq> h \<longrightarrow> handle_store s4 g = handle_store s3 g" by blast
    let ?s4 = "s4\<lparr>handle_store := (handle_store s4)(h := None)\<rparr>"
    have xs4: "set xs4 \<subseteq> set (us @ ws)" by (rule shrinks_subset [OF s4(3)])
    have "h \<notin> set xs4" using xs4 dist xs(1) by auto
    then have "handles_ok ?s4 xs4 ext" using s4(2) by (subst handles_ok_cong [of _ s4]) auto
    moreover have "\<forall>g. g \<notin> set xs \<longrightarrow> handle_store ?s4 g = handle_store s g"
      using s4(4) frame s2(3) rel h by (auto simp: xs(1) relinked_def)
    moreover have "lt_dlclose h s = Some (Ret (e + e', ?s4))"
      unfolding closing if_P [OF True] vt(1) rbind_simps s2(1) s3 prod.case s4(1) ..
    moreover have "shrinks s xs s3 (us @ ws)"
    proof -
      have "filter (\<lambda>g. g \<in> set (us @ ws)) us = us" "filter (\<lambda>g. g \<in> set (us @ ws)) ws = ws" by (auto intro: filter_True)
      moreover have "h \<notin> set (us @ ws)" using dist xs(1) by auto
      ultimately have "us @ ws = filter (\<lambda>g. g \<in> set (us @ ws)) xs" unfolding xs(1) by simp
      moreover have "\<forall>g\<in>set (us @ ws). info_of s3 g = (info_of s g)\<lparr>ref_count := ref_count (info_of s3 g)\<rparr>" using same by simp
      moreover have "\<forall>g\<in>set xs. is_resident (info_of s g) \<longrightarrow> g \<in> set (us @ ws)" using one(2) by (auto simp: xs(1))
      ultimately show ?thesis unfolding shrinks_def by blast
    qed
    then have "shrinks s xs s4 xs4" using s4(3) by (rule shrinks_trans)
    then have "shrinks s xs ?s4 xs4" using \<open>h \<notin> set xs4\<close> by (rule_tac shrinks_cong) (auto simp: info_of_def)
    ultimately show ?thesis by blast
  qed
qed

end
