(* ===== verification/Dl_Life.thy ===== *)
theory Dl_Life
  imports Dl_Handles
begin

text \<open>
  The beginning and the end of libltdl, of \<^verbatim>\<open>src/lib/libltdl/ltdl.c\<close>. The program
  is the one without loaders that are modules themselves (\<^verbatim>\<open>HAVE_LIBDLLOADER\<close>).
\<close>

section \<open>The beginning\<close>

text \<open>\<open>vtable_func\<close> gives the loader; it may be null.\<close>

definition loader_init ::
  "surroundings \<Rightarrow> ('w dl \<Rightarrow> nat \<times> 'w dl) option \<Rightarrow> 'w dl \<Rightarrow> (nat \<times> 'w dl) outcome option" where
  "loader_init env vtable_func s =
     (let (v, s) = (case vtable_func of None \<Rightarrow> (0, s) | Some f \<Rightarrow> f s) in
      rbind (lt_dlloader_add env v s) (\<lambda>(errors, s).
      if errors = 0 \<and> v = 0 then Some Halt
      else if errors \<noteq> 0 then Some (Ret (errors, s))
      else
        rbind (Some (vtable_at s v)) (\<lambda>vt.
        if dlloader_init vt = None then Some (Ret (errors, s))
        else
          rbind (Some (call_loader (dlloader_init vt) s)) (\<lambda>(failed, s).
          Some (Ret (if failed \<noteq> 0 then (errors + 1, LT__SETERROR LT_ERROR_INIT_LOADER s) else (errors, s)))))))"

definition lt_dlinit :: "surroundings \<Rightarrow> ('w dl \<Rightarrow> nat \<times> 'w dl) \<Rightarrow> 'w dl \<Rightarrow> (nat \<times> 'w dl) outcome option" where
  "lt_dlinit env get_vtable s =
     rbind (Some (int_value (initialized s + 1))) (\<lambda>n.
     let s = s\<lparr>initialized := n\<rparr> in
     if n = 1 then
       loader_init env (Some get_vtable)
         (s\<lparr>lt__alloc_die := lt__alloc_die_callback, handles := 0, user_search_path := None\<rparr>)
     else Some (Ret (0, s)))"

section \<open>The end\<close>

partial_function (option) skip_residents :: "'w dl \<Rightarrow> 'w dl outcome option" where
  "skip_residents s =
     (if handles s = 0 then Some (Ret s)
      else
        rbind (Some (handle_at s (handles s))) (\<lambda>f.
        if is_resident f then rbind (Some (next_handle s (handles s))) (\<lambda>n. skip_residents (s\<lparr>handles := n\<rparr>))
        else Some (Ret s)))"

text \<open>Whether the handle is still in the list.\<close>

partial_function (option) still_listed :: "'w dl \<Rightarrow> nat \<Rightarrow> nat \<Rightarrow> bool outcome option" where
  "still_listed s cur tmp =
     (if tmp = 0 then Some (Ret False)
      else if tmp = cur then Some (Ret True)
      else rbind (Some (next_handle s tmp)) (\<lambda>n. still_listed s cur n))"

text \<open>The walk over the handles at one level.\<close>

partial_function (option) close_level ::
  "int \<Rightarrow> nat \<Rightarrow> bool \<Rightarrow> int \<Rightarrow> 'w dl \<Rightarrow> (bool \<times> int \<times> 'w dl) outcome option" where
  "close_level level cur saw_nonresident errors s =
     (if cur = 0 then Some (Ret (saw_nonresident, errors, s))
      else
        let tmp = cur in
        rbind (Some (next_handle s tmp)) (\<lambda>cur.
        rbind (Some (handle_at s tmp)) (\<lambda>f.
        if is_resident f then close_level level cur saw_nonresident errors s
        else if ref_count f \<le> level then
          rbind (lt_dlclose tmp s) (\<lambda>(e, s).
          let errors = (if e \<noteq> 0 then errors + 1 else errors) in
          if cur \<noteq> 0 then
            rbind (still_listed s cur (handles s)) (\<lambda>found.
            close_level level (if found then cur else handles s) True errors s)
          else close_level level cur True errors s)
        else close_level level cur True errors s)))"

text \<open>The levels; \<open>handle\<close> is the head of the list at the call.\<close>

partial_function (option) exit_levels :: "nat \<Rightarrow> int \<Rightarrow> int \<Rightarrow> 'w dl \<Rightarrow> (int \<times> 'w dl) outcome option" where
  "exit_levels handle level errors s =
     (if handle = 0 then Some (Ret (errors, s))
      else
        rbind (close_level level (handles s) False errors s) (\<lambda>(saw_nonresident, errors, s).
        if \<not> saw_nonresident then Some (Ret (errors, s))
        else rbind (Some (int_value (level + 1))) (\<lambda>level. exit_levels handle level errors s)))"

text \<open>The loop that removes the loaders; the memory of a loader that has been removed is released.\<close>

partial_function (option) loaders_loop :: "surroundings \<Rightarrow> nat \<Rightarrow> int \<Rightarrow> 'w dl \<Rightarrow> (int \<times> 'w dl) outcome option" where
  "loaders_loop env loader errors s =
     (if loader = 0 then Some (Ret (errors, s))
      else
        rbind (Some (lt_dlloader_next s loader)) (\<lambda>n.
        rbind (Some (obind (lt_dlloader_get s loader) (\<lambda>v. vtable_at s v))) (\<lambda>vt.
        rbind (lt_dlloader_remove env (loader_name vt) s) (\<lambda>(v, s).
        if v \<noteq> 0 then loaders_loop env n errors (s\<lparr>vtables := (vtables s)(v := None)\<rparr>)
        else loaders_loop env n (if last_error s \<noteq> None then errors + 1 else errors) s))))"

definition lt_dlexit :: "surroundings \<Rightarrow> 'w dl \<Rightarrow> (int \<times> 'w dl) outcome option" where
  "lt_dlexit env s =
     (let handle = handles s in
      if initialized s = 0 then Some (Ret (1, LT__SETERROR LT_ERROR_SHUTDOWN s))
      else
        rbind (Some (int_value (initialized s - 1))) (\<lambda>n.
        let s = s\<lparr>initialized := n\<rparr> in
        if n \<noteq> 0 then Some (Ret (0, s))
        else
          rbind (skip_residents s) (\<lambda>s.
          rbind (exit_levels handle 1 0 s) (\<lambda>(errors, s).
          let s = (if errors = 0 then s\<lparr>last_error := None\<rparr> else s) in
          rbind (Some (lt_dlloader_next s 0)) (\<lambda>loader.
          rbind (loaders_loop env loader errors s) (\<lambda>(errors, s).
          Some (Ret (errors, s\<lparr>user_search_path := None\<rparr>))))))))"

section \<open>Modules without dependencies\<close>

text \<open>On a system whose linker finds the dependencies of a module itself, no handle has any.\<close>

definition plain :: "'w dl \<Rightarrow> nat list \<Rightarrow> bool" where
  "plain s xs \<longleftrightarrow> chain (handle_store s) (handles s) xs \<and>
     (\<forall>h\<in>set xs. let f = info_of s h in
        vtable f \<noteq> 0 \<and> (\<exists>vt. vtables s (vtable f) = Some vt \<and> module_close vt \<noteq> None) \<and> depcount f = 0 \<and> deplibs f = []
        \<and> ref_count f < 2 ^ 31 \<and> (\<not> is_resident f \<longrightarrow> 0 < ref_count f))"

definition held :: "'w dl \<Rightarrow> nat list \<Rightarrow> nat multiset" where
  "held s xs = (\<Sum>h\<in>#mset xs. if is_resident (info_of s h) then {#} else replicate_mset (nat (ref_count (info_of s h))) h)"

lemma count_held: "distinct xs \<Longrightarrow> count (held s xs) h =
    (if h \<in> set xs \<and> \<not> is_resident (info_of s h) then nat (ref_count (info_of s h)) else 0)"
proof -
  have "h \<notin> set xs \<Longrightarrow> count (held s xs) h = 0" for xs
    by (induction xs) (auto simp: held_def)
  then show "distinct xs \<Longrightarrow> ?thesis"
    by (induction xs) (auto simp: held_def)
qed

lemma plain_no_uses: "plain s xs \<Longrightarrow> uses s xs h = 0"
  by (auto simp: uses_zero plain_def Let_def)

lemma plain_handles_ok: "plain s xs \<Longrightarrow> handles_ok s xs (held s xs)"
proof -
  assume p: "plain s xs"
  then have dist: "distinct xs" by (auto simp: plain_def dest: chain_distinct)
  have "set_mset (held s xs) \<subseteq> set xs"
    using count_held [OF dist, of s] by (metis count_eq_zero_iff subsetI)
  with p plain_no_uses [OF p] show ?thesis
    by (auto simp: handles_ok_def handle_ok_def plain_def Let_def count_held [OF dist])
qed

lemma count_only:
  assumes "f' = f\<lparr>ref_count := r\<rparr>"
  shows "deplibs f' = deplibs f" "depcount f' = depcount f" "is_resident f' = is_resident f" "vtable f' = vtable f"
  using assms by simp_all

text \<open>Closing such a module takes one reference, and the handle with the last one.\<close>

lemma close_plain:
  assumes "plain s xs" and "h \<in> set xs" and "\<not> is_resident (info_of s h)"
  shows "\<exists>e s' xs'. lt_dlclose h s = Some (Ret (e, s')) \<and> plain s' xs'
    \<and> xs' = filter (\<lambda>g. g \<noteq> h \<or> ref_count (info_of s h) \<noteq> 1) xs
    \<and> (\<forall>g\<in>set xs'. is_resident (info_of s' g) = is_resident (info_of s g)
         \<and> (\<not> is_resident (info_of s g) \<longrightarrow> ref_count (info_of s' g) = ref_count (info_of s g) - (if g = h then 1 else 0)))"
proof -
  let ?r = "\<lambda>g. ref_count (info_of s g)"
  have dist: "distinct xs" using assms(1) by (auto simp: plain_def dest: chain_distinct)
  have pos: "0 < ?r h" using assms by (auto simp: plain_def Let_def)
  then have "h \<in># held s xs" using assms(2,3) count_held [OF dist, of s h] by (simp add: count_greater_zero_iff [symmetric])
  then obtain ext where ext: "held s xs = add_mset h ext" by (metis mset_add)
  have ok: "handles_ok s xs (add_mset h ext)" using plain_handles_ok [OF assms(1)] ext by simp
  from lt_dlclose_result [OF le_refl ok] pos
  obtain e s' xs' where c: "lt_dlclose h s = Some (Ret (e, s'))" "handles_ok s' xs' ext" "shrinks s xs s' xs'" by auto
  have count: "count ext g = (if g \<in> set xs \<and> \<not> is_resident (info_of s g) then nat (?r g) else 0) - (if g = h then 1 else 0)" for g
    using count_held [OF dist, of s g] unfolding ext by (auto split: if_splits)
  have sub: "set xs' \<subseteq> set xs" using c(3) by (rule shrinks_subset)
  have info: "info_of s' g = (info_of s g)\<lparr>ref_count := ref_count (info_of s' g)\<rparr>" if "g \<in> set xs'" for g
    using c(3) that by (auto simp: shrinks_def)
  have same: "deplibs (info_of s' g) = []" "depcount (info_of s' g) = 0" "is_resident (info_of s' g) = is_resident (info_of s g)"
    if g: "g \<in> set xs'" for g
  proof -
    have "deplibs (info_of s g) = []" "depcount (info_of s g) = 0"
      using sub g assms(1) by (auto simp: plain_def Let_def)
    with count_only [OF info [OF g]] show "deplibs (info_of s' g) = []" "depcount (info_of s' g) = 0" "is_resident (info_of s' g) = is_resident (info_of s g)"
      by simp_all
  qed
  have okg: "handle_ok s' xs' ext g" if "g \<in> set xs'" for g using c(2) that by (simp add: handles_ok_def)
  have no_uses: "uses s' xs' g = 0" for g unfolding uses_zero using same(1) by simp
  have ref: "ref_count (info_of s' g) = int (count ext g)" "0 < count ext g" if "g \<in> set xs'" "\<not> is_resident (info_of s g)" for g
    using okg [OF that(1)] that same(3) [OF that(1)] no_uses by (auto simp: handle_ok_def Let_def)
  have "plain s' xs'"
    using c(2) okg same by (auto simp: plain_def handles_ok_def handle_ok_def Let_def)
  moreover have "g \<in> set xs' \<longleftrightarrow> g \<noteq> h \<or> ?r h \<noteq> 1" if g: "g \<in> set xs" for g
  proof (cases "is_resident (info_of s g)")
    case True
    then show ?thesis using c(3) g assms(3) by (auto simp: shrinks_def)
  next
    case False
    have "g \<in> set xs' \<longleftrightarrow> 0 < count ext g"
      using ref(2) [OF _ False] c(2) by (auto simp: handles_ok_def count_greater_zero_iff)
    moreover have "0 < ?r g" using False g assms(1) by (auto simp: plain_def Let_def)
    ultimately show ?thesis using False g by (auto simp: count)
  qed
  then have "filter (\<lambda>g. g \<in> set xs') xs = filter (\<lambda>g. g \<noteq> h \<or> ?r h \<noteq> 1) xs" by (intro filter_cong) auto
  moreover have "xs' = filter (\<lambda>g. g \<in> set xs') xs" using c(3) by (simp add: shrinks_def)
  moreover have "ref_count (info_of s' g) = ?r g - (if g = h then 1 else 0)" if "g \<in> set xs'" "\<not> is_resident (info_of s g)" for g
    using ref [OF that] that sub by (auto simp: count split: if_splits)
  ultimately show ?thesis using c(1) same(3) by (intro exI [of _ e] exI [of _ s'] exI [of _ xs']) metis
qed

section \<open>Closing by levels\<close>

lemma next_in_chain:
  assumes "chain (handle_store s) p (us @ w # ws)"
  shows "next_handle s w = Ret (if ws = [] then 0 else hd ws)" and "handle_at s w = Ret (info_of s w)" and "w \<noteq> 0"
proof -
  obtain i where i: "handle_store s w = Some i" "w \<noteq> 0" "chain (handle_store s) (next_item i) ws"
    using chain_split [OF assms] by auto
  then show "next_handle s w = Ret (if ws = [] then 0 else hd ws)" "handle_at s w = Ret (info_of s w)" "w \<noteq> 0"
    by (cases ws; auto simp: next_handle_def handle_at_def info_of_def)+
qed

lemma still_listed_result: "chain (handle_store s) p xs \<Longrightarrow> still_listed s cur p = Some (Ret (cur \<in> set xs))"
proof (induction xs arbitrary: p)
  case Nil
  then show ?case by (subst still_listed.simps) simp
next
  case (Cons x xs)
  then obtain i where i: "p = x" "x \<noteq> 0" "handle_store s x = Some i" "chain (handle_store s) (next_item i) xs" by auto
  with Cons.IH [OF i(4)] show ?case by (subst still_listed.simps) (auto simp: next_handle_def)
qed

text \<open>One level takes a reference from every handle that has no more than the level has.\<close>

lemma close_level_result:
  assumes "plain s (us @ ws)" and "1 \<le> level"
  shows "\<exists>e s' xs'. close_level level (if ws = [] then 0 else hd ws) saw errors s
      = Some (Ret (saw \<or> (\<exists>g\<in>set ws. \<not> is_resident (info_of s g)), e, s'))
    \<and> plain s' xs' \<and> xs' = us @ filter (\<lambda>g. is_resident (info_of s g) \<or> ref_count (info_of s g) \<noteq> 1) ws
    \<and> (\<forall>g\<in>set xs'. is_resident (info_of s' g) = is_resident (info_of s g)
         \<and> (\<not> is_resident (info_of s g) \<longrightarrow>
              ref_count (info_of s' g) = ref_count (info_of s g) - (if g \<in> set ws \<and> ref_count (info_of s g) \<le> level then 1 else 0)))"
  using assms(1)
proof (induction ws arbitrary: us s saw errors)
  case Nil
  then show ?case by (subst close_level.simps) auto
next
  case (Cons w ws)
  let ?r = "\<lambda>g. ref_count (info_of s g)"
  have ch: "chain (handle_store s) (handles s) (us @ w # ws)" using Cons.prems by (simp add: plain_def)
  then have dist: "distinct (us @ w # ws)" by (rule chain_distinct)
  note at = next_in_chain [OF ch]
  let ?cur = "if ws = [] then 0 else hd ws"
  have skip: ?case if same: "close_level level w saw errors s = close_level level ?cur saw' errors s"
    and saw': "saw' = (saw \<or> \<not> is_resident (info_of s w))" and stays: "is_resident (info_of s w) \<or> ?r w \<noteq> 1 \<and> \<not> ?r w \<le> level" for saw'
  proof -
    have "plain s ((us @ [w]) @ ws)" using Cons.prems by simp
    from Cons.IH [OF this, of saw' errors] obtain e s' xs' where r: "close_level level ?cur saw' errors s
        = Some (Ret (saw' \<or> (\<exists>g\<in>set ws. \<not> is_resident (info_of s g)), e, s'))"
      "plain s' xs'" "xs' = (us @ [w]) @ filter (\<lambda>g. is_resident (info_of s g) \<or> ?r g \<noteq> 1) ws"
      "\<forall>g\<in>set xs'. is_resident (info_of s' g) = is_resident (info_of s g)
         \<and> (\<not> is_resident (info_of s g) \<longrightarrow> ref_count (info_of s' g) = ?r g - (if g \<in> set ws \<and> ?r g \<le> level then 1 else 0))"
      by blast
    have "xs' = us @ filter (\<lambda>g. is_resident (info_of s g) \<or> ?r g \<noteq> 1) (w # ws)" using r(3) stays by auto
    moreover have "(g \<in> set ws \<and> ?r g \<le> level) = (g \<in> set (w # ws) \<and> ?r g \<le> level)" if "\<not> is_resident (info_of s g)" for g
      using that stays by auto
    ultimately show ?thesis
      using r(1,2,4) same saw' by (intro exI [of _ e] exI [of _ s'] exI [of _ xs']) auto
  qed
  show ?case
  proof (cases "is_resident (info_of s w)")
    case True
    have "close_level level w saw errors s = close_level level ?cur saw errors s"
      using True at by (subst close_level.simps) (simp add: Let_def)
    then show ?thesis using skip [of saw] True by simp
  next
    case res: False
    show ?thesis
    proof (cases "?r w \<le> level")
      case False
      have "close_level level w saw errors s = close_level level ?cur True errors s"
        using res False at by (subst close_level.simps) (simp add: Let_def)
      then show ?thesis using skip [of True] res False assms(2) by simp
    next
      case True
      let ?us = "us @ (if ?r w = 1 then [] else [w])"
      from close_plain [OF Cons.prems _ res] obtain e1 s1 xs1 where c: "lt_dlclose w s = Some (Ret (e1, s1))" "plain s1 xs1"
        "xs1 = filter (\<lambda>g. g \<noteq> w \<or> ?r w \<noteq> 1) (us @ w # ws)"
        "\<forall>g\<in>set xs1. is_resident (info_of s1 g) = is_resident (info_of s g)
           \<and> (\<not> is_resident (info_of s g) \<longrightarrow> ref_count (info_of s1 g) = ?r g - (if g = w then 1 else 0))" by auto
      have "filter (\<lambda>g. g \<noteq> w \<or> ?r w \<noteq> 1) us = us" "filter (\<lambda>g. g \<noteq> w \<or> ?r w \<noteq> 1) ws = ws"
        using dist by (auto intro!: filter_True)
      then have xs1: "xs1 = ?us @ ws" using c(3) by (cases "?r w = 1") simp_all
      let ?errors = "if e1 \<noteq> 0 then errors + 1 else errors"
      have "close_level level w saw errors s = close_level level ?cur True ?errors s1"
      proof -
        have "ws \<noteq> [] \<Longrightarrow> still_listed s1 (hd ws) (handles s1) = Some (Ret True)"
          using still_listed_result [of s1 "handles s1" xs1 "hd ws"] c(2) xs1 by (simp add: plain_def)
        moreover have "ws \<noteq> [] \<Longrightarrow> hd ws \<noteq> 0" using chain_not_null [OF ch] by (cases ws) auto
        ultimately show ?thesis
          using res True at c(1) by (subst close_level.simps) (auto simp: Let_def)
      qed
      moreover from Cons.IH [of s1 ?us True ?errors] c(2) xs1 obtain e s' xs' where r: "close_level level ?cur True ?errors s1 = Some (Ret (True, e, s'))"
        "plain s' xs'" "xs' = ?us @ filter (\<lambda>g. is_resident (info_of s1 g) \<or> ref_count (info_of s1 g) \<noteq> 1) ws"
        "\<forall>g\<in>set xs'. is_resident (info_of s' g) = is_resident (info_of s1 g)
           \<and> (\<not> is_resident (info_of s1 g) \<longrightarrow>
                ref_count (info_of s' g) = ref_count (info_of s1 g) - (if g \<in> set ws \<and> ref_count (info_of s1 g) \<le> level then 1 else 0))"
        by auto
      moreover have old: "g \<noteq> w" "is_resident (info_of s1 g) = is_resident (info_of s g)" "\<not> is_resident (info_of s g) \<longrightarrow> ref_count (info_of s1 g) = ?r g"
        if "g \<in> set ws" for g using c(4) xs1 dist that by auto
      then have "filter (\<lambda>g. is_resident (info_of s1 g) \<or> ref_count (info_of s1 g) \<noteq> 1) ws = filter (\<lambda>g. is_resident (info_of s g) \<or> ?r g \<noteq> 1) ws"
        by (intro filter_cong) auto
      moreover have "us @ filter (\<lambda>g. is_resident (info_of s g) \<or> ?r g \<noteq> 1) (w # ws) = ?us @ filter (\<lambda>g. is_resident (info_of s g) \<or> ?r g \<noteq> 1) ws"
        using res by simp
      moreover have info: "is_resident (info_of s' g) = is_resident (info_of s g)
         \<and> (\<not> is_resident (info_of s g) \<longrightarrow> ref_count (info_of s' g) = ?r g - (if g \<in> set (w # ws) \<and> ?r g \<le> level then 1 else 0))" if g: "g \<in> set xs'" for g
      proof -
        have x: "g \<in> set xs1" using g r(3) xs1 by auto
        have "w \<notin> set ws" using dist by simp
        then show ?thesis using r(4) g c(4) x True by (cases "g = w") auto
      qed
      ultimately have "xs' = us @ filter (\<lambda>g. is_resident (info_of s g) \<or> ?r g \<noteq> 1) (w # ws)"
        "close_level level w saw errors s = Some (Ret (True, e, s'))" by (simp_all only:)
      moreover have "(saw \<or> (\<exists>g\<in>set (w # ws). \<not> is_resident (info_of s g))) = True" using res by simp
      ultimately show ?thesis
        using r(2) info unfolding list.sel if_not_P [OF list.distinct(2)] by (intro exI [of _ e] exI [of _ s'] exI [of _ xs']) (simp only: simp_thms ball_simps, blast)
    qed
  qed
qed

definition only_residents :: "'w dl \<Rightarrow> nat list \<Rightarrow> bool" where
  "only_residents s xs \<longleftrightarrow> (\<forall>g\<in>set xs. is_resident (info_of s g))"

text \<open>
  With every count at most \<open>b\<close>, the level at which a handle still is in the list and its count are together no more
  than \<open>2 * b\<close>, so the walk ends by then.
\<close>

lemma exit_levels_result:
  assumes "plain s xs" and "1 \<le> level" and "level \<le> 2 * b" and "2 * b < 2 ^ 31" and "handle \<noteq> 0"
    and "\<forall>g\<in>set xs. \<not> is_resident (info_of s g) \<longrightarrow> ref_count (info_of s g) \<le> b \<and> ref_count (info_of s g) + level \<le> 2 * b"
  shows "\<exists>e s'. exit_levels handle level errors s = Some (Ret (e, s'))
    \<and> plain s' (filter (\<lambda>g. is_resident (info_of s g)) xs) \<and> only_residents s' (filter (\<lambda>g. is_resident (info_of s g)) xs)"
  using assms
proof (induction "nat (2 * b - level)" arbitrary: level s xs errors rule: less_induct)
  case less
  let ?r = "\<lambda>g. ref_count (info_of s g)" and ?res = "\<lambda>g. is_resident (info_of s g)"
  have "handles s = (if xs = [] then 0 else hd xs)" using less.prems(1) by (cases xs) (auto simp: plain_def)
  with close_level_result [of s "[]" xs level False errors] less.prems(1,2) obtain e s1 xs1 where c:
    "close_level level (handles s) False errors s = Some (Ret (\<exists>g\<in>set xs. \<not> ?res g, e, s1))"
    "plain s1 xs1" "xs1 = filter (\<lambda>g. ?res g \<or> ?r g \<noteq> 1) xs"
    "\<forall>g\<in>set xs1. is_resident (info_of s1 g) = ?res g
       \<and> (\<not> ?res g \<longrightarrow> ref_count (info_of s1 g) = ?r g - (if g \<in> set xs \<and> ?r g \<le> level then 1 else 0))"
    by auto
  show ?case
  proof (cases "\<exists>g\<in>set xs. \<not> ?res g")
    case False
    then have "xs1 = xs" "filter ?res xs = xs" using c(3) by (auto intro!: filter_True)
    moreover have "only_residents s1 xs" using c(4) False calculation(1) by (auto simp: only_residents_def)
    ultimately show ?thesis
      using c(1,2) False less.prems(5) by (subst exit_levels.simps) auto
  next
    case True
    then obtain g where g: "g \<in> set xs" "\<not> ?res g" by blast
    then have pos: "0 < ?r g" using less.prems(1) by (auto simp: plain_def Let_def)
    then have lt: "level < 2 * b" using less.prems(6) g by force
    have bound: "\<forall>g\<in>set xs1. \<not> is_resident (info_of s1 g) \<longrightarrow>
        ref_count (info_of s1 g) \<le> b \<and> ref_count (info_of s1 g) + (level + 1) \<le> 2 * b"
    proof (intro ballI impI)
      fix g assume g: "g \<in> set xs1" "\<not> is_resident (info_of s1 g)"
      then have x: "g \<in> set xs" "\<not> ?res g" using c(3,4) by auto
      then have "?r g \<le> b" "?r g + level \<le> 2 * b" using less.prems(6) by auto
      then show "ref_count (info_of s1 g) \<le> b \<and> ref_count (info_of s1 g) + (level + 1) \<le> 2 * b"
        using c(4) g(1) x by (cases "?r g \<le> level") auto
    qed
    have "nat (2 * b - (level + 1)) < nat (2 * b - level)" using lt by simp
    from less.hyps [OF this c(2) _ _ less.prems(4,5) bound, of e] less.prems(2) lt
    obtain e' s' where r: "exit_levels handle (level + 1) e s1 = Some (Ret (e', s'))"
      "plain s' (filter (\<lambda>g. is_resident (info_of s1 g)) xs1)" "only_residents s' (filter (\<lambda>g. is_resident (info_of s1 g)) xs1)" by auto
    have "filter (\<lambda>g. is_resident (info_of s1 g)) xs1 = filter ?res xs1" using c(4) by (intro filter_cong) auto
    also have "\<dots> = filter ?res xs" unfolding c(3) by (auto intro: filter_cong)
    finally have same: "filter (\<lambda>g. is_resident (info_of s1 g)) xs1 = filter ?res xs" .
    have "int_value (level + 1) = Ret (level + 1)" using less.prems(2,4) lt by (simp add: int_value_def)
    then have "exit_levels handle level errors s = Some (Ret (e', s'))"
      using True c(1) r(1) less.prems(5) by (subst exit_levels.simps) simp
    then show ?thesis using r(2,3) unfolding same by blast
  qed
qed

section \<open>An example\<close>

definition plain_loader :: "unit lt_dlvtable" where
  "plain_loader = \<lparr>loader_name = [108], sym_prefix = None, module_open = Some (\<lambda>_ _ w. (1, w)), module_close = Some (\<lambda>_ w. (0, w)),
     find_sym = Some (\<lambda>_ _ w. (1, w)), dlloader_init = None, dlloader_exit = None, priority = 0\<rparr>"

definition open_module :: "byte list \<Rightarrow> int \<Rightarrow> nat list \<Rightarrow> lt__handle" where
  "open_module name n deps = \<lparr>vtable = 9, info_filename = Some name, info_name = Some name, ref_count = n, is_resident = False,
     is_symglobal = False, is_symlocal = False, depcount = int (length deps), deplibs = deps, module = 1, interface_data = []\<rparr>"

text \<open>Two modules: the first needs the second if \<open>deps\<close> says so, and has been opened \<open>n\<close> times.\<close>

definition two_modules :: "int \<Rightarrow> nat list \<Rightarrow> unit dl" where
  "two_modules n deps = ltdl.extend fresh_ltdl \<lparr>handles = 1,
     handle_store = [1 \<mapsto> \<lparr>next_item = 2, userdata = open_module [97] n deps\<rparr>, 2 \<mapsto> \<lparr>next_item = 0, userdata = open_module [98] 1 []\<rparr>],
     loaders = 1, loader_store = [1 \<mapsto> \<lparr>next_item = 0, userdata = 9\<rparr>], vtables = [9 \<mapsto> plain_loader], initialized = 1, world = ()\<rparr>"

lemmas heap = two_modules_def ltdl.extend_def fresh_ltdl_def open_module_def plain_loader_def next_handle_def handle_at_def item_at_def
  count_down_def set_handle_def int_value_def unlink_def vtable_at_def call_loader_def unload_deplibs_def set_next_def Let_def peek_def

text \<open>
  A module that has been opened twice and a dependency it has alone: the walk at the first level closes the
  dependency, and closing the module at the third reads what has been released.
\<close>

lemma exit_uses_released_handle: "exit_levels 1 1 0 (two_modules 2 [2]) = Some Crash"
  by (subst seek.simps lt_dlclose.simps still_listed.simps close_level.simps exit_levels.simps, simp add: heap)+

text \<open>The walk of \<open>lt_dlhandle_map\<close> does not go on from a handle it has called the function with.\<close>

lemma map_never_returns:
  assumes "handles s \<noteq> 0" and "passes iface s (handles s)"
  shows "lt_dlhandle_map (Some iface) (\<lambda>h d s. Some (Ret (0, f h d, s))) d s = None"
proof -
  have adv: "advance iface s (handles s) = Some (Ret (handles s))" using assms(2) by (subst advance.simps) simp
  have never: "\<not> (iface' = iface \<and> func = (\<lambda>h d s. Some (Ret (0, f h d, s))) \<and> cur = handles s \<and> s' = s)"
    if "map_loop iface' func cur d s' = Some r" for iface' func cur d s' r
  proof (rule map_loop.raw_induct [where P = "\<lambda>iface' func cur d s' r.
        \<not> (iface' = iface \<and> func = (\<lambda>h d s. Some (Ret (0, f h d, s))) \<and> cur = handles s \<and> s' = s)", OF _ that], rule notI, elim conjE)
  qed (use assms(1) adv in \<open>simp, blast\<close>)
  show ?thesis
  proof (cases "map_loop iface (\<lambda>h d s. Some (Ret (0, f h d, s))) (handles s) d s")
    case (Some r)
    from never [OF this] show ?thesis by simp
  qed (simp add: lt_dlhandle_map_def)
qed

section \<open>Properties\<close>

lemma skip_residents_result:
  "plain s xs \<Longrightarrow> \<exists>s'. skip_residents s = Some (Ret s') \<and> plain s' (dropWhile (\<lambda>g. is_resident (info_of s g)) xs)
    \<and> info_of s' = info_of s"
proof (induction xs arbitrary: s)
  case Nil
  then have "handles s = 0" by (simp add: plain_def)
  with Nil show ?case by (subst skip_residents.simps) auto
next
  case (Cons x xs)
  have ch: "chain (handle_store s) (handles s) ([] @ x # xs)" using Cons.prems by (simp add: plain_def)
  then have x: "handles s = x" by simp
  note at = next_in_chain [OF ch]
  show ?case
  proof (cases "is_resident (info_of s x)")
    case True
    let ?s = "s\<lparr>handles := if xs = [] then 0 else hd xs\<rparr>"
    obtain i where "handle_store s x = Some i" "chain (handle_store s) (next_item i) xs" using ch by auto
    moreover from this have "next_item i = (if xs = [] then 0 else hd xs)" by (cases xs) auto
    ultimately have "chain (handle_store ?s) (handles ?s) xs" by simp
    have same: "info_of ?s = info_of s" by (auto simp: info_of_def)
    with \<open>chain (handle_store ?s) (handles ?s) xs\<close> have "plain ?s xs" using Cons.prems by (auto simp: plain_def Let_def)
    from Cons.IH [OF this] show ?thesis
      using True at x same by (subst skip_residents.simps) auto
  next
    case False
    with Cons.prems at x show ?thesis by (subst skip_residents.simps) auto
  qed
qed

text \<open>
  C19: Closing a module returns for every list of handles whose counts are right, takes one reference from it, and
  leaves the counts right: a handle is released exactly if neither the program nor another module holds it any
  more, its dependencies are closed in turn, and resident modules stay.
\<close>

theorem closing_counts_references:
  assumes "handles_ok s xs (add_mset h ext)" and "- (2 ^ 31) < ref_count (info_of s h)"
  shows "\<exists>e s' xs'. lt_dlclose h s = Some (Ret (e, s')) \<and> handles_ok s' xs' ext \<and> shrinks s xs s' xs'
    \<and> (\<forall>g\<in>set xs - set xs'. count ext g = 0 \<and> uses s' xs' g = 0)"
proof -
  from lt_dlclose_result [OF le_refl assms] obtain e s' xs' where c: "lt_dlclose h s = Some (Ret (e, s'))"
    "handles_ok s' xs' ext" "shrinks s xs s' xs'" by blast
  have "count ext g = 0 \<and> uses s' xs' g = 0" if "g \<notin> set xs'" for g
    using c(2) that by (fastforce simp: handles_ok_def handle_ok_def Let_def uses_zero count_eq_zero_iff)
  with c show ?thesis by blast
qed

lemma two_modules_info: "info_of (two_modules n deps) 1 = open_module [97] n deps" "info_of (two_modules n deps) 2 = open_module [98] 1 []"
  by (simp_all add: info_of_def two_modules_def ltdl.extend_def fresh_ltdl_def)

theorem closing_counts_references_witness:
  "\<exists>e s' xs'. lt_dlclose 1 (two_modules 1 [2]) = Some (Ret (e, s')) \<and> handles_ok s' xs' {#} \<and> shrinks (two_modules 1 [2]) [1, 2] s' xs'
    \<and> (\<forall>g\<in>set [1, 2] - set xs'. count {#} g = 0 \<and> uses s' xs' g = 0)"
proof (rule closing_counts_references)
  have "chain (handle_store (two_modules 1 [2])) (handles (two_modules 1 [2])) [1, 2]"
    by (simp add: two_modules_def ltdl.extend_def fresh_ltdl_def)
  moreover have "\<exists>vt. vtables (two_modules 1 [2]) 9 = Some vt \<and> module_close vt \<noteq> None"
    by (simp add: two_modules_def ltdl.extend_def fresh_ltdl_def plain_loader_def)
  ultimately show "handles_ok (two_modules 1 [2]) [1, 2] {#1#}"
    by (simp add: handles_ok_def handle_ok_def Let_def uses_def two_modules_info two_modules_info [unfolded One_nat_def] open_module_def)
qed (simp add: two_modules_info two_modules_info [unfolded One_nat_def] open_module_def)

text \<open>
  C20: Where no module has dependencies, the walk by levels of the end of libltdl returns, and of the handles only
  resident ones are left, in their order.
\<close>

theorem exit_closes_modules:
  assumes "plain s xs" and "xs \<noteq> []" and "\<forall>g\<in>set xs. \<not> is_resident (info_of s g) \<longrightarrow> ref_count (info_of s g) < 2 ^ 30"
  shows "\<exists>s0 e s'. skip_residents s = Some (Ret s0) \<and> exit_levels (handles s) 1 0 s0 = Some (Ret (e, s'))
    \<and> plain s' (filter (\<lambda>g. is_resident (info_of s g)) (dropWhile (\<lambda>g. is_resident (info_of s g)) xs))
    \<and> only_residents s' (filter (\<lambda>g. is_resident (info_of s g)) (dropWhile (\<lambda>g. is_resident (info_of s g)) xs))"
proof -
  let ?ys = "dropWhile (\<lambda>g. is_resident (info_of s g)) xs" and ?b = "2 ^ 30 - 1 :: int"
  obtain s0 where s0: "skip_residents s = Some (Ret s0)" "plain s0 ?ys" "info_of s0 = info_of s"
    using skip_residents_result [OF assms(1)] by blast
  have "handles s \<noteq> 0" using assms(1,2) chain_null_iff by (auto simp: plain_def)
  moreover have "\<forall>g\<in>set ?ys. \<not> is_resident (info_of s0 g) \<longrightarrow> ref_count (info_of s0 g) \<le> ?b \<and> ref_count (info_of s0 g) + 1 \<le> 2 * ?b"
    using assms(3) s0(3) by (force dest: set_dropWhileD)
  ultimately show ?thesis using exit_levels_result [OF s0(2), of 1 ?b "handles s" 0] s0(1,3) by auto
qed

theorem exit_closes_modules_witness:
  "\<exists>s0 e s'. skip_residents (two_modules 2 []) = Some (Ret s0) \<and> exit_levels 1 1 0 s0 = Some (Ret (e, s'))
    \<and> plain s' [] \<and> only_residents s' []"
proof -
  have "chain (handle_store (two_modules 2 [])) (handles (two_modules 2 [])) [1, 2]" "handles (two_modules 2 []) = 1"
    by (simp_all add: two_modules_def ltdl.extend_def fresh_ltdl_def)
  moreover have "\<exists>vt. vtables (two_modules 2 []) 9 = Some vt \<and> module_close vt \<noteq> None"
    by (simp add: two_modules_def ltdl.extend_def fresh_ltdl_def plain_loader_def)
  ultimately have "plain (two_modules 2 []) [1, 2]"
    by (simp add: plain_def Let_def two_modules_info two_modules_info [unfolded One_nat_def] open_module_def)
  from exit_closes_modules [OF this] \<open>handles (two_modules 2 []) = 1\<close> show ?thesis
    by (simp add: two_modules_info two_modules_info [unfolded One_nat_def] open_module_def)
qed

end
