(* ===== verification/Dl_Archive.thy ===== *)
theory Dl_Archive
  imports Dl_Handles
begin

text \<open>
  Reading a libtool archive: \<open>trim\<close> and \<open>parse_dotla_file\<close> of \<^verbatim>\<open>src/lib/libltdl/ltdl.c\<close>. The buffer the lines
  are read into is an array object that grows; what is cut out of a line is the list of its characters. A
  file is what is left to read of it, and whether its end has been met.
\<close>

section \<open>Files\<close>

record la_file =
  unread :: "byte list"
  at_end :: bool

text \<open>What \<^verbatim>\<open>fgets\<close> reads: up to the first newline, but less than \<open>n\<close> bytes.\<close>

definition next_piece :: "nat \<Rightarrow> byte list \<Rightarrow> byte list" where
  "next_piece n xs = (let w = takeWhile (\<lambda>c. c \<noteq> 10) (take (n - 1) xs) in if length w < length (take (n - 1) xs) then w @ [10] else w)"

text \<open>\<^verbatim>\<open>fgets\<close> into the object from a position; without a byte the object is left alone.\<close>

definition fgets :: "byte list \<Rightarrow> nat \<Rightarrow> int \<Rightarrow> la_file \<Rightarrow> (bool \<times> byte list \<times> la_file) outcome" where
  "fgets buf p n file =
     (if n < 2 then Crash
      else
        let piece = next_piece (nat n) (unread file);
            ended = at_end file \<or> last (0 # piece) \<noteq> 10 \<and> length piece < nat n - 1;
            file = \<lparr>unread = drop (length piece) (unread file), at_end = ended\<rparr>
        in if piece = [] then Ret (False, buf, file)
           else obind (write_block buf p (piece @ [0])) (\<lambda>buf. Ret (True, buf, file)))"

section \<open>The lines of an archive\<close>

record la =
  dlname :: "byte list option"
  libdir :: "byte list option"
  dependency_libs :: "byte list option"
  old_name :: "byte list option"
  installed :: bool

text \<open>The position of the last such character.\<close>

definition strrchr_at :: "byte list \<Rightarrow> byte \<Rightarrow> nat option" where
  "strrchr_at str c = (if c \<in> set str then Some (length str - 1 - length (takeWhile (\<lambda>x. x \<noteq> c) (rev str))) else None)"

text \<open>The number of errors, and the new value of the destination.\<close>

definition trim :: "surroundings \<Rightarrow> byte list \<Rightarrow> 'a ltdl_scheme \<Rightarrow> (nat \<times> byte list option \<times> 'a ltdl_scheme) outcome" where
  "trim env str s =
     (case strrchr_at str 39 of
        None \<Rightarrow> Ret (1, None, s)
      | Some e \<Rightarrow>
          if e = 0 then Ret (1, None, s)
          else if length str > 3 \<and> hd str = 39 then
            obind (lt__malloc (met env) (fresh_bytes env) e s) (\<lambda>(tmp, s).
            case tmp of
              None \<Rightarrow> Ret (1, None, s)
            | Some _ \<Rightarrow> Ret (0, Some (take (e - 1) (tl str)), s))
          else Ret (0, None, s))"

definition chars :: "string \<Rightarrow> byte list" where
  "chars = map of_char"

definition starts_with :: "byte list \<Rightarrow> byte list \<Rightarrow> bool" where
  "starts_with p str \<longleftrightarrow> take (length p) str = p"

text \<open>What a line changes.\<close>

definition la_line :: "surroundings \<Rightarrow> byte list \<Rightarrow> la \<Rightarrow> 'a ltdl_scheme \<Rightarrow> (nat \<times> la \<times> 'a ltdl_scheme) outcome" where
  "la_line env line a s =
     (if starts_with (chars ''dlname='') line then
        obind (trim env (drop 7 line) s) (\<lambda>(e, v, s). Ret (e, a\<lparr>dlname := v\<rparr>, s))
      else if starts_with (chars ''old_library='') line then
        obind (trim env (drop 12 line) s) (\<lambda>(e, v, s). Ret (e, a\<lparr>old_name := v\<rparr>, s))
      else if starts_with (chars ''libdir='') line then
        obind (trim env (drop 7 line) s) (\<lambda>(e, v, s). Ret (e, a\<lparr>libdir := v\<rparr>, s))
      else if starts_with (chars ''dependency_libs='') line then
        obind (trim env (drop 16 line) s) (\<lambda>(e, v, s). Ret (e, a\<lparr>dependency_libs := v\<rparr>, s))
      else if line = chars ''installed=yes'' @ [10] then Ret (0, a\<lparr>installed := True\<rparr>, s)
      else if line = chars ''installed=no'' @ [10] then Ret (0, a\<lparr>installed := False\<rparr>, s)
      else if dlname a = None \<and> starts_with (chars ''library_names='') line then
        obind (trim env (drop 14 line) s) (\<lambda>(e, v, s).
        case v of
          None \<Rightarrow> Ret (e, a\<lparr>dlname := v\<rparr>, s)
        | Some names \<Rightarrow>
            (case strrchr_at names 32 of
               None \<Rightarrow> Ret (e, a\<lparr>dlname := v\<rparr>, s)
             | Some p \<Rightarrow>
                 if e \<noteq> 0 then Ret (e, a\<lparr>dlname := v\<rparr>, s)
                 else
                   obind (lt__strdup (met env) (fresh_bytes env) (drop (p + 1) names @ [0]) s) (\<lambda>(copy, s).
                   if copy = None then Ret (e + 1, a\<lparr>dlname := v\<rparr>, s)
                   else Ret (e, a\<lparr>dlname := Some (drop (p + 1) names)\<rparr>, s))))
      else Ret (0, a, s))"

section \<open>Reading the archive\<close>

definition LT_FILENAME_MAX :: nat where
  "LT_FILENAME_MAX = 1024"

text \<open>The loop that reads on where the line is longer than the buffer; no buffer is left without memory.\<close>

partial_function (option) grow ::
  "surroundings \<Rightarrow> byte list \<Rightarrow> nat \<Rightarrow> la_file \<Rightarrow> 'a ltdl_scheme \<Rightarrow> (byte list option \<times> nat \<times> la_file \<times> 'a ltdl_scheme) outcome option"
where
  "grow env line line_len file s =
     rbind (Some (peek line (size_diff line_len 2))) (\<lambda>c.
     if c \<noteq> 0 \<and> c \<noteq> 10 \<and> \<not> at_end file then
       rbind (Some (lt__realloc (met env) (fresh_bytes env) (Some line) (line_len * 2 mod size_mod) s)) (\<lambda>(line, s).
       case line of
         None \<Rightarrow> Some (Ret (None, line_len, file, s))
       | Some line \<Rightarrow>
           rbind (Some (poke line (size_diff (line_len * 2 mod size_mod) 2) 0)) (\<lambda>line.
           rbind (Some (fgets line (size_diff line_len 1) (to_int line_len + 1) file)) (\<lambda>(got, line, file).
           if \<not> got then Some (Ret (Some line, line_len, file, s))
           else grow env line (line_len * 2 mod size_mod) file s)))
     else Some (Ret (Some line, line_len, file, s)))"

partial_function (option) parse_loop ::
  "surroundings \<Rightarrow> byte list \<Rightarrow> nat \<Rightarrow> la_file \<Rightarrow> la \<Rightarrow> 'a ltdl_scheme \<Rightarrow> (nat \<times> la \<times> 'a ltdl_scheme) outcome option" where
  "parse_loop env line line_len file a s =
     (if at_end file then Some (Ret (0, a, s))
      else
        rbind (Some (poke line (size_diff line_len 2) 0)) (\<lambda>line.
        rbind (Some (fgets line 0 (to_int line_len) file)) (\<lambda>(got, line, file).
        if \<not> got then Some (Ret (0, a, s))
        else
          rbind (grow env line line_len file s) (\<lambda>(line, line_len, file, s).
          case line of
            None \<Rightarrow> Some (Ret (1, a, s))
          | Some line \<Rightarrow>
              rbind (Some (peek line 0)) (\<lambda>c.
              if c = 10 \<or> c = 35 then parse_loop env line line_len file a s
              else
                rbind (Some (c_strlen line)) (\<lambda>n.
                rbind (Some (la_line env (take n line) a s)) (\<lambda>(e, a, s).
                if e \<noteq> 0 then Some (Ret (e, a, s)) else parse_loop env line line_len file a s)))))))"

definition parse_dotla_file ::
  "surroundings \<Rightarrow> la_file \<Rightarrow> la \<Rightarrow> 'a ltdl_scheme \<Rightarrow> (nat \<times> la \<times> 'a ltdl_scheme) outcome option" where
  "parse_dotla_file env file a s =
     rbind (Some (lt__malloc (met env) (fresh_bytes env) LT_FILENAME_MAX s)) (\<lambda>(line, s).
     case line of
       None \<Rightarrow> Some (Ret (1, a, LT__SETERROR LT_ERROR_FILE_NOT_FOUND s))
     | Some line \<Rightarrow> parse_loop env line LT_FILENAME_MAX file a s)"

section \<open>Line by line\<close>

definition first_line :: "byte list \<Rightarrow> byte list" where
  "first_line xs = (let w = takeWhile (\<lambda>c. c \<noteq> 10) xs in if length w < length xs then w @ [10] else w)"

lemma first_line_not_Nil: "xs \<noteq> [] \<Longrightarrow> first_line xs \<noteq> []"
  by (cases xs) (auto simp: first_line_def Let_def)

lemma first_line_length: "length (first_line xs) \<le> length xs"
  using length_takeWhile_le [of "\<lambda>c. c \<noteq> 10" xs] by (auto simp: first_line_def Let_def)

function file_lines :: "byte list \<Rightarrow> byte list list" where
  "file_lines [] = []"
| "file_lines (c # xs) = first_line (c # xs) # file_lines (drop (length (first_line (c # xs))) (c # xs))"
  by pat_completeness auto
termination
  by (relation "measure length") (use first_line_not_Nil in auto)

text \<open>What the lines make of the values, until one has an error; comments and empty lines are skipped.\<close>

fun la_lines :: "surroundings \<Rightarrow> byte list list \<Rightarrow> la \<Rightarrow> 'a ltdl_scheme \<Rightarrow> (nat \<times> la \<times> 'a ltdl_scheme) outcome" where
  "la_lines env [] a s = Ret (0, a, s)"
| "la_lines env (l # ls) a s =
     (if hd l = 10 \<or> hd l = 35 then la_lines env ls a s
      else obind (la_line env l a s) (\<lambda>(e, a, s). if e \<noteq> 0 then Ret (e, a, s) else la_lines env ls a s))"

lemma no_newline: "10 \<notin> set w \<Longrightarrow> takeWhile (\<lambda>c. c \<noteq> 10) w = w"
  by (auto simp: takeWhile_eq_all_conv)

lemma first_line_split:
  "\<exists>r. xs = first_line xs @ r \<and> (last (0 # first_line xs) \<noteq> 10 \<longrightarrow> r = []) \<and> 10 \<notin> set (butlast (first_line xs))"
proof (cases "10 \<in> set xs")
  case True
  then obtain u v where x: "xs = u @ 10 # v" "10 \<notin> set u" by (metis split_list_first)
  then have "takeWhile (\<lambda>c. c \<noteq> 10) xs = u" by (auto simp: takeWhile_append)
  then have "first_line xs = u @ [10]" using x(1) by (simp add: first_line_def)
  with x show ?thesis by simp
next
  case False
  then have "first_line xs = xs" by (simp add: first_line_def no_newline)
  with False show ?thesis by (auto dest: in_set_butlastD)
qed

text \<open>\<open>l\<close> is what is left of a line, and \<open>r\<close> what follows it.\<close>

definition line_end :: "byte list \<Rightarrow> byte list \<Rightarrow> bool" where
  "line_end l r \<longleftrightarrow> 10 \<notin> set (butlast l) \<and> (last (0 # l) \<noteq> 10 \<longrightarrow> r = [])"

lemma next_piece_line:
  assumes "line_end l r"
  shows "next_piece n (l @ r) = take (n - 1) l"
proof (cases "last (0 # l) = 10")
  case True
  then obtain u where l: "l = u @ [10]" by (cases l rule: rev_cases) auto
  with assms have u: "10 \<notin> set u" by (simp add: line_end_def)
  show ?thesis
  proof (cases "n - 1 \<le> length u")
    case True
    then have t: "take (n - 1) (l @ r) = take (n - 1) u" by (simp add: l)
    have "10 \<notin> set (take (n - 1) u)" using u in_set_takeD by fast
    then show ?thesis using True unfolding next_piece_def t by (simp add: l no_newline)
  next
    case False
    then have t: "take (n - 1) (l @ r) = u @ 10 # take (n - 1 - length l) r" by (simp add: l take_Cons')
    have "takeWhile (\<lambda>c. c \<noteq> 10) (u @ 10 # take (n - 1 - length l) r) = u" using u by (auto simp: takeWhile_append)
    then show ?thesis using False unfolding next_piece_def t by (simp add: l)
  qed
next
  case False
  then have "10 \<notin> set l" "r = []" using assms by (cases l rule: rev_cases; auto simp: line_end_def)+
  then have "10 \<notin> set (take (n - 1) l)" using in_set_takeD by fast
  then show ?thesis using \<open>r = []\<close> by (simp add: next_piece_def no_newline Let_def)
qed

lemma line_end_drop: "line_end l r \<Longrightarrow> k < length l \<or> r = [] \<Longrightarrow> line_end (drop k l) r"
proof -
  assume l: "line_end l r" and k: "k < length l \<or> r = []"
  have "set (butlast (drop k l)) \<subseteq> set (butlast l)" by (simp add: butlast_drop set_drop_subset)
  with l k show ?thesis by (auto simp: line_end_def)
qed

text \<open>Reading a piece of a line.\<close>

lemma fgets_line:
  assumes "line_end l r" and "2 \<le> n" and "l \<noteq> []" and "p + nat n \<le> length buf"
  shows "fgets buf p n \<lparr>unread = l @ r, at_end = False\<rparr>
    = Ret (True, overlay buf p (take (nat n - 1) l @ [0]),
        \<lparr>unread = drop (nat n - 1) l @ r, at_end = (length l < nat n - 1 \<and> last l \<noteq> 10)\<rparr>)"
proof -
  have piece: "next_piece (nat n) (l @ r) = take (nat n - 1) l" by (rule next_piece_line [OF assms(1)])
  have "take (nat n - 1) l \<noteq> []" using assms(2,3) by (cases l) (auto simp: take_Cons')
  moreover have "drop (length (take (nat n - 1) l)) (l @ r) = drop (nat n - 1) l @ r" by (simp add: min_def)
  moreover have "last (0 # take (nat n - 1) l) \<noteq> 10 \<and> length (take (nat n - 1) l) < nat n - 1 \<longleftrightarrow> length l < nat n - 1 \<and> last l \<noteq> 10"
    using assms(3) by auto
  moreover have "p + length (take (nat n - 1) l @ [0]) \<le> length buf" using assms(2,4) by simp
  ultimately show ?thesis using assms(2) by (simp add: fgets_def piece mem_simps del: length_append length_take last.simps)
qed

lemma fgets_end: "2 \<le> n \<Longrightarrow> fgets buf p n \<lparr>unread = [], at_end = False\<rparr> = Ret (False, buf, \<lparr>unread = [], at_end = True\<rparr>)"
  by (simp add: fgets_def next_piece_def)

text \<open>
  \<open>k\<close> bytes of the line \<open>l\<close> have been read into the buffer, as many as fit, or all with a null in the last place but one.
\<close>

definition piece_read :: "byte list \<Rightarrow> byte list \<Rightarrow> byte list \<Rightarrow> nat \<Rightarrow> la_file \<Rightarrow> bool" where
  "piece_read l r line line_len file \<longleftrightarrow>
     (\<exists>junk. line = take (line_len - 1) l @ 0 # junk) \<and> line_len \<le> length line
     \<and> (length l < line_len - 1 \<longrightarrow> line ! (line_len - 2) = 0)
     \<and> file = \<lparr>unread = drop (line_len - 1) l @ r, at_end = (length l < line_len - 1 \<and> last l \<noteq> 10)\<rparr>"

lemma update_behind: "length u + 1 \<le> i \<Longrightarrow> (u @ a # x)[i := b] = u @ a # x[i - (length u + 1) := b]"
  using diff_Suc [of i "length u"] by (cases "i - length u") (auto simp: list_update_append)

lemma nth_behind: "length u + 1 \<le> i \<Longrightarrow> (u @ a # x) ! i = x ! (i - (length u + 1))"
  using diff_Suc [of i "length u"] by (cases "i - length u") (auto simp: nth_append)

lemma grow_result:
  assumes "line_end l r" and "l \<noteq> []" and "0 \<notin> set l" and "length l < 2 ^ 29" and "met env = (\<lambda>_. True)"
    and "piece_read l r line line_len file" and "4 \<le> line_len" and "line_len \<le> 2 ^ 30"
  shows "\<exists>line' line_len' junk. grow env line line_len file s
      = Some (Ret (Some line', line_len', \<lparr>unread = r, at_end = (last l \<noteq> 10)\<rparr>, s))
    \<and> line' = l @ 0 # junk \<and> 4 \<le> line_len' \<and> line_len' \<le> 2 ^ 30 \<and> line_len' \<le> length line'"
  using assms(6-8)
proof (induction "length l + 1 - line_len" arbitrary: line line_len "file" rule: less_induct)
  case less
  obtain junk where line: "line = take (line_len - 1) l @ 0 # junk" and len: "line_len \<le> length line"
    and short: "length l < line_len - 1 \<Longrightarrow> line ! (line_len - 2) = 0"
    and fl: "file = \<lparr>unread = drop (line_len - 1) l @ r, at_end = (length l < line_len - 1 \<and> last l \<noteq> 10)\<rparr>"
    using less.prems(1) unfolding piece_read_def by blast
  have sd: "size_diff line_len 2 = line_len - 2" "size_diff line_len 1 = line_len - 1"
    using less.prems(2,3) by (simp_all add: size_simps size_mod_def)
  have peek: "peek line (line_len - 2) = Ret (line ! (line_len - 2))" using len less.prems(2) by (simp add: mem_simps)
  show ?case
  proof (cases "length l < line_len - 1")
    case True
    then have "line = l @ 0 # junk" "file = \<lparr>unread = r, at_end = (last l \<noteq> 10)\<rparr>"
      using line fl assms(1) by (auto simp: line_end_def)
    moreover have "grow env line line_len file s = Some (Ret (Some line, line_len, file, s))"
      using short [OF True] by (subst grow.simps) (simp add: sd peek)
    ultimately show ?thesis using less.prems(2,3) len by auto
  next
    case False
    then have at: "line ! (line_len - 2) = l ! (line_len - 2)" and inl: "line_len - 2 < length l"
      using less.prems(2) line by (auto simp: nth_append)
    then have c0: "line ! (line_len - 2) \<noteq> 0" using assms(3) by (metis nth_mem)
    show ?thesis
    proof (cases "l ! (line_len - 2) = 10")
      case True
      have "length l = line_len - 1"
      proof (rule ccontr)
        assume "length l \<noteq> line_len - 1"
        then have "line_len - 2 < length (butlast l)" using False less.prems(2) by simp
        then have "butlast l ! (line_len - 2) \<in> set (butlast l)" by (rule nth_mem)
        then show False using assms(1) True \<open>line_len - 2 < length (butlast l)\<close> by (simp add: line_end_def nth_butlast)
      qed
      moreover from this have "last l = 10" using True assms(2) by (simp add: last_conv_nth numeral_2_eq_2)
      ultimately have "line = l @ 0 # junk" "file = \<lparr>unread = r, at_end = (last l \<noteq> 10)\<rparr>"
        using line fl by simp_all
      moreover have "grow env line line_len file s = Some (Ret (Some line, line_len, file, s))"
        using True at by (subst grow.simps) (simp add: sd peek)
      ultimately show ?thesis using less.prems(2,3) len by auto
    next
      case more: False
      have notend: "at_end file = False" using False fl by simp
      define n where "n = line_len * 2"
      have n: "line_len * 2 mod size_mod = n" "size_diff n 2 = n - 2" "n < 2 ^ 32" "to_int line_len = int line_len"
        using less.prems(2,3) by (auto simp: n_def size_simps size_mod_def to_int_small)
      let ?u = "take (line_len - 1) l" and ?l2 = "drop (line_len - 1) l"
      have u: "length ?u = line_len - 1" using False by simp
      define more_room where "more_room = take (n - line_len) junk @ map (fresh_bytes env) [length line..<n]"
      define rest where "rest = more_room[n - 2 - line_len := 0]"
      have sized: "resized (fresh_bytes env) (Some line) n = ?u @ 0 # more_room"
        using u less.prems(2) unfolding resized_def more_room_def by (simp add: line n_def Suc_diff_le take_Cons')
      have room: "length more_room = n - line_len"
        using u less.prems(2) len line by (simp add: more_room_def n_def min_def)
      have "n - 2 < length (?u @ 0 # more_room)" using u room less.prems(2) by (simp add: n_def)
      then have grown: "poke (resized (fresh_bytes env) (Some line) n) (n - 2) 0 = Ret (?u @ 0 # rest)"
        using u less.prems(2) update_behind [of ?u "n - 2" 0 more_room 0] unfolding sized rest_def by (simp add: mem_simps n_def)
      have rest: "length rest = n - line_len" using room by (simp add: rest_def)
      have step: "grow env line line_len file s =
          rbind (Some (fgets (?u @ 0 # rest) (line_len - 1) (int line_len + 1) file)) (\<lambda>(got, line, file).
           if \<not> got then Some (Ret (Some line, line_len, file, s)) else grow env line n file s)"
        using c0 more at notend grown
        by (subst grow.simps, unfold n(1) sd) (simp add: peek n lt__realloc_def assms(5) del: One_nat_def)
      have two: "2 \<le> int line_len + 1" "nat (int line_len + 1) = line_len + 1" using less.prems(2) by auto
      show ?thesis
      proof (cases "?l2 = []")
        case True
        then have l: "length l = line_len - 1" "?u = l" using False by auto
        then have "last l \<noteq> 10" using more assms(2) by (simp add: last_conv_nth numeral_2_eq_2)
        then have "r = []" using assms(1,2) by (simp add: line_end_def)
        then have "file = \<lparr>unread = [], at_end = False\<rparr>" using fl l by simp
        then have "grow env line line_len file s
            = Some (Ret (Some (l @ 0 # rest), line_len, \<lparr>unread = r, at_end = (last l \<noteq> 10)\<rparr>, s))"
          using step fgets_end [OF two(1), of "l @ 0 # rest" "line_len - 1"] \<open>last l \<noteq> 10\<close> \<open>r = []\<close> l by simp
        moreover have "line_len \<le> length (l @ 0 # rest)" using l less.prems(2) by simp
        ultimately show ?thesis using less.prems(2,3) by blast
      next
        case todo: False
        have l2: "line_end ?l2 r" "line_len - 1 < length l" using line_end_drop [OF assms(1)] todo by auto
        let ?t = "take line_len ?l2 @ [0]"
        let ?line = "overlay (?u @ 0 # rest) (line_len - 1) ?t"
        have room: "line_len - 1 + nat (int line_len + 1) \<le> length (?u @ 0 # rest)"
          using u rest less.prems(2) unfolding two(2) by (simp add: n_def)
        have "file = \<lparr>unread = ?l2 @ r, at_end = False\<rparr>" using fl l2(2) by simp
        with fgets_line [OF l2(1) two(1) todo room]
        have got: "fgets (?u @ 0 # rest) (line_len - 1) (int line_len + 1) file
            = Ret (True, ?line, \<lparr>unread = drop line_len ?l2 @ r, at_end = (length ?l2 < line_len \<and> last ?l2 \<noteq> 10)\<rparr>)"
          unfolding two(2) by simp
        have fits: "line_len - 1 + length ?t \<le> length (?u @ 0 # rest)" using u rest less.prems(2) by (simp add: n_def)
        have whole: "?u @ take line_len ?l2 = take (n - 1) l"
        proof -
          have "n - 1 = (line_len - 1) + line_len" using less.prems(2) by (simp add: n_def)
          then show ?thesis by (simp only: take_add)
        qed
        have "piece_read l r ?line n \<lparr>unread = drop line_len ?l2 @ r, at_end = (length ?l2 < line_len \<and> last ?l2 \<noteq> 10)\<rparr>"
          unfolding piece_read_def
        proof (intro conjI impI)
          have "?line = take (n - 1) l @ 0 # drop (line_len - 1 + length ?t) (?u @ 0 # rest)"
            using u by (simp add: overlay_def whole [symmetric] del: One_nat_def)
          then show "\<exists>junk. ?line = take (n - 1) l @ 0 # junk" by blast
          show "n \<le> length ?line" using fits u rest less.prems(2) by (simp add: n_def)
          show "?line ! (n - 2) = 0" if "length l < n - 1"
          proof (cases "n - 2 < line_len - 1 + length ?t")
            case True
            then have i: "n - 2 - (line_len - 1) = length (take line_len ?l2)" using that l2(2) less.prems(2) by (simp add: n_def)
            have "\<not> n - 2 < line_len - 1" using less.prems(2) by (simp add: n_def)
            then have "?line ! (n - 2) = ?t ! (n - 2 - (line_len - 1))" using True by (simp only: nth_overlay [OF fits] if_True if_False)
            then show ?thesis by (simp only: i nth_append_length)
          next
            case False
            have "rest ! (n - 2 - line_len) = 0" using room less.prems(2) unfolding rest_def by (simp add: n_def)
            moreover have "\<not> n - 2 < line_len - 1" "length ?u + 1 \<le> n - 2" "length ?u + 1 = line_len"
              using u less.prems(2) by (simp_all add: n_def)
            ultimately show ?thesis using False nth_behind [of ?u "n - 2" 0 rest] by (simp only: nth_overlay [OF fits] if_True if_False)
          qed
          have "drop line_len ?l2 = drop (n - 1) l" using less.prems(2) by (simp add: n_def mult_2_right)
          moreover have "(length ?l2 < line_len) = (length l < n - 1)" using less.prems(2) l2(2) by (auto simp: n_def)
          moreover have "last ?l2 = last l" using l2(2) by (simp add: last_drop)
          ultimately show "\<lparr>unread = drop line_len ?l2 @ r, at_end = (length ?l2 < line_len \<and> last ?l2 \<noteq> 10)\<rparr>
              = \<lparr>unread = drop (n - 1) l @ r, at_end = (length l < n - 1 \<and> last l \<noteq> 10)\<rparr>" by simp
        qed
        moreover have "length l + 1 - n < length l + 1 - line_len" using l2(2) less.prems(2) by (simp add: n_def)
        moreover have "4 \<le> n" "n \<le> 2 ^ 30" using l2(2) assms(4) less.prems(2) by (simp_all add: n_def)
        ultimately show ?thesis using less.hyps step got by simp
      qed
    qed
  qed
qed

text \<open>The first piece of a line.\<close>

lemma first_piece:
  assumes "line_end l r" and "l \<noteq> []" and "4 \<le> line_len" and "line_len \<le> 2 ^ 30" and "line_len \<le> length line"
  shows "\<exists>line' file. fgets (line[line_len - 2 := 0]) 0 (int line_len) \<lparr>unread = l @ r, at_end = False\<rparr> = Ret (True, line', file)
    \<and> piece_read l r line' line_len file"
proof -
  let ?m = "line[line_len - 2 := 0]" and ?t = "take (line_len - 1) l @ [0]"
  have fits: "0 + length ?t \<le> length ?m" using assms(3,5) by simp
  have "fgets ?m 0 (int line_len) \<lparr>unread = l @ r, at_end = False\<rparr>
      = Ret (True, overlay ?m 0 ?t, \<lparr>unread = drop (line_len - 1) l @ r, at_end = (length l < line_len - 1 \<and> last l \<noteq> 10)\<rparr>)"
    using fgets_line [OF assms(1) _ assms(2), of "int line_len" 0 ?m] assms(3,5) by simp
  moreover have "piece_read l r (overlay ?m 0 ?t) line_len
      \<lparr>unread = drop (line_len - 1) l @ r, at_end = (length l < line_len - 1 \<and> last l \<noteq> 10)\<rparr>"
    unfolding piece_read_def
  proof (intro conjI impI)
    show "\<exists>junk. overlay ?m 0 ?t = take (line_len - 1) l @ 0 # junk" by (simp add: overlay_def)
    show "line_len \<le> length (overlay ?m 0 ?t)" using length_overlay [OF fits] assms(5) by simp
    show "overlay ?m 0 ?t ! (line_len - 2) = 0" if "length l < line_len - 1"
    proof (cases "line_len - 2 < 0 + length ?t")
      case True
      then have i: "line_len - 2 - 0 = length (take (line_len - 1) l)" using that assms(3) by simp
      have "overlay ?m 0 ?t ! (line_len - 2) = ?t ! (line_len - 2 - 0)"
        using True by (simp only: nth_overlay [OF fits] if_True) simp
      then show ?thesis by (simp only: i nth_append_length)
    next
      case False
      then have "overlay ?m 0 ?t ! (line_len - 2) = ?m ! (line_len - 2)" by (simp only: nth_overlay [OF fits] if_False) simp
      then show ?thesis using assms(3,5) by simp
    qed
  qed simp
  ultimately show ?thesis by blast
qed

lemma parse_loop_result:
  fixes s :: "'a ltdl_scheme"
  assumes "met env = (\<lambda>_. True)" and "0 \<notin> set xs" and "length xs < 2 ^ 29" and "ended \<Longrightarrow> xs = []"
    and "4 \<le> line_len" and "line_len \<le> 2 ^ 30" and "line_len \<le> length line"
  shows "parse_loop env line line_len \<lparr>unread = xs, at_end = ended\<rparr> a s = Some (la_lines env (file_lines xs) a s)"
  using assms(2-)
proof (induction "length xs" arbitrary: xs ended line line_len a s rule: less_induct)
  case less
  have n: "size_diff line_len 2 = line_len - 2" "to_int line_len = int line_len"
    using less.prems(4,5) by (simp_all add: size_simps size_mod_def to_int_small)
  have cleared: "poke line (line_len - 2) 0 = Ret (line[line_len - 2 := 0])" using less.prems(4,6) by (simp add: mem_simps)
  show ?case
  proof (cases "xs = []")
    case True
    have "fgets (line[line_len - 2 := 0]) 0 (int line_len) \<lparr>unread = [], at_end = False\<rparr>
        = Ret (False, line[line_len - 2 := 0], \<lparr>unread = [], at_end = True\<rparr>)"
      using less.prems(4) by (intro fgets_end) simp
    with True show ?thesis by (subst parse_loop.simps) (simp add: n cleared)
  next
    case False
    then have open_file: "ended = False" using less.prems(3) by blast
    define l where "l = first_line xs"
    obtain r where xs: "xs = l @ r" "line_end l r"
      using first_line_split [of xs] unfolding l_def line_end_def by blast
    have l: "l \<noteq> []" "0 \<notin> set l" "length l < 2 ^ 29" "0 \<notin> set r" "length r < 2 ^ 29" "length r < length xs"
      using first_line_not_Nil [OF False] less.prems(1,2) unfolding l_def [symmetric] by (auto simp: xs(1))
    obtain line1 file1 where first: "fgets (line[line_len - 2 := 0]) 0 (int line_len) \<lparr>unread = l @ r, at_end = False\<rparr> = Ret (True, line1, file1)"
      "piece_read l r line1 line_len file1" using first_piece [OF xs(2) l(1) less.prems(4-6)] by blast
    obtain line2 len2 junk where g: "grow env line1 line_len file1 s = Some (Ret (Some line2, len2, \<lparr>unread = r, at_end = (last l \<noteq> 10)\<rparr>, s))"
      "line2 = l @ 0 # junk" "4 \<le> len2" "len2 \<le> 2 ^ 30" "len2 \<le> length line2"
      using grow_result [OF xs(2) l(1-3) assms(1) first(2) less.prems(4,5), of s] by blast
    have ends: "last l \<noteq> 10 \<Longrightarrow> r = []" using xs(2) l(1) by (simp add: line_end_def)
    have rest: "parse_loop env line2 len2 \<lparr>unread = r, at_end = (last l \<noteq> 10)\<rparr> a s = Some (la_lines env (file_lines r) a s)" for a and s :: "'a ltdl_scheme"
      by (rule less.hyps [OF l(6,4,5) _ g(3-5)]) (rule ends)
    have line2: "peek line2 0 = Ret (hd l)" "c_strlen line2 = Ret (length l)" "take (length l) line2 = l"
      using l(1,2) first_char [OF l(1,2)] by (simp_all add: g(2))
    have lines: "file_lines xs = l # file_lines r"
    proof -
      obtain c ys where "xs = c # ys" using False by (cases xs) auto
      then have "file_lines xs = first_line xs # file_lines (drop (length (first_line xs)) xs)" by simp
      then show ?thesis unfolding l_def [symmetric] by (simp add: xs(1))
    qed
    have "parse_loop env line line_len \<lparr>unread = xs, at_end = ended\<rparr> a s =
        (if hd l = 10 \<or> hd l = 35 then parse_loop env line2 len2 \<lparr>unread = r, at_end = (last l \<noteq> 10)\<rparr> a s
         else rbind (Some (la_line env l a s)) (\<lambda>(e, a, s).
           if e \<noteq> 0 then Some (Ret (e, a, s)) else parse_loop env line2 len2 \<lparr>unread = r, at_end = (last l \<noteq> 10)\<rparr> a s))"
      using first(1) by (subst parse_loop.simps) (simp add: n cleared open_file xs(1) g(1) line2)
    also have "\<dots> = Some (la_lines env (file_lines xs) a s)"
      unfolding lines rest by (cases "la_line env l a s") (auto split: prod.splits)
    finally show ?thesis .
  qed
qed

section \<open>The claim\<close>

text \<open>A last line without its newline, whose value is one quoted character, has no value: \<open>trim\<close> counts the newline.\<close>

lemma short_last_value:
  "trim env [39, c, 39] s = Ret (0, None, s)"
  by (simp add: trim_def strrchr_at_def)

lemma short_value:
  assumes "met env = (\<lambda>_. True)" and "c \<noteq> 39"
  shows "\<exists>s'. trim env [39, c, 39, 10] s = Ret (0, Some [c], s')"
  using assms by (simp add: trim_def strrchr_at_def lt__malloc_def)

text \<open>
  C21: with memory granted, reading an archive without null characters makes of it exactly what its lines,
  cut at the newlines, make of the values one after the other; so a line that is longer than the buffer of
  1024 characters is read whole, whatever its length, no access leaves the buffer as it is doubled, and the
  reading ends.
\<close>

theorem archive_read_by_lines:
  assumes "met env = (\<lambda>_. True)" and "0 \<notin> set xs" and "length xs < 2 ^ 29"
  shows "parse_dotla_file env \<lparr>unread = xs, at_end = False\<rparr> a s = Some (la_lines env (file_lines xs) a s)"
proof -
  obtain line where line: "lt__malloc (met env) (fresh_bytes env) LT_FILENAME_MAX s = Ret (Some line, s)" "length line = LT_FILENAME_MAX"
    using assms(1) by (auto simp: lt__malloc_def)
  show ?thesis
    unfolding parse_dotla_file_def line(1) using line(2) assms
    by (simp add: parse_loop_result LT_FILENAME_MAX_def)
qed

definition given :: surroundings where
  "given = \<lparr>met = (\<lambda>_. True), fresh_bytes = (\<lambda>_. 170), new_place = (\<lambda>ps. 1)\<rparr>"

definition sample_archive :: "byte list" where
  "sample_archive = chars ''# x'' @ 10 # chars ''dlname='' @ [39] @ chars ''m.so'' @ [39, 10] @ chars ''installed=yes'' @ [10]"

theorem archive_read_by_lines_witness:
  "met given = (\<lambda>_. True) \<and> 0 \<notin> set sample_archive \<and> length sample_archive < 2 ^ 29
   \<and> parse_dotla_file given \<lparr>unread = sample_archive, at_end = False\<rparr> \<lparr>dlname = None, libdir = None, dependency_libs = None, old_name = None, installed = False\<rparr> fresh_ltdl
     = Some (Ret (0, \<lparr>dlname = Some (chars ''m.so''), libdir = None, dependency_libs = None, old_name = None, installed = True\<rparr>, fresh_ltdl))"
proof -
  have h: "met given = (\<lambda>_. True)" "0 \<notin> set sample_archive" "length sample_archive < 2 ^ 29"
    by (simp_all add: given_def sample_archive_def chars_def)
  have "la_lines given (file_lines sample_archive) \<lparr>dlname = None, libdir = None, dependency_libs = None, old_name = None, installed = False\<rparr> fresh_ltdl
     = Ret (0, \<lparr>dlname = Some (chars ''m.so''), libdir = None, dependency_libs = None, old_name = None, installed = True\<rparr>, fresh_ltdl)"
    by (simp add: given_def sample_archive_def chars_def first_line_def la_line_def starts_with_def trim_def strrchr_at_def)
  with archive_read_by_lines [OF h, of _ fresh_ltdl] h show ?thesis by simp
qed

end
