(* ===== verification/Getopt_Long.thy ===== *)
theory Getopt_Long
  imports Console
begin

text \<open>
  The parser for the arguments of a program from \<^verbatim>\<open>src/lib/getopt_long.c\<close>. An argument is the bytes in
  front of its null; a pointer into the arguments is the index of one and an offset in it. The
  variables of the C library it works on (\<^verbatim>\<open>optind\<close>, \<^verbatim>\<open>optarg\<close>, \<^verbatim>\<open>optopt\<close>, \<^verbatim>\<open>opterr\<close>) and its own static
  \<^verbatim>\<open>place\<close> are a record.
\<close>

section \<open>State\<close>

type_synonym arg_ptr = "nat \<times> nat"

text \<open>\<open>place\<close> is \<open>None\<close> when it points to \<^verbatim>\<open>EMSG\<close>, the empty string.\<close>

record getopt_state =
  optind :: nat
  optarg :: "arg_ptr option"
  optopt :: int
  opterr :: int
  place :: "arg_ptr option"

record long_option =
  opt_name :: "byte list"
  has_arg :: int
  opt_flag :: "nat option"
  opt_val :: int

text \<open>
  What a call returns: its value, the variables, the index stored for a long option, the flag that is
  set with its value, and what is printed on \<^verbatim>\<open>stderr\<close>.
\<close>

record getopt_result =
  ret :: int
  after :: getopt_state
  longindex :: "nat option"
  flag_set :: "(nat \<times> int) option"
  printed :: console

definition BADCH :: int where "BADCH = 63"

definition BADARG :: int where "BADARG = 58"

section \<open>The parser\<close>

definition char_at :: "byte list list \<Rightarrow> arg_ptr \<Rightarrow> byte outcome" where
  "char_at argv p =
     (case p of (i, k) \<Rightarrow> obind (peek argv i) (\<lambda>arg. peek (arg @ [0]) k))"

definition first_char :: "byte list \<Rightarrow> byte" where
  "first_char s = (case s of [] \<Rightarrow> 0 | c # _ \<Rightarrow> c)"

definition answer_only :: "int \<Rightarrow> getopt_state \<Rightarrow> getopt_result" where
  "answer_only r st = \<lparr>ret = r, after = st, longindex = None, flag_set = None, printed = []\<rparr>"

definition complaint :: "byte list list \<Rightarrow> string \<Rightarrow> byte list \<Rightarrow> console" where
  "complaint argv msg what = [(Stderr, concat (take 1 argv) @ text_bytes msg @ what @ [10])]"

text \<open>The loop over the long options.\<close>

fun find_long :: "byte list \<Rightarrow> long_option list \<Rightarrow> nat \<Rightarrow> (nat \<times> long_option) option" where
  "find_long nm [] i = None"
| "find_long nm (opt # longopts) i = (if opt_name opt = nm then Some (i, opt) else find_long nm longopts (i + 1))"

text \<open>A long option; its name begins behind the two hyphens of the argument at \<open>optind\<close>.\<close>

definition long_step ::
  "byte list list \<Rightarrow> byte list \<Rightarrow> long_option list \<Rightarrow> getopt_state \<Rightarrow> getopt_result outcome" where
  "long_step argv optstring longopts st =
     obind (peek argv (optind st)) (\<lambda>arg.
     let start = drop 2 arg;
         namelen = length (takeWhile (\<lambda>c. c \<noteq> 61) start)
     in case find_long (take namelen start) longopts 0 of
          None \<Rightarrow>
            Ret \<lparr>ret = BADCH, after = st\<lparr>place := None, optind := optind st + 1\<rparr>, longindex = None, flag_set = None,
                 printed = (if opterr st \<noteq> 0 \<and> first_char optstring \<noteq> 58
                            then complaint argv '': illegal option -- '' start else [])\<rparr>
        | Some (i, opt) \<Rightarrow>
            let found = (\<lambda>st. \<lparr>ret = (if opt_flag opt = None then opt_val opt else 0),
                   after = st\<lparr>optind := optind st + 1, place := None\<rparr>, longindex = Some i,
                   flag_set = map_option (\<lambda>flag. (flag, opt_val opt)) (opt_flag opt), printed = []\<rparr>)
            in if has_arg opt \<noteq> 0 then
                 if namelen < length start then Ret (found (st\<lparr>optarg := Some (optind st, 2 + namelen + 1)\<rparr>))
                 else if optind st + 1 < length argv then
                   Ret (found (st\<lparr>optind := optind st + 1, optarg := Some (optind st + 1, 0)\<rparr>))
                 else if first_char optstring = 58 then
                   Ret (answer_only BADARG (st\<lparr>place := Some (optind st, 2)\<rparr>))
                 else
                   Ret \<lparr>ret = BADCH, after = st\<lparr>place := None, optind := optind st + 1\<rparr>, longindex = None,
                        flag_set = None,
                        printed = (if opterr st \<noteq> 0 then complaint argv '': option requires an argument -- '' start else [])\<rparr>
               else Ret (found (st\<lparr>optarg := None\<rparr>)))"

text \<open>
  A short option at \<open>place\<close>. \<^verbatim>\<open>strchr\<close> also finds the null at the end of the option letters.
\<close>

definition short_step :: "byte list list \<Rightarrow> byte list \<Rightarrow> getopt_state \<Rightarrow> getopt_result outcome" where
  "short_step argv optstring st =
     (case place st of
        None \<Rightarrow> Crash
      | Some (i, k) \<Rightarrow>
          obind (char_at argv (i, k)) (\<lambda>c.
          let st = st\<lparr>optopt := sint c, place := Some (i, k + 1)\<rparr>;
              oli = length (takeWhile (\<lambda>x. x \<noteq> c) (optstring @ [0]))
          in if oli = length (optstring @ [0]) then
               obind (char_at argv (i, k + 1)) (\<lambda>next_char.
               Ret \<lparr>ret = BADCH, after = (if next_char = 0 then st\<lparr>optind := optind st + 1\<rparr> else st),
                    longindex = None, flag_set = None,
                    printed = (if opterr st \<noteq> 0 \<and> first_char optstring \<noteq> 58
                               then complaint argv '': illegal option -- '' [c] else [])\<rparr>)
             else
               obind (peek (optstring @ [0]) (oli + 1)) (\<lambda>kind.
               obind (char_at argv (i, k + 1)) (\<lambda>next_char.
               if kind \<noteq> 58 then
                 let st = st\<lparr>optarg := None\<rparr>
                 in Ret (answer_only (optopt st) (if next_char = 0 then st\<lparr>optind := optind st + 1\<rparr> else st))
               else if next_char \<noteq> 0 then
                 Ret (answer_only (optopt st)
                   (st\<lparr>optarg := Some (i, k + 1), place := None, optind := optind st + 1\<rparr>))
               else
                 let st = st\<lparr>optind := optind st + 1\<rparr>
                 in if length argv \<le> optind st then
                      let st = st\<lparr>place := None\<rparr>
                      in if first_char optstring = 58 then Ret (answer_only BADARG st)
                         else Ret \<lparr>ret = BADCH, after = st, longindex = None, flag_set = None,
                                   printed = (if opterr st \<noteq> 0
                                              then complaint argv '': option requires an argument -- '' [c] else [])\<rparr>
                    else
                      Ret (answer_only (optopt st)
                        (st\<lparr>optarg := Some (optind st, 0), place := None, optind := optind st + 1\<rparr>))))))"

definition getopt_long ::
  "byte list list \<Rightarrow> byte list \<Rightarrow> long_option list \<Rightarrow> getopt_state \<Rightarrow> getopt_result outcome" where
  "getopt_long argv optstring longopts st =
     obind (case place st of None \<Rightarrow> Ret 0 | Some p \<Rightarrow> char_at argv p) (\<lambda>c.
     if c = 0 then
       if optind st \<ge> length argv then Ret (answer_only (- 1) (st\<lparr>place := None\<rparr>))
       else
         obind (char_at argv (optind st, 0)) (\<lambda>hyphen.
         if hyphen \<noteq> 45 then Ret (answer_only (- 1) (st\<lparr>place := None\<rparr>))
         else
           obind (char_at argv (optind st, 1)) (\<lambda>hyphen.
           if hyphen = 45 then
             obind (char_at argv (optind st, 2)) (\<lambda>c.
             if c = 0 then Ret (answer_only (- 1) (st\<lparr>optind := optind st + 1, place := None\<rparr>))
             else long_step argv optstring longopts st)
           else short_step argv optstring (st\<lparr>place := Some (optind st, 1)\<rparr>)))
     else short_step argv optstring st)"

section \<open>The reference\<close>

text \<open>What a letter is to the option letters: nothing, or an option with or without an argument.\<close>

definition short_kind :: "byte list \<Rightarrow> byte \<Rightarrow> bool option" where
  "short_kind optstring c =
     (let j = length (takeWhile (\<lambda>x. x \<noteq> c) optstring)
      in if j = length optstring then None else Some (j + 1 < length optstring \<and> optstring ! (j + 1) = 58))"

text \<open>An answer of the parser: its value and the argument of the option.\<close>

type_synonym event = "int \<times> byte list option"

fun parse_shorts :: "byte list \<Rightarrow> byte list \<Rightarrow> byte list list \<Rightarrow> event list \<times> byte list list" where
  "parse_shorts optstring [] args = ([], args)"
| "parse_shorts optstring (c # cs) args =
     (case short_kind optstring c of
        None \<Rightarrow> let (es, r) = parse_shorts optstring cs args in ((BADCH, None) # es, r)
      | Some False \<Rightarrow> let (es, r) = parse_shorts optstring cs args in ((sint c, None) # es, r)
      | Some True \<Rightarrow>
          if cs \<noteq> [] then ([(sint c, Some cs)], args)
          else case args of [] \<Rightarrow> ([(BADCH, None)], []) | a # args \<Rightarrow> ([(sint c, Some a)], args))"

definition parse_long :: "long_option list \<Rightarrow> byte list \<Rightarrow> byte list list \<Rightarrow> event \<times> byte list list" where
  "parse_long longopts start args =
     (let nm = takeWhile (\<lambda>c. c \<noteq> 61) start
      in case find_long nm longopts 0 of
           None \<Rightarrow> ((BADCH, None), args)
         | Some (_, opt) \<Rightarrow>
             let v = (if opt_flag opt = None then opt_val opt else 0)
             in if has_arg opt \<noteq> 0 then
                  if nm \<noteq> start then ((v, Some (drop (length nm + 1) start)), args)
                  else case args of [] \<Rightarrow> ((BADCH, None), []) | a # args \<Rightarrow> ((v, Some a), args)
                else ((v, None), args))"

lemma parse_shorts_length: "length (snd (parse_shorts optstring cs args)) \<le> length args"
  by (induction optstring cs args rule: parse_shorts.induct)
    (auto simp: case_prod_beta Let_def split: option.splits bool.splits list.splits)

lemma parse_long_length: "length (snd (parse_long longopts start args)) \<le> length args"
  by (auto simp: parse_long_def Let_def split: option.splits list.splits)

function parse_args :: "byte list \<Rightarrow> long_option list \<Rightarrow> byte list list \<Rightarrow> event list" where
  "parse_args optstring longopts [] = []"
| "parse_args optstring longopts (a # args) =
     (if take 1 a \<noteq> [45] \<or> a = [45, 45] then []
      else if take 2 a = [45, 45] then
        fst (parse_long longopts (drop 2 a) args)
          # parse_args optstring longopts (snd (parse_long longopts (drop 2 a) args))
      else
        fst (parse_shorts optstring (tl a) args)
          @ parse_args optstring longopts (snd (parse_shorts optstring (tl a) args)))"
  by pat_completeness auto
termination
  by (relation "measure (\<lambda>(optstring, longopts, args). length args)")
    (auto simp: less_Suc_eq_le parse_shorts_length parse_long_length)

text \<open>The calls up to the one that answers -1; the argument is the text behind \<open>optarg\<close>.\<close>

definition event_of :: "byte list list \<Rightarrow> getopt_result \<Rightarrow> event" where
  "event_of argv r =
     (ret r, if ret r = BADCH then None else map_option (\<lambda>(i, k). drop k (argv ! i)) (optarg (after r)))"

partial_function (option) getopt_all ::
  "byte list list \<Rightarrow> byte list \<Rightarrow> long_option list \<Rightarrow> getopt_state \<Rightarrow> event list outcome option" where
  "getopt_all argv optstring longopts st =
     rbind (Some (getopt_long argv optstring longopts st)) (\<lambda>r.
     if ret r = - 1 then Some (Ret [])
     else rbind (getopt_all argv optstring longopts (after r)) (\<lambda>es. Some (Ret (event_of argv r # es))))"

section \<open>One call\<close>

text \<open>
  What the equivalence asks for: arguments without a null and not a lone hyphen; letters that are none
  of the answers of the parser, of which the first is not a colon; and values of long options likewise.
\<close>

definition args_ok :: "byte list list \<Rightarrow> byte list \<Rightarrow> long_option list \<Rightarrow> bool" where
  "args_ok argv optstring longopts \<longleftrightarrow>
     (\<forall>a\<in>set argv. 0 \<notin> set a \<and> a \<noteq> [45]) \<and> 0 \<notin> set optstring \<and> 63 \<notin> set optstring \<and> 255 \<notin> set optstring
     \<and> first_char optstring \<noteq> 58 \<and> (\<forall>opt\<in>set longopts. opt_val opt \<noteq> - 1 \<and> opt_val opt \<noteq> BADCH)"

lemma char_at_in:
  "i < length argv \<Longrightarrow> k \<le> length (argv ! i) \<Longrightarrow>
    char_at argv (i, k) = Ret (if k < length (argv ! i) then argv ! i ! k else 0)"
  by (simp add: char_at_def mem_simps nth_append)

lemma char_at_zero:
  "i < length argv \<Longrightarrow> k \<le> length (argv ! i) \<Longrightarrow> 0 \<notin> set (argv ! i) \<Longrightarrow>
    \<exists>c. char_at argv (i, k) = Ret c \<and> (c = 0 \<longleftrightarrow> k = length (argv ! i))"
  by (auto simp: char_at_in in_set_conv_nth)

lemma takeWhile_other_less: "c \<in> set xs \<Longrightarrow> length (takeWhile (\<lambda>x. x \<noteq> c) xs) < length xs"
  by (induction xs) auto

lemma letter_missing:
  assumes "c \<noteq> 0"
  shows "length (takeWhile (\<lambda>x. x \<noteq> c) (optstring @ [0])) = length (optstring @ [0]) \<longleftrightarrow> short_kind optstring c = None"
proof (cases "c \<in> set optstring")
  case True
  then have "length (takeWhile (\<lambda>x. x \<noteq> c) optstring) < length optstring"
    by (rule takeWhile_other_less)
  moreover have "takeWhile (\<lambda>x. x \<noteq> c) (optstring @ [0]) = takeWhile (\<lambda>x. x \<noteq> c) optstring"
    using True by (auto simp: takeWhile_append)
  ultimately show ?thesis by (simp add: short_kind_def Let_def)
next
  case False
  then have "length (takeWhile (\<lambda>x. x \<noteq> c) optstring) = length optstring"
    using False by (induction optstring) auto
  moreover have "takeWhile (\<lambda>x. x \<noteq> c) (optstring @ [0]) = optstring @ [0]"
    using False assms by (auto simp: takeWhile_append)
  ultimately show ?thesis by (simp add: short_kind_def Let_def)
qed

lemma letter_found:
  assumes "short_kind optstring c = Some b"
  shows "\<exists>kind. peek (optstring @ [0]) (length (takeWhile (\<lambda>x. x \<noteq> c) (optstring @ [0])) + 1) = Ret kind
    \<and> (kind = 58 \<longleftrightarrow> b)" and "c \<in> set optstring"
proof -
  show c: "c \<in> set optstring"
  proof (rule ccontr)
    assume "c \<notin> set optstring"
    then have "takeWhile (\<lambda>x. x \<noteq> c) optstring = optstring" by (auto simp: takeWhile_eq_all_conv)
    with assms show False by (simp add: short_kind_def)
  qed
  have "takeWhile (\<lambda>x. x \<noteq> c) (optstring @ [0]) = takeWhile (\<lambda>x. x \<noteq> c) optstring"
    using c by (auto simp: takeWhile_append)
  moreover have "length (takeWhile (\<lambda>x. x \<noteq> c) optstring) < length optstring"
    by (rule takeWhile_other_less [OF c])
  ultimately show "\<exists>kind. peek (optstring @ [0]) (length (takeWhile (\<lambda>x. x \<noteq> c) (optstring @ [0])) + 1) = Ret kind
    \<and> (kind = 58 \<longleftrightarrow> b)"
    using assms by (auto simp: short_kind_def Let_def mem_simps nth_append split: if_splits)
qed

lemma sint_letter: "(c :: byte) \<noteq> 255 \<Longrightarrow> sint c \<noteq> - 1" "(c :: byte) \<noteq> 63 \<Longrightarrow> sint c \<noteq> 63"
proof -
  have "sint (255 :: byte) = - 1" "sint (63 :: byte) = 63" by simp_all
  then show "c \<noteq> 255 \<Longrightarrow> sint c \<noteq> - 1" "c \<noteq> 63 \<Longrightarrow> sint c \<noteq> 63" by (metis word_eq_iff_signed)+
qed

text \<open>A call in the middle of an argument with short options.\<close>

lemma short_call:
  assumes ok: "args_ok argv optstring longopts" and st: "place st = Some (optind st, k)" "optind st < length argv"
    and k: "k < length (argv ! optind st)" and c: "c = argv ! optind st ! k"
  defines "rest \<equiv> Suc k < length (argv ! optind st)"
  shows "\<exists>r. getopt_long argv optstring longopts st = Ret r \<and> ret r \<noteq> - 1
    \<and> (case short_kind optstring c of
         None \<Rightarrow> event_of argv r = (BADCH, None) \<and> place (after r) = Some (optind st, Suc k)
           \<and> optind (after r) = (if rest then optind st else optind st + 1)
       | Some False \<Rightarrow> event_of argv r = (sint c, None) \<and> place (after r) = Some (optind st, Suc k)
           \<and> optind (after r) = (if rest then optind st else optind st + 1)
       | Some True \<Rightarrow> place (after r) = None
           \<and> (if rest then event_of argv r = (sint c, Some (drop (Suc k) (argv ! optind st))) \<and> optind (after r) = optind st + 1
              else if Suc (optind st) < length argv
              then event_of argv r = (sint c, Some (argv ! Suc (optind st))) \<and> optind (after r) = optind st + 2
              else event_of argv r = (BADCH, None) \<and> optind (after r) = optind st + 1))"
proof -
  have null: "0 \<notin> set (argv ! optind st)" using ok st(2) by (auto simp: args_ok_def)
  then have c0: "c \<noteq> 0" using k c by (metis nth_mem)
  have at: "char_at argv (optind st, k) = Ret c" using k st(2) c by (simp add: char_at_in)
  obtain n where n: "char_at argv (optind st, Suc k) = Ret n" "n = 0 \<longleftrightarrow> \<not> rest"
    using char_at_zero [OF st(2) _ null, of "Suc k"] k by (auto simp: rest_def)
  have start: "getopt_long argv optstring longopts st = short_step argv optstring st"
    using st(1) at c0 by (simp add: getopt_long_def)
  have colon: "first_char optstring \<noteq> 58" using ok by (simp add: args_ok_def)
  show ?thesis
  proof (cases "short_kind optstring c")
    case None
    then show ?thesis using st(1) at n letter_missing [OF c0, of optstring] unfolding start
      by (simp add: short_step_def Let_def BADCH_def event_of_def)
  next
    case (Some b)
    obtain kind where kind: "peek (optstring @ [0]) (length (takeWhile (\<lambda>x. x \<noteq> c) (optstring @ [0])) + 1) = Ret kind"
      "kind = 58 \<longleftrightarrow> b"
      using letter_found(1) [OF Some] by blast
    have "c \<in> set optstring" by (rule letter_found(2) [OF Some])
    then have s: "sint c \<noteq> - 1" "sint c \<noteq> BADCH" using ok sint_letter [of c] by (auto simp: args_ok_def BADCH_def)
    have found: "length (takeWhile (\<lambda>x. x \<noteq> c) (optstring @ [0])) \<noteq> length (optstring @ [0])"
      using letter_missing [OF c0, of optstring] Some by simp
    show ?thesis
    proof (cases b)
      case True
      then show ?thesis using st(1) at n found kind s Some colon unfolding start
        by (simp add: short_step_def Let_def BADCH_def event_of_def answer_only_def del: length_append)
    next
      case False
      then show ?thesis using st(1) at n found kind s Some unfolding start
        by (simp add: short_step_def Let_def event_of_def answer_only_def del: length_append)
    qed
  qed
qed

text \<open>A call at the start of a long option.\<close>

lemma find_long_set: "find_long nm longopts i = Some (j, opt) \<Longrightarrow> opt \<in> set longopts"
  by (induction longopts arbitrary: i) (auto split: if_splits)

lemma take_namelen: "take (length (takeWhile P xs)) xs = takeWhile P xs"
  by (metis takeWhile_eq_take)

lemma long_call:
  assumes ok: "args_ok argv optstring longopts" and i: "optind st < length argv"
    and args: "drop (Suc (optind st)) argv = args" and start: "start = drop 2 (argv ! optind st)"
  shows "\<exists>r. long_step argv optstring longopts st = Ret r \<and> ret r \<noteq> - 1
    \<and> event_of argv r = fst (parse_long longopts start args) \<and> place (after r) = None
    \<and> drop (optind (after r)) argv = snd (parse_long longopts start args)"
proof -
  have colon: "first_char optstring \<noteq> 58" using ok by (simp add: args_ok_def)
  define nm where "nm = takeWhile (\<lambda>c. c \<noteq> 61) start"
  have nm: "take (length nm) start = nm" by (simp add: nm_def take_namelen)
  have longer: "length nm < length start \<longleftrightarrow> nm \<noteq> start"
    using nm length_takeWhile_le [of "\<lambda>c. c \<noteq> 61" start] by (metis le_neq_implies_less less_irrefl nm_def take_all order_refl)
  have nil: "args = [] \<longleftrightarrow> \<not> Suc (optind st) < length argv" using args by auto
  have cons: "argv ! Suc (optind st) = a" "drop (Suc (Suc (optind st))) argv = as" if "args = a # as" for a as
    using args that by (metis nth_via_drop, metis drop_Suc list.sel(3) tl_drop)
  have at: "peek argv (optind st) = Ret (argv ! optind st)" using i by (simp add: mem_simps)
  note defs = long_step_def Let_def at start [symmetric] nm_def [symmetric] nm parse_long_def event_of_def
  show ?thesis
  proof (cases "find_long nm longopts 0")
    case None
    then show ?thesis using args by (simp add: defs BADCH_def)
  next
    case (Some p)
    obtain j opt where p: "p = (j, opt)" by fastforce
    with Some find_long_set have "opt \<in> set longopts" by metis
    then have v: "opt_val opt \<noteq> - 1" "opt_val opt \<noteq> BADCH" "(0 :: int) \<noteq> BADCH"
      using ok by (auto simp: args_ok_def BADCH_def)
    show ?thesis
    proof (cases "has_arg opt = 0")
      case True
      then show ?thesis using Some p v args by (simp add: defs)
    next
      case arg: False
      show ?thesis
      proof (cases "nm = start")
        case False
        then have "length nm < length start" using longer by simp
        moreover have "drop (2 + length nm + 1) (argv ! optind st) = drop (length nm + 1) start"
          by (simp add: start add.commute)
        ultimately show ?thesis using False Some p v args arg by (simp add: defs)
      next
        case True
        then have same: "\<not> length nm < length start" using longer by simp
        show ?thesis
        proof (cases args)
          case Nil
          with nil show ?thesis using True same Some p v args arg colon by (simp add: defs BADCH_def)
        next
          case (Cons a as)
          with nil have "Suc (optind st) < length argv" by simp
          then show ?thesis using True same Some p v arg Cons cons [OF Cons] by (simp add: defs)
        qed
      qed
    qed
  qed
qed

section \<open>All calls\<close>

text \<open>The bytes still to be read; each argument counts one more.\<close>

definition text_left :: "byte list list \<Rightarrow> nat" where
  "text_left args = (\<Sum>a\<leftarrow>args. Suc (length a))"

lemma text_left_simps [simp]: "text_left [] = 0" "text_left (a # args) = Suc (length a) + text_left args"
  by (simp_all add: text_left_def)

lemma text_left_drop: "text_left (drop n args) \<le> text_left args"
  by (induction args arbitrary: n) (auto simp: drop_Cons' intro: le_SucI trans_le_add2)

definition fresh :: "byte list list \<Rightarrow> getopt_state \<Rightarrow> bool" where
  "fresh argv st \<longleftrightarrow> (case place st of None \<Rightarrow> True | Some (i, k) \<Rightarrow> i < length argv \<and> k = length (argv ! i))"

lemma fresh_char:
  "fresh argv st \<Longrightarrow> (case place st of None \<Rightarrow> Ret 0 | Some p \<Rightarrow> char_at argv p) = Ret 0"
  by (auto simp: fresh_def char_at_in split: option.splits)

lemma getopt_all_step:
  assumes "getopt_long argv optstring longopts st = Ret r" and "ret r \<noteq> - 1"
    and "getopt_all argv optstring longopts (after r) = Some (Ret es)"
  shows "getopt_all argv optstring longopts st = Some (Ret (event_of argv r # es))"
  using assms by (subst getopt_all.simps) simp

lemma getopt_all_end:
  assumes "getopt_long argv optstring longopts st = Ret r" and "ret r = - 1"
  shows "getopt_all argv optstring longopts st = Some (Ret [])"
  using assms by (subst getopt_all.simps) simp

text \<open>A short option, with what the calls behind it answer.\<close>

lemma getopt_all_short:
  assumes ok: "args_ok argv optstring longopts" and st: "place st = Some (optind st, k)" "optind st < length argv"
    and k: "k < length (argv ! optind st)" and args: "args = drop (Suc (optind st)) argv"
    and in_word: "\<And>st'. \<lbrakk>place st' = Some (optind st, Suc k); optind st' = optind st; Suc k < length (argv ! optind st)\<rbrakk>
      \<Longrightarrow> getopt_all argv optstring longopts st' = Some (Ret
        (fst (parse_shorts optstring (drop (Suc k) (argv ! optind st)) args)
         @ parse_args optstring longopts (snd (parse_shorts optstring (drop (Suc k) (argv ! optind st)) args))))"
    and behind: "\<And>st' n. \<lbrakk>fresh argv st'; optind st < optind st'\<rbrakk>
      \<Longrightarrow> getopt_all argv optstring longopts st' = Some (Ret (parse_args optstring longopts (drop (optind st') argv)))"
  shows "getopt_all argv optstring longopts st = Some (Ret
    (fst (parse_shorts optstring (drop k (argv ! optind st)) args)
     @ parse_args optstring longopts (snd (parse_shorts optstring (drop k (argv ! optind st)) args))))"
proof -
  define arg where "arg = argv ! optind st"
  define c where "c = arg ! k"
  define cs where "cs = drop (Suc k) arg"
  have word: "drop k arg = c # cs" using k by (simp add: c_def cs_def arg_def Cons_nth_drop_Suc)
  have cs: "cs = [] \<longleftrightarrow> \<not> Suc k < length arg" by (auto simp: cs_def)
  obtain r where r: "getopt_long argv optstring longopts st = Ret r" "ret r \<noteq> - 1"
    and kind: "case short_kind optstring c of
         None \<Rightarrow> event_of argv r = (BADCH, None) \<and> place (after r) = Some (optind st, Suc k)
           \<and> optind (after r) = (if Suc k < length arg then optind st else optind st + 1)
       | Some False \<Rightarrow> event_of argv r = (sint c, None) \<and> place (after r) = Some (optind st, Suc k)
           \<and> optind (after r) = (if Suc k < length arg then optind st else optind st + 1)
       | Some True \<Rightarrow> place (after r) = None
           \<and> (if Suc k < length arg then event_of argv r = (sint c, Some (drop (Suc k) arg)) \<and> optind (after r) = optind st + 1
              else if Suc (optind st) < length argv
              then event_of argv r = (sint c, Some (argv ! Suc (optind st))) \<and> optind (after r) = optind st + 2
              else event_of argv r = (BADCH, None) \<and> optind (after r) = optind st + 1)"
    using short_call [OF ok st k refl] unfolding arg_def [symmetric] c_def [symmetric] by blast
  have go_on: "getopt_all argv optstring longopts (after r) = Some (Ret
      (fst (parse_shorts optstring cs args) @ parse_args optstring longopts (snd (parse_shorts optstring cs args))))"
    if "place (after r) = Some (optind st, Suc k)" "optind (after r) = (if Suc k < length arg then optind st else optind st + 1)"
  proof (cases "cs = []")
    case True
    with that cs k st(2) have "fresh argv (after r)" "optind (after r) = Suc (optind st)"
      by (auto simp: fresh_def arg_def)
    with behind [of "after r"] args True show ?thesis by simp
  next
    case False
    with in_word [of "after r"] that cs show ?thesis by (simp add: cs_def arg_def)
  qed
  note step = getopt_all_step [OF r]
  show ?thesis
  proof (cases "short_kind optstring c")
    case None
    with kind step [OF go_on] show ?thesis unfolding arg_def [symmetric] word by (simp add: case_prod_beta)
  next
    case (Some b)
    show ?thesis
    proof (cases b)
      case False
      with kind Some step [OF go_on] show ?thesis unfolding arg_def [symmetric] word by (simp add: case_prod_beta)
    next
      case True
      with kind Some have f: "fresh argv (after r)" "optind st < optind (after r)"
        by (auto simp: fresh_def split: if_splits)
      note step = step [OF behind [OF f]]
      show ?thesis
      proof (cases "cs = []")
        case False
        with kind Some True step cs args show ?thesis unfolding arg_def [symmetric] word by (simp add: cs_def)
      next
        case none: True
        show ?thesis
        proof (cases args)
          case Nil
          then have "\<not> Suc (optind st) < length argv" using args by simp
          with kind Some True step cs none Nil args show ?thesis unfolding arg_def [symmetric] word by simp
        next
          case (Cons a as)
          then have a: "Suc (optind st) < length argv" "argv ! Suc (optind st) = a" "drop (optind st + 2) argv = as"
            using args by (metis drop_eq_Nil list.simps(3) not_less, metis nth_via_drop,
              metis add_2_eq_Suc' drop_Suc list.sel(3) tl_drop)
          with kind Some True step cs none Cons show ?thesis unfolding arg_def [symmetric] word by simp
        qed
      qed
    qed
  qed
qed

lemma parse_long_left: "text_left (snd (parse_long longopts start args)) \<le> text_left args"
  by (auto simp: parse_long_def Let_def split: option.splits list.splits)

lemma text_left_at: "i < length argv \<Longrightarrow> text_left (drop i argv) = Suc (length (argv ! i)) + text_left (drop (Suc i) argv)"
  by (simp add: Cons_nth_drop_Suc [symmetric])

lemma text_left_later: "i < j \<Longrightarrow> text_left (drop j argv) \<le> text_left (drop (Suc i) argv)"
  using text_left_drop [of "j - Suc i" "drop (Suc i) argv"] by simp

lemma getopt_all_result:
  assumes ok: "args_ok argv optstring longopts"
  shows "(fresh argv st \<and> text_left (drop (optind st) argv) = n \<longrightarrow>
      getopt_all argv optstring longopts st = Some (Ret (parse_args optstring longopts (drop (optind st) argv))))
    \<and> (\<forall>k. place st = Some (optind st, k) \<and> optind st < length argv \<and> k < length (argv ! optind st)
        \<and> length (argv ! optind st) - k + text_left (drop (Suc (optind st)) argv) = n \<longrightarrow>
      getopt_all argv optstring longopts st = Some (Ret
        (fst (parse_shorts optstring (drop k (argv ! optind st)) (drop (Suc (optind st)) argv))
         @ parse_args optstring longopts (snd (parse_shorts optstring (drop k (argv ! optind st)) (drop (Suc (optind st)) argv))))))"
proof (induction n arbitrary: st rule: less_induct)
  case (less n)
  let ?args = "drop (Suc (optind st)) argv" and ?arg = "argv ! optind st"
  show ?case
  proof (intro conjI impI allI; elim conjE)
    fix k
    assume st: "place st = Some (optind st, k)" "optind st < length argv" "k < length ?arg"
      and n: "length ?arg - k + text_left ?args = n"
    have in_word: "getopt_all argv optstring longopts st' = Some (Ret
        (fst (parse_shorts optstring (drop (Suc k) ?arg) ?args)
         @ parse_args optstring longopts (snd (parse_shorts optstring (drop (Suc k) ?arg) ?args))))"
      if st': "place st' = Some (optind st, Suc k)" "optind st' = optind st" "Suc k < length ?arg" for st'
    proof -
      have "length ?arg - Suc k + text_left ?args < n" using n st(3) by linarith
      from less [OF this, of st'] st' st(2) show ?thesis by simp
    qed
    have behind: "getopt_all argv optstring longopts st' = Some (Ret (parse_args optstring longopts (drop (optind st') argv)))"
      if st': "fresh argv st'" "optind st < optind st'" for st'
    proof -
      have "text_left (drop (optind st') argv) < n" using n st(3) text_left_later [OF st'(2), of argv] by linarith
      from less [OF this, of st'] st'(1) show ?thesis by simp
    qed
    show "getopt_all argv optstring longopts st = Some (Ret
        (fst (parse_shorts optstring (drop k ?arg) ?args)
         @ parse_args optstring longopts (snd (parse_shorts optstring (drop k ?arg) ?args))))"
      by (rule getopt_all_short [OF ok st refl in_word behind])
  next
    assume st: "fresh argv st" and n: "text_left (drop (optind st) argv) = n"
    note start = getopt_long_def [of argv optstring longopts st, unfolded fresh_char [OF st], simplified]
    show "getopt_all argv optstring longopts st = Some (Ret (parse_args optstring longopts (drop (optind st) argv)))"
    proof (cases "optind st < length argv")
      case False
      then have "getopt_long argv optstring longopts st = Ret (answer_only (- 1) (st\<lparr>place := None\<rparr>))"
        by (simp add: start)
      with False show ?thesis by (simp add: getopt_all_end answer_only_def)
    next
      case True
      have arg: "0 \<notin> set ?arg" "?arg \<noteq> [45]" using ok True by (auto simp: args_ok_def)
      have drop: "drop (optind st) argv = ?arg # ?args" using True by (simp add: Cons_nth_drop_Suc)
      have n': "n = Suc (length ?arg) + text_left ?args" using n text_left_at [OF True] by simp
      consider "?arg = []" | c cs where "?arg = c # cs" "c \<noteq> 45" | "?arg = [45, 45]"
        | c cs where "?arg = 45 # 45 # c # cs" | c cs where "?arg = 45 # c # cs" "c \<noteq> 45"
        using arg(2) by (cases ?arg rule: list.exhaust; cases "tl ?arg" rule: list.exhaust; cases "tl (tl ?arg)") auto
      then show ?thesis
      proof cases
        case 1
        then have "getopt_long argv optstring longopts st = Ret (answer_only (- 1) (st\<lparr>place := None\<rparr>))"
          using True by (simp add: start char_at_in)
        with 1 show ?thesis unfolding drop by (simp add: getopt_all_end answer_only_def)
      next
        case 2
        then have "getopt_long argv optstring longopts st = Ret (answer_only (- 1) (st\<lparr>place := None\<rparr>))"
          using True by (simp add: start char_at_in)
        with 2 show ?thesis unfolding drop by (simp add: getopt_all_end answer_only_def)
      next
        case 3
        then have "getopt_long argv optstring longopts st
            = Ret (answer_only (- 1) (st\<lparr>optind := optind st + 1, place := None\<rparr>))"
          using True by (simp add: start char_at_in)
        with 3 show ?thesis unfolding drop by (simp add: getopt_all_end answer_only_def)
      next
        case 4
        then have "c \<noteq> 0" using arg(1) by auto
        with 4 True have long: "getopt_long argv optstring longopts st = long_step argv optstring longopts st"
          by (simp add: start char_at_in)
        obtain r where r: "long_step argv optstring longopts st = Ret r" "ret r \<noteq> - 1"
          "event_of argv r = fst (parse_long longopts (drop 2 ?arg) ?args)" "place (after r) = None"
          "drop (optind (after r)) argv = snd (parse_long longopts (drop 2 ?arg) ?args)"
          using long_call [OF ok True refl refl] by blast
        have "text_left (drop (optind (after r)) argv) < n"
          using parse_long_left [of longopts "drop 2 ?arg" ?args] n' unfolding r(5) by linarith
        from less [OF this, of "after r"] r(4)
        have "getopt_all argv optstring longopts (after r) = Some (Ret (parse_args optstring longopts (drop (optind (after r)) argv)))"
          by (simp add: fresh_def)
        from getopt_all_step [OF _ r(2) this, of st, unfolded long, OF r(1)] show ?thesis
          unfolding drop r(3,5) using 4 by simp
      next
        case 5
        let ?st = "st\<lparr>place := Some (optind st, 1)\<rparr>"
        have c: "c \<noteq> 0" using arg(1) 5 by auto
        have "getopt_long argv optstring longopts st = getopt_long argv optstring longopts ?st"
        proof -
          have "getopt_long argv optstring longopts st = short_step argv optstring ?st"
            using 5 c True by (simp add: start char_at_in)
          also have "\<dots> = getopt_long argv optstring longopts ?st"
            using 5 c True by (simp add: getopt_long_def char_at_in)
          finally show ?thesis .
        qed
        then have same: "getopt_all argv optstring longopts st = getopt_all argv optstring longopts ?st"
          by (subst (1 2) getopt_all.simps) simp
        have "length ?arg - 1 + text_left ?args < n" using n' 5 by simp
        from less [OF this, of ?st] 5 True
        have "getopt_all argv optstring longopts ?st = Some (Ret
          (fst (parse_shorts optstring (drop 1 ?arg) ?args)
           @ parse_args optstring longopts (snd (parse_shorts optstring (drop 1 ?arg) ?args))))" by simp
        with 5 show ?thesis unfolding same drop by simp
      qed
    qed
  qed
qed

section \<open>Properties\<close>

text \<open>
  C36: Calling \<open>getopt_long\<close> until it answers -1 gives, in order, the options a direct reading of the
  arguments finds: clusters of short options, arguments in the same or in the next word, long options
  with \<^verbatim>\<open>=\<close> or without, up to the first word that is no option or \<^verbatim>\<open>--\<close>.
\<close>

theorem getopt_long_parses:
  assumes "args_ok argv optstring longopts" and "place st = None"
  shows "getopt_all argv optstring longopts st
    = Some (Ret (parse_args optstring longopts (drop (optind st) argv)))"
  using getopt_all_result [OF assms(1), of st] assms(2) by (simp add: fresh_def)

theorem getopt_long_parses_witness:
  "getopt_all [[112], [45, 97, 98, 120], [45, 45, 111, 61, 121], [122]] [97, 98, 58]
      [\<lparr>opt_name = [111], has_arg = 1, opt_flag = None, opt_val = 7\<rparr>]
      \<lparr>optind = 1, optarg = None, optopt = 0, opterr = 1, place = None\<rparr>
    = Some (Ret [(97, None), (98, Some [120]), (7, Some [121])])"
proof -
  let ?argv = "[[112], [45, 97, 98, 120], [45, 45, 111, 61, 121], [122 :: byte]]"
  let ?long = "[\<lparr>opt_name = [111 :: byte], has_arg = 1, opt_flag = None, opt_val = 7\<rparr>]"
  have "args_ok ?argv [97, 98, 58] ?long" by (simp add: args_ok_def first_char_def BADCH_def)
  moreover have "parse_args [97, 98, 58] ?long (drop 1 ?argv) = [(97, None), (98, Some [120]), (7, Some [121])]"
    by (simp add: short_kind_def parse_long_def)
  ultimately show ?thesis
    using getopt_long_parses [of ?argv "[97, 98, 58]" ?long "\<lparr>optind = 1, optarg = None, optopt = 0, opterr = 1, place = None\<rparr>"]
    by simp
qed

text \<open>
  A word that is only a hyphen is taken for a short option without a letter, and the letters are read
  behind their end.
\<close>

lemma lone_hyphen_overruns:
  assumes "optind st < length argv" and "argv ! optind st = [45]" and "place st = None" and "0 \<notin> set optstring"
  shows "getopt_long argv optstring longopts st = Crash"
proof -
  have "takeWhile (\<lambda>x. x \<noteq> 0) (optstring @ [0]) = optstring" using assms(4)
    by (induction optstring) auto
  then show ?thesis using assms by (simp add: getopt_long_def char_at_in short_step_def Let_def mem_simps)
qed

text \<open>
  With a colon in front of the letters, a missing argument of a long option leaves \<open>place\<close> on its name,
  so the next call reads the name as short options.
\<close>

lemma missing_argument_stays:
  assumes "Suc (optind st) = length argv" and "argv ! optind st = 45 # 45 # nm" and "nm \<noteq> []" and "0 \<notin> set nm" and "61 \<notin> set nm"
    and "find_long nm longopts 0 = Some (j, opt)" and "has_arg opt \<noteq> 0" and "first_char optstring = 58" and "place st = None"
  shows "getopt_long argv optstring longopts st = Ret (answer_only BADARG (st\<lparr>place := Some (optind st, 2)\<rparr>))"
proof -
  have i: "optind st < length argv" using assms(1) by simp
  have "length (takeWhile (\<lambda>c. c \<noteq> 61) nm) = length nm" using assms(5) by (induction nm) auto
  moreover have "char_at argv (optind st, 2) = Ret (hd nm)" "hd nm \<noteq> 0"
    using assms(2-4) i by (cases nm; simp add: char_at_in)+
  ultimately show ?thesis
    using assms i by (simp add: getopt_long_def char_at_in long_step_def mem_simps Let_def)
qed

end
