(* ===== verification/Resource_Listing.thy ===== *)
theory Resource_Listing
  imports Console Node
begin

text \<open>
  The listing of resource bundles for developers, from \<^verbatim>\<open>src/debug\<close>: \<^verbatim>\<open>level_indent.c\<close>,
  \<^verbatim>\<open>flag_check.c\<close>, \<^verbatim>\<open>flag_res_display.c\<close>, \<^verbatim>\<open>list_array_resources.c\<close>, \<^verbatim>\<open>list_table_resources.c\<close> and
  the lists of locales, languages and countries. A bundle is what the calls of ICU answer about it:
  its kind, and a value or the name of an error; the elements of an array or a table are followed
  by the error that ends the iteration, if there is one.
\<close>

section \<open>Bundles\<close>

datatype UResType = URES_NONE | URES_STRING | URES_BINARY | URES_TABLE | URES_ALIAS | URES_INT
  | URES_ARRAY | URES_INT_VECTOR

datatype 'a answer = Answer 'a | Failure "byte list"

datatype resource =
    R_none
  | R_alias "byte list answer"
  | R_array "resource list" "byte list option"
  | R_binary
  | R_int "int answer"
  | R_int_vector nat
  | R_string "byte list answer"
  | R_table "entry list" "byte list option"
and entry = Entry "byte list" resource

fun ures_getType :: "resource \<Rightarrow> UResType" where
  "ures_getType R_none = URES_NONE"
| "ures_getType (R_alias _) = URES_ALIAS"
| "ures_getType (R_array _ _) = URES_ARRAY"
| "ures_getType R_binary = URES_BINARY"
| "ures_getType (R_int _) = URES_INT"
| "ures_getType (R_int_vector _) = URES_INT_VECTOR"
| "ures_getType (R_string _) = URES_STRING"
| "ures_getType (R_table _ _) = URES_TABLE"

record res_disp_flag =
  all :: nat
  "help" :: nat
  version :: nat
  only_locale :: nat
  badopt :: nat
  tables :: nat
  arrays :: nat
  strings :: nat
  binaries :: nat
  aliases :: nat
  integers :: nat
  vectors :: nat

text \<open>The member \<open>only_locale\<close> keeps the value it had.\<close>

definition init_res_disp_flag :: "res_disp_flag option \<Rightarrow> res_disp_flag outcome" where
  "init_res_disp_flag flag =
     (case flag of
        None \<Rightarrow> Crash
      | Some f \<Rightarrow> Ret (f\<lparr>all := 1, help := 0, version := 0, badopt := 0, tables := 0, arrays := 0,
                     strings := 0, binaries := 0, aliases := 0, integers := 0, vectors := 0\<rparr>))"

definition flag_check :: "resource \<Rightarrow> res_disp_flag \<Rightarrow> UResType" where
  "flag_check res flag =
     (let restype = ures_getType res
      in if all flag = 1 then restype
         else if restype = URES_ALIAS \<and> aliases flag = 1 then restype
         else if restype = URES_ARRAY \<and> arrays flag = 1 then restype
         else if restype = URES_BINARY \<and> binaries flag = 1 then restype
         else if restype = URES_INT \<and> integers flag = 1 then restype
         else if restype = URES_INT_VECTOR \<and> vectors flag = 1 then restype
         else if restype = URES_STRING \<and> strings flag = 1 then restype
         else if restype = URES_TABLE \<and> tables flag = 1 then restype
         else URES_NONE)"

definition get_resource_type :: "resource \<Rightarrow> string" where
  "get_resource_type res =
     (case ures_getType res of
        URES_ALIAS \<Rightarrow> ''URES_ALIAS'' | URES_ARRAY \<Rightarrow> ''URES_ARRAY'' | URES_BINARY \<Rightarrow> ''URES_BINARY''
      | URES_INT \<Rightarrow> ''URES_INT'' | URES_INT_VECTOR \<Rightarrow> ''URES_INT_VECTOR'' | URES_NONE \<Rightarrow> ''URES_NONE''
      | URES_STRING \<Rightarrow> ''URES_STRING'' | URES_TABLE \<Rightarrow> ''URES_TABLE'')"

section \<open>Indentation\<close>

text \<open>
  The loop writes two blanks as long as the level and the size allow it; it counts from \<open>i\<close>, and
  \<open>k\<close> is the distance of \<^verbatim>\<open>indent_ptr\<close> from the start of the buffer.
\<close>

function indent_loop :: "byte list \<Rightarrow> nat \<Rightarrow> int \<Rightarrow> nat \<Rightarrow> nat \<Rightarrow> (byte list \<times> nat) outcome" where
  "indent_loop indent sz level i k =
     (if int i < level \<and> i * 2 < sz then
        obind (poke indent k 32) (\<lambda>indent.
        obind (poke indent (k + 1) 32) (\<lambda>indent.
        indent_loop indent sz level (i + 1) (k + 2)))
      else Ret (indent, k))"
  by pat_completeness auto
termination by (relation "measure (\<lambda>(indent, sz, level, i, k). sz - i)") auto

definition level_indent :: "byte list \<Rightarrow> nat \<Rightarrow> int \<Rightarrow> byte list outcome" where
  "level_indent indent sz level =
     obind (indent_loop indent sz level 0 0) (\<lambda>(indent, k). poke indent k 0)"

section \<open>Listing\<close>

text \<open>
  What has been printed, and how it ended: \<open>Halt\<close> is the call of \<^verbatim>\<open>exit(1)\<close> after a message. The
  buffer for the indentation has \<open>BUFSIZ\<close> bytes; what it holds does not matter.
\<close>

type_synonym listing = "console \<times> unit outcome"

definition then_list :: "listing \<Rightarrow> listing \<Rightarrow> listing" where
  "then_list a b = (case snd a of Ret _ \<Rightarrow> (fst a @ fst b, snd b) | _ \<Rightarrow> a)"

definition put :: "byte list \<Rightarrow> listing" where
  "put line = ([(Stdout, line)], Ret ())"

definition fail :: "byte list \<Rightarrow> listing" where
  "fail line = ([(Stderr, line)], Halt)"

definition newline :: "byte list" where
  "newline = [10]"

definition width8 :: "byte list \<Rightarrow> byte list" where
  "width8 s = replicate (8 - length s) 32 @ s"

definition indented :: "int \<Rightarrow> byte list \<Rightarrow> listing" where
  "indented level line =
     (case level_indent (replicate BUFSIZ 0) BUFSIZ level of
        Ret buffer \<Rightarrow> put (takeWhile (\<lambda>b. b \<noteq> 0) buffer @ line)
      | Halt \<Rightarrow> ([], Halt)
      | Crash \<Rightarrow> ([], Crash))"

fun flag_res_display :: "res_disp_flag \<Rightarrow> int \<Rightarrow> resource \<Rightarrow> listing"
  and list_array_resources :: "res_disp_flag \<Rightarrow> int \<Rightarrow> nat \<Rightarrow> resource list \<Rightarrow> byte list option \<Rightarrow> listing"
  and list_table_entries :: "res_disp_flag \<Rightarrow> int \<Rightarrow> entry list \<Rightarrow> byte list option \<Rightarrow> listing"
where
  "flag_res_display flag level R_none = ([], Ret ())"
| "flag_res_display flag level (R_alias a) =
     (if flag_check (R_alias a) flag = URES_ALIAS then
        case a of
          Failure e \<Rightarrow> fail (text_bytes ''Err in flag_res_display, URES_ALIAS: '' @ e @ newline)
        | Answer s \<Rightarrow> put (s @ newline)
      else ([], Ret ()))"
| "flag_res_display flag level (R_array xs e) =
     (if flag_check (R_array xs e) flag = URES_ARRAY then list_array_resources flag (level + 1) 0 xs e
      else ([], Ret ()))"
| "flag_res_display flag level R_binary =
     (if flag_check R_binary flag = URES_BINARY then put (text_bytes ''[binary data]'' @ newline)
      else ([], Ret ()))"
| "flag_res_display flag level (R_int a) =
     (if flag_check (R_int a) flag = URES_INT then
        case a of
          Failure e \<Rightarrow> fail (text_bytes ''Err in flag_res_display, URES_INT: '' @ e @ newline)
        | Answer n \<Rightarrow> put (decimal_int n @ newline)
      else ([], Ret ()))"
| "flag_res_display flag level (R_int_vector n) =
     (if flag_check (R_int_vector n) flag = URES_INT_VECTOR
      then put (text_bytes ''Size: '' @ decimal n @ newline)
      else ([], Ret ()))"
| "flag_res_display flag level (R_string a) =
     (if flag_check (R_string a) flag = URES_STRING then
        case a of
          Failure e \<Rightarrow> fail (text_bytes ''Err in flag_res_display, URES_STRING: '' @ e @ newline)
        | Answer s \<Rightarrow> put (s @ newline)
      else ([], Ret ()))"
| "flag_res_display flag level (R_table xs e) =
     (if flag_check (R_table xs e) flag = URES_TABLE then list_table_entries flag (level + 1) xs e
      else ([], Ret ()))"
| "list_array_resources flag level i [] e =
     (case e of Some name \<Rightarrow> fail (text_bytes ''Err: '' @ name @ newline) | None \<Rightarrow> put newline)"
| "list_array_resources flag level i (r # rs) e =
     then_list
       (if flag_check r flag \<noteq> URES_NONE then
          then_list
            (indented level (width8 (decimal i) @ text_bytes '' - '' @ text_bytes (get_resource_type r) @ text_bytes '': ''))
            (flag_res_display flag level r)
        else ([], Ret ()))
       (list_array_resources flag level (i + 1) rs e)"
| "list_table_entries flag level [] e =
     (case e of Some name \<Rightarrow> fail (text_bytes ''Err: '' @ name @ newline) | None \<Rightarrow> ([], Ret ()))"
| "list_table_entries flag level (Entry k r # rs) e =
     then_list
       (then_list
          (indented level (k @ text_bytes '' - '' @ text_bytes (get_resource_type r) @ newline))
          (flag_res_display flag level r))
       (list_table_entries flag level rs e)"

text \<open>A null pointer for the flags is handed on to the function that would fill them.\<close>

definition list_table_resources :: "entry list \<Rightarrow> byte list option \<Rightarrow> res_disp_flag option \<Rightarrow> int \<Rightarrow> listing" where
  "list_table_resources entries e flag level =
     (case flag of
        None \<Rightarrow> ([], obind (init_res_disp_flag None) (\<lambda>_. Ret ()))
      | Some f \<Rightarrow> list_table_entries f level entries e)"

definition list_package_locales :: "byte list \<Rightarrow> byte list list answer \<Rightarrow> listing" where
  "list_package_locales package_name locales =
     (case locales of
        Failure e \<Rightarrow> fail (text_bytes ''Can not find package '' @ package_name @ text_bytes ''. Err: '' @ e @ newline)
      | Answer items \<Rightarrow> (map (\<lambda>item. (Stdout, item @ text_bytes '' '' @ newline)) items @ [(Stdout, newline)], Ret ()))"

definition list_icu_countries :: "byte list list \<Rightarrow> listing" where
  "list_icu_countries names = (map (\<lambda>name. (Stdout, name @ [32])) names, Ret ())"

definition list_icu_langs :: "byte list list \<Rightarrow> listing" where
  "list_icu_langs names = (map (\<lambda>name. (Stdout, name @ [32])) names @ [(Stdout, newline @ newline)], Ret ())"

section \<open>Indentation and depth\<close>

declare indent_loop.simps [simp del]

lemma indent_loop_result:
  assumes "i \<le> n" and "n = min (nat level) ((sz + 1) div 2)"
  shows "indent_loop indent sz level i (2 * i) =
    (if i = n then Ret (indent, 2 * i)
     else if 2 * n \<le> length indent then Ret (overlay indent (2 * i) (replicate (2 * (n - i)) 32), 2 * n)
     else Crash)"
  using assms(1)
proof (induction "n - i" arbitrary: i indent)
  case 0
  then have "\<not> (int i < level \<and> i * 2 < sz)" using assms(2) by auto
  with 0 show ?case by (subst indent_loop.simps) auto
next
  case (Suc d)
  then have "i < n" by linarith
  then have i: "int i < level" "i * 2 < sz" "i < n" using assms(2) by auto
  have step: "indent_loop indent sz level i (2 * i) =
      obind (poke indent (2 * i) 32) (\<lambda>indent.
      obind (poke indent (2 * i + 1) 32) (\<lambda>indent. indent_loop indent sz level (i + 1) (2 * (i + 1))))"
    by (subst indent_loop.simps) (simp add: i)
  show ?case
  proof (cases "2 * i + 1 < length indent")
    case False
    then show ?thesis using i by (cases "2 * i < length indent") (simp_all add: step mem_simps)
  next
    case True
    let ?m = "indent[2 * i := 32, 2 * i + 1 := 32]"
    have "d = n - (i + 1)" "i + 1 \<le> n" using Suc by simp_all
    from Suc.hyps(1) [OF this, of ?m]
    have "indent_loop indent sz level i (2 * i) =
      (if i + 1 = n then Ret (?m, 2 * n)
       else if 2 * n \<le> length indent
         then Ret (overlay ?m (2 * (i + 1)) (replicate (2 * (n - (i + 1))) 32), 2 * n) else Crash)"
      using True by (simp add: step mem_simps)
    moreover have "overlay ?m (2 * (i + 1)) (replicate (2 * (n - (i + 1))) 32)
        = overlay indent (2 * i) (replicate (2 * (n - i)) 32)" if "2 * n \<le> length indent"
      using that i by (intro nth_equalityI) (auto simp: nth_overlay nth_list_update)
    moreover have "?m = overlay indent (2 * i) (replicate (2 * (n - i)) 32)" if "i + 1 = n"
      using that True by (intro nth_equalityI) (auto simp: nth_overlay nth_list_update nth_append)
    ultimately show ?thesis using i True by auto
  qed
qed

lemma level_indent_written:
  "level_indent indent (length indent) level =
     (let n = 2 * min (nat level) ((length indent + 1) div 2)
      in if n < length indent then Ret (overlay indent 0 (replicate n 32 @ [0])) else Crash)"
proof -
  define n where "n = min (nat level) ((length indent + 1) div 2)"
  have loop: "indent_loop indent (length indent) level 0 0 =
      (if 0 = n then Ret (indent, 0)
       else if 2 * n \<le> length indent then Ret (overlay indent 0 (replicate (2 * n) 32), 2 * n) else Crash)"
    using indent_loop_result [of 0 n level "length indent" indent] n_def by simp
  show ?thesis
  proof (cases "2 * n < length indent")
    case True
    then have "(overlay indent 0 (replicate (2 * n) 32))[2 * n := 0] = overlay indent 0 (replicate (2 * n) 32 @ [0])"
      by (intro nth_equalityI) (auto simp: nth_overlay nth_list_update nth_append)
    then show ?thesis using True loop
      unfolding n_def [symmetric] Let_def by (cases "n = 0") (simp_all add: level_indent_def mem_simps)
  next
    case False
    then show ?thesis using loop unfolding n_def [symmetric] Let_def by (simp add: level_indent_def mem_simps)
  qed
qed

lemma indented_result:
  "indented level line = (if level < 4096 then put (replicate (2 * nat level) 32 @ line) else ([], Crash))"
proof -
  have min: "min (nat level) ((length (replicate BUFSIZ (0 :: byte)) + 1) div 2) = (if level < 4096 then nat level else 4096)"
    by (auto simp: min_def BUFSIZ_def)
  have "takeWhile (\<lambda>b. b \<noteq> 0) (replicate n (32 :: byte) @ 0 # xs) = replicate n 32" for n xs
    by (induction n) simp_all
  then have "takeWhile (\<lambda>b. b \<noteq> 0) (overlay (replicate BUFSIZ (0 :: byte)) 0 (replicate n 32 @ [0])) = replicate n 32" for n
    by (simp add: overlay_def)
  then show ?thesis
    using level_indent_written [of "replicate BUFSIZ 0" level]
    unfolding min by (auto simp: indented_def Let_def BUFSIZ_def)
qed

text \<open>
  The indentation is two blanks for each level, but not more than the size of the buffer, and a
  null; if the blanks fill the buffer, the null is written behind it.
\<close>
theorem level_indent_result:
  "level_indent indent (length indent) level =
     (let n = 2 * min (nat level) ((length indent + 1) div 2)
      in if n < length indent then Ret (overlay indent 0 (replicate n 32 @ [0])) else Crash)"
  by (rule level_indent_written)

section \<open>How deep a listing goes\<close>

text \<open>
  The levels of indentation a listing needs, and that no call fails. What is of no type is not
  listed in an array.
\<close>

fun levels :: "resource \<Rightarrow> nat" and levels_array :: "resource list \<Rightarrow> nat" and levels_table :: "entry list \<Rightarrow> nat"
where
  "levels (R_array xs e) = levels_array xs"
| "levels (R_table xs e) = levels_table xs"
| "levels _ = 0"
| "levels_array [] = 0"
| "levels_array (r # rs) = (if r = R_none then levels_array rs else max (Suc (levels r)) (levels_array rs))"
| "levels_table [] = 0"
| "levels_table (Entry k r # rs) = max (Suc (levels r)) (levels_table rs)"

fun no_failure :: "resource \<Rightarrow> bool" and no_failure_array :: "resource list \<Rightarrow> bool"
  and no_failure_table :: "entry list \<Rightarrow> bool"
where
  "no_failure (R_alias a) \<longleftrightarrow> (\<exists>s. a = Answer s)"
| "no_failure (R_string a) \<longleftrightarrow> (\<exists>s. a = Answer s)"
| "no_failure (R_int a) \<longleftrightarrow> (\<exists>n. a = Answer n)"
| "no_failure (R_array xs e) \<longleftrightarrow> e = None \<and> no_failure_array xs"
| "no_failure (R_table xs e) \<longleftrightarrow> e = None \<and> no_failure_table xs"
| "no_failure _ \<longleftrightarrow> True"
| "no_failure_array [] \<longleftrightarrow> True"
| "no_failure_array (r # rs) \<longleftrightarrow> no_failure r \<and> no_failure_array rs"
| "no_failure_table [] \<longleftrightarrow> True"
| "no_failure_table (Entry k r # rs) \<longleftrightarrow> no_failure r \<and> no_failure_table rs"

lemma snd_then_list: "snd (then_list a b) = obind (snd a) (\<lambda>_. snd b)"
  by (simp add: then_list_def split: outcome.split)

lemma snd_put [simp]: "snd (put line) = Ret ()"
  by (simp add: put_def)

lemma snd_indented: "snd (indented level line) = (if level < 4096 then Ret () else Crash)"
  by (simp add: indented_result)

lemma flag_check_all: "all flag = 1 \<Longrightarrow> flag_check r flag = ures_getType r"
  by (simp add: flag_check_def Let_def)

lemma listed: "ures_getType r = URES_NONE \<longleftrightarrow> r = R_none"
  by (cases r) simp_all

lemma listing_depth:
  "all flag = 1 \<Longrightarrow> no_failure r \<Longrightarrow> 0 \<le> l \<Longrightarrow>
   snd (flag_res_display flag l r) = (if levels r = 0 \<or> l + 1 + int (levels r) \<le> 4096 then Ret () else Crash)"
  "all flag = 1 \<Longrightarrow> no_failure_array rs \<Longrightarrow> 0 \<le> l \<Longrightarrow>
   snd (list_array_resources flag l i rs None) =
     (if levels_array rs = 0 \<or> l + int (levels_array rs) \<le> 4096 then Ret () else Crash)"
  "all flag = 1 \<Longrightarrow> no_failure_table es \<Longrightarrow> 0 \<le> l \<Longrightarrow>
   snd (list_table_entries flag l es None) =
     (if levels_table es = 0 \<or> l + int (levels_table es) \<le> 4096 then Ret () else Crash)"
proof (induction r and rs and es arbitrary: l and l i and l rule: levels_levels_array_levels_table.induct)
qed (auto simp: snd_then_list snd_indented flag_check_all listed)

text \<open>
  With everything to be shown and no call that fails, listing a table runs to its end exactly when
  its nesting fits into the buffer for the indentation: 4096 levels of two blanks. With one level
  more the listing writes behind the buffer.
\<close>
theorem listing_runs_iff_shallow:
  assumes "all flag = 1" and "no_failure_table entries"
  shows "snd (list_table_resources entries None (Some flag) (int level)) =
    (if entries = [] \<or> level + levels_table entries \<le> 4096 then Ret () else Crash)"
proof -
  have "levels_table entries = 0 \<longleftrightarrow> entries = []" by (cases entries rule: levels_table.cases) auto
  with listing_depth(3) [OF assms, of "int level"] show ?thesis by (simp add: list_table_resources_def)
qed

definition show_all :: res_disp_flag where
  "show_all = \<lparr>all = 1, help = 0, version = 0, only_locale = 0, badopt = 0, tables = 0, arrays = 0,
     strings = 0, binaries = 0, aliases = 0, integers = 0, vectors = 0\<rparr>"

theorem listing_runs_iff_shallow_witness:
  "snd (list_table_resources [Entry [65] (R_array [R_string (Answer [66])] None)] None (Some show_all) (int 4095)) =
    (if [Entry [65] (R_array [R_string (Answer [66])] None)] = []
       \<or> 4095 + levels_table [Entry [65] (R_array [R_string (Answer [66])] None)] \<le> 4096 then Ret () else Crash)"
  by (rule listing_runs_iff_shallow) (simp_all add: show_all_def)

text \<open>The flags do not keep an entry of a table from being listed, only its value.\<close>

lemma table_lists_hidden_entries:
  "all flag = 0 \<Longrightarrow> strings flag = 0 \<Longrightarrow>
   list_table_resources [Entry k (R_string (Answer s))] None (Some flag) 0 =
     ([(Stdout, k @ text_bytes '' - '' @ text_bytes ''URES_STRING'' @ newline)], Ret ())"
  by (simp add: list_table_resources_def then_list_def indented_result put_def flag_check_def Let_def
      get_resource_type_def)

end
