(* ===== verification/Main_Program.thy ===== *)
theory Main_Program
  imports Init Oly_Basic Tag Resource_Listing Oly_Yaml
begin

text \<open>
  What is left of the program around its components: \<^verbatim>\<open>main.c\<close>, the rules for breaking text of
  \<^verbatim>\<open>get_rules.c\<close>, and \<^verbatim>\<open>debug/print_config.c\<close>. Conversions of ICU are parameters.
\<close>

section \<open>main.c\<close>

definition test_tags :: "string list" where
  "test_tags = [''NULL'', ''Null'', ''null'', ''~'']"

definition tag_type_list :: "string list" where
  "tag_type_list = [''OLY_TAG_SCALAR_NULL'', ''OLY_TAG_SCALAR_BOOL'', ''OLY_TAG_SCALAR_INT'',
     ''OLY_TAG_SCALAR_UINT'', ''OLY_TAG_SCALAR_FLOAT'', ''OLY_TAG_SCALAR_INFINITY'',
     ''OLY_TAG_SCALAR_NOT_A_NUMBER'', ''OLY_TAG_SCALAR_STRING'']"

text \<open>
  The loop over the test tags: \<open>convert\<close> gives what \<^verbatim>\<open>u_strFromUTF8\<close> leaves in the buffer and its
  status. The result is what has been printed, with the code of a call of \<^verbatim>\<open>exit\<close> or the status
  after the last tag. A tag that is not found keeps the type of the one before.
\<close>

fun main_tags ::
  "(string \<Rightarrow> ochar list \<times> int) \<Rightarrow> (int \<Rightarrow> byte list) \<Rightarrow> tag_lib \<Rightarrow> string list \<Rightarrow> OlyStatus \<Rightarrow> int \<Rightarrow>
   console \<Rightarrow> (console \<times> (nat + OlyStatus)) outcome"
where
  "main_tags convert u_errorName lib [] status tag_type out = Ret (out, Inr status)"
| "main_tags convert u_errorName lib (t # ts) status tag_type out =
     (case convert t of (test_buffer, u_status) \<Rightarrow>
        if U_FAILURE u_status then
          Ret (out @ [(Stdout, text_bytes ''Error test_buffer '' @ u_errorName u_status @ text_bytes ''.'' @ newline)],
            Inl 1)
        else
          obind (infer_simple_tag lib test_buffer) (\<lambda>(status, found).
          let tag_type = (case found of Some k \<Rightarrow> k | None \<Rightarrow> tag_type)
          in if 0 \<le> tag_type \<and> tag_type < int (length tag_type_list) then
               main_tags convert u_errorName lib ts status tag_type
                 (out @ [(Stdout, text_bytes (''Record: '' @ t @ '', tag type: '' @ tag_type_list ! nat tag_type)
                    @ newline)])
             else Crash))"

text \<open>
  The process: \<open>start\<close> is the answer of \<open>init_oly\<close>, whose status is overwritten; \<open>locales\<close> is the
  listing of a build for developers, \<open>None\<close> in another one. The result is the output and the code
  the process ends with.
\<close>

definition oly_main ::
  "(OlyStatus \<times> 'o) outcome \<Rightarrow> (string \<Rightarrow> ochar list \<times> int) \<Rightarrow> (int \<Rightarrow> byte list) \<Rightarrow>
   (OlyStatus \<Rightarrow> byte list) \<Rightarrow> tag_lib \<Rightarrow> listing option \<Rightarrow> (console \<times> nat) outcome" where
  "oly_main start convert u_errorName message lib locales =
     obind start (\<lambda>(status, oly).
     obind (main_tags convert u_errorName lib test_tags status (tag_code OLY_TAG_TYPE_UNSET) []) (\<lambda>(out, result).
     case result of
       Inl n \<Rightarrow> Ret (out, n)
     | Inr status \<Rightarrow>
         (case locales of
           Some (listed, Halt) \<Rightarrow> Ret (out @ listed, 1)
         | Some (listed, Crash) \<Rightarrow> Crash
         | _ \<Rightarrow>
             let out = out @ (case locales of Some (listed, _) \<Rightarrow> listed | None \<Rightarrow> [])
             in if status \<noteq> OLY_OKAY then Ret (out @ [(U_stderr, message status)], 1) else Ret (out, 0))))"

section \<open>get_rules.c\<close>

text \<open>
  Answers of the file system and of ICU: the bytes of the file with those that \<^verbatim>\<open>fread\<close> delivers, the
  signature found at the start, the converter, the characters \<^verbatim>\<open>u_file_read\<close> stores when it is asked
  for so many, and the iterator compiled from the rules.
\<close>

record 'i rules_host =
  rules_file :: "(nat \<times> byte list) option"
  detect_signature :: "byte list \<Rightarrow> int \<Rightarrow> string option \<times> nat \<times> int"
  open_converter :: "string option \<Rightarrow> int \<Rightarrow> int"
  read_uchars :: "nat \<Rightarrow> ochar16 list"
  open_rules :: "ochar16 list \<Rightarrow> int \<Rightarrow> 'i \<times> int"

definition get_rules ::
  "(nat \<Rightarrow> bool) \<Rightarrow> (nat \<Rightarrow> byte) \<Rightarrow> 'i rules_host \<Rightarrow> int \<Rightarrow> 'i outcome" where
  "get_rules av junk w status =
     (case rules_file w of
        None \<Rightarrow> Halt
      | Some (ruleFileSize, got) \<Rightarrow>
          obind (omalloc av junk (ruleFileSize + 1)) (\<lambda>ruleBufferC.
          obind (poke ruleBufferC ruleFileSize 0) (\<lambda>ruleBufferC.
          obind (write_block ruleBufferC 0 got) (\<lambda>ruleBufferC.
          if length got \<noteq> ruleFileSize then Halt
          else
            case detect_signature w (take ruleFileSize ruleBufferC) status of (encoding, signatureLength, status) \<Rightarrow>
              if U_FAILURE status then Halt
              else
                let ruleFileSize = (if encoding \<noteq> None then ruleFileSize - signatureLength else ruleFileSize);
                    status = open_converter w encoding status
                in if U_FAILURE status then Halt
                   else
                     obind (omalloc av junk (ruleFileSize * 2 + 1)) (\<lambda>ruleSourceU.
                     let chars = read_uchars w ruleFileSize
                     in obind (write_block ruleSourceU 0 (ochar_bytes chars)) (\<lambda>ruleSourceU.
                        obind (write_block ruleSourceU (2 * length chars) [0, 0]) (\<lambda>ruleSourceU.
                        case open_rules w (ochars (take (2 * ruleFileSize) ruleSourceU)) status of (rules, status) \<Rightarrow>
                          if U_FAILURE status then Halt else Ret rules)))))))"

section \<open>debug/print_config.c\<close>

text \<open>What a token prints; \<open>is_key\<close> is the member of the mark.\<close>

fun print_config_token :: "bool \<Rightarrow> yaml_token \<Rightarrow> console" where
  "print_config_token is_key YAML_STREAM_START_TOKEN = put_line ''STREAM START''"
| "print_config_token is_key YAML_STREAM_END_TOKEN = put_line ''STREAM END''"
| "print_config_token is_key YAML_VERSION_DIRECTIVE_TOKEN = put_line ''VERSION DIRECTIVE TOKEN''"
| "print_config_token is_key YAML_TAG_DIRECTIVE_TOKEN = put_line ''TAG DIRECTIVE TOKEN''"
| "print_config_token is_key YAML_DOCUMENT_START_TOKEN = put_line ''DOCUMENT START''"
| "print_config_token is_key YAML_DOCUMENT_END_TOKEN = put_line ''DOCUMENT END''"
| "print_config_token is_key YAML_BLOCK_SEQUENCE_START_TOKEN = put_line ''BLOCK SEQUENCE START''"
| "print_config_token is_key YAML_BLOCK_MAPPING_START_TOKEN = put_line ''BLOCK MAPPING START''"
| "print_config_token is_key YAML_BLOCK_END_TOKEN = put_line ''BLOCK END''"
| "print_config_token is_key YAML_FLOW_SEQUENCE_START_TOKEN = put_line ''FLOW SEQUENCE START''"
| "print_config_token is_key YAML_FLOW_SEQUENCE_END_TOKEN = put_line ''FLOW SEQUENCE END''"
| "print_config_token is_key YAML_FLOW_MAPPING_START_TOKEN = put_line ''FLOW MAPPING START''"
| "print_config_token is_key YAML_FLOW_MAPPING_END_TOKEN = put_line ''FLOW MAPPING END''"
| "print_config_token is_key YAML_BLOCK_ENTRY_TOKEN = put_line ''[Block Entry]''"
| "print_config_token is_key YAML_FLOW_ENTRY_TOKEN = put_line ''[Flow Entry]''"
| "print_config_token is_key (YAML_ALIAS_TOKEN _) = put_line ''al - i - as TOKEN!''"
| "print_config_token is_key (YAML_ANCHOR_TOKEN _) = put_line ''ANCHOR TOKEN!''"
| "print_config_token is_key (YAML_TAG_TOKEN _ _) = put_line ''TAG TOKEN!''"
| "print_config_token is_key (YAML_SCALAR_TOKEN s) =
     [(U_stdout, s @ (if is_key then text_bytes '' : '' else newline))]"
| "print_config_token is_key _ = []"

fun next_is_key :: "yaml_token \<Rightarrow> bool \<Rightarrow> bool" where
  "next_is_key YAML_KEY_TOKEN is_key = True"
| "next_is_key (YAML_SCALAR_TOKEN _) is_key = False"
| "next_is_key _ is_key = is_key"

text \<open>A parser that never delivers the end of its stream is read for ever.\<close>

fun print_config_tokens :: "bool \<Rightarrow> yaml_token option list \<Rightarrow> console \<Rightarrow> console outcome option" where
  "print_config_tokens is_key [] out = None"
| "print_config_tokens is_key (None # ts) out = Some Halt"
| "print_config_tokens is_key (Some t # ts) out =
     (if t = YAML_STREAM_END_TOKEN then Some (Ret (out @ print_config_token is_key t))
      else print_config_tokens (next_is_key t is_key) ts (out @ print_config_token is_key t))"

definition print_config ::
  "bool \<Rightarrow> bool \<Rightarrow> yaml_token option list \<Rightarrow> OlyStatus \<Rightarrow> (OlyStatus \<times> console) outcome option" where
  "print_config opened initialized tokens status =
     (if status \<noteq> OLY_OKAY then Some (Ret (status, []))
      else
        let status = (if \<not> opened then OLY_ERR_CONFIG_FILE_NOT_FOUND else status)
        in if \<not> initialized then Some (Ret (OLY_ERR_LIBYAML_INIT, []))
           else yaml_input_ofile opened
             (rbind (print_config_tokens False tokens []) (\<lambda>out. Some (Ret (status, out)))))"

text \<open>
  The block with the return belongs to no condition: after the path has been built the function
  gives up.
\<close>

definition find_config_file ::
  "(nat \<Rightarrow> bool) \<Rightarrow> (nat \<Rightarrow> byte) \<Rightarrow> byte list option \<Rightarrow> nat option outcome" where
  "find_config_file av junk home =
     (case home of
        None \<Rightarrow> Crash
      | Some dir \<Rightarrow>
          obind (omalloc av junk (length dir + 8)) (\<lambda>fpath.
          obind (write_block fpath 0 (dir @ [47, 46] @ olyrc @ [0])) (\<lambda>fpath. Ret None)))"

section \<open>Properties\<close>

lemma main_tags_null:
  assumes "lib_ok lib" and "\<forall>t\<in>set ts. \<exists>rest. convert t = (map code t @ 0 # rest, 0)"
    and "set ts \<subseteq> {''NULL'', ''Null'', ''null'', ''~''}"
  shows "main_tags convert u_errorName lib ts status tag_type out = Ret
    (out @ map (\<lambda>t. (Stdout, text_bytes (''Record: '' @ t @ '', tag type: OLY_TAG_SCALAR_NULL'') @ newline)) ts,
     Inr (if ts = [] then status else OLY_OKAY))"
  using assms(2,3)
proof (induction ts arbitrary: status tag_type out)
  case (Cons t ts)
  obtain rest where rest: "convert t = (map code t @ 0 # rest, 0)" using Cons.prems(1) by auto
  have null: "map code t \<in> map code ` {[], ''null'', ''Null'', ''NULL'', ''~''}" using Cons.prems(2) by auto
  have "0 \<notin> set (map code t)" using Cons.prems(2) by (auto simp: code_def)
  from infer_classifies [OF assms(1) this, of rest]
  have "infer_simple_tag lib (map code t @ 0 # rest) = Ret (OLY_OKAY, Some 0)"
    using null by (simp add: classify_def)
  then show ?case using Cons.IH Cons.prems rest by (simp add: U_FAILURE_def tag_type_list_def)
qed simp

text \<open>
  Main reports the tag for null for each of its four test tags and ends with success, whatever
  status \<open>init_oly\<close> has returned: the inference overwrites it.
\<close>
theorem main_reports_null_tags:
  assumes "lib_ok lib" and "\<forall>t\<in>set test_tags. \<exists>rest. convert t = (map code t @ 0 # rest, 0)"
  shows "oly_main (Ret (status, oly)) convert u_errorName message lib None = Ret
    (map (\<lambda>t. (Stdout, text_bytes (''Record: '' @ t @ '', tag type: OLY_TAG_SCALAR_NULL'') @ newline)) test_tags, 0)"
  using main_tags_null [OF assms, of u_errorName status "tag_code OLY_TAG_TYPE_UNSET" "[]"]
  by (simp add: oly_main_def test_tags_def)

theorem main_reports_null_tags_witness:
  "oly_main (Ret (OLY_ERR_INIT, ())) (\<lambda>t. (map code t @ [0], 0)) (\<lambda>_. []) (\<lambda>_. []) sample_lib None = Ret
    (map (\<lambda>t. (Stdout, text_bytes (''Record: '' @ t @ '', tag type: OLY_TAG_SCALAR_NULL'') @ newline)) test_tags, 0)"
  by (rule main_reports_null_tags) (simp_all add: sample_lib_ok)

text \<open>
  The names of main lack one of the two infinities, so the ones behind are shifted, and a tag that is
  found to be a string has no name at all.
\<close>

lemma tag_names_are_shifted:
  "tag_type_list ! nat (tag_code OLY_TAG_SCALAR_MINUS_INFINITY) = ''OLY_TAG_SCALAR_NOT_A_NUMBER''"
  "tag_type_list ! nat (tag_code OLY_TAG_SCALAR_NOT_A_NUMBER) = ''OLY_TAG_SCALAR_STRING''"
  "\<not> tag_code OLY_TAG_SCALAR_STRING < int (length tag_type_list)"
  by (simp_all add: tag_type_list_def)

text \<open>
  The memory for the rules has room for the characters but for only half of the null behind
  them: when as many characters are read as the file has bytes, as with any text in a single-byte
  encoding, the null is written over the end of the block; with fewer the iterator is returned.
\<close>
theorem get_rules_overruns_unless_shorter:
  assumes "rules_file w = Some (n, got)" and "length got = n" and "av (n + 1)" and "\<And>k. av (k * 2 + 1)"
    and "detect_signature w got status = (encoding, signature, 0)" and "open_converter w encoding 0 = 0"
    and "len = (if encoding = None then n else n - signature)" and "length (read_uchars w len) \<le> len"
    and "\<And>rules. snd (open_rules w rules 0) = 0"
  shows "if length (read_uchars w len) = len then get_rules av junk w status = Crash
    else \<exists>rules. get_rules av junk w status = Ret (fst (open_rules w rules 0))"
proof -
  let ?chars = "read_uchars w len" and ?block = "map junk [0..<len * 2 + 1]"
  have buffer: "take n (overlay ((map junk [0..<n + 1])[n := 0]) 0 got) = got"
    using assms(2) by (simp add: overlay_def)
  have run: "get_rules av junk w status =
      obind (write_block ?block 0 (ochar_bytes ?chars)) (\<lambda>m.
      obind (write_block m (2 * length ?chars) [0, 0]) (\<lambda>m.
      case open_rules w (ochars (take (2 * len) m)) 0 of (rules, status) \<Rightarrow>
        if U_FAILURE status then Halt else Ret rules))"
    using assms(1-7) buffer
    by (simp add: get_rules_def omalloc_def mem_simps U_FAILURE_def Let_def if_distrib [of Some] del: upt_Suc)
  show ?thesis
  proof (cases "length ?chars = len")
    case True
    then show ?thesis unfolding run by (simp add: mem_simps write_block_def)
  next
    case False
    with assms(8) have "length ?chars < len" by simp
    then show ?thesis using assms(9) False unfolding run by (simp add: mem_simps U_FAILURE_def case_prod_beta) blast
  qed
qed

definition sample_rules :: "unit rules_host" where
  "sample_rules = \<lparr>rules_file = Some (3, [65, 66, 67]), detect_signature = (\<lambda>_ _. (None, 0, 0)),
     open_converter = (\<lambda>_ _. 0), read_uchars = (\<lambda>n. replicate n 65), open_rules = (\<lambda>_ _. ((), 0))\<rparr>"

theorem get_rules_overruns_unless_shorter_witness:
  "if length (read_uchars sample_rules 3) = 3 then get_rules (\<lambda>_. True) (\<lambda>_. 0) sample_rules 0 = Crash
    else \<exists>rules. get_rules (\<lambda>_. True) (\<lambda>_. 0) sample_rules 0 = Ret (fst (open_rules sample_rules rules 0))"
  by (rule get_rules_overruns_unless_shorter [where got = "[65, 66, 67]" and encoding = None and signature = 0])
    (simp_all add: sample_rules_def)

text \<open>The search for the configuration file never finds it, and a process without \<^verbatim>\<open>HOME\<close> faults.\<close>

lemma find_config_file_gives_up:
  "find_config_file av junk home = (case home of None \<Rightarrow> Crash | Some dir \<Rightarrow> if av (length dir + 8) then Ret None else Halt)"
  by (simp add: find_config_file_def omalloc_def write_block_def olyrc_def split: option.split)

end
