(* ===== verification/Print_Demo.thy ===== *)
theory Print_Demo
  imports Console
begin

text \<open>
  Printing the pieces of a text between the boundaries of a break iterator, from
  \<^verbatim>\<open>src/print_demo\<close>. The iterator of ICU is the record of its calls, which answer a position and the
  iterator as it is afterwards; \<open>chars\<close> is the conversion to bytes.
\<close>

definition UBRK_DONE :: int where
  "UBRK_DONE = - 1"

record 'b break_calls =
  ubrk_first :: "'b \<Rightarrow> int \<times> 'b"
  ubrk_last :: "'b \<Rightarrow> int \<times> 'b"
  ubrk_next :: "'b \<Rightarrow> int \<times> 'b"
  ubrk_previous :: "'b \<Rightarrow> int \<times> 'b"
  ubrk_following :: "'b \<Rightarrow> int \<Rightarrow> int \<times> 'b"

definition width2 :: "byte list \<Rightarrow> byte list" where
  "width2 s = replicate (2 - length s) 32 @ s"

definition range_line :: "int \<Rightarrow> int \<Rightarrow> byte list \<Rightarrow> byte list" where
  "range_line start till bytes =
     text_bytes ''string['' @ width2 (decimal_int start) @ text_bytes ''..'' @ width2 (decimal_int (till - 1))
     @ text_bytes (''] '' @ [CHR 34]) @ bytes @ text_bytes [CHR 34, CHR 10]"

text \<open>The character at the end is replaced by a null while the piece is copied.\<close>

definition print_text_range ::
  "(ochar16 list \<Rightarrow> byte list) \<Rightarrow> ochar16 list \<Rightarrow> int \<Rightarrow> int \<Rightarrow> (console \<times> ochar16 list) outcome" where
  "print_text_range chars str start till =
     (if till < 0 \<or> start < 0 then Crash
      else
        obind (peek str (nat till)) (\<lambda>savedEndChar.
        obind (poke str (nat till) 0) (\<lambda>str.
        if 0 \<notin> set (drop (nat start) str) then Crash
        else
          let charBuf = take 999 (chars (takeWhile (\<lambda>c. c \<noteq> 0) (drop (nat start) str)))
          in obind (poke str (nat till) savedEndChar) (\<lambda>str.
             Ret ([(Stdout, range_line start till (takeWhile (\<lambda>b. b \<noteq> 0) charBuf))], str)))))"

definition print_at ::
  "(ochar16 list \<Rightarrow> byte list) \<Rightarrow> 'b break_calls \<Rightarrow> 'b \<Rightarrow> int \<Rightarrow> ochar16 list \<Rightarrow> (console \<times> ochar16 list) outcome" where
  "print_at chars calls boundary pos str =
     (case ubrk_following calls boundary pos of (till, boundary) \<Rightarrow>
        print_text_range chars str (fst (ubrk_previous calls boundary)) till)"

definition print_first ::
  "(ochar16 list \<Rightarrow> byte list) \<Rightarrow> 'b break_calls \<Rightarrow> 'b \<Rightarrow> ochar16 list \<Rightarrow> (console \<times> ochar16 list) outcome" where
  "print_first chars calls boundary str =
     (case ubrk_first calls boundary of (start, boundary) \<Rightarrow>
        print_text_range chars str start (fst (ubrk_next calls boundary)))"

definition print_last ::
  "(ochar16 list \<Rightarrow> byte list) \<Rightarrow> 'b break_calls \<Rightarrow> 'b \<Rightarrow> ochar16 list \<Rightarrow> (console \<times> ochar16 list) outcome" where
  "print_last chars calls boundary str =
     (case ubrk_last calls boundary of (till, boundary) \<Rightarrow>
        print_text_range chars str (fst (ubrk_previous calls boundary)) till)"

text \<open>The loops; an iterator that never says that it is done keeps them from returning.\<close>

partial_function (option) forward_loop ::
  "(ochar16 list \<Rightarrow> byte list) \<Rightarrow> 'b break_calls \<Rightarrow> 'b \<Rightarrow> ochar16 list \<Rightarrow> int \<Rightarrow> console \<Rightarrow>
   (console \<times> ochar16 list) outcome option" where
  "forward_loop chars calls boundary str start out =
     (let till = fst (ubrk_next calls boundary)
      in if till \<noteq> UBRK_DONE then
           rbind (Some (print_text_range chars str start till)) (\<lambda>(printed, str).
           forward_loop chars calls (snd (ubrk_next calls boundary)) str till (out @ printed))
         else Some (Ret (out, str)))"

definition print_each_forward ::
  "(ochar16 list \<Rightarrow> byte list) \<Rightarrow> 'b break_calls \<Rightarrow> 'b \<Rightarrow> ochar16 list \<Rightarrow> (console \<times> ochar16 list) outcome option" where
  "print_each_forward chars calls boundary str =
     (case ubrk_first calls boundary of (start, boundary) \<Rightarrow> forward_loop chars calls boundary str start [])"

partial_function (option) backward_loop ::
  "(ochar16 list \<Rightarrow> byte list) \<Rightarrow> 'b break_calls \<Rightarrow> 'b \<Rightarrow> ochar16 list \<Rightarrow> int \<Rightarrow> console \<Rightarrow>
   (console \<times> ochar16 list) outcome option" where
  "backward_loop chars calls boundary str till out =
     (let start = fst (ubrk_previous calls boundary)
      in if start \<noteq> UBRK_DONE then
           rbind (Some (print_text_range chars str start till)) (\<lambda>(printed, str).
           backward_loop chars calls (snd (ubrk_previous calls boundary)) str start (out @ printed))
         else Some (Ret (out, str)))"

definition print_each_backward ::
  "(ochar16 list \<Rightarrow> byte list) \<Rightarrow> 'b break_calls \<Rightarrow> 'b \<Rightarrow> ochar16 list \<Rightarrow> (console \<times> ochar16 list) outcome option" where
  "print_each_backward chars calls boundary str =
     (case ubrk_last calls boundary of (till, boundary) \<Rightarrow> backward_loop chars calls boundary str till [])"

section \<open>What is printed\<close>

text \<open>
  The positions a call answers one after the other before it is done; for a text of bytes the
  conversion takes the low byte of each character.
\<close>

fun answers :: "('b \<Rightarrow> int \<times> 'b) \<Rightarrow> 'b \<Rightarrow> int list \<Rightarrow> bool" where
  "answers call b [] \<longleftrightarrow> fst (call b) = UBRK_DONE"
| "answers call b (p # ps) \<longleftrightarrow> fst (call b) = p \<and> answers call (snd (call b)) ps"

definition piece :: "(ochar16 list \<Rightarrow> byte list) \<Rightarrow> ochar16 list \<Rightarrow> int \<times> int \<Rightarrow> stream \<times> byte list" where
  "piece chars str = (\<lambda>(start, till). (Stdout, range_line start till (takeWhile (\<lambda>b. b \<noteq> 0)
     (take 999 (chars (takeWhile (\<lambda>c. c \<noteq> 0) (take (nat till - nat start) (drop (nat start) str))))))))"

lemma print_text_range_result:
  assumes "0 \<le> start" and "start \<le> till" and "nat till < length str"
  shows "print_text_range chars str start till = Ret ([piece chars str (start, till)], str)"
proof -
  let ?s = "nat start" and ?e = "nat till"
  have le: "?s \<le> ?e" using assms(2) by simp
  then have "drop ?s (str[?e := 0]) = take (?e - ?s) (drop ?s str) @ 0 # drop (Suc ?e) str"
    using assms(3) by (simp add: upd_conv_take_nth_drop drop_take)
  moreover have "takeWhile (\<lambda>c. c \<noteq> 0) (xs @ 0 # ys) = takeWhile (\<lambda>c. c \<noteq> 0) xs" for xs ys :: "ochar16 list"
    by (induction xs) auto
  ultimately show ?thesis
    using assms by (auto simp: print_text_range_def mem_simps piece_def Let_def)
qed

lemma forward_loop_result:
  assumes "answers (ubrk_next calls) boundary ps" and "\<forall>p\<in>set (start # ps). 0 \<le> p \<and> nat p < length str"
    and "sorted (start # ps)"
  shows "forward_loop chars calls boundary str start out =
    Some (Ret (out @ map (piece chars str) (zip (start # ps) ps), str))"
  using assms
proof (induction ps arbitrary: boundary start out)
  case Nil
  then show ?case by (subst forward_loop.simps) (simp add: Let_def)
next
  case (Cons p ps)
  then have "print_text_range chars str start p = Ret ([piece chars str (start, p)], str)"
    by (intro print_text_range_result) auto
  then show ?case
    using Cons by (subst forward_loop.simps) (auto simp: Let_def UBRK_DONE_def)
qed

text \<open>
  Printing forward prints one line for each pair of neighbouring boundaries, in order, with the
  positions and the text between them, and leaves the text as it was. The positions the iterator
  answers have to increase within the text.
\<close>
theorem print_each_forward_prints_pieces:
  assumes "fst (ubrk_first calls boundary) = start"
    and "answers (ubrk_next calls) (snd (ubrk_first calls boundary)) ps"
    and "\<forall>p\<in>set (start # ps). 0 \<le> p \<and> nat p < length str" and "sorted (start # ps)"
  shows "print_each_forward chars calls boundary str =
    Some (Ret (map (piece chars str) (zip (start # ps) ps), str))"
  using forward_loop_result [OF assms(2-4), of chars "[]"] assms(1)
  by (simp add: print_each_forward_def case_prod_beta)

definition sample_calls :: "int list break_calls" where
  "sample_calls = \<lparr>ubrk_first = (\<lambda>b. (0, b)), ubrk_last = (\<lambda>b. (0, b)),
     ubrk_next = (\<lambda>b. case b of [] \<Rightarrow> (UBRK_DONE, []) | p # ps \<Rightarrow> (p, ps)),
     ubrk_previous = (\<lambda>b. (UBRK_DONE, b)), ubrk_following = (\<lambda>b p. (p, b))\<rparr>"

theorem print_each_forward_prints_pieces_witness:
  "print_each_forward (map ucast) sample_calls [2, 3] [72, 105, 33, 0] =
    Some (Ret (map (piece (map ucast) [72, 105, 33, 0]) (zip [0, 2, 3] [2, 3]), [72, 105, 33, 0]))"
  by (rule print_each_forward_prints_pieces) (simp_all add: sample_calls_def)

end
