(* ===== verification/Error_Tables.thy ===== *)
theory Error_Tables
  imports Console
begin

text \<open>
  The replacements for \<^verbatim>\<open>strerror\<close> and \<^verbatim>\<open>strsignal\<close>, from \<^verbatim>\<open>src/lib/strerror.c\<close> and
  \<^verbatim>\<open>src/lib/strsignal.c\<close>, on a system without tables of its own (neither \<^verbatim>\<open>HAVE_SYS_ERRLIST\<close> nor
  \<^verbatim>\<open>HAVE_SYS_SIGLIST\<close>, nor the error number of VMS). Which of the names are defined, and by which
  numbers, is the parameter \<open>number\<close>.
\<close>

section \<open>The tables\<close>

definition first_errors :: "(string \<times> string) list" where
  "first_errors =
    [(''EPERM'', ''Not owner''),
     (''ENOENT'', ''No such file or directory''),
     (''ESRCH'', ''No such process''),
     (''EINTR'', ''Interrupted system call''),
     (''EIO'', ''I/O error''),
     (''ENXIO'', ''No such device or address''),
     (''E2BIG'', ''Arg list too long''),
     (''ENOEXEC'', ''Exec format error''),
     (''EBADF'', ''Bad file number''),
     (''ECHILD'', ''No child processes''),
     (''EWOULDBLOCK'', ''Operation would block''),
     (''EAGAIN'', ''No more processes''),
     (''ENOMEM'', ''Not enough space''),
     (''EACCES'', ''Permission denied''),
     (''EFAULT'', ''Bad address''),
     (''ENOTBLK'', ''Block device required''),
     (''EBUSY'', ''Device busy''),
     (''EEXIST'', ''File exists''),
     (''EXDEV'', ''Cross-device link''),
     (''ENODEV'', ''No such device''),
     (''ENOTDIR'', ''Not a directory''),
     (''EISDIR'', ''Is a directory''),
     (''EINVAL'', ''Invalid argument''),
     (''ENFILE'', ''File table overflow''),
     (''EMFILE'', ''Too many open files''),
     (''ENOTTY'', ''Not a typewriter''),
     (''ETXTBSY'', ''Text file busy''),
     (''EFBIG'', ''File too large''),
     (''ENOSPC'', ''No space left on device''),
     (''ESPIPE'', ''Illegal seek''),
     (''EROFS'', ''Read-only file system''),
     (''EMLINK'', ''Too many links''),
     (''EPIPE'', ''Broken pipe''),
     (''EDOM'', ''Math argument out of domain of func''),
     (''ERANGE'', ''Math result not representable''),
     (''ENOMSG'', ''No message of desired type''),
     (''EIDRM'', ''Identifier removed''),
     (''ECHRNG'', ''Channel number out of range''),
     (''EL2NSYNC'', ''Level 2 not synchronized''),
     (''EL3HLT'', ''Level 3 halted''),
     (''EL3RST'', ''Level 3 reset''),
     (''ELNRNG'', ''Link number out of range''),
     (''EUNATCH'', ''Protocol driver not attached''),
     (''ENOCSI'', ''No CSI structure available''),
     (''EL2HLT'', ''Level 2 halted'')]"

definition middle_errors :: "(string \<times> string) list" where
  "middle_errors =
    [(''EDEADLK'', ''Deadlock condition''),
     (''ENOLCK'', ''No record locks available''),
     (''EBADE'', ''Invalid exchange''),
     (''EBADR'', ''Invalid request descriptor''),
     (''EXFULL'', ''Exchange full''),
     (''ENOANO'', ''No anode''),
     (''EBADRQC'', ''Invalid request code''),
     (''EBADSLT'', ''Invalid slot''),
     (''EDEADLOCK'', ''File locking deadlock error''),
     (''EBFONT'', ''Bad font file format''),
     (''ENOSTR'', ''Device not a stream''),
     (''ENODATA'', ''No data available''),
     (''ETIME'', ''Timer expired''),
     (''ENOSR'', ''Out of streams resources''),
     (''ENONET'', ''Machine is not on the network''),
     (''ENOPKG'', ''Package not installed''),
     (''EREMOTE'', ''Object is remote''),
     (''ENOLINK'', ''Link has been severed''),
     (''EADV'', ''Advertise error''),
     (''ESRMNT'', ''Srmount error''),
     (''ECOMM'', ''Communication error on send''),
     (''EPROTO'', ''Protocol error''),
     (''EMULTIHOP'', ''Multihop attempted''),
     (''EDOTDOT'', ''RFS specific error''),
     (''EBADMSG'', ''Not a data message''),
     (''ENAMETOOLONG'', ''File name too long''),
     (''EOVERFLOW'', ''Value too large for defined data type''),
     (''ENOTUNIQ'', ''Name not unique on network''),
     (''EBADFD'', ''File descriptor in bad state''),
     (''EREMCHG'', ''Remote address changed''),
     (''ELIBACC'', ''Can not access a needed shared library''),
     (''ELIBBAD'', ''Accessing a corrupted shared library''),
     (''ELIBSCN'', ''.lib section in a.out corrupted''),
     (''ELIBMAX'', ''Attempting to link in too many shared libraries''),
     (''ELIBEXEC'', ''Cannot exec a shared library directly''),
     (''EILSEQ'', ''Illegal byte sequence''),
     (''ENOSYS'', ''Operation not applicable''),
     (''ELOOP'', ''Too many symbolic links encountered''),
     (''ERESTART'', ''Interrupted system call should be restarted''),
     (''ESTRPIPE'', ''Streams pipe error''),
     (''ENOTEMPTY'', ''Directory not empty''),
     (''EUSERS'', ''Too many users''),
     (''ENOTSOCK'', ''Socket operation on non-socket''),
     (''EDESTADDRREQ'', ''Destination address required''),
     (''EMSGSIZE'', ''Message too long'')]"

definition last_errors :: "(string \<times> string) list" where
  "last_errors =
    [(''EPROTOTYPE'', ''Protocol wrong type for socket''),
     (''ENOPROTOOPT'', ''Protocol not available''),
     (''EPROTONOSUPPORT'', ''Protocol not supported''),
     (''ESOCKTNOSUPPORT'', ''Socket type not supported''),
     (''EOPNOTSUPP'', ''Operation not supported on transport endpoint''),
     (''EPFNOSUPPORT'', ''Protocol family not supported''),
     (''EAFNOSUPPORT'', ''Address family not supported by protocol''),
     (''EADDRINUSE'', ''Address already in use''),
     (''EADDRNOTAVAIL'', ''Cannot assign requested address''),
     (''ENETDOWN'', ''Network is down''),
     (''ENETUNREACH'', ''Network is unreachable''),
     (''ENETRESET'', ''Network dropped connection because of reset''),
     (''ECONNABORTED'', ''Software caused connection abort''),
     (''ECONNRESET'', ''Connection reset by peer''),
     (''ENOBUFS'', ''No buffer space available''),
     (''EISCONN'', ''Transport endpoint is already connected''),
     (''ENOTCONN'', ''Transport endpoint is not connected''),
     (''ESHUTDOWN'', ''Cannot send after transport endpoint shutdown''),
     (''ETOOMANYREFS'', ''Too many references: cannot splice''),
     (''ETIMEDOUT'', ''Connection timed out''),
     (''ECONNREFUSED'', ''Connection refused''),
     (''EHOSTDOWN'', ''Host is down''),
     (''EHOSTUNREACH'', ''No route to host''),
     (''EALREADY'', ''Operation already in progress''),
     (''EINPROGRESS'', ''Operation now in progress''),
     (''ESTALE'', ''Stale NFS file handle''),
     (''EUCLEAN'', ''Structure needs cleaning''),
     (''ENOTNAM'', ''Not a XENIX named type file''),
     (''ENAVAIL'', ''No XENIX semaphores available''),
     (''EISNAM'', ''Is a named type file''),
     (''EREMOTEIO'', ''Remote I/O error'')]"

definition error_table :: "(string \<times> string) list" where
  "error_table = first_errors @ middle_errors @ last_errors"

definition signal_table :: "(string \<times> string) list" where
  "signal_table =
    [(''SIGHUP'', ''Hangup''),
     (''SIGINT'', ''Interrupt''),
     (''SIGQUIT'', ''Quit''),
     (''SIGILL'', ''Illegal instruction''),
     (''SIGTRAP'', ''Trace/breakpoint trap''),
     (''SIGIOT'', ''IOT trap''),
     (''SIGABRT'', ''Aborted''),
     (''SIGEMT'', ''Emulation trap''),
     (''SIGFPE'', ''Arithmetic exception''),
     (''SIGKILL'', ''Killed''),
     (''SIGBUS'', ''Bus error''),
     (''SIGSEGV'', ''Segmentation fault''),
     (''SIGSYS'', ''Bad system call''),
     (''SIGPIPE'', ''Broken pipe''),
     (''SIGALRM'', ''Alarm clock''),
     (''SIGTERM'', ''Terminated''),
     (''SIGUSR1'', ''User defined signal 1''),
     (''SIGUSR2'', ''User defined signal 2''),
     (''SIGCLD'', ''Child status changed''),
     (''SIGCHLD'', ''Child status changed''),
     (''SIGPWR'', ''Power fail/restart''),
     (''SIGWINCH'', ''Window size changed''),
     (''SIGURG'', ''Urgent I/O condition''),
     (''SIGIO'', ''I/O possible''),
     (''SIGPOLL'', ''Pollable event occurred''),
     (''SIGSTOP'', ''Stopped (signal)''),
     (''SIGTSTP'', ''Stopped (user)''),
     (''SIGCONT'', ''Continued''),
     (''SIGTTIN'', ''Stopped (tty input)''),
     (''SIGTTOU'', ''Stopped (tty output)''),
     (''SIGVTALRM'', ''Virtual timer expired''),
     (''SIGPROF'', ''Profiling timer expired''),
     (''SIGXCPU'', ''CPU time limit exceeded''),
     (''SIGXFSZ'', ''File size limit exceeded''),
     (''SIGWIND'', ''SIGWIND''),
     (''SIGPHONE'', ''SIGPHONE''),
     (''SIGLOST'', ''Resource lost''),
     (''SIGWAITING'', (''Process'' @ [CHR 39] @ ''s LWPs are blocked'')),
     (''SIGLWP'', ''Signal LWP''),
     (''SIGDANGER'', ''Swap space dangerously low''),
     (''SIGGRANT'', ''Monitor mode granted''),
     (''SIGRETRACT'', ''Need to relinguish monitor mode''),
     (''SIGMSG'', ''Monitor mode data available''),
     (''SIGSOUND'', ''Sound completed''),
     (''SIGSAK'', ''Secure attention'')]"

text \<open>The entries that are compiled: those whose name is defined, with their numbers.\<close>

definition entries :: "(string \<Rightarrow> int option) \<Rightarrow> (string \<times> string) list \<Rightarrow> (int \<times> string) list" where
  "entries number table = concat (map (\<lambda>(name, msg). case number name of Some v \<Rightarrow> [(v, msg)] | None \<Rightarrow> []) table)"

section \<open>Building them\<close>

text \<open>
  The static variables of both files: the number of names, the count, and the messages by number. The
  table of the names is never allocated, so every call looks whether there is something to be built.
\<close>

record message_table =
  num_names :: int
  sys_count :: int
  sys_list :: "string option list option"

definition no_messages :: message_table where
  "no_messages = \<lparr>num_names = 0, sys_count = 0, sys_list = None\<rparr>"

fun count_names :: "(int \<times> string) list \<Rightarrow> int \<Rightarrow> int" where
  "count_names [] n = n"
| "count_names ((v, msg) # es) n = count_names es (if v \<ge> n then v + 1 else n)"

fun store_messages :: "(int \<times> string) list \<Rightarrow> string option list \<Rightarrow> string option list outcome" where
  "store_messages [] l = Ret l"
| "store_messages ((v, msg) # es) l =
     (if v < 0 then Crash else obind (poke l (nat v) (Some msg)) (\<lambda>l. store_messages es l))"

definition init_tables :: "(int \<times> string) list \<Rightarrow> (nat \<Rightarrow> bool) \<Rightarrow> message_table \<Rightarrow> message_table outcome" where
  "init_tables es av st =
     (let st = (if num_names st = 0 then st\<lparr>num_names := count_names es (num_names st)\<rparr> else st)
      in if sys_list st = None then
           if av (nat (num_names st) * 8) then
             obind (store_messages es (replicate (nat (num_names st)) None)) (\<lambda>l.
             Ret (st\<lparr>sys_list := Some l, sys_count := num_names st\<rparr>))
           else Ret st
         else Ret st)"

definition init_error_tables ::
  "(string \<Rightarrow> int option) \<Rightarrow> (nat \<Rightarrow> bool) \<Rightarrow> message_table \<Rightarrow> message_table outcome" where
  "init_error_tables number av st = init_tables (entries number error_table) av st"

definition init_signal_tables ::
  "(string \<Rightarrow> int option) \<Rightarrow> (nat \<Rightarrow> bool) \<Rightarrow> message_table \<Rightarrow> message_table outcome" where
  "init_signal_tables number av st = init_tables (entries number signal_table) av st"

section \<open>Looking messages up\<close>

text \<open>The message found, \<open>None\<close> for a null pointer.\<close>

definition look_up :: "string \<Rightarrow> message_table \<Rightarrow> int \<Rightarrow> byte list option" where
  "look_up kind st n =
     (if n < 0 \<or> n \<ge> sys_count st then None
      else
        case sys_list st of
          None \<Rightarrow> Some (text_bytes kind @ decimal_int n)
        | Some l \<Rightarrow>
            case l ! nat n of
              None \<Rightarrow> Some (text_bytes kind @ decimal_int n)
            | Some msg \<Rightarrow> Some (text_bytes msg))"

definition strerror ::
  "(string \<Rightarrow> int option) \<Rightarrow> (nat \<Rightarrow> bool) \<Rightarrow> message_table \<Rightarrow> int \<Rightarrow> (byte list option \<times> message_table) outcome" where
  "strerror number av st errnoval =
     obind (init_error_tables number av st) (\<lambda>st. Ret (look_up ''Error '' st errnoval, st))"

definition strsignal ::
  "(string \<Rightarrow> int option) \<Rightarrow> (nat \<Rightarrow> bool) \<Rightarrow> message_table \<Rightarrow> int \<Rightarrow> (byte list option \<times> message_table) outcome" where
  "strsignal number av st signo =
     obind (init_signal_tables number av st) (\<lambda>st. Ret (look_up ''Signal '' st signo, st))"

section \<open>The messages are the ones of the tables\<close>

text \<open>What the tables say about a number: the last entry for it.\<close>

definition message_of :: "(int \<times> string) list \<Rightarrow> int \<Rightarrow> string option" where
  "message_of es n = map_of (rev es) n"

definition answer_for :: "string \<Rightarrow> (int \<times> string) list \<Rightarrow> int \<Rightarrow> byte list option" where
  "answer_for kind es n =
     (if n < 0 \<or> (\<forall>v\<in>fst ` set es. v < n) then None
      else Some (case message_of es n of Some msg \<Rightarrow> text_bytes msg | None \<Rightarrow> text_bytes kind @ decimal_int n))"

lemma count_names_result:
  "0 \<le> n \<Longrightarrow> n \<le> count_names es n"
  "\<forall>v\<in>fst ` set es. v < count_names es n"
  "k < count_names es n \<Longrightarrow> k < n \<or> (\<exists>v\<in>fst ` set es. k \<le> v)"
proof -
  show le: "n \<le> count_names es n" for n es by (induction es n rule: count_names.induct) (auto split: if_splits)
  show "\<forall>v\<in>fst ` set es. v < count_names es n"
  proof (induction es n rule: count_names.induct)
    case (2 v msg es n)
    moreover have "v < count_names es (if v \<ge> n then v + 1 else n)"
      using le [of "v + 1" es] le [of n es] by simp
    ultimately show ?case by simp
  qed simp
  show "k < count_names es n \<Longrightarrow> k < n \<or> (\<exists>v\<in>fst ` set es. k \<le> v)"
    by (induction es n rule: count_names.induct) (auto split: if_splits)
qed

lemma store_messages_result:
  assumes "\<forall>v\<in>fst ` set es. 0 \<le> v \<and> nat v < length l"
  shows "\<exists>l'. store_messages es l = Ret l' \<and> length l' = length l
    \<and> (\<forall>k<length l. l' ! k = (case message_of es (int k) of Some msg \<Rightarrow> Some msg | None \<Rightarrow> l ! k))"
  using assms
proof (induction es arbitrary: l)
  case (Cons e es)
  obtain v msg where e: "e = (v, msg)" by force
  from Cons.prems have v: "0 \<le> v" "nat v < length l" by (auto simp: e)
  with Cons.IH [of "l[nat v := Some msg]"] Cons.prems obtain l' where
    "store_messages es (l[nat v := Some msg]) = Ret l'" "length l' = length l"
    "\<forall>k<length l. l' ! k = (case message_of es (int k) of Some msg \<Rightarrow> Some msg | None \<Rightarrow> l[nat v := Some msg] ! k)"
    by auto
  with v show ?case
    by (auto simp: e mem_simps message_of_def map_add_def nth_list_update split: option.splits)
qed (simp add: message_of_def)

text \<open>The variables between two calls: nothing has been built, or the count, or everything.\<close>

definition table_ok :: "(int \<times> string) list \<Rightarrow> message_table \<Rightarrow> bool" where
  "table_ok es st \<longleftrightarrow>
     (num_names st = 0 \<or> num_names st = count_names es 0)
     \<and> (case sys_list st of
          None \<Rightarrow> sys_count st = 0
        | Some l \<Rightarrow> num_names st = count_names es 0 \<and> sys_count st = num_names st \<and> length l = nat (num_names st)
            \<and> (\<forall>k<length l. l ! k = message_of es (int k)))"

lemma init_tables_result:
  assumes ok: "table_ok es st" and pos: "\<forall>v\<in>fst ` set es. 0 \<le> v"
  obtains st' where "init_tables es av st = Ret st'" and "table_ok es st'"
    and "(\<forall>k. av k) \<Longrightarrow> sys_list st' \<noteq> None" and "sys_list st \<noteq> None \<Longrightarrow> st' = st"
proof (cases "sys_list st")
  case (Some l)
  with ok have "num_names st = count_names es 0" by (simp add: table_ok_def)
  with Some ok have "init_tables es av st = Ret st"
    by (cases "num_names st = 0") (simp_all add: init_tables_def Let_def)
  with Some ok that show ?thesis by simp
next
  case None
  define n where "n = count_names es 0"
  have num: "num_names (if num_names st = 0 then st\<lparr>num_names := count_names es (num_names st)\<rparr> else st) = n"
    using ok by (auto simp: table_ok_def n_def)
  have "\<forall>v\<in>fst ` set es. 0 \<le> v \<and> nat v < length (replicate (nat n) (None :: string option))"
  proof
    fix v
    assume "v \<in> fst ` set es"
    with pos count_names_result(2) [of es 0] have "0 \<le> v" "v < n" by (auto simp: n_def)
    then show "0 \<le> v \<and> nat v < length (replicate (nat n) (None :: string option))" by simp
  qed
  moreover have "(case x of Some msg \<Rightarrow> Some msg | None \<Rightarrow> y) = x" if "y = None" for x y :: "string option"
    using that by (cases x) simp_all
  ultimately obtain l where
    l: "store_messages es (replicate (nat n) None) = Ret l" "length l = nat n"
    "\<forall>k<nat n. l ! k = message_of es (int k)"
    using store_messages_result [of es "replicate (nat n) None"] by auto
  show ?thesis
  proof (cases "av (nat n * 8)")
    case True
    show ?thesis
      by (rule that [of "(if num_names st = 0 then st\<lparr>num_names := count_names es (num_names st)\<rparr> else st)
          \<lparr>sys_list := Some l, sys_count := n\<rparr>"])
        (use True None l ok num in \<open>auto simp: init_tables_def Let_def table_ok_def n_def\<close>)
  next
    case False
    show ?thesis
      by (rule that [of "if num_names st = 0 then st\<lparr>num_names := count_names es (num_names st)\<rparr> else st"])
        (use False None ok num in \<open>auto simp: init_tables_def Let_def table_ok_def n_def\<close>)
  qed
qed

lemma look_up_result:
  assumes "table_ok es st" and "sys_list st \<noteq> None" and "\<forall>v\<in>fst ` set es. 0 \<le> v"
  shows "look_up kind st n = answer_for kind es n"
proof -
  obtain l where l: "sys_list st = Some l" using assms(2) by auto
  have st: "sys_count st = count_names es 0" "length l = nat (count_names es 0)"
    "\<forall>k<length l. l ! k = message_of es (int k)"
    using assms(1) l by (simp_all add: table_ok_def)
  show ?thesis
  proof (cases "n < 0 \<or> n \<ge> count_names es 0")
    case True
    then have "n < 0 \<or> (\<forall>v\<in>fst ` set es. v < n)" using count_names_result(2) [of es 0] by fastforce
    with True st(1) show ?thesis by (simp add: look_up_def answer_for_def)
  next
    case False
    then have "\<not> (n < 0 \<or> (\<forall>v\<in>fst ` set es. v < n))" using count_names_result(3) [of n es 0] by fastforce
    moreover have "l ! nat n = message_of es n" using False st(2,3) by simp
    ultimately show ?thesis using False st(1) l
      by (simp add: look_up_def answer_for_def split: option.split)
  qed
qed

text \<open>
  After any calls before, as long as memory is available, \<^verbatim>\<open>strerror\<close> gives the message of the
  last entry that is defined by the number, the number itself in words if the table has a gap there,
  and nothing for a number out of its range; and the tables stay as they are for the next call.
\<close>
theorem strerror_finds_message:
  assumes "table_ok (entries number error_table) st" and "\<forall>v\<in>fst ` set (entries number error_table). 0 \<le> v"
    and "\<forall>k. av k"
  shows "\<exists>st'. strerror number av st n = Ret (answer_for ''Error '' (entries number error_table) n, st')
    \<and> table_ok (entries number error_table) st'"
proof -
  obtain st' where "init_tables (entries number error_table) av st = Ret st'"
    "table_ok (entries number error_table) st'" "sys_list st' \<noteq> None"
    using init_tables_result [OF assms(1,2), of av] assms(3) by metis
  with look_up_result [OF this(2,3) assms(2)] show ?thesis
    by (simp add: strerror_def init_error_tables_def)
qed

definition sample_number :: "string \<Rightarrow> int option" where
  "sample_number name = (if name = ''EPERM'' then Some 1 else if name \<in> {''EAGAIN'', ''EWOULDBLOCK''} then Some 11 else None)"

lemma sample_entries: "entries sample_number error_table = [(1, ''Not owner''), (11, ''Operation would block''), (11, ''No more processes'')]"
  by (simp add: entries_def error_table_def first_errors_def middle_errors_def last_errors_def sample_number_def)

theorem strerror_finds_message_witness:
  "\<exists>st'. strerror sample_number (\<lambda>_. True) no_messages 11 =
      Ret (answer_for ''Error '' (entries sample_number error_table) 11, st')
    \<and> table_ok (entries sample_number error_table) st'"
  by (rule strerror_finds_message) (simp_all add: sample_entries table_ok_def no_messages_def)

lemma strsignal_finds_message:
  assumes "table_ok (entries number signal_table) st" and "\<forall>v\<in>fst ` set (entries number signal_table). 0 \<le> v"
    and "\<forall>k. av k"
  shows "\<exists>st'. strsignal number av st n = Ret (answer_for ''Signal '' (entries number signal_table) n, st')
    \<and> table_ok (entries number signal_table) st'"
proof -
  obtain st' where "init_tables (entries number signal_table) av st = Ret st'"
    "table_ok (entries number signal_table) st'" "sys_list st' \<noteq> None"
    using init_tables_result [OF assms(1,2), of av] assms(3) by metis
  with look_up_result [OF this(2,3) assms(2)] show ?thesis
    by (simp add: strsignal_def init_signal_tables_def)
qed

end
