(* ===== verification/Char_Width.thy ===== *)
theory Char_Width
  imports Oly_Prelude
begin

text \<open>
  The columns a character takes on a terminal, from \<^verbatim>\<open>src/lib/wcwidth.c\<close> and \<^verbatim>\<open>src/lib/wcswidth.c\<close>. A
  character is the number of type \<^verbatim>\<open>wchar_t\<close>, which is signed.
\<close>

section \<open>Binary search\<close>

text \<open>An interval is the pair of its first and its last number.\<close>

function bisearch_loop :: "int \<Rightarrow> (int \<times> int) list \<Rightarrow> int \<Rightarrow> int \<Rightarrow> bool outcome" where
  "bisearch_loop ucs table mn mx =
     (if mn \<le> mx then
        let mid = (mn + mx) div 2
        in obind (peek table (nat mid)) (\<lambda>(first, last).
           if ucs > last then bisearch_loop ucs table (mid + 1) mx
           else if ucs < first then bisearch_loop ucs table mn (mid - 1)
           else Ret True)
      else Ret False)"
  by pat_completeness auto
termination by (relation "measure (\<lambda>(ucs, table, mn, mx). nat (mx - mn + 1))") auto

declare bisearch_loop.simps [simp del]

definition bisearch :: "int \<Rightarrow> (int \<times> int) list \<Rightarrow> nat \<Rightarrow> bool outcome" where
  "bisearch ucs table mx =
     obind (peek table 0) (\<lambda>low.
     obind (peek table mx) (\<lambda>high.
     if ucs < fst low \<or> ucs > snd high then Ret False else bisearch_loop ucs table 0 (int mx)))"

section \<open>Widths\<close>

definition combining :: "(int \<times> int) list" where
  "combining = [
     (0x0300, 0x036F), (0x0483, 0x0486), (0x0488, 0x0489), (0x0591, 0x05BD), (0x05BF, 0x05BF),
     (0x05C1, 0x05C2), (0x05C4, 0x05C5), (0x05C7, 0x05C7), (0x0600, 0x0603), (0x0610, 0x0615),
     (0x064B, 0x065E), (0x0670, 0x0670), (0x06D6, 0x06E4), (0x06E7, 0x06E8), (0x06EA, 0x06ED),
     (0x070F, 0x070F), (0x0711, 0x0711), (0x0730, 0x074A), (0x07A6, 0x07B0), (0x07EB, 0x07F3),
     (0x0901, 0x0902), (0x093C, 0x093C), (0x0941, 0x0948), (0x094D, 0x094D), (0x0951, 0x0954),
     (0x0962, 0x0963), (0x0981, 0x0981), (0x09BC, 0x09BC), (0x09C1, 0x09C4), (0x09CD, 0x09CD),
     (0x09E2, 0x09E3), (0x0A01, 0x0A02), (0x0A3C, 0x0A3C), (0x0A41, 0x0A42), (0x0A47, 0x0A48),
     (0x0A4B, 0x0A4D), (0x0A70, 0x0A71), (0x0A81, 0x0A82), (0x0ABC, 0x0ABC), (0x0AC1, 0x0AC5),
     (0x0AC7, 0x0AC8), (0x0ACD, 0x0ACD), (0x0AE2, 0x0AE3), (0x0B01, 0x0B01), (0x0B3C, 0x0B3C),
     (0x0B3F, 0x0B3F), (0x0B41, 0x0B43), (0x0B4D, 0x0B4D), (0x0B56, 0x0B56), (0x0B82, 0x0B82),
     (0x0BC0, 0x0BC0), (0x0BCD, 0x0BCD), (0x0C3E, 0x0C40), (0x0C46, 0x0C48), (0x0C4A, 0x0C4D),
     (0x0C55, 0x0C56), (0x0CBC, 0x0CBC), (0x0CBF, 0x0CBF), (0x0CC6, 0x0CC6), (0x0CCC, 0x0CCD),
     (0x0CE2, 0x0CE3), (0x0D41, 0x0D43), (0x0D4D, 0x0D4D), (0x0DCA, 0x0DCA), (0x0DD2, 0x0DD4),
     (0x0DD6, 0x0DD6), (0x0E31, 0x0E31), (0x0E34, 0x0E3A), (0x0E47, 0x0E4E), (0x0EB1, 0x0EB1),
     (0x0EB4, 0x0EB9), (0x0EBB, 0x0EBC), (0x0EC8, 0x0ECD), (0x0F18, 0x0F19), (0x0F35, 0x0F35),
     (0x0F37, 0x0F37), (0x0F39, 0x0F39), (0x0F71, 0x0F7E), (0x0F80, 0x0F84), (0x0F86, 0x0F87),
     (0x0F90, 0x0F97), (0x0F99, 0x0FBC), (0x0FC6, 0x0FC6), (0x102D, 0x1030), (0x1032, 0x1032),
     (0x1036, 0x1037), (0x1039, 0x1039), (0x1058, 0x1059), (0x1160, 0x11FF), (0x135F, 0x135F),
     (0x1712, 0x1714), (0x1732, 0x1734), (0x1752, 0x1753), (0x1772, 0x1773), (0x17B4, 0x17B5),
     (0x17B7, 0x17BD), (0x17C6, 0x17C6), (0x17C9, 0x17D3), (0x17DD, 0x17DD), (0x180B, 0x180D),
     (0x18A9, 0x18A9), (0x1920, 0x1922), (0x1927, 0x1928), (0x1932, 0x1932), (0x1939, 0x193B),
     (0x1A17, 0x1A18), (0x1B00, 0x1B03), (0x1B34, 0x1B34), (0x1B36, 0x1B3A), (0x1B3C, 0x1B3C),
     (0x1B42, 0x1B42), (0x1B6B, 0x1B73), (0x1DC0, 0x1DCA), (0x1DFE, 0x1DFF), (0x200B, 0x200F),
     (0x202A, 0x202E), (0x2060, 0x2063), (0x206A, 0x206F), (0x20D0, 0x20EF), (0x302A, 0x302F),
     (0x3099, 0x309A), (0xA806, 0xA806), (0xA80B, 0xA80B), (0xA825, 0xA826), (0xFB1E, 0xFB1E),
     (0xFE00, 0xFE0F), (0xFE20, 0xFE23), (0xFEFF, 0xFEFF), (0xFFF9, 0xFFFB), (0x10A01, 0x10A03),
     (0x10A05, 0x10A06), (0x10A0C, 0x10A0F), (0x10A38, 0x10A3A), (0x10A3F, 0x10A3F), (0x1D167,
     0x1D169), (0x1D173, 0x1D182), (0x1D185, 0x1D18B), (0x1D1AA, 0x1D1AD), (0x1D242, 0x1D244),
     (0xE0001, 0xE0001), (0xE0020, 0xE007F), (0xE0100, 0xE01EF)]"

definition is_wide :: "int \<Rightarrow> bool" where
  "is_wide ucs \<longleftrightarrow>
     ucs \<ge> 0x1100 \<and>
     (ucs \<le> 0x115f \<or> ucs = 0x2329 \<or> ucs = 0x232a
      \<or> ucs \<ge> 0x2e80 \<and> ucs \<le> 0xa4cf \<and> ucs \<noteq> 0x303f
      \<or> ucs \<ge> 0xac00 \<and> ucs \<le> 0xd7a3 \<or> ucs \<ge> 0xf900 \<and> ucs \<le> 0xfaff
      \<or> ucs \<ge> 0xfe10 \<and> ucs \<le> 0xfe19 \<or> ucs \<ge> 0xfe30 \<and> ucs \<le> 0xfe6f
      \<or> ucs \<ge> 0xff00 \<and> ucs \<le> 0xff60 \<or> ucs \<ge> 0xffe0 \<and> ucs \<le> 0xffe6
      \<or> ucs \<ge> 0x20000 \<and> ucs \<le> 0x2fffd \<or> ucs \<ge> 0x30000 \<and> ucs \<le> 0x3fffd)"

definition wcwidth :: "int \<Rightarrow> int outcome" where
  "wcwidth ucs =
     (if ucs = 0 then Ret 0
      else if ucs < 32 \<or> ucs \<ge> 0x7f \<and> ucs < 0xa0 then Ret (- 1)
      else
        obind (bisearch ucs combining (length combining - 1)) (\<lambda>found.
        if found then Ret 0 else Ret (1 + of_bool (is_wide ucs))))"

text \<open>
  The width of a text; \<open>mk_wcwidth\<close> is the name it calls, which is defined nowhere in the
  repository.
\<close>

fun wcswidth_loop :: "(int \<Rightarrow> int) \<Rightarrow> int list \<Rightarrow> nat \<Rightarrow> int \<Rightarrow> int outcome" where
  "wcswidth_loop mk_wcwidth [] n width = Crash"
| "wcswidth_loop mk_wcwidth (c # pwcs) n width =
     (if c = 0 then Ret width
      else if n = 0 then Ret width
      else if mk_wcwidth c < 0 then Ret (- 1)
      else wcswidth_loop mk_wcwidth pwcs (n - 1) (width + mk_wcwidth c))"

definition wcswidth :: "(int \<Rightarrow> int) \<Rightarrow> int list \<Rightarrow> nat \<Rightarrow> int outcome" where
  "wcswidth mk_wcwidth pwcs n = wcswidth_loop mk_wcwidth pwcs n 0"

section \<open>The search finds the intervals\<close>

text \<open>The intervals of a table are not empty, and each one ends before the next one begins.\<close>

fun increasing :: "(int \<times> int) list \<Rightarrow> bool" where
  "increasing [] \<longleftrightarrow> True"
| "increasing [i] \<longleftrightarrow> fst i \<le> snd i"
| "increasing (i # j # rest) \<longleftrightarrow> fst i \<le> snd i \<and> snd i < fst j \<and> increasing (j # rest)"

definition in_intervals :: "int \<Rightarrow> (int \<times> int) list \<Rightarrow> bool" where
  "in_intervals ucs table \<longleftrightarrow> (\<exists>i\<in>set table. fst i \<le> ucs \<and> ucs \<le> snd i)"

lemma increasing_nth:
  assumes "increasing table" and "i \<le> j" and "j < length table"
  shows "fst (table ! i) \<le> snd (table ! i)" "i < j \<Longrightarrow> snd (table ! i) < fst (table ! j)"
proof -
  have "i < length table \<Longrightarrow> fst (table ! i) \<le> snd (table ! i)
      \<and> (\<forall>j. i < j \<and> j < length table \<longrightarrow> snd (table ! i) < fst (table ! j))" for i
    using assms(1)
  proof (induction table arbitrary: i rule: increasing.induct)
    case (3 a b rest)
    show ?case
    proof (cases i)
      case 0
      have b: "fst b \<le> snd b" "\<forall>j. 0 < j \<and> j < length (b # rest) \<longrightarrow> snd b < fst ((b # rest) ! j)"
        using "3.IH" [of 0] "3.prems" by auto
      have "snd a < fst ((a # b # rest) ! j)" if j: "0 < j" "j < length (a # b # rest)" for j
      proof -
        obtain k where k: "j = Suc k" using j(1) by (cases j) auto
        then show ?thesis using b "3.prems" j(2) by (cases k) fastforce+
      qed
      with 0 "3.prems" show ?thesis by simp
    next
      case (Suc k)
      with "3.IH" [of k] "3.prems" show ?thesis by (auto simp: nth_Cons split: nat.splits)
    qed
  qed auto
  with assms(2,3) show "fst (table ! i) \<le> snd (table ! i)" "i < j \<Longrightarrow> snd (table ! i) < fst (table ! j)" by auto
qed

lemma increasing_mono:
  assumes "increasing table" and "i \<le> j" and "j < length table"
  shows "fst (table ! i) \<le> fst (table ! j)" "snd (table ! i) \<le> snd (table ! j)"
proof -
  have "i = j \<or> i < j" using assms(2) by auto
  moreover have "fst (table ! i) \<le> snd (table ! i)" "fst (table ! j) \<le> snd (table ! j)"
    using increasing_nth(1) [OF assms(1)] assms(2,3) by auto
  ultimately show "fst (table ! i) \<le> fst (table ! j)" "snd (table ! i) \<le> snd (table ! j)"
    using increasing_nth(2) [OF assms] by auto
qed

lemma bisearch_loop_result:
  assumes "increasing table" and "0 \<le> mn" and "mx < int (length table)"
    and "\<forall>k<length table. fst (table ! k) \<le> ucs \<and> ucs \<le> snd (table ! k) \<longrightarrow> mn \<le> int k \<and> int k \<le> mx"
  shows "bisearch_loop ucs table mn mx = Ret (in_intervals ucs table)"
  using assms
proof (induction ucs table mn mx rule: bisearch_loop.induct)
  case (1 ucs table mn mx)
  show ?case
  proof (cases "mn \<le> mx")
    case False
    then have "\<not> in_intervals ucs table"
      using "1.prems"(4) by (force simp: in_intervals_def in_set_conv_nth)
    with False show ?thesis by (subst bisearch_loop.simps) simp
  next
    case True
    define mid where "mid = (mn + mx) div 2"
    have mid: "mn \<le> mid" "mid \<le> mx" "nat mid < length table" using True "1.prems"(2,3) by (auto simp: mid_def)
    have step: "bisearch_loop ucs table mn mx =
        (if ucs > snd (table ! nat mid) then bisearch_loop ucs table (mid + 1) mx
         else if ucs < fst (table ! nat mid) then bisearch_loop ucs table mn (mid - 1)
         else Ret True)"
      using True mid(3) by (subst bisearch_loop.simps) (simp add: mid_def [symmetric] mem_simps case_prod_beta Let_def)
    have narrow: "\<forall>k<length table. fst (table ! k) \<le> ucs \<and> ucs \<le> snd (table ! k)
        \<longrightarrow> mid + 1 \<le> int k \<and> int k \<le> mx" if above: "ucs > snd (table ! nat mid)"
    proof (intro allI impI)
      fix k
      assume k: "k < length table" "fst (table ! k) \<le> ucs \<and> ucs \<le> snd (table ! k)"
      have "\<not> k \<le> nat mid"
        using increasing_mono(2) [OF "1.prems"(1) _ mid(3), of k] above k(2) by (intro notI) linarith
      then have "mid + 1 \<le> int k" by linarith
      with "1.prems"(4) k show "mid + 1 \<le> int k \<and> int k \<le> mx" by auto
    qed
    have narrow': "\<forall>k<length table. fst (table ! k) \<le> ucs \<and> ucs \<le> snd (table ! k)
        \<longrightarrow> mn \<le> int k \<and> int k \<le> mid - 1" if below: "ucs < fst (table ! nat mid)"
    proof (intro allI impI)
      fix k
      assume k: "k < length table" "fst (table ! k) \<le> ucs \<and> ucs \<le> snd (table ! k)"
      have "\<not> nat mid \<le> k"
        using increasing_mono(1) [OF "1.prems"(1) _ k(1), of "nat mid"] k(2) below by (intro notI) linarith
      then have "int k \<le> mid - 1" by linarith
      with "1.prems"(4) k show "mn \<le> int k \<and> int k \<le> mid - 1" by auto
    qed
    have low: "bisearch_loop ucs table (mid + 1) mx = Ret (in_intervals ucs table)"
      if "ucs > snd (table ! nat mid)"
      using "1.IH"(1) [OF True mid_def that] narrow [OF that] "1.prems" mid by simp
    have high: "bisearch_loop ucs table mn (mid - 1) = Ret (in_intervals ucs table)"
      if "\<not> ucs > snd (table ! nat mid)" "ucs < fst (table ! nat mid)"
      using "1.IH"(2) [OF True mid_def that] narrow' [OF that(2)] "1.prems" mid by simp
    have "in_intervals ucs table"
      if "\<not> ucs > snd (table ! nat mid)" "\<not> ucs < fst (table ! nat mid)"
      unfolding in_intervals_def using that mid(3) by (intro bexI [of _ "table ! nat mid"]) auto
    with step low high show ?thesis by auto
  qed
qed

lemma bisearch_result:
  assumes "increasing table" and "table \<noteq> []"
  shows "bisearch ucs table (length table - 1) = Ret (in_intervals ucs table)"
proof -
  have outside: "\<not> in_intervals ucs table"
    if "ucs < fst (table ! 0) \<or> ucs > snd (table ! (length table - 1))"
  proof
    assume "in_intervals ucs table"
    then obtain k where k: "k < length table" "fst (table ! k) \<le> ucs" "ucs \<le> snd (table ! k)"
      by (auto simp: in_intervals_def in_set_conv_nth)
    have "fst (table ! 0) \<le> fst (table ! k)"
      using increasing_mono(1) [OF assms(1), of 0 k] k(1) by auto
    moreover have "snd (table ! k) \<le> snd (table ! (length table - 1))"
      using increasing_mono(2) [OF assms(1), of k "length table - 1"] k(1) by auto
    ultimately show False using that k(2,3) by linarith
  qed
  have "bisearch_loop ucs table 0 (int (length table - 1)) = Ret (in_intervals ucs table)"
    using assms by (intro bisearch_loop_result) auto
  with outside assms(2) show ?thesis by (simp add: bisearch_def mem_simps)
qed

lemma combining_increasing: "increasing combining" "combining \<noteq> []"
  by (simp_all add: combining_def)

section \<open>Properties\<close>

text \<open>
  C26: The width of every character is decided without reading outside the table of combining
  characters: nothing for the null, minus one for a control character, nothing for a character of
  one of the intervals of the table, two for the wide ones and one for any other.
\<close>

theorem wcwidth_result:
  "wcwidth ucs = Ret
     (if ucs = 0 then 0
      else if ucs < 32 \<or> 0x7f \<le> ucs \<and> ucs < 0xa0 then - 1
      else if in_intervals ucs combining then 0
      else if is_wide ucs then 2 else 1)"
  by (simp add: wcwidth_def bisearch_result [OF combining_increasing] del: One_nat_def)

end
