(* ===== verification/Spec2Isabelle.thy ===== *)
theory Spec2Isabelle
  imports Oly_Status String_Buffer Node_Queue Queue_Machine Tag Hash Boundary Oly_Basic Data_Source Config Oly_Run Init Oly_Yaml Keccak_Inplace Keccak_Hash Keccak_Duplex Keccak_Compact
    Buffer_Machine Linked_List Search_Path Dl_Life Dl_Archive Getopt_Long Main_Program Print_Demo C_String Error_Tables Char_Width
begin

text \<open>
  Oly: a C program that pipes trees of nodes from one data source to another.

  \<^bold>\<open>The program.\<close> A data source (\<^verbatim>\<open>src/data_source\<close>) is driven by a dispatch function, which
  feeds it the keys and values a parser delivers. A key is staged, a string goes through the
  boundary (\<^verbatim>\<open>boundary.c\<close>), a block with one area for bytes of the outside encoding and one for
  the 16-bit characters they convert to, and the result is stored in the node of the data
  source. The main loop (\<^verbatim>\<open>src/core/oly_run.c\<close>) collects that node and copies it into the node
  queue (\<^verbatim>\<open>src/node/node_queue.c\<close>), a ring of slots whose strings live in the string buffer
  (\<^verbatim>\<open>src/core/string_buffer.c\<close>); at the other end nodes are to be dequeued and sent. Around this
  path are status codes and messages, the configuration, the start of the process, tags that
  infer the type of a scalar from its text, hash values, and helpers.

  \<^bold>\<open>Conventions.\<close> Code that can end the process or run into undefined behaviour has a result of
  type \<open>outcome\<close>: \<open>Ret\<close> for a return, \<open>Halt\<close> for an end the code asks for (a failed assertion,
  \<^verbatim>\<open>exit\<close>, \<^verbatim>\<open>abort\<close>), \<open>Crash\<close> for undefined behaviour. Objects are lists with checked accesses
  \<open>peek\<close> and \<open>poke\<close>; a pointer into an object is an offset, a pointer to a node an address in a
  heap, a pointer to a string outside the modelled buffers the memory it leads to. A function
  that changes a structure returns it. Sizes are natural numbers, with the wrap-around of
  \<^verbatim>\<open>size_t\<close> written out; characters, identifiers and depths are words of their width. Library
  code that is not part of the repository (ICU, libyaml, the C library where it talks to the
  system) is a parameter.

  \<^bold>\<open>Theories.\<close>
  \<^item> \<open>Oly_Prelude\<close>: outcomes, array objects, null-terminated strings, \<^verbatim>\<open>size_t\<close>, and the rewrite
    collections \<open>outcome_simps\<close>, \<open>mem_simps\<close> and \<open>size_simps\<close>.
  \<^item> \<open>Oly_Status\<close>: \<^verbatim>\<open>oly/olytypes.h\<close>, \<^verbatim>\<open>core/get_errmsg.c\<close>, \<^verbatim>\<open>data_source/get_ltdl_errmsg.c\<close> and the
    two message arrays of \<^verbatim>\<open>i18n/root.txt\<close>; the status codes are an instance of \<open>linorder\<close>.
  \<^item> \<open>Fifo_Spec\<close>: the locales \<open>fifo_core\<close> and \<open>bounded_fifo\<close>, the contracts of a first-in
    first-out store, with the calls it is made for (\<open>okay\<close>) and the contents there is room for (\<open>fits\<close>).
    \<open>String_Buffer\<close> and \<open>Node_Queue\<close> interpret them on the code's two queues.
  \<^item> \<open>String_Buffer\<close>: \<^verbatim>\<open>core/string_buffer.c\<close>. The two parts of the buffer and its four states, the
    invariant \<open>sb_inv\<close> and its preservation, the refinement of the ideal queue, and the cases
    where reserving and enqueuing disagree.
  \<^item> \<open>Node\<close> and \<open>Node_Queue\<close>: \<^verbatim>\<open>node/node.c\<close>, \<^verbatim>\<open>node/node_queue.c\<close>. Heap, accessors, the stack of
    ancestors; the ring, its invariant \<open>q_inv\<close>, what enqueue and dequeue do to the abstract list
    \<open>items\<close>, and the inputs they fail on. \<open>close_oly_ds_node\<close> takes the number of stack frames,
    \<open>close_stack\<close> a number of rounds; one round for each node of the stack is enough.
  \<^item> \<open>Tag\<close>: \<^verbatim>\<open>node/tag.c\<close>. Checks, imports and the inference, with the patterns of the resource
    bundle, as its compiler hands them over, given their meaning by predicates on the text.
  \<^item> \<open>Hash\<close>: \<^verbatim>\<open>src/hash\<close>, packing and the hexadecimal round trip.
  \<^item> \<open>Boundary\<close>: \<^verbatim>\<open>data_source/boundary.c\<close>, byte for byte: layout, the invariant \<open>boundary_ok\<close>, and
    the way of a list of strings through both areas.
  \<^item> \<open>Oly_Basic\<close>: \<^verbatim>\<open>core/oly_mem_string.c\<close> and the conversions of \<^verbatim>\<open>core/basic_functions.c\<close>.
  \<^item> \<open>Data_Source\<close>: \<^verbatim>\<open>data_source/data_source.c\<close>. Options, staging a key, and \<open>enqueue_ds_node\<close>
    cut into the parts of the C function; \<open>enqueue_steps\<close> composes them for the proofs.
  \<^item> \<open>Config\<close>: \<^verbatim>\<open>core/config.c\<close>. A YAML parser is the list of its answers; \<open>complete\<close> says which
    files are read to the end of their stream.
  \<^item> \<open>Oly_Run\<close>: resources, state, the global object, \<^verbatim>\<open>core/dispatch.c\<close> and \<^verbatim>\<open>core/oly_run.c\<close>. The two
    loops take fuel; one round more than there are nodes is enough for a finite input.
  \<^item> \<open>Init\<close>: \<^verbatim>\<open>core/init_oly.c\<close>. The clean environment as one packed block, the descriptors, and the
    sequence of the start; the operating system, ICU and the allocator are the record \<open>host\<close>, in which a
    block may be larger than what was asked for.
  \<^item> \<open>Console\<close>: \<^verbatim>\<open>debug/bash_printing.c\<close>, what is printed and on which stream.
  \<^item> \<open>Oly_Yaml\<close>: \<^verbatim>\<open>data_source/oly_yaml.c\<close>. Printing events and tokens, and the preflight counts. A loop
    over a parser that goes on behind the end of its stream has the result \<open>None\<close>; the recursion over
    levels is a \<^verbatim>\<open>partial_function\<close>, proved to return for every stream that ends.
  \<^item> \<open>Keccak_F\<close>, \<open>Keccak_Inplace\<close>, \<open>Keccak_Opt64\<close>: the permutation of \<^verbatim>\<open>lib/sha_three\<close>. The reference
    \<open>keccak_f\<close> computes its rotations from the walk over the coordinates and its constants from the
    shift register; \<^verbatim>\<open>Keccak-simple.c\<close>, \<^verbatim>\<open>Keccak-compact.c\<close> and \<^verbatim>\<open>Keccak-inplace.c\<close> equal it, and
    \<^verbatim>\<open>KeccakF-1600-opt64.c\<close> equals it up to the six lanes it keeps complemented (\<open>masked\<close>).
  \<^item> \<open>Keccak_Sponge\<close>, \<open>Keccak_Hash\<close>: \<^verbatim>\<open>KeccakSponge.c\<close> and \<^verbatim>\<open>KeccakNISTInterface.c\<close> over any provider of
    \<^verbatim>\<open>KeccakF-1600-interface.h\<close> (locale \<open>keccak_provider\<close>, interpreted on opt64): absorbing, padding and
    squeezing follow the sponge on bits. The loops over lengths are partial functions.
  \<^item> \<open>Keccak_Duplex\<close>, \<open>Keccak_Compact\<close>: \<^verbatim>\<open>KeccakDuplex.c\<close>, whose calls are a sponge over the padded inputs, and the sponges
    written around one \<^verbatim>\<open>KeccakF\<close> in \<^verbatim>\<open>Keccak-simple.c\<close>, \<^verbatim>\<open>Keccak-compact.c\<close> and \<^verbatim>\<open>Keccak-inplace.c\<close>; the compact
    one keeps its queue inside the state (\<open>mixed\<close>) and agrees with the NIST interface.
  \<^item> \<open>Buffer_Machine\<close>: the string buffer as a state machine. \<open>sb_step\<close> is one call of an operation, \<open>sb_run\<close> a
    run of a careful client; the invariant holds along runs, every string gets out, and the one
    interleaving a careful client avoids delivers a string twice.
  \<^item> \<open>Queue_Machine\<close>: the node queue as a state machine, with nodes of any level. \<open>nq_step\<close> is one call,
    \<open>nq_run\<close> a run of a client that keeps to the levels and to the room of the string buffer; runs stay
    well formed and every accepted node comes out, with its strings.
  \<^item> \<open>Resource_Listing\<close>, \<open>Print_Demo\<close>: the listings of \<^verbatim>\<open>src/debug\<close> and the demonstrations of
    \<^verbatim>\<open>src/print_demo\<close>; bundles and iterators of ICU are trees and lists of answers.
  \<^item> \<open>Main_Program\<close>: \<^verbatim>\<open>main.c\<close>, \<^verbatim>\<open>get_rules.c\<close> and \<^verbatim>\<open>debug/print_config.c\<close>.
  \<^item> \<open>C_String\<close>, \<open>Error_Tables\<close>, \<open>Char_Width\<close>, \<open>Getopt_Long\<close>: the replacements under \<^verbatim>\<open>lib\<close> for functions of the C
    library: copying, spans and tokens, the messages of errors and signals, the widths of characters,
    and the parser of arguments, compared with a direct reading of the words.
  \<^item> \<open>Linked_List\<close>, \<open>Argz\<close>: \<^verbatim>\<open>slist.c\<close> and \<^verbatim>\<open>argz.c\<close> of \<^verbatim>\<open>lib/libltdl\<close>. The lists are chains of items in a store, and
    sorting relinks them in the order of \<open>sort_key\<close>; the loops along pointers are partial functions.
  \<^item> \<open>Ltdl_Base\<close>, \<open>Search_Path\<close>: the messages, the memory and the bounded copies of libltdl, and the search path of
    \<^verbatim>\<open>ltdl.c\<close>. A path in memory is compared with a list of directories (\<open>holds_path\<close>): the calls that change
    it do to the list what they say, and the walk over it visits the directories but the root, in order.
  \<^item> \<open>Dl_Handles\<close>, \<open>Dl_Life\<close>, \<open>Dl_Archive\<close>: the loaders (\<^verbatim>\<open>lt_dlloader.c\<close>) and the open modules of \<^verbatim>\<open>ltdl.c\<close>. Handles are a
    chain whose members count references; \<open>handles_ok\<close> says that every count is the number of modules that
    depend on the handle and of the references the program has, and closing keeps it. The end of libltdl
    closes by levels. \<open>parse_dotla_file\<close> reads an archive into a buffer that doubles.
  \<^bold>\<open>Not modelled.\<close> The clock \<^verbatim>\<open>oly_timestamp\<close>, the test programs and prototypes, and of the libraries under \<^verbatim>\<open>lib\<close> those
  that are copies of other projects: the allocator \<^verbatim>\<open>malloc.c\<close>, the loaders of modules \<^verbatim>\<open>libltdl/loaders\<close>,
  the search for the file of a module in \<^verbatim>\<open>ltdl.c\<close>, the Keccak for 32 bits, its test generator, and the vector units of the one for 64 bits. The
  unused macros of \<^verbatim>\<open>node_internal.c\<close> and \<^verbatim>\<open>node_external.c\<close> and the empty \<^verbatim>\<open>tag_json.c\<close> have no code.
\<close>

end
